(* ===== verification/Prelude.thy ===== *)
theory Prelude
  imports Main "HOL-Library.Word"
begin

text \<open>
  Shared vocabulary of the development.

  Rust's \<open>str\<close>/\<open>String\<close> is a \<^typ>\<open>string\<close>: a list of 8-bit \<^typ>\<open>char\<close>s, the UTF-8 bytes
  of the text, so \<open>len()\<close>, byte indexing and slicing of the source are \<^const>\<open>length\<close>,
  \<open>!\<close>, \<^const>\<open>take\<close> and \<^const>\<open>drop\<close>.  The standard-library string functions the source
  uses (\<open>split\<close>, \<open>strip_prefix\<close>, \<open>strip_suffix\<close>, \<open>find\<close>, \<open>trim\<close>, \<open>join\<close>,
  \<open>from_utf8\<close>, \<open>is_char_boundary\<close>) are defined here once, with the facts the components
  share.  A fallible Rust function returns \<open>'e + 'a\<close> (\<^const>\<open>Inl\<close> the error) and \<open>?\<close> is
  \<open>rbind\<close>.
\<close>

named_theorems str_simps \<open>rewriting the string operations of the standard library\<close>
named_theorems codec_simps \<open>readers applied to what the matching writers produce\<close>
named_theorems inv_intros \<open>operations keep the invariants of their component\<close>

type_synonym u8 = "8 word"
type_synonym u32 = "32 word"
type_synonym u64 = "64 word"
type_synonym ('e, 'a) result = "'e + 'a"

section \<open>Results and the question-mark operator\<close>

fun rbind :: "('e, 'a) result \<Rightarrow> ('a \<Rightarrow> ('e, 'b) result) \<Rightarrow> ('e, 'b) result" where
  "rbind (Inl e) f = Inl e"
| "rbind (Inr a) f = f a"

definition ok_or :: "'e \<Rightarrow> 'a option \<Rightarrow> ('e, 'a) result" where
  "ok_or e x = (case x of None \<Rightarrow> Inl e | Some a \<Rightarrow> Inr a)"

definition guard_err :: "bool \<Rightarrow> 'e \<Rightarrow> ('e, unit) result" where
  "guard_err b e = (if b then Inl e else Inr ())"

lemma rbind_cong [fundef_cong]:
  "\<lbrakk> x = y; \<And>a. y = Inr a \<Longrightarrow> f a = g a \<rbrakk> \<Longrightarrow> rbind x f = rbind y g"
  by (cases y) auto

lemma rbind_Inr_iff: "rbind x f = Inr b \<longleftrightarrow> (\<exists>a. x = Inr a \<and> f a = Inr b)"
  by (cases x) auto

lemma rbind_Inl_iff: "rbind x f = Inl e \<longleftrightarrow> x = Inl e \<or> (\<exists>a. x = Inr a \<and> f a = Inl e)"
  by (cases x) auto

lemma ok_or_simps [simp]:
  "ok_or e None = Inl e" "ok_or e (Some a) = Inr a"
  by (simp_all add: ok_or_def)

lemma ok_or_Inr_iff [simp]: "ok_or e x = Inr a \<longleftrightarrow> x = Some a"
  by (cases x) auto

lemma guard_err_Inr_iff [simp]: "guard_err b e = Inr u \<longleftrightarrow> \<not> b"
  by (simp add: guard_err_def)

lemma guard_err_Inl_iff [simp]: "guard_err b e = Inl e' \<longleftrightarrow> b \<and> e' = e"
  by (auto simp add: guard_err_def)

text \<open>\<open>Cow\<close>\<close>

datatype 'a cow = Borrowed 'a | Owned 'a

fun cow_value :: "'a cow \<Rightarrow> 'a" where
  "cow_value (Borrowed a) = a"
| "cow_value (Owned a) = a"

section \<open>Splitting and joining\<close>

text \<open>\<open>str::split(c)\<close>: there is always at least one, possibly empty, part.\<close>

fun split_on :: "'a \<Rightarrow> 'a list \<Rightarrow> 'a list list" where
  "split_on c [] = [[]]"
| "split_on c (x # xs) =
     (if x = c then [] # split_on c xs
      else (case split_on c xs of [] \<Rightarrow> [[x]] | p # ps \<Rightarrow> (x # p) # ps))"

fun join_with :: "'a list \<Rightarrow> 'a list list \<Rightarrow> 'a list" where
  "join_with sep [] = []"
| "join_with sep [p] = p"
| "join_with sep (p # q # ps) = p @ sep @ join_with sep (q # ps)"

lemma split_on_ne [simp]: "split_on c xs \<noteq> []"
  by (induction xs) (auto split: list.splits)

lemma join_split_on [simp]: "join_with [c] (split_on c xs) = xs"
proof (induction xs)
  case (Cons x xs)
  obtain p ps where "split_on c xs = p # ps"
    by (cases "split_on c xs") auto
  with Cons show ?case by (cases ps) auto
qed simp

lemma split_on_sep_free: "p \<in> set (split_on c xs) \<Longrightarrow> c \<notin> set p"
proof (induction xs arbitrary: p)
  case (Cons x xs)
  obtain q qs where qs: "split_on c xs = q # qs"
    by (cases "split_on c xs") auto
  have IH: "r = q \<or> r \<in> set qs \<Longrightarrow> c \<notin> set r" for r
    using Cons.IH [of r] by (auto simp: qs)
  show ?case
  proof (cases "x = c")
    case True
    with Cons.prems have "p = [] \<or> p = q \<or> p \<in> set qs" by (auto simp: qs)
    with IH [of p] show ?thesis by auto
  next
    case False
    with Cons.prems have "p = x # q \<or> p \<in> set qs" by (auto simp: qs)
    with False IH [of q] IH [of p] show ?thesis by auto
  qed
qed simp

lemma split_on_no_sep [str_simps]: "c \<notin> set xs \<Longrightarrow> split_on c xs = [xs]"
  by (induction xs) auto

lemma split_on_append_sep [str_simps]:
  "c \<notin> set p \<Longrightarrow> split_on c (p @ c # xs) = p # split_on c xs"
  by (induction p) auto

lemma split_on_append:
  "split_on c (xs @ c # ys) = split_on c xs @ split_on c ys"
proof (induction xs)
  case (Cons x xs)
  obtain q qs where "split_on c xs = q # qs"
    by (cases "split_on c xs") auto
  with Cons show ?case by simp
qed simp

lemma split_on_Cons_eq:
  assumes "split_on c xs = p # ps"
  shows "xs = p @ (if ps = [] then [] else c # join_with [c] ps)"
proof -
  have "xs = join_with [c] (p # ps)"
    using join_split_on [of c xs] assms by simp
  then show ?thesis by (cases ps) auto
qed

section \<open>Prefixes, suffixes and substring search\<close>

fun strip_prefix :: "'a list \<Rightarrow> 'a list \<Rightarrow> 'a list option" where
  "strip_prefix [] s = Some s"
| "strip_prefix (p # ps) [] = None"
| "strip_prefix (p # ps) (x # xs) = (if p = x then strip_prefix ps xs else None)"

lemma strip_prefix_Some_iff: "strip_prefix p s = Some t \<longleftrightarrow> s = p @ t"
  by (induction p s rule: strip_prefix.induct) auto

lemma strip_prefix_append [simp]: "strip_prefix p (p @ t) = Some t"
  by (simp add: strip_prefix_Some_iff)

lemma strip_prefix_None_iff: "strip_prefix p s = None \<longleftrightarrow> (\<nexists>t. s = p @ t)"
  by (metis not_None_eq strip_prefix_Some_iff)

definition starts_with :: "'a list \<Rightarrow> 'a list \<Rightarrow> bool" where
  "starts_with s p \<longleftrightarrow> strip_prefix p s \<noteq> None"

lemma starts_with_iff: "starts_with s p \<longleftrightarrow> (\<exists>t. s = p @ t)"
  by (auto simp: starts_with_def strip_prefix_Some_iff)

definition strip_suffix :: "'a list \<Rightarrow> 'a list \<Rightarrow> 'a list option" where
  "strip_suffix p s = map_option rev (strip_prefix (rev p) (rev s))"

lemma strip_suffix_Some_iff: "strip_suffix p s = Some t \<longleftrightarrow> s = t @ p"
proof -
  have "strip_suffix p s = Some t \<longleftrightarrow> rev s = rev p @ rev t"
    by (auto simp: strip_suffix_def strip_prefix_Some_iff)
  then show ?thesis by (metis rev_append rev_rev_ident)
qed

definition ends_with :: "'a list \<Rightarrow> 'a list \<Rightarrow> bool" where
  "ends_with s p \<longleftrightarrow> strip_suffix p s \<noteq> None"

lemma ends_with_iff: "ends_with s p \<longleftrightarrow> (\<exists>t. s = t @ p)"
  by (auto simp: ends_with_def strip_suffix_Some_iff)

text \<open>\<open>str::find(pat)\<close>: the byte offset of the first occurrence.\<close>

fun find_sub :: "'a list \<Rightarrow> 'a list \<Rightarrow> nat option" where
  "find_sub pat [] = (if pat = [] then Some 0 else None)"
| "find_sub pat (x # xs) =
     (if starts_with (x # xs) pat then Some 0 else map_option Suc (find_sub pat xs))"

lemma find_sub_Some_split: "find_sub pat s = Some n \<Longrightarrow> \<exists>t. drop n s = pat @ t \<and> n \<le> length s"
proof (induction pat s arbitrary: n rule: find_sub.induct)
  case (2 pat x xs)
  then show ?case by (fastforce simp: starts_with_iff split: if_splits)
qed (auto split: if_splits)

lemma find_sub_Some_first:
  "find_sub pat s = Some n \<Longrightarrow> m < n \<Longrightarrow> \<not> starts_with (drop m s) pat"
proof (induction pat s arbitrary: n m rule: find_sub.induct)
  case (2 pat x xs)
  from "2.prems" obtain n' where n': "\<not> starts_with (x # xs) pat" "find_sub pat xs = Some n'" "n = Suc n'"
    by (auto split: if_splits)
  with "2.prems" "2.IH" [OF n'(1,2)] show ?case by (cases m) auto
qed (auto split: if_splits)

lemma find_sub_bound: "find_sub pat s = Some n \<Longrightarrow> n + length pat \<le> length s"
  by (metis add.commute add_le_cancel_left drop_eq_Nil find_sub_Some_split le_add_diff_inverse
      length_append length_drop le_add1 add_le_mono order_refl)

lemma find_sub_split:
  assumes "find_sub pat s = Some n"
  shows "s = take n s @ pat @ drop (n + length pat) s"
proof -
  obtain t where t: "drop n s = pat @ t" using find_sub_Some_split [OF assms] by blast
  then have "drop (n + length pat) s = t"
    by (metis add.commute append_eq_conv_conj drop_drop)
  with t show ?thesis by (metis append_take_drop_id)
qed

lemma find_sub_None_iff: "find_sub pat s = None \<longleftrightarrow> (\<forall>m \<le> length s. \<not> starts_with (drop m s) pat)"
proof (induction pat s rule: find_sub.induct)
  case (1 pat)
  then show ?case by (auto simp: starts_with_iff)
next
  case (2 pat x xs)
  show ?case
  proof (cases "starts_with (x # xs) pat")
    case False
    have "(\<forall>m\<le>length (x # xs). \<not> starts_with (drop m (x # xs)) pat) \<longleftrightarrow>
          (\<forall>m\<le>length xs. \<not> starts_with (drop m xs) pat)"
      (is "?L \<longleftrightarrow> ?R")
    proof
      assume ?L then show ?R by fastforce
    next
      assume R: ?R
      show ?L
      proof (intro allI impI)
        fix m assume "m \<le> length (x # xs)"
        then show "\<not> starts_with (drop m (x # xs)) pat"
          using False R by (cases m) auto
      qed
    qed
    with False "2.IH" show ?thesis by simp
  qed auto
qed

lemma find_sub_skip:
  "set a \<inter> set pat = {} \<Longrightarrow> pat \<noteq> [] \<Longrightarrow> find_sub pat (a @ s) = map_option (\<lambda>n. length a + n) (find_sub pat s)"
proof (induction a)
  case Nil
  then show ?case by (cases "find_sub pat s") auto
next
  case (Cons x a)
  then have "\<not> starts_with (x # a @ s) pat" by (cases pat) (auto simp: starts_with_def)
  with Cons show ?case by (simp add: option.map_comp comp_def)
qed

lemma find_sub_disjoint: "set a \<inter> set pat = {} \<Longrightarrow> pat \<noteq> [] \<Longrightarrow> find_sub pat a = None"
  using find_sub_skip [of a pat "[]"] by simp

section \<open>Words\<close>

lemma unat_of_nat_small: "n < 2 ^ LENGTH('a :: len) \<Longrightarrow> unat (of_nat n :: 'a word) = n"
  by (simp add: unat_of_nat)

end
