(* ===== verification/Rust_Str.thy ===== *)
theory Rust_Str
  imports Prelude
begin

text \<open>
  The part of Rust's \<open>str\<close> that depends on the text being UTF-8: well-formedness
  (\<open>String::from_utf8\<close>), \<open>chars()\<close>, \<open>is_char_boundary\<close>, and \<open>trim\<close>, which strips the
  25 code points of the Unicode property \<open>White_Space\<close>.  Bytes are natural numbers below
  256 here; \<^term>\<open>bytes_of s\<close> are the bytes of a string.
\<close>

abbreviation bytes_of :: "string \<Rightarrow> nat list" where
  "bytes_of s \<equiv> map of_char s"

section \<open>Well-formed UTF-8\<close>

definition utf8_cont :: "nat \<Rightarrow> bool" where
  "utf8_cont b \<longleftrightarrow> 128 \<le> b \<and> b < 192"

text \<open>
  The length of the well-formed sequence at the front, 0 if there is none: the table of
  well-formed byte sequences of the Unicode standard (no overlong forms, no surrogates,
  nothing above U+10FFFF).  The lead byte fixes the length and, for four lead bytes, a
  narrower range of the second byte.
\<close>

definition utf8_need :: "nat \<Rightarrow> nat" where
  "utf8_need a =
     (if a < 128 then 1
      else if 194 \<le> a \<and> a \<le> 223 then 2
      else if 224 \<le> a \<and> a \<le> 239 then 3
      else if 240 \<le> a \<and> a \<le> 244 then 4
      else 0)"

definition utf8_second_ok :: "nat \<Rightarrow> nat list \<Rightarrow> bool" where
  "utf8_second_ok a r = (case r of
     [] \<Rightarrow> True
   | b # _ \<Rightarrow> (a = 224 \<longrightarrow> 160 \<le> b) \<and> (a = 237 \<longrightarrow> b < 160) \<and> (a = 240 \<longrightarrow> 144 \<le> b) \<and> (a = 244 \<longrightarrow> b < 144))"

definition utf8_len :: "nat list \<Rightarrow> nat" where
  "utf8_len bs = (case bs of
     [] \<Rightarrow> 0
   | a # r \<Rightarrow>
       if utf8_need a \<le> length bs \<and> list_all utf8_cont (take (utf8_need a - 1) r) \<and> utf8_second_ok a r
       then utf8_need a else 0)"

text \<open>The scalar value encoded by the sequence at the front.\<close>

definition utf8_cp :: "nat list \<Rightarrow> nat" where
  "utf8_cp bs =
     (if utf8_len bs = 1 then bs ! 0
      else if utf8_len bs = 2 then (bs ! 0 - 192) * 64 + (bs ! 1 - 128)
      else if utf8_len bs = 3 then (bs ! 0 - 224) * 4096 + (bs ! 1 - 128) * 64 + (bs ! 2 - 128)
      else (bs ! 0 - 240) * 262144 + (bs ! 1 - 128) * 4096 + (bs ! 2 - 128) * 64 + (bs ! 3 - 128))"

lemma utf8_len_Nil [simp]: "utf8_len [] = 0"
  by (simp add: utf8_len_def)

lemma utf8_len_le: "utf8_len bs \<le> length bs"
  by (simp add: utf8_len_def split: list.splits)

lemma utf8_len_pos:
  assumes "0 < utf8_len bs"
  obtains a r where "bs = a # r" "utf8_len bs = utf8_need a" "0 < utf8_need a" "utf8_need a \<le> length bs"
    "list_all utf8_cont (take (utf8_need a - 1) r)" "utf8_second_ok a r"
  using assms by (cases bs) (auto simp: utf8_len_def split: if_splits)

lemma utf8_need_1: "utf8_need a = 1 \<Longrightarrow> utf8_second_ok a r"
  by (auto simp: utf8_need_def utf8_second_ok_def split: if_splits list.splits)

lemma utf8_len_append: 
  assumes "0 < utf8_len a"
  shows "utf8_len (a @ b) = utf8_len a"
  using assms
proof (rule utf8_len_pos)
  fix x r
  assume a: "a = x # r" "utf8_len a = utf8_need x" "0 < utf8_need x" "utf8_need x \<le> length a"
    "list_all utf8_cont (take (utf8_need x - 1) r)" "utf8_second_ok x r"
  have "take (utf8_need x - 1) (r @ b) = take (utf8_need x - 1) r"
    using a(1,4) by simp
  moreover have "utf8_second_ok x (r @ b)"
  proof (cases r)
    case Nil
    with a have "utf8_need x = 1" by simp
    then show ?thesis by (rule utf8_need_1)
  qed (use a(6) in \<open>simp add: utf8_second_ok_def\<close>)
  ultimately show ?thesis using a by (simp add: utf8_len_def)
qed

lemma utf8_len_take:
  assumes "0 < utf8_len bs" "utf8_len bs \<le> n"
  shows "utf8_len (take n bs) = utf8_len bs"
  using assms(1)
proof (rule utf8_len_pos)
  fix x r
  assume a: "bs = x # r" "utf8_len bs = utf8_need x" "0 < utf8_need x" "utf8_need x \<le> length bs"
    "list_all utf8_cont (take (utf8_need x - 1) r)" "utf8_second_ok x r"
  obtain m where n: "n = Suc m" using assms a by (cases n) auto
  have m: "utf8_need x - 1 \<le> m" using assms(2) a(2) n by simp
  then have "take (utf8_need x - 1) (take m r) = take (utf8_need x - 1) r" by simp
  moreover have "utf8_second_ok x (take m r)"
    using a(6) by (cases r; cases m) (auto simp: utf8_second_ok_def)
  moreover have "utf8_need x \<le> length (take n bs)" using assms(2) a by simp
  ultimately show ?thesis using a n by (simp add: utf8_len_def)
qed

lemma utf8_len_inner_cont:
  assumes "0 < i" "i < utf8_len bs"
  shows "utf8_cont (bs ! i)"
proof -
  from assms have "0 < utf8_len bs" by simp
  then show ?thesis
  proof (rule utf8_len_pos)
    fix x r
    assume a: "bs = x # r" "utf8_len bs = utf8_need x" "utf8_need x \<le> length bs"
      "list_all utf8_cont (take (utf8_need x - 1) r)"
    from assms a have "i - 1 < length (take (utf8_need x - 1) r)" by auto
    with a(4) have "utf8_cont (take (utf8_need x - 1) r ! (i - 1))"
      by (simp only: list_all_length)
    with assms a show ?thesis by (simp add: nth_Cons')
  qed
qed

function utf8_valid :: "nat list \<Rightarrow> bool" where
  "utf8_valid bs \<longleftrightarrow>
     (if bs = [] then True
      else if utf8_len bs = 0 then False
      else utf8_valid (drop (utf8_len bs) bs))"
  by pat_completeness auto
termination
  by (relation "measure length") auto

function utf8_chars :: "nat list \<Rightarrow> nat list" where
  "utf8_chars bs =
     (if utf8_len bs = 0 then [] else utf8_cp bs # utf8_chars (drop (utf8_len bs) bs))"
  by pat_completeness auto
termination
proof (relation "measure length", goal_cases)
  case (2 bs)
  then have "bs \<noteq> []" by (cases bs) auto
  with 2 show ?case by simp
qed simp

declare utf8_valid.simps [simp del] utf8_chars.simps [simp del]

lemma utf8_valid_Nil [simp]: "utf8_valid []"
  by (simp add: utf8_valid.simps)

lemma utf8_valid_append: "utf8_valid a \<Longrightarrow> utf8_valid b \<Longrightarrow> utf8_valid (a @ b)"
proof (induction a rule: utf8_valid.induct)
  case (1 a)
  show ?case
  proof (cases "a = []")
    case False
    with "1.prems" have len: "utf8_len a > 0" and rest: "utf8_valid (drop (utf8_len a) a)"
      by (subst (asm) utf8_valid.simps; simp split: if_splits)+
    then have "utf8_valid (drop (utf8_len a) a @ b)"
      using "1.IH" False "1.prems"(2) by simp
    moreover have "drop (utf8_len (a @ b)) (a @ b) = drop (utf8_len a) a @ b"
      using len utf8_len_le [of a] by (simp add: utf8_len_append)
    ultimately show ?thesis
      using len False by (subst utf8_valid.simps) (simp add: utf8_len_append)
  qed (use "1.prems" in simp)
qed

lemma utf8_len_ascii [simp]: "b < 128 \<Longrightarrow> utf8_len (b # bs) = 1"
  by (simp add: utf8_len_def utf8_need_1 utf8_need_def)

lemma utf8_valid_ascii: "\<forall>b \<in> set bs. b < 128 \<Longrightarrow> utf8_valid bs"
  by (induction bs) (auto simp: utf8_valid.simps)

lemma utf8_chars_ascii: "\<forall>b \<in> set bs. b < 128 \<Longrightarrow> utf8_chars bs = bs"
  by (induction bs) (auto simp: utf8_chars.simps utf8_cp_def)

section \<open>Character boundaries\<close>

definition is_char_boundary :: "nat list \<Rightarrow> nat \<Rightarrow> bool" where
  "is_char_boundary bs i \<longleftrightarrow> i = 0 \<or> i = length bs \<or> (i < length bs \<and> \<not> utf8_cont (bs ! i))"

lemma utf8_valid_boundary:
  "utf8_valid bs \<Longrightarrow> is_char_boundary bs n \<Longrightarrow> utf8_valid (take n bs) \<and> utf8_valid (drop n bs)"
proof (induction bs arbitrary: n rule: utf8_valid.induct)
  case (1 bs)
  show ?case
  proof (cases "bs = [] \<or> n = 0")
    case False
    then have ne: "bs \<noteq> []" and n0: "0 < n" by auto
    let ?k = "utf8_len bs"
    from "1.prems"(1) ne have len: "?k > 0" and rest: "utf8_valid (drop ?k bs)"
      by (subst (asm) utf8_valid.simps; simp split: if_splits)+
    have kn: "?k \<le> n"
    proof (rule ccontr)
      assume "\<not> ?k \<le> n"
      with n0 have "utf8_cont (bs ! n)" and "n < length bs"
        using utf8_len_inner_cont [of n bs] utf8_len_le [of bs] by auto
      with "1.prems"(2) n0 show False by (auto simp: is_char_boundary_def)
    qed
    from "1.prems"(2) kn n0 have "is_char_boundary (drop ?k bs) (n - ?k)"
      by (auto simp: is_char_boundary_def)
    with "1.IH" ne len rest
    have IH: "utf8_valid (take (n - ?k) (drop ?k bs))" "utf8_valid (drop (n - ?k) (drop ?k bs))"
      by auto
    have "drop ?k (take n bs) = take (n - ?k) (drop ?k bs)"
      by (simp add: drop_take)
    with IH(1) len kn have "utf8_valid (take n bs)"
      by (subst utf8_valid.simps) (simp add: utf8_len_take)
    moreover have "drop (n - ?k) (drop ?k bs) = drop n bs"
      using kn by simp
    ultimately show ?thesis using IH(2) by simp
  qed (use "1.prems" in auto)
qed

section \<open>Trimming white space\<close>

text \<open>
  The UTF-8 forms of the 25 white-space code points, by length, and the length of the
  white-space character that starts, respectively ends, the bytes.
\<close>

definition ws1 :: "nat list list" where
  "ws1 = [[9], [10], [11], [12], [13], [32]]"

definition ws2 :: "nat list list" where
  "ws2 = [[194, 133], [194, 160]]"

definition ws3 :: "nat list list" where
  "ws3 = [[225, 154, 128], [226, 128, 128], [226, 128, 129], [226, 128, 130], [226, 128, 131],
     [226, 128, 132], [226, 128, 133], [226, 128, 134], [226, 128, 135], [226, 128, 136],
     [226, 128, 137], [226, 128, 138], [226, 128, 168], [226, 128, 169], [226, 128, 175],
     [226, 129, 159], [227, 128, 128]]"

definition ws_len :: "nat list \<Rightarrow> nat" where
  "ws_len bs =
     (if take 1 bs \<in> set ws1 then 1
      else if take 2 bs \<in> set ws2 then 2
      else if take 3 bs \<in> set ws3 then 3
      else 0)"

definition ws_len_end :: "nat list \<Rightarrow> nat" where
  "ws_len_end bs =
     (if drop (length bs - 1) bs \<in> set ws1 then 1
      else if drop (length bs - 2) bs \<in> set ws2 then 2
      else if drop (length bs - 3) bs \<in> set ws3 then 3
      else 0)"

lemma ws_table_lengths:
  "w \<in> set ws1 \<Longrightarrow> length w = 1" "w \<in> set ws2 \<Longrightarrow> length w = 2" "w \<in> set ws3 \<Longrightarrow> length w = 3"
  by (auto simp: ws1_def ws2_def ws3_def)

lemma ws_len_Nil [simp]: "ws_len [] = 0" "ws_len_end [] = 0"
  by (simp_all add: ws_len_def ws_len_end_def ws1_def ws2_def ws3_def)

lemma take_append_member:
  assumes "take n a \<in> set w" "\<And>x. x \<in> set w \<Longrightarrow> length x = n"
  shows "take n (a @ b) \<in> set w"
proof -
  have "n \<le> length a" using assms(2) [OF assms(1)] by simp
  then show ?thesis using assms(1) by simp
qed

lemma ws_len_prefix:
  assumes "ws_len (a @ b) = 0"
  shows "ws_len a = 0"
proof (rule ccontr)
  assume "ws_len a \<noteq> 0"
  then consider "take 1 a \<in> set ws1" | "take 2 a \<in> set ws2" | "take 3 a \<in> set ws3"
    unfolding ws_len_def by (simp del: take_append split: if_splits)
  then show False
  proof cases
    case 1
    then have "take 1 (a @ b) \<in> set ws1" by (rule take_append_member) (rule ws_table_lengths)
    then show ?thesis using assms unfolding ws_len_def by (simp del: take_append split: if_splits)
  next
    case 2
    then have "take 2 (a @ b) \<in> set ws2" by (rule take_append_member) (rule ws_table_lengths)
    then show ?thesis using assms unfolding ws_len_def by (simp del: take_append split: if_splits)
  next
    case 3
    then have "take 3 (a @ b) \<in> set ws3" by (rule take_append_member) (rule ws_table_lengths)
    then show ?thesis using assms unfolding ws_len_def by (simp del: take_append split: if_splits)
  qed
qed

function trim_start :: "string \<Rightarrow> string" where
  "trim_start s = (if ws_len (bytes_of s) = 0 then s else trim_start (drop (ws_len (bytes_of s)) s))"
  by pat_completeness auto
termination
proof (relation "measure length", goal_cases)
  case (2 s)
  then have "s \<noteq> []" by auto
  with 2 show ?case by simp
qed simp

function trim_end :: "string \<Rightarrow> string" where
  "trim_end s = (if ws_len_end (bytes_of s) = 0 then s
     else trim_end (take (length s - ws_len_end (bytes_of s)) s))"
  by pat_completeness auto
termination
proof (relation "measure length", goal_cases)
  case (2 s)
  then have "s \<noteq> []" by auto
  with 2 show ?case by simp
qed simp

definition trim :: "string \<Rightarrow> string" where
  "trim s = trim_end (trim_start s)"

declare trim_start.simps [simp del] trim_end.simps [simp del]

lemma trim_start_suffix: "\<exists>a. s = a @ trim_start s"
proof (induction s rule: trim_start.induct)
  case (1 s)
  show ?case
  proof (cases "ws_len (bytes_of s) = 0")
    case False
    then obtain a where "drop (ws_len (bytes_of s)) s = a @ trim_start (drop (ws_len (bytes_of s)) s)"
      using "1.IH" by blast
    then have "s = (take (ws_len (bytes_of s)) s @ a) @ trim_start s"
      using False by (metis append_assoc append_take_drop_id trim_start.simps)
    then show ?thesis by blast
  qed (simp add: trim_start.simps)
qed

lemma trim_end_prefix: "\<exists>b. s = trim_end s @ b"
proof (induction s rule: trim_end.induct)
  case (1 s)
  show ?case
  proof (cases "ws_len_end (bytes_of s) = 0")
    case False
    let ?t = "take (length s - ws_len_end (bytes_of s)) s"
    obtain b where "?t = trim_end ?t @ b" using "1.IH" False by blast
    then have "s = trim_end s @ (b @ drop (length s - ws_len_end (bytes_of s)) s)"
      using False by (metis append_assoc append_take_drop_id trim_end.simps)
    then show ?thesis by blast
  qed (simp add: trim_end.simps)
qed

lemma trim_sublist: "\<exists>a b. s = a @ trim s @ b"
  unfolding trim_def using trim_start_suffix [of s] trim_end_prefix [of "trim_start s"] by metis

lemma length_trim [simp]: "length (trim s) \<le> length s"
  using trim_sublist [of s] by (metis add_leD1 length_append le_add1 le_add2 order_trans)

lemma set_trim: "set (trim s) \<subseteq> set s"
proof -
  obtain a b where "s = a @ trim s @ b" using trim_sublist by blast
  then have "set s = set a \<union> set (trim s) \<union> set b" by (metis set_append sup_assoc)
  then show ?thesis by blast
qed

lemma trim_start_fix: "ws_len (bytes_of (trim_start s)) = 0"
proof (induction s rule: trim_start.induct)
  case (1 s)
  then show ?case
    by (cases "ws_len (bytes_of s) = 0") (simp_all add: trim_start.simps [of s])
qed

lemma trim_end_fix: "ws_len_end (bytes_of (trim_end s)) = 0"
proof (induction s rule: trim_end.induct)
  case (1 s)
  then show ?case
    by (cases "ws_len_end (bytes_of s) = 0") (simp_all add: trim_end.simps [of s])
qed

lemma trim_id: "ws_len (bytes_of s) = 0 \<Longrightarrow> ws_len_end (bytes_of s) = 0 \<Longrightarrow> trim s = s"
  by (simp add: trim_def trim_start.simps trim_end.simps)

lemma trim_trim [simp]: "trim (trim s) = trim s"
proof (rule trim_id)
  obtain b where "trim_start s = trim s @ b" using trim_end_prefix trim_def by metis
  then have "bytes_of (trim_start s) = bytes_of (trim s) @ bytes_of b"
    by (metis map_append)
  then show "ws_len (bytes_of (trim s)) = 0"
    using ws_len_prefix trim_start_fix by metis
  show "ws_len_end (bytes_of (trim s)) = 0"
    by (simp add: trim_def trim_end_fix)
qed

lemma trim_Nil [simp]: "trim [] = []"
  by (simp add: trim_id)

section \<open>ASCII classes\<close>

definition ascii_digit :: "nat \<Rightarrow> bool" where
  "ascii_digit b \<longleftrightarrow> 48 \<le> b \<and> b \<le> 57"

definition ascii_alpha :: "nat \<Rightarrow> bool" where
  "ascii_alpha b \<longleftrightarrow> (65 \<le> b \<and> b \<le> 90) \<or> (97 \<le> b \<and> b \<le> 122)"

abbreviation is_digit_char :: "char \<Rightarrow> bool" where
  "is_digit_char c \<equiv> ascii_digit (of_char c)"

definition to_ascii_lower :: "nat \<Rightarrow> nat" where
  "to_ascii_lower b = (if 65 \<le> b \<and> b \<le> 90 then b + 32 else b)"

abbreviation ascii_string :: "string \<Rightarrow> bool" where
  "ascii_string s \<equiv> \<forall>c \<in> set s. (of_char c :: nat) < 128"

end
