(* ===== verification/Rust_Num.thy ===== *)
theory Rust_Num
  imports Complex_Main Rust_Str
begin

text \<open>
  Rust's \<open>f64\<close> as far as the expression evaluator uses it: conversion from integers,
  \<open>str::parse::<f64>\<close>, \<open>str::parse::<i64>\<close>, equality and order.  A finite double is the
  rational number it denotes (the sign of zero is invisible to equality and order), and
  conversion rounds to nearest, ties to even, with 53 bits of precision, the smallest
  exponent \<open>-1074\<close> and overflow to infinity at \<open>2 ^ 1024\<close>.
\<close>

section \<open>Doubles\<close>

datatype f64 = Finite rat | Infinite bool | NaN

fun f64_eq :: "f64 \<Rightarrow> f64 \<Rightarrow> bool" where
  "f64_eq (Finite a) (Finite b) = (a = b)"
| "f64_eq (Infinite s) (Infinite t) = (s = t)"
| "f64_eq _ _ = False"

fun f64_lt :: "f64 \<Rightarrow> f64 \<Rightarrow> bool" where
  "f64_lt (Finite a) (Finite b) = (a < b)"
| "f64_lt (Finite a) (Infinite neg) = (\<not> neg)"
| "f64_lt (Infinite neg) (Finite b) = neg"
| "f64_lt (Infinite s) (Infinite t) = (s \<and> \<not> t)"
| "f64_lt _ _ = False"

definition f64_le :: "f64 \<Rightarrow> f64 \<Rightarrow> bool" where
  "f64_le a b \<longleftrightarrow> f64_lt a b \<or> f64_eq a b"

fun f64_is_finite :: "f64 \<Rightarrow> bool" where
  "f64_is_finite (Finite _) = True"
| "f64_is_finite _ = False"

lemma f64_lt_irrefl [simp]: "\<not> f64_lt a a"
  by (cases a) auto

lemma f64_lt_trans: "f64_lt a b \<Longrightarrow> f64_lt b c \<Longrightarrow> f64_lt a c"
  by (cases a; cases b; cases c) auto

lemma f64_total: "a \<noteq> NaN \<Longrightarrow> b \<noteq> NaN \<Longrightarrow> f64_lt a b \<or> f64_eq a b \<or> f64_lt b a"
  by (cases a; cases b) auto

lemma f64_exclusive: "f64_lt a b \<Longrightarrow> \<not> f64_lt b a \<and> \<not> f64_eq a b \<and> \<not> f64_eq b a"
  by (cases a; cases b) auto

lemma f64_eq_refl_iff: "f64_eq a a \<longleftrightarrow> a \<noteq> NaN"
  by (cases a) auto

section \<open>Rounding\<close>

fun ilog2 :: "nat \<Rightarrow> nat" where
  "ilog2 n = (if n < 2 then 0 else Suc (ilog2 (n div 2)))"

declare ilog2.simps [simp del]

definition pow2 :: "int \<Rightarrow> rat" where
  "pow2 e = (if 0 \<le> e then 2 ^ nat e else 1 / 2 ^ nat (- e))"

definition flog2 :: "rat \<Rightarrow> int" where
  "flog2 q = (let (p, d) = quotient_of q; e = int (ilog2 (nat p)) - int (ilog2 (nat d))
     in if pow2 e \<le> q then e else e - 1)"

definition round_half_even :: "rat \<Rightarrow> int" where
  "round_half_even q =
     (let f = \<lfloor>q\<rfloor>; r = q - of_int f
      in if r < 1/2 then f else if 1/2 < r then f + 1 else if even f then f else f + 1)"

definition round_abs :: "rat \<Rightarrow> rat" where
  "round_abs a = (let u = max (flog2 a - 52) (-1074) in of_int (round_half_even (a / pow2 u)) * pow2 u)"

definition round_f64 :: "rat \<Rightarrow> f64" where
  "round_f64 q =
     (if q = 0 then Finite 0
      else let v = round_abs \<bar>q\<bar>
           in if pow2 1024 \<le> v then Infinite (q < 0) else Finite (if q < 0 then - v else v))"

lemma ilog2_bounds: "0 < n \<Longrightarrow> 2 ^ ilog2 n \<le> n \<and> n < 2 ^ Suc (ilog2 n)"
proof (induction n rule: ilog2.induct)
  case (1 n)
  show ?case
  proof (cases "n < 2")
    case True
    with "1.prems" show ?thesis by (simp add: ilog2.simps)
  next
    case False
    then have "2 ^ ilog2 (n div 2) \<le> n div 2 \<and> n div 2 < 2 ^ Suc (ilog2 (n div 2))"
      using "1.IH" by simp
    then have "2 * 2 ^ ilog2 (n div 2) \<le> n \<and> n < 2 * 2 ^ Suc (ilog2 (n div 2))"
      by linarith
    with False show ?thesis by (simp add: ilog2.simps [of n])
  qed
qed

lemma round_half_even_int [simp]: "round_half_even (of_int n) = n"
  by (simp add: round_half_even_def)

lemma round_f64_0 [simp]: "round_f64 0 = Finite 0"
  by (simp add: round_f64_def)

lemma flog2_nat: "0 < n \<Longrightarrow> flog2 (of_nat n) = int (ilog2 n)"
proof -
  assume n: "0 < n"
  have "(2 :: rat) ^ ilog2 n \<le> of_nat n"
    using ilog2_bounds [OF n] by (metis of_nat_le_iff of_nat_numeral of_nat_power)
  moreover have "ilog2 (Suc 0) = 0" by (simp add: ilog2.simps)
  ultimately show ?thesis
    by (simp add: flog2_def pow2_def Let_def)
qed

text \<open>Integers of magnitude up to \<open>2 ^ 53\<close> convert without rounding.\<close>

lemma round_abs_nat:
  assumes "0 < n" "n \<le> 2 ^ 53"
  shows "round_abs (of_nat n) = of_nat n"
proof -
  let ?e = "ilog2 n"
  have e: "2 ^ ?e \<le> n" using ilog2_bounds [OF assms(1)] by simp
  define u where "u = max (flog2 (of_nat n) - 52) (-1074)"
  have u: "u = int ?e - 52" by (simp add: u_def flog2_nat [OF assms(1)])
  have "\<exists>m. (of_nat n :: rat) / pow2 u = of_int m"
  proof (cases "?e \<le> 52")
    case True
    then have "(of_nat n :: rat) / pow2 u = of_int (int n * 2 ^ (52 - ?e))"
      by (auto simp: u pow2_def nat_diff_distrib)
    then show ?thesis by blast
  next
    case False
    then have "(2::nat) ^ 53 \<le> 2 ^ ?e" by (intro power_increasing) auto
    with e assms(2) have n: "n = 2 ^ 53" and "2 ^ ?e = (2::nat) ^ 53" by linarith+
    then have "?e = 53" by (metis power_inject_exp one_less_numeral_iff semiring_norm(76))
    then have "(of_nat n :: rat) / pow2 u = of_int (2 ^ 52)"
      by (simp add: u pow2_def n)
    then show ?thesis by blast
  qed
  then obtain m where m: "(of_nat n :: rat) / pow2 u = of_int m" by blast
  have "pow2 u \<noteq> 0" by (simp add: pow2_def)
  with m have "of_int (round_half_even (of_nat n / pow2 u)) * pow2 u = (of_nat n :: rat)"
    by (metis nonzero_eq_divide_eq round_half_even_int)
  then show ?thesis by (simp add: round_abs_def u_def Let_def)
qed

lemma round_f64_int_exact:
  assumes "\<bar>n\<bar> \<le> 2 ^ 53"
  shows "round_f64 (of_int n) = Finite (of_int n)"
proof (cases "n = 0")
  case False
  let ?a = "nat \<bar>n\<bar>"
  have a: "0 < ?a" "?a \<le> 2 ^ 53" using False assms by auto
  have abs: "\<bar>of_int n :: rat\<bar> = of_nat ?a" by simp
  have "(of_nat ?a :: rat) \<le> 2 ^ 53"
    using a(2) by (metis of_nat_le_iff of_nat_numeral of_nat_power)
  also have "(2 :: rat) ^ 53 < 2 ^ 1024" by (rule power_strict_increasing) auto
  finally have "\<not> pow2 1024 \<le> (of_nat ?a :: rat)" by (simp add: pow2_def)
  then show ?thesis
    using False by (simp only: round_f64_def abs round_abs_nat [OF a] Let_def) simp
qed simp

section \<open>Parsing numbers\<close>

definition digit_val :: "char \<Rightarrow> nat" where
  "digit_val c = of_char c - 48"

definition digits_val :: "string \<Rightarrow> nat" where
  "digits_val ds = foldl (\<lambda>n c. 10 * n + digit_val c) 0 ds"

definition split_sign :: "string \<Rightarrow> bool \<times> string" where
  "split_sign s = (case s of
     [] \<Rightarrow> (False, [])
   | c # r \<Rightarrow> if c = CHR ''-'' then (True, r) else if c = CHR ''+'' then (False, r) else (False, s))"

text \<open>\<open>str::parse::<i64>\<close>: an optional sign, at least one digit, no overflow.\<close>

definition parse_i64 :: "string \<Rightarrow> int option" where
  "parse_i64 s = (let (neg, ds) = split_sign s in
     if ds = [] \<or> \<not> list_all is_digit_char ds then None
     else let n = int (digits_val ds); v = (if neg then - n else n)
          in if - (2 ^ 63) \<le> v \<and> v < 2 ^ 63 then Some v else None)"

definition lower :: "string \<Rightarrow> string" where
  "lower s = map (\<lambda>c. char_of (to_ascii_lower (of_char c))) s"

text \<open>The optional exponent of a decimal number; \<open>None\<close> for trailing garbage.\<close>

definition parse_exponent :: "string \<Rightarrow> int option" where
  "parse_exponent s = (case s of
     [] \<Rightarrow> Some 0
   | c # r \<Rightarrow>
       if c = CHR ''e'' \<or> c = CHR ''E'' then
         (let (neg, ds) = split_sign r in
          if ds = [] \<or> \<not> list_all is_digit_char ds then None
          else Some (if neg then - int (digits_val ds) else int (digits_val ds)))
       else None)"

definition pow10 :: "int \<Rightarrow> rat" where
  "pow10 e = (if 0 \<le> e then 10 ^ nat e else 1 / 10 ^ nat (- e))"

definition parse_decimal :: "string \<Rightarrow> rat option" where
  "parse_decimal s =
     (let ip = takeWhile is_digit_char s;
          r1 = dropWhile is_digit_char s;
          dot = (r1 \<noteq> [] \<and> hd r1 = CHR ''.'');
          r2 = (if dot then tl r1 else r1);
          fp = (if dot then takeWhile is_digit_char r2 else []);
          r3 = (if dot then dropWhile is_digit_char r2 else r1)
      in if ip = [] \<and> fp = [] then None
         else map_option (\<lambda>e. of_nat (digits_val (ip @ fp)) * pow10 (e - int (length fp)))
                (parse_exponent r3))"

definition parse_f64 :: "string \<Rightarrow> f64 option" where
  "parse_f64 s = (let (neg, r) = split_sign s; l = lower r in
     if l = ''inf'' \<or> l = ''infinity'' then Some (Infinite neg)
     else if l = ''nan'' then Some NaN
     else map_option (\<lambda>q. round_f64 (if neg then - q else q)) (parse_decimal r))"

lemma parse_i64_range: "parse_i64 s = Some v \<Longrightarrow> - (2 ^ 63) \<le> v \<and> v < 2 ^ 63"
  by (auto simp: parse_i64_def Let_def split: prod.splits if_splits)

text \<open>A literal that parses as an integer parses as the double nearest to it.\<close>

lemma parse_f64_of_i64:
  assumes "parse_i64 s = Some v"
  shows "parse_f64 s = Some (round_f64 (of_int v))"
proof -
  obtain neg ds where sp: "split_sign s = (neg, ds)" by (cases "split_sign s")
  with assms have ds: "ds \<noteq> []" "list_all is_digit_char ds"
    and v: "v = (if neg then - int (digits_val ds) else int (digits_val ds))"
    by (auto simp: parse_i64_def Let_def split: if_splits)
  have all: "takeWhile is_digit_char ds = ds" "dropWhile is_digit_char ds = []"
    using ds(2) by (auto simp: list_all_iff)
  obtain c r where c: "ds = c # r" using ds(1) by (cases ds) auto
  with ds(2) have dig: "ascii_digit (of_char c)" by simp
  then have low: "lower ds = c # lower r"
    by (simp add: c lower_def to_ascii_lower_def ascii_digit_def)
  have "c \<noteq> CHR ''i''" "c \<noteq> CHR ''n''" using dig by (auto simp: ascii_digit_def)
  then have "\<not> (lower ds = ''inf'' \<or> lower ds = ''infinity'')" "lower ds \<noteq> ''nan''"
    by (auto simp: low)
  moreover have "parse_decimal ds = Some (of_nat (digits_val ds))"
    using ds(1) by (simp add: parse_decimal_def all parse_exponent_def pow10_def)
  ultimately show ?thesis
    by (simp add: parse_f64_def sp v)
qed

end
