(* ===== verification/Json_State.thy ===== *)
theory Json_State
  imports Rust_Num
begin

text \<open>
  \<open>serde_json::Value\<close> and the state lookup of \<open>crates/webui-state/src/lib.rs\<close>.

  An object is the association list of its members in order; a map holds each key at most
  once (\<open>json_wf\<close>).  A \<open>Cow\<close> keeps whether the result still points into the request state
  (\<open>Borrowed\<close>) or was made up on the way (\<open>Owned\<close>, the synthetic \<open>.length\<close>).
\<close>

section \<open>JSON values\<close>

datatype number = PosInt u64 | NegInt int | Float f64

datatype json =
    JNull
  | JBool bool
  | JNumber number
  | JString string
  | JArray "json list"
  | JObject "(string \<times> json) list"

definition number_of_i64 :: "int \<Rightarrow> number" where
  "number_of_i64 n = (if n < 0 then NegInt n else PosInt (word_of_int n))"

definition number_of_usize :: "nat \<Rightarrow> number" where
  "number_of_usize n = PosInt (word_of_nat n)"

fun as_f64 :: "number \<Rightarrow> f64 option" where
  "as_f64 (PosInt n) = Some (round_f64 (of_nat (unat n)))"
| "as_f64 (NegInt n) = Some (round_f64 (of_int n))"
| "as_f64 (Float x) = Some x"

fun number_eq :: "number \<Rightarrow> number \<Rightarrow> bool" where
  "number_eq (PosInt a) (PosInt b) = (a = b)"
| "number_eq (NegInt a) (NegInt b) = (a = b)"
| "number_eq (Float a) (Float b) = f64_eq a b"
| "number_eq _ _ = False"

text \<open>\<open>impl PartialEq for Value\<close>; two maps are equal when they hold equal values under the same keys.\<close>

fun json_eq :: "json \<Rightarrow> json \<Rightarrow> bool"
  and json_eq_list :: "json list \<Rightarrow> json list \<Rightarrow> bool"
  and json_eq_members :: "(string \<times> json) list \<Rightarrow> (string \<times> json) list \<Rightarrow> bool" where
  "json_eq JNull JNull = True"
| "json_eq (JBool a) (JBool b) = (a = b)"
| "json_eq (JNumber a) (JNumber b) = number_eq a b"
| "json_eq (JString a) (JString b) = (a = b)"
| "json_eq (JArray a) (JArray b) = json_eq_list a b"
| "json_eq (JObject a) (JObject b) = (length a = length b \<and> json_eq_members a b)"
| "json_eq _ _ = False"
| "json_eq_list [] [] = True"
| "json_eq_list (x # xs) (y # ys) = (json_eq x y \<and> json_eq_list xs ys)"
| "json_eq_list _ _ = False"
| "json_eq_members [] b = True"
| "json_eq_members ((k, v) # a) b =
     ((case map_of b k of None \<Rightarrow> False | Some w \<Rightarrow> json_eq v w) \<and> json_eq_members a b)"

text \<open>What every value built by the parser satisfies: finite floats, proper negatives, distinct keys.\<close>

fun number_wf :: "number \<Rightarrow> bool" where
  "number_wf (PosInt _) = True"
| "number_wf (NegInt n) = (- (2 ^ 63) \<le> n \<and> n < 0)"
| "number_wf (Float x) = f64_is_finite x"

fun json_wf :: "json \<Rightarrow> bool" where
  "json_wf (JNumber n) = number_wf n"
| "json_wf (JArray xs) = list_all json_wf xs"
| "json_wf (JObject ms) = (distinct (map fst ms) \<and> list_all (\<lambda>m. json_wf (snd m)) ms)"
| "json_wf _ = True"

section \<open>Member lookup\<close>

definition LINEAR_MEMBER_LOOKUP_MAX :: nat where
  "LINEAR_MEMBER_LOOKUP_MAX = 8"

fun linear_member :: "(string \<times> 'v) list \<Rightarrow> string \<Rightarrow> 'v option" where
  "linear_member [] key = None"
| "linear_member ((name, value) # rest) key = (if name = key then Some value else linear_member rest key)"

definition object_member :: "(string \<times> 'v) list \<Rightarrow> string \<Rightarrow> 'v option" where
  "object_member m key =
     (if length m \<le> LINEAR_MEMBER_LOOKUP_MAX then linear_member m key else map_of m key)"

lemma linear_member_eq [simp]: "linear_member m key = map_of m key"
  by (induction m key rule: linear_member.induct) auto

lemma object_member_eq [simp]: "object_member m key = map_of m key"
  by (simp add: object_member_def)

section \<open>Dotted paths\<close>

text \<open>The loop over \<open>path.split('.')\<close>: \<open>length\<close> of an array or a string ends it at once.\<close>

fun walk_path :: "string list \<Rightarrow> json \<Rightarrow> json cow option" where
  "walk_path [] v = Some (Borrowed v)"
| "walk_path (part # parts) v = (case v of
     JObject m \<Rightarrow> (case object_member m part of None \<Rightarrow> None | Some w \<Rightarrow> walk_path parts w)
   | JArray xs \<Rightarrow> if part = ''length'' then Some (Owned (JNumber (number_of_usize (length xs)))) else None
   | JString s \<Rightarrow> if part = ''length'' then Some (Owned (JNumber (number_of_usize (length s)))) else None
   | _ \<Rightarrow> None)"

definition find_value_by_dotted_path_ref :: "string \<Rightarrow> json \<Rightarrow> json cow option" where
  "find_value_by_dotted_path_ref path state = walk_path (split_on (CHR ''.'') path) state"

definition find_value_by_dotted_path :: "string \<Rightarrow> json \<Rightarrow> json option" where
  "find_value_by_dotted_path path state = map_option cow_value (find_value_by_dotted_path_ref path state)"

section \<open>Facts about lookup\<close>

text \<open>Following a path in two stages; a synthetic length absorbs whatever follows it.\<close>

lemma walk_path_append:
  "walk_path (xs @ ys) v = (case walk_path xs v of
     None \<Rightarrow> None
   | Some (Borrowed w) \<Rightarrow> walk_path ys w
   | Some (Owned n) \<Rightarrow> Some (Owned n))"
proof (induction xs arbitrary: v)
  case (Cons x xs)
  then show ?case by (cases v) (auto split: option.splits)
qed simp

text \<open>\<open>subvalue w v\<close>: \<open>w\<close> occurs in \<open>v\<close>, so a reference to it borrows from \<open>v\<close>.\<close>

inductive subvalue :: "json \<Rightarrow> json \<Rightarrow> bool" where
  sub_refl: "subvalue v v"
| sub_member: "(k, w) \<in> set m \<Longrightarrow> subvalue u w \<Longrightarrow> subvalue u (JObject m)"
| sub_element: "w \<in> set xs \<Longrightarrow> subvalue u w \<Longrightarrow> subvalue u (JArray xs)"

lemma walk_path_borrowed_subvalue: "walk_path ps v = Some (Borrowed w) \<Longrightarrow> subvalue w v"
proof (induction ps arbitrary: v)
  case (Cons p ps)
  then show ?case
    by (auto split: json.splits option.splits if_splits dest!: map_of_SomeD intro: subvalue.intros)
qed (auto intro: sub_refl)

lemma walk_path_owned_number: "walk_path ps v = Some (Owned w) \<Longrightarrow> \<exists>n. w = JNumber (PosInt n)"
proof (induction ps arbitrary: v)
  case (Cons p ps)
  then show ?case
    by (auto simp: number_of_usize_def split: json.splits option.splits if_splits)
qed simp

lemma subvalue_wf: "subvalue w v \<Longrightarrow> json_wf v \<Longrightarrow> json_wf w"
  by (induction rule: subvalue.induct) (auto simp: list_all_iff)

lemma find_ref_simple [simp]:
  "CHR ''.'' \<notin> set p \<Longrightarrow> find_value_by_dotted_path_ref p v = walk_path [p] v"
  by (simp add: find_value_by_dotted_path_ref_def split_on_no_sep)

lemma find_ref_join:
  "find_value_by_dotted_path_ref (p @ CHR ''.'' # rest) v =
     (case find_value_by_dotted_path_ref p v of
        None \<Rightarrow> None
      | Some (Borrowed w) \<Rightarrow> find_value_by_dotted_path_ref rest w
      | Some (Owned n) \<Rightarrow> Some (Owned n))"
  by (simp add: find_value_by_dotted_path_ref_def split_on_append walk_path_append split: option.split cow.split)

lemma number_eq_refl: "number_wf n \<Longrightarrow> number_eq n n"
  by (cases n rule: number_wf.cases) (auto simp: f64_eq_refl_iff)

lemma number_eq_sym: "number_eq a b = number_eq b a"
proof -
  have "f64_eq x y = f64_eq y x" for x y by (cases x; cases y) auto
  then show ?thesis by (cases a; cases b) auto
qed

lemma json_eq_list_refl: "(\<And>x. x \<in> set xs \<Longrightarrow> json_eq x x) \<Longrightarrow> json_eq_list xs xs"
  by (induction xs) auto

lemma json_eq_members_map_of:
  "json_eq_members a b \<longleftrightarrow> (\<forall>(k, v) \<in> set a. \<exists>w. map_of b k = Some w \<and> json_eq v w)"
  by (induction a) (auto split: option.splits)

lemma json_eq_refl: "json_wf v \<Longrightarrow> json_eq v v"
proof (induction v)
  case (JArray xs)
  then show ?case by (auto simp: list_all_iff intro: json_eq_list_refl)
next
  case (JObject ms)
  have "map_of ms k = Some v \<and> json_eq v v" if "(k, v) \<in> set ms" for k v
  proof -
    from that JObject.prems have "map_of ms k = Some v" "json_wf v"
      by (auto simp: list_all_iff)
    moreover have "json_eq v v"
      using JObject.IH [OF that] \<open>json_wf v\<close> by (simp add: snds.simps)
    ultimately show ?thesis by blast
  qed
  then show ?case by (auto simp: json_eq_members_map_of)
qed (auto simp: number_eq_refl)

section \<open>Properties\<close>

text \<open>
  C34.  Lookup along a dotted path is compositional: looking up \<open>p.rest\<close> is looking up \<open>p\<close>
  and then \<open>rest\<close> in what was found; a missing prefix makes the whole path missing, and
  once a synthetic \<open>length\<close> has been produced the rest of the path is ignored.
\<close>

theorem dotted_path_compositional:
  "find_value_by_dotted_path (p @ CHR ''.'' # rest) v =
     (case find_value_by_dotted_path_ref p v of
        None \<Rightarrow> None
      | Some (Borrowed w) \<Rightarrow> find_value_by_dotted_path rest w
      | Some (Owned n) \<Rightarrow> Some n)"
  by (auto simp: find_value_by_dotted_path_def find_ref_join split: option.splits cow.splits)

text \<open>
   What lookup returns: a borrowed result is a part of the state it was looked up in
  (so it is well formed when the state is), an owned one is always a number, the length of
  an array or a string.
\<close>

theorem dotted_path_result:
  assumes "json_wf state" "find_value_by_dotted_path_ref path state = Some r"
  shows "case r of Borrowed w \<Rightarrow> subvalue w state \<and> json_wf w | Owned w \<Rightarrow> (\<exists>n. w = JNumber (PosInt n))"
proof (cases r)
  case (Borrowed w)
  with assms(2) have "subvalue w state"
    by (auto simp: find_value_by_dotted_path_ref_def intro: walk_path_borrowed_subvalue)
  with assms(1) Borrowed show ?thesis by (auto intro: subvalue_wf)
next
  case (Owned w)
  with assms(2) show ?thesis
    by (auto simp: find_value_by_dotted_path_ref_def dest: walk_path_owned_number)
qed

theorem dotted_path_result_witness:
  "subvalue (JString ''John'') (JObject [(''name'', JObject [(''first'', JString ''John'')])])"
  using dotted_path_result [of "JObject [(''name'', JObject [(''first'', JString ''John'')])]"
      "''name.first''" "Borrowed (JString ''John'')"]
  by (simp add: find_value_by_dotted_path_ref_def)

end
