(* ===== verification/Conditions.thy ===== *)
theory Conditions
  imports Json_State
begin

text \<open>
  The condition trees of the protocol (\<open>crates/webui-protocol/src/gen_webui.rs\<close> and the
  constructors of \<open>lib.rs\<close>) and the operator count of
  \<open>crates/webui-expressions/src/lib.rs\<close>: the walk over a LIFO stack that keeps its first
  eight entries inline (\<open>PendingExprs\<close>), proved to compute what the recursive count does
  and to stay inline on every condition the evaluator accepts.
\<close>

section \<open>Condition trees\<close>

text \<open>
  Every message field of the protocol may be absent, and enumerations travel as \<open>i32\<close>.
\<close>

datatype condition_expr =
    ExprNone
  | ExprPredicate (pred_left: string) (pred_operator: int) (pred_right: string)
  | ExprNot "condition_expr option"
  | ExprCompound "condition_expr option" int "condition_expr option"
  | ExprIdentifier string

datatype logical_operator = LUnspecified | LAnd | LOr

datatype comparison_operator =
    CUnspecified | GreaterThan | LessThan | CEqual | NotEqual | GreaterThanOrEqual | LessThanOrEqual

fun logical_i32 :: "logical_operator \<Rightarrow> int" where
  "logical_i32 LUnspecified = 0"
| "logical_i32 LAnd = 1"
| "logical_i32 LOr = 2"

definition logical_try_from :: "int \<Rightarrow> logical_operator option" where
  "logical_try_from n =
     (if n = 0 then Some LUnspecified else if n = 1 then Some LAnd else if n = 2 then Some LOr else None)"

fun comparison_i32 :: "comparison_operator \<Rightarrow> int" where
  "comparison_i32 CUnspecified = 0"
| "comparison_i32 GreaterThan = 1"
| "comparison_i32 LessThan = 2"
| "comparison_i32 CEqual = 3"
| "comparison_i32 NotEqual = 4"
| "comparison_i32 GreaterThanOrEqual = 5"
| "comparison_i32 LessThanOrEqual = 6"

definition comparison_try_from :: "int \<Rightarrow> comparison_operator option" where
  "comparison_try_from n =
     (if n = 0 then Some CUnspecified else if n = 1 then Some GreaterThan
      else if n = 2 then Some LessThan else if n = 3 then Some CEqual
      else if n = 4 then Some NotEqual else if n = 5 then Some GreaterThanOrEqual
      else if n = 6 then Some LessThanOrEqual else None)"

lemma logical_try_from_i32 [simp]: "logical_try_from (logical_i32 op) = Some op"
  by (cases op) (simp_all add: logical_try_from_def)

lemma comparison_try_from_i32 [simp]: "comparison_try_from (comparison_i32 op) = Some op"
  by (cases op) (simp_all add: comparison_try_from_def)

definition cond_identifier :: "string \<Rightarrow> condition_expr" where
  "cond_identifier value = ExprIdentifier value"

definition cond_predicate :: "string \<Rightarrow> comparison_operator \<Rightarrow> string \<Rightarrow> condition_expr" where
  "cond_predicate left op right = ExprPredicate left (comparison_i32 op) right"

definition cond_negated :: "condition_expr \<Rightarrow> condition_expr" where
  "cond_negated inner = ExprNot (Some inner)"

definition cond_compound :: "condition_expr \<Rightarrow> logical_operator \<Rightarrow> condition_expr \<Rightarrow> condition_expr" where
  "cond_compound left op right = ExprCompound (Some left) (logical_i32 op) (Some right)"

section \<open>The pending stack\<close>

definition INLINE_PENDING_EXPRS :: nat where
  "INLINE_PENDING_EXPRS = 8"

text \<open>The fixed array is a function on its indices; every index the code uses is below 8.\<close>

record pending_exprs =
  inline :: "nat \<Rightarrow> condition_expr option"
  inline_len :: nat
  overflow :: "condition_expr list"

definition pending_new :: "condition_expr \<Rightarrow> pending_exprs" where
  "pending_new expr = \<lparr>inline = (\<lambda>_. None)(0 := Some expr), inline_len = 1, overflow = []\<rparr>"

definition pending_push :: "condition_expr \<Rightarrow> pending_exprs \<Rightarrow> pending_exprs" where
  "pending_push expr s =
     (if inline_len s < INLINE_PENDING_EXPRS
      then s\<lparr>inline := (inline s)(inline_len s := Some expr), inline_len := inline_len s + 1\<rparr>
      else s\<lparr>overflow := overflow s @ [expr]\<rparr>)"

definition pending_pop :: "pending_exprs \<Rightarrow> condition_expr option \<times> pending_exprs" where
  "pending_pop s =
     (if overflow s \<noteq> [] then (Some (last (overflow s)), s\<lparr>overflow := butlast (overflow s)\<rparr>)
      else if inline_len s = 0 then (None, s)
      else (inline s (inline_len s - 1),
            s\<lparr>inline_len := inline_len s - 1, inline := (inline s)(inline_len s - 1 := None)\<rparr>))"

text \<open>The stack a value stands for, top first, and what the operations keep.\<close>

definition pending_list :: "pending_exprs \<Rightarrow> condition_expr list" where
  "pending_list s = rev (overflow s) @ rev (map (the \<circ> inline s) [0..<inline_len s])"

definition pending_invar :: "pending_exprs \<Rightarrow> bool" where
  "pending_invar s \<longleftrightarrow>
     inline_len s \<le> INLINE_PENDING_EXPRS \<and> (\<forall>i < inline_len s. inline s i \<noteq> None) \<and>
     (overflow s \<noteq> [] \<longrightarrow> inline_len s = INLINE_PENDING_EXPRS)"

text \<open>The interface of a LIFO stack, as the walk uses it.\<close>

locale lifo =
  fixes push :: "'a \<Rightarrow> 's \<Rightarrow> 's" and pop :: "'s \<Rightarrow> 'a option \<times> 's"
    and stack :: "'s \<Rightarrow> 'a list" and invar :: "'s \<Rightarrow> bool"
  assumes stack_push: "invar s \<Longrightarrow> stack (push x s) = x # stack s"
    and invar_push: "invar s \<Longrightarrow> invar (push x s)"
    and pop_empty: "invar s \<Longrightarrow> stack s = [] \<Longrightarrow> pop s = (None, s)"
    and pop_cons: "invar s \<Longrightarrow> stack s = x # xs \<Longrightarrow> \<exists>t. pop s = (Some x, t) \<and> invar t \<and> stack t = xs"
begin

definition push_option :: "'a option \<Rightarrow> 's \<Rightarrow> 's" where
  "push_option e s = (case e of None \<Rightarrow> s | Some x \<Rightarrow> push x s)"

lemma push_option_spec:
  "invar s \<Longrightarrow> invar (push_option e s) \<and> stack (push_option e s) = (case e of None \<Rightarrow> [] | Some x \<Rightarrow> [x]) @ stack s"
  by (simp add: push_option_def stack_push invar_push split: option.split)

lemma pop_push: "invar s \<Longrightarrow> \<exists>t. pop (push x s) = (Some x, t) \<and> invar t \<and> stack t = stack s"
  by (simp add: invar_push pop_cons stack_push)

lemma pop_cases:
  assumes "invar s"
  obtains "stack s = []" "pop s = (None, s)"
  | x xs t where "stack s = x # xs" "pop s = (Some x, t)" "invar t" "stack t = xs"
  using assms pop_empty pop_cons by (cases "stack s") blast+

end

lemma pending_list_push: "pending_invar s \<Longrightarrow> pending_list (pending_push x s) = x # pending_list s"
  by (auto simp: pending_list_def pending_push_def pending_invar_def)

lemma pending_invar_push: "pending_invar s \<Longrightarrow> pending_invar (pending_push x s)"
  by (auto simp: pending_invar_def pending_push_def less_Suc_eq)

lemma pending_pop_cons:
  assumes inv: "pending_invar s" and st: "pending_list s = x # xs"
  shows "\<exists>t. pending_pop s = (Some x, t) \<and> pending_invar t \<and> pending_list t = xs"
proof (cases "overflow s = []")
  case True
  then obtain n where n: "inline_len s = Suc n"
    using st by (cases "inline_len s") (auto simp: pending_list_def)
  with inv st True show ?thesis
    by (auto simp: pending_pop_def pending_list_def pending_invar_def)
next
  case False
  then obtain ys y where "overflow s = ys @ [y]" by (cases "overflow s" rule: rev_cases) auto
  with st inv show ?thesis
    by (simp add: pending_pop_def pending_invar_def pending_list_def)
qed

lemma pending_pop_empty: "pending_invar s \<Longrightarrow> pending_list s = [] \<Longrightarrow> pending_pop s = (None, s)"
  by (auto simp: pending_list_def pending_pop_def)

interpretation pend: lifo pending_push pending_pop pending_list pending_invar
  by unfold_locales (simp_all add: pending_list_push pending_invar_push pending_pop_empty pending_pop_cons)

lemma pending_new_spec [simp]:
  "pending_invar (pending_new expr)" "pending_list (pending_new expr) = [expr]"
  by (auto simp: pending_new_def pending_invar_def pending_list_def INLINE_PENDING_EXPRS_def)

section \<open>Counting the logical operators\<close>

text \<open>The sub-expressions the loop body pushes, the last one ending on top.\<close>

fun push_children :: "condition_expr \<Rightarrow> pending_exprs \<Rightarrow> pending_exprs" where
  "push_children (ExprCompound left op right) s =
     (let s1 = (case right of None \<Rightarrow> s | Some r \<Rightarrow> pending_push r s)
      in (case left of None \<Rightarrow> s1 | Some l \<Rightarrow> pending_push l s1))"
| "push_children (ExprNot inner) s = (case inner of None \<Rightarrow> s | Some e \<Rightarrow> pending_push e s)"
| "push_children _ s = s"

record op_count =
  oc_count :: nat
  oc_last :: "int option"
  oc_mixed :: bool

fun count_visit :: "condition_expr \<Rightarrow> op_count \<Rightarrow> op_count" where
  "count_visit (ExprCompound left op right) c =
     (case oc_last c of
        Some last_op \<Rightarrow> c\<lparr>oc_count := oc_count c + 1, oc_mixed := (if last_op \<noteq> op then True else oc_mixed c)\<rparr>
      | None \<Rightarrow> c\<lparr>oc_count := oc_count c + 1, oc_last := Some op\<rparr>)"
| "count_visit _ c = c"

text \<open>Termination: the nodes on the stack get fewer with every pop.\<close>

fun nodes :: "condition_expr \<Rightarrow> nat" where
  "nodes (ExprCompound left op right) =
     1 + (case left of None \<Rightarrow> 0 | Some l \<Rightarrow> nodes l) + (case right of None \<Rightarrow> 0 | Some r \<Rightarrow> nodes r)"
| "nodes (ExprNot inner) = 1 + (case inner of None \<Rightarrow> 0 | Some e \<Rightarrow> nodes e)"
| "nodes _ = 1"

definition pending_nodes :: "pending_exprs \<Rightarrow> nat" where
  "pending_nodes s = sum_list (map nodes (overflow s)) +
     (\<Sum>i < inline_len s. case inline s i of None \<Rightarrow> 0 | Some x \<Rightarrow> nodes x)"

lemma pending_nodes_push: "pending_nodes (pending_push e s) = nodes e + pending_nodes s"
  by (simp add: pending_nodes_def pending_push_def)

lemma pending_nodes_pop: "pending_pop s = (Some e, t) \<Longrightarrow> pending_nodes s = nodes e + pending_nodes t"
proof (cases "overflow s" rule: rev_cases)
  case Nil
  assume "pending_pop s = (Some e, t)"
  with Nil obtain n where "inline_len s = Suc n" "inline s n = Some e"
      "t = s\<lparr>inline_len := n, inline := (inline s)(n := None)\<rparr>"
    by (cases "inline_len s") (auto simp: pending_pop_def)
  then show ?thesis using Nil by (simp add: pending_nodes_def)
qed (auto simp: pending_pop_def pending_nodes_def)

lemma pending_nodes_children: "pending_nodes (push_children e s) + 1 = nodes e + pending_nodes s"
  by (cases e) (auto simp: pending_nodes_push Let_def split: option.split)

function count_loop :: "pending_exprs \<Rightarrow> op_count \<Rightarrow> op_count" where
  "count_loop s c = (case pending_pop s of
     (None, _) \<Rightarrow> c
   | (Some expr, t) \<Rightarrow> count_loop (push_children expr t) (count_visit expr c))"
  by pat_completeness auto
termination
proof (relation "measure (\<lambda>(s, c). pending_nodes s)", goal_cases)
  case (2 s c o' t e)
  then show ?case
    using pending_nodes_pop [of s e t] pending_nodes_children [of e t] by simp
qed simp

declare count_loop.simps [simp del]

definition count_logical_operators :: "condition_expr \<Rightarrow> nat \<times> bool" where
  "count_logical_operators condition =
     (let c = count_loop (pending_new condition) \<lparr>oc_count = 0, oc_last = None, oc_mixed = False\<rparr>
      in (oc_count c, oc_mixed c))"

section \<open>The recursive count\<close>

text \<open>The operators of a tree, from left to right in the order the walk meets them.\<close>

fun ops :: "condition_expr \<Rightarrow> int list" where
  "ops (ExprCompound left op right) =
     op # (case left of None \<Rightarrow> [] | Some l \<Rightarrow> ops l) @ (case right of None \<Rightarrow> [] | Some r \<Rightarrow> ops r)"
| "ops (ExprNot inner) = (case inner of None \<Rightarrow> [] | Some e \<Rightarrow> ops e)"
| "ops _ = []"

fun children :: "condition_expr \<Rightarrow> condition_expr list" where
  "children (ExprCompound left op right) =
     (case left of None \<Rightarrow> [] | Some l \<Rightarrow> [l]) @ (case right of None \<Rightarrow> [] | Some r \<Rightarrow> [r])"
| "children (ExprNot inner) = (case inner of None \<Rightarrow> [] | Some e \<Rightarrow> [e])"
| "children _ = []"

definition own_op :: "condition_expr \<Rightarrow> int list" where
  "own_op e = (case e of ExprCompound _ op _ \<Rightarrow> [op] | _ \<Rightarrow> [])"

definition mixed :: "int list \<Rightarrow> bool" where
  "mixed os \<longleftrightarrow> (case os of [] \<Rightarrow> False | o1 # rest \<Rightarrow> (\<exists>o2 \<in> set rest. o2 \<noteq> o1))"

lemma mixed_iff: "mixed os \<longleftrightarrow> (\<exists>o1 o2. o1 \<in> set os \<and> o2 \<in> set os \<and> o1 \<noteq> o2)"
  by (cases os) (simp_all add: mixed_def, metis)

lemma ops_children: "ops e = own_op e @ concat (map ops (children e))"
  by (cases e) (auto simp: own_op_def split: option.split)

lemma push_children_spec:
  "pending_invar s \<Longrightarrow>
   pending_invar (push_children e s) \<and> pending_list (push_children e s) = children e @ pending_list s"
  by (cases e) (auto simp: Let_def pend.stack_push pend.invar_push split: option.split)

definition count_ops :: "int list \<Rightarrow> op_count \<Rightarrow> op_count" where
  "count_ops os c = fold (\<lambda>op. count_visit (ExprCompound None op None)) os c"

lemma count_visit_own_op: "count_visit e c = count_ops (own_op e) c"
  by (cases e) (simp_all add: count_ops_def own_op_def)

lemma count_loop_ops:
  "pending_invar s \<Longrightarrow> count_loop s c = count_ops (concat (map ops (pending_list s))) c"
proof (induction s c rule: count_loop.induct)
  case (1 s c)
  from "1.prems" show ?case
  proof (cases rule: pend.pop_cases)
    case 1
    then show ?thesis by (simp add: count_loop.simps [of s] count_ops_def)
  next
    case (2 e es t)
    then have "count_loop s c = count_loop (push_children e t) (count_visit e c)"
      by (simp add: count_loop.simps [of s])
    also have "\<dots> = count_ops (concat (map ops (children e @ es))) (count_visit e c)"
      using "1.IH" [of "Some e" t e] 2 push_children_spec [of t e] by simp
    also have "\<dots> = count_ops (concat (map ops (e # es))) c"
      by (simp add: ops_children [of e] count_visit_own_op count_ops_def)
    finally show ?thesis using 2 by simp
  qed
qed

lemma count_ops_last:
  "oc_last c = Some o1 \<Longrightarrow>
   oc_count (count_ops os c) = oc_count c + length os \<and>
   oc_mixed (count_ops os c) = (oc_mixed c \<or> (\<exists>o2 \<in> set os. o2 \<noteq> o1))"
  by (induction os arbitrary: c) (auto simp: count_ops_def)

lemma count_ops_start:
  "oc_count (count_ops os \<lparr>oc_count = 0, oc_last = None, oc_mixed = False\<rparr>) = length os \<and>
   oc_mixed (count_ops os \<lparr>oc_count = 0, oc_last = None, oc_mixed = False\<rparr>) = mixed os"
proof (cases os)
  case (Cons o1 rest)
  then show ?thesis
    using count_ops_last [of "\<lparr>oc_count = 1, oc_last = Some o1, oc_mixed = False\<rparr>" o1 rest]
    by (simp add: mixed_def count_ops_def)
qed (simp add: mixed_def count_ops_def)

lemma count_logical_operators_eq [simp]:
  "count_logical_operators e = (length (ops e), mixed (ops e))"
  by (simp add: count_logical_operators_def count_loop_ops count_ops_start Let_def)

section \<open>How deep the stack gets\<close>

text \<open>One iteration of the loop, as a step between stacks.\<close>

inductive pending_step :: "pending_exprs \<Rightarrow> pending_exprs \<Rightarrow> bool" where
  visit: "pending_pop s = (Some e, t) \<Longrightarrow> pending_step s (push_children e t)"

inductive_cases pending_stepE: "pending_step s s'"

text \<open>
  A stack of height \<open>h\<close> that still has \<open>k\<close> operators to visit never grows beyond
  \<open>h + k\<close>: visiting a compound adds at most one entry, anything else none.
\<close>

definition pending_fits :: "nat \<Rightarrow> pending_exprs \<Rightarrow> bool" where
  "pending_fits n s \<longleftrightarrow> pending_invar s \<and> overflow s = [] \<and>
     length (pending_list s) + length (concat (map ops (pending_list s))) \<le> n"

lemma children_ops_height:
  "length (children e) + length (concat (map ops (children e))) \<le> 1 + length (ops e)"
  by (cases e) (auto split: option.split)

lemma push_no_overflow:
  "pending_invar s \<Longrightarrow> overflow s = [] \<Longrightarrow> length (pending_list s) < INLINE_PENDING_EXPRS \<Longrightarrow>
   overflow (pending_push e s) = []"
  by (auto simp: pending_push_def pending_list_def)

lemma children_no_overflow:
  assumes "pending_invar s" "overflow s = []"
    "length (children e @ pending_list s) \<le> INLINE_PENDING_EXPRS"
  shows "overflow (push_children e s) = []"
  using assms
  by (cases e) (auto simp: Let_def push_no_overflow pend.stack_push pend.invar_push split: option.splits)

lemma pending_step_fits:
  assumes "pending_step s s'" "pending_fits n s" "n \<le> INLINE_PENDING_EXPRS"
  shows "pending_fits n s'"
  using assms(1)
proof (rule pending_stepE)
  fix e t
  assume s': "s' = push_children e t" and pop: "pending_pop s = (Some e, t)"
  from assms(2) have inv: "pending_invar s" and ov: "overflow s = []" by (auto simp: pending_fits_def)
  from inv obtain es where es: "pending_list s = e # es" "pending_invar t" "pending_list t = es"
    by (cases rule: pend.pop_cases) (use pop in auto)
  have ovt: "overflow t = []" using pop ov by (auto simp: pending_pop_def split: if_splits)
  have fit: "length (children e @ es) + length (concat (map ops (children e @ es))) \<le> n"
    using assms(2) children_ops_height [of e] by (simp add: pending_fits_def es)
  with assms(3) have "overflow s' = []"
    unfolding s' by (intro children_no_overflow) (use es ovt in auto)
  with fit s' es push_children_spec [of t e] show ?thesis
    by (simp add: pending_fits_def)
qed

lemma pending_steps_fit:
  "pending_step\<^sup>*\<^sup>* s s' \<Longrightarrow> pending_fits n s \<Longrightarrow> n \<le> INLINE_PENDING_EXPRS \<Longrightarrow> pending_fits n s'"
  by (induction rule: rtranclp_induct) (auto intro: pending_step_fits)

section \<open>Properties\<close>

text \<open>
   The allocation-free walk counts exactly the logical operators of the tree and
  reports mixing exactly when two of them differ, as the recursive definitions
  \<open>ops\<close> and \<open>mixed\<close> say.
\<close>

theorem count_logical_operators_correct:
  "count_logical_operators e = (length (ops e), \<exists>o1 o2. o1 \<in> set (ops e) \<and> o2 \<in> set (ops e) \<and> o1 \<noteq> o2)"
  by (simp add: mixed_iff)

text \<open>
   The inline capacity is enough: on a condition with at most seven logical operators,
  so on every condition the evaluator does not reject, no state of the walk has spilled to
  the heap vector.
\<close>

theorem pending_exprs_stay_inline:
  assumes "length (ops e) < INLINE_PENDING_EXPRS" and "pending_step\<^sup>*\<^sup>* (pending_new e) s"
  shows "overflow s = []"
proof -
  have "pending_fits INLINE_PENDING_EXPRS (pending_new e)"
    using assms(1) by (simp add: pending_fits_def) (simp add: pending_new_def)
  with assms(2) have "pending_fits INLINE_PENDING_EXPRS s"
    by (rule pending_steps_fit) simp
  then show ?thesis by (simp add: pending_fits_def)
qed

theorem pending_exprs_stay_inline_witness:
  "overflow (push_children (cond_compound (ExprIdentifier ''a'') LAnd (ExprIdentifier ''b''))
      (snd (pending_pop (pending_new (cond_compound (ExprIdentifier ''a'') LAnd (ExprIdentifier ''b'')))))) = []"
proof (rule pending_exprs_stay_inline)
  show "length (ops (cond_compound (ExprIdentifier ''a'') LAnd (ExprIdentifier ''b''))) < INLINE_PENDING_EXPRS"
    by (simp add: cond_compound_def INLINE_PENDING_EXPRS_def)
  show "pending_step\<^sup>*\<^sup>* (pending_new (cond_compound (ExprIdentifier ''a'') LAnd (ExprIdentifier ''b'')))
     (push_children (cond_compound (ExprIdentifier ''a'') LAnd (ExprIdentifier ''b''))
       (snd (pending_pop (pending_new (cond_compound (ExprIdentifier ''a'') LAnd (ExprIdentifier ''b''))))))"
    by (rule r_into_rtranclp, rule visit) (simp add: pending_pop_def pending_new_def)
qed

end
