(* ===== verification/Expressions.thy ===== *)
theory Expressions
  imports Conditions
begin

text \<open>
  The condition evaluator of \<open>crates/webui-expressions/src/lib.rs\<close>.

  A resolver maps a dotted path to the value it denotes, if any.  Errors keep what their
  message is built from instead of the formatted text.
\<close>

section \<open>Errors and operands\<close>

datatype eval_reason =
    EmptyCondition
  | NotMissingInner
  | CompoundMissingLeft
  | CompoundMissingRight
  | InvalidLogicalOperator int
  | UnspecifiedLogicalOperator
  | InvalidComparisonOperator int
  | UnspecifiedComparisonOperator

datatype type_reason =
    UnrepresentableLiteral string
  | InvalidLiteral string
  | NotANumber json
  | NotANumberString string

datatype expression_error =
    Evaluation eval_reason
  | MissingValue string
  | TypeError type_reason
  | MixedOperators
  | TooManyOperators nat
  | Comparison string

type_synonym resolver = "string \<Rightarrow> json option"

datatype operand = OpValue json | OpString string

definition parse_string_number :: "string \<Rightarrow> (expression_error, f64) result" where
  "parse_string_number s = ok_or (TypeError (NotANumberString s)) (parse_f64 s)"

fun extract_number :: "json \<Rightarrow> (expression_error, f64) result" where
  "extract_number (JNumber n) = ok_or (TypeError (NotANumber (JNumber n))) (as_f64 n)"
| "extract_number (JString s) = parse_string_number s"
| "extract_number (JBool b) = Inr (if b then Finite 1 else Finite 0)"
| "extract_number v = Inl (TypeError (NotANumber v))"

fun operand_equals :: "operand \<Rightarrow> json \<Rightarrow> bool" where
  "operand_equals (OpValue right) left = json_eq left right"
| "operand_equals (OpString right) left = (case left of JString s \<Rightarrow> s = right | _ \<Rightarrow> False)"

fun operand_number :: "operand \<Rightarrow> (expression_error, f64) result" where
  "operand_number (OpValue v) = extract_number v"
| "operand_number (OpString s) = parse_string_number s"

section \<open>Literals\<close>

definition is_literal :: "string \<Rightarrow> bool" where
  "is_literal s \<longleftrightarrow>
     starts_with s [CHR 0x22] \<or> starts_with s [CHR 0x27] \<or>
     (case s of [] \<Rightarrow> False
      | c # r \<Rightarrow> is_digit_char c \<or> (c = CHR ''-'' \<and> r \<noteq> [] \<and> is_digit_char (hd r))) \<or>
     s = ''true'' \<or> s = ''false''"

definition parse_literal :: "string \<Rightarrow> (expression_error, operand) result" where
  "parse_literal s =
     (if 2 \<le> length s \<and>
         ((starts_with s [CHR 0x22] \<and> ends_with s [CHR 0x22]) \<or>
          (starts_with s [CHR 0x27] \<and> ends_with s [CHR 0x27]))
      then Inr (OpString (take (length s - 2) (drop 1 s)))
      else if s = ''true'' then Inr (OpValue (JBool True))
      else if s = ''false'' then Inr (OpValue (JBool False))
      else (case parse_i64 s of
        Some n \<Rightarrow> Inr (OpValue (JNumber (number_of_i64 n)))
      | None \<Rightarrow> (case parse_f64 s of
          Some x \<Rightarrow> if f64_is_finite x then Inr (OpValue (JNumber (Float x)))
                    else Inl (TypeError (UnrepresentableLiteral s))
        | None \<Rightarrow> Inl (TypeError (InvalidLiteral s)))))"

section \<open>Comparison\<close>

definition compare_ordered ::
  "(f64 \<Rightarrow> f64 \<Rightarrow> bool) \<Rightarrow> json \<Rightarrow> operand \<Rightarrow> (expression_error, bool) result" where
  "compare_ordered cmp left right =
     rbind (extract_number left) (\<lambda>a. rbind (operand_number right) (\<lambda>b. Inr (cmp a b)))"

fun compare_values :: "json \<Rightarrow> comparison_operator \<Rightarrow> operand \<Rightarrow> (expression_error, bool) result" where
  "compare_values left CEqual right = Inr (operand_equals right left)"
| "compare_values left NotEqual right = Inr (\<not> operand_equals right left)"
| "compare_values left GreaterThan right = compare_ordered (\<lambda>a b. f64_lt b a) left right"
| "compare_values left LessThan right = compare_ordered f64_lt left right"
| "compare_values left GreaterThanOrEqual right = compare_ordered (\<lambda>a b. f64_le b a) left right"
| "compare_values left LessThanOrEqual right = compare_ordered f64_le left right"
| "compare_values left CUnspecified right = Inl (Evaluation UnspecifiedComparisonOperator)"

definition evaluate_predicate ::
  "resolver \<Rightarrow> string \<Rightarrow> int \<Rightarrow> string \<Rightarrow> (expression_error, bool) result" where
  "evaluate_predicate resolver left operator right =
     rbind (ok_or (MissingValue left) (resolver left)) (\<lambda>left_val.
     rbind (if is_literal right then parse_literal right
            else rbind (ok_or (MissingValue right) (resolver right)) (\<lambda>v. Inr (OpValue v))) (\<lambda>right_val.
     rbind (ok_or (Evaluation (InvalidComparisonOperator operator)) (comparison_try_from operator)) (\<lambda>op.
     compare_values left_val op right_val)))"

section \<open>Evaluation\<close>

fun truthy :: "json \<Rightarrow> bool" where
  "truthy (JBool b) = b"
| "truthy JNull = False"
| "truthy (JNumber n) = (\<not> (case as_f64 n of Some x \<Rightarrow> f64_eq x (Finite 0) | None \<Rightarrow> False))"
| "truthy (JString s) = (s \<noteq> [])"
| "truthy (JArray a) = (a \<noteq> [])"
| "truthy (JObject m) = (m \<noteq> [])"

definition evaluate_identifier :: "resolver \<Rightarrow> string \<Rightarrow> bool" where
  "evaluate_identifier resolver v =
     (if v = ''true'' then True
      else if v = ''false'' then False
      else (case resolver v of Some val \<Rightarrow> truthy val | None \<Rightarrow> False))"

text \<open>
  The two functions of the source, \<open>evaluate_expr\<close> and \<open>evaluate_compound\<close>; the latter
  takes the fields of the compound node.
\<close>

function evaluate_expr :: "resolver \<Rightarrow> condition_expr \<Rightarrow> (expression_error, bool) result"
  and evaluate_compound ::
    "resolver \<Rightarrow> condition_expr option \<Rightarrow> int \<Rightarrow> condition_expr option \<Rightarrow> (expression_error, bool) result" where
  "evaluate_expr resolver (ExprPredicate left operator right) =
     evaluate_predicate resolver left operator right"
| "evaluate_expr resolver (ExprNot None) = Inl (Evaluation NotMissingInner)"
| "evaluate_expr resolver (ExprNot (Some inner)) =
     rbind (evaluate_expr resolver inner) (\<lambda>b. Inr (\<not> b))"
| "evaluate_expr resolver (ExprCompound left op right) = evaluate_compound resolver left op right"
| "evaluate_expr resolver (ExprIdentifier v) = Inr (evaluate_identifier resolver v)"
| "evaluate_expr resolver ExprNone = Inl (Evaluation EmptyCondition)"
| "evaluate_compound resolver None op right = Inl (Evaluation CompoundMissingLeft)"
| "evaluate_compound resolver (Some left) op None = Inl (Evaluation CompoundMissingRight)"
| "evaluate_compound resolver (Some left) op (Some right) =
     rbind (evaluate_expr resolver left) (\<lambda>left_result.
       case logical_try_from op of
         None \<Rightarrow> Inl (Evaluation (InvalidLogicalOperator op))
       | Some LAnd \<Rightarrow> if \<not> left_result then Inr False else evaluate_expr resolver right
       | Some LOr \<Rightarrow> if left_result then Inr True else evaluate_expr resolver right
       | Some LUnspecified \<Rightarrow> Inl (Evaluation UnspecifiedLogicalOperator))"
  by pat_completeness auto
termination
  by (relation "measure (case_sum (\<lambda>(r, c). size c)
        (\<lambda>(r, a, op, b). size_option size a + size_option size b))") auto

definition MAX_LOGICAL_OPERATORS :: nat where
  "MAX_LOGICAL_OPERATORS = 5"

definition evaluate_with_resolver :: "condition_expr \<Rightarrow> resolver \<Rightarrow> (expression_error, bool) result" where
  "evaluate_with_resolver condition resolver =
     (case condition of
        ExprIdentifier _ \<Rightarrow> evaluate_expr resolver condition
      | ExprPredicate _ _ _ \<Rightarrow> evaluate_expr resolver condition
      | _ \<Rightarrow>
         (let (logical_op_count, has_mixed_ops) = count_logical_operators condition
          in if logical_op_count > MAX_LOGICAL_OPERATORS then Inl (TooManyOperators logical_op_count)
             else if has_mixed_ops then Inl MixedOperators
             else evaluate_expr resolver condition))"

definition evaluate :: "condition_expr \<Rightarrow> json \<Rightarrow> (expression_error, bool) result" where
  "evaluate condition state =
     evaluate_with_resolver condition (\<lambda>path. find_value_by_dotted_path path state)"

section \<open>Facts\<close>

lemma evaluate_with_resolver_eq:
  "evaluate_with_resolver c r =
     (if length (ops c) > MAX_LOGICAL_OPERATORS then Inl (TooManyOperators (length (ops c)))
      else if mixed (ops c) then Inl MixedOperators
      else evaluate_expr r c)"
  by (cases c) (simp_all add: evaluate_with_resolver_def mixed_def)

text \<open>The paths a condition may ask its resolver for.\<close>

fun cond_paths :: "condition_expr \<Rightarrow> string set" where
  "cond_paths (ExprPredicate left op right) = {left, right}"
| "cond_paths (ExprNot inner) = (case inner of None \<Rightarrow> {} | Some e \<Rightarrow> cond_paths e)"
| "cond_paths (ExprCompound left op right) =
     (case left of None \<Rightarrow> {} | Some l \<Rightarrow> cond_paths l) \<union> (case right of None \<Rightarrow> {} | Some r \<Rightarrow> cond_paths r)"
| "cond_paths (ExprIdentifier v) = {v}"
| "cond_paths ExprNone = {}"

lemma evaluate_expr_cong:
  "(\<And>p. p \<in> cond_paths c \<Longrightarrow> r p = r' p) \<Longrightarrow> evaluate_expr r c = evaluate_expr r' c"
  "(\<And>p. p \<in> (case a of None \<Rightarrow> {} | Some l \<Rightarrow> cond_paths l) \<union> (case b of None \<Rightarrow> {} | Some l \<Rightarrow> cond_paths l)
      \<Longrightarrow> r p = r' p) \<Longrightarrow> evaluate_compound r a op b = evaluate_compound r' a op b"
proof (induction r c and r a op b rule: evaluate_expr_evaluate_compound.induct)
  case (9 r left op right)
  have l: "evaluate_expr r left = evaluate_expr r' left"
    using "9.IH"(1) "9.prems" by simp
  have ri: "evaluate_expr r' left = Inr b \<Longrightarrow> logical_try_from op = Some op' \<Longrightarrow>
      (op' = LAnd \<and> b) \<or> (op' = LOr \<and> \<not> b) \<Longrightarrow> evaluate_expr r right = evaluate_expr r' right" for b op'
    using "9.IH"(2,3) "9.prems" l by (auto simp: l)
  show ?case
    by (cases "evaluate_expr r' left"; cases "logical_try_from op")
       (auto simp: l ri split: logical_operator.split)
qed (auto simp: evaluate_predicate_def evaluate_identifier_def)

text \<open>Conditions without predicates, whose nodes are all present and valid, cannot fail.\<close>

fun predicate_free :: "condition_expr \<Rightarrow> bool" where
  "predicate_free (ExprIdentifier v) = True"
| "predicate_free (ExprNot (Some e)) = predicate_free e"
| "predicate_free (ExprCompound (Some l) op (Some r)) = ((op = 1 \<or> op = 2) \<and> predicate_free l \<and> predicate_free r)"
| "predicate_free _ = False"

lemma predicate_free_total: "predicate_free c \<Longrightarrow> \<exists>b. evaluate_expr r c = Inr b"
  by (induction c rule: predicate_free.induct) (auto simp: logical_try_from_def)

lemma extract_number_int:
  assumes "\<bar>n\<bar> \<le> 2 ^ 53"
  shows "extract_number (JNumber (number_of_i64 n)) = Inr (Finite (of_int n))"
proof (cases "n < 0")
  case True
  then show ?thesis using round_f64_int_exact [OF assms] by (simp add: number_of_i64_def)
next
  case False
  have "unat (word_of_int n :: u64) = nat n"
    using False assms by (simp add: unat_eq_nat_uint uint_word_of_int)
  then show ?thesis
    using False round_f64_int_exact [OF assms] by (simp add: number_of_i64_def)
qed

section \<open>Properties\<close>

text \<open>
  C16.  What \<open>evaluate_with_resolver\<close> returns, for every condition and resolver: more than
  five logical operators are refused with their number, then mixed operators are refused,
  otherwise the result is that of the recursive evaluation.  Single-term conditions take
  the fast path and skip the count without changing the result.
\<close>

theorem evaluate_with_resolver_spec:
  "evaluate_with_resolver c r =
     (if 5 < length (ops c) then Inl (TooManyOperators (length (ops c)))
      else if \<exists>o1 o2. o1 \<in> set (ops c) \<and> o2 \<in> set (ops c) \<and> o1 \<noteq> o2 then Inl MixedOperators
      else evaluate_expr r c)"
  by (simp add: evaluate_with_resolver_eq MAX_LOGICAL_OPERATORS_def mixed_iff)

text \<open>
   De Morgan for the short-circuiting evaluator, errors included: negating a
  conjunction gives the same value or the same error as the disjunction of the negations,
  and dually.
\<close>

theorem evaluate_de_morgan:
  "evaluate_expr r (cond_negated (cond_compound a LAnd b)) =
     evaluate_expr r (cond_compound (cond_negated a) LOr (cond_negated b)) \<and>
   evaluate_expr r (cond_negated (cond_compound a LOr b)) =
     evaluate_expr r (cond_compound (cond_negated a) LAnd (cond_negated b))"
  by (cases "evaluate_expr r a"; cases "evaluate_expr r b")
     (auto simp: cond_negated_def cond_compound_def logical_try_from_def)

text \<open>
   Evaluation asks the state only for the paths written in the condition: two states
  that give the same values at those paths give the same result, so a projection of the
  state that keeps them renders the same.
\<close>

theorem evaluate_depends_on_paths:
  assumes "\<forall>p \<in> cond_paths c. find_value_by_dotted_path p s = find_value_by_dotted_path p s'"
  shows "evaluate c s = evaluate c s'"
proof -
  have "evaluate_expr (\<lambda>p. find_value_by_dotted_path p s) c = evaluate_expr (\<lambda>p. find_value_by_dotted_path p s') c"
    using assms by (intro evaluate_expr_cong(1)) auto
  then show ?thesis by (simp add: evaluate_def evaluate_with_resolver_eq)
qed

theorem evaluate_depends_on_paths_witness:
  "evaluate (ExprIdentifier ''flag'') (JObject [(''flag'', JBool True)]) =
   evaluate (ExprIdentifier ''flag'') (JObject [(''flag'', JBool True), (''other'', JNull)])"
  by (rule evaluate_depends_on_paths) (simp add: find_value_by_dotted_path_def)

text \<open>
   A condition made of identifiers, negations and valid conjunctions or disjunctions
  evaluates to a boolean under every resolver, whatever is missing from the state, as long
  as it stays within the operator limits.
\<close>

theorem evaluate_predicate_free_total:
  assumes "predicate_free c" "length (ops c) \<le> 5" "\<forall>o1 \<in> set (ops c). \<forall>o2 \<in> set (ops c). o1 = o2"
  shows "\<exists>b. evaluate_with_resolver c r = Inr b"
  using predicate_free_total [OF assms(1), of r] assms(2,3)
  by (auto simp: evaluate_with_resolver_eq MAX_LOGICAL_OPERATORS_def mixed_def split: list.splits)

theorem evaluate_predicate_free_total_witness:
  "\<exists>b. evaluate_with_resolver (cond_compound (ExprIdentifier ''a'') LOr (cond_negated (ExprIdentifier ''b''))) (\<lambda>_. None) = Inr b"
  by (rule evaluate_predicate_free_total) (auto simp: cond_compound_def cond_negated_def)

text \<open>
   Ordered comparison of two integers of magnitude at most \<open>2 ^ 53\<close> is the comparison
  of the integers: the detour over doubles loses nothing there.
\<close>

theorem compare_integers_exact:
  assumes "\<bar>m\<bar> \<le> 2 ^ 53" "\<bar>n\<bar> \<le> 2 ^ 53"
  shows "compare_values (JNumber (number_of_i64 m)) GreaterThan (OpValue (JNumber (number_of_i64 n))) = Inr (n < m) \<and>
    compare_values (JNumber (number_of_i64 m)) LessThan (OpValue (JNumber (number_of_i64 n))) = Inr (m < n) \<and>
    compare_values (JNumber (number_of_i64 m)) GreaterThanOrEqual (OpValue (JNumber (number_of_i64 n))) = Inr (n \<le> m) \<and>
    compare_values (JNumber (number_of_i64 m)) LessThanOrEqual (OpValue (JNumber (number_of_i64 n))) = Inr (m \<le> n)"
  using extract_number_int [OF assms(1)] extract_number_int [OF assms(2)]
  by (auto simp: compare_ordered_def f64_le_def simp del: extract_number.simps)

theorem compare_integers_exact_witness:
  "compare_values (JNumber (number_of_i64 21)) GreaterThan (OpValue (JNumber (number_of_i64 18))) = Inr True"
  using compare_integers_exact [of 21 18] by simp

end
