(* ===== verification/Condition_Parser.thy ===== *)
theory Condition_Parser
  imports Conditions
begin

text \<open>
  The parser for the conditions of \<open>if\<close> directives,
  \<open>crates/webui-parser/src/condition_parser.rs\<close>.

  The source scans the \<open>char\<close>s of the input for logical operators but cuts the input at
  the \<open>char\<close> index read as a byte offset; a cut that is not on a character boundary
  panics, so the outcome of a call is a value, a parse error or a panic.  Rust's tables for
  \<open>is_alphabetic\<close> and \<open>is_alphanumeric\<close> beyond ASCII are the parameter \<open>unicode\<close>.
\<close>

datatype parse_reason = EmptyConditionString | FailedToParse string | InvalidIdentifier string
    | NotANegation | NotAPredicate | NotACompound

datatype 'a outcome = Done 'a | Fail parse_reason | Panic

record unicode =
  uni_alphabetic :: "nat \<Rightarrow> bool"
  uni_alphanumeric :: "nat \<Rightarrow> bool"

definition is_alphabetic :: "unicode \<Rightarrow> nat \<Rightarrow> bool" where
  "is_alphabetic u c \<longleftrightarrow> (if c < 128 then ascii_alpha c else uni_alphabetic u c)"

definition is_alphanumeric :: "unicode \<Rightarrow> nat \<Rightarrow> bool" where
  "is_alphanumeric u c \<longleftrightarrow> (if c < 128 then ascii_alpha c \<or> ascii_digit c else uni_alphanumeric u c)"

definition chars :: "string \<Rightarrow> nat list" where
  "chars s = utf8_chars (bytes_of s)"

text \<open>\<open>&s[..n]\<close> and \<open>&s[n..]\<close>.\<close>

definition slice_to :: "string \<Rightarrow> nat \<Rightarrow> string outcome" where
  "slice_to s n = (if is_char_boundary (bytes_of s) n then Done (take n s) else Panic)"

definition slice_from :: "string \<Rightarrow> nat \<Rightarrow> string outcome" where
  "slice_from s n = (if is_char_boundary (bytes_of s) n then Done (drop n s) else Panic)"

section \<open>Leaves\<close>

definition is_valid_identifier :: "unicode \<Rightarrow> string \<Rightarrow> bool" where
  "is_valid_identifier u input = (case chars input of
     [] \<Rightarrow> False
   | c # cs \<Rightarrow> (is_alphabetic u c \<or> c = 95) \<and> list_all (\<lambda>c. is_alphanumeric u c \<or> c = 95 \<or> c = 46) cs)"

definition parse_identifier :: "unicode \<Rightarrow> string \<Rightarrow> condition_expr outcome" where
  "parse_identifier u input =
     (if is_valid_identifier u input then Done (cond_identifier input) else Fail (InvalidIdentifier input))"

definition comparison_spellings :: "(string \<times> comparison_operator) list" where
  "comparison_spellings =
     [(''>='', GreaterThanOrEqual), (''<='', LessThanOrEqual), (''=='', CEqual), (''!='', NotEqual),
      (''>'', GreaterThan), (''<'', LessThan)]"

text \<open>The loop over the operator spellings.\<close>

fun try_operators :: "(string \<times> comparison_operator) list \<Rightarrow> string \<Rightarrow> condition_expr outcome" where
  "try_operators [] input = Fail NotAPredicate"
| "try_operators ((op_str, operator) # rest) input =
     (case find_sub op_str input of
        None \<Rightarrow> try_operators rest input
      | Some pos \<Rightarrow>
          let before = take pos input; after = drop (pos + length op_str) input;
              is_standalone = (pos = 0 \<or> \<not> ends_with before (take 1 op_str)) \<and>
                 (pos + length op_str = length input \<or> \<not> starts_with after (take 1 op_str));
              left = trim before; right = trim after
          in if \<not> is_standalone then try_operators rest input
             else if left = [] \<or> right = [] then try_operators rest input
             else Done (cond_predicate left operator right))"

definition parse_predicate :: "string \<Rightarrow> condition_expr outcome" where
  "parse_predicate input = try_operators comparison_spellings (trim input)"

section \<open>Logical operators\<close>

fun logical_spellings :: "logical_operator \<Rightarrow> nat list list" where
  "logical_spellings LAnd = [bytes_of ''&&'', bytes_of ''and'']"
| "logical_spellings LOr = [bytes_of ''||'', bytes_of ''or'']"
| "logical_spellings LUnspecified = []"

text \<open>Does the operator \<open>op_str\<close> stand alone at position \<open>i\<close>?\<close>

definition op_at :: "unicode \<Rightarrow> nat list \<Rightarrow> nat \<Rightarrow> nat list \<Rightarrow> bool" where
  "op_at u cs i op_str \<longleftrightarrow>
     i + length op_str \<le> length cs \<and> take (length op_str) (drop i cs) = op_str \<and>
     (i = 0 \<or> \<not> is_alphanumeric u (cs ! (i - 1))) \<and>
     (i + length op_str = length cs \<or> \<not> is_alphanumeric u (cs ! (i + length op_str)))"

definition is_quote :: "nat \<Rightarrow> bool" where
  "is_quote c \<longleftrightarrow> c = 39 \<or> c = 34"

fun next_quote :: "nat option \<Rightarrow> nat \<Rightarrow> nat option" where
  "next_quote None c = Some c"
| "next_quote (Some q) c = (if q = c then None else Some q)"

function operator_indices ::
  "unicode \<Rightarrow> nat list list \<Rightarrow> nat list \<Rightarrow> nat \<Rightarrow> nat option \<Rightarrow> (nat \<times> nat) list" where
  "operator_indices u operators cs i quote_char =
     (if i < length cs then
        (if is_quote (cs ! i) then operator_indices u operators cs (Suc i) (next_quote quote_char (cs ! i))
         else (if quote_char = None then map (\<lambda>op_str. (i, length op_str)) (filter (op_at u cs i) operators) else [])
                @ operator_indices u operators cs (Suc i) quote_char)
      else [])"
  by pat_completeness auto
termination
  by (relation "measure (\<lambda>(u, operators, cs, i, q). length cs - i)") auto

declare operator_indices.simps [simp del]

text \<open>The cut of the input around the first operator: its two trimmed sides, if any.\<close>

definition split_sides :: "unicode \<Rightarrow> string \<Rightarrow> logical_operator \<Rightarrow> (string \<times> string) option outcome" where
  "split_sides u input op =
     (case operator_indices u (logical_spellings op) (chars input) 0 None of
        [] \<Rightarrow> Done None
      | (op_start, op_len) # _ \<Rightarrow>
          (case slice_to input op_start of
             Panic \<Rightarrow> Panic | Fail e \<Rightarrow> Fail e
           | Done l \<Rightarrow> (case slice_from input (op_start + op_len) of
               Panic \<Rightarrow> Panic | Fail e \<Rightarrow> Fail e
             | Done r \<Rightarrow> if trim l \<noteq> [] \<and> trim r \<noteq> [] then Done (Some (trim l, trim r)) else Done None)))"

lemma length_utf8_chars: "length (utf8_chars bs) \<le> length bs"
proof (induction bs rule: utf8_chars.induct)
  case (1 bs)
  show ?case
  proof (cases "utf8_len bs = 0")
    case False
    then have "length (utf8_chars (drop (utf8_len bs) bs)) \<le> length bs - utf8_len bs"
      using "1.IH" by simp
    with False utf8_len_le [of bs] show ?thesis by (simp add: utf8_chars.simps [of bs])
  qed (simp add: utf8_chars.simps [of bs])
qed

lemma operator_indices_bounds:
  "(s, l) \<in> set (operator_indices u operators cs i q) \<Longrightarrow> i \<le> s \<and> s < length cs \<and> l \<in> length ` set operators"
proof (induction u operators cs i q rule: operator_indices.induct)
  case (1 u operators cs i q)
  show ?case
  proof (cases "i < length cs")
    case True
    then show ?thesis
      using "1.prems" "1.IH" operator_indices.simps [of u operators cs i q]
      by (fastforce split: if_splits)
  next
    case False
    with "1.prems" show ?thesis by (simp add: operator_indices.simps [of u operators cs i q])
  qed
qed

lemma logical_spellings_pos: "0 \<notin> length ` set (logical_spellings op)"
  by (cases op) auto

lemma split_sides_shorter:
  assumes "split_sides u input op = Done (Some (l, r))"
  shows "length l < length input" "length r < length input"
proof -
  obtain s n rest where idx: "operator_indices u (logical_spellings op) (chars input) 0 None = (s, n) # rest"
    using assms by (auto simp: split_sides_def split: list.splits)
  then have sn: "s < length (chars input)" "n \<noteq> 0"
    using operator_indices_bounds [of s n u "logical_spellings op" "chars input" 0 None]
      logical_spellings_pos [of op] by (auto intro: imageI)
  have si: "s < length input"
    using sn(1) length_utf8_chars [of "bytes_of input"] by (simp add: chars_def)
  from assms idx have "l = trim (take s input)" "r = trim (drop (s + n) input)"
    by (auto simp: split_sides_def slice_to_def slice_from_def split: if_splits)
  then have "length l \<le> s" "length r \<le> length input - (s + n)"
    using length_trim [of "take s input"] length_trim [of "drop (s + n) input"] si by auto
  with sn si show "length l < length input" "length r < length input" by auto
qed

lemma strip_not_shorter:
  assumes "strip_prefix ''!'' (trim s) = Some t"
  shows "length (trim t) < length s"
proof -
  from assms have "length (trim s) = Suc (length t)" by (simp add: strip_prefix_Some_iff)
  with length_trim [of s] length_trim [of t] show ?thesis by linarith
qed

section \<open>The parser\<close>

fun or_try :: "'a outcome \<Rightarrow> 'a outcome \<Rightarrow> 'a outcome" where
  "or_try (Done a) y = Done a"
| "or_try Panic y = Panic"
| "or_try (Fail _) y = y"

function parse :: "unicode \<Rightarrow> string \<Rightarrow> condition_expr outcome"
  and parse_compound_expr :: "unicode \<Rightarrow> string \<Rightarrow> condition_expr outcome"
  and split_by_logical_op :: "unicode \<Rightarrow> string \<Rightarrow> logical_operator \<Rightarrow> condition_expr option outcome"
  and parse_not_expr :: "unicode \<Rightarrow> string \<Rightarrow> condition_expr outcome" where
  "parse u text =
     (let input = trim text in
      if input = [] then Fail EmptyConditionString
      else or_try (parse_compound_expr u input)
             (or_try (parse_not_expr u input)
                (or_try (parse_predicate input)
                   (or_try (parse_identifier u input) (Fail (FailedToParse input))))))"
| "parse_compound_expr u text =
     (let input = trim text in
      case split_by_logical_op u input LAnd of
        Done (Some parts) \<Rightarrow> Done parts
      | Panic \<Rightarrow> Panic
      | _ \<Rightarrow> (case split_by_logical_op u input LOr of
           Done (Some parts) \<Rightarrow> Done parts
         | Panic \<Rightarrow> Panic
         | _ \<Rightarrow> Fail NotACompound))"
| "split_by_logical_op u input op =
     (case split_sides u input op of
        Done (Some (left_str, right_str)) \<Rightarrow>
          (case parse u left_str of
             Done left \<Rightarrow>
               (case parse u right_str of
                  Done right \<Rightarrow> Done (Some (cond_compound left op right))
                | Panic \<Rightarrow> Panic
                | Fail _ \<Rightarrow> Done None)
           | Panic \<Rightarrow> Panic
           | Fail _ \<Rightarrow> Done None)
      | Panic \<Rightarrow> Panic
      | _ \<Rightarrow> Done None)"
| "parse_not_expr u text =
     (case strip_prefix ''!'' (trim text) of
        Some expr_str \<Rightarrow>
          (case parse u (trim expr_str) of
             Done e \<Rightarrow> Done (cond_negated e)
           | Panic \<Rightarrow> Panic
           | Fail e \<Rightarrow> Fail e)
      | None \<Rightarrow> Fail NotANegation)"
  by pat_completeness auto
termination
proof (relation "measures [case_sum (case_sum (\<lambda>(u, s). length s) (\<lambda>(u, s). length s))
                             (case_sum (\<lambda>(u, s, op). length s) (\<lambda>(u, s). length s)),
                  case_sum (case_sum (\<lambda>_. 3) (\<lambda>_. 2)) (case_sum (\<lambda>_. 1) (\<lambda>_. 1))]", goal_cases)
  case 1
  show ?case by simp
next
  case (2 u src)
  then show ?case using length_trim [of src] by (simp add: le_less)
next
  case (3 u src)
  then show ?case using length_trim [of src] by (simp add: le_less)
next
  case (4 u src)
  then show ?case using length_trim [of src] by (simp add: le_less)
next
  case (5 u src)
  then show ?case using length_trim [of src] by (simp add: le_less)
next
  case (6 u src)
  then show ?case using length_trim [of src] by (simp add: le_less)
next
  case (7 u src)
  then show ?case by (auto dest: split_sides_shorter)
next
  case (8 u src)
  then show ?case by (auto dest: split_sides_shorter)
next
  case (9 u src)
  then show ?case by (simp add: strip_not_shorter)
qed

declare parse.simps [simp del] parse_compound_expr.simps [simp del]
  split_by_logical_op.simps [simp del] parse_not_expr.simps [simp del]

section \<open>ASCII conditions never panic\<close>

lemma chars_ascii: "ascii_string s \<Longrightarrow> chars s = bytes_of s"
  by (simp add: chars_def utf8_chars_ascii)

lemma char_boundary_ascii: "ascii_string s \<Longrightarrow> i \<le> length s \<Longrightarrow> is_char_boundary (bytes_of s) i"
  by (auto simp: is_char_boundary_def utf8_cont_def nth_mem not_le)

lemma ascii_trim: "ascii_string s \<Longrightarrow> ascii_string (trim s)"
  using set_trim [of s] by blast

lemma operator_indices_end:
  assumes "(s, l) \<in> set (operator_indices u operators cs i q)"
  shows "s + l \<le> length cs"
  using assms
proof (induction u operators cs i q rule: operator_indices.induct)
  case (1 u operators cs i q)
  then show ?case
    using operator_indices.simps [of u operators cs i q] by (auto simp: op_at_def split: if_splits)
qed

lemma split_sides_ascii:
  assumes "ascii_string input"
  shows "split_sides u input op \<noteq> Panic"
    and "split_sides u input op = Done (Some (l, r)) \<Longrightarrow> ascii_string l \<and> ascii_string r"
proof -
  consider "operator_indices u (logical_spellings op) (chars input) 0 None = []"
    | s n rest where "operator_indices u (logical_spellings op) (chars input) 0 None = (s, n) # rest"
      "s + n \<le> length input"
    using operator_indices_end [of _ _ u "logical_spellings op" "chars input" 0 None] chars_ascii [OF assms]
    by (metis length_map list.exhaust list.set_intros(1) prod.exhaust)
  note cases = this
  have b: "is_char_boundary (bytes_of input) i" if "i \<le> length input" for i
    using char_boundary_ascii [OF assms that] .
  show "split_sides u input op \<noteq> Panic"
    by (rule cases) (auto simp: split_sides_def slice_to_def slice_from_def b)
  show "ascii_string l \<and> ascii_string r" if "split_sides u input op = Done (Some (l, r))"
  proof (rule cases)
    fix s n rest
    assume "operator_indices u (logical_spellings op) (chars input) 0 None = (s, n) # rest" "s + n \<le> length input"
    with that have "l = trim (take s input)" "r = trim (drop (s + n) input)"
      by (auto simp: split_sides_def slice_to_def slice_from_def split: if_splits)
    with assms show ?thesis
      using ascii_trim [of "take s input"] ascii_trim [of "drop (s + n) input"]
      by (metis in_set_dropD in_set_takeD)
  qed (use that in \<open>simp add: split_sides_def\<close>)
qed

lemma try_operators_no_panic: "try_operators spellings s \<noteq> Panic"
  by (induction spellings) (auto simp: Let_def split: option.splits if_splits)

lemma or_try_Panic_iff: "or_try x y = Panic \<longleftrightarrow> x = Panic \<or> (\<exists>e. x = Fail e) \<and> y = Panic"
  by (cases x) auto

lemma no_panic_ascii:
  "ascii_string s \<Longrightarrow> parse u s \<noteq> Panic"
  "ascii_string s \<Longrightarrow> parse_compound_expr u s \<noteq> Panic"
  "ascii_string s \<Longrightarrow> split_by_logical_op u s op \<noteq> Panic"
  "ascii_string s \<Longrightarrow> parse_not_expr u s \<noteq> Panic"
proof (induction u s and u s and u s op and u s
    rule: parse_parse_compound_expr_split_by_logical_op_parse_not_expr.induct)
  case (1 u s)
  then show ?case
    using ascii_trim [of s] try_operators_no_panic
    by (auto simp: parse.simps [of u s] Let_def or_try_Panic_iff parse_predicate_def parse_identifier_def)
next
  case (2 u s)
  then show ?case
    using ascii_trim [of s] by (auto simp: parse_compound_expr.simps [of u s] Let_def split: outcome.splits option.splits)
next
  case (3 u s op)
  then show ?case
    using split_sides_ascii [of s u op]
    by (auto simp: split_by_logical_op.simps [of u s op] split: outcome.splits option.splits) blast
next
  case (4 u s)
  have "ascii_string (trim t)" if "strip_prefix ''!'' (trim s) = Some t" for t
    using that ascii_trim [OF "4.prems"] ascii_trim [of t] by (simp add: strip_prefix_Some_iff)
  with 4 show ?case
    by (auto simp: parse_not_expr.simps [of u s] split: outcome.splits option.splits)
qed

end
