(* ===== verification/Condition_Print.thy ===== *)
theory Condition_Print
  imports Condition_Parser
begin

text \<open>
  What the condition parser accepts, stated through a printer: chains of one logical
  operator over identifiers, comparisons and their negations print to a text that parses
  back to the same tree.  The facts below say how the operator scan distributes over a
  separating character.
\<close>

section \<open>The operator scan over separators\<close>

declare logical_spellings.simps [simp del]

abbreviation indices :: "unicode \<Rightarrow> logical_operator \<Rightarrow> nat list \<Rightarrow> (nat \<times> nat) list" where
  "indices u op cs \<equiv> operator_indices u (logical_spellings op) cs 0 None"

definition separator :: "unicode \<Rightarrow> nat \<Rightarrow> bool" where
  "separator u c \<longleftrightarrow> \<not> is_alphanumeric u c \<and> \<not> is_quote c \<and>
     (\<forall>op. \<forall>w \<in> set (logical_spellings op). c \<notin> set w)"

text \<open>The quote the scan is inside of after some text.\<close>

definition quote_state :: "nat list \<Rightarrow> nat option" where
  "quote_state cs = fold (\<lambda>c q. if is_quote c then next_quote q c else q) cs None"

definition balanced :: "nat list \<Rightarrow> bool" where
  "balanced cs \<longleftrightarrow> quote_state cs = None"

lemma quote_state_snoc [simp]:
  "quote_state (cs @ [c]) = (if is_quote c then next_quote (quote_state cs) c else quote_state cs)"
  by (simp add: quote_state_def)

lemma quote_state_append: "balanced a \<Longrightarrow> quote_state (a @ b) = quote_state b"
  by (simp add: quote_state_def balanced_def)

lemma balanced_append: "balanced a \<Longrightarrow> balanced b \<Longrightarrow> balanced (a @ b)"
  by (simp add: balanced_def quote_state_append)

lemma balanced_quote_free: "list_all (\<lambda>c. \<not> is_quote c) cs \<Longrightarrow> balanced cs"
  unfolding balanced_def by (induction cs rule: rev_induct) (auto simp: quote_state_def)

lemma balanced_Cons: "\<not> is_quote c \<Longrightarrow> balanced (c # cs) = balanced cs"
  by (simp add: balanced_def quote_state_def)

definition ops_at :: "unicode \<Rightarrow> nat list list \<Rightarrow> nat list \<Rightarrow> nat \<Rightarrow> (nat \<times> nat) list" where
  "ops_at u ws cs j = (if is_quote (cs ! j) \<or> quote_state (take j cs) \<noteq> None then []
     else map (\<lambda>w. (j, length w)) (filter (op_at u cs j) ws))"

lemma operator_indices_closed:
  "i \<le> length cs \<Longrightarrow> operator_indices u ws cs i (quote_state (take i cs)) = concat (map (ops_at u ws cs) [i..<length cs])"
proof (induction "length cs - i" arbitrary: i)
  case 0
  then show ?case by (simp add: operator_indices.simps [of u ws cs i])
next
  case (Suc n)
  then have i: "i < length cs" by simp
  then have "quote_state (take (Suc i) cs) =
      (if is_quote (cs ! i) then next_quote (quote_state (take i cs)) (cs ! i) else quote_state (take i cs))"
    by (simp add: take_Suc_conv_app_nth)
  moreover have "operator_indices u ws cs (Suc i) (quote_state (take (Suc i) cs)) =
      concat (map (ops_at u ws cs) [Suc i..<length cs])"
    using Suc by simp
  ultimately show ?case
    using i by (cases "is_quote (cs ! i)"; cases "quote_state (take i cs)")
      (simp_all add: operator_indices.simps [of u ws cs i] upt_conv_Cons ops_at_def)
qed

lemma indices_closed: "indices u op cs = concat (map (ops_at u (logical_spellings op) cs) [0..<length cs])"
  using operator_indices_closed [of 0 cs u "logical_spellings op"] by (simp add: quote_state_def)

lemma take_across_sep:
  assumes "c \<notin> set w" "i \<le> length a" "take (length w) (drop i (a @ c # b)) = w"
  shows "i + length w \<le> length a"
proof (rule ccontr)
  assume "\<not> ?thesis"
  then have lt: "length a - i < length w" using assms(2) by simp
  have "w ! (length a - i) = take (length w) (drop i (a @ c # b)) ! (length a - i)"
    using assms(3) by simp
  also have "\<dots> = (a @ c # b) ! length a"
    using lt assms(2) by (simp del: drop_append take_append)
  finally have "w ! (length a - i) = c" by simp
  with lt assms(1) show False by (metis nth_mem)
qed

lemma op_at_left:
  assumes c: "\<not> is_alphanumeric u c" "c \<notin> set w" and i: "i \<le> length a" and w: "w \<noteq> []"
  shows "op_at u (a @ c # b) i w \<longleftrightarrow> i < length a \<and> op_at u a i w"
proof (cases "i + length w \<le> length a")
  case True
  have prev: "(a @ c # b) ! (i - 1) = a ! (i - 1)" if "0 < i"
    using that i by (auto simp: nth_append)
  have nxt: "(a @ c # b) ! (i + length w) = (if i + length w = length a then c else a ! (i + length w))"
    using True by (simp add: nth_append)
  have tk: "take (length w) (drop i (a @ c # b)) = take (length w) (drop i a)"
    using True by simp
  show ?thesis
    unfolding op_at_def tk using True prev nxt c(1) w by (auto split: if_splits)
next
  case False
  then show ?thesis using take_across_sep [OF c(2) i] by (auto simp: op_at_def)
qed

lemma op_at_right:
  assumes "\<not> is_alphanumeric u c"
  shows "op_at u (a @ c # b) (Suc (length a) + i) w \<longleftrightarrow> op_at u b i w"
  using assms by (cases i) (auto simp: op_at_def nth_append)

lemma separatorD:
  assumes "separator u c"
  shows "\<not> is_alphanumeric u c" "\<not> is_quote c" "w \<in> set (logical_spellings op) \<Longrightarrow> c \<notin> set w"
  using assms by (auto simp: separator_def)

lemma logical_spellings_ne: "w \<in> set (logical_spellings op) \<Longrightarrow> w \<noteq> []"
  using logical_spellings_pos [of op] by auto

lemma indices_separator:
  assumes c: "separator u c" and q: "balanced a"
  shows "indices u op (a @ c # b) =
    indices u op a @ map (\<lambda>(j, n). (Suc (length a) + j, n)) (indices u op b)"
proof -
  let ?ws = "logical_spellings op" and ?cs = "a @ c # b"
  let ?at = "ops_at u (logical_spellings op)"
  have left: "filter (op_at u ?cs j) ?ws = (if j < length a then filter (op_at u a j) ?ws else [])" if "j \<le> length a" for j
    using that op_at_left [OF separatorD(1,3) [OF c], where i = j and b = b and a = a]
    by (auto simp: filter_empty_conv intro!: filter_cong dest: logical_spellings_ne)
  have LL: "map (?at ?cs) [0..<length a] = map (?at a) [0..<length a]"
    by (rule map_cong) (simp_all add: ops_at_def left nth_append)
  have M: "?at ?cs (length a) = []"
    by (simp add: ops_at_def left)
  have R: "?at ?cs (Suc (length a) + j) = map (\<lambda>(j, n). (Suc (length a) + j, n)) (?at b j)" for j
  proof -
    have "op_at u ?cs (Suc (length a) + j) = op_at u b j"
      using op_at_right [OF separatorD(1) [OF c]] by (intro ext) simp
    moreover have "quote_state (take (Suc (length a) + j) ?cs) = quote_state (take j b)"
      using quote_state_append [OF q, of "c # take j b"] separatorD(2) [OF c] by (simp add: quote_state_def)
    ultimately show ?thesis by (simp add: comp_def ops_at_def nth_append)
  qed
  have upt: "[0..<length ?cs] = [0..<length a] @ [length a] @ map (\<lambda>j. Suc (length a) + j) [0..<length b]"
  proof -
    have "[Suc (length a)..<length a + Suc (length b)] = map (\<lambda>j. Suc (length a) + j) [0..<length b]"
      using map_add_upt [of "Suc (length a)" "length b"] by (simp add: add.commute)
    moreover have "[length a..<length a + Suc (length b)] = length a # [Suc (length a)..<length a + Suc (length b)]"
      by (rule upt_conv_Cons) simp
    ultimately show ?thesis
      using upt_add_eq_append [of 0 "length a" "Suc (length b)"] by simp
  qed
  show ?thesis
    unfolding indices_closed upt
    by (simp only: map_append concat_append list.map concat.simps M LL map_map comp_def R map_concat append_Nil)
qed

section \<open>Trimming around solid text\<close>

definition solid :: "char \<Rightarrow> bool" where
  "solid c \<longleftrightarrow> of_char c < (128 :: nat) \<and> [of_char c] \<notin> set ws1"

lemma ws_len_solid: "solid c \<Longrightarrow> ws_len (of_char c # bs) = 0"
  by (auto simp: ws_len_def solid_def ws2_def ws3_def)

lemma ws_len_end_solid:
  assumes "solid c"
  shows "ws_len_end (bs @ [of_char c]) = 0"
proof -
  have "drop (length (bs @ [of_char c]) - n) (bs @ [of_char c]) \<in> set ws2 \<union> set ws3 \<Longrightarrow> (128 :: nat) \<le> of_char c" for n
  proof -
    assume m: "drop (length (bs @ [of_char c]) - n) (bs @ [of_char c]) \<in> set ws2 \<union> set ws3"
    then have "drop (length (bs @ [of_char c]) - n) (bs @ [of_char c]) \<noteq> []"
      by (auto simp: ws2_def ws3_def)
    then have l: "last (drop (length (bs @ [of_char c]) - n) (bs @ [of_char c])) = of_char c"
      by (subst last_drop) auto
    have "w \<in> set ws2 \<union> set ws3 \<Longrightarrow> (128 :: nat) \<le> last w" for w
      by (auto simp: ws2_def ws3_def)
    from this [OF m] show "(128 :: nat) \<le> of_char c" by (simp only: l)
  qed
  from this [of 2] this [of 3] assms show ?thesis
    unfolding ws_len_end_def solid_def by auto
qed

definition solid_ends :: "string \<Rightarrow> bool" where
  "solid_ends s \<longleftrightarrow> s \<noteq> [] \<and> solid (hd s) \<and> solid (last s)"

lemma solid_ends_ne: "solid_ends s \<Longrightarrow> s \<noteq> []"
  by (simp add: solid_ends_def)

lemma solid_ends_ws:
  assumes "solid_ends s"
  shows "ws_len (bytes_of s @ b) = 0" "ws_len_end (a @ bytes_of s) = 0"
proof -
  from assms show "ws_len (bytes_of s @ b) = 0"
    by (cases s) (auto simp: solid_ends_def ws_len_solid)
  obtain t x where s: "s = t @ [x]"
    using assms by (cases s rule: rev_cases) (auto simp: solid_ends_def)
  with assms have "solid x" by (simp add: solid_ends_def)
  from ws_len_end_solid [OF this, of "a @ bytes_of t"] show "ws_len_end (a @ bytes_of s) = 0"
    by (simp add: s)
qed

lemma ws_len_end_space: "ws_len_end (bs @ [32]) = 1"
  by (simp add: ws_len_end_def ws1_def)

lemma ws_len_space: "ws_len (32 # bs) = 1"
  by (simp add: ws_len_def ws1_def)

lemma trim_solid [simp]:
  assumes "solid_ends s"
  shows "trim s = s" "trim (s @ '' '') = s" "trim (CHR '' '' # s) = s"
proof -
  note ws = solid_ends_ws [OF assms]
  show t: "trim s = s"
    using ws(1) [of "[]"] ws(2) [of "[]"] by (simp add: trim_id)
  have "trim_start (s @ '' '') = s @ '' ''"
    using ws(1) [of "[32]"] by (subst trim_start.simps) simp
  moreover have "trim_end (s @ '' '') = trim_end s"
    by (subst trim_end.simps) (simp add: ws_len_end_space)
  moreover have "trim_start s = s"
    using ws(1) [of "[]"] by (simp add: trim_start.simps)
  ultimately show "trim (s @ '' '') = s"
    using t by (simp add: trim_def)
  have "trim_start (CHR '' '' # s) = trim_start s"
    by (subst trim_start.simps) (simp add: ws_len_space)
  then show "trim (CHR '' '' # s) = s"
    using t by (simp add: trim_def)
qed

section \<open>The printer\<close>

fun comparison_spelling :: "comparison_operator \<Rightarrow> string" where
  "comparison_spelling GreaterThan = ''>''"
| "comparison_spelling LessThan = ''<''"
| "comparison_spelling CEqual = ''==''"
| "comparison_spelling NotEqual = ''!=''"
| "comparison_spelling GreaterThanOrEqual = ''>=''"
| "comparison_spelling LessThanOrEqual = ''<=''"
| "comparison_spelling CUnspecified = []"

fun logical_spelling :: "logical_operator \<Rightarrow> string" where
  "logical_spelling LAnd = ''&&''"
| "logical_spelling LOr = ''||''"
| "logical_spelling LUnspecified = []"

text \<open>
  A word: letters, digits and the characters \<open>_\<close>, \<open>.\<close>, \<open>-\<close>, where no run of letters and digits
  between the others is \<open>and\<close> or \<open>or\<close>.
\<close>

definition letter_or_digit :: "nat \<Rightarrow> bool" where
  "letter_or_digit c \<longleftrightarrow> ascii_alpha c \<or> ascii_digit c"

fun word_runs :: "nat list \<Rightarrow> nat list list" where
  "word_runs [] = [[]]"
| "word_runs (c # cs) = (if letter_or_digit c then (c # hd (word_runs cs)) # tl (word_runs cs) else [] # word_runs cs)"

definition word :: "string \<Rightarrow> bool" where
  "word w \<longleftrightarrow> w \<noteq> [] \<and> list_all (\<lambda>c. letter_or_digit c \<or> c \<in> {95, 46, 45}) (bytes_of w) \<and>
     bytes_of ''and'' \<notin> set (word_runs (bytes_of w)) \<and> bytes_of ''or'' \<notin> set (word_runs (bytes_of w))"

definition identifier_text :: "string \<Rightarrow> bool" where
  "identifier_text w \<longleftrightarrow> word w \<and> CHR ''-'' \<notin> set w \<and> \<not> ascii_digit (of_char (hd w)) \<and> hd w \<noteq> CHR ''.''"

text \<open>
  A quoted operand: ASCII text between two equal quotes that contains neither that quote nor a
  comparison operator (whose search does not look at quotes).
\<close>

definition quoted :: "string \<Rightarrow> bool" where
  "quoted s \<longleftrightarrow> length s \<ge> 2 \<and> hd s \<in> {CHR 0x27, CHR 0x22} \<and> last s = hd s \<and>
     list_all (\<lambda>c. of_char c < (128 :: nat) \<and> c \<noteq> hd s \<and> c \<notin> {CHR ''<'', CHR ''>'', CHR ''='', CHR ''!''}) (butlast (tl s))"

datatype leaf = Ident string | Compare string comparison_operator string | Negate leaf

fun leaf_text :: "leaf \<Rightarrow> string" where
  "leaf_text (Ident v) = v"
| "leaf_text (Compare l op r) = l @ '' '' @ comparison_spelling op @ '' '' @ r"
| "leaf_text (Negate e) = ''!'' @ leaf_text e"

fun leaf_expr :: "leaf \<Rightarrow> condition_expr" where
  "leaf_expr (Ident v) = cond_identifier v"
| "leaf_expr (Compare l op r) = cond_predicate l op r"
| "leaf_expr (Negate e) = cond_negated (leaf_expr e)"

fun leaf_ok :: "leaf \<Rightarrow> bool" where
  "leaf_ok (Ident v) \<longleftrightarrow> identifier_text v"
| "leaf_ok (Compare l op r) \<longleftrightarrow> (word l \<or> quoted l) \<and> (word r \<or> quoted r) \<and> op \<noteq> CUnspecified"
| "leaf_ok (Negate e) \<longleftrightarrow> leaf_ok e"

fun chain_text :: "logical_operator \<Rightarrow> leaf \<Rightarrow> leaf list \<Rightarrow> string" where
  "chain_text op e [] = leaf_text e"
| "chain_text op e (f # es) = leaf_text e @ '' '' @ logical_spelling op @ '' '' @ chain_text op f es"

fun chain_expr :: "logical_operator \<Rightarrow> leaf \<Rightarrow> leaf list \<Rightarrow> condition_expr" where
  "chain_expr op e [] = leaf_expr e"
| "chain_expr op e (f # es) = cond_compound (leaf_expr e) op (chain_expr op f es)"

section \<open>Scanning printed text\<close>

text \<open>Text the parser handles as one leaf: no operator is seen, nothing to trim.\<close>

definition plain_text :: "string \<Rightarrow> bool" where
  "plain_text s \<longleftrightarrow> ascii_string s \<and> balanced (bytes_of s) \<and> solid_ends s"

lemma logical_spellings_chars:
  "w \<in> set (logical_spellings op) \<Longrightarrow> set w \<subseteq> {38, 97, 110, 100, 124, 111, 114}"
  by (cases op) (auto simp: logical_spellings.simps)

lemma separators: "separator u 32" "separator u 33"
  by (auto simp: separator_def is_alphanumeric_def ascii_alpha_def ascii_digit_def is_quote_def
      dest!: logical_spellings_chars)

text \<open>The runs of a word.\<close>

lemma word_runs_ne [simp]: "word_runs cs \<noteq> []"
  by (induction cs) auto

lemma hd_word_runs:
  "list_all letter_or_digit w \<Longrightarrow> post = [] \<or> \<not> letter_or_digit (hd post) \<Longrightarrow> hd (word_runs (w @ post)) = w"
proof (induction w)
  case Nil
  then show ?case by (cases post) auto
qed simp

lemma run_inside:
  assumes "list_all letter_or_digit w" "post = [] \<or> \<not> letter_or_digit (hd post)"
  shows "pre \<noteq> [] \<Longrightarrow> \<not> letter_or_digit (last pre) \<Longrightarrow> w \<in> set (tl (word_runs (pre @ w @ post)))"
proof (induction pre)
  case (Cons c pre)
  show ?case
  proof (cases "pre = []")
    case True
    have "w \<in> set (word_runs (w @ post))" by (metis hd_word_runs [OF assms] hd_in_set word_runs_ne)
    with True Cons.prems show ?thesis by simp
  next
    case False
    with Cons have "w \<in> set (tl (word_runs (pre @ w @ post)))" by simp
    then show ?thesis by (auto dest: list.set_sel(2) [rotated])
  qed
qed simp

lemma run_mem:
  assumes "list_all letter_or_digit w" "post = [] \<or> \<not> letter_or_digit (hd post)" "pre = [] \<or> \<not> letter_or_digit (last pre)"
  shows "w \<in> set (word_runs (pre @ w @ post))"
proof (cases "pre = []")
  case True
  then show ?thesis using hd_word_runs [OF assms(1,2)] hd_in_set [of "word_runs (w @ post)"] by simp
next
  case False
  with run_inside [OF assms(1,2)] assms(3) show ?thesis by (meson list.set_sel(2) word_runs_ne)
qed

lemma word_op_at:
  assumes w: "list_all (\<lambda>c. letter_or_digit c \<or> c \<in> {95, 46, 45}) cs" and at: "op_at u cs i s" "list_all letter_or_digit s"
  shows "s \<in> set (word_runs cs)"
proof -
  have small: "c < 128" if "c \<in> set cs" for c
    using w that by (auto simp: list_all_iff letter_or_digit_def ascii_alpha_def ascii_digit_def)
  have alnum: "is_alphanumeric u c = letter_or_digit c" if "c \<in> set cs" for c
    using small [OF that] by (simp add: is_alphanumeric_def letter_or_digit_def)
  let ?pre = "take i cs" and ?post = "drop (i + length s) cs"
  have len: "i + length s \<le> length cs" and s: "take (length s) (drop i cs) = s" using at(1) by (auto simp: op_at_def)
  have cs: "cs = ?pre @ s @ ?post"
    using s by (metis add.commute append_take_drop_id drop_drop)
  have "?pre = [] \<or> \<not> letter_or_digit (last ?pre)"
  proof (cases "i = 0")
    case False
    then have "cs \<noteq> []" "i - 1 < length cs" using len at(1) s by (auto simp: op_at_def)
    with False len have "last ?pre = cs ! (i - 1)" "cs ! (i - 1) \<in> set cs"
      by (simp_all add: last_conv_nth [of "take i cs"] min_absorb2)
    with False at(1) alnum show ?thesis by (auto simp: op_at_def)
  qed simp
  moreover have "?post = [] \<or> \<not> letter_or_digit (hd ?post)"
  proof (cases "i + length s = length cs")
    case False
    with len have "hd ?post = cs ! (i + length s)" "cs ! (i + length s) \<in> set cs" by (simp_all add: hd_drop_conv_nth)
    with False at(1) alnum show ?thesis by (auto simp: op_at_def)
  qed simp
  ultimately show ?thesis using run_mem [OF at(2)] cs by metis
qed

lemma word_ops_at:
  assumes "word w" "lop \<in> {LAnd, LOr}"
  shows "indices u lop (bytes_of w) = []"
proof -
  let ?cs = "bytes_of w"
  have all: "list_all (\<lambda>c. letter_or_digit c \<or> c \<in> {95, 46, 45}) ?cs" using assms(1) by (simp add: word_def)
  have sym: "\<not> op_at u ?cs j [c, c]" if "c \<in> {38, 124}" for c j
  proof
    assume "op_at u ?cs j [c, c]"
    then have "take 2 (drop j ?cs) = [c, c]" by (simp add: op_at_def numeral_2_eq_2)
    then have "c \<in> set ?cs" by (metis in_set_dropD in_set_takeD list.set_intros(1))
    with all that show False by (auto simp: list_all_iff letter_or_digit_def ascii_alpha_def ascii_digit_def)
  qed
  have "\<not> op_at u ?cs j (bytes_of ''and'')" "\<not> op_at u ?cs j (bytes_of ''or'')" for j
    using word_op_at [OF all, of u j] assms(1)
    by (auto simp: word_def letter_or_digit_def ascii_alpha_def)
  with sym [of 38] sym [of 124] assms(2) show ?thesis
    by (auto simp: indices_closed ops_at_def logical_spellings.simps)
qed

lemma word_chars:
  assumes "word w" "c \<in> set w"
  shows "letter_or_digit (of_char c) \<or> of_char c \<in> {95, 46, 45 :: nat}"
  using assms by (auto simp: word_def list_all_iff)

lemma word_plain: "word w \<Longrightarrow> plain_text w"
  unfolding plain_text_def
proof (intro conjI)
  assume w: "word w"
  note wc = word_chars [OF w]
  show "ascii_string w" using wc by (fastforce simp: letter_or_digit_def ascii_alpha_def ascii_digit_def)
  show "balanced (bytes_of w)"
    by (rule balanced_quote_free)
      (use wc in \<open>fastforce simp: list_all_iff letter_or_digit_def ascii_alpha_def ascii_digit_def is_quote_def\<close>)
  have "solid c" if "c \<in> set w" for c
    using wc [OF that] by (auto simp: solid_def letter_or_digit_def ascii_alpha_def ascii_digit_def ws1_def)
  with w show "solid_ends w" by (simp add: solid_ends_def word_def)
qed

text \<open>A quoted operand.\<close>

lemma quote_state_body:
  "list_all (\<lambda>c. c \<noteq> q) cs \<Longrightarrow> is_quote q \<Longrightarrow> quote_state (q # cs) = Some q"
  by (induction cs rule: rev_induct) (auto simp: quote_state_def split: if_splits)

lemma quotedE:
  assumes "quoted s"
  obtains q b where "s = q # b @ [q]" "q \<in> {CHR 0x27, CHR 0x22}" "list_all (\<lambda>c. of_char c < (128 :: nat) \<and> c \<noteq> q \<and>
    c \<notin> {CHR ''<'', CHR ''>'', CHR ''='', CHR ''!''}) b"
proof -
  obtain q r where s: "s = q # r" using assms by (cases s) (auto simp: quoted_def)
  have "r \<noteq> []" using assms s by (auto simp: quoted_def)
  moreover have "last r = q" using assms s \<open>r \<noteq> []\<close> by (simp add: quoted_def)
  ultimately have "s = q # butlast r @ [q]" using s append_butlast_last_id [of r] by simp
  then show ?thesis
    by (rule that) (use assms s in \<open>simp_all add: quoted_def\<close>)
qed

lemma quoted_scan:
  assumes "quoted s"
  shows "plain_text s" "indices u lop (bytes_of s) = []"
proof -
  from assms obtain q b where s: "s = q # b @ [q]" "q \<in> {CHR 0x27, CHR 0x22}"
    "list_all (\<lambda>c. of_char c < (128 :: nat) \<and> c \<noteq> q \<and> c \<notin> {CHR ''<'', CHR ''>'', CHR ''='', CHR ''!''}) b"
    by (rule quotedE)
  let ?q = "of_char q :: nat" and ?b = "bytes_of b"
  have q: "is_quote ?q" "?q < 128" using s(2) by (auto simp: is_quote_def)
  have b: "list_all (\<lambda>c. c \<noteq> ?q) ?b" using s(3) by (auto simp: list_all_iff)
  have cs: "bytes_of s = (?q # ?b) @ [?q]" using s(1) by simp
  have "quote_state (bytes_of s) = None" unfolding cs quote_state_snoc using quote_state_body [OF b q(1)] q(1) by simp
  moreover have "solid q" using s(2) by (auto simp: solid_def ws1_def)
  moreover have "ascii_string s" using s q(2) by (auto simp: list_all_iff)
  ultimately show "plain_text s" using s(1) by (simp add: plain_text_def balanced_def solid_ends_def)
  have "ops_at u (logical_spellings lop) (bytes_of s) j = []" if "j < length (bytes_of s)" for j
  proof (cases "j = 0 \<or> j = Suc (length b)")
    case True
    then show ?thesis using q(1) s(1) by (auto simp: ops_at_def nth_append)
  next
    case False
    then obtain k where k: "j = Suc k" by (cases j) auto
    moreover have "length (bytes_of s) = Suc (Suc (length b))" using s(1) by simp
    ultimately have "k < length b" using that False by linarith
    with k have "take j (bytes_of s) = ?q # take k ?b" unfolding cs by simp
    moreover have "list_all (\<lambda>c. c \<noteq> ?q) (take k ?b)" using b by (metis append_take_drop_id list_all_append)
    ultimately have "quote_state (take j (bytes_of s)) = Some ?q" using quote_state_body q(1) by simp
    then show ?thesis by (simp add: ops_at_def)
  qed
  then show "indices u lop (bytes_of s) = []" by (simp add: indices_closed)
qed

definition compare_operand :: "string \<Rightarrow> bool" where
  "compare_operand s \<longleftrightarrow> word s \<or> quoted s"

lemma operand_scan:
  assumes "compare_operand s"
  shows "plain_text s" "lop \<in> {LAnd, LOr} \<Longrightarrow> indices u lop (bytes_of s) = []"
  using assms word_plain word_ops_at quoted_scan by (auto simp: compare_operand_def)

lemma operand_no_comparison:
  assumes "compare_operand s"
  shows "CHR ''<'' \<notin> set s" "CHR ''>'' \<notin> set s" "CHR ''='' \<notin> set s" "CHR ''!'' \<notin> set s"
proof -
  have "c \<notin> set s" if "c \<in> {CHR ''<'', CHR ''>'', CHR ''='', CHR ''!''}" for c
  proof (cases "word s")
    case True
    then show ?thesis using word_chars [OF True, of c] that
      by (auto simp: letter_or_digit_def ascii_alpha_def ascii_digit_def)
  next
    case False
    then have "quoted s" using assms by (simp add: compare_operand_def)
    then show ?thesis by (rule quotedE) (use that in \<open>auto simp: list_all_iff\<close>)
  qed
  then show "CHR ''<'' \<notin> set s" "CHR ''>'' \<notin> set s" "CHR ''='' \<notin> set s" "CHR ''!'' \<notin> set s" by simp_all
qed

lemma indices_Nil [simp]: "indices u op [] = []"
  by (simp add: operator_indices.simps)

lemma indices_logical [simp]:
  "indices u LAnd [38, 38] = [(0, 2)]" "indices u LOr [124, 124] = [(0, 2)]"
  "indices u LAnd [124, 124] = []"
  unfolding indices_closed
  by (simp_all add: ops_at_def quote_state_def is_quote_def op_at_def upt_rec logical_spellings.simps)

lemma indices_spelled:
  "balanced [x, y] \<Longrightarrow>
   indices u op (x # y # 32 # b) = indices u op [x, y] @ map (\<lambda>(j, n). (3 + j, n)) (indices u op b)"
  using indices_separator [OF separators(1), of "[x, y]" u op b] by (simp add: numeral_3_eq_3)

lemma plain_append:
  "plain_text a \<Longrightarrow> ascii_string s \<Longrightarrow> balanced (bytes_of s) \<Longrightarrow> plain_text b \<Longrightarrow> plain_text (a @ s @ b)"
  by (auto simp: plain_text_def solid_ends_def intro!: balanced_append)

lemma leaf_operands: "leaf_ok (Compare l op r) \<longleftrightarrow> compare_operand l \<and> compare_operand r \<and> op \<noteq> CUnspecified"
  by (simp add: compare_operand_def)

declare leaf_ok.simps(2) [simp del] leaf_operands [simp]

lemma leaf_plain: "leaf_ok e \<Longrightarrow> plain_text (leaf_text e)"
proof (induction e)
  case (Ident v)
  then show ?case by (simp add: identifier_text_def word_plain)
next
  case (Compare l op r)
  have "ascii_string ('' '' @ comparison_spelling op @ '' '')"
    "balanced (bytes_of ('' '' @ comparison_spelling op @ '' ''))"
    by (cases op; simp add: is_quote_def balanced_def quote_state_def)+
  with Compare show ?case
    using plain_append [of l "'' '' @ comparison_spelling op @ '' ''" r] operand_scan(1) by auto
next
  case (Negate e)
  then show ?case by (auto simp: plain_text_def solid_ends_def solid_def ws1_def is_quote_def balanced_Cons)
qed

lemma indices_comparison:
  "indices u lop (bytes_of (comparison_spelling op)) = []"
  unfolding indices_closed
  by (cases op; cases lop) (simp_all add: ops_at_def quote_state_def is_quote_def op_at_def upt_rec logical_spellings.simps)

lemma balanced_plain: "plain_text s \<Longrightarrow> balanced (bytes_of s)"
  by (simp add: plain_text_def)

lemma balanced_comparison: "balanced (bytes_of (comparison_spelling op))"
  by (cases op) (simp_all add: balanced_def quote_state_def is_quote_def)

lemma balanced_Nil [simp]: "balanced []"
  by (simp add: balanced_def quote_state_def)

lemma indices_plain:
  "plain_text a \<Longrightarrow> indices u op (bytes_of a @ 32 # b) =
     indices u op (bytes_of a) @ map (\<lambda>(j, n). (Suc (length a) + j, n)) (indices u op b)"
  using indices_separator [OF separators(1) balanced_plain] by simp

lemma leaf_indices: "leaf_ok e \<Longrightarrow> lop \<in> {LAnd, LOr} \<Longrightarrow> indices u lop (bytes_of (leaf_text e)) = []"
proof (induction e)
  case (Ident v)
  then show ?case by (simp add: identifier_text_def word_ops_at)
next
  case (Compare l op r)
  then have "indices u lop (bytes_of (comparison_spelling op) @ 32 # bytes_of r) = []"
    using indices_separator [OF separators(1) balanced_comparison, of u lop op "bytes_of r"]
    by (simp add: indices_comparison operand_scan(2))
  with Compare show ?case by (simp add: indices_plain operand_scan)
next
  case (Negate e)
  then show ?case
    using indices_separator [OF separators(2) balanced_Nil, of u lop "bytes_of (leaf_text e)"] by simp
qed

lemma chain_plain: "leaf_ok e \<Longrightarrow> list_all leaf_ok es \<Longrightarrow> op \<in> {LAnd, LOr} \<Longrightarrow> plain_text (chain_text op e es)"
proof (induction op e es rule: chain_text.induct)
  case (2 op e f es)
  have "ascii_string ('' '' @ logical_spelling op @ '' '')" "balanced (bytes_of ('' '' @ logical_spelling op @ '' ''))"
    by (cases op; simp add: is_quote_def balanced_def quote_state_def)+
  with 2 show ?case
    using plain_append [of "leaf_text e" "'' '' @ logical_spelling op @ '' ''"] leaf_plain by auto
qed (simp add: leaf_plain)

lemma balanced_logical [simp]: "balanced [38, 38]" "balanced [124, 124]"
  by (simp_all add: balanced_def quote_state_def is_quote_def)

lemma or_chain_no_and:
  "leaf_ok e \<Longrightarrow> list_all leaf_ok es \<Longrightarrow> indices u LAnd (bytes_of (chain_text LOr e es)) = []"
proof (induction es arbitrary: e)
  case (Cons f es)
  then show ?case by (simp add: indices_plain indices_spelled leaf_plain leaf_indices)
qed (simp add: leaf_indices)

lemma chain_indices:
  assumes "leaf_ok e" "leaf_ok f" "list_all leaf_ok es" "op \<in> {LAnd, LOr}"
  shows "\<exists>rest. indices u op (bytes_of (chain_text op e (f # es))) = (Suc (length (leaf_text e)), 2) # rest"
  using assms by (auto simp: indices_plain indices_spelled leaf_plain leaf_indices)

section \<open>Parsing printed text\<close>

lemma split_sides_none: "ascii_string s \<Longrightarrow> indices u op (bytes_of s) = [] \<Longrightarrow> split_sides u s op = Done None"
  by (simp add: split_sides_def chars_ascii)

lemma split_sides_chain:
  assumes "leaf_ok e" "leaf_ok f" "list_all leaf_ok es" "op \<in> {LAnd, LOr}"
  shows "split_sides u (chain_text op e (f # es)) op = Done (Some (leaf_text e, chain_text op f es))"
proof -
  let ?s = "chain_text op e (f # es)"
  have asc: "ascii_string ?s" using chain_plain [of e "f # es" op] assms by (auto simp: plain_text_def)
  have solid: "solid_ends (leaf_text e)" "solid_ends (chain_text op f es)"
    using leaf_plain [of e] chain_plain [of f es op] assms by (auto simp: plain_text_def)
  have op: "length (logical_spelling op) = 2" using assms(4) by auto
  have cut: "take (Suc (length (leaf_text e))) ?s = leaf_text e @ '' ''"
    "drop (Suc (Suc (Suc (length (leaf_text e))))) ?s = CHR '' '' # chain_text op f es"
    using op by simp_all
  obtain rest where "indices u op (bytes_of ?s) = (Suc (length (leaf_text e)), 2) # rest"
    using chain_indices [OF assms] by blast
  moreover have "is_char_boundary (bytes_of ?s) (Suc (length (leaf_text e)))"
    "is_char_boundary (bytes_of ?s) (Suc (length (leaf_text e)) + 2)"
    using op by (intro char_boundary_ascii [OF asc]; simp)+
  ultimately show ?thesis
    using solid by (simp add: split_sides_def chars_ascii [OF asc] slice_to_def slice_from_def cut solid_ends_ne
        del: chain_text.simps)
qed

lemma parse_compound_leaf:
  assumes "leaf_ok e"
  shows "parse_compound_expr u (leaf_text e) = Fail NotACompound"
proof -
  have "plain_text (leaf_text e)" using leaf_plain [OF assms] .
  then have "trim (leaf_text e) = leaf_text e" "ascii_string (leaf_text e)" by (simp_all add: plain_text_def)
  moreover have "split_sides u (leaf_text e) op = Done None" if "op \<in> {LAnd, LOr}" for op
    using split_sides_none [OF calculation(2) leaf_indices [OF assms that]] .
  ultimately show ?thesis
    by (simp add: parse_compound_expr.simps split_by_logical_op.simps)
qed

lemma parse_predicate_word:
  assumes "word w"
  shows "parse_predicate w = Fail NotAPredicate"
proof -
  have w: "compare_operand w" using assms by (simp add: compare_operand_def)
  have "trim w = w" using operand_scan(1) [OF w] by (simp add: plain_text_def)
  with operand_no_comparison [OF w] show ?thesis
    by (simp add: parse_predicate_def comparison_spellings_def find_sub_disjoint)
qed

lemma parse_predicate_compare:
  assumes "leaf_ok (Compare l op r)"
  shows "parse_predicate (leaf_text (Compare l op r)) = Done (cond_predicate l op r)"
proof -
  have w: "compare_operand l" "compare_operand r" and op: "op \<noteq> CUnspecified" using assms by auto
  have t: "trim (leaf_text (Compare l op r)) = leaf_text (Compare l op r)"
    using leaf_plain [OF assms] by (simp add: plain_text_def)
  have s: "trim (l @ '' '') = l" "trim (CHR '' '' # r) = r" "l \<noteq> []" "r \<noteq> []"
    using operand_scan(1) [OF w(1)] operand_scan(1) [OF w(2)] by (auto simp: plain_text_def solid_ends_ne)
  have e: "\<not> ends_with (l @ '' '') [c]" "\<not> starts_with (CHR '' '' # r) [c]" if "c \<noteq> CHR '' ''" for c
    using that by (auto simp: ends_with_iff starts_with_iff)
  note n = operand_no_comparison [OF w(1)] operand_no_comparison [OF w(2)]
  show ?thesis
    unfolding parse_predicate_def t
    using op n s e
    by (cases op)
      (simp_all add: comparison_spellings_def find_sub_skip find_sub_disjoint starts_with_def [of "_ # _"] Let_def)
qed

lemma identifier_text_valid:
  assumes "identifier_text v"
  shows "is_valid_identifier u v"
proof -
  have w: "word v" and v: "v \<noteq> []" using assms by (auto simp: identifier_text_def word_def)
  note wc = word_chars [OF w]
  have ascii: "ascii_string v" using word_plain [OF w] by (simp add: plain_text_def)
  have ok: "is_alphanumeric u (of_char c) \<or> of_char c = (95 :: nat) \<or> of_char c = (46 :: nat)" if "c \<in> set v" for c
  proof -
    have "of_char c \<noteq> (45 :: nat)"
    proof
      assume "of_char c = (45 :: nat)"
      then have "(of_char c :: nat) = of_char CHR ''-''" by simp
      then have "c = CHR ''-''" by (simp only: of_char_eq_iff)
      with that assms show False by (simp add: identifier_text_def)
    qed
    with wc [OF that] ascii that show ?thesis
      by (auto simp: is_alphanumeric_def letter_or_digit_def ascii_alpha_def ascii_digit_def)
  qed
  obtain c cs where c: "v = c # cs" using v by (cases v) auto
  have "of_char c \<noteq> (46 :: nat)"
  proof
    assume "of_char c = (46 :: nat)"
    then have "(of_char c :: nat) = of_char CHR ''.''" by simp
    then have "c = CHR ''.''" by (simp only: of_char_eq_iff)
    with c assms show False by (simp add: identifier_text_def)
  qed
  moreover have "\<not> ascii_digit (of_char c)" using assms c by (simp add: identifier_text_def)
  ultimately have "is_alphabetic u (of_char c) \<or> of_char c = (95 :: nat)"
    using ok [of c] c ascii by (auto simp: is_alphabetic_def is_alphanumeric_def)
  moreover have "chars v = of_char c # bytes_of cs" using chars_ascii [OF ascii] c by simp
  ultimately show ?thesis using ok c by (simp add: is_valid_identifier_def list_all_iff)
qed

lemma parse_leaf: "leaf_ok e \<Longrightarrow> parse u (leaf_text e) = Done (leaf_expr e)"
proof (induction e)
  case (Ident v)
  then have w: "word v" "compare_operand v" by (simp_all add: identifier_text_def compare_operand_def)
  then have t: "trim v = v" "v \<noteq> []" using word_plain [of v] by (auto simp: plain_text_def solid_ends_ne)
  moreover have "strip_prefix ''!'' v = None"
    using operand_no_comparison(4) [OF w(2)] t(2) by (cases v) auto
  ultimately show ?case
    using Ident parse_compound_leaf [of "Ident v" u] parse_predicate_word [OF w(1)] identifier_text_valid [of v u]
    by (simp add: parse.simps [of u v] parse_not_expr.simps [of u v] parse_identifier_def)
next
  case (Compare l op r)
  let ?s = "leaf_text (Compare l op r)"
  have t: "trim ?s = ?s" "?s \<noteq> []" using leaf_plain [OF Compare] by (auto simp: plain_text_def solid_ends_ne)
  have "parse_not_expr u ?s = Fail NotANegation"
  proof -
    obtain c l' where "l = c # l'" "c \<noteq> CHR ''!''"
      using Compare operand_no_comparison(4) [of l] solid_ends_ne operand_scan(1) [of l] by (cases l) (auto simp: plain_text_def)
    then have "strip_prefix ''!'' ?s = None" by simp
    then show ?thesis by (simp only: parse_not_expr.simps t option.case)
  qed
  then show ?case
    using parse_compound_leaf [OF Compare, of u] parse_predicate_compare [OF Compare] t
    by (simp add: parse.simps [of u ?s] Let_def del: leaf_text.simps)
next
  case (Negate e)
  let ?s = "leaf_text (Negate e)"
  have t: "trim ?s = ?s" "?s \<noteq> []" "trim (leaf_text e) = leaf_text e"
    using leaf_plain [of e] leaf_plain [OF Negate.prems] Negate by (auto simp: plain_text_def solid_ends_ne simp del: leaf_text.simps)
  have "strip_prefix ''!'' ?s = Some (leaf_text e)" by simp
  then have "parse_not_expr u ?s = Done (leaf_expr (Negate e))"
    using Negate t by (simp add: parse_not_expr.simps [of u ?s] del: leaf_text.simps)
  then show ?case
    using parse_compound_leaf [OF Negate.prems, of u] t
    by (simp add: parse.simps [of u ?s] Let_def del: leaf_text.simps)
qed

lemma parse_chain:
  "leaf_ok e \<Longrightarrow> list_all leaf_ok es \<Longrightarrow> op \<in> {LAnd, LOr} \<Longrightarrow>
   parse u (chain_text op e es) = Done (chain_expr op e es)"
proof (induction es arbitrary: e)
  case (Cons f es)
  let ?s = "chain_text op e (f # es)"
  have ok: "leaf_ok f" "list_all leaf_ok es" using Cons.prems by auto
  have pt: "plain_text ?s" by (rule chain_plain) (use Cons.prems in auto)
  then have t: "trim ?s = ?s" "?s \<noteq> []" "ascii_string ?s" by (simp_all add: plain_text_def solid_ends_ne)
  have split: "split_by_logical_op u ?s op = Done (Some (chain_expr op e (f # es)))"
    using split_sides_chain [OF Cons.prems(1) ok Cons.prems(3)] parse_leaf [OF Cons.prems(1)] Cons.IH [OF ok Cons.prems(3)]
    by (simp add: split_by_logical_op.simps [of u ?s] del: chain_text.simps)
  moreover have "split_by_logical_op u ?s LAnd = Done None" if "op = LOr"
  proof -
    have "indices u LAnd (bytes_of ?s) = []"
      using or_chain_no_and [of e "f # es" u] Cons.prems that by simp
    with split_sides_none t(3) show ?thesis by (simp add: split_by_logical_op.simps [of u ?s] del: chain_text.simps)
  qed
  ultimately have "parse_compound_expr u ?s = Done (chain_expr op e (f # es))"
    using Cons.prems(3) by (auto simp: parse_compound_expr.simps [of u ?s] t(1) simp del: chain_text.simps chain_expr.simps)
  then show ?case using t by (simp add: parse.simps [of u ?s] Let_def del: chain_text.simps chain_expr.simps)
qed (simp add: parse_leaf)

section \<open>Properties\<close>

text \<open>
  C33.  A chain of one logical operator over leaves, printed with single spaces around its operators,
  parses back to its tree, right-nested.  A leaf is an identifier, a comparison of two operands or a
  (repeated) negation of a leaf.  An identifier is a word of letters, digits, \<open>_\<close> and \<open>.\<close> that starts
  with a letter or \<open>_\<close> and in which no run of letters and digits is \<open>and\<close> or \<open>or\<close> (\<open>word\<close>: a name such
  as \<open>terms_and_conditions\<close> is split by the parser, see \<open>parse_splits_identifier\<close>); an operand of a
  comparison is such a word, which may also hold \<open>-\<close> and start with any of its characters, or ASCII
  text between two equal quotes without that quote and without a comparison character (\<open>quoted\<close>: the
  search for the comparison does not look at quotes, see \<open>parse_operator_in_quotes\<close>), while \<open>and\<close>,
  \<open>or\<close>, \<open>&&\<close> and \<open>||\<close> inside the quotes do no harm.
\<close>

theorem parse_print_roundtrip:
  assumes "leaf_ok e" "list_all leaf_ok es" "op = LAnd \<or> op = LOr"
  shows "parse u (chain_text op e es) = Done (chain_expr op e es)"
  using assms parse_chain [of e es op u] by auto

definition ascii_tables :: unicode where
  "ascii_tables = \<lparr>uni_alphabetic = (\<lambda>_. False), uni_alphanumeric = (\<lambda>_. False)\<rparr>"

theorem parse_print_roundtrip_witness:
  "leaf_ok (Negate (Ident ''user.band'')) \<and> leaf_ok (Compare ''status'' CEqual (CHR 0x27 # ''a or b'' @ [CHR 0x27])) \<and>
   parse ascii_tables (''!user.band || status == '' @ CHR 0x27 # ''a or b'' @ [CHR 0x27]) =
     Done (cond_compound (cond_negated (cond_identifier ''user.band'')) LOr
       (cond_predicate ''status'' CEqual (CHR 0x27 # ''a or b'' @ [CHR 0x27])))"
proof -
  have ok: "leaf_ok (Negate (Ident ''user.band''))"
    "leaf_ok (Compare ''status'' CEqual (CHR 0x27 # ''a or b'' @ [CHR 0x27]))"
    by code_simp+
  then show ?thesis
    using parse_print_roundtrip [of "Negate (Ident ''user.band'')"
      "[Compare ''status'' CEqual (CHR 0x27 # ''a or b'' @ [CHR 0x27])]" LOr ascii_tables]
    by simp
qed

text \<open>
   On a condition of ASCII characters the parser always returns a tree or an error:
  it never slices inside a character.
\<close>

theorem parse_ascii_total:
  assumes "ascii_string s"
  shows "(\<exists>e. parse u s = Done e) \<or> (\<exists>r. parse u s = Fail r)"
  using no_panic_ascii(1) [OF assms, of u] by (cases "parse u s") auto

theorem parse_ascii_total_witness:
  "(\<exists>e. parse ascii_tables ''a && '' = Done e) \<or> (\<exists>r. parse ascii_tables ''a && '' = Fail r)"
proof -
  have "ascii_string ''a && ''" by simp
  with parse_ascii_total [OF this] show ?thesis by blast
qed

section \<open>Where the parser departs from its intent\<close>

text \<open>
  The operator position is a \<open>char\<close> index used as a byte offset: two two-byte
  characters before the operator move the cut into a character, and the slice panics.
\<close>

definition accented :: string where
  "accented = [CHR ''x'', CHR 0xC3, CHR 0xA9, CHR 0xC3, CHR 0xA9, CHR '' '', CHR ''&'', CHR ''&'', CHR '' '', CHR ''y'']"

lemma parse_panics_on_multibyte: "parse ascii_tables accented = Panic"
proof -
  have "trim accented = accented" "accented \<noteq> []" by code_simp+
  moreover have "split_sides ascii_tables accented LAnd = Panic" by code_simp
  ultimately show ?thesis
    by (simp add: parse.simps [of _ accented] parse_compound_expr.simps [of _ accented]
        split_by_logical_op.simps [of _ accented])
qed

text \<open>An identifier with an inner \<open>_and_\<close> is split into a conjunction.\<close>

lemma parse_splits_identifier:
  "parse ascii_tables ''terms_and_conditions'' =
     Done (cond_compound (cond_identifier ''terms_'') LAnd (cond_identifier ''_conditions''))"
proof -
  have "leaf_ok (Ident ''terms_'')" "leaf_ok (Ident ''_conditions'')" by code_simp+
  from this [THEN parse_leaf] have "parse ascii_tables ''terms_'' = Done (cond_identifier ''terms_'')"
    "parse ascii_tables ''_conditions'' = Done (cond_identifier ''_conditions'')" by simp_all
  moreover have "trim ''terms_and_conditions'' = ''terms_and_conditions''" by code_simp
  moreover have "split_sides ascii_tables ''terms_and_conditions'' LAnd = Done (Some (''terms_'', ''_conditions''))"
    by code_simp
  ultimately show ?thesis
    by (simp add: parse.simps [of _ "''terms_and_conditions''"] parse_compound_expr.simps [of _ "''terms_and_conditions''"]
        split_by_logical_op.simps [of _ "''terms_and_conditions''"])
qed

text \<open>A comparison operator inside a quoted operand wins over the real one.\<close>

lemma parse_operator_in_quotes:
  "parse_predicate (''name == '' @ [CHR 0x27] @ ''a >= b'' @ [CHR 0x27]) =
     Done (cond_predicate (''name == '' @ [CHR 0x27] @ ''a'') GreaterThanOrEqual (''b'' @ [CHR 0x27]))"
  by code_simp

end
