(* ===== verification/Protocol.thy ===== *)
theory Protocol
  imports Conditions
begin

text \<open>
  The fragment messages of the protocol (\<open>crates/webui-protocol/src/gen_webui.rs\<close>) and the
  constructors of \<open>crates/webui-protocol/src/lib.rs\<close> that the parser builds them with.
  Records of the source that nest (routes) are datatypes with the source's fields as
  selectors; a \<open>WebUiFragment\<close> is an optional \<open>Fragment\<close>.
\<close>

datatype web_ui_route = WebUiFragmentRoute
  (route_path: string)
  (route_fragment_id: string)
  (route_exact: bool)
  (route_children: "web_ui_route list")
  (route_allowed_query: string)
  (route_keep_alive: bool)
  (route_cache_tags: "string list")
  (route_invalidates: "string list")
  (route_pending_component: string)
  (route_error_component: string)
  (route_content_fragment_id: string)

record web_ui_boundary =
  declaration_id :: u32
  owner_fragment_id :: string
  boundary_name :: string
  boundary_key :: "string option"
  may_repeat :: bool
  boundary_phase :: int

record web_ui_for =
  for_item :: string
  for_collection :: string
  for_fragment_id :: string

record web_ui_signal =
  signal_value :: string
  signal_raw :: bool
  raw_text_context :: bool

record web_ui_if =
  if_condition :: "condition_expr option"
  if_fragment_id :: string
  if_lazy :: bool

record web_ui_attribute =
  attr_name :: string
  attr_value :: string
  attr_template :: string
  attr_complex :: bool
  attr_start :: bool
  attr_skip :: bool
  attr_raw_value :: bool
  attr_condition_tree :: "condition_expr option"

datatype fragment =
    FRaw string
  | FComponent string
  | FForLoop web_ui_for
  | FSignal web_ui_signal
  | FIfCond web_ui_if
  | FAttribute web_ui_attribute
  | FPlugin "u8 list"
  | FRoute web_ui_route
  | FOutlet
  | FBoundary web_ui_boundary

type_synonym web_ui_fragment = "fragment option"

record fragment_list =
  fragments :: "web_ui_fragment list"
  contains_boundary :: bool

text \<open>\<open>BoundaryPhase\<close>\<close>

datatype boundary_phase_value = PhaseStart | PhaseEnd

fun phase_i32 :: "boundary_phase_value \<Rightarrow> int" where
  "phase_i32 PhaseStart = 0"
| "phase_i32 PhaseEnd = 1"

definition phase_try_from :: "int \<Rightarrow> boundary_phase_value option" where
  "phase_try_from n = (if n = 0 then Some PhaseStart else if n = 1 then Some PhaseEnd else None)"

text \<open>The accessor generated for the field: an unknown value reads as the default.\<close>

definition phase :: "web_ui_boundary \<Rightarrow> boundary_phase_value" where
  "phase b = (case phase_try_from (boundary_phase b) of Some v \<Rightarrow> v | None \<Rightarrow> PhaseStart)"

section \<open>Constructors\<close>

definition frag_raw :: "string \<Rightarrow> web_ui_fragment" where
  "frag_raw value = Some (FRaw value)"

definition frag_component :: "string \<Rightarrow> web_ui_fragment" where
  "frag_component fragment_id = Some (FComponent fragment_id)"

definition frag_for_loop :: "string \<Rightarrow> string \<Rightarrow> string \<Rightarrow> web_ui_fragment" where
  "frag_for_loop item collection fragment_id =
     Some (FForLoop \<lparr>for_item = item, for_collection = collection, for_fragment_id = fragment_id\<rparr>)"

definition frag_signal :: "string \<Rightarrow> bool \<Rightarrow> web_ui_fragment" where
  "frag_signal value raw = Some (FSignal \<lparr>signal_value = value, signal_raw = raw, raw_text_context = False\<rparr>)"

definition raw_text_signal :: "string \<Rightarrow> bool \<Rightarrow> web_ui_fragment" where
  "raw_text_signal value raw = Some (FSignal \<lparr>signal_value = value, signal_raw = raw, raw_text_context = True\<rparr>)"

definition frag_if_cond :: "condition_expr \<Rightarrow> string \<Rightarrow> web_ui_fragment" where
  "frag_if_cond c fragment_id = Some (FIfCond \<lparr>if_condition = Some c, if_fragment_id = fragment_id, if_lazy = False\<rparr>)"

definition frag_lazy_if :: "condition_expr \<Rightarrow> string \<Rightarrow> web_ui_fragment" where
  "frag_lazy_if c fragment_id = Some (FIfCond \<lparr>if_condition = Some c, if_fragment_id = fragment_id, if_lazy = True\<rparr>)"

definition frag_boundary :: "u32 \<Rightarrow> string \<Rightarrow> string \<Rightarrow> string option \<Rightarrow> web_ui_fragment" where
  "frag_boundary did owner name key =
     Some (FBoundary \<lparr>declaration_id = did, owner_fragment_id = owner, boundary_name = name, boundary_key = key,
       may_repeat = False, boundary_phase = phase_i32 PhaseStart\<rparr>)"

definition frag_boundary_end :: "u32 \<Rightarrow> web_ui_fragment" where
  "frag_boundary_end did =
     Some (FBoundary \<lparr>declaration_id = did, owner_fragment_id = [], boundary_name = [], boundary_key = None,
       may_repeat = False, boundary_phase = phase_i32 PhaseEnd\<rparr>)"

definition default_attribute :: web_ui_attribute where
  "default_attribute = \<lparr>attr_name = [], attr_value = [], attr_template = [], attr_complex = False,
     attr_start = False, attr_skip = False, attr_raw_value = False, attr_condition_tree = None\<rparr>"

definition frag_attribute :: "string \<Rightarrow> string \<Rightarrow> web_ui_fragment" where
  "frag_attribute name value = Some (FAttribute (default_attribute\<lparr>attr_name := name, attr_value := value\<rparr>))"

definition attribute_template :: "string \<Rightarrow> string \<Rightarrow> web_ui_fragment" where
  "attribute_template name tmpl = Some (FAttribute (default_attribute\<lparr>attr_name := name, attr_template := tmpl\<rparr>))"

definition attribute_complex :: "string \<Rightarrow> string \<Rightarrow> web_ui_fragment" where
  "attribute_complex name value =
     Some (FAttribute (default_attribute\<lparr>attr_name := name, attr_value := value, attr_complex := True\<rparr>))"

definition attribute_boolean :: "string \<Rightarrow> condition_expr \<Rightarrow> web_ui_fragment" where
  "attribute_boolean name tree = Some (FAttribute (default_attribute\<lparr>attr_name := name, attr_condition_tree := Some tree\<rparr>))"

definition frag_plugin :: "u8 list \<Rightarrow> web_ui_fragment" where
  "frag_plugin data = Some (FPlugin data)"

definition frag_route :: "string \<Rightarrow> string \<Rightarrow> web_ui_fragment" where
  "frag_route path fragment_id = Some (FRoute (WebUiFragmentRoute path fragment_id False [] [] False [] [] [] [] []))"

definition frag_route_from :: "web_ui_route \<Rightarrow> web_ui_fragment" where
  "frag_route_from route = Some (FRoute route)"

definition frag_outlet :: web_ui_fragment where
  "frag_outlet = Some FOutlet"

section \<open>Structural signals\<close>

text \<open>
  Signals of the compiler travel in the raw-signal fragment under a prefix no authored
  expression can produce.
\<close>

definition STRUCTURAL_SIGNAL_PREFIX :: string where
  "STRUCTURAL_SIGNAL_PREFIX = ''}}}webui:''"

definition structural_signal :: "string \<Rightarrow> web_ui_fragment" where
  "structural_signal value = frag_signal (STRUCTURAL_SIGNAL_PREFIX @ value) True"

definition structural_signal_value :: "web_ui_signal \<Rightarrow> string option" where
  "structural_signal_value s =
     (if \<not> signal_raw s then None else strip_prefix STRUCTURAL_SIGNAL_PREFIX (signal_value s))"

lemma structural_signal_roundtrip:
  "structural_signal v = Some (FSignal s) \<Longrightarrow> structural_signal_value s = Some v"
  by (auto simp: structural_signal_def frag_signal_def structural_signal_value_def)

end
