(* ===== verification/Handlebars.thy ===== *)
theory Handlebars
  imports Protocol Rust_Str
begin

text \<open>
  The text parser for \<open>{{name}}\<close> and \<open>{{{name}}}\<close>,
  \<open>crates/webui-parser/src/handlebars_parser.rs\<close>.

  The loop of the source keeps a position into the text; here it recurses on the text from
  that position on, with the same raw buffer, and returns the fragments pushed from there.
\<close>

definition count_open :: "string \<Rightarrow> nat" where
  "count_open s = length (takeWhile (\<lambda>c. c = CHR ''{'') s)"

definition flush :: "string \<Rightarrow> web_ui_fragment list" where
  "flush raw_buf = (if raw_buf = [] then [] else [frag_raw raw_buf])"

text \<open>The name before the first \<open>close\<close>, if it is found and not blank, and what follows it.\<close>

definition closed_name :: "string \<Rightarrow> string \<Rightarrow> (string \<times> string) option" where
  "closed_name close s = (case find_sub close s of
     None \<Rightarrow> None
   | Some end_offset \<Rightarrow>
       if trim (take end_offset s) = [] then None
       else Some (trim (take end_offset s), drop (end_offset + length close) s))"

lemma closed_name_rest: "closed_name close s = Some (n, r) \<Longrightarrow> length r \<le> length s"
  by (auto simp: closed_name_def split: option.splits if_splits)

lemma closed_name_rest_if: "(if b then closed_name close s else None) = Some (n, r) \<Longrightarrow> length r \<le> length s"
  by (auto dest: closed_name_rest split: if_splits)

lemma count_open_at_find:
  assumes "find_sub ''{{'' s = Some offset"
  shows "2 \<le> count_open (drop offset s)"
proof -
  obtain t where "drop offset s = ''{{'' @ t" using find_sub_Some_split [OF assms] by blast
  then show ?thesis by (simp add: count_open_def)
qed

lemma count_open_le: "count_open s \<le> length s"
  by (simp add: count_open_def length_takeWhile_le)

lemma inner_shorter:
  assumes "find_sub ''{{'' s = Some offset"
  shows "length (drop (count_open (drop offset s)) (drop offset s)) < length s"
  using count_open_at_find [OF assms] count_open_le [of "drop offset s"] by simp

lemma inner_name_shorter:
  assumes "find_sub ''{{'' s = Some offset"
    "closed_name close (drop (count_open (drop offset s)) (drop offset s)) = Some (n, r)"
  shows "length r < length s"
  using inner_shorter [OF assms(1)] closed_name_rest [OF assms(2)] by linarith

function hb_parse_loop :: "string \<Rightarrow> string \<Rightarrow> web_ui_fragment list" where
  "hb_parse_loop s raw_buf =
     (if s = [] then flush raw_buf
      else case find_sub ''{{'' s of
        None \<Rightarrow> flush (raw_buf @ s)
      | Some offset \<Rightarrow>
          let raw = raw_buf @ take offset s;
              from_start = drop offset s;
              brace_count = count_open from_start;
              inner = drop brace_count from_start
          in if brace_count \<ge> 3 then
               (case closed_name ''}}}'' inner of
                  Some (var_name, rest) \<Rightarrow>
                    flush (raw @ replicate (brace_count - 3) CHR ''{'') @ [frag_signal var_name True] @ hb_parse_loop rest []
                | None \<Rightarrow>
                    (case (if brace_count \<ge> 5 then closed_name ''}}'' inner else None) of
                       Some (var_name, rest) \<Rightarrow>
                         flush (raw @ replicate (brace_count - 2) CHR ''{'') @ [frag_signal var_name False] @ hb_parse_loop rest []
                     | None \<Rightarrow>
                         (case find_sub ''}}'' inner of
                            Some end_offset \<Rightarrow>
                              hb_parse_loop (drop (end_offset + 2) inner)
                                (raw @ take (brace_count + end_offset + 2) from_start)
                          | None \<Rightarrow> hb_parse_loop [] (raw @ from_start))))
             else
               (case closed_name ''}}'' inner of
                  Some (var_name, rest) \<Rightarrow> flush raw @ [frag_signal var_name False] @ hb_parse_loop rest []
                | None \<Rightarrow> hb_parse_loop [] (raw @ from_start)))"
  by pat_completeness auto

termination
proof (relation "measure (length \<circ> fst)", goal_cases)
  case 1
  show ?case by simp
next
  case (2 s raw offset)
  then show ?case by simp
next
  case (3 s raw offset)
  then show ?case using inner_shorter [of s offset] by simp
next
  case (4 s raw offset r from_start brace_count inner p n rest)
  then have "closed_name ''}}'' (drop (count_open (drop offset s)) (drop offset s)) = Some (n, rest)"
    by (metis option.distinct(1))
  with 4(2) show ?case by (simp add: inner_name_shorter)
next
  case (5 s raw offset r from_start brace_count inner p n rest)
  then have "closed_name ''}}}'' (drop (count_open (drop offset s)) (drop offset s)) = Some (n, rest)" by metis
  with 5(2) show ?case by (simp add: inner_name_shorter)
next
  case (6 s raw offset)
  then show ?case by simp
next
  case (7 s raw offset r from_start brace_count inner p n rest)
  then have "closed_name ''}}'' (drop (count_open (drop offset s)) (drop offset s)) = Some (n, rest)" by metis
  with 7(2) show ?case by (simp add: inner_name_shorter)
qed

declare hb_parse_loop.simps [simp del]

definition hb_parse :: "string \<Rightarrow> web_ui_fragment list" where
  "hb_parse s = hb_parse_loop s []"

section \<open>What a run of the parser does\<close>

text \<open>
  The runs of a tokenizer with the three moves the source makes: move text to the raw
  buffer, or flush the buffer and emit a signal for a closed double or triple brace.
\<close>

inductive hb_run :: "string \<Rightarrow> string \<Rightarrow> web_ui_fragment list \<Rightarrow> bool" where
  hb_end: "hb_run [] raw (flush raw)"
| hb_text: "hb_run s (raw @ t) fs \<Longrightarrow> hb_run (t @ s) raw fs"
| hb_triple: "find_sub ''}}}'' (body @ ''}}}'' @ s) = Some (length body) \<Longrightarrow> trim body \<noteq> [] \<Longrightarrow> hb_run s [] fs \<Longrightarrow>
    hb_run (''{{{'' @ body @ ''}}}'' @ s) raw (flush raw @ [frag_signal (trim body) True] @ fs)"
| hb_double: "find_sub ''}}'' (body @ ''}}'' @ s) = Some (length body) \<Longrightarrow> trim body \<noteq> [] \<Longrightarrow> hb_run s [] fs \<Longrightarrow>
    hb_run (''{{'' @ body @ ''}}'' @ s) raw (flush raw @ [frag_signal (trim body) False] @ fs)"

lemma hb_all_text: "hb_run s raw (flush (raw @ s))"
  using hb_text [OF hb_end, where t = s and raw = raw] by simp

lemma closed_name_Some:
  assumes "closed_name close s = Some (n, rest)"
  obtains body where "s = body @ close @ rest" "n = trim body" "n \<noteq> []" "find_sub close (body @ close @ rest) = Some (length body)"
proof -
  obtain k where k: "find_sub close s = Some k" "n = trim (take k s)" "n \<noteq> []" "rest = drop (k + length close) s"
    using assms by (auto simp: closed_name_def split: option.splits if_splits)
  have s: "s = take k s @ close @ rest" using find_sub_split [OF k(1)] k(4) by simp
  have "k \<le> length s" using find_sub_bound [OF k(1)] by simp
  then have "length (take k s) = k" by simp
  with s k show ?thesis by (intro that [of "take k s"]) auto
qed

lemma count_open_split: "s = replicate (count_open s) CHR ''{'' @ drop (count_open s) s"
proof -
  have "takeWhile (\<lambda>c. c = CHR ''{'') s = replicate (count_open s) CHR ''{''"
    by (induction s) (auto simp: count_open_def)
  moreover have "drop (count_open s) s = dropWhile (\<lambda>c. c = CHR ''{'') s"
    by (simp add: count_open_def dropWhile_eq_drop)
  ultimately show ?thesis using takeWhile_dropWhile_id [of "\<lambda>c. c = CHR ''{''" s] by metis
qed

text \<open>The shape of the text at the first open_braces brace pair.\<close>

lemma first_open:
  assumes "find_sub ''{{'' s = Some offset"
  obtains k inner where "2 \<le> k" "s = take offset s @ replicate k CHR ''{'' @ inner"
    "k = count_open (drop offset s)" "inner = drop k (drop offset s)"
proof (rule that)
  show "2 \<le> count_open (drop offset s)" by (rule count_open_at_find [OF assms])
  show "s = take offset s @ replicate (count_open (drop offset s)) CHR ''{'' @ drop (count_open (drop offset s)) (drop offset s)"
    using count_open_split [of "drop offset s"] by (metis append_take_drop_id)
qed auto

lemma hb_name_step:
  assumes "closed_name close inner = Some (n, rest)" "hb_run rest [] fs" "m \<le> k"
    and "(close, m, b) = (''}}}'', 3, True) \<or> (close, m, b) = (''}}'', 2, False)"
  shows "hb_run (pre @ replicate k CHR ''{'' @ inner) raw
    (flush (raw @ pre @ replicate (k - m) CHR ''{'') @ [frag_signal n b] @ fs)"
proof -
  obtain body where b: "inner = body @ close @ rest" "n = trim body" "n \<noteq> []"
    "find_sub close (body @ close @ rest) = Some (length body)"
    using assms(1) by (rule closed_name_Some)
  have run: "hb_run (replicate m CHR ''{'' @ inner) raw' (flush raw' @ [frag_signal n b] @ fs)" for raw'
    using assms(4)
  proof
    assume "(close, m, b) = (''}}}'', 3, True)"
    then show ?thesis using hb_triple [of body rest fs raw'] b assms(2) by (simp add: numeral_3_eq_3)
  next
    assume "(close, m, b) = (''}}'', 2, False)"
    then show ?thesis using hb_double [of body rest fs raw'] b assms(2) by (simp add: numeral_2_eq_2)
  qed
  have "replicate k CHR ''{'' = replicate (k - m) CHR ''{'' @ replicate m CHR ''{''"
    using assms(3) by (metis le_add_diff_inverse2 replicate_add)
  then show ?thesis
    using hb_text [OF run, where raw = raw and t = "pre @ replicate (k - m) CHR ''{''"] by simp
qed

text \<open>The loop body at an open_braces brace run, in terms of that shape.\<close>

lemma hb_parse_loop_open:
  assumes "find_sub ''{{'' s = Some offset" "k = count_open (drop offset s)" "inner = drop k (drop offset s)"
  shows "hb_parse_loop s raw =
    (case (if 3 \<le> k then closed_name ''}}}'' inner else None) of
       Some (n, rest) \<Rightarrow> flush (raw @ take offset s @ replicate (k - 3) CHR ''{'') @ [frag_signal n True] @ hb_parse_loop rest []
     | None \<Rightarrow>
       (case (if k = 2 \<or> 5 \<le> k then closed_name ''}}'' inner else None) of
          Some (n, rest) \<Rightarrow> flush (raw @ take offset s @ replicate (k - 2) CHR ''{'') @ [frag_signal n False] @ hb_parse_loop rest []
        | None \<Rightarrow>
          (case (if 3 \<le> k then find_sub ''}}'' inner else None) of
             Some e \<Rightarrow> hb_parse_loop (drop (e + 2) inner) (raw @ take offset s @ take (k + e + 2) (drop offset s))
           | None \<Rightarrow> flush (raw @ s))))"
proof -
  have "s \<noteq> []" "2 \<le> k" using assms count_open_at_find [OF assms(1)] by auto
  moreover have "hb_parse_loop [] r = flush r" for r by (simp add: hb_parse_loop.simps)
  ultimately show ?thesis
    using assms by (simp add: hb_parse_loop.simps [of s raw] Let_def split: option.split)
qed

lemma hb_parse_loop_run: "hb_run s raw (hb_parse_loop s raw)"
proof (induction "length s" arbitrary: s raw rule: less_induct)
  case less
  show ?case
  proof (cases "find_sub ''{{'' s")
    case None
    then show ?thesis using hb_all_text [of s raw] hb_end [of raw] by (simp add: hb_parse_loop.simps [of s])
  next
    case (Some offset)
    then obtain k inner where k: "2 \<le> k" "s = take offset s @ replicate k CHR ''{'' @ inner"
      and kd: "k = count_open (drop offset s)" "inner = drop k (drop offset s)"
      by (rule first_open)
    note open_eq = hb_parse_loop_open [OF Some kd, of raw]
    have sub: "hb_run rest raw' (hb_parse_loop rest raw')" if "length rest \<le> length inner" for rest raw'
      using that less inner_shorter [OF Some] kd by simp
    let ?t = "if 3 \<le> k then closed_name ''}}}'' inner else None"
      and ?d = "if k = 2 \<or> 5 \<le> k then closed_name ''}}'' inner else None"
      and ?f = "if 3 \<le> k then find_sub ''}}'' inner else None"
    consider (triple) n rest where "?t = Some (n, rest)"
      | (double) n rest where "?t = None" "?d = Some (n, rest)"
      | (failed) e where "?t = None" "?d = None" "?f = Some e"
      | (unclosed) "?t = None" "?d = None" "?f = None"
      by (metis option.exhaust surj_pair)
    then show ?thesis
    proof cases
      case triple
      then have "closed_name ''}}}'' inner = Some (n, rest)" "3 \<le> k" by (auto split: if_splits)
      then have "hb_run s raw (flush (raw @ take offset s @ replicate (k - 3) CHR ''{'') @ [frag_signal n True] @ hb_parse_loop rest [])"
        using hb_name_step [of "''}}}''" inner n rest _ 3 k True "take offset s" raw] sub [of rest "[]"] closed_name_rest k(2)
        by metis
      then show ?thesis using triple by (simp add: open_eq)
    next
      case double
      then have "closed_name ''}}'' inner = Some (n, rest)" by (auto split: if_splits)
      then have "hb_run s raw (flush (raw @ take offset s @ replicate (k - 2) CHR ''{'') @ [frag_signal n False] @ hb_parse_loop rest [])"
        using hb_name_step [of "''}}''" inner n rest _ 2 k False "take offset s" raw] sub [of rest "[]"] closed_name_rest k
        by metis
      then show ?thesis using double by (simp add: open_eq)
    next
      case failed
      have "drop offset s = replicate k CHR ''{'' @ inner" using count_open_split [of "drop offset s"] kd by simp
      then have "take (k + e + 2) (drop offset s) = replicate k CHR ''{'' @ take (e + 2) inner" by simp
      then have s_eq: "s = (take offset s @ take (k + e + 2) (drop offset s)) @ drop (e + 2) inner"
        using k(2) by (metis append_assoc append_take_drop_id)
      have "hb_run ((take offset s @ take (k + e + 2) (drop offset s)) @ drop (e + 2) inner) raw
          (hb_parse_loop (drop (e + 2) inner) (raw @ take offset s @ take (k + e + 2) (drop offset s)))"
        by (rule hb_text) (simp add: sub)
      with failed s_eq show ?thesis by (simp only: open_eq option.case)
    next
      case unclosed
      then show ?thesis using hb_all_text [of s raw] by (simp add: open_eq)
    qed
  qed
qed

section \<open>What the fragments say of the text\<close>

text \<open>
  The texts a fragment list spells: raw fragments stand for themselves, signals for their
  delimiters around a body that trims to the signal's name.
\<close>

definition open_braces :: "bool \<Rightarrow> string" where
  "open_braces raw = (if raw then ''{{{'' else ''{{'')"

definition close_braces :: "bool \<Rightarrow> string" where
  "close_braces raw = (if raw then ''}}}'' else ''}}'')"

inductive spelled :: "web_ui_fragment list \<Rightarrow> string \<Rightarrow> bool" where
  "spelled [] []"
| "spelled fs s \<Longrightarrow> spelled (frag_raw v # fs) (v @ s)"
| "spelled fs s \<Longrightarrow> find_sub (close_braces b) body = None \<Longrightarrow>
     spelled (frag_signal (trim body) b # fs) (open_braces b @ body @ close_braces b @ s)"

lemma spelled_flush: "spelled fs s \<Longrightarrow> spelled (flush raw @ fs) (raw @ s)"
  by (auto simp: flush_def intro: spelled.intros)

lemma find_sub_first_None:
  assumes "find_sub pat (body @ pat @ s) = Some (length body)" "pat \<noteq> []"
  shows "find_sub pat body = None"
proof (rule ccontr)
  assume "find_sub pat body \<noteq> None"
  then obtain n where n: "find_sub pat body = Some n" by auto
  then have "n < length body" using find_sub_bound [OF n] assms(2) by (cases pat) auto
  moreover obtain t where "drop n body = pat @ t" using find_sub_Some_split [OF n] by blast
  ultimately show False
    using find_sub_Some_first [OF assms(1), of n] by (simp add: starts_with_iff)
qed

lemma hb_run_spelled: "hb_run s raw fs \<Longrightarrow> spelled fs (raw @ s)"
proof (induction rule: hb_run.induct)
  case (hb_end raw)
  then show ?case using spelled_flush [OF spelled.intros(1), of raw] by simp
next
  case (hb_triple body s fs raw)
  then have "spelled (frag_signal (trim body) True # fs) (''{{{'' @ body @ ''}}}'' @ s)"
    using spelled.intros(3) [of fs s True body] find_sub_first_None [of "''}}}''" body s]
    by (simp add: open_braces_def close_braces_def)
  then show ?case using spelled_flush by fastforce
next
  case (hb_double body s fs raw)
  then have "spelled (frag_signal (trim body) False # fs) (''{{'' @ body @ ''}}'' @ s)"
    using spelled.intros(3) [of fs s False body] find_sub_first_None [of "''}}''" body s]
    by (simp add: open_braces_def close_braces_def)
  then show ?case using spelled_flush by fastforce
qed simp

text \<open>Authored signals: a trimmed, non-empty name without the close_braces braces of its form.\<close>

definition authored :: "web_ui_fragment \<Rightarrow> bool" where
  "authored f = (case f of
     Some (FRaw v) \<Rightarrow> v \<noteq> []
   | Some (FSignal g) \<Rightarrow> signal_value g \<noteq> [] \<and> trim (signal_value g) = signal_value g \<and>
       \<not> raw_text_context g \<and> find_sub (close_braces (signal_raw g)) (signal_value g) = None
   | _ \<Rightarrow> False)"

lemma find_sub_infix_None:
  assumes "find_sub pat s = None" "s = a @ t @ b"
  shows "find_sub pat t = None"
proof (rule ccontr)
  assume "find_sub pat t \<noteq> None"
  then obtain n r where n: "drop n t = pat @ r" "n \<le> length t" using find_sub_Some_split by fastforce
  then have "drop (length a + n) s = pat @ r @ b" using assms(2) by simp
  moreover have "length a + n \<le> length s" using n assms(2) by simp
  ultimately show False using assms(1) by (auto simp: find_sub_None_iff starts_with_iff)
qed

lemma authored_signal:
  assumes "find_sub (close_braces b) body = None" "trim body \<noteq> []"
  shows "authored (frag_signal (trim body) b)"
proof -
  obtain x y where "body = x @ trim body @ y" using trim_sublist by blast
  then have "find_sub (close_braces b) (trim body) = None" using find_sub_infix_None [OF assms(1)] by blast
  with assms show ?thesis by (simp add: authored_def frag_signal_def)
qed

lemma authored_raw: "authored (frag_raw v) \<longleftrightarrow> v \<noteq> []"
  by (simp add: authored_def frag_raw_def)

lemma hb_run_authored: "hb_run s raw fs \<Longrightarrow> list_all authored fs"
proof (induction rule: hb_run.induct)
  case (hb_triple body s fs raw)
  then show ?case
    using authored_signal [of True body] find_sub_first_None [of "''}}}''" body s]
    by (auto simp: flush_def authored_raw close_braces_def)
next
  case (hb_double body s fs raw)
  then show ?case
    using authored_signal [of False body] find_sub_first_None [of "''}}''" body s]
    by (auto simp: flush_def authored_raw close_braces_def)
qed (auto simp: flush_def authored_def frag_raw_def)

definition is_raw :: "web_ui_fragment \<Rightarrow> bool" where
  "is_raw f = (case f of Some (FRaw _) \<Rightarrow> True | _ \<Rightarrow> False)"

lemma hb_run_no_adjacent: "hb_run s raw fs \<Longrightarrow> successively (\<lambda>f g. \<not> (is_raw f \<and> is_raw g)) fs"
  by (induction rule: hb_run.induct)
    (auto simp: flush_def is_raw_def frag_raw_def frag_signal_def successively_append_iff successively_Cons)

lemma authored_not_structural:
  assumes "authored (Some (FSignal g))"
  shows "structural_signal_value g = None"
proof (rule ccontr)
  assume "structural_signal_value g \<noteq> None"
  then obtain v where g: "signal_raw g" "signal_value g = ''}}}webui:'' @ v"
    by (auto simp: structural_signal_value_def STRUCTURAL_SIGNAL_PREFIX_def strip_prefix_Some_iff split: if_splits)
  then have "find_sub ''}}}'' (signal_value g) = Some 0" by (simp add: starts_with_def)
  with assms g show False by (simp add: authored_def close_braces_def)
qed

section \<open>Printing and parsing\<close>

fun hb_print :: "web_ui_fragment list \<Rightarrow> string" where
  "hb_print [] = []"
| "hb_print (Some (FRaw v) # fs) = v @ hb_print fs"
| "hb_print (Some (FSignal g) # fs) = open_braces (signal_raw g) @ signal_value g @ close_braces (signal_raw g) @ hb_print fs"
| "hb_print (f # fs) = hb_print fs"

definition printable :: "web_ui_fragment \<Rightarrow> bool" where
  "printable f = (case f of
     Some (FRaw v) \<Rightarrow> v \<noteq> [] \<and> CHR ''{'' \<notin> set v
   | Some (FSignal g) \<Rightarrow> signal_value g \<noteq> [] \<and> trim (signal_value g) = signal_value g \<and>
       \<not> raw_text_context g \<and> CHR ''{'' \<notin> set (signal_value g) \<and> CHR ''}'' \<notin> set (signal_value g)
   | _ \<Rightarrow> False)"

lemma find_closing:
  "CHR ''}'' \<notin> set n \<Longrightarrow> find_sub (close_braces b) (n @ close_braces b @ rest) = Some (length n)"
  using find_sub_skip [of n "close_braces b" "close_braces b @ rest"]
  by (auto simp: close_braces_def starts_with_iff)

lemma loop_signal:
  assumes v: "CHR ''{'' \<notin> set v" and n: "n \<noteq> []" "trim n = n" "CHR ''{'' \<notin> set n" "CHR ''}'' \<notin> set n"
  shows "hb_parse_loop (v @ open_braces b @ n @ close_braces b @ rest) raw =
    flush (raw @ v) @ [frag_signal n b] @ hb_parse_loop rest []"
proof -
  let ?s = "v @ open_braces b @ n @ close_braces b @ rest" and ?k = "if b then 3 else 2 :: nat"
  have off: "find_sub ''{{'' ?s = Some (length v)"
    using v by (simp add: find_sub_skip open_braces_def starts_with_def)
  have k: "?k = count_open (drop (length v) ?s)"
    using n by (cases n) (auto simp: open_braces_def count_open_def)
  have inner: "n @ close_braces b @ rest = drop ?k (drop (length v) ?s)"
    by (simp add: open_braces_def)
  have cl: "closed_name (close_braces b) (n @ close_braces b @ rest) = Some (n, rest)"
    using n find_closing [of n b rest] by (simp add: closed_name_def)
  show ?thesis
    using cl hb_parse_loop_open [OF off k inner, of raw] by (cases b) (simp_all add: close_braces_def)
qed

lemma printable_cases:
  assumes "printable f"
  obtains v where "f = frag_raw v" "v \<noteq> []" "CHR ''{'' \<notin> set v"
  | n b where "f = frag_signal n b" "n \<noteq> []" "trim n = n" "CHR ''{'' \<notin> set n" "CHR ''}'' \<notin> set n"
proof (cases f)
  case (Some x)
  with assms show ?thesis
  proof (cases x)
    case (FSignal g)
    with Some assms that(2) [of "signal_value g" "signal_raw g"] show ?thesis
      by (simp add: printable_def frag_signal_def)
  qed (auto simp: printable_def frag_raw_def intro: that(1))
qed (use assms in \<open>simp add: printable_def\<close>)

lemma hb_print_frags [simp]:
  "hb_print (frag_raw v # fs) = v @ hb_print fs"
  "hb_print (frag_signal n b # fs) = open_braces b @ n @ close_braces b @ hb_print fs"
  by (simp_all add: frag_raw_def frag_signal_def)

lemma is_raw_frags [simp]: "is_raw (frag_raw v)" "\<not> is_raw (frag_signal n b)"
  by (simp_all add: is_raw_def frag_raw_def frag_signal_def)

lemma loop_raw: "CHR ''{'' \<notin> set v \<Longrightarrow> hb_parse_loop v raw = flush (raw @ v)"
  by (simp add: hb_parse_loop.simps [of v] find_sub_disjoint)

lemma loop_print:
  "list_all printable fs \<Longrightarrow> successively (\<lambda>f g. \<not> (is_raw f \<and> is_raw g)) fs \<Longrightarrow> hb_parse_loop (hb_print fs) [] = fs"
proof (induction fs rule: induct_list012)
  case 1
  then show ?case by (simp add: loop_raw flush_def)
next
  case (2 f)
  then have "printable f" by simp
  then show ?case
    using loop_signal [of "[]" _ _ "[]" "[]"] loop_raw
    by (cases rule: printable_cases) (auto simp: flush_def)
next
  case (3 f g fs)
  then have f: "printable f" and g: "printable g" and IH: "hb_parse_loop (hb_print fs) [] = fs"
    "hb_parse_loop (hb_print (g # fs)) [] = g # fs"
    by (auto simp: successively_Cons)
  from f show ?case
  proof (cases rule: printable_cases)
    case (1 v)
    with "3.prems" have "\<not> is_raw g" by simp
    with g 1 IH show ?thesis
      using loop_signal [of v] by (cases rule: printable_cases) (auto simp: flush_def)
  next
    case (2 n b)
    with IH loop_signal [of "[]" n b "hb_print (g # fs)" "[]"] show ?thesis by (simp add: flush_def)
  qed
qed

section \<open>Properties\<close>

text \<open>
  C32.  The parser loses nothing: the text is spelled by the fragments, each raw fragment
  verbatim and each signal as its braces around a body that trims to its name.
\<close>

theorem hb_parse_lossless: "spelled (hb_parse s) s"
  using hb_run_spelled [OF hb_parse_loop_run, of s "[]"] by (simp add: hb_parse_def)

text \<open>
   No authored text produces a compiler-owned structural signal: every signal of the
  parser is outside the structural namespace, with a non-empty trimmed name.
\<close>

theorem hb_parse_no_structural:
  assumes "Some (FSignal g) \<in> set (hb_parse s)"
  shows "structural_signal_value g = None \<and> signal_value g \<noteq> [] \<and> trim (signal_value g) = signal_value g"
proof -
  have a: "authored (Some (FSignal g))"
    using assms hb_run_authored [OF hb_parse_loop_run, of s "[]"] by (simp add: hb_parse_def list_all_iff)
  with authored_not_structural [OF a] show ?thesis by (simp add: authored_def)
qed

theorem hb_parse_no_structural_witness:
  "Some (FSignal \<lparr>signal_value = ''}}webui:x'', signal_raw = True, raw_text_context = False\<rparr>)
     \<in> set (hb_parse ''{{{}}webui:x}}}'') \<and>
   structural_signal_value \<lparr>signal_value = ''}}webui:x'', signal_raw = True, raw_text_context = False\<rparr> = None"
proof -
  have "hb_parse ''{{{}}webui:x}}}'' = [Some (FSignal \<lparr>signal_value = ''}}webui:x'', signal_raw = True, raw_text_context = False\<rparr>)]"
    by code_simp
  then have m: "Some (FSignal \<lparr>signal_value = ''}}webui:x'', signal_raw = True, raw_text_context = False\<rparr>)
      \<in> set (hb_parse ''{{{}}webui:x}}}'')" by simp
  show ?thesis using m hb_parse_no_structural [OF m] by blast
qed

text \<open>
   Fragment lists in normal form (no empty and no adjacent raw fragments, no opening
  brace in raw text, brace-free trimmed names) print to a text that parses back to them, and
  the parser only produces lists without empty or adjacent raw fragments.
\<close>

theorem hb_parse_print_roundtrip:
  assumes "list_all printable fs" "successively (\<lambda>f g. \<not> (is_raw f \<and> is_raw g)) fs"
  shows "hb_parse (hb_print fs) = fs \<and>
    (\<forall>s. successively (\<lambda>f g. \<not> (is_raw f \<and> is_raw g)) (hb_parse s) \<and> frag_raw [] \<notin> set (hb_parse s))"
proof -
  have "list_all authored (hb_parse s)" "successively (\<lambda>f g. \<not> (is_raw f \<and> is_raw g)) (hb_parse s)" for s
    using hb_run_authored [OF hb_parse_loop_run, of s "[]"] hb_run_no_adjacent [OF hb_parse_loop_run, of s "[]"]
    by (simp_all add: hb_parse_def)
  moreover from this(1) have "frag_raw [] \<notin> set (hb_parse s)" for s
    using authored_raw [of "[]"] by (auto simp: list_all_iff)
  ultimately show ?thesis using assms loop_print [of fs] by (simp add: hb_parse_def)
qed

theorem hb_parse_print_roundtrip_witness:
  "hb_parse ''Hi {{user.name}}!{{{html}}}'' =
     [frag_raw ''Hi '', frag_signal ''user.name'' False, frag_raw ''!'', frag_signal ''html'' True]"
proof -
  let ?fs = "[frag_raw ''Hi '', frag_signal ''user.name'' False, frag_raw ''!'', frag_signal ''html'' True]"
  have "list_all printable ?fs" by code_simp
  moreover have "successively (\<lambda>f g. \<not> (is_raw f \<and> is_raw g)) ?fs" by simp
  ultimately have "hb_parse (hb_print ?fs) = ?fs" using hb_parse_print_roundtrip [of ?fs] by blast
  then show ?thesis by (simp add: open_braces_def close_braces_def)
qed

end
