(* ===== verification/Html_Encode.thy ===== *)
theory Html_Encode
  imports Prelude Rust_Str
begin

text \<open>
  HTML entity encoding and \<open><style>\<close> text escaping,
  \<open>crates/webui-handler/src/html_encode.rs\<close>.

  The loops over byte indices are recursions over the remaining bytes that carry the index
  and the start of the pending unescaped run, as in the source.  \<open>escape\<close> and
  \<open>style_escape\<close> are the specifications they are proved equal to.
\<close>

text \<open>\<open>&s[a..b]\<close>\<close>

definition substr :: "nat \<Rightarrow> nat \<Rightarrow> string \<Rightarrow> string" where
  "substr a b s = take (b - a) (drop a s)"

definition position :: "('a \<Rightarrow> bool) \<Rightarrow> 'a list \<Rightarrow> nat option" where
  "position P xs = (let n = length (takeWhile (\<lambda>x. \<not> P x) xs) in if n < length xs then Some n else None)"

section \<open>Entities\<close>

definition needs_escape :: "char \<Rightarrow> bool" where
  "needs_escape b \<longleftrightarrow> b \<in> {CHR ''&'', CHR ''<'', CHR ''>'', CHR 0x22, CHR 0x27, CHR ''/''}"

definition escaped_replacement :: "char \<Rightarrow> string option" where
  "escaped_replacement b =
     (if b = CHR ''&'' then Some ''&amp;''
      else if b = CHR ''<'' then Some ''&lt;''
      else if b = CHR ''>'' then Some ''&gt;''
      else if b = CHR 0x22 then Some ''&quot;''
      else if b = CHR 0x27 then Some ''&#x27;''
      else if b = CHR ''/'' then Some ''&#x2F;''
      else None)"

definition escaped_extra_len :: "char \<Rightarrow> nat" where
  "escaped_extra_len b =
     (if b = CHR ''&'' then 4
      else if b = CHR ''<'' \<or> b = CHR ''>'' then 3
      else if b = CHR 0x22 \<or> b = CHR 0x27 \<or> b = CHR ''/'' then 5
      else 0)"

fun encode_loop :: "string \<Rightarrow> nat \<Rightarrow> nat \<Rightarrow> string \<Rightarrow> string \<Rightarrow> string" where
  "encode_loop input i start out [] = out @ drop start input"
| "encode_loop input i start out (b # bs) =
     (case escaped_replacement b of
        None \<Rightarrow> encode_loop input (Suc i) start out bs
      | Some replacement \<Rightarrow>
          encode_loop input (Suc i) (Suc i) (out @ substr start i input @ replacement) bs)"

text \<open>The capacity the output is allocated with, once \<open>pos\<close> is found.\<close>

definition encode_capacity :: "string \<Rightarrow> nat \<Rightarrow> nat" where
  "encode_capacity input pos = length input + sum_list (map escaped_extra_len (drop pos input))"

definition encode_safe :: "string \<Rightarrow> string cow" where
  "encode_safe input = (case position needs_escape input of
     None \<Rightarrow> Borrowed input
   | Some pos \<Rightarrow> Owned (encode_loop input pos pos (take pos input) (drop pos input)))"

fun chunks_loop :: "string \<Rightarrow> nat \<Rightarrow> nat \<Rightarrow> string \<Rightarrow> string list" where
  "chunks_loop input index start [] = (if start < length input then [drop start input] else [])"
| "chunks_loop input index start (b # bs) =
     (case escaped_replacement b of
        None \<Rightarrow> chunks_loop input (Suc index) start bs
      | Some replacement \<Rightarrow>
          (if start < index then [substr start index input] else []) @ [replacement]
            @ chunks_loop input (Suc index) (Suc index) bs)"

text \<open>The chunks handed to \<open>append\<close>, in order.\<close>

definition escaped_chunks :: "string \<Rightarrow> string list" where
  "escaped_chunks input = (case position needs_escape input of
     None \<Rightarrow> [input]
   | Some first \<Rightarrow>
       (if first > 0 then [take first input] else []) @ chunks_loop input first first (drop first input))"

definition append_escaped_to_string :: "string \<Rightarrow> string \<Rightarrow> string" where
  "append_escaped_to_string output input = foldl (@) output (escaped_chunks input)"

definition append_escaped_to_bytes :: "nat list \<Rightarrow> string \<Rightarrow> nat list" where
  "append_escaped_to_bytes output input = foldl (\<lambda>out chunk. out @ bytes_of chunk) output (escaped_chunks input)"

section \<open>The specification\<close>

definition escape_char :: "char \<Rightarrow> string" where
  "escape_char c = (case escaped_replacement c of None \<Rightarrow> [c] | Some r \<Rightarrow> r)"

definition escape :: "string \<Rightarrow> string" where
  "escape s = concat (map escape_char s)"

lemma escape_simps [simp]:
  "escape [] = []" "escape (c # s) = escape_char c @ escape s" "escape (s @ t) = escape s @ escape t"
  by (simp_all add: escape_def)

lemma escaped_replacement_None_iff: "escaped_replacement c = None \<longleftrightarrow> \<not> needs_escape c"
  by (simp add: escaped_replacement_def needs_escape_def)

lemma no_replacement [simp]: "\<not> needs_escape c \<Longrightarrow> escaped_replacement c = None"
  by (simp add: escaped_replacement_None_iff)

lemma escape_id: "list_all (\<lambda>c. \<not> needs_escape c) s \<Longrightarrow> escape s = s"
  by (induction s) (auto simp: escape_char_def)

lemma position_None_iff: "position P xs = None \<longleftrightarrow> list_all (\<lambda>x. \<not> P x) xs"
proof -
  have "length (takeWhile (\<lambda>x. \<not> P x) xs) < length xs \<longleftrightarrow> \<not> list_all (\<lambda>x. \<not> P x) xs"
    by (induction xs) auto
  then show ?thesis by (simp add: position_def Let_def)
qed

lemma position_Some_prefix: "position P xs = Some n \<Longrightarrow> list_all (\<lambda>x. \<not> P x) (take n xs) \<and> n < length xs"
proof -
  assume "position P xs = Some n"
  then have n: "n = length (takeWhile (\<lambda>x. \<not> P x) xs)" "n < length xs"
    by (auto simp: position_def Let_def split: if_splits)
  then have "take n xs = takeWhile (\<lambda>x. \<not> P x) xs" by (metis takeWhile_eq_take)
  then show ?thesis using n(2) by (auto simp: list_all_iff dest: set_takeWhileD)
qed

lemma substr_Suc: "start \<le> i \<Longrightarrow> i < length s \<Longrightarrow> substr start (Suc i) s = substr start i s @ [s ! i]"
  by (simp add: substr_def Suc_diff_le take_Suc_conv_app_nth)

lemma substr_id [simp]: "substr i i s = []"
  by (simp add: substr_def)

lemma drop_substr: "start \<le> i \<Longrightarrow> drop start s = substr start i s @ drop i s"
  by (simp add: substr_def) (metis append_take_drop_id drop_drop le_add_diff_inverse2)

text \<open>
  Both loops: the run pending from \<open>start\<close> holds nothing to escape.
\<close>

lemma pending_run_step:
  assumes "start \<le> i" "drop i input = b # bs" "list_all (\<lambda>c. \<not> needs_escape c) (substr start i input)"
    and "\<not> needs_escape b"
  shows "list_all (\<lambda>c. \<not> needs_escape c) (substr start (Suc i) input)" "drop (Suc i) input = bs"
proof -
  have i: "i < length input" "input ! i = b"
    using assms(2) by (metis drop_all list.distinct(1) not_le) (metis assms(2) hd_drop_conv_nth drop_all list.distinct(1) list.sel(1) not_le)
  then show "list_all (\<lambda>c. \<not> needs_escape c) (substr start (Suc i) input)"
    using assms substr_Suc [of start i input] by simp
  show "drop (Suc i) input = bs" using assms(2) by (metis drop_Suc list.sel(3) tl_drop)
qed

lemma encode_loop_spec:
  assumes "start \<le> i" "drop i input = bs" "list_all (\<lambda>c. \<not> needs_escape c) (substr start i input)"
  shows "encode_loop input i start out bs = out @ escape (drop start input)"
  using assms
proof (induction bs arbitrary: i start out)
  case Nil
  then show ?case using drop_substr [of start i input] by (simp add: escape_id)
next
  case (Cons b bs)
  then have tail: "drop (Suc i) input = bs" by (metis drop_Suc list.sel(3) tl_drop)
  show ?case
  proof (cases "escaped_replacement b")
    case None
    then have "\<not> needs_escape b" by (simp add: escaped_replacement_None_iff)
    with None Cons pending_run_step [of start i input b bs] show ?thesis by simp
  next
    case (Some r)
    then have "escape (drop start input) = substr start i input @ r @ escape bs"
      using drop_substr [of start i input] Cons.prems by (simp add: escape_id escape_char_def)
    with Some Cons tail show ?thesis by simp
  qed
qed

lemma chunks_loop_spec:
  assumes "start \<le> i" "drop i input = bs" "list_all (\<lambda>c. \<not> needs_escape c) (substr start i input)"
  shows "concat (chunks_loop input i start bs) = escape (drop start input) \<and> [] \<notin> set (chunks_loop input i start bs)"
  using assms
proof (induction bs arbitrary: i start)
  case Nil
  then show ?case using drop_substr [of start i input] by (auto simp: escape_id)
next
  case (Cons b bs)
  then have tail: "drop (Suc i) input = bs" by (metis drop_Suc list.sel(3) tl_drop)
  show ?case
  proof (cases "escaped_replacement b")
    case None
    then have "\<not> needs_escape b" by (simp add: escaped_replacement_None_iff)
    with None Cons pending_run_step [of start i input b bs] show ?thesis by simp
  next
    case (Some r)
    then have e: "escape (drop start input) = substr start i input @ r @ escape bs"
      using drop_substr [of start i input] Cons.prems by (simp add: escape_id escape_char_def)
    have "r \<noteq> []" using Some by (auto simp: escaped_replacement_def split: if_splits)
    moreover have "start < i \<Longrightarrow> substr start i input \<noteq> []"
      using Cons.prems by (auto simp: substr_def) 
    moreover have "\<not> start < i \<Longrightarrow> substr start i input = []" using Cons.prems(1) by simp
    ultimately show ?thesis using Some Cons tail e by auto
  qed
qed

lemma encode_safe_value: "cow_value (encode_safe s) = escape s"
proof (cases "position needs_escape s")
  case None
  then have "list_all (\<lambda>c. \<not> needs_escape c) s" by (simp add: position_None_iff)
  with None show ?thesis by (simp add: encode_safe_def escape_id)
next
  case (Some pos)
  then have "escape (take pos s) = take pos s" using position_Some_prefix [OF Some] by (simp add: escape_id)
  moreover have "escape s = escape (take pos s) @ escape (drop pos s)" by (metis append_take_drop_id escape_simps(3))
  ultimately show ?thesis
    using Some encode_loop_spec [of pos pos s "drop pos s" "take pos s"] by (simp add: encode_safe_def)
qed

lemma escaped_chunks_concat: "concat (escaped_chunks s) = escape s"
proof (cases "position needs_escape s")
  case None
  then have "list_all (\<lambda>c. \<not> needs_escape c) s" by (simp add: position_None_iff)
  with None show ?thesis by (simp add: escaped_chunks_def escape_id)
next
  case (Some pos)
  then have "escape (take pos s) = take pos s" using position_Some_prefix [OF Some] by (simp add: escape_id)
  moreover have "escape s = escape (take pos s) @ escape (drop pos s)" by (metis append_take_drop_id escape_simps(3))
  ultimately show ?thesis
    using Some chunks_loop_spec [of pos pos s "drop pos s"] by (auto simp: escaped_chunks_def)
qed

lemma append_escaped_spec:
  "append_escaped_to_string out s = out @ escape s"
  "append_escaped_to_bytes out' s = out' @ bytes_of (escape s)"
proof -
  have a: "foldl (@) out cs = out @ concat cs" for cs by (induction cs arbitrary: out) auto
  have b: "foldl (\<lambda>out chunk. out @ bytes_of chunk) out' cs = out' @ bytes_of (concat cs)" for cs
    by (induction cs arbitrary: out') auto
  show "append_escaped_to_string out s = out @ escape s" "append_escaped_to_bytes out' s = out' @ bytes_of (escape s)"
    by (simp_all add: append_escaped_to_string_def append_escaped_to_bytes_def a b escaped_chunks_concat)
qed

lemma length_escape_char: "length (escape_char c) = 1 + escaped_extra_len c"
  by (simp add: escape_char_def escaped_replacement_def escaped_extra_len_def)

lemma length_escape: "length (escape s) = length s + sum_list (map escaped_extra_len s)"
  by (induction s) (simp_all add: length_escape_char)

lemma set_escape_char: "c' \<in> set (escape_char c) \<Longrightarrow> c' \<notin> {CHR ''<'', CHR ''>'', CHR 0x22, CHR 0x27, CHR ''/''}"
  by (auto simp: escape_char_def escaped_replacement_def split: if_splits)

text \<open>A decoder for the six entities: the longest match at each ampersand.\<close>

definition entities :: "(string \<times> char) list" where
  "entities = [(''&amp;'', CHR ''&''), (''&lt;'', CHR ''<''), (''&gt;'', CHR ''>''), (''&quot;'', CHR 0x22),
     (''&#x27;'', CHR 0x27), (''&#x2F;'', CHR ''/'')]"

fun entity_at :: "(string \<times> char) list \<Rightarrow> string \<Rightarrow> (char \<times> nat) option" where
  "entity_at [] s = None"
| "entity_at ((e, c) # es) s = (if starts_with s e then Some (c, length e) else entity_at es s)"

function unescape :: "string \<Rightarrow> string" where
  "unescape s = (case s of
     [] \<Rightarrow> []
   | x # xs \<Rightarrow> (case entity_at entities s of
        Some (c, n) \<Rightarrow> c # unescape (drop (n - 1) xs)
      | None \<Rightarrow> x # unescape xs))"
  by pat_completeness auto
termination
  by (relation "measure length") auto

declare unescape.simps [simp del]

lemma unescape_escape_char: "unescape (escape_char c @ s) = c # unescape s"
proof (cases "needs_escape c")
  case True
  then consider "c = CHR ''&''" | "c = CHR ''<''" | "c = CHR ''>''" | "c = CHR 0x22" | "c = CHR 0x27" | "c = CHR ''/''"
    by (auto simp: needs_escape_def)
  then show ?thesis
    by cases (simp_all add: escape_char_def escaped_replacement_def unescape.simps [of "CHR ''&'' # _"] entities_def starts_with_def)
next
  case False
  then have "entity_at entities (c # s) = None"
    by (auto simp: entities_def needs_escape_def starts_with_def)
  with False show ?thesis by (simp add: escape_char_def unescape.simps [of "c # s"])
qed

lemma unescape_escape: "unescape (escape s) = s"
  by (induction s) (simp_all add: unescape_escape_char, simp add: unescape.simps)

section \<open>Style text\<close>

definition eq_ignore_ascii_case :: "char \<Rightarrow> char \<Rightarrow> bool" where
  "eq_ignore_ascii_case a b \<longleftrightarrow> to_ascii_lower (of_char a) = to_ascii_lower (of_char b)"

definition is_style_end_tag :: "string \<Rightarrow> nat \<Rightarrow> bool" where
  "is_style_end_tag bytes index \<longleftrightarrow>
     bytes ! index = CHR ''<'' \<and> bytes ! (index + 1) = CHR ''/'' \<and>
     eq_ignore_ascii_case (bytes ! (index + 2)) (CHR ''s'') \<and>
     eq_ignore_ascii_case (bytes ! (index + 3)) (CHR ''t'') \<and>
     eq_ignore_ascii_case (bytes ! (index + 4)) (CHR ''y'') \<and>
     eq_ignore_ascii_case (bytes ! (index + 5)) (CHR ''l'') \<and>
     eq_ignore_ascii_case (bytes ! (index + 6)) (CHR ''e'')"

function style_text_needs_escape_from :: "string \<Rightarrow> nat \<Rightarrow> bool" where
  "style_text_needs_escape_from bytes index =
     (if index + 7 \<le> length bytes then
        (if is_style_end_tag bytes index then True else style_text_needs_escape_from bytes (index + 1))
      else False)"
  by pat_completeness auto
termination
  by (relation "measure (\<lambda>(b, i). length b - i)") auto

definition style_text_needs_escape :: "string \<Rightarrow> bool" where
  "style_text_needs_escape css = style_text_needs_escape_from css 0"

text \<open>The writes of \<open>write_style_text\<close>, in order.\<close>

function style_chunks :: "string \<Rightarrow> nat \<Rightarrow> nat \<Rightarrow> string list" where
  "style_chunks css chunk_start index =
     (if index + 7 \<le> length css then
        (if is_style_end_tag css index
         then substr chunk_start (index + 1) css # [CHR 0x5C, CHR ''/''] # style_chunks css (index + 2) (index + 7)
         else style_chunks css chunk_start (index + 1))
      else [drop chunk_start css])"
  by pat_completeness auto
termination
  by (relation "measure (\<lambda>(b, s, i). length b - i)") auto

declare style_text_needs_escape_from.simps [simp del] style_chunks.simps [simp del]

section \<open>What style escaping writes\<close>

definition end_tag_here :: "string \<Rightarrow> bool" where
  "end_tag_here s \<longleftrightarrow> 7 \<le> length s \<and> is_style_end_tag s 0"

function style_escape :: "string \<Rightarrow> string" where
  "style_escape s =
     (if end_tag_here s then CHR ''<'' # CHR 0x5C # CHR ''/'' # take 5 (drop 2 s) @ style_escape (drop 7 s)
      else case s of [] \<Rightarrow> [] | x # xs \<Rightarrow> x # style_escape xs)"
  by pat_completeness auto
termination
  by (relation "measure length") (auto simp: end_tag_here_def)

declare style_escape.simps [simp del]

definition has_style_end :: "string \<Rightarrow> bool" where
  "has_style_end s \<longleftrightarrow> (\<exists>m. end_tag_here (drop m s))"

lemma end_tag_drop: "index + 7 \<le> length css \<Longrightarrow> is_style_end_tag css index \<longleftrightarrow> end_tag_here (drop index css)"
  by (auto simp: is_style_end_tag_def end_tag_here_def add.commute)

lemma end_tag_short: "length s < 7 \<Longrightarrow> \<not> end_tag_here s"
  by (simp add: end_tag_here_def)

lemma style_escape_id: "\<not> has_style_end s \<Longrightarrow> style_escape s = s"
proof (induction s)
  case (Cons x s)
  then have "\<not> end_tag_here (x # s)" "\<not> has_style_end s"
    by (metis drop0 has_style_end_def) (metis Cons.prems drop_Suc_Cons has_style_end_def)
  with Cons show ?case by (simp add: style_escape.simps [of "x # s"])
qed (simp add: style_escape.simps end_tag_here_def)

lemma short_no_end: "length s < 7 \<Longrightarrow> \<not> has_style_end s"
  by (auto simp: has_style_end_def end_tag_here_def)

lemma style_chunks_spec:
  assumes "chunk_start \<le> index" "index \<le> length css"
  shows "concat (style_chunks css chunk_start index) = substr chunk_start index css @ style_escape (drop index css)"
  using assms
proof (induction css chunk_start index rule: style_chunks.induct)
  case (1 css cs i)
  note unfold = style_chunks.simps [of css cs i]
  show ?case
  proof (cases "i + 7 \<le> length css")
    case False
    then have "style_escape (drop i css) = drop i css" by (simp add: style_escape_id short_no_end)
    with False show ?thesis using drop_substr [OF "1.prems"(1), of css] by (simp add: unfold)
  next
    case len: True
    show ?thesis
    proof (cases "is_style_end_tag css i")
      case True
      with len have e: "end_tag_here (drop i css)" "css ! i = CHR ''<''"
        by (simp add: end_tag_drop) (use True in \<open>simp add: is_style_end_tag_def\<close>)
      have "substr cs (i + 1) css = substr cs i css @ ''<''"
        using "1.prems" len e(2) substr_Suc [of cs i css] by simp
      moreover have "substr (i + 2) (i + 7) css = take 5 (drop 2 (drop i css))"
        by (simp add: substr_def add.commute)
      ultimately show ?thesis
        using "1.IH"(1) [OF len True] len True e by (simp add: unfold style_escape.simps [of "drop i css"] add.commute)
    next
      case False
      with len have "\<not> end_tag_here (drop i css)" by (simp add: end_tag_drop)
      moreover obtain x xs where x: "drop i css = x # xs" "css ! i = x" "drop (i + 1) css = xs"
        using len by (metis add_lessD1 Cons_nth_drop_Suc Suc_eq_plus1 add.commute less_add_same_cancel1 order_less_le_trans zero_less_numeral)
      ultimately show ?thesis
        using "1.IH"(2) [OF len False] "1.prems" len False substr_Suc [of cs i css]
        by (simp add: unfold style_escape.simps [of "x # xs"])
    qed
  qed
qed

lemma has_style_end_Cons: "has_style_end (x # s) \<longleftrightarrow> end_tag_here (x # s) \<or> has_style_end s"
proof
  assume "has_style_end (x # s)"
  then obtain m where "end_tag_here (drop m (x # s))" by (auto simp: has_style_end_def)
  then show "end_tag_here (x # s) \<or> has_style_end s"
    by (cases m) (auto simp: has_style_end_def)
next
  assume "end_tag_here (x # s) \<or> has_style_end s"
  then show "has_style_end (x # s)"
    unfolding has_style_end_def by (metis drop0 drop_Suc_Cons)
qed

lemma needs_escape_from_iff:
  "style_text_needs_escape_from css index \<longleftrightarrow> has_style_end (drop index css)"
proof (induction css index rule: style_text_needs_escape_from.induct)
  case (1 css i)
  show ?case
  proof (cases "i + 7 \<le> length css")
    case False
    then show ?thesis by (simp add: style_text_needs_escape_from.simps [of css i] short_no_end)
  next
    case len: True
    then have "drop i css = css ! i # drop (i + 1) css"
      by (metis Cons_nth_drop_Suc Suc_eq_plus1 add_leD1 add_le_same_cancel1 le_neq_implies_less not_numeral_le_zero)
    then have "has_style_end (drop i css) \<longleftrightarrow> end_tag_here (drop i css) \<or> has_style_end (drop (i + 1) css)"
      by (metis has_style_end_Cons)
    with 1 len show ?thesis
      by (simp add: style_text_needs_escape_from.simps [of css i] end_tag_drop)
  qed
qed

lemma end_tag_hd: "end_tag_here (x # s) \<Longrightarrow> x = CHR ''<''"
  by (simp add: end_tag_here_def is_style_end_tag_def)

lemma has_style_end_skip: "CHR ''<'' \<notin> set p \<Longrightarrow> has_style_end (p @ s) \<longleftrightarrow> has_style_end s"
  by (induction p) (auto simp: has_style_end_Cons dest: end_tag_hd)

lemma end_tag_take: "end_tag_here s \<longleftrightarrow> end_tag_here (take 7 s)"
  by (auto simp: end_tag_here_def is_style_end_tag_def)

lemma end_tag_tail:
  assumes "end_tag_here (x # p @ t)" "length p = 6"
  shows "CHR ''<'' \<notin> set p"
proof -
  obtain a b c d e f where "p = [a, b, c, d, e, f]"
    using assms(2) by (auto simp: eval_nat_numeral length_Suc_conv)
  with assms(1) show ?thesis
    by (auto simp: end_tag_here_def is_style_end_tag_def eq_ignore_ascii_case_def to_ascii_lower_def eval_nat_numeral)
qed

lemma style_escape_copies:
  "style_escape s = p @ t \<Longrightarrow> CHR ''<'' \<notin> set p \<Longrightarrow> \<exists>t'. s = p @ t'"
proof (induction p arbitrary: s)
  case (Cons x p)
  then have "\<not> end_tag_here s" using style_escape.simps [of s] by auto
  moreover from this Cons.prems obtain xs where "s = x # xs" "style_escape xs = p @ t"
    using style_escape.simps [of s] by (cases s) auto
  ultimately show ?case using Cons by auto
qed simp

lemma style_escape_safe: "\<not> has_style_end (style_escape s)"
proof (induction s rule: style_escape.induct)
  case (1 s)
  show ?case
  proof (cases "end_tag_here s")
    case True
    then have s: "s = CHR ''<'' # take 6 (drop 1 s) @ drop 7 s"
      by (cases s) (auto simp: end_tag_here_def is_style_end_tag_def)
    have "CHR ''<'' \<notin> set (take 6 (drop 1 s))"
    proof (rule end_tag_tail)
      show "end_tag_here (CHR ''<'' # take 6 (drop 1 s) @ drop 7 s)"
        by (rule back_subst [of end_tag_here, OF True s])
      show "length (take 6 (drop 1 s)) = 6" using True by (auto simp: end_tag_here_def)
    qed
    moreover have "take 5 (drop 2 s) = drop 1 (take 6 (drop 1 s))" by (simp add: drop_take numeral_2_eq_2)
    ultimately have "CHR ''<'' \<notin> set (CHR 0x5C # CHR ''/'' # take 5 (drop 2 s))"
      by (auto dest: in_set_dropD)
    from has_style_end_skip [OF this, of "style_escape (drop 7 s)"]
    have "\<not> has_style_end (CHR 0x5C # CHR ''/'' # take 5 (drop 2 s) @ style_escape (drop 7 s))"
      using 1 True by simp
    moreover have "\<not> end_tag_here (CHR ''<'' # CHR 0x5C # t)" for t
      by (simp add: end_tag_here_def is_style_end_tag_def)
    ultimately show ?thesis
      using True by (simp add: style_escape.simps [of s] has_style_end_Cons [of "CHR ''<''"])
  next
    case False
    show ?thesis
    proof (cases s)
      case Nil
      then show ?thesis by (simp add: style_escape_id short_no_end)
    next
      case (Cons x xs)
      have "\<not> end_tag_here (x # style_escape xs)"
      proof
        assume e: "end_tag_here (x # style_escape xs)"
        let ?p = "take 6 (style_escape xs)"
        have l: "length ?p = 6" using e by (auto simp: end_tag_here_def)
        have "CHR ''<'' \<notin> set ?p"
          by (rule end_tag_tail [of x _ "drop 6 (style_escape xs)"]) (use e l in simp_all)
        then obtain t' where t': "xs = ?p @ t'"
          using style_escape_copies [of xs ?p "drop 6 (style_escape xs)"] by auto
        have "take 6 xs = ?p" using t' l by (metis append_eq_conv_conj)
        then have "take 7 s = take 7 (x # style_escape xs)" using Cons by simp
        with e False show False by (metis end_tag_take)
      qed
      with 1 False Cons show ?thesis by (simp add: style_escape.simps [of "x # xs"] has_style_end_Cons)
    qed
  qed
qed

section \<open>Properties\<close>

text \<open>
   HTML encoding: \<open>encode_safe\<close> and both chunked appenders compute the same text, the
  byte-wise replacement of the six characters; the text has the length the capacity was
  computed for.
\<close>

theorem encode_safe_spec:
  "cow_value (encode_safe s) = escape s \<and> append_escaped_to_string out s = out @ escape s \<and>
   append_escaped_to_bytes bs s = bs @ bytes_of (escape s) \<and>
   (case position needs_escape s of
      None \<Rightarrow> encode_safe s = Borrowed s
    | Some pos \<Rightarrow> \<exists>t. encode_safe s = Owned t \<and> length t = encode_capacity s pos)"
proof (cases "position needs_escape s")
  case None
  then show ?thesis by (simp add: encode_safe_value append_escaped_spec) (simp add: encode_safe_def)
next
  case (Some pos)
  then have "\<forall>c \<in> set (take pos s). escaped_extra_len c = 0"
    using position_Some_prefix [OF Some] by (auto simp: list_all_iff needs_escape_def escaped_extra_len_def)
  then have "sum_list (map escaped_extra_len (take pos s)) = 0" by simp
  then have "sum_list (map escaped_extra_len s) = sum_list (map escaped_extra_len (drop pos s))"
    by (metis add_0 append_take_drop_id map_append sum_list.append)
  moreover obtain t where "encode_safe s = Owned t" using Some by (simp add: encode_safe_def)
  moreover have "t = escape s" using encode_safe_value [of s] calculation(2) by simp
  ultimately show ?thesis
    using Some by (simp add: encode_safe_value append_escaped_spec length_escape encode_capacity_def)
qed

text \<open>
  C5.  Encoded text is inert in HTML: it contains none of the angle brackets, quotes and
  slashes, and decoding the six entities gives the input back, so nothing is lost.
\<close>

theorem encode_safe_inert:
  "set (cow_value (encode_safe s)) \<inter> {CHR ''<'', CHR ''>'', CHR 0x22, CHR 0x27, CHR ''/''} = {} \<and>
   unescape (cow_value (encode_safe s)) = s"
proof -
  have "set (escape s) \<inter> {CHR ''<'', CHR ''>'', CHR 0x22, CHR 0x27, CHR ''/''} = {}"
    using set_escape_char by (fastforce simp: escape_def)
  then show ?thesis by (simp add: encode_safe_value unescape_escape)
qed

text \<open>
   Text written into a \<open><style>\<close> element never closes it: the writes contain no
  \<open></style\<close> in any mix of case, and text that needs no escape is written unchanged.
\<close>

theorem style_text_safe:
  "\<not> style_text_needs_escape (concat (style_chunks css 0 0)) \<and>
   (\<not> style_text_needs_escape css \<longrightarrow> concat (style_chunks css 0 0) = css)"
  using style_escape_safe [of css] style_escape_id [of css] style_chunks_spec [of 0 0 css]
  by (simp add: style_text_needs_escape_def needs_escape_from_iff)

theorem style_text_safe_witness:
  "\<not> style_text_needs_escape ''a{}'' \<and> concat (style_chunks ''a{}'' 0 0) = ''a{}''"
proof -
  have "\<not> style_text_needs_escape ''a{}''" by code_simp
  then show ?thesis using style_text_safe [of "''a{}''"] by blast
qed

end
