(* ===== verification/Response_Writer.thy ===== *)
theory Response_Writer
  imports Html_Encode
begin

text \<open>
  The output side of the renderer: the trait \<open>ResponseWriter\<close> with its default methods
  (\<open>crates/webui-handler/src/lib.rs\<close>), the string and byte writers of
  \<open>response_writer.rs\<close> and \<open>streaming/owned.rs\<close>, and the fixed marker buffer and the
  streaming sink of \<open>streaming/mod.rs\<close>.

  A method on \<open>&mut self\<close> maps a writer to its result and the changed writer, also when it
  fails; \<open>;;\<close> of the source's \<open>?\<close> is \<open>and_then\<close>.  The methods a generic function calls
  are its arguments (\<open>put\<close> is \<open>ResponseWriter::write\<close>); what they promise is the locale \<open>transport\<close>.
\<close>

section \<open>Errors and sequencing\<close>

datatype handler_error =
    Rendering string
  | InvalidState string
  | Invariant string
  | MissingFragment string
  | MissingDataField string
  | HTypeError string
  | ProtocolErr string
  | Evaluation string
  | Io string
  | WriterErr string
  | PluginData string
  | ClientDisconnected
  | StreamTimeout
  | StreamingBoundary string string
  | MissingStreamingBodyEnd
  | MissingStreamingHeadStart string
  | DuplicateStreamingHeadStart

type_synonym 'w act = "'w \<Rightarrow> (handler_error, unit) result \<times> 'w"

definition and_then :: "'w act \<Rightarrow> 'w act \<Rightarrow> 'w act" where
  "and_then f g w = (case f w of (Inl e, w') \<Rightarrow> (Inl e, w') | (Inr _, w') \<Rightarrow> g w')"

definition act_ok :: "'w act" where
  "act_ok w = (Inr (), w)"

definition act_err :: "handler_error \<Rightarrow> 'w act" where
  "act_err e w = (Inl e, w)"

fun write_all :: "(string \<Rightarrow> 'w act) \<Rightarrow> string list \<Rightarrow> 'w act" where
  "write_all put [] w = (Inr (), w)"
| "write_all put (c # cs) w = and_then (put c) (write_all put cs) w"

lemma and_then_Inr_iff:
  "and_then f g w = (Inr u, w'') \<longleftrightarrow> (\<exists>w'. f w = (Inr (), w') \<and> g w' = (Inr u, w''))"
  by (auto simp: and_then_def split: prod.splits sum.splits)

text \<open>An action keeps a property of the writer, whether it succeeds or fails.\<close>

definition keeps :: "('w \<Rightarrow> bool) \<Rightarrow> 'w act \<Rightarrow> bool" where
  "keeps P a \<longleftrightarrow> (\<forall>w. P w \<longrightarrow> P (snd (a w)))"

lemma keepsD: "keeps P a \<Longrightarrow> P w \<Longrightarrow> a w = (r, w') \<Longrightarrow> P w'"
  unfolding keeps_def by (metis snd_conv)

lemma keeps_and_then [inv_intros]: "keeps P a \<Longrightarrow> keeps P b \<Longrightarrow> keeps P (and_then a b)"
  unfolding keeps_def and_then_def by (force split: prod.splits sum.splits)

lemma keeps_trivial [inv_intros]: "keeps P act_ok" "keeps P (act_err e)"
  by (simp_all add: keeps_def act_ok_def act_err_def)

section \<open>Default methods of the trait\<close>

definition default_write_escaped :: "(string \<Rightarrow> 'w act) \<Rightarrow> string \<Rightarrow> 'w act" where
  "default_write_escaped put content = put (cow_value (encode_safe content))"

definition default_write_attribute :: "(string \<Rightarrow> 'w act) \<Rightarrow> string \<Rightarrow> string \<Rightarrow> 'w act" where
  "default_write_attribute put name value =
     write_all put ['' '', name, [CHR ''='', CHR 0x22], value, [CHR 0x22]]"

definition default_write_escaped_attribute ::
  "(string \<Rightarrow> string \<Rightarrow> 'w act) \<Rightarrow> string \<Rightarrow> string \<Rightarrow> 'w act" where
  "default_write_escaped_attribute write_attribute name value = write_attribute name (cow_value (encode_safe value))"

definition default_write_boolean_attribute :: "(string \<Rightarrow> 'w act) \<Rightarrow> string \<Rightarrow> 'w act" where
  "default_write_boolean_attribute put name = write_all put ['' '', name]"

definition write_style_text :: "(string \<Rightarrow> 'w act) \<Rightarrow> string \<Rightarrow> 'w act" where
  "write_style_text put css = write_all put (style_chunks css 0 0)"

section \<open>String and byte writers\<close>

definition append_attribute_to_string :: "string \<Rightarrow> string \<Rightarrow> string \<Rightarrow> string" where
  "append_attribute_to_string output name value =
     ((((output @ '' '') @ name) @ [CHR ''='', CHR 0x22]) @ value) @ [CHR 0x22]"

definition append_boolean_attribute_to_string :: "string \<Rightarrow> string \<Rightarrow> string" where
  "append_boolean_attribute_to_string output name = (output @ '' '') @ name"

text \<open>\<open>define_string_response_writer!\<close>: the writer is its one string field.\<close>

definition sw_write :: "string \<Rightarrow> string act" where
  "sw_write content out = (Inr (), out @ content)"

definition sw_write_escaped :: "string \<Rightarrow> string act" where
  "sw_write_escaped content out = (Inr (), append_escaped_to_string out content)"

definition sw_write_escaped_attribute :: "string \<Rightarrow> string \<Rightarrow> string act" where
  "sw_write_escaped_attribute name value out =
     (Inr (), append_escaped_to_string (((out @ '' '') @ name) @ [CHR ''='', CHR 0x22]) value @ [CHR 0x22])"

definition sw_write_attribute :: "string \<Rightarrow> string \<Rightarrow> string act" where
  "sw_write_attribute name value out =
     (Inr (), ((((out @ '' '') @ name) @ [CHR ''='', CHR 0x22]) @ value) @ [CHR 0x22])"

definition sw_write_boolean_attribute :: "string \<Rightarrow> string act" where
  "sw_write_boolean_attribute name out = (Inr (), (out @ '' '') @ name)"

text \<open>\<open>define_bytes_response_writer!\<close>: the writer is its one byte vector.\<close>

definition bw_write :: "string \<Rightarrow> nat list act" where
  "bw_write content out = (Inr (), out @ bytes_of content)"

definition bw_write_escaped :: "string \<Rightarrow> nat list act" where
  "bw_write_escaped content out = (Inr (), append_escaped_to_bytes out content)"

definition bw_write_escaped_attribute :: "string \<Rightarrow> string \<Rightarrow> nat list act" where
  "bw_write_escaped_attribute name value out =
     (Inr (), append_escaped_to_bytes (((out @ [32]) @ bytes_of name) @ [61, 34]) value @ [34])"

definition bw_write_attribute :: "string \<Rightarrow> string \<Rightarrow> nat list act" where
  "bw_write_attribute name value out =
     (Inr (), ((((out @ [32]) @ bytes_of name) @ [61, 34]) @ bytes_of value) @ [34])"

definition bw_write_boolean_attribute :: "string \<Rightarrow> nat list act" where
  "bw_write_boolean_attribute name out = (Inr (), (out @ [32]) @ bytes_of name)"

text \<open>\<open>BufferSink\<close>\<close>

record buffer_sink =
  bs_bytes :: "nat list"
  last_flush :: nat

definition bs_reset :: "buffer_sink \<Rightarrow> buffer_sink" where
  "bs_reset b = b\<lparr>bs_bytes := [], last_flush := 0\<rparr>"

definition append_attribute_to_bytes :: "nat list \<Rightarrow> string \<Rightarrow> string \<Rightarrow> nat list" where
  "append_attribute_to_bytes output name value =
     ((((output @ [32]) @ bytes_of name) @ [61, 34]) @ bytes_of value) @ [34]"

definition append_boolean_attribute_to_bytes :: "nat list \<Rightarrow> string \<Rightarrow> nat list" where
  "append_boolean_attribute_to_bytes output name = (output @ [32]) @ bytes_of name"

definition bs_write :: "string \<Rightarrow> buffer_sink act" where
  "bs_write content b = (Inr (), b\<lparr>bs_bytes := bs_bytes b @ bytes_of content\<rparr>)"

definition bs_write_attribute :: "string \<Rightarrow> string \<Rightarrow> buffer_sink act" where
  "bs_write_attribute name value b = (Inr (), b\<lparr>bs_bytes := append_attribute_to_bytes (bs_bytes b) name value\<rparr>)"

definition bs_write_boolean_attribute :: "string \<Rightarrow> buffer_sink act" where
  "bs_write_boolean_attribute name b = (Inr (), b\<lparr>bs_bytes := append_boolean_attribute_to_bytes (bs_bytes b) name\<rparr>)"

definition bs_end :: "buffer_sink act" where
  "bs_end b = (Inr (), b)"

definition bs_flush :: "buffer_sink act" where
  "bs_flush b = (Inr (), b\<lparr>last_flush := length (bs_bytes b)\<rparr>)"

section \<open>What a transport promises\<close>

definition attribute_text :: "string \<Rightarrow> string \<Rightarrow> string" where
  "attribute_text name value = '' '' @ name @ [CHR ''='', CHR 0x22] @ value @ [CHR 0x22]"

locale response_writer =
  fixes put :: "string \<Rightarrow> 'w act" and content :: "'w \<Rightarrow> nat list"
  assumes write_content: "put s w = (Inr (), w') \<Longrightarrow> content w' = content w @ bytes_of s"
begin

lemma write_all_content: "write_all put cs w = (Inr (), w') \<Longrightarrow> content w' = content w @ bytes_of (concat cs)"
  by (induction cs arbitrary: w) (auto simp: and_then_Inr_iff dest: write_content)

lemma default_attribute_content:
  "default_write_attribute put name value w = (Inr (), w') \<Longrightarrow> content w' = content w @ bytes_of (attribute_text name value)"
  unfolding default_write_attribute_def by (drule write_all_content) (simp add: attribute_text_def)

lemma default_boolean_content:
  "default_write_boolean_attribute put name w = (Inr (), w') \<Longrightarrow> content w' = content w @ bytes_of ('' '' @ name)"
  unfolding default_write_boolean_attribute_def by (drule write_all_content) simp

lemma default_escaped_content:
  "default_write_escaped put s w = (Inr (), w') \<Longrightarrow> content w' = content w @ bytes_of (escape s)"
  unfolding default_write_escaped_def by (drule write_content) (simp add: encode_safe_value)

lemma style_text_content:
  "write_style_text put css w = (Inr (), w') \<Longrightarrow> content w' = content w @ bytes_of (style_escape css)"
  unfolding write_style_text_def
  by (drule write_all_content) (use style_chunks_spec [of 0 0 css] in simp)

end

text \<open>The trait \<open>FlushWriter\<close> with the attribute methods an implementation may override.\<close>

locale transport = response_writer put content
  for put :: "string \<Rightarrow> 'w act" and content :: "'w \<Rightarrow> nat list" +
  fixes write_attribute :: "string \<Rightarrow> string \<Rightarrow> 'w act"
    and write_boolean_attribute :: "string \<Rightarrow> 'w act"
    and flush :: "'w act"
  assumes attribute_content: "write_attribute n v w = (Inr (), w') \<Longrightarrow> content w' = content w @ bytes_of (attribute_text n v)"
    and boolean_content: "write_boolean_attribute n w = (Inr (), w') \<Longrightarrow> content w' = content w @ bytes_of ('' '' @ n)"
    and flush_content: "flush w = (Inr (), w') \<Longrightarrow> content w' = content w"

interpretation sw: response_writer sw_write bytes_of
  by unfold_locales (simp add: sw_write_def)

interpretation bw: response_writer bw_write "\<lambda>out. out"
  by unfold_locales (simp add: bw_write_def)

interpretation bs: transport bs_write bs_bytes bs_write_attribute bs_write_boolean_attribute bs_flush
  by unfold_locales
    (auto simp: bs_write_def bs_write_attribute_def bs_write_boolean_attribute_def bs_flush_def
      append_attribute_to_bytes_def append_boolean_attribute_to_bytes_def attribute_text_def)

section \<open>Properties\<close>

text \<open>
   The optimised methods of the string writer, the byte writer and the buffer sink
  write exactly what the default methods of the trait write.
\<close>

theorem writer_overrides_agree:
  "sw_write_escaped content out = default_write_escaped sw_write content out \<and>
   sw_write_escaped_attribute name value out =
     default_write_escaped_attribute (default_write_attribute sw_write) name value out \<and>
   sw_write_boolean_attribute name out = default_write_boolean_attribute sw_write name out \<and>
   bw_write_escaped content bout = default_write_escaped bw_write content bout \<and>
   bw_write_escaped_attribute name value bout =
     default_write_escaped_attribute (default_write_attribute bw_write) name value bout \<and>
   bw_write_boolean_attribute name bout = default_write_boolean_attribute bw_write name bout \<and>
   bs_write_attribute name value sink = default_write_attribute bs_write name value sink \<and>
   bs_write_boolean_attribute name sink = default_write_boolean_attribute bs_write name sink"
  by (simp add: sw_write_escaped_def sw_write_escaped_attribute_def sw_write_boolean_attribute_def
      bw_write_escaped_def bw_write_escaped_attribute_def bw_write_boolean_attribute_def
      bs_write_attribute_def bs_write_boolean_attribute_def append_attribute_to_bytes_def append_boolean_attribute_to_bytes_def
      default_write_escaped_def default_write_escaped_attribute_def default_write_attribute_def
      default_write_boolean_attribute_def append_escaped_spec encode_safe_value sw_write_def bw_write_def bs_write_def
      and_then_def)

end
