(* ===== verification/Streaming_Sink.thy ===== *)
theory Streaming_Sink
  imports Response_Writer
begin

text \<open>
  The marker buffer and the streaming sink of \<open>crates/webui-handler/src/streaming/mod.rs\<close>.
  The sink sits between the renderer and a transport: it counts the bytes it hands over so
  that a flush that would deliver nothing is skipped, and holds back the opening tag of a
  component until its root marker is known.  \<open>usize\<close> is 64 bits wide.
\<close>

section \<open>Decimal digits\<close>

definition digit_char :: "nat \<Rightarrow> char" where
  "digit_char d = char_of (48 + d)"

text \<open>
  The loop that fills a digit array from the back: \<open>offset\<close> is the number of free cells;
  \<open>None\<close> when it would pass the front of the array.
\<close>

fun digits_loop :: "nat \<Rightarrow> nat \<Rightarrow> string \<Rightarrow> string option" where
  "digits_loop 0 value acc = None"
| "digits_loop (Suc offset) value acc =
     (let acc' = digit_char (value mod 10) # acc; value' = value div 10
      in if value' = 0 then Some acc' else digits_loop offset value' acc')"

fun decimal :: "nat \<Rightarrow> string" where
  "decimal n = (if n < 10 then [digit_char n] else decimal (n div 10) @ [digit_char (n mod 10)])"

declare decimal.simps [simp del]

lemma digits_loop_decimal:
  "v < 10 ^ offset \<Longrightarrow> 0 < offset \<Longrightarrow> digits_loop offset v acc = Some (decimal v @ acc)"
proof (induction offset v acc rule: digits_loop.induct)
  case (2 offset v acc)
  show ?case
  proof (cases "v div 10 = 0")
    case True
    then have "v < 10" by auto
    then show ?thesis by (simp add: decimal.simps [of v])
  next
    case False
    then have "10 \<le> v" by auto
    moreover have "v div 10 < 10 ^ offset" using "2.prems"(1) by (simp add: less_mult_imp_div_less mult.commute)
    moreover have "0 < offset" using calculation False by (cases offset) auto
    ultimately show ?thesis using "2.IH" False by (simp add: decimal.simps [of v])
  qed
qed simp

lemma length_decimal: "n < 10 ^ k \<Longrightarrow> 0 < k \<Longrightarrow> length (decimal n) \<le> k"
proof (induction k arbitrary: n)
  case (Suc k)
  show ?case
  proof (cases "n < 10")
    case False
    then have "n div 10 < 10 ^ k" "0 < k" using Suc.prems(1)
      by (simp_all add: less_mult_imp_div_less mult.commute) (cases k, auto)
    with Suc.IH False show ?thesis by (simp add: decimal.simps [of n])
  qed (simp add: decimal.simps [of n])
qed simp

section \<open>The marker buffer\<close>

definition MARKER_CAPACITY :: nat where
  "MARKER_CAPACITY = 96"

text \<open>\<open>bytes[..len]\<close> of the buffer; the bytes behind \<open>len\<close> are never read.\<close>

record marker_buffer =
  mb_text :: string

definition marker_new :: marker_buffer where
  "marker_new = \<lparr>mb_text = []\<rparr>"

definition marker_overflow_error :: handler_error where
  "marker_overflow_error = Invariant ''streaming marker exceeded its fixed buffer''"

definition push_str :: "string \<Rightarrow> marker_buffer \<Rightarrow> (handler_error, marker_buffer) result" where
  "push_str txt b =
     (let len = length (mb_text b) + length txt
      in if len \<le> MARKER_CAPACITY then Inr (b\<lparr>mb_text := mb_text b @ txt\<rparr>) else Inl marker_overflow_error)"

definition push_usize :: "nat \<Rightarrow> marker_buffer \<Rightarrow> (handler_error, marker_buffer) result" where
  "push_usize value b = (case digits_loop 20 value [] of
     None \<Rightarrow> Inl marker_overflow_error
   | Some digits \<Rightarrow>
       if length (mb_text b) + length digits \<le> MARKER_CAPACITY
       then Inr (b\<lparr>mb_text := mb_text b @ digits\<rparr>) else Inl marker_overflow_error)"

text \<open>\<open>flush_to\<close> hands the text over in one write; the buffer is empty afterwards.\<close>

definition flush_to :: "(string \<Rightarrow> 'w act) \<Rightarrow> marker_buffer \<Rightarrow> 'w act" where
  "flush_to put b = (if utf8_valid (bytes_of (mb_text b)) then put (mb_text b) else act_err marker_overflow_error)"

definition write_range_marker :: "(string \<Rightarrow> 'w act) \<Rightarrow> string \<Rightarrow> u32 \<Rightarrow> 'w act" where
  "write_range_marker put marker_prefix mid =
     (case rbind (push_str marker_prefix marker_new) (\<lambda>b. rbind (push_usize (unat mid) b) (push_str ''-->'')) of
        Inl e \<Rightarrow> act_err e
      | Inr b \<Rightarrow> flush_to put b)"

text \<open>\<open>write_u32\<close>: ten cells hold every 32-bit number.\<close>

definition write_u32 :: "(string \<Rightarrow> 'w act) \<Rightarrow> u32 \<Rightarrow> 'w act option" where
  "write_u32 put value =
     (if value = 0 then Some (put ''0'') else map_option put (digits_loop 10 (unat value) []))"

lemma digit_char_0: "digit_char 0 = CHR ''0''"
  by code_simp

lemma unat_u32_bound: "unat (x :: u32) < 10 ^ 10"
proof -
  have "unat x < 2 ^ 32" using unsigned_less [of x] by simp
  then show ?thesis by simp
qed

lemma write_u32_total: "write_u32 put n = Some (put (decimal (unat n)))"
  using digits_loop_decimal [OF unat_u32_bound, of n "[]"]
  by (auto simp: write_u32_def decimal.simps [of 0] digit_char_0)

lemma push_usize_decimal:
  assumes "value < 2 ^ 64"
  shows "push_usize value b =
    (if length (mb_text b) + length (decimal value) \<le> MARKER_CAPACITY
     then Inr (b\<lparr>mb_text := mb_text b @ decimal value\<rparr>) else Inl marker_overflow_error)"
  using digits_loop_decimal [of "value" 20 "[]"] assms by (simp add: push_usize_def)

lemma digit_char_code: "d < 10 \<Longrightarrow> of_char (digit_char d) = 48 + d"
  by (simp add: digit_char_def)

lemma decimal_ascii: "c \<in> set (decimal n) \<Longrightarrow> of_char c < (128 :: nat)"
proof (induction n rule: decimal.induct)
  case (1 n)
  then show ?case
    by (cases "n < 10") (auto simp: decimal.simps [of n] digit_char_code)
qed

lemma write_range_marker_text:
  assumes "ascii_string pre" "length pre \<le> 83"
  shows "write_range_marker put pre mid = put (pre @ decimal (unat mid) @ ''-->'')"
proof -
  have len: "length (decimal (unat mid)) \<le> 10" using length_decimal [OF unat_u32_bound, of mid] by simp
  have "unat mid < 2 ^ 64" using unat_u32_bound [of mid] by simp
  then have "rbind (push_str pre marker_new) (\<lambda>b. rbind (push_usize (unat mid) b) (push_str ''-->''))
      = Inr \<lparr>mb_text = pre @ decimal (unat mid) @ ''-->''\<rparr>"
    using assms(2) len by (simp add: push_str_def marker_new_def MARKER_CAPACITY_def push_usize_decimal Let_def)
  moreover have "utf8_valid (bytes_of (pre @ decimal (unat mid) @ ''-->''))"
    using assms(1) decimal_ascii by (intro utf8_valid_ascii) auto
  ultimately show ?thesis by (simp add: write_range_marker_def flush_to_def)
qed

section \<open>The streaming sink\<close>

record component_opening =
  opening_bytes :: string
  root_offset :: "nat option"

record 'w streaming_sink =
  sink_transport :: 'w
  sink_opening :: "component_opening option"
  sink_written :: u64
  sink_flushed :: u64

text \<open>The methods of the transport.\<close>

record 'w transport_ops =
  t_put :: "string \<Rightarrow> 'w act"
  t_put_attribute :: "string \<Rightarrow> string \<Rightarrow> 'w act"
  t_put_boolean_attribute :: "string \<Rightarrow> 'w act"
  t_end :: "'w act"
  t_flush :: "'w act"

definition on_transport :: "'w act \<Rightarrow> 'w streaming_sink act" where
  "on_transport a s = (case a (sink_transport s) of (r, w) \<Rightarrow> (r, s\<lparr>sink_transport := w\<rparr>))"

definition sink_put :: "'w transport_ops \<Rightarrow> string \<Rightarrow> 'w streaming_sink act" where
  "sink_put t content s = (case sink_opening s of
     Some opn \<Rightarrow> (Inr (), s\<lparr>sink_opening := Some (opn\<lparr>opening_bytes := opening_bytes opn @ content\<rparr>)\<rparr>)
   | None \<Rightarrow> on_transport (t_put t content) (s\<lparr>sink_written := sink_written s + of_nat (length content)\<rparr>))"

definition sink_put_attribute :: "'w transport_ops \<Rightarrow> string \<Rightarrow> string \<Rightarrow> 'w streaming_sink act" where
  "sink_put_attribute t name value s = (case sink_opening s of
     Some opn \<Rightarrow> (Inr (), s\<lparr>sink_opening :=
         Some (opn\<lparr>opening_bytes := append_attribute_to_string (opening_bytes opn) name value\<rparr>)\<rparr>)
   | None \<Rightarrow> on_transport (t_put_attribute t name value)
       (s\<lparr>sink_written := sink_written s + (of_nat (length name) + of_nat (length value) + 4)\<rparr>))"

definition sink_put_boolean_attribute :: "'w transport_ops \<Rightarrow> string \<Rightarrow> 'w streaming_sink act" where
  "sink_put_boolean_attribute t name s = (case sink_opening s of
     Some opn \<Rightarrow> (Inr (), s\<lparr>sink_opening :=
         Some (opn\<lparr>opening_bytes := append_boolean_attribute_to_string (opening_bytes opn) name\<rparr>)\<rparr>)
   | None \<Rightarrow> on_transport (t_put_boolean_attribute t name)
       (s\<lparr>sink_written := sink_written s + (of_nat (length name) + 1)\<rparr>))"

definition sink_end :: "'w transport_ops \<Rightarrow> 'w streaming_sink act" where
  "sink_end t = on_transport (t_end t)"

definition stream_flush :: "'w transport_ops \<Rightarrow> 'w streaming_sink act" where
  "stream_flush t s =
     (if sink_opening s \<noteq> None
      then (Inl (Invariant ''streaming flush attempted while a component opening was buffered''), s)
      else if sink_written s = sink_flushed s then (Inr (), s)
      else on_transport (t_flush t) (s\<lparr>sink_flushed := sink_written s\<rparr>))"

definition stream_begin_component :: "'w streaming_sink act" where
  "stream_begin_component s =
     (if sink_opening s \<noteq> None then (Inl (Invariant ''nested component opening buffers are not valid''), s)
      else (Inr (), s\<lparr>sink_opening := Some \<lparr>opening_bytes = [], root_offset = None\<rparr>\<rparr>))"

definition stream_mark_component_root :: "'w streaming_sink act" where
  "stream_mark_component_root s = (case sink_opening s of
     None \<Rightarrow> (Inl (Invariant ''component root marker has no buffered opening''), s)
   | Some opn \<Rightarrow>
       let s' = s\<lparr>sink_opening := Some (opn\<lparr>root_offset := Some (length (opening_bytes opn))\<rparr>)\<rparr>
       in if root_offset opn \<noteq> None
          then (Inl (Invariant ''component opening contains duplicate root markers''), s')
          else (Inr (), s'))"

text \<open>The attributes a deferred component gets, as the sequence of writes.\<close>

definition id_attribute :: "'w transport_ops \<Rightarrow> string \<Rightarrow> u32 option \<Rightarrow> 'w streaming_sink act" where
  "id_attribute t name oid = (case oid of
     None \<Rightarrow> act_ok
   | Some n \<Rightarrow> and_then (sink_put t ('' '' @ name @ [CHR ''='', CHR 0x22]))
       (and_then (the (write_u32 (sink_put t) n)) (sink_put t [CHR 0x22])))"

definition stream_commit_component ::
  "'w transport_ops \<Rightarrow> u32 option \<Rightarrow> u32 option \<Rightarrow> bool \<Rightarrow> 'w streaming_sink act" where
  "stream_commit_component t span_id enclosing_span_id deferred s = (case sink_opening s of
     None \<Rightarrow> (Inl (Invariant ''component opening commit has no buffered bytes''), s)
   | Some opn \<Rightarrow>
       let s = s\<lparr>sink_opening := None\<rparr> in
       (case root_offset opn of
          None \<Rightarrow> (Inl (Invariant ''buffered component opening has no compiler root marker''), s)
        | Some off \<Rightarrow>
            and_then (case span_id of None \<Rightarrow> act_ok | Some n \<Rightarrow> write_range_marker (sink_put t) ''<!--ws:'' n)
             (and_then (sink_put t (take off (opening_bytes opn)))
               (and_then
                 (if deferred
                  then and_then (sink_put t '' data-ws'')
                    (and_then (id_attribute t ''data-ws-span'' span_id)
                       (id_attribute t ''data-ws-enclosing'' enclosing_span_id))
                  else act_ok)
                 (sink_put t (drop off (opening_bytes opn))))) s))"

section \<open>The sink over a transport that keeps its promises\<close>

text \<open>What the sink has taken in: the bytes of the transport, then the buffered opening.\<close>

definition sink_content :: "('w \<Rightarrow> nat list) \<Rightarrow> 'w streaming_sink \<Rightarrow> nat list" where
  "sink_content content s =
     content (sink_transport s) @ (case sink_opening s of None \<Rightarrow> [] | Some opn \<Rightarrow> bytes_of (opening_bytes opn))"

section \<open>Commit closes the opening\<close>

lemma keeps_closed [inv_intros]: "keeps (\<lambda>s. sink_opening s = None) (sink_put t str)"
  by (auto simp: keeps_def sink_put_def on_transport_def split: option.splits prod.splits)

lemma keeps_id_attribute:
  "(\<And>str. keeps P (sink_put t str)) \<Longrightarrow> keeps P (id_attribute t name oid)"
  by (auto simp: id_attribute_def write_u32_total split: option.splits intro!: inv_intros)

lemma ws_marker: "write_range_marker put ''<!--ws:'' n = put (''<!--ws:'' @ decimal (unat n) @ ''-->'')"
  by (rule write_range_marker_text) simp_all

definition commit_body ::
  "'w transport_ops \<Rightarrow> u32 option \<Rightarrow> u32 option \<Rightarrow> bool \<Rightarrow> nat \<Rightarrow> string \<Rightarrow> 'w streaming_sink act" where
  "commit_body t span enc deferred off bs =
     and_then (case span of None \<Rightarrow> act_ok | Some n \<Rightarrow> write_range_marker (sink_put t) ''<!--ws:'' n)
      (and_then (sink_put t (take off bs))
        (and_then
          (if deferred then and_then (sink_put t '' data-ws'')
             (and_then (id_attribute t ''data-ws-span'' span) (id_attribute t ''data-ws-enclosing'' enc)) else act_ok)
          (sink_put t (drop off bs))))"

lemma stream_commit_body:
  "stream_commit_component t span enc deferred s = (case sink_opening s of
     None \<Rightarrow> (Inl (Invariant ''component opening commit has no buffered bytes''), s)
   | Some opn \<Rightarrow> (case root_offset opn of
       None \<Rightarrow> (Inl (Invariant ''buffered component opening has no compiler root marker''), s\<lparr>sink_opening := None\<rparr>)
     | Some off \<Rightarrow> commit_body t span enc deferred off (opening_bytes opn) (s\<lparr>sink_opening := None\<rparr>)))"
  by (simp add: stream_commit_component_def commit_body_def Let_def split: option.split)

lemma keeps_commit_body:
  "(\<And>str. keeps P (sink_put t str)) \<Longrightarrow> keeps P (commit_body t span enc deferred off bs)"
  by (cases span) (auto simp: commit_body_def ws_marker intro!: inv_intros keeps_id_attribute)

lemma commit_closes:
  assumes "stream_commit_component t span enc deferred s = (r, s')"
  shows "sink_opening s' = None"
proof (cases "sink_opening s")
  case (Some opn)
  show ?thesis
  proof (cases "root_offset opn")
    case (Some off)
    have "keeps (\<lambda>s. sink_opening s = None) (commit_body t span enc deferred off (opening_bytes opn))"
      by (intro keeps_commit_body inv_intros)
    from keepsD [OF this, of "s\<lparr>sink_opening := None\<rparr>"] show ?thesis
      using assms Some \<open>sink_opening s = Some opn\<close> by (simp add: stream_commit_body)
  qed (use assms Some in \<open>auto simp: stream_commit_body\<close>)
qed (use assms in \<open>auto simp: stream_commit_body\<close>)

locale transport_bundle =
  fixes t :: "'w transport_ops" and content :: "'w \<Rightarrow> nat list"
  assumes ops: "transport (t_put t) content (t_put_attribute t) (t_put_boolean_attribute t) (t_flush t)"
begin

sublocale tr: transport "t_put t" content "t_put_attribute t" "t_put_boolean_attribute t" "t_flush t"
  by (rule ops)

lemma sink_put_content:
  "sink_put t str s = (Inr (), s') \<Longrightarrow> sink_content content s' = sink_content content s @ bytes_of str"
  by (auto simp: sink_put_def sink_content_def on_transport_def split: option.splits prod.splits dest!: tr.write_content)

lemma sink_put_attribute_content:
  "sink_put_attribute t n v s = (Inr (), s') \<Longrightarrow> sink_content content s' = sink_content content s @ bytes_of (attribute_text n v)"
  by (auto simp: sink_put_attribute_def sink_content_def on_transport_def append_attribute_to_string_def attribute_text_def
      split: option.splits prod.splits dest!: tr.attribute_content)

lemma sink_put_boolean_content:
  "sink_put_boolean_attribute t n s = (Inr (), s') \<Longrightarrow> sink_content content s' = sink_content content s @ bytes_of ('' '' @ n)"
  by (auto simp: sink_put_boolean_attribute_def sink_content_def on_transport_def append_boolean_attribute_to_string_def
      split: option.splits prod.splits dest!: tr.boolean_content)

sublocale sink: response_writer "sink_put t" "sink_content content"
  by unfold_locales (rule sink_put_content)

lemma sink_put_opening: "sink_put t str s = (r, s') \<Longrightarrow> sink_opening s = None \<Longrightarrow> sink_opening s' = None"
  by (auto simp: sink_put_def on_transport_def split: option.splits prod.splits)

lemma flush_content: "stream_flush t s = (Inr (), s') \<Longrightarrow> sink_content content s' = sink_content content s"
  by (auto simp: stream_flush_def on_transport_def sink_content_def split: if_splits prod.splits dest!: tr.flush_content)

lemma id_attribute_content:
  assumes "id_attribute t name oid s = (Inr (), s')"
  shows "sink_content content s' = sink_content content s @
    bytes_of (case oid of None \<Rightarrow> [] | Some n \<Rightarrow> attribute_text name (decimal (unat n)))"
  using assms
  by (auto simp: id_attribute_def act_ok_def attribute_text_def and_then_Inr_iff write_u32_total split: option.splits
      dest!: sink_put_content)

text \<open>The text of a committed component opening.\<close>

lemma commit_content:
  assumes "stream_commit_component t span enc deferred s = (Inr (), s')"
    and "sink_opening s = Some \<lparr>opening_bytes = bs, root_offset = Some off\<rparr>"
  shows "content (sink_transport s') = content (sink_transport s) @
    bytes_of ((case span of None \<Rightarrow> [] | Some n \<Rightarrow> ''<!--ws:'' @ decimal (unat n) @ ''-->'') @ take off bs @
      (if deferred then '' data-ws'' @
         (case span of None \<Rightarrow> [] | Some n \<Rightarrow> attribute_text ''data-ws-span'' (decimal (unat n))) @
         (case enc of None \<Rightarrow> [] | Some n \<Rightarrow> attribute_text ''data-ws-enclosing'' (decimal (unat n)))
       else []) @ drop off bs)"
proof -
  let ?s = "s\<lparr>sink_opening := None\<rparr>"
  obtain s1 s2 s3 where
    1: "(case span of None \<Rightarrow> act_ok | Some n \<Rightarrow> write_range_marker (sink_put t) ''<!--ws:'' n) ?s = (Inr (), s1)"
    and 2: "sink_put t (take off bs) s1 = (Inr (), s2)"
    and 3: "(if deferred then and_then (sink_put t '' data-ws'')
        (and_then (id_attribute t ''data-ws-span'' span) (id_attribute t ''data-ws-enclosing'' enc)) else act_ok) s2 = (Inr (), s3)"
    and 4: "sink_put t (drop off bs) s3 = (Inr (), s')"
    using assms by (auto simp: stream_commit_body commit_body_def and_then_Inr_iff)
  have c1: "sink_content content s1 = sink_content content ?s @
      bytes_of (case span of None \<Rightarrow> [] | Some n \<Rightarrow> ''<!--ws:'' @ decimal (unat n) @ ''-->'')"
    using 1 by (auto simp: act_ok_def ws_marker split: option.splits dest!: sink_put_content)
  have c3: "sink_content content s3 = sink_content content s2 @ bytes_of (if deferred then '' data-ws'' @
         (case span of None \<Rightarrow> [] | Some n \<Rightarrow> attribute_text ''data-ws-span'' (decimal (unat n))) @
         (case enc of None \<Rightarrow> [] | Some n \<Rightarrow> attribute_text ''data-ws-enclosing'' (decimal (unat n))) else [])"
    using 3 by (auto simp: act_ok_def and_then_Inr_iff split: if_splits dest!: sink_put_content id_attribute_content)
  have "sink_content content s' = content (sink_transport s')"
    using commit_closes [OF assms(1)] by (simp add: sink_content_def)
  moreover have "sink_content content ?s = content (sink_transport s)" by (simp add: sink_content_def)
  ultimately show ?thesis
    using c1 c3 sink_put_content [OF 2] sink_put_content [OF 4] by (simp only: map_append append_assoc)
qed

end

definition buffer_ops :: "buffer_sink transport_ops" where
  "buffer_ops = \<lparr>t_put = bs_write, t_put_attribute = bs_write_attribute,
     t_put_boolean_attribute = bs_write_boolean_attribute, t_end = bs_end, t_flush = bs_flush\<rparr>"

section \<open>The calls of a renderer\<close>

datatype sink_call =
    CPut string | CAttribute string string | CBoolean string | CEnd | CFlush | CBegin | CMark
  | CCommit "u32 option" "u32 option" bool

fun sink_step :: "'w transport_ops \<Rightarrow> sink_call \<Rightarrow> 'w streaming_sink act" where
  "sink_step t (CPut str) = sink_put t str"
| "sink_step t (CAttribute n v) = sink_put_attribute t n v"
| "sink_step t (CBoolean n) = sink_put_boolean_attribute t n"
| "sink_step t CEnd = sink_end t"
| "sink_step t CFlush = stream_flush t"
| "sink_step t CBegin = stream_begin_component"
| "sink_step t CMark = stream_mark_component_root"
| "sink_step t (CCommit span enc deferred) = stream_commit_component t span enc deferred"

text \<open>A renderer makes its calls in order and stops at the first one that fails.\<close>

fun sink_run :: "'w transport_ops \<Rightarrow> sink_call list \<Rightarrow> 'w streaming_sink act" where
  "sink_run t [] = act_ok"
| "sink_run t (c # cs) = and_then (sink_step t c) (sink_run t cs)"

text \<open>A fresh sink over a transport.\<close>

definition sink_on :: "'w \<Rightarrow> 'w streaming_sink" where
  "sink_on w = \<lparr>sink_transport = w, sink_opening = None, sink_written = 0, sink_flushed = 0\<rparr>"

section \<open>Flushing\<close>

text \<open>An action keeps a property of the writer when it succeeds.\<close>

definition keeps_ok :: "('w \<Rightarrow> bool) \<Rightarrow> 'w act \<Rightarrow> bool" where
  "keeps_ok P a \<longleftrightarrow> (\<forall>w w'. P w \<longrightarrow> a w = (Inr (), w') \<longrightarrow> P w')"

named_theorems ok_intros

lemma keeps_okD: "keeps_ok P a \<Longrightarrow> P w \<Longrightarrow> a w = (Inr (), w') \<Longrightarrow> P w'"
  by (auto simp: keeps_ok_def)

lemma keeps_ok_rules [ok_intros]:
  "keeps_ok P act_ok" "keeps_ok P (act_err e)"
  "keeps_ok P a \<Longrightarrow> keeps_ok P b \<Longrightarrow> keeps_ok P (and_then a b)"
  unfolding keeps_ok_def act_ok_def act_err_def and_then_Inr_iff by (simp, simp, blast)

lemma keeps_ok_id_attribute [ok_intros]:
  "(\<And>str. keeps_ok P (sink_put t str)) \<Longrightarrow> keeps_ok P (id_attribute t name oid)"
  by (cases oid) (simp_all add: id_attribute_def write_u32_total keeps_ok_rules)

lemma keeps_ok_commit_body:
  "(\<And>str. keeps_ok P (sink_put t str)) \<Longrightarrow> keeps_ok P (commit_body t span enc deferred off bs)"
  by (cases span) (simp_all add: commit_body_def ws_marker keeps_ok_rules keeps_ok_id_attribute)

text \<open>
  The counters of the sink, from the position \<open>base\<close> at which it was put on the transport: the
  bytes written, and a position that the transport has handed on.
\<close>

definition tracked :: "('w \<Rightarrow> nat list) \<Rightarrow> ('w \<Rightarrow> nat) \<Rightarrow> nat \<Rightarrow> 'w streaming_sink \<Rightarrow> bool" where
  "tracked content flushed base s \<longleftrightarrow> base \<le> length (content (sink_transport s)) \<and>
     sink_written s = of_nat (length (content (sink_transport s)) - base) \<and>
     (\<exists>m. sink_flushed s = of_nat (m - base) \<and> base \<le> m \<and> m \<le> flushed (sink_transport s) \<and>
        m \<le> length (content (sink_transport s)))"

text \<open>
  A transport that knows how far it has handed its bytes on.  It may hand bytes on by itself
  (a chunk that is full, the end of the response); a flush that succeeds hands on all of them.
\<close>

locale flushing_transport = transport_bundle t content
  for t :: "'w transport_ops" and content :: "'w \<Rightarrow> nat list" +
  fixes flushed :: "'w \<Rightarrow> nat"
  assumes put_flushed: "t_put t str w = (Inr (), w') \<Longrightarrow> flushed w \<le> flushed w'"
    and attribute_flushed: "t_put_attribute t n v w = (Inr (), w') \<Longrightarrow> flushed w \<le> flushed w'"
    and boolean_flushed: "t_put_boolean_attribute t n w = (Inr (), w') \<Longrightarrow> flushed w \<le> flushed w'"
    and end_content: "t_end t w = (Inr (), w') \<Longrightarrow> content w' = content w \<and> flushed w \<le> flushed w'"
    and flush_flushed: "t_flush t w = (Inr (), w') \<Longrightarrow> length (content w') \<le> flushed w'"
begin

lemma tracked_grows:
  assumes "tracked content flushed base s" "content w = content (sink_transport s) @ bs" "flushed (sink_transport s) \<le> flushed w"
    "n = of_nat (length bs)"
  shows "tracked content flushed base (s\<lparr>sink_written := sink_written s + n, sink_transport := w\<rparr>)"
proof -
  obtain m where m: "sink_flushed s = of_nat (m - base)" "base \<le> m" "m \<le> flushed (sink_transport s)"
    "m \<le> length (content (sink_transport s))"
    using assms(1) by (auto simp: tracked_def)
  have "m \<le> flushed w" "m \<le> length (content w)" using m assms(2,3) by simp_all
  with m(1,2) have "\<exists>m. sink_flushed s = of_nat (m - base) \<and> base \<le> m \<and> m \<le> flushed w \<and> m \<le> length (content w)"
    by blast
  moreover have "length (content w) - base = (length (content (sink_transport s)) - base) + length bs"
    using assms(1,2) by (simp add: tracked_def)
  ultimately show ?thesis using assms(1,2,4) by (simp add: tracked_def)
qed

lemma tracked_put [ok_intros]: "keeps_ok (tracked content flushed base) (sink_put t str)"
  by (auto simp: keeps_ok_def sink_put_def on_transport_def 
      dest: tr.write_content put_flushed intro!: tracked_grows [where bs = "bytes_of str"]
      split: option.splits prod.splits) (simp_all add: tracked_def)

lemma tracked_attribute: "keeps_ok (tracked content flushed base) (sink_put_attribute t n v)"
  by (auto simp: keeps_ok_def sink_put_attribute_def on_transport_def attribute_text_def
      dest: tr.attribute_content attribute_flushed intro!: tracked_grows [where bs = "bytes_of (attribute_text n v)"]
      split: option.splits prod.splits) (simp_all add: tracked_def)

lemma tracked_boolean: "keeps_ok (tracked content flushed base) (sink_put_boolean_attribute t n)"
  by (auto simp: keeps_ok_def sink_put_boolean_attribute_def on_transport_def
      dest: tr.boolean_content boolean_flushed intro!: tracked_grows [where bs = "bytes_of ('' '' @ n)"]
      split: option.splits prod.splits) (simp_all add: tracked_def)

lemma tracked_end: "keeps_ok (tracked content flushed base) (sink_end t)"
  by (auto simp: keeps_ok_def sink_end_def on_transport_def tracked_def dest!: end_content split: prod.splits)

lemma tracked_flush: "keeps_ok (tracked content flushed base) (stream_flush t)"
proof (unfold keeps_ok_def, intro allI impI)
  fix s s'
  assume s: "tracked content flushed base s" and f: "stream_flush t s = (Inr (), s')"
  show "tracked content flushed base s'"
  proof (cases "sink_written s = sink_flushed s")
    case True
    with s f show ?thesis by (simp add: stream_flush_def split: if_splits)
  next
    case False
    with f obtain w where w: "t_flush t (sink_transport s) = (Inr (), w)"
      "s' = s\<lparr>sink_flushed := sink_written s, sink_transport := w\<rparr>"
      by (auto simp: stream_flush_def on_transport_def split: if_splits prod.splits)
    with s tr.flush_content [OF w(1)] flush_flushed [OF w(1)] show ?thesis
      by (auto simp: tracked_def intro!: exI [of _ "length (content (sink_transport s))"])
  qed
qed

lemma tracked_commit: "keeps_ok (tracked content flushed base) (stream_commit_component t span enc deferred)"
proof (unfold keeps_ok_def, intro allI impI)
  fix s s'
  assume s: "tracked content flushed base s" and c: "stream_commit_component t span enc deferred s = (Inr (), s')"
  then obtain off bs where "commit_body t span enc deferred off bs (s\<lparr>sink_opening := None\<rparr>) = (Inr (), s')"
    by (auto simp: stream_commit_body split: option.splits)
  moreover have "tracked content flushed base (s\<lparr>sink_opening := None\<rparr>)" using s by (simp add: tracked_def)
  ultimately show "tracked content flushed base s'" using keeps_okD [OF keeps_ok_commit_body [OF tracked_put]] by blast
qed

lemma tracked_step: "keeps_ok (tracked content flushed base) (sink_step t c)"
proof (cases c)
  case CBegin
  then show ?thesis by (auto simp: keeps_ok_def tracked_def stream_begin_component_def split: if_splits)
next
  case CMark
  then show ?thesis by (auto simp: keeps_ok_def tracked_def stream_mark_component_root_def Let_def split: option.splits if_splits)
qed (simp_all add: tracked_put tracked_attribute tracked_boolean tracked_end tracked_flush tracked_commit)

lemma tracked_run: "keeps_ok (tracked content flushed base) (sink_run t cs)"
  by (induction cs) (auto intro: ok_intros tracked_step)

lemma tracked_on:
  "length (content w) \<le> flushed w \<Longrightarrow> tracked content flushed (length (content w)) (sink_on w)"
  by (auto simp: tracked_def sink_on_def intro!: exI [of _ "length (content w)"])

text \<open>When the counters agree, nothing is pending.\<close>

lemma tracked_nothing_pending:
  assumes "tracked content flushed base s" "sink_written s = sink_flushed s" "length (content (sink_transport s)) < 2 ^ 64"
  shows "length (content (sink_transport s)) \<le> flushed (sink_transport s)"
proof -
  let ?n = "length (content (sink_transport s))"
  obtain m where m: "sink_flushed s = of_nat (m - base)" "base \<le> m" "m \<le> flushed (sink_transport s)" "m \<le> ?n"
    using assms(1) by (auto simp: tracked_def)
  have "(of_nat (?n - base) :: u64) = of_nat (m - base)" using assms(1,2) m(1) by (simp add: tracked_def)
  moreover have "?n - base < 2 ^ 64" "m - base < 2 ^ 64" using assms(3) m(4) by linarith+
  ultimately have "?n - base = m - base" by (simp add: word_of_nat_eq_iff take_bit_nat_eq_self)
  with assms(1) m show ?thesis by (simp add: tracked_def)
qed

lemma flush_delivers:
  assumes "length (content w) \<le> flushed w" "sink_run t calls (sink_on w) = (Inr (), s)"
    "length (content (sink_transport s)) < 2 ^ 64" "stream_flush t s = (r, s')" "sink_opening s = None"
  shows "(r = Inr () \<longrightarrow> content (sink_transport s') = content (sink_transport s) \<and>
      length (content (sink_transport s')) \<le> flushed (sink_transport s')) \<and>
    (s' = s \<and> r = Inr () \<or> t_flush t (sink_transport s) = (r, sink_transport s'))"
proof (cases "sink_written s = sink_flushed s")
  case True
  have "tracked content flushed (length (content w)) s"
    using keeps_okD [OF tracked_run tracked_on [OF assms(1)] assms(2)] .
  from tracked_nothing_pending [OF this True assms(3)] show ?thesis
    using assms(4,5) True by (simp add: stream_flush_def)
next
  case False
  with assms(4,5) show ?thesis
    by (auto simp: stream_flush_def on_transport_def split: prod.splits dest: tr.flush_content flush_flushed)
qed

end

lemmas buffer_op_defs = buffer_ops_def bs_write_def bs_write_attribute_def bs_write_boolean_attribute_def bs_end_def
  bs_flush_def append_attribute_to_bytes_def append_boolean_attribute_to_bytes_def on_transport_def

interpretation buf: flushing_transport buffer_ops bs_bytes last_flush
  by unfold_locales (auto simp: buffer_op_defs attribute_text_def)

definition buffer_new :: buffer_sink where
  "buffer_new = \<lparr>bs_bytes = [], last_flush = 0\<rparr>"

section \<open>Properties\<close>



text \<open>
   Committing a held-back component opening writes its bytes once and in order, with
  the span marker in front and the deferral attributes exactly at the root offset.
\<close>

theorem stream_commit_text:
  assumes "sink_opening s = Some \<lparr>opening_bytes = bs, root_offset = Some off\<rparr>"
    and "stream_commit_component buffer_ops span enc deferred s = (Inr (), s')"
  shows "sink_opening s' = None \<and> bs_bytes (sink_transport s') = bs_bytes (sink_transport s) @
    bytes_of ((case span of None \<Rightarrow> [] | Some n \<Rightarrow> ''<!--ws:'' @ decimal (unat n) @ ''-->'') @ take off bs @
      (if deferred then '' data-ws'' @
         (case span of None \<Rightarrow> [] | Some n \<Rightarrow> attribute_text ''data-ws-span'' (decimal (unat n))) @
         (case enc of None \<Rightarrow> [] | Some n \<Rightarrow> attribute_text ''data-ws-enclosing'' (decimal (unat n)))
       else []) @ drop off bs)"
  using buf.commit_content [OF assms(2,1)] commit_closes [OF assms(2)] by simp

theorem stream_commit_text_witness:
  "\<exists>s'. stream_commit_component buffer_ops (Some 7) None True
     (snd (sink_run buffer_ops [CBegin, CPut ''<x-a'', CMark, CPut ''>''] (sink_on buffer_new))) = (Inr (), s') \<and>
   bs_bytes (sink_transport s') = bytes_of (''<!--ws:7--><x-a data-ws data-ws-span='' @ [CHR 0x22, CHR ''7'', CHR 0x22, CHR ''>''])"
proof -
  let ?s = "snd (sink_run buffer_ops [CBegin, CPut ''<x-a'', CMark, CPut ''>''] (sink_on buffer_new))"
  have o: "sink_opening ?s = Some \<lparr>opening_bytes = ''<x-a>'', root_offset = Some 4\<rparr>"
    "bs_bytes (sink_transport ?s) = []"
    by (simp_all add: sink_on_def buffer_new_def and_then_def act_ok_def sink_put_def stream_begin_component_def stream_mark_component_root_def buffer_op_defs)
  have "fst (stream_commit_component buffer_ops (Some 7) None True ?s) = Inr ()" by code_simp
  then obtain s' where s': "stream_commit_component buffer_ops (Some 7) None True ?s = (Inr (), s')"
    by (metis prod.collapse)
  have "decimal (unat (7 :: u32)) = ''7''" by code_simp
  then show ?thesis
    using stream_commit_text [OF o(1) s'] o(2) s' by (auto simp: attribute_text_def)
qed

end
