(* ===== verification/Style_Closures.thy ===== *)
theory Style_Closures
  imports Protocol "HOL-Library.List_Lexorder" "HOL-Library.Char_ord"
begin

text \<open>
  The compiled protocol (\<open>WebUiProtocol\<close> and its parts, \<open>gen_webui.rs\<close>) and the ordered style
  closures of \<open>crates/webui-protocol/src/lib.rs\<close>: which component style sheets a page root
  needs, and which resource delivers each of them in a bundled build.  The hash maps of the
  source are association lists in iteration order; lookups use \<^const>\<open>map_of\<close>.
\<close>

section \<open>The protocol\<close>

record component_data =
  cd_template :: string
  cd_css :: string
  cd_css_href :: string
  cd_template_json :: string
  cd_template_functions :: string
  cd_hydration_keys :: "string list"
  cd_navigation_keys :: "string list"
  cd_hydration_mode :: int
  cd_navigation_mode :: "int option"
  uses_shadow_dom :: bool
  cd_work_policy :: int

record style_closure =
  sc_component_tags :: "string list"
  sc_style_chunks :: "u32 list"

record style_chunk =
  chunk_name :: string
  chunk_css :: string
  chunk_css_href :: string
  chunk_component_tags :: "string list"

record client_fragment_data =
  cf_owner :: string
  cf_template_json :: string
  cf_template_functions :: string
  cf_dependencies :: "string list"
  cf_state_keys :: "string list"
  cf_state_mode :: "int option"
  cf_entry :: bool

record asset_style_preload =
  pre_root :: string
  pre_style_hrefs :: "string list"

record web_ui_protocol =
  p_fragments :: "(string \<times> fragment_list) list"
  p_tokens :: "string list"
  p_components :: "(string \<times> component_data) list"
  p_css_strategy :: int
  p_initial_state_strategy :: int
  p_module_preloads :: "string list"
  p_component_render_css :: string
  p_style_closures :: "(string \<times> style_closure) list"
  p_style_chunks :: "style_chunk list"
  p_asset_style_preloads :: "asset_style_preload list"
  p_build_id :: string
  p_client_fragments :: "(string \<times> client_fragment_data) list"
  p_asset_base :: string

datatype css_strategy_value = Link | Style | Module

definition css_try_from :: "int \<Rightarrow> css_strategy_value option" where
  "css_try_from n = (if n = 0 then Some Link else if n = 1 then Some Style else if n = 2 then Some Module else None)"

fun wire_name :: "css_strategy_value \<Rightarrow> string" where
  "wire_name Link = ''link''"
| "wire_name Style = ''style''"
| "wire_name Module = ''module''"

text \<open>The accessor generated for the enumeration field: an unknown value reads as the default.\<close>

definition css_strategy :: "web_ui_protocol \<Rightarrow> css_strategy_value" where
  "css_strategy p = (case css_try_from (p_css_strategy p) of Some s \<Rightarrow> s | None \<Rightarrow> Link)"

definition with_tokens :: "(string \<times> fragment_list) list \<Rightarrow> string list \<Rightarrow> web_ui_protocol" where
  "with_tokens fs toks = \<lparr>p_fragments = fs, p_tokens = toks, p_components = [], p_css_strategy = 0,
     p_initial_state_strategy = 0, p_module_preloads = [], p_component_render_css = [], p_style_closures = [],
     p_style_chunks = [], p_asset_style_preloads = [], p_build_id = [], p_client_fragments = [], p_asset_base = []\<rparr>"

definition protocol_new :: "(string \<times> fragment_list) list \<Rightarrow> web_ui_protocol" where
  "protocol_new fs = with_tokens fs []"

record client_template_payload =
  ct_id :: string
  ct_metadata :: string
  ct_functions :: string
  ct_legacy_html :: string

definition client_template :: "web_ui_protocol \<Rightarrow> string \<Rightarrow> client_template_payload option" where
  "client_template p i = (case map_of (p_components p) i of
     Some d \<Rightarrow> Some \<lparr>ct_id = i, ct_metadata = cd_template_json d, ct_functions = cd_template_functions d,
       ct_legacy_html = cd_template d\<rparr>
   | None \<Rightarrow> map_option (\<lambda>d. \<lparr>ct_id = i, ct_metadata = cf_template_json d, ct_functions = cf_template_functions d,
       ct_legacy_html = []\<rparr>) (map_of (p_client_fragments p) i))"

section \<open>Style closures\<close>

definition component_uses_shadow_dom :: "web_ui_protocol \<Rightarrow> string \<Rightarrow> bool" where
  "component_uses_shadow_dom p tag = (case map_of (p_components p) tag of Some c \<Rightarrow> uses_shadow_dom c | None \<Rightarrow> False)"

definition non_empty :: "string \<Rightarrow> string option" where
  "non_empty r = (if r \<noteq> [] then Some r else None)"

definition component_style_resource :: "web_ui_protocol \<Rightarrow> string \<Rightarrow> string option" where
  "component_style_resource p tag = (case map_of (p_components p) tag of
     None \<Rightarrow> None
   | Some c \<Rightarrow> non_empty (case css_strategy p of Link \<Rightarrow> cd_css_href c | _ \<Rightarrow> cd_css c))"

definition style_closure_of :: "web_ui_protocol \<Rightarrow> string \<Rightarrow> string list option" where
  "style_closure_of p rt = map_option sc_component_tags (map_of (p_style_closures p) rt)"

datatype closure_op = OpFragment string | OpComponent string

text \<open>What one fragment of a record puts on the work stack.\<close>

definition fragment_op :: "web_ui_fragment \<Rightarrow> closure_op option" where
  "fragment_op f = (case f of
     Some (FComponent c) \<Rightarrow> Some (OpComponent c)
   | Some (FForLoop l) \<Rightarrow> Some (OpFragment (for_fragment_id l))
   | Some (FIfCond i) \<Rightarrow> Some (OpFragment (if_fragment_id i))
   | Some (FAttribute a) \<Rightarrow> if attr_template a \<noteq> [] then Some (OpFragment (attr_template a)) else None
   | _ \<Rightarrow> None)"

record closure_state =
  cs_tags :: "string list"
  cs_seen :: "string set"
  cs_visited :: "string set"
  cs_work :: "closure_op list"

text \<open>
  One turn of the loop; the head of \<open>cs_work\<close> is the top of the stack, so pushing a record's
  operations in reverse leaves them in source order.
\<close>

definition closure_step :: "web_ui_protocol \<Rightarrow> closure_op \<Rightarrow> closure_op list \<Rightarrow> closure_state \<Rightarrow> closure_state" where
  "closure_step p op rest s = (case op of
     OpFragment fid \<Rightarrow>
       if fid \<in> cs_visited s then s\<lparr>cs_work := rest\<rparr>
       else (case map_of (p_fragments p) fid of
          None \<Rightarrow> s\<lparr>cs_visited := insert fid (cs_visited s), cs_work := rest\<rparr>
        | Some fl \<Rightarrow> s\<lparr>cs_visited := insert fid (cs_visited s), cs_work := List.map_filter fragment_op (fragments fl) @ rest\<rparr>)
   | OpComponent tag \<Rightarrow>
       if component_uses_shadow_dom p tag then s\<lparr>cs_work := rest\<rparr>
       else
         let s = (if component_style_resource p tag \<noteq> None \<and> tag \<notin> cs_seen s
                  then s\<lparr>cs_seen := insert tag (cs_seen s), cs_tags := cs_tags s @ [tag]\<rparr> else s)
         in s\<lparr>cs_work := OpFragment tag # rest\<rparr>)"

definition op_weight :: "closure_op \<Rightarrow> nat" where
  "op_weight op = (case op of OpFragment _ \<Rightarrow> 1 | OpComponent _ \<Rightarrow> 2)"

definition closure_measure :: "web_ui_protocol \<Rightarrow> closure_state \<Rightarrow> nat \<times> nat" where
  "closure_measure p s = (card (fst ` set (p_fragments p) - cs_visited s), sum_list (map op_weight (cs_work s)))"

lemma closure_step_decreases:
  assumes "cs_work s = op # rest"
  shows "(closure_measure p (closure_step p op rest s), closure_measure p s) \<in> less_than <*lex*> less_than"
proof (cases op)
  case (OpComponent tag)
  with assms show ?thesis by (auto simp: closure_measure_def closure_step_def op_weight_def Let_def)
next
  case (OpFragment fid)
  let ?K = "fst ` set (p_fragments p)"
  show ?thesis
  proof (cases "fid \<in> cs_visited s \<or> fid \<notin> ?K")
    case True
    then have "?K - insert fid (cs_visited s) = ?K - cs_visited s" by blast
    moreover have "fid \<in> cs_visited s \<or> map_of (p_fragments p) fid = None" using True by (auto simp: map_of_eq_None_iff)
    ultimately show ?thesis using assms OpFragment by (auto simp: closure_measure_def closure_step_def op_weight_def)
  next
    case False
    then have "?K - insert fid (cs_visited s) \<subset> ?K - cs_visited s" by blast
    then have "card (?K - insert fid (cs_visited s)) < card (?K - cs_visited s)" by (intro psubset_card_mono) simp_all
    moreover obtain fl where "map_of (p_fragments p) fid = Some fl"
      using False by (cases "map_of (p_fragments p) fid") (auto simp: map_of_eq_None_iff)
    ultimately show ?thesis using False OpFragment by (simp add: closure_measure_def closure_step_def)
  qed
qed

function closure_loop :: "web_ui_protocol \<Rightarrow> closure_state \<Rightarrow> closure_state" where
  "closure_loop p s = (case cs_work s of [] \<Rightarrow> s | op # rest \<Rightarrow> closure_loop p (closure_step p op rest s))"
  by pat_completeness auto
termination
  by (relation "inv_image (less_than <*lex*> less_than) (\<lambda>(p, s). closure_measure p s)")
    (auto simp: closure_step_decreases)

declare closure_loop.simps [simp del]

definition closure_start :: "web_ui_protocol \<Rightarrow> string \<Rightarrow> closure_state" where
  "closure_start p rt =
     (if component_style_resource p rt \<noteq> None
      then \<lparr>cs_tags = [rt], cs_seen = {rt}, cs_visited = {}, cs_work = [OpFragment rt]\<rparr>
      else \<lparr>cs_tags = [], cs_seen = {}, cs_visited = {}, cs_work = [OpFragment rt]\<rparr>)"

definition build_style_closure :: "web_ui_protocol \<Rightarrow> string \<Rightarrow> style_closure" where
  "build_style_closure p rt =
     \<lparr>sc_component_tags = cs_tags (closure_loop p (closure_start p rt)), sc_style_chunks = []\<rparr>"

text \<open>
  \<open>populate_style_closures\<close>: the roots in byte order without duplicates, each with its closure,
  or with an empty one when no component has a style resource; planned chunks are dropped.
\<close>

definition has_style_resources :: "web_ui_protocol \<Rightarrow> bool" where
  "has_style_resources p = list_ex
     (\<lambda>(_, c). (case css_strategy p of Link \<Rightarrow> cd_css_href c | _ \<Rightarrow> cd_css c) \<noteq> []) (p_components p)"

definition closure_roots :: "web_ui_protocol \<Rightarrow> string list \<Rightarrow> string list" where
  "closure_roots p entry_fragments =
     remdups_adj (sort (entry_fragments @ filter (\<lambda>tag. map_of (p_fragments p) tag \<noteq> None) (map fst (p_components p))))"

definition populate_style_closures :: "web_ui_protocol \<Rightarrow> string list \<Rightarrow> web_ui_protocol" where
  "populate_style_closures p entry_fragments =
     (let roots = closure_roots p entry_fragments; p = p\<lparr>p_style_chunks := []\<rparr> in
      if \<not> has_style_resources p
      then p\<lparr>p_style_closures := map (\<lambda>r. (r, \<lparr>sc_component_tags = [], sc_style_chunks = []\<rparr>)) roots\<rparr>
      else p\<lparr>p_style_closures := map (\<lambda>r. (r, build_style_closure p r)) roots\<rparr>)"

section \<open>Bundled chunks\<close>

definition style_chunk_resource :: "web_ui_protocol \<Rightarrow> u32 \<Rightarrow> (string \<times> string) option" where
  "style_chunk_resource p chunk =
     (if unat chunk < length (p_style_chunks p)
      then let c = p_style_chunks p ! unat chunk
           in map_option (\<lambda>r. (chunk_name c, r))
                (non_empty (case css_strategy p of Link \<Rightarrow> chunk_css_href c | _ \<Rightarrow> chunk_css c))
      else None)"

definition style_chunk_members :: "web_ui_protocol \<Rightarrow> u32 \<Rightarrow> string list option" where
  "style_chunk_members p chunk =
     (if unat chunk < length (p_style_chunks p) then Some (chunk_component_tags (p_style_chunks p ! unat chunk)) else None)"

text \<open>
  Later insertions replace earlier ones; the loop ends at the first position that is no \<open>u32\<close>.
\<close>

fun chunk_index_loop :: "nat \<Rightarrow> style_chunk list \<Rightarrow> (string \<rightharpoonup> u32) \<Rightarrow> (string \<rightharpoonup> u32)" where
  "chunk_index_loop position [] index = index"
| "chunk_index_loop position (chunk # chunks) index =
     (if position \<ge> 2 ^ 32 then index
      else chunk_index_loop (Suc position) chunks
        (foldl (\<lambda>m tag. m(tag \<mapsto> of_nat position)) index (chunk_component_tags chunk)))"

definition style_chunk_index :: "web_ui_protocol \<Rightarrow> (string \<rightharpoonup> u32)" where
  "style_chunk_index p = chunk_index_loop 0 (p_style_chunks p) Map.empty"

definition style_closure_chunks :: "web_ui_protocol \<Rightarrow> string \<Rightarrow> u32 list option" where
  "style_closure_chunks p rt = map_option sc_style_chunks (map_of (p_style_closures p) rt)"

definition style_closure_unit_count :: "style_closure \<Rightarrow> nat" where
  "style_closure_unit_count c =
     (if sc_style_chunks c = [] then length (sc_component_tags c) else length (sc_style_chunks c))"

record style_closure_unit_value =
  unit_name :: string
  unit_resource :: "string option"
  unit_chunk :: "u32 option"

fun first_position :: "'a \<Rightarrow> 'a list \<Rightarrow> nat option" where
  "first_position x [] = None"
| "first_position x (y # ys) = (if x = y then Some 0 else map_option Suc (first_position x ys))"

text \<open>
  The chunk that covers position \<open>i\<close> of a closure the bundler did not treat as a root, if the
  chunk's whole membership stands around it.
\<close>

definition covering_chunk ::
  "web_ui_protocol \<Rightarrow> string list \<Rightarrow> (string \<rightharpoonup> u32) \<Rightarrow> nat \<Rightarrow> string \<Rightarrow> u32 option" where
  "covering_chunk p tags chunk_index i tag = (case chunk_index tag of
     None \<Rightarrow> None
   | Some index \<Rightarrow> (case style_chunk_members p index of
       None \<Rightarrow> None
     | Some members \<Rightarrow> (case first_position tag members of
         None \<Rightarrow> None
       | Some k \<Rightarrow>
           if i < k \<or> i - k + length members > length tags then None
           else if take (length members) (drop (i - k) tags) \<noteq> members then None
           else Some index)))"

definition chunk_unit :: "web_ui_protocol \<Rightarrow> u32 \<Rightarrow> style_closure_unit_value option" where
  "chunk_unit p chunk =
     (if unat chunk < length (p_style_chunks p)
      then Some \<lparr>unit_name = chunk_name (p_style_chunks p ! unat chunk),
             unit_resource = map_option snd (style_chunk_resource p chunk), unit_chunk = Some chunk\<rparr>
      else None)"

definition style_closure_unit ::
  "web_ui_protocol \<Rightarrow> style_closure \<Rightarrow> (string \<rightharpoonup> u32) \<Rightarrow> nat \<Rightarrow> style_closure_unit_value option" where
  "style_closure_unit p c chunk_index i =
     (if sc_style_chunks c = [] then
        (if i < length (sc_component_tags c) then
           let tag = sc_component_tags c ! i in
           (case covering_chunk p (sc_component_tags c) chunk_index i tag of
              None \<Rightarrow> Some \<lparr>unit_name = tag, unit_resource = component_style_resource p tag, unit_chunk = None\<rparr>
            | Some chunk \<Rightarrow> chunk_unit p chunk)
         else None)
      else if i < length (sc_style_chunks c) then chunk_unit p (sc_style_chunks c ! i) else None)"

section \<open>What a closure contains\<close>

definition frag_ops :: "web_ui_protocol \<Rightarrow> string \<Rightarrow> closure_op set" where
  "frag_ops p f = (case map_of (p_fragments p) f of
     None \<Rightarrow> {}
   | Some fl \<Rightarrow> {op. \<exists>g \<in> set (fragments fl). fragment_op g = Some op})"

text \<open>
  The records reached from a root without entering a component that has a shadow root, and
  the components met on the way.
\<close>

inductive light_reach :: "web_ui_protocol \<Rightarrow> string \<Rightarrow> string \<Rightarrow> bool" for p rt where
  start: "light_reach p rt rt"
| nested: "light_reach p rt f \<Longrightarrow> OpFragment g \<in> frag_ops p f \<Longrightarrow> light_reach p rt g"
| component: "light_reach p rt f \<Longrightarrow> OpComponent t \<in> frag_ops p f \<Longrightarrow> \<not> component_uses_shadow_dom p t \<Longrightarrow> light_reach p rt t"

definition light_component :: "web_ui_protocol \<Rightarrow> string \<Rightarrow> string \<Rightarrow> bool" where
  "light_component p rt t \<longleftrightarrow>
     (\<exists>f. light_reach p rt f \<and> OpComponent t \<in> frag_ops p f) \<and> \<not> component_uses_shadow_dom p t"

abbreviation styled :: "web_ui_protocol \<Rightarrow> string \<Rightarrow> bool" where
  "styled p t \<equiv> component_style_resource p t \<noteq> None"

definition covered :: "web_ui_protocol \<Rightarrow> closure_state \<Rightarrow> closure_op \<Rightarrow> bool" where
  "covered p s op \<longleftrightarrow> op \<in> set (cs_work s) \<or> (case op of
     OpFragment f \<Rightarrow> f \<in> cs_visited s
   | OpComponent t \<Rightarrow> component_uses_shadow_dom p t \<or>
       ((styled p t \<longrightarrow> t \<in> cs_seen s) \<and> (t \<in> cs_visited s \<or> OpFragment t \<in> set (cs_work s))))"

definition reached_op :: "web_ui_protocol \<Rightarrow> string \<Rightarrow> closure_op \<Rightarrow> bool" where
  "reached_op p rt op \<longleftrightarrow> (case op of
     OpFragment f \<Rightarrow> light_reach p rt f
   | OpComponent t \<Rightarrow> \<exists>f. light_reach p rt f \<and> OpComponent t \<in> frag_ops p f)"

definition closure_sound :: "web_ui_protocol \<Rightarrow> string \<Rightarrow> closure_state \<Rightarrow> bool" where
  "closure_sound p rt s \<longleftrightarrow>
     distinct (cs_tags s) \<and> set (cs_tags s) = cs_seen s \<and>
     (\<forall>t \<in> cs_seen s. styled p t \<and> (t = rt \<or> light_component p rt t)) \<and>
     (\<forall>f \<in> cs_visited s. light_reach p rt f) \<and> (\<forall>op \<in> set (cs_work s). reached_op p rt op)"

definition closure_complete :: "web_ui_protocol \<Rightarrow> string \<Rightarrow> closure_state \<Rightarrow> bool" where
  "closure_complete p rt s \<longleftrightarrow>
     (\<forall>f \<in> cs_visited s. \<forall>op \<in> frag_ops p f. covered p s op) \<and> covered p s (OpFragment rt) \<and>
     (styled p rt \<longrightarrow> rt \<in> cs_seen s \<and> cs_tags s \<noteq> [] \<and> hd (cs_tags s) = rt)"

lemma set_map_filter_ops: "set (List.map_filter fragment_op fs) = {op. \<exists>g \<in> set fs. fragment_op g = Some op}"
  by (induction fs) (auto simp: map_filter_simps split: option.splits)

lemma frag_ops_Some: "map_of (p_fragments p) f = Some fl \<Longrightarrow> set (List.map_filter fragment_op (fragments fl)) = frag_ops p f"
  by (simp add: frag_ops_def set_map_filter_ops)

lemma frag_ops_None: "map_of (p_fragments p) f = None \<Longrightarrow> frag_ops p f = {}"
  by (simp add: frag_ops_def)

lemma reached_ops: "light_reach p rt f \<Longrightarrow> op \<in> frag_ops p f \<Longrightarrow> reached_op p rt op"
  by (cases op) (auto simp: reached_op_def intro: light_reach.nested)

lemma closure_step_sound:
  assumes "closure_sound p rt s" "cs_work s = op # rest"
  shows "closure_sound p rt (closure_step p op rest s)"
proof (cases op)
  case (OpFragment f)
  then have "light_reach p rt f" using assms by (auto simp: closure_sound_def reached_op_def)
  moreover have "reached_op p rt o'" if "o' \<in> frag_ops p f" for o' using reached_ops [OF calculation that] .
  ultimately show ?thesis using assms OpFragment
    by (cases "map_of (p_fragments p) f") (auto simp: closure_sound_def closure_step_def frag_ops_Some)
next
  case (OpComponent t)
  then have "\<exists>f. light_reach p rt f \<and> OpComponent t \<in> frag_ops p f" using assms by (auto simp: closure_sound_def reached_op_def)
  moreover from this have "light_component p rt t \<and> light_reach p rt t" if "\<not> component_uses_shadow_dom p t"
    using that by (auto simp: light_component_def intro: light_reach.component)
  ultimately show ?thesis using assms OpComponent
    by (auto simp: closure_sound_def closure_step_def reached_op_def Let_def)
qed

lemma covered_step:
  assumes "covered p s o'" "cs_work s = op # rest"
  shows "covered p (closure_step p op rest s) o'"
  using assms by (auto simp: covered_def closure_step_def Let_def split: closure_op.splits option.splits)

lemma closure_step_complete:
  assumes "closure_complete p rt s" "cs_work s = op # rest"
  shows "closure_complete p rt (closure_step p op rest s)"
proof -
  let ?s = "closure_step p op rest s"
  have "covered p ?s o'" if f: "f \<in> cs_visited ?s" and o': "o' \<in> frag_ops p f" for f o'
  proof (cases "f \<in> cs_visited s")
    case True
    with assms o' show ?thesis by (auto simp: closure_complete_def intro: covered_step)
  next
    case False
    with f have op: "op = OpFragment f"
      by (auto simp: closure_step_def Let_def split: closure_op.splits option.splits if_splits)
    with o' obtain fl where fl: "map_of (p_fragments p) f = Some fl" by (cases "map_of (p_fragments p) f") (auto simp: frag_ops_None)
    have "o' \<in> set (cs_work ?s)" using fl op False o' by (simp add: closure_step_def frag_ops_Some)
    then show ?thesis by (simp add: covered_def)
  qed
  moreover have "covered p ?s (OpFragment rt)" using assms by (auto simp: closure_complete_def intro: covered_step)
  moreover have "styled p rt \<longrightarrow> rt \<in> cs_seen ?s \<and> cs_tags ?s \<noteq> [] \<and> hd (cs_tags ?s) = rt"
    using assms(1) by (auto simp: closure_complete_def closure_step_def Let_def split: closure_op.splits option.splits)
  ultimately show ?thesis by (auto simp: closure_complete_def)
qed

lemma closure_loop_invariant:
  "closure_sound p rt s \<Longrightarrow> closure_complete p rt s \<Longrightarrow>
   closure_sound p rt (closure_loop p s) \<and> closure_complete p rt (closure_loop p s) \<and> cs_work (closure_loop p s) = []"
proof (induction p s rule: closure_loop.induct)
  case (1 p s)
  show ?case
  proof (cases "cs_work s")
    case Nil
    then show ?thesis using "1.prems" by (simp add: closure_loop.simps [of p s])
  next
    case (Cons op rest)
    with "1.IH" [OF Cons closure_step_sound [OF "1.prems"(1) Cons] closure_step_complete [OF "1.prems"(2) Cons]]
    show ?thesis by (simp add: closure_loop.simps [of p s])
  qed
qed

lemma closure_start_invariant: "closure_sound p rt (closure_start p rt) \<and> closure_complete p rt (closure_start p rt)"
  by (auto simp: closure_sound_def closure_complete_def closure_start_def covered_def reached_op_def intro: light_reach.start)

lemma light_reach_visited:
  assumes "closure_complete p rt s" "cs_work s = []" "light_reach p rt f"
  shows "f \<in> cs_visited s"
  using assms(3)
proof induction
  case start
  then show ?case using assms by (simp add: closure_complete_def covered_def)
next
  case (nested f g)
  then have "covered p s (OpFragment g)" using assms(1) by (auto simp: closure_complete_def)
  then show ?case using assms(2) by (simp add: covered_def)
next
  case (component f t)
  then have "covered p s (OpComponent t)" using assms(1) by (auto simp: closure_complete_def)
  then show ?case using assms(2) component by (simp add: covered_def)
qed

lemma build_style_closure_spec:
  "distinct (sc_component_tags (build_style_closure p rt)) \<and>
   set (sc_component_tags (build_style_closure p rt)) = {t. styled p t \<and> (t = rt \<or> light_component p rt t)} \<and>
   (styled p rt \<longrightarrow> hd (sc_component_tags (build_style_closure p rt)) = rt)"
proof -
  define s where "s = closure_loop p (closure_start p rt)"
  have inv: "closure_sound p rt s" "closure_complete p rt s" "cs_work s = []"
    using closure_loop_invariant [of p rt "closure_start p rt"] closure_start_invariant [of p rt] by (simp_all add: s_def)
  have found: "t \<in> cs_seen s" if "styled p t" "light_component p rt t" for t
  proof -
    from that(2) obtain f where "light_reach p rt f" "OpComponent t \<in> frag_ops p f" "\<not> component_uses_shadow_dom p t"
      by (auto simp: light_component_def)
    with light_reach_visited [OF inv(2,3)] inv(2) have "covered p s (OpComponent t)" by (auto simp: closure_complete_def)
    with that(1) inv(3) \<open>\<not> component_uses_shadow_dom p t\<close> show ?thesis by (simp add: covered_def)
  qed
  have tags: "sc_component_tags (build_style_closure p rt) = cs_tags s" by (simp add: build_style_closure_def s_def)
  have sound: "distinct (cs_tags s)" "set (cs_tags s) = cs_seen s"
    "\<forall>t \<in> cs_seen s. styled p t \<and> (t = rt \<or> light_component p rt t)" using inv(1) by (simp_all add: closure_sound_def)
  have first: "styled p rt \<longrightarrow> rt \<in> cs_seen s \<and> hd (cs_tags s) = rt" using inv(2) by (simp add: closure_complete_def)
  have "cs_seen s = {t. styled p t \<and> (t = rt \<or> light_component p rt t)}"
  proof (intro equalityI subsetI)
    fix t
    assume "t \<in> {t. styled p t \<and> (t = rt \<or> light_component p rt t)}"
    then show "t \<in> cs_seen s" using found first by auto
  qed (use sound(3) in auto)
  then show ?thesis unfolding tags sound(2) using sound(1) first by (intro conjI impI) simp_all
qed

text \<open>The planned chunks play no part in a closure.\<close>

lemma css_strategy_drop_chunks [simp]: "css_strategy (p\<lparr>p_style_chunks := cs\<rparr>) = css_strategy p"
  by (simp add: css_strategy_def)

lemma drop_chunks [simp]:
  "component_style_resource (p\<lparr>p_style_chunks := cs\<rparr>) = component_style_resource p"
  "component_uses_shadow_dom (p\<lparr>p_style_chunks := cs\<rparr>) = component_uses_shadow_dom p"
  "frag_ops (p\<lparr>p_style_chunks := cs\<rparr>) = frag_ops p"
  "has_style_resources (p\<lparr>p_style_chunks := cs\<rparr>) = has_style_resources p"
  by (simp_all add: fun_eq_iff component_style_resource_def component_uses_shadow_dom_def frag_ops_def
      has_style_resources_def split: option.split)

lemma light_reach_drop_chunks: "light_reach (p\<lparr>p_style_chunks := cs\<rparr>) rt f \<longleftrightarrow> light_reach p rt f"
proof
  show "light_reach p rt f" if "light_reach (p\<lparr>p_style_chunks := cs\<rparr>) rt f"
    using that by induction (auto intro: light_reach.intros)
  show "light_reach (p\<lparr>p_style_chunks := cs\<rparr>) rt f" if "light_reach p rt f"
    using that by induction (auto intro: light_reach.start light_reach.nested [of _ rt] light_reach.component [of _ rt])
qed

lemma light_component_drop_chunks [simp]: "light_component (p\<lparr>p_style_chunks := cs\<rparr>) rt t \<longleftrightarrow> light_component p rt t"
  by (simp add: light_component_def light_reach_drop_chunks)

lemma no_style_resources: "\<not> has_style_resources p \<Longrightarrow> component_style_resource p t = None"
proof -
  assume no: "\<not> has_style_resources p"
  have "(case css_strategy p of Link \<Rightarrow> cd_css_href c | _ \<Rightarrow> cd_css c) = []" if "map_of (p_components p) t = Some c" for c
    using no map_of_SomeD [OF that] by (auto simp: has_style_resources_def list_ex_iff)
  then show ?thesis by (auto simp: component_style_resource_def non_empty_def split: option.splits)
qed

lemma closure_roots_set:
  "set (closure_roots p entries) = set entries \<union> {t \<in> fst ` set (p_components p). t \<in> fst ` set (p_fragments p)}"
  by (auto simp: closure_roots_def map_of_eq_None_iff)

section \<open>What a bundled build delivers\<close>

lemma first_position_Some: "first_position x ys = Some k \<longleftrightarrow> k < length ys \<and> ys ! k = x \<and> x \<notin> set (take k ys)"
proof (induction ys arbitrary: k)
  case (Cons y ys)
  then show ?case by (cases k) auto
qed simp

lemma first_position_nth: "distinct ys \<Longrightarrow> k < length ys \<Longrightarrow> first_position (ys ! k) ys = Some k"
  by (auto simp: first_position_Some in_set_conv_nth nth_eq_iff_index_eq)

lemma foldl_upd: "foldl (\<lambda>m tag. m(tag \<mapsto> v)) m ts x = (if x \<in> set ts then Some v else m x)"
  by (induction ts arbitrary: m) auto

lemma chunk_index_loop_other:
  "x \<notin> set (concat (map chunk_component_tags chunks)) \<Longrightarrow> chunk_index_loop i chunks m x = m x"
  by (induction chunks arbitrary: i m) (auto simp: foldl_upd)

lemma chunk_index_loop_member:
  assumes "distinct (concat (map chunk_component_tags chunks))" "i + length chunks \<le> 2 ^ 32"
    "j < length chunks" "x \<in> set (chunk_component_tags (chunks ! j))"
  shows "chunk_index_loop i chunks m x = Some (of_nat (i + j))"
  using assms
proof (induction chunks arbitrary: i j m)
  case (Cons c chunks)
  show ?case
  proof (cases j)
    case 0
    with Cons.prems have "x \<in> set (chunk_component_tags c)" "x \<notin> set (concat (map chunk_component_tags chunks))" by auto
    with Cons.prems 0 chunk_index_loop_other [OF this(2), of "Suc i"] show ?thesis by (simp add: foldl_upd)
  next
    case (Suc j')
    with Cons.prems Cons.IH [of "Suc i" j'] show ?thesis by simp
  qed
qed simp

lemma covering_chunk_run:
  assumes chunks: "distinct (concat (map chunk_component_tags (p_style_chunks p)))" "length (p_style_chunks p) \<le> 2 ^ 32"
    and cov: "covering_chunk p tags (style_chunk_index p) i (tags ! i) = Some ch"
    and i: "i < length tags"
  shows "\<exists>start members. style_chunk_members p ch = Some members \<and> start \<le> i \<and> i < start + length members \<and>
    start + length members \<le> length tags \<and> take (length members) (drop start tags) = members \<and>
    (\<forall>j \<in> {start ..< start + length members}. covering_chunk p tags (style_chunk_index p) j (tags ! j) = Some ch)"
proof -
  obtain index members k where idx: "style_chunk_index p (tags ! i) = Some index"
    and mem: "style_chunk_members p index = Some members" and pos: "first_position (tags ! i) members = Some k"
    and fit: "k \<le> i" "i - k + length members \<le> length tags" "take (length members) (drop (i - k) tags) = members"
    and ch: "ch = index"
    using cov by (auto simp: covering_chunk_def split: option.splits if_splits)
  have lt: "unat index < length (p_style_chunks p)" and ms: "members = chunk_component_tags (p_style_chunks p ! unat index)"
    using mem by (auto simp: style_chunk_members_def split: if_splits)
  have k: "k < length members" using pos by (simp add: first_position_Some)
  have nth: "tags ! (i - k + l) = members ! l" if "l < length members" for l
  proof -
    have "members ! l = take (length members) (drop (i - k) tags) ! l" using fit(3) by simp
    then show ?thesis using that fit(2) by simp
  qed
  have dist: "distinct members" using chunks(1) lt ms by (simp add: distinct_concat_iff)
  have "covering_chunk p tags (style_chunk_index p) j (tags ! j) = Some ch"
    if j: "j \<in> {i - k ..< i - k + length members}" for j
  proof -
    obtain l where l: "j = i - k + l" "l < length members" using j by (metis atLeastLessThan_iff le_Suc_ex nat_add_left_cancel_less)
    then have tj: "tags ! j = members ! l" using nth by simp
    have "members ! l \<in> set (chunk_component_tags (p_style_chunks p ! unat index))" using l(2) ms by simp
    from chunk_index_loop_member [OF chunks(1) _ lt this, of 0 Map.empty] chunks(2)
    have "style_chunk_index p (tags ! j) = Some index" by (simp add: style_chunk_index_def tj)
    moreover have "first_position (members ! l) members = Some l" using dist l(2) by (rule first_position_nth)
    ultimately show ?thesis using mem fit l tj by (simp add: covering_chunk_def ch)
  qed
  then show ?thesis using mem ch fit k by (intro exI [of _ "i - k"] exI [of _ members]) auto
qed

definition sample_component :: "string \<Rightarrow> component_data" where
  "sample_component href = \<lparr>cd_template = [], cd_css = [], cd_css_href = href, cd_template_json = [], cd_template_functions = [],
     cd_hydration_keys = [], cd_navigation_keys = [], cd_hydration_mode = 0, cd_navigation_mode = None,
     uses_shadow_dom = False, cd_work_policy = 0\<rparr>"

definition sample_protocol :: web_ui_protocol where
  "sample_protocol = (protocol_new
     [(''index'', \<lparr>fragments = [frag_raw ''<main>'', frag_component ''x-card''], contains_boundary = False\<rparr>),
      (''x-card'', \<lparr>fragments = [frag_component ''x-icon''], contains_boundary = False\<rparr>)])
     \<lparr>p_components := [(''x-card'', sample_component ''card.css''), (''x-icon'', sample_component ''icon.css'')],
      p_style_chunks := [\<lparr>chunk_name = ''c0'', chunk_css = [], chunk_css_href = ''c0.css'',
        chunk_component_tags = [''x-card'', ''x-icon'']\<rparr>]\<rparr>"

section \<open>Properties\<close>

text \<open>
  C15.  Style closures are complete and minimal: after population every entry fragment and
  every compiled component has a closure, which lists without duplicates exactly the
  components with a style resource among the root itself and the components reached from it
  through loops, conditions, attribute templates and components without a shadow root; a
  styled root comes first.  The traversal terminates on every protocol, cyclic ones included.
\<close>

theorem style_closures_exact:
  "rt \<in> set entries \<union> {t \<in> fst ` set (p_components p). t \<in> fst ` set (p_fragments p)} \<Longrightarrow>
   \<exists>tags. style_closure_of (populate_style_closures p entries) rt = Some tags \<and> distinct tags \<and>
     set tags = {t. component_style_resource p t \<noteq> None \<and> (t = rt \<or> light_component p rt t)} \<and>
     (component_style_resource p rt \<noteq> None \<longrightarrow> hd tags = rt)"
proof -
  assume "rt \<in> set entries \<union> {t \<in> fst ` set (p_components p). t \<in> fst ` set (p_fragments p)}"
  then have rt: "rt \<in> set (closure_roots p entries)" by (simp add: closure_roots_set)
  have look: "map_of (map (\<lambda>r. (r, f r)) rs) rt = Some (f rt)" if "rt \<in> set rs" for rs and f :: "string \<Rightarrow> style_closure"
    using that by (induction rs) auto
  show ?thesis
  proof (cases "has_style_resources p")
    case False
    then have "style_closure_of (populate_style_closures p entries) rt = Some []"
      using look [OF rt] by (simp add: populate_style_closures_def style_closure_of_def Let_def)
    with no_style_resources [OF False] show ?thesis by simp
  next
    case True
    let ?p = "p\<lparr>p_style_chunks := []\<rparr>"
    have "style_closure_of (populate_style_closures p entries) rt = Some (sc_component_tags (build_style_closure ?p rt))"
      using True look [OF rt] by (simp add: populate_style_closures_def style_closure_of_def Let_def)
    with build_style_closure_spec [of ?p rt] show ?thesis by simp
  qed
qed

theorem style_closures_exact_witness:
  "\<exists>tags. style_closure_of (populate_style_closures sample_protocol [''index'']) ''index'' = Some tags \<and> ''x-icon'' \<in> set tags"
proof -
  have "light_reach sample_protocol ''index'' ''x-card''"
    by (rule light_reach.component [OF light_reach.start])
      (simp_all add: sample_protocol_def protocol_new_def with_tokens_def frag_ops_def fragment_op_def frag_component_def
        component_uses_shadow_dom_def sample_component_def)
  moreover have "OpComponent ''x-icon'' \<in> frag_ops sample_protocol ''x-card''"
    by (simp add: sample_protocol_def protocol_new_def with_tokens_def frag_ops_def fragment_op_def frag_component_def)
  moreover have "\<not> component_uses_shadow_dom sample_protocol ''x-icon''" "component_style_resource sample_protocol ''x-icon'' \<noteq> None"
    by (simp_all add: sample_protocol_def protocol_new_def with_tokens_def component_uses_shadow_dom_def
        component_style_resource_def css_strategy_def css_try_from_def non_empty_def sample_component_def)
  ultimately have "''x-icon'' \<in> {t. component_style_resource sample_protocol t \<noteq> None \<and>
      (t = ''index'' \<or> light_component sample_protocol ''index'' t)}"
    by (auto simp: light_component_def)
  with style_closures_exact [of "''index''" "[''index'']" sample_protocol] show ?thesis by auto
qed

text \<open>
  C38.  A bundled build delivers a closure without losing or reordering style sheets: when a
  component belongs to one chunk at most, every position of a closure that was not planned as
  a bundle root resolves to a unit; a component outside the chunks, or whose chunk is not
  wholly present, is delivered by its own resource, and a chunk is used only where its whole
  membership stands in the closure in order, and then for each of these positions.
\<close>

theorem style_units_deliver_closure:
  assumes "distinct (concat (map chunk_component_tags (p_style_chunks p)))" "length (p_style_chunks p) \<le> 2 ^ 32"
    "sc_style_chunks c = []" "i < length (sc_component_tags c)"
  shows "\<exists>u. style_closure_unit p c (style_chunk_index p) i = Some u \<and>
    (case unit_chunk u of
       None \<Rightarrow> unit_name u = sc_component_tags c ! i \<and> unit_resource u = component_style_resource p (sc_component_tags c ! i)
     | Some ch \<Rightarrow> \<exists>start members. style_chunk_members p ch = Some members \<and> start \<le> i \<and> i < start + length members \<and>
         take (length members) (drop start (sc_component_tags c)) = members \<and>
         (\<forall>j \<in> {start ..< start + length members}. style_closure_unit p c (style_chunk_index p) j = Some u))"
proof (cases "covering_chunk p (sc_component_tags c) (style_chunk_index p) i (sc_component_tags c ! i)")
  case None
  with assms show ?thesis by (simp add: style_closure_unit_def Let_def)
next
  case (Some ch)
  from covering_chunk_run [OF assms(1,2) Some assms(4)] obtain start members where
    run: "style_chunk_members p ch = Some members" "start \<le> i" "i < start + length members"
      "start + length members \<le> length (sc_component_tags c)" "take (length members) (drop start (sc_component_tags c)) = members"
    and same: "\<forall>j \<in> {start ..< start + length members}.
      covering_chunk p (sc_component_tags c) (style_chunk_index p) j (sc_component_tags c ! j) = Some ch" by blast
  have lt: "unat ch < length (p_style_chunks p)" using run(1) by (simp add: style_chunk_members_def split: if_splits)
  then obtain u where u: "chunk_unit p ch = Some u" "unit_chunk u = Some ch" by (simp add: chunk_unit_def)
  have "style_closure_unit p c (style_chunk_index p) j = Some u" if "j \<in> {start ..< start + length members}" for j
    using that same u run(4) assms(3) by (simp add: style_closure_unit_def Let_def)
  then show ?thesis using run u(2) by (intro exI [of _ u]) auto
qed

theorem style_units_deliver_closure_witness:
  "\<exists>u. style_closure_unit sample_protocol \<lparr>sc_component_tags = [''index'', ''x-card'', ''x-icon''], sc_style_chunks = []\<rparr>
     (style_chunk_index sample_protocol) 1 = Some u \<and> unit_chunk u = Some 0"
proof -
  let ?c = "\<lparr>sc_component_tags = [''index'', ''x-card'', ''x-icon''], sc_style_chunks = []\<rparr>"
  have u: "map_option unit_chunk (style_closure_unit sample_protocol ?c (style_chunk_index sample_protocol) 1) = Some (Some 0)"
    by (simp add: style_closure_unit_def covering_chunk_def style_chunk_index_def style_chunk_members_def chunk_unit_def
        sample_protocol_def protocol_new_def with_tokens_def Let_def)
  have d: "distinct (concat (map chunk_component_tags (p_style_chunks sample_protocol)))" by code_simp
  have l: "length (p_style_chunks sample_protocol) \<le> 2 ^ 32" by (simp add: sample_protocol_def)
  obtain v where "style_closure_unit sample_protocol ?c (style_chunk_index sample_protocol) 1 = Some v"
    using style_units_deliver_closure [OF d l, of ?c 1] by auto
  with u show ?thesis by simp
qed

end
