(* ===== verification/Asset_Base.thy ===== *)
theory Asset_Base
  imports Rust_Str
begin

text \<open>
  The public asset base (\<open>crates/webui-protocol/src/asset_base.rs\<close>): which prefixes may be put
  in front of the asset paths the renderer emits.  The error keeps the value's first
  characters in the source; here it is the problem.
\<close>

datatype asset_base_problem_value = ABEmpty | UnsafeCharacter | QueryOrFragment | UnsupportedUrl | MissingTrailingSlash

text \<open>\<open>char::is_whitespace\<close> and \<open>char::is_control\<close>, by code point.\<close>

definition is_whitespace :: "nat \<Rightarrow> bool" where
  "is_whitespace c \<longleftrightarrow> (9 \<le> c \<and> c \<le> 13) \<or> c \<in> {32, 0x85, 0xa0, 0x1680, 0x2028, 0x2029, 0x202f, 0x205f, 0x3000} \<or>
     (0x2000 \<le> c \<and> c \<le> 0x200a)"

definition is_control :: "nat \<Rightarrow> bool" where
  "is_control c \<longleftrightarrow> c < 32 \<or> (127 \<le> c \<and> c < 160)"

definition unsafe_char :: "nat \<Rightarrow> bool" where
  "unsafe_char c \<longleftrightarrow> is_whitespace c \<or> is_control c \<or> c \<in> {34, 39, 60, 62, 92}"

text \<open>\<open>base.find([':', '/'])\<close>: the text before the first of the two and the text from it on.\<close>

definition before_colon_slash :: "string \<Rightarrow> string" where
  "before_colon_slash base = takeWhile (\<lambda>c. c \<noteq> CHR '':'' \<and> c \<noteq> CHR ''/'') base"

definition from_colon_slash :: "string \<Rightarrow> string" where
  "from_colon_slash base = dropWhile (\<lambda>c. c \<noteq> CHR '':'' \<and> c \<noteq> CHR ''/'') base"

definition lower_eq :: "string \<Rightarrow> string \<Rightarrow> bool" where
  "lower_eq a b \<longleftrightarrow> map (to_ascii_lower \<circ> of_char) a = map (to_ascii_lower \<circ> of_char) b"

definition has_supported_form :: "string \<Rightarrow> bool" where
  "has_supported_form base =
     (let scheme = before_colon_slash base in
      case from_colon_slash base of
        c # after \<Rightarrow>
          if c = CHR '':'' then
            (lower_eq scheme ''http'' \<or> lower_eq scheme ''https'') \<and>
            (case strip_prefix ''//'' after of Some host \<Rightarrow> host \<noteq> [] \<and> \<not> starts_with host ''/'' | None \<Rightarrow> False)
          else \<not> starts_with base ''//''
      | [] \<Rightarrow> \<not> starts_with base ''//'')"

definition asset_base_problem :: "string \<Rightarrow> asset_base_problem_value option" where
  "asset_base_problem base =
     (if base = [] then Some ABEmpty
      else if list_ex unsafe_char (utf8_chars (bytes_of base)) then Some UnsafeCharacter
      else if CHR ''?'' \<in> set base \<or> CHR ''#'' \<in> set base then Some QueryOrFragment
      else if \<not> has_supported_form base then Some UnsupportedUrl
      else if \<not> ends_with base ''/'' then Some MissingTrailingSlash
      else None)"

definition validate_asset_base :: "string \<Rightarrow> (asset_base_problem_value, unit) result" where
  "validate_asset_base base = (case asset_base_problem base of None \<Rightarrow> Inr () | Some problem \<Rightarrow> Inl problem)"

section \<open>Facts\<close>

lemma utf8_ascii_is_char:
  "utf8_valid bs \<Longrightarrow> b \<in> set bs \<Longrightarrow> b < 128 \<Longrightarrow> b \<in> set (utf8_chars bs)"
proof (induction bs rule: utf8_valid.induct)
  case (1 bs)
  let ?k = "utf8_len bs"
  from "1.prems"(2) have ne: "bs \<noteq> []" by auto
  with "1.prems"(1) have k: "?k > 0" and v: "utf8_valid (drop ?k bs)"
    by (subst (asm) utf8_valid.simps; simp split: if_splits)+
  have chars: "utf8_chars bs = utf8_cp bs # utf8_chars (drop ?k bs)"
    using k by (subst utf8_chars.simps) simp
  show ?case
  proof (cases "b \<in> set (drop ?k bs)")
    case True
    with "1.IH" ne k v "1.prems"(3) chars show ?thesis by simp
  next
    case False
    with "1.prems"(2) have "b \<in> set (take ?k bs)" by (metis Un_iff append_take_drop_id set_append)
    then obtain i where i: "i < ?k" "bs ! i = b" using utf8_len_le [of bs] by (auto simp: in_set_conv_nth)
    have "i = 0"
    proof (rule ccontr)
      assume "i \<noteq> 0"
      then have "utf8_cont (bs ! i)" using i(1) by (intro utf8_len_inner_cont) simp_all
      with i(2) "1.prems"(3) show False by (simp add: utf8_cont_def)
    qed
    with i ne "1.prems"(3) obtain r where "bs = b # r" by (cases bs) auto
    with "1.prems"(3) have "utf8_cp bs = b" by (simp add: utf8_cp_def)
    with chars show ?thesis by simp
  qed
qed

text \<open>The scheme of a reference: the text before a colon that comes before any slash.\<close>

definition url_scheme :: "string \<Rightarrow> string option" where
  "url_scheme s = (case from_colon_slash s of
     c # _ \<Rightarrow> if c = CHR '':'' then Some (before_colon_slash s) else None
   | [] \<Rightarrow> None)"

lemma url_scheme_append: "CHR ''/'' \<in> set base \<Longrightarrow> url_scheme (base @ path) = url_scheme base"
proof -
  assume slash: "CHR ''/'' \<in> set base"
  then have "before_colon_slash (base @ path) = before_colon_slash base"
    unfolding before_colon_slash_def by (rule takeWhile_append1) simp
  moreover have "from_colon_slash (base @ path) = from_colon_slash base @ path"
    unfolding from_colon_slash_def by (rule dropWhile_append1) (use slash in auto)
  moreover have "from_colon_slash base \<noteq> []" using slash by (auto simp: from_colon_slash_def dropWhile_eq_Nil_conv)
  ultimately show ?thesis by (cases "from_colon_slash base") (simp_all add: url_scheme_def)
qed

lemma supported_scheme:
  assumes "has_supported_form base"
  shows "case url_scheme base of None \<Rightarrow> \<not> starts_with base ''//'' | Some s \<Rightarrow> lower_eq s ''http'' \<or> lower_eq s ''https''"
  using assms by (cases "from_colon_slash base") (auto simp: has_supported_form_def url_scheme_def Let_def split: if_splits)

section \<open>Properties\<close>

text \<open>
  C40.  An accepted asset base is safe to put in front of a relative asset path: none of its
  characters is white space or a control character, of ASCII or beyond (the no-break, ogham and
  typographic spaces, the line separators, the controls from U+007F to U+009F), none of its bytes is
  a quote, an angle bracket, a backslash, a question mark or a hash, and the reference it makes with
  the path is on the page's own origin or an http or https URL, never another scheme or a
  protocol-relative reference.
\<close>

theorem asset_base_safe:
  assumes "validate_asset_base base = Inr ()" "utf8_valid (bytes_of base)" "\<not> starts_with path ''/''"
  shows "(\<forall>b \<in> set (bytes_of base). b > 32 \<and> b \<notin> {34, 39, 60, 62, 92, 127, 63, 35}) \<and>
    (\<forall>c \<in> set (utf8_chars (bytes_of base)). c > 32 \<and> c \<notin> {34, 39, 60, 62, 92} \<and> \<not> (127 \<le> c \<and> c \<le> 0xa0) \<and>
       c \<notin> {0x1680, 0x2028, 0x2029, 0x202f, 0x205f, 0x3000} \<and> \<not> (0x2000 \<le> c \<and> c \<le> 0x200a)) \<and>
    (case url_scheme (base @ path) of
       None \<Rightarrow> \<not> starts_with (base @ path) ''//''
     | Some s \<Rightarrow> lower_eq s ''http'' \<or> lower_eq s ''https'')"
proof (intro conjI)
  have ok: "\<not> list_ex unsafe_char (utf8_chars (bytes_of base))" "CHR ''?'' \<notin> set base" "CHR ''#'' \<notin> set base"
    "has_supported_form base" "ends_with base ''/''"
    using assms(1) by (auto simp: validate_asset_base_def asset_base_problem_def split: if_splits)
  show "\<forall>b \<in> set (bytes_of base). b > 32 \<and> b \<notin> {34, 39, 60, 62, 92, 127, 63, 35}"
  proof
    fix b
    assume b: "b \<in> set (bytes_of base)"
    have "\<not> unsafe_char b" if "b < 128" using ok(1) utf8_ascii_is_char [OF assms(2) b that] by (auto simp: list_ex_iff)
    moreover have "b \<noteq> 63" "b \<noteq> 35"
    proof -
      obtain c where c: "c \<in> set base" "b = of_char c" using b by auto
      have "of_char CHR ''?'' = (63 :: nat)" "of_char CHR ''#'' = (35 :: nat)" by simp_all
      then show "b \<noteq> 63" "b \<noteq> 35" using c ok(2,3) by (metis of_char_eq_iff)+
    qed
    ultimately show "b > 32 \<and> b \<notin> {34, 39, 60, 62, 92, 127, 63, 35}"
      by (cases "b < 128") (auto simp: unsafe_char_def is_control_def is_whitespace_def)
  qed
  show "\<forall>c \<in> set (utf8_chars (bytes_of base)). c > 32 \<and> c \<notin> {34, 39, 60, 62, 92} \<and> \<not> (127 \<le> c \<and> c \<le> 0xa0) \<and>
       c \<notin> {0x1680, 0x2028, 0x2029, 0x202f, 0x205f, 0x3000} \<and> \<not> (0x2000 \<le> c \<and> c \<le> 0x200a)"
  proof
    fix c
    assume "c \<in> set (utf8_chars (bytes_of base))"
    with ok(1) have "\<not> unsafe_char c" by (auto simp: list_ex_iff)
    then show "c > 32 \<and> c \<notin> {34, 39, 60, 62, 92} \<and> \<not> (127 \<le> c \<and> c \<le> 0xa0) \<and>
       c \<notin> {0x1680, 0x2028, 0x2029, 0x202f, 0x205f, 0x3000} \<and> \<not> (0x2000 \<le> c \<and> c \<le> 0x200a)"
      by (auto simp: unsafe_char_def is_control_def is_whitespace_def)
  qed
  obtain pre where pre: "base = pre @ ''/''" using ok(5) by (auto simp: ends_with_iff)
  then have slash: "CHR ''/'' \<in> set base" by simp
  have "\<not> starts_with (base @ path) ''//''" if "\<not> starts_with base ''//''"
  proof
    assume "starts_with (base @ path) ''//''"
    then obtain rest where r: "base @ path = ''//'' @ rest" by (auto simp: starts_with_iff)
    show False
    proof (cases pre)
      case Nil
      with pre r assms(3) show False by (auto simp: starts_with_iff)
    next
      case (Cons x xs)
      with pre r have "x = CHR ''/''" "hd (xs @ ''/'') = CHR ''/''" by (cases xs; simp)+
      with Cons pre have "\<exists>t. base = ''//'' @ t" by (cases xs) auto
      with that show False by (simp add: starts_with_iff)
    qed
  qed
  then show "case url_scheme (base @ path) of
       None \<Rightarrow> \<not> starts_with (base @ path) ''//''
     | Some s \<Rightarrow> lower_eq s ''http'' \<or> lower_eq s ''https''"
    using supported_scheme [OF ok(4)] by (simp add: url_scheme_append [OF slash] split: option.splits)
qed

theorem asset_base_safe_witness:
  "url_scheme (''https://cdn.example.com/app/'' @ ''a.css'') = Some ''https'' \<and>
   (lower_eq ''https'' ''http'' \<or> lower_eq ''https'' ''https'')"
proof -
  have "validate_asset_base ''https://cdn.example.com/app/'' = Inr ()"
    by (simp add: validate_asset_base_def asset_base_problem_def utf8_chars_ascii unsafe_char_def is_control_def is_whitespace_def
        has_supported_form_def before_colon_slash_def from_colon_slash_def lower_eq_def to_ascii_lower_def
        starts_with_def ends_with_def strip_suffix_def)
  moreover have "utf8_valid (bytes_of ''https://cdn.example.com/app/'')" by (rule utf8_valid_ascii) simp
  moreover have "\<not> starts_with ''a.css'' ''/''" by code_simp
  ultimately have "case url_scheme (''https://cdn.example.com/app/'' @ ''a.css'') of
       None \<Rightarrow> \<not> starts_with (''https://cdn.example.com/app/'' @ ''a.css'') ''//''
     | Some s \<Rightarrow> lower_eq s ''http'' \<or> lower_eq s ''https''"
    by (rule conjunct2 [OF conjunct2 [OF asset_base_safe]])
  moreover have "url_scheme (''https://cdn.example.com/app/'' @ ''a.css'') = Some ''https''" by code_simp
  ultimately show ?thesis by simp
qed

end
