(* ===== verification/Route_Matcher.thy ===== *)
theory Route_Matcher
  imports Protocol Rust_Str
begin

text \<open>
  Server-side route matching, \<open>crates/webui-handler/src/route_matcher.rs\<close> and
  \<open>find_best_route_match\<close> of \<open>route_renderer.rs\<close>: path templates, percent decoding,
  parameter validation, the compiled index and the choice among sibling routes.
\<close>

record route_match =
  params :: "string \<rightharpoonup> string"
  specificity :: nat
  consumed_segments :: nat

datatype segment_pattern = Literal string | Param string | OptionalParam string | Splat string

section \<open>Templates and paths\<close>

definition parse_segment :: "string \<Rightarrow> segment_pattern" where
  "parse_segment part = (case strip_prefix ''*'' part of
     Some rest \<Rightarrow> Splat (if rest = [] then ''rest'' else rest)
   | None \<Rightarrow> (case strip_prefix '':'' part of
       Some rest \<Rightarrow> (case strip_suffix ''?'' rest of
           Some name \<Rightarrow> OptionalParam name
         | None \<Rightarrow> Param rest)
     | None \<Rightarrow> Literal part))"

definition split_path :: "string \<Rightarrow> string list" where
  "split_path path = filter (\<lambda>s. s \<noteq> []) (split_on CHR ''/'' path)"

definition split_request_path :: "string \<Rightarrow> string list" where
  "split_request_path path = split_path path"

definition parse_template :: "string \<Rightarrow> segment_pattern list" where
  "parse_template tmpl =
     (let t = (case strip_prefix ''./'' tmpl of Some r \<Rightarrow> r | None \<Rightarrow> tmpl)
      in map parse_segment (filter (\<lambda>part. part \<noteq> []) (split_on CHR ''/'' t)))"

definition hex_val :: "nat \<Rightarrow> nat option" where
  "hex_val b =
     (if 48 \<le> b \<and> b \<le> 57 then Some (b - 48)
      else if 97 \<le> b \<and> b \<le> 102 then Some (b - 97 + 10)
      else if 65 \<le> b \<and> b \<le> 70 then Some (b - 65 + 10)
      else None)"

text \<open>\<open>hi << 4 | lo\<close> on digits below 16 is \<open>16 * hi + lo\<close>.\<close>

fun percent_decode_loop :: "nat list \<Rightarrow> nat list option" where
  "percent_decode_loop [] = Some []"
| "percent_decode_loop (b # bs) =
     (if b = 37 then
        (case bs of
           h # l # rest \<Rightarrow>
             (case hex_val h of
                None \<Rightarrow> None
              | Some hi \<Rightarrow> (case hex_val l of
                  None \<Rightarrow> None
                | Some lo \<Rightarrow> map_option ((#) (16 * hi + lo)) (percent_decode_loop rest)))
         | _ \<Rightarrow> None)
      else map_option ((#) b) (percent_decode_loop bs))"

definition percent_decode :: "string \<Rightarrow> string option" where
  "percent_decode input =
     (if 37 \<notin> set (bytes_of input) then Some input
      else case percent_decode_loop (bytes_of input) of
        None \<Rightarrow> None
      | Some out \<Rightarrow> if utf8_valid out then Some (map char_of out) else None)"

definition validate_param :: "string \<Rightarrow> string option" where
  "validate_param value = (case percent_decode value of
     None \<Rightarrow> None
   | Some decoded \<Rightarrow> if decoded = ''..'' \<or> 0 \<in> set (bytes_of decoded) then None else Some decoded)"

fun validate_all :: "string list \<Rightarrow> string list option" where
  "validate_all [] = Some []"
| "validate_all (seg # segs) = (case validate_param seg of
     None \<Rightarrow> None
   | Some d \<Rightarrow> map_option ((#) d) (validate_all segs))"

section \<open>Matching\<close>

text \<open>
  The loop over the patterns; \<open>rest\<close> are the request segments from \<open>req_idx\<close> on.  The
  source's second loop over the patterns left starts where the first ended, at the end.
\<close>

fun match_loop ::
  "segment_pattern list \<Rightarrow> string list \<Rightarrow> bool \<Rightarrow> (string \<rightharpoonup> string) \<Rightarrow> nat \<Rightarrow> nat \<Rightarrow> route_match option" where
  "match_loop [] rest exact ps spec req_idx =
     (if exact \<and> rest \<noteq> [] then None
      else Some \<lparr>params = ps, specificity = spec, consumed_segments = req_idx\<rparr>)"
| "match_loop (Literal expected # pats) rest exact ps spec req_idx = (case rest of
     [] \<Rightarrow> None
   | seg # segs \<Rightarrow> if seg \<noteq> expected then None else match_loop pats segs exact ps (spec + 1) (req_idx + 1))"
| "match_loop (Param name # pats) rest exact ps spec req_idx = (case rest of
     [] \<Rightarrow> None
   | seg # segs \<Rightarrow> (case validate_param seg of
       None \<Rightarrow> None
     | Some v \<Rightarrow> match_loop pats segs exact (ps(name \<mapsto> v)) spec (req_idx + 1)))"
| "match_loop (OptionalParam name # pats) rest exact ps spec req_idx = (case rest of
     [] \<Rightarrow> match_loop pats [] exact ps spec req_idx
   | seg # segs \<Rightarrow> (case validate_param seg of
       None \<Rightarrow> None
     | Some v \<Rightarrow> match_loop pats segs exact (ps(name \<mapsto> v)) spec (req_idx + 1)))"
| "match_loop (Splat name # pats) rest exact ps spec req_idx = (case validate_all rest of
     None \<Rightarrow> None
   | Some decoded_parts \<Rightarrow>
       match_loop pats [] exact (ps(name \<mapsto> join_with ''/'' decoded_parts)) spec (req_idx + length rest))"

definition try_match :: "segment_pattern list \<Rightarrow> string list \<Rightarrow> bool \<Rightarrow> route_match option" where
  "try_match pats segs exact = match_loop pats segs exact Map.empty 0 0"

definition match_single_route :: "string \<Rightarrow> string \<Rightarrow> bool \<Rightarrow> route_match option" where
  "match_single_route tmpl request_path exact =
     try_match (parse_template tmpl) (split_path request_path) exact"

definition is_relative_path :: "string \<Rightarrow> bool" where
  "is_relative_path path \<longleftrightarrow> path \<noteq> [] \<and> \<not> starts_with path ''/''"

definition resolve_route_path_cow :: "string \<Rightarrow> string \<Rightarrow> string cow" where
  "resolve_route_path_cow path route_base =
     (if path = [] then Owned route_base
      else if \<not> is_relative_path path then Borrowed path
      else let relative = (case strip_prefix ''./'' path of Some r \<Rightarrow> r | None \<Rightarrow> path) in
        if relative = [] then Owned route_base
        else Owned (route_base @ (if \<not> ends_with route_base ''/'' then ''/'' else []) @ relative))"

definition resolve_route_path :: "string \<Rightarrow> string \<Rightarrow> string" where
  "resolve_route_path path route_base = cow_value (resolve_route_path_cow path route_base)"

fun base_loop :: "nat \<Rightarrow> string list \<Rightarrow> string" where
  "base_loop 0 parts = []"
| "base_loop (Suc remaining) [] = []"
| "base_loop (Suc remaining) (part # parts) = ''/'' @ part @ base_loop remaining parts"

definition compute_route_base :: "string \<Rightarrow> nat \<Rightarrow> string" where
  "compute_route_base request_path consumed =
     (if consumed = 0 then ''/''
      else let base = base_loop consumed (filter (\<lambda>s. s \<noteq> []) (split_on CHR ''/'' request_path))
           in if base = [] then ''/'' else base)"

section \<open>The compiled index\<close>

text \<open>
  \<open>CompiledRouteIndex::new\<close>: every route reachable from the fragments, a stack of
  pending routes popped from the end.
\<close>

fun route_size :: "web_ui_route \<Rightarrow> nat" where
  "route_size (WebUiFragmentRoute p f e cs q k ct iv pc ec cf) = Suc (sum_list (map route_size cs))"

lemma pending_shrinks:
  assumes "pending \<noteq> []"
  shows "sum_list (map route_size (butlast pending)) + sum_list (map route_size (route_children (last pending)))
    < sum_list (map route_size pending)"
proof -
  have p: "butlast pending @ [last pending] = pending" using assms by simp
  have "sum_list (map route_size (butlast pending @ [last pending])) =
      sum_list (map route_size (butlast pending)) + route_size (last pending)" by simp
  then have "sum_list (map route_size pending) = sum_list (map route_size (butlast pending)) + route_size (last pending)"
    by (simp only: p)
  moreover have "sum_list (map route_size (route_children (last pending))) < route_size (last pending)"
    by (cases "last pending") simp
  ultimately show ?thesis by simp
qed

function index_loop :: "web_ui_route list \<Rightarrow> (string \<rightharpoonup> segment_pattern list) \<Rightarrow> (string \<rightharpoonup> segment_pattern list)" where
  "index_loop pending patterns =
     (if pending = [] then patterns
      else let route = last pending;
               patterns' = (case patterns (route_path route) of
                  Some _ \<Rightarrow> patterns
                | None \<Rightarrow> patterns(route_path route \<mapsto> parse_template (route_path route)))
           in index_loop (butlast pending @ route_children route) patterns')"
  by pat_completeness auto
termination
  by (relation "measure (\<lambda>(pending, _). sum_list (map route_size pending))") (auto dest: pending_shrinks)

definition routes_of :: "web_ui_fragment list \<Rightarrow> web_ui_route list" where
  "routes_of fs = List.map_filter (\<lambda>f. case f of Some (FRoute r) \<Rightarrow> Some r | _ \<Rightarrow> None) fs"

text \<open>The order in which the fragment map is visited is the order of the list.\<close>

definition compiled_route_index :: "fragment_list list \<Rightarrow> (string \<rightharpoonup> segment_pattern list)" where
  "compiled_route_index fls = index_loop (concat (map (routes_of \<circ> fragments) fls)) Map.empty"

definition match_route_indexed_with_segments ::
  "(string \<rightharpoonup> segment_pattern list) \<Rightarrow> string \<Rightarrow> string \<Rightarrow> string list \<Rightarrow> bool \<Rightarrow> route_match option" where
  "match_route_indexed_with_segments index tmpl route_base request_segments exact = (case index tmpl of
     None \<Rightarrow> None
   | Some patterns \<Rightarrow>
       let base_segments = (if tmpl = [] \<or> is_relative_path tmpl
             then length (filter (\<lambda>s. s \<noteq> []) (split_on CHR ''/'' route_base)) else 0)
       in if length request_segments < base_segments then None
          else map_option
            (\<lambda>m. m\<lparr>specificity := specificity m + base_segments, consumed_segments := consumed_segments m + base_segments\<rparr>)
            (try_match patterns (drop base_segments request_segments) exact))"

section \<open>The best match among siblings\<close>

fun best_loop ::
  "web_ui_fragment list \<Rightarrow> string list \<Rightarrow> string \<Rightarrow> (string \<rightharpoonup> segment_pattern list) \<Rightarrow>
   (string \<times> route_match) option \<Rightarrow> (string \<times> route_match) option" where
  "best_loop [] segs route_base index best = best"
| "best_loop (item # items) segs route_base index best =
     best_loop items segs route_base index
       (case item of
          Some (FRoute r) \<Rightarrow>
            (case match_route_indexed_with_segments index (route_path r) route_base segs (route_exact r) of
               Some m \<Rightarrow>
                 if (case best of None \<Rightarrow> True | Some (_, prev) \<Rightarrow> specificity m > specificity prev)
                 then Some (route_fragment_id r, m) else best
             | None \<Rightarrow> best)
        | _ \<Rightarrow> best)"

definition find_best_route_match ::
  "web_ui_fragment list \<Rightarrow> string \<Rightarrow> string \<Rightarrow> (string \<rightharpoonup> segment_pattern list) \<Rightarrow> (string \<times> route_match) option" where
  "find_best_route_match fs request_path route_base index =
     best_loop fs (split_request_path request_path) route_base index None"

section \<open>Parameters\<close>

declare index_loop.simps [simp del]

definition safe_segment :: "string \<Rightarrow> bool" where
  "safe_segment v \<longleftrightarrow> v \<noteq> ''..'' \<and> 0 \<notin> set (bytes_of v)"

lemma validate_param_safe: "validate_param seg = Some v \<Longrightarrow> safe_segment v \<and> percent_decode seg = Some v"
  by (auto simp: validate_param_def safe_segment_def split: option.splits if_splits)

lemma validate_all_safe:
  "validate_all segs = Some vs \<Longrightarrow> list_all safe_segment vs \<and> map percent_decode segs = map Some vs"
  by (induction segs arbitrary: vs) (auto split: option.splits dest: validate_param_safe)

text \<open>
  Where the value of a name comes from: the decoded segment at the place of its parameter in the
  template, or all decoded segments from some place on, for a splat.
\<close>

definition binding :: "segment_pattern list \<Rightarrow> string list \<Rightarrow> string \<Rightarrow> string \<Rightarrow> bool" where
  "binding pats segs name v \<longleftrightarrow> (\<exists>pre ss post parts. segs = pre @ ss @ post \<and> map percent_decode ss = map Some parts \<and>
     list_all safe_segment parts \<and> v = join_with ''/'' parts \<and>
     (length ss = 1 \<and> length pre < length pats \<and> pats ! length pre \<in> {Param name, OptionalParam name} \<or>
      post = [] \<and> Splat name \<in> set pats))"

lemma binding_one:
  assumes "validate_param seg = Some v" "p \<in> {Param name, OptionalParam name}" "length dp = length ds"
  shows "binding (dp @ p # pats) (ds @ seg # segs) name v"
  unfolding binding_def using validate_param_safe [OF assms(1)] assms(2,3)
  by (intro exI [of _ ds] exI [of _ "[seg]"] exI [of _ segs] exI [of _ "[v]"]) (auto simp: nth_append)

lemma binding_splat:
  assumes "validate_all rest = Some vs"
  shows "binding (dp @ Splat name # pats) (ds @ rest) name (join_with ''/'' vs)"
  unfolding binding_def using validate_all_safe [OF assms]
  by (intro exI [of _ ds] exI [of _ rest] exI [of _ "[]"] exI [of _ vs]) auto

lemma match_loop_bindings:
  "match_loop pats rest exact ps spec i = Some m \<Longrightarrow> length dp = length ds \<or> rest = [] \<Longrightarrow>
   \<forall>name v. ps name = Some v \<longrightarrow> binding (dp @ pats) (ds @ rest) name v \<Longrightarrow>
   params m name = Some v \<Longrightarrow> binding (dp @ pats) (ds @ rest) name v"
proof (induction pats rest exact ps spec i arbitrary: dp ds rule: match_loop.induct)
  case (2 expected pats rest exact ps spec i)
  then obtain segs where "rest = expected # segs" "match_loop pats segs exact ps (spec + 1) (i + 1) = Some m"
    by (auto split: list.splits if_splits)
  with "2.IH" [of expected segs "dp @ [Literal expected]" "ds @ [expected]"] "2.prems" show ?case by auto
next
  case (3 n pats rest exact ps spec i)
  then obtain seg segs w where sv: "rest = seg # segs" "validate_param seg = Some w"
    "match_loop pats segs exact (ps(n \<mapsto> w)) spec (i + 1) = Some m"
    by (auto split: list.splits option.splits)
  have "binding (dp @ Param n # pats) (ds @ seg # segs) n w"
    using "3.prems"(2) sv by (intro binding_one) auto
  then have all: "\<forall>name v. (ps(n \<mapsto> w)) name = Some v \<longrightarrow> binding (dp @ Param n # pats) (ds @ seg # segs) name v"
    using "3.prems"(3) sv(1) by simp
  with "3.IH" [of seg segs w "dp @ [Param n]" "ds @ [seg]"] "3.prems"(2,4) sv show ?case by (simp del: fun_upd_apply)
next
  case (4 n pats rest exact ps spec i)
  show ?case
  proof (cases rest)
    case Nil
    with 4 have "match_loop pats [] exact ps spec i = Some m" by simp
    with "4.IH"(1) [of "dp @ [OptionalParam n]" ds] "4.prems" Nil show ?thesis by auto
  next
    case (Cons seg segs)
    with 4 obtain w where w: "validate_param seg = Some w"
      "match_loop pats segs exact (ps(n \<mapsto> w)) spec (i + 1) = Some m"
      by (auto split: option.splits)
    have "binding (dp @ OptionalParam n # pats) (ds @ seg # segs) n w"
      using "4.prems"(2) w(1) Cons by (intro binding_one) auto
    then have all: "\<forall>name v. (ps(n \<mapsto> w)) name = Some v \<longrightarrow>
        binding (dp @ OptionalParam n # pats) (ds @ seg # segs) name v"
      using "4.prems"(3) Cons by simp
    with "4.IH"(2) [of seg segs w "dp @ [OptionalParam n]" "ds @ [seg]"] "4.prems"(2,4) w Cons show ?thesis
      by (simp del: fun_upd_apply)
  qed
next
  case (5 n pats rest exact ps spec i)
  then obtain vs where vs: "validate_all rest = Some vs"
    "match_loop pats [] exact (ps(n \<mapsto> join_with ''/'' vs)) spec (i + length rest) = Some m"
    by (auto split: option.splits)
  have "\<forall>name v. (ps(n \<mapsto> join_with ''/'' vs)) name = Some v \<longrightarrow> binding (dp @ Splat n # pats) (ds @ rest) name v"
    using "5.prems"(3) binding_splat [OF vs(1), of dp n pats ds] by simp
  with "5.IH" [of vs "dp @ [Splat n]" "ds @ rest"] "5.prems"(4) vs show ?case by (simp del: fun_upd_apply)
qed (auto split: if_splits)

lemma set_join_with: "set (join_with sep ps) \<subseteq> set sep \<union> \<Union> (set ` set ps)"
  by (induction sep ps rule: join_with.induct) auto

lemma safe_segments_no_nul: "list_all safe_segment parts \<Longrightarrow> 0 \<notin> set (bytes_of (join_with ''/'' parts))"
  using set_join_with [of "''/''" parts] by (fastforce simp: safe_segment_def list_all_iff)

section \<open>Paths\<close>

lemma split_path_Nil [simp]: "split_path [] = []"
  by (simp add: split_path_def)

lemma split_path_append: "split_path (a @ CHR ''/'' # b) = split_path a @ split_path b"
  by (simp add: split_path_def split_on_append)

lemma split_path_slash [simp]: "split_path (CHR ''/'' # b) = split_path b"
  using split_path_append [of "[]" b] by simp

lemma split_path_segment: "CHR ''/'' \<notin> set p \<Longrightarrow> p \<noteq> [] \<Longrightarrow> split_path p = [p]"
  by (simp add: split_path_def split_on_no_sep)

lemma split_path_mem: "p \<in> set (split_path s) \<Longrightarrow> p \<noteq> [] \<and> CHR ''/'' \<notin> set p"
  by (auto simp: split_path_def dest: split_on_sep_free)

definition render_path :: "string list \<Rightarrow> string" where
  "render_path segs = concat (map (\<lambda>p. ''/'' @ p) segs)"

lemma split_render_path:
  "\<forall>p \<in> set segs. p \<noteq> [] \<and> CHR ''/'' \<notin> set p \<Longrightarrow> split_path (render_path segs) = segs"
proof (induction segs)
  case hyp: (Cons p segs)
  have "split_path (render_path (p # segs)) = split_path (p @ render_path segs)"
    by (simp add: render_path_def)
  also have "\<dots> = p # split_path (render_path segs)"
  proof (cases segs)
    case Nil
    with hyp show ?thesis by (simp add: render_path_def split_path_segment)
  next
    case (Cons q qs)
    then have "render_path segs = CHR ''/'' # q @ render_path qs" by (simp add: render_path_def)
    then show ?thesis using hyp.prems split_path_segment [of p] by (simp add: split_path_append)
  qed
  finally show ?case using hyp by simp
qed (simp add: render_path_def)

lemma base_loop_render: "base_loop n parts = render_path (take n parts)"
  by (induction n parts rule: base_loop.induct) (simp_all add: render_path_def)

lemma split_compute_route_base: "split_path (compute_route_base p n) = take n (split_path p)"
proof -
  have "split_path (render_path (take n (split_path p))) = take n (split_path p)"
    by (rule split_render_path) (auto dest: in_set_takeD split_path_mem)
  moreover have "split_path ''/'' = []" by simp
  ultimately show ?thesis
    by (auto simp: compute_route_base_def base_loop_render Let_def split_path_def [of p, symmetric])
qed

section \<open>Relative templates and the index\<close>

lemma parse_template_split:
  "parse_template t = map parse_segment (split_path (case strip_prefix ''./'' t of Some r \<Rightarrow> r | None \<Rightarrow> t))"
  by (simp add: parse_template_def split_path_def)

lemma parse_template_absolute: "parse_template (CHR ''/'' # t) = map parse_segment (split_path t)"
  by (simp add: parse_template_split)

definition add_base :: "nat \<Rightarrow> route_match \<Rightarrow> route_match" where
  "add_base k m = m\<lparr>specificity := specificity m + k, consumed_segments := consumed_segments m + k\<rparr>"

lemma add_base_fun:
  "(\<lambda>m. m\<lparr>specificity := specificity m + k, consumed_segments := consumed_segments m + k\<rparr>) = add_base k"
  by (simp add: fun_eq_iff add_base_def)

lemma match_loop_shift:
  "match_loop pats segs exact ps (spec + k) (i + k) = map_option (add_base k) (match_loop pats segs exact ps spec i)"
proof (induction pats arbitrary: segs ps spec i)
  case Nil
  show ?case by (simp add: add_base_def)
next
  case (Cons p pats)
  have IH: "match_loop pats ss exact qs (Suc (spec + k)) (Suc (i + k)) = map_option (add_base k) (match_loop pats ss exact qs (Suc spec) (Suc i))"
    "match_loop pats ss exact qs (spec + k) (Suc (i + k)) = map_option (add_base k) (match_loop pats ss exact qs spec (Suc i))"
    "match_loop pats ss exact qs (spec + k) (i + k) = map_option (add_base k) (match_loop pats ss exact qs spec i)"
    "match_loop pats ss exact qs (spec + k) (i + k + l) = map_option (add_base k) (match_loop pats ss exact qs spec (i + l))" for ss qs l
    using Cons.IH [of ss qs "Suc spec" "Suc i"] Cons.IH [of ss qs spec "Suc i"] Cons.IH [of ss qs spec i]
      Cons.IH [of ss qs spec "i + l"] by (simp_all add: add.commute add.left_commute)
  show ?case
    by (cases p) (simp_all add: IH split: list.split option.split)
qed

lemma match_loop_literals:
  "match_loop (map Literal (take n segs) @ pats) segs exact ps spec i =
     match_loop pats (drop n segs) exact ps (spec + length (take n segs)) (i + length (take n segs))"
proof (induction n arbitrary: segs spec i)
  case (Suc n)
  then show ?case by (cases segs) (simp_all add: add.commute add.left_commute)
qed simp

lemma parse_segment_literal:
  "\<not> starts_with p ''*'' \<Longrightarrow> \<not> starts_with p '':'' \<Longrightarrow> parse_segment p = Literal p"
  by (simp add: parse_segment_def starts_with_def)

lemma resolve_patterns:
  assumes "route_base = [] \<or> starts_with route_base ''/''" "tmpl = [] \<or> is_relative_path tmpl"
  shows "parse_template (resolve_route_path tmpl route_base) = map parse_segment (split_path route_base) @ parse_template tmpl"
proof -
  have strip: "strip_prefix ''./'' route_base = None" using assms(1) by (auto simp: starts_with_iff)
  have base: "parse_template route_base = map parse_segment (split_path route_base)"
    by (simp add: parse_template_split strip)
  let ?rel = "case strip_prefix ''./'' tmpl of Some r \<Rightarrow> r | None \<Rightarrow> tmpl"
  have tm: "parse_template tmpl = map parse_segment (split_path ?rel)" by (simp add: parse_template_split)
  show ?thesis
  proof (cases "tmpl = [] \<or> ?rel = []")
    case True
    then show ?thesis using base tm assms(2) by (auto simp: resolve_route_path_def resolve_route_path_cow_def Let_def)
  next
    case False
    have "\<exists>t. resolve_route_path tmpl route_base = t @ CHR ''/'' # ?rel \<and> split_path t = split_path route_base \<and>
        (t = [] \<or> starts_with t ''/'')"
    proof (cases "ends_with route_base ''/''")
      case True
      then obtain t where "route_base = t @ ''/''" by (auto simp: ends_with_iff)
      with False assms True show ?thesis
        by (intro exI [of _ t])
          (auto simp: resolve_route_path_def resolve_route_path_cow_def Let_def split_path_append starts_with_iff append_eq_Cons_conv)
    next
      case not_slash: False
      with False assms show ?thesis
        by (intro exI [of _ route_base]) (auto simp: resolve_route_path_def resolve_route_path_cow_def Let_def)
    qed
    then obtain t where t: "resolve_route_path tmpl route_base = t @ CHR ''/'' # ?rel" "split_path t = split_path route_base"
      "t = [] \<or> starts_with t ''/''" by blast
    have "strip_prefix ''./'' (t @ CHR ''/'' # ?rel) = None" using t(3) by (auto simp: starts_with_iff)
    then show ?thesis using t(1,2) tm by (simp add: parse_template_split split_path_append)
  qed
qed

lemma indexed_match_eq:
  assumes idx: "index tmpl = Some (parse_template tmpl)"
    and base: "route_base = compute_route_base request_path consumed"
    and lit: "\<forall>p \<in> set (take consumed (split_path request_path)). \<not> starts_with p ''*'' \<and> \<not> starts_with p '':''"
  shows "match_route_indexed_with_segments index tmpl route_base (split_path request_path) exact =
    match_single_route (resolve_route_path tmpl route_base) request_path exact"
proof (cases "tmpl = [] \<or> is_relative_path tmpl")
  case False
  then have "resolve_route_path tmpl route_base = tmpl"
    by (simp add: resolve_route_path_def resolve_route_path_cow_def)
  with False idx show ?thesis
    by (simp add: match_route_indexed_with_segments_def match_single_route_def option.map_ident)
next
  case True
  let ?segs = "split_path request_path"
  have sb: "split_path route_base = take consumed ?segs" using base split_compute_route_base by simp
  have b: "route_base = [] \<or> starts_with route_base ''/''"
  proof -
    have "render_path ps = [] \<or> starts_with (render_path ps) ''/''" for ps
      by (cases ps) (auto simp: render_path_def starts_with_def)
    then show ?thesis by (simp add: base compute_route_base_def base_loop_render Let_def) (auto simp: starts_with_def)
  qed
  have lits: "map parse_segment (take consumed ?segs) = map Literal (take consumed ?segs)"
    using lit parse_segment_literal by auto
  let ?k = "length (take consumed ?segs)"
  have "match_route_indexed_with_segments index tmpl route_base ?segs exact =
      map_option (add_base ?k) (try_match (parse_template tmpl) (drop ?k ?segs) exact)"
    using True idx sb by (simp add: match_route_indexed_with_segments_def split_path_def [of route_base, symmetric] add_base_fun Let_def)
  also have "drop ?k ?segs = drop consumed ?segs" by (simp add: min_def)
  also have "map_option (add_base ?k) (try_match (parse_template tmpl) (drop consumed ?segs) exact) =
      match_loop (parse_template tmpl) (drop consumed ?segs) exact Map.empty (0 + ?k) (0 + ?k)"
    by (simp only: match_loop_shift try_match_def)
  also have "\<dots> = try_match (map Literal (take consumed ?segs) @ parse_template tmpl) ?segs exact"
    by (simp only: match_loop_literals try_match_def)
  finally show ?thesis
    using resolve_patterns [OF b True] sb lits by (simp add: match_single_route_def)
qed

fun route_all :: "web_ui_route \<Rightarrow> web_ui_route list" where
  "route_all (WebUiFragmentRoute p f e cs q k ct iv pc ec cf) =
     WebUiFragmentRoute p f e cs q k ct iv pc ec cf # concat (map route_all cs)"

lemma route_all_unfold: "set (route_all r) = insert r (\<Union> (set ` route_all ` set (route_children r)))"
  by (cases r) simp

lemma index_loop_covers:
  assumes "\<forall>p x. patterns p = Some x \<longrightarrow> x = parse_template p"
  shows "index_loop pending patterns p =
    (if p \<in> dom patterns \<or> (\<exists>r \<in> set pending. p \<in> route_path ` set (route_all r)) then Some (parse_template p) else None)"
  using assms
proof (induction pending patterns rule: index_loop.induct)
  case (1 pending patterns)
  show ?case
  proof (cases "pending = []")
    case True
    with "1.prems" show ?thesis by (auto simp: index_loop.simps)
  next
    case False
    let ?r = "last pending"
    let ?pat = "case patterns (route_path ?r) of Some _ \<Rightarrow> patterns | None \<Rightarrow> patterns(route_path ?r \<mapsto> parse_template (route_path ?r))"
    have ok: "\<forall>p x. ?pat p = Some x \<longrightarrow> x = parse_template p"
      using "1.prems" by (auto split: option.split)
    have dom: "dom ?pat = insert (route_path ?r) (dom patterns)" by (auto split: option.split)
    have sp: "set pending = insert ?r (set (butlast pending))"
      using False by (metis append_butlast_last_id Un_insert_right list.set(1) list.set(2) set_append sup_bot.right_neutral)
    have "index_loop pending patterns p = index_loop (butlast pending @ route_children ?r) ?pat p"
      using False by (subst index_loop.simps) (simp add: Let_def)
    also have "\<dots> = (if p \<in> dom ?pat \<or> (\<exists>r \<in> set (butlast pending @ route_children ?r). p \<in> route_path ` set (route_all r))
        then Some (parse_template p) else None)"
      using "1.IH" [OF False refl refl ok] .
    also have "(p \<in> dom ?pat \<or> (\<exists>r \<in> set (butlast pending @ route_children ?r). p \<in> route_path ` set (route_all r))) \<longleftrightarrow>
        (p \<in> dom patterns \<or> (\<exists>r \<in> set pending. p \<in> route_path ` set (route_all r)))"
      unfolding dom sp using route_all_unfold [of ?r] by auto
    finally show ?thesis .
  qed
qed

section \<open>The choice among siblings\<close>

text \<open>The routes among the fragments that match, with their matches, in document order.\<close>

definition route_candidate ::
  "string list \<Rightarrow> string \<Rightarrow> (string \<rightharpoonup> segment_pattern list) \<Rightarrow> web_ui_fragment \<Rightarrow> (string \<times> route_match) option" where
  "route_candidate segs route_base index item = (case item of
     Some (FRoute r) \<Rightarrow>
       map_option (Pair (route_fragment_id r))
         (match_route_indexed_with_segments index (route_path r) route_base segs (route_exact r))
   | _ \<Rightarrow> None)"

definition route_candidates ::
  "string list \<Rightarrow> string \<Rightarrow> (string \<rightharpoonup> segment_pattern list) \<Rightarrow> web_ui_fragment list \<Rightarrow> (string \<times> route_match) list" where
  "route_candidates segs route_base index fs = List.map_filter (route_candidate segs route_base index) fs"

definition better :: "(string \<times> route_match) option \<Rightarrow> string \<times> route_match \<Rightarrow> (string \<times> route_match) option" where
  "better best c = (if (case best of None \<Rightarrow> True | Some p \<Rightarrow> specificity (snd p) < specificity (snd c)) then Some c else best)"

lemma better_Some: "better (Some c) d = (if specificity (snd c) < specificity (snd d) then Some d else Some c)"
  by (simp add: better_def)

lemma best_loop_fold:
  "best_loop fs segs route_base index best = foldl better best (route_candidates segs route_base index fs)"
proof (induction fs arbitrary: best)
  case (Cons f fs)
  have "best_loop (f # fs) segs route_base index best = best_loop fs segs route_base index
      (case route_candidate segs route_base index f of None \<Rightarrow> best | Some c \<Rightarrow> better best c)"
    by (auto simp: route_candidate_def better_def case_prod_unfold split: option.split fragment.split intro!: arg_cong [where f = "best_loop fs segs route_base index"])
  also have "\<dots> = foldl better best (route_candidates segs route_base index (f # fs))"
    using Cons.IH by (cases "route_candidate segs route_base index f") (simp_all add: route_candidates_def map_filter_simps)
  finally show ?case .
qed (simp add: route_candidates_def map_filter_simps)

definition first_best :: "(string \<times> route_match) list \<Rightarrow> string \<times> route_match \<Rightarrow> bool" where
  "first_best cs c \<longleftrightarrow> (\<exists>xs ys. cs = xs @ c # ys \<and> (\<forall>x \<in> set xs. specificity (snd x) < specificity (snd c)) \<and>
     (\<forall>y \<in> set ys. specificity (snd y) \<le> specificity (snd c)))"

lemma foldl_better: "cs \<noteq> [] \<Longrightarrow> \<exists>c. foldl better None cs = Some c \<and> first_best cs c"
proof (induction cs rule: rev_induct)
  case (snoc d cs)
  show ?case
  proof (cases "cs = []")
    case True
    then show ?thesis by (simp add: better_def first_best_def) (rule exI [of _ "[]"], simp)
  next
    case False
    then obtain c where "foldl better None cs = Some c \<and> first_best cs c" using snoc by blast
    then obtain xs ys where c: "foldl better None cs = Some c" "cs = xs @ c # ys"
      "\<forall>x \<in> set xs. specificity (snd x) < specificity (snd c)" "\<forall>y \<in> set ys. specificity (snd y) \<le> specificity (snd c)"
      unfolding first_best_def by blast
    show ?thesis
    proof (cases "specificity (snd c) < specificity (snd d)")
      case True
      then have "\<forall>x \<in> set cs. specificity (snd x) < specificity (snd d)" using c by fastforce
      then have "first_best (cs @ [d]) d" unfolding first_best_def by (intro exI [of _ cs] exI [of _ "[]"]) auto
      with c(1) True show ?thesis by (simp add: better_Some)
    next
      case False
      then have "first_best (cs @ [d]) c" unfolding first_best_def using c
        by (intro exI [of _ xs] exI [of _ "ys @ [d]"]) auto
      with c(1) False show ?thesis by (simp add: better_Some)
    qed
  qed
qed simp

section \<open>Instantiating a template\<close>

definition hex_digit :: "nat \<Rightarrow> nat" where
  "hex_digit n = (if n < 10 then 48 + n else 55 + n)"

definition percent_encode :: "string \<Rightarrow> string" where
  "percent_encode s = map char_of (concat (map (\<lambda>b. [37, hex_digit (b div 16), hex_digit (b mod 16)]) (bytes_of s)))"

lemma hex_val_digit: "n < 16 \<Longrightarrow> hex_val (hex_digit n) = Some n"
  by (auto simp: hex_val_def hex_digit_def)

lemma hex_digit_small: "n < 16 \<Longrightarrow> hex_digit n < 128"
  by (auto simp: hex_digit_def)

lemma percent_decode_loop_encode:
  "\<forall>b \<in> set bs. b < 256 \<Longrightarrow> percent_decode_loop (concat (map (\<lambda>b. [37, hex_digit (b div 16), hex_digit (b mod 16)]) bs)) = Some bs"
proof (induction bs)
  case (Cons b bs)
  then have "b div 16 < 16" "b mod 16 < 16" by auto
  with Cons show ?case by (simp add: hex_val_digit mult.commute)
qed simp

lemma bytes_of_char_of: "\<forall>b \<in> set bs. b < 256 \<Longrightarrow> bytes_of (map char_of bs) = bs"
  by (induction bs) (simp_all add: of_char_of)

lemma char_byte: "of_char c < (256 :: nat)"
  by (rule nat_of_char_less_256)

lemma bytes_percent_encode:
  "bytes_of (percent_encode s) = concat (map (\<lambda>b. [37, hex_digit (b div 16), hex_digit (b mod 16)]) (bytes_of s))"
proof -
  have "hex_digit (of_char c div 16) < 256" "hex_digit (of_char c mod 16) < 256" for c :: char
    using hex_digit_small [of "of_char c div 16"] hex_digit_small [of "of_char c mod 16"] char_byte [of c]
    by (auto simp: less_mult_imp_div_less)
  then show ?thesis unfolding percent_encode_def by (intro bytes_of_char_of) auto
qed

lemma percent_decode_encode: "utf8_valid (bytes_of s) \<Longrightarrow> percent_decode (percent_encode s) = Some s"
proof (cases s)
  case Nil
  then show ?thesis by (simp add: percent_decode_def percent_encode_def)
next
  case (Cons c cs)
  assume u: "utf8_valid (bytes_of s)"
  have "37 \<in> set (bytes_of (percent_encode s))" using Cons by (simp add: bytes_percent_encode)
  moreover have "percent_decode_loop (bytes_of (percent_encode s)) = Some (bytes_of s)"
    unfolding bytes_percent_encode by (rule percent_decode_loop_encode) (use char_byte in auto)
  moreover have "map char_of (bytes_of s) = s" by (simp add: comp_def)
  ultimately show ?thesis using u unfolding percent_decode_def by (simp only: option.case if_True) simp
qed

fun segment_text :: "segment_pattern \<Rightarrow> string" where
  "segment_text (Literal l) = l"
| "segment_text (Param n) = CHR '':'' # n"
| "segment_text (OptionalParam n) = CHR '':'' # n @ ''?''"
| "segment_text (Splat n) = CHR ''*'' # n"

text \<open>Template segments that are written unambiguously; only these two bind one segment each.\<close>

fun plain_pattern :: "segment_pattern \<Rightarrow> bool" where
  "plain_pattern (Literal l) \<longleftrightarrow> l \<noteq> [] \<and> CHR ''/'' \<notin> set l \<and> \<not> starts_with l ''*'' \<and> \<not> starts_with l '':''"
| "plain_pattern (Param n) \<longleftrightarrow> CHR ''/'' \<notin> set n \<and> \<not> ends_with n ''?''"
| "plain_pattern _ \<longleftrightarrow> False"

fun instantiate :: "segment_pattern list \<Rightarrow> (string \<Rightarrow> string) \<Rightarrow> string list" where
  "instantiate [] f = []"
| "instantiate (Literal l # ps) f = l # instantiate ps f"
| "instantiate (Param n # ps) f = percent_encode (f n) # instantiate ps f"
| "instantiate (_ # ps) f = instantiate ps f"

fun param_names :: "segment_pattern list \<Rightarrow> string list" where
  "param_names [] = []"
| "param_names (Param n # ps) = n # param_names ps"
| "param_names (_ # ps) = param_names ps"

definition literal_count :: "segment_pattern list \<Rightarrow> nat" where
  "literal_count ps = length (filter (\<lambda>p. \<exists>l. p = Literal l) ps)"

lemma validate_encode:
  "utf8_valid (bytes_of v) \<Longrightarrow> validate_param (percent_encode v) = (if safe_segment v then Some v else None)"
  by (simp add: validate_param_def percent_decode_encode safe_segment_def)

lemma parse_segment_text: "plain_pattern p \<Longrightarrow> parse_segment (segment_text p) = p"
proof (cases p)
  case (Param n)
  assume "plain_pattern p"
  with Param have "strip_suffix ''?'' n = None" by (simp add: ends_with_def)
  with Param show ?thesis by (simp add: parse_segment_def)
qed (auto simp: parse_segment_literal)

lemma match_loop_instantiate:
  "list_all plain_pattern ps \<Longrightarrow> \<forall>n \<in> set (param_names ps). utf8_valid (bytes_of (f n)) \<and> safe_segment (f n) \<Longrightarrow>
   \<exists>m. match_loop ps (instantiate ps f) exact env spec i = Some m \<and>
     specificity m = spec + literal_count ps \<and> consumed_segments m = i + length ps \<and>
     params m = (\<lambda>n. if n \<in> set (param_names ps) then Some (f n) else env n)"
proof (induction ps arbitrary: env spec i)
  case (Cons p ps)
  then show ?case
  proof (cases p)
    case (Literal l)
    have "\<exists>m. match_loop ps (instantiate ps f) exact env (spec + 1) (i + 1) = Some m \<and>
        specificity m = spec + 1 + literal_count ps \<and> consumed_segments m = i + 1 + length ps \<and>
        params m = (\<lambda>n. if n \<in> set (param_names ps) then Some (f n) else env n)"
      using Literal Cons.prems by (intro Cons.IH) auto
    with Literal show ?thesis by (auto simp: literal_count_def)
  next
    case (Param n)
    have "\<exists>m. match_loop ps (instantiate ps f) exact (env(n \<mapsto> f n)) spec (i + 1) = Some m \<and>
        specificity m = spec + literal_count ps \<and> consumed_segments m = i + 1 + length ps \<and>
        params m = (\<lambda>n'. if n' \<in> set (param_names ps) then Some (f n') else (env(n \<mapsto> f n)) n')"
      using Param Cons.prems by (intro Cons.IH) auto
    with Param Cons.prems show ?thesis by (auto simp: validate_encode literal_count_def fun_eq_iff)
  qed auto
qed (simp add: literal_count_def fun_eq_iff)

lemma match_loop_unsafe:
  "list_all plain_pattern ps \<Longrightarrow> \<forall>n \<in> set (param_names ps). utf8_valid (bytes_of (f n)) \<Longrightarrow>
   \<exists>n \<in> set (param_names ps). \<not> safe_segment (f n) \<Longrightarrow> match_loop ps (instantiate ps f) exact env spec i = None"
proof (induction ps arbitrary: env spec i)
  case (Cons p ps)
  then show ?case by (cases p) (auto simp: validate_encode)
qed simp

section \<open>Properties\<close>

text \<open>
  C18.  Every bound route parameter is made of validated segments of the request.  The value of a
  parameter is one segment of the path, the one at the parameter's place in the template,
  percent-decoded; the value of a splat is all segments from some place to the end of the path,
  each percent-decoded, joined by slashes.  No decoded segment is \<open>..\<close> and none contains a NUL byte,
  nor does the value.  (A decoded segment may itself contain slashes that were percent-encoded, and
  so the text \<open>../\<close>: see \<open>encoded_traversal_accepted\<close>.)
\<close>

theorem route_params_safe:
  assumes "match_single_route tmpl request_path exact = Some m" "params m name = Some v"
  shows "0 \<notin> set (bytes_of v) \<and>
    (\<exists>pre ss post parts. split_path request_path = pre @ ss @ post \<and> map percent_decode ss = map Some parts \<and>
       (\<forall>part \<in> set parts. part \<noteq> ''..'' \<and> 0 \<notin> set (bytes_of part)) \<and> v = join_with ''/'' parts \<and>
       (length ss = 1 \<and> length pre < length (parse_template tmpl) \<and>
          parse_template tmpl ! length pre \<in> {Param name, OptionalParam name} \<or>
        post = [] \<and> Splat name \<in> set (parse_template tmpl)))"
proof -
  have "match_loop (parse_template tmpl) (split_path request_path) exact Map.empty 0 0 = Some m"
    using assms(1) by (simp add: match_single_route_def try_match_def)
  from match_loop_bindings [OF this, of "[]" "[]"] assms(2)
  have "binding (parse_template tmpl) (split_path request_path) name v" by simp
  with safe_segments_no_nul show ?thesis unfolding binding_def safe_segment_def list_all_iff by blast
qed

theorem route_params_safe_witness:
  "\<exists>m. match_single_route ''/files/*rest'' ''/files/a%20b/c'' True = Some m \<and> params m ''rest'' = Some ''a b/c'' \<and>
     0 \<notin> set (bytes_of ''a b/c'')"
proof -
  have "map_option (\<lambda>m. params m ''rest'') (match_single_route ''/files/*rest'' ''/files/a%20b/c'' True) = Some (Some ''a b/c'')"
    by code_simp
  then obtain m where m: "match_single_route ''/files/*rest'' ''/files/a%20b/c'' True = Some m" "params m ''rest'' = Some ''a b/c''"
    by auto
  with route_params_safe [OF m] show ?thesis by blast
qed

text \<open>
  C39.  A template and the paths made from it.  The template consists of literals (not empty,
  without a slash and not starting with \<open>*\<close> or \<open>:\<close>) and of parameters (whose names hold no slash and
  do not end in \<open>?\<close>); the path is made from it by percent-encoding a value for each parameter, each
  value not empty and valid UTF-8.  The template matches the path exactly when no value is \<open>..\<close> or
  contains a NUL byte; then it binds exactly these values, consumes every segment, and the
  specificity counts the literals.
\<close>

theorem route_roundtrip:
  assumes "list_all plain_pattern ps" "\<forall>n \<in> set (param_names ps). f n \<noteq> [] \<and> utf8_valid (bytes_of (f n))"
  shows "if \<forall>n \<in> set (param_names ps). f n \<noteq> ''..'' \<and> 0 \<notin> set (bytes_of (f n))
    then \<exists>m. match_single_route (render_path (map segment_text ps)) (render_path (instantiate ps f)) exact = Some m \<and>
      specificity m = literal_count ps \<and> consumed_segments m = length ps \<and>
      params m = (\<lambda>n. if n \<in> set (param_names ps) then Some (f n) else None)
    else match_single_route (render_path (map segment_text ps)) (render_path (instantiate ps f)) exact = None"
proof -
  have seg: "segment_text p \<noteq> [] \<and> CHR ''/'' \<notin> set (segment_text p)" if "plain_pattern p" for p
    using that by (cases p) auto
  have "split_path (render_path (map segment_text ps)) = map segment_text ps"
    by (rule split_render_path) (use assms(1) seg in \<open>auto simp: list_all_iff\<close>)
  moreover have "strip_prefix ''./'' (render_path (map segment_text ps)) = None"
    by (cases ps) (simp_all add: render_path_def)
  moreover have "map (parse_segment \<circ> segment_text) ps = ps"
    using assms(1) by (induction ps) (auto simp: parse_segment_text)
  ultimately have t: "parse_template (render_path (map segment_text ps)) = ps"
    by (simp add: parse_template_split)
  have enc: "percent_encode v \<noteq> [] \<and> CHR ''/'' \<notin> set (percent_encode v)" if "v \<noteq> []" for v
  proof -
    have "47 \<notin> set (bytes_of (percent_encode v))"
      unfolding bytes_percent_encode by (auto simp: hex_digit_def)
    then have "CHR ''/'' \<notin> set (percent_encode v)" by (auto simp: image_iff)
    moreover have "percent_encode v \<noteq> []" using that by (cases v) (simp_all add: percent_encode_def)
    ultimately show ?thesis by blast
  qed
  have "\<forall>s \<in> set (instantiate ps f). s \<noteq> [] \<and> CHR ''/'' \<notin> set s"
    using assms enc by (induction ps f rule: instantiate.induct) auto
  then have "split_path (render_path (instantiate ps f)) = instantiate ps f" by (rule split_render_path)
  with t have m: "match_single_route (render_path (map segment_text ps)) (render_path (instantiate ps f)) exact =
      match_loop ps (instantiate ps f) exact Map.empty 0 0"
    by (simp add: match_single_route_def try_match_def)
  show ?thesis
  proof (cases "\<forall>n \<in> set (param_names ps). safe_segment (f n)")
    case True
    then have "\<forall>n \<in> set (param_names ps). utf8_valid (bytes_of (f n)) \<and> safe_segment (f n)" using assms(2) by blast
    from match_loop_instantiate [OF assms(1) this, of exact Map.empty 0 0] True m show ?thesis
      by (simp add: safe_segment_def)
  next
    case False
    then have "match_loop ps (instantiate ps f) exact Map.empty 0 0 = None"
      using assms by (intro match_loop_unsafe) auto
    with False m show ?thesis by (auto simp: safe_segment_def)
  qed
qed

theorem route_roundtrip_witness:
  "(\<exists>m. match_single_route ''/users/:id'' ''/users/%61%2F%62'' True = Some m \<and> params m ''id'' = Some ''a/b'') \<and>
   match_single_route ''/users/:id'' ''/users/%2E%2E'' True = None"
proof
  let ?ps = "[Literal ''users'', Param ''id'']"
  have ps: "list_all plain_pattern ?ps" by code_simp
  have "\<forall>n \<in> set (param_names ?ps). ''a/b'' \<noteq> [] \<and> utf8_valid (bytes_of ''a/b'')" by code_simp
  from route_roundtrip [OF ps this] obtain m where
    "match_single_route (render_path (map segment_text ?ps)) (render_path (instantiate ?ps (\<lambda>_. ''a/b''))) True = Some m"
    "params m = (\<lambda>n. if n \<in> set (param_names ?ps) then Some ''a/b'' else None)" by auto
  moreover have "render_path (map segment_text ?ps) = ''/users/:id''"
    "render_path (instantiate ?ps (\<lambda>_. ''a/b'')) = ''/users/%61%2F%62''" by code_simp+
  ultimately show "\<exists>m. match_single_route ''/users/:id'' ''/users/%61%2F%62'' True = Some m \<and> params m ''id'' = Some ''a/b''"
    by auto
  have "\<forall>n \<in> set (param_names ?ps). ''..'' \<noteq> [] \<and> utf8_valid (bytes_of ''..'')" by code_simp
  from route_roundtrip [OF ps this, of True]
  have "match_single_route (render_path (map segment_text ?ps)) (render_path (instantiate ?ps (\<lambda>_. ''..''))) True = None"
    by simp
  moreover have "render_path (map segment_text ?ps) = ''/users/:id''"
    "render_path (instantiate ?ps (\<lambda>_. ''..'')) = ''/users/%2E%2E''" by code_simp+
  ultimately show "match_single_route ''/users/:id'' ''/users/%2E%2E'' True = None" by simp
qed

text \<open>
  C35.  The index holds every authored route, nested ones included, and matching a relative
  template through it, after the segments its parent consumed, is matching the template
  resolved against that base, provided the consumed segments are not written like patterns.
\<close>

theorem indexed_match_resolves:
  assumes "r0 \<in> set (concat (map (routes_of \<circ> fragments) fls))" "r \<in> set (route_all r0)"
    and "route_base = compute_route_base request_path consumed"
    and "\<forall>p \<in> set (take consumed (split_path request_path)). \<not> starts_with p ''*'' \<and> \<not> starts_with p '':''"
  shows "match_route_indexed_with_segments (compiled_route_index fls) (route_path r) route_base (split_path request_path) exact =
    match_single_route (resolve_route_path (route_path r) route_base) request_path exact"
proof -
  have "compiled_route_index fls (route_path r) = Some (parse_template (route_path r))"
    using index_loop_covers [of Map.empty "concat (map (routes_of \<circ> fragments) fls)" "route_path r"] assms(1,2)
    by (auto simp: compiled_route_index_def)
  then show ?thesis using assms(3,4) by (rule indexed_match_eq)
qed

definition sample_routes :: "fragment_list list" where
  "sample_routes = [\<lparr>fragments = [frag_route_from
     (WebUiFragmentRoute ''/sections/:id'' ''s'' False
        [WebUiFragmentRoute ''topics/:t'' ''t'' True [] [] False [] [] [] [] []] [] False [] [] [] [] [])],
     contains_boundary = False\<rparr>]"

theorem indexed_match_resolves_witness:
  "match_route_indexed_with_segments (compiled_route_index sample_routes) ''topics/:t'' ''/sections/1''
     (split_path ''/sections/1/topics/x'') True =
   match_single_route ''/sections/1/topics/:t'' ''/sections/1/topics/x'' True"
proof -
  let ?c = "WebUiFragmentRoute ''topics/:t'' ''t'' True [] [] False [] [] [] [] []"
  let ?r = "WebUiFragmentRoute ''/sections/:id'' ''s'' False [?c] [] False [] [] [] [] []"
  have "?r \<in> set (concat (map (routes_of \<circ> fragments) sample_routes))"
    by (simp add: sample_routes_def routes_of_def frag_route_from_def map_filter_simps)
  moreover have "?c \<in> set (route_all ?r)" by simp
  moreover have "''/sections/1'' = compute_route_base ''/sections/1/topics/x'' 2" by code_simp
  moreover have "\<forall>p \<in> set (take 2 (split_path ''/sections/1/topics/x'')). \<not> starts_with p ''*'' \<and> \<not> starts_with p '':''" by code_simp
  ultimately have "match_route_indexed_with_segments (compiled_route_index sample_routes) (route_path ?c) ''/sections/1''
     (split_path ''/sections/1/topics/x'') True =
   match_single_route (resolve_route_path (route_path ?c) ''/sections/1'') ''/sections/1/topics/x'' True"
    by (rule indexed_match_resolves)
  moreover have "resolve_route_path (route_path ?c) ''/sections/1'' = ''/sections/1/topics/:t''" by code_simp
  ultimately show ?thesis by simp
qed

text \<open>
  C17.  Among sibling routes the best match is the first of those with the highest
  specificity, and there is none only if no sibling matches.
\<close>

theorem best_route_first_maximal:
  "case find_best_route_match fs request_path route_base index of
     None \<Rightarrow> route_candidates (split_path request_path) route_base index fs = []
   | Some c \<Rightarrow> first_best (route_candidates (split_path request_path) route_base index fs) c"
proof -
  let ?cs = "route_candidates (split_path request_path) route_base index fs"
  have "find_best_route_match fs request_path route_base index = foldl better None ?cs"
    by (simp add: find_best_route_match_def best_loop_fold split_request_path_def)
  then show ?thesis using foldl_better [of ?cs] by (cases "?cs = []") auto
qed

text \<open>
   The base for nested routes is the part of the request path a match consumed: its
  segments are the first consumed segments of the path.
\<close>

theorem route_base_prefix: "split_path (compute_route_base request_path n) = take n (split_path request_path)"
  by (rule split_compute_route_base)

section \<open>Encoded separators\<close>

text \<open>
  The check for \<open>..\<close> looks at a whole decoded segment: a segment with encoded slashes
  decodes to a value that still climbs directories.
\<close>

lemma encoded_traversal_accepted: "validate_param ''..%2F..%2Fetc'' = Some ''../../etc''"
  by code_simp

end
