(* ===== verification/Protocol_Check.thy ===== *)
theory Protocol_Check
  imports Style_Closures Asset_Base Route_Matcher
begin

text \<open>
  Validation of a compiled protocol before it is used
  (\<open>validate_protocol\<close> of \<open>crates/webui-protocol/src/lib.rs\<close>): references between records,
  the inline tapes of streaming boundaries, and their identities.  Error messages are values
  of a datatype with the data the source formats into them.
\<close>

datatype validation_reason =
    UnknownCssStrategy int
  | InvalidAssetBase asset_base_problem_value
  | MissingComponent string
  | MissingForLoop string
  | MissingIfCond string
  | MissingTemplate string
  | MissingBoundaryOwner u32 string
  | MissingRouteReference string string
  | UnbalancedTape u32
  | UnterminatedTape u32
  | EmptyBoundaryName u32
  | EmptyBoundaryKey u32
  | DuplicateBoundaryId u32
  | DuplicateBoundaryName string string

datatype protocol_error = ProtocolIo | Validation validation_reason

fun find_map :: "('a \<Rightarrow> 'b option) \<Rightarrow> 'a list \<Rightarrow> 'b option" where
  "find_map f [] = None"
| "find_map f (x # xs) = (case f x of Some y \<Rightarrow> Some y | None \<Rightarrow> find_map f xs)"

lemma find_map_None [simp]: "find_map f xs = None \<longleftrightarrow> (\<forall>x \<in> set xs. f x = None)"
  by (induction xs) (auto split: option.splits)

section \<open>References\<close>

definition route_reference_error :: "(string \<rightharpoonup> fragment_list) \<Rightarrow> web_ui_route \<Rightarrow> protocol_error option" where
  "route_reference_error frags route = find_map
     (\<lambda>(kd, fid). if fid \<noteq> [] \<and> frags fid = None then Some (Validation (MissingRouteReference kd fid)) else None)
     [(''component'', route_fragment_id route), (''content'', route_content_fragment_id route)]"

text \<open>The stack of pending routes, popped from the end.\<close>

function route_references_loop :: "(string \<rightharpoonup> fragment_list) \<Rightarrow> web_ui_route list \<Rightarrow> protocol_error option" where
  "route_references_loop frags pending =
     (if pending = [] then None
      else case route_reference_error frags (last pending) of
        Some e \<Rightarrow> Some e
      | None \<Rightarrow> route_references_loop frags (butlast pending @ route_children (last pending)))"
  by pat_completeness auto
termination
  by (relation "measure (\<lambda>(_, pending). sum_list (map route_size pending))") (auto dest: pending_shrinks)

declare route_references_loop.simps [simp del]

definition validate_route_references :: "(string \<rightharpoonup> fragment_list) \<Rightarrow> web_ui_route \<Rightarrow> protocol_error option" where
  "validate_route_references frags rt = route_references_loop frags [rt]"

definition reference_error :: "(string \<rightharpoonup> fragment_list) \<Rightarrow> web_ui_fragment \<Rightarrow> protocol_error option" where
  "reference_error frags f = (case f of
     Some (FComponent c) \<Rightarrow> if frags c = None then Some (Validation (MissingComponent c)) else None
   | Some (FForLoop l) \<Rightarrow>
       if frags (for_fragment_id l) = None then Some (Validation (MissingForLoop (for_fragment_id l))) else None
   | Some (FIfCond i) \<Rightarrow>
       if frags (if_fragment_id i) = None then Some (Validation (MissingIfCond (if_fragment_id i))) else None
   | Some (FAttribute a) \<Rightarrow>
       if attr_template a \<noteq> [] \<and> frags (attr_template a) = None then Some (Validation (MissingTemplate (attr_template a))) else None
   | Some (FBoundary b) \<Rightarrow>
       if phase b = PhaseStart \<and> frags (owner_fragment_id b) = None
       then Some (Validation (MissingBoundaryOwner (declaration_id b) (owner_fragment_id b))) else None
   | Some (FRoute r) \<Rightarrow> validate_route_references frags r
   | _ \<Rightarrow> None)"

section \<open>Boundary tapes\<close>

fun tape_loop ::
  "web_ui_fragment list \<Rightarrow> u32 option \<Rightarrow> u32 set \<Rightarrow> (string \<times> string) set \<Rightarrow>
   (protocol_error, u32 set \<times> (string \<times> string) set) result" where
  "tape_loop [] opn ids names = (case opn of
     Some d \<Rightarrow> Inl (Validation (UnterminatedTape d))
   | None \<Rightarrow> Inr (ids, names))"
| "tape_loop (f # fs) opn ids names = (case f of
     Some (FBoundary b) \<Rightarrow>
       if phase b = PhaseEnd then
         (if opn = Some (declaration_id b) then tape_loop fs None ids names
          else Inl (Validation (UnbalancedTape (declaration_id b))))
       else if opn \<noteq> None then Inl (Validation (UnbalancedTape (declaration_id b)))
       else if trim (boundary_name b) = [] then Inl (Validation (EmptyBoundaryName (declaration_id b)))
       else if (case boundary_key b of Some k \<Rightarrow> trim k = [] | None \<Rightarrow> False)
         then Inl (Validation (EmptyBoundaryKey (declaration_id b)))
       else if declaration_id b \<in> ids then Inl (Validation (DuplicateBoundaryId (declaration_id b)))
       else if (owner_fragment_id b, boundary_name b) \<in> names
         then Inl (Validation (DuplicateBoundaryName (boundary_name b) (owner_fragment_id b)))
       else tape_loop fs (Some (declaration_id b)) (insert (declaration_id b) ids)
              (insert (owner_fragment_id b, boundary_name b) names)
   | _ \<Rightarrow> tape_loop fs opn ids names)"

fun tapes_loop ::
  "fragment_list list \<Rightarrow> u32 set \<Rightarrow> (string \<times> string) set \<Rightarrow> (protocol_error, u32 set \<times> (string \<times> string) set) result" where
  "tapes_loop [] ids names = Inr (ids, names)"
| "tapes_loop (fl # fls) ids names =
     rbind (tape_loop (fragments fl) None ids names) (\<lambda>(ids', names'). tapes_loop fls ids' names')"

definition validate_protocol :: "web_ui_protocol \<Rightarrow> (protocol_error, web_ui_protocol) result" where
  "validate_protocol p =
     (if css_try_from (p_css_strategy p) = None then Inl (Validation (UnknownCssStrategy (p_css_strategy p)))
      else rbind (if p_asset_base p \<noteq> [] then
          (case validate_asset_base (p_asset_base p) of Inl e \<Rightarrow> Inl (Validation (InvalidAssetBase e)) | Inr u \<Rightarrow> Inr u)
          else Inr ()) (\<lambda>_.
        case find_map (\<lambda>(_, fl). find_map (reference_error (map_of (p_fragments p))) (fragments fl)) (p_fragments p) of
          Some e \<Rightarrow> Inl e
        | None \<Rightarrow> rbind (tapes_loop (map snd (p_fragments p)) {} {}) (\<lambda>_. Inr p)))"

section \<open>The specification\<close>

text \<open>The records a fragment refers to.\<close>

definition references :: "web_ui_fragment \<Rightarrow> string set" where
  "references f = (case f of
     Some (FComponent c) \<Rightarrow> {c}
   | Some (FForLoop l) \<Rightarrow> {for_fragment_id l}
   | Some (FIfCond i) \<Rightarrow> {if_fragment_id i}
   | Some (FAttribute a) \<Rightarrow> {attr_template a} - {[]}
   | Some (FBoundary b) \<Rightarrow> if phase b = PhaseStart then {owner_fragment_id b} else {}
   | Some (FRoute r) \<Rightarrow> (\<Union>q \<in> set (route_all r). {route_fragment_id q, route_content_fragment_id q}) - {[]}
   | _ \<Rightarrow> {})"

definition boundaries :: "web_ui_fragment list \<Rightarrow> web_ui_boundary list" where
  "boundaries fs = List.map_filter (\<lambda>f. case f of Some (FBoundary b) \<Rightarrow> Some b | _ \<Rightarrow> None) fs"

definition boundary_named :: "web_ui_boundary \<Rightarrow> bool" where
  "boundary_named b \<longleftrightarrow> trim (boundary_name b) \<noteq> [] \<and> (case boundary_key b of Some k \<Rightarrow> trim k \<noteq> [] | None \<Rightarrow> True)"

text \<open>A tape: named starts, each closed by the end with its identity before the next start.\<close>

fun tape :: "u32 option \<Rightarrow> web_ui_boundary list \<Rightarrow> bool" where
  "tape None [] \<longleftrightarrow> True"
| "tape (Some d) [] \<longleftrightarrow> False"
| "tape None (b # bs) \<longleftrightarrow> phase b = PhaseStart \<and> boundary_named b \<and> tape (Some (declaration_id b)) bs"
| "tape (Some d) (b # bs) \<longleftrightarrow> phase b = PhaseEnd \<and> declaration_id b = d \<and> tape None bs"

definition starts :: "web_ui_fragment list \<Rightarrow> web_ui_boundary list" where
  "starts fs = filter (\<lambda>b. phase b = PhaseStart) (boundaries fs)"

definition protocol_ok :: "web_ui_protocol \<Rightarrow> bool" where
  "protocol_ok p \<longleftrightarrow>
     css_try_from (p_css_strategy p) \<noteq> None \<and>
     (p_asset_base p = [] \<or> validate_asset_base (p_asset_base p) = Inr ()) \<and>
     (\<forall>fl \<in> snd ` set (p_fragments p). \<forall>f \<in> set (fragments fl). references f \<subseteq> fst ` set (p_fragments p)) \<and>
     (\<forall>fl \<in> snd ` set (p_fragments p). tape None (boundaries (fragments fl))) \<and>
     distinct (map declaration_id (concat (map (starts \<circ> fragments \<circ> snd) (p_fragments p)))) \<and>
     distinct (map (\<lambda>b. (owner_fragment_id b, boundary_name b)) (concat (map (starts \<circ> fragments \<circ> snd) (p_fragments p))))"

section \<open>Facts\<close>

definition route_refers :: "(string \<rightharpoonup> fragment_list) \<Rightarrow> web_ui_route \<Rightarrow> bool" where
  "route_refers frags r \<longleftrightarrow> {route_fragment_id r, route_content_fragment_id r} - {[]} \<subseteq> dom frags"

lemma route_reference_error_None: "route_reference_error frags r = None \<longleftrightarrow> route_refers frags r"
  by (auto simp: route_reference_error_def route_refers_def split: if_splits)

lemma route_references_None:
  "route_references_loop frags pending = None \<longleftrightarrow>
   (\<forall>r \<in> set pending. \<forall>q \<in> set (route_all r). route_refers frags q)"
proof (induction frags pending rule: route_references_loop.induct)
  case (1 frags pending)
  let ?ok = "route_refers frags"
  show ?case
  proof (cases "pending = []")
    case True
    then show ?thesis by (simp add: route_references_loop.simps)
  next
    case ne: False
    have sp: "set pending = insert (last pending) (set (butlast pending))"
      using ne by (metis append_butlast_last_id list.set(1,2) set_append sup_commute insert_is_Un)
    show ?thesis
    proof (cases "route_reference_error frags (last pending)")
      case None
      then have ok: "?ok (last pending)" by (simp only: route_reference_error_None)
      have "route_references_loop frags pending = route_references_loop frags (butlast pending @ route_children (last pending))"
        using ne None by (simp add: route_references_loop.simps [of frags pending])
      also have "\<dots> = None \<longleftrightarrow>
          (\<forall>r \<in> set (butlast pending @ route_children (last pending)). \<forall>q \<in> set (route_all r). ?ok q)"
        using "1.IH" [OF ne None] .
      also have "\<dots> \<longleftrightarrow> (\<forall>r \<in> set pending. \<forall>q \<in> set (route_all r). ?ok q)"
        unfolding sp using ok route_all_unfold [of "last pending"] by auto
      finally show ?thesis .
    next
      case (Some e)
      then have "\<not> ?ok (last pending)" by (metis option.distinct(1) route_reference_error_None)
      moreover have "last pending \<in> set pending" "last pending \<in> set (route_all (last pending))"
        using ne route_all_unfold [of "last pending"] by auto
      moreover have "route_references_loop frags pending \<noteq> None"
        using ne Some by (simp add: route_references_loop.simps [of frags pending])
      ultimately show ?thesis by blast
    qed
  qed
qed

lemma reference_error_None: "reference_error frags f = None \<longleftrightarrow> references f \<subseteq> dom frags"
proof (cases f)
  case (Some g)
  show ?thesis
  proof (cases g)
    case (FRoute r)
    have "validate_route_references frags r = None \<longleftrightarrow>
        (\<Union>q \<in> set (route_all r). {route_fragment_id q, route_content_fragment_id q}) - {[]} \<subseteq> dom frags"
      unfolding validate_route_references_def route_references_None by (auto simp: route_refers_def)
    then show ?thesis using Some FRoute by (simp add: reference_error_def references_def)
  qed (use Some in \<open>auto simp: reference_error_def references_def\<close>)
qed (simp add: reference_error_def references_def)

lemma boundaries_simps [simp]:
  "boundaries [] = []"
  "boundaries (f # fs) = (case f of Some (FBoundary b) \<Rightarrow> b # boundaries fs | _ \<Rightarrow> boundaries fs)"
  by (simp_all add: boundaries_def map_filter_simps split: option.splits fragment.splits)

lemma starts_simps:
  "starts [] = []"
  "starts (f # fs) = (case f of Some (FBoundary b) \<Rightarrow> if phase b = PhaseStart then b # starts fs else starts fs | _ \<Rightarrow> starts fs)"
  by (simp_all add: starts_def split: option.splits fragment.splits)

abbreviation bname :: "web_ui_boundary \<Rightarrow> string \<times> string" where
  "bname \<equiv> (\<lambda>b. (owner_fragment_id b, boundary_name b))"

text \<open>The identities a list of starts adds to those already seen, all of them new.\<close>

definition adds :: "web_ui_boundary list \<Rightarrow> u32 set \<Rightarrow> (string \<times> string) set \<Rightarrow> u32 set \<times> (string \<times> string) set \<Rightarrow> bool" where
  "adds bs ids names res \<longleftrightarrow>
     distinct (map declaration_id bs) \<and> declaration_id ` set bs \<inter> ids = {} \<and>
     distinct (map bname bs) \<and> bname ` set bs \<inter> names = {} \<and>
     res = (ids \<union> declaration_id ` set bs, names \<union> bname ` set bs)"

lemma adds_Cons:
  "adds (b # bs) ids names res \<longleftrightarrow> declaration_id b \<notin> ids \<and> bname b \<notin> names \<and>
     adds bs (insert (declaration_id b) ids) (insert (bname b) names) res"
  by (auto simp: adds_def)

lemma adds_append:
  "adds (as @ bs) ids names res \<longleftrightarrow> (\<exists>ids' names'. adds as ids names (ids', names') \<and> adds bs ids' names' res)"
  by (induction as arbitrary: ids names) (auto simp: adds_Cons, auto simp: adds_def)

lemma tape_loop_iff:
  "tape_loop fs opn ids names = Inr res \<longleftrightarrow> tape opn (boundaries fs) \<and> adds (starts fs) ids names res"
proof (induction fs arbitrary: opn ids names)
  case Nil
  then show ?case by (cases opn; cases res) (auto simp: starts_simps adds_def)
next
  case (Cons f fs)
  show ?case
  proof (cases "\<exists>b. f = Some (FBoundary b)")
    case False
    with Cons.IH show ?thesis by (auto simp: starts_simps split: option.splits fragment.splits)
  next
    case True
    then obtain b where b: "f = Some (FBoundary b)" by blast
    show ?thesis
    proof (cases "phase b")
      case PhaseEnd
      with b Cons.IH show ?thesis by (cases opn) (auto simp: starts_simps)
    next
      case PhaseStart
      show ?thesis
      proof (cases opn)
        case (Some d)
        with b PhaseStart show ?thesis by simp
      next
        case None
        have "tape_loop (f # fs) opn ids names = Inr res \<longleftrightarrow> boundary_named b \<and> declaration_id b \<notin> ids \<and> bname b \<notin> names \<and>
            tape_loop fs (Some (declaration_id b)) (insert (declaration_id b) ids) (insert (bname b) names) = Inr res"
          using b PhaseStart None by (auto simp: boundary_named_def split: option.splits)
        then show ?thesis using b PhaseStart None Cons.IH by (auto simp: starts_simps adds_Cons)
      qed
    qed
  qed
qed

lemma tapes_loop_iff:
  "tapes_loop fls ids names = Inr res \<longleftrightarrow>
   (\<forall>fl \<in> set fls. tape None (boundaries (fragments fl))) \<and> adds (concat (map (starts \<circ> fragments) fls)) ids names res"
proof (induction fls arbitrary: ids names)
  case Nil
  show ?case by (cases res) (auto simp: adds_def)
next
  case (Cons fl fls)
  show ?case
    by (simp add: rbind_Inr_iff tape_loop_iff Cons.IH adds_append case_prod_unfold) blast
qed

section \<open>Properties\<close>

text \<open>
  C3.  A protocol passes validation exactly when it is consistent, and is then returned
  unchanged: a known style strategy, a safe asset base if there is one, every component,
  loop, condition, attribute template, boundary owner and (nested) route referring to an
  existing record, in every record the boundary markers a tape of named starts each closed by
  its own end before the next, and the boundary identities, and the names within an owner,
  unique over all records.
\<close>

theorem validate_protocol_exact:
  "validate_protocol p = Inr q \<longleftrightarrow> q = p \<and> protocol_ok p"
proof -
  let ?fl = "p_fragments p"
  have refs: "find_map (\<lambda>(_, fl). find_map (reference_error (map_of ?fl)) (fragments fl)) ?fl = None \<longleftrightarrow>
      (\<forall>fl \<in> snd ` set ?fl. \<forall>f \<in> set (fragments fl). references f \<subseteq> fst ` set ?fl)"
    by (simp add: case_prod_unfold reference_error_None dom_map_of_conv_image_fst)
  have tapes: "(\<exists>res. tapes_loop (map snd ?fl) {} {} = Inr res) \<longleftrightarrow>
      (\<forall>fl \<in> snd ` set ?fl. tape None (boundaries (fragments fl))) \<and>
      distinct (map declaration_id (concat (map (starts \<circ> fragments \<circ> snd) ?fl))) \<and>
      distinct (map bname (concat (map (starts \<circ> fragments \<circ> snd) ?fl)))"
    by (auto simp: tapes_loop_iff adds_def comp_assoc)
  have base: "(\<exists>u. (if p_asset_base p \<noteq> [] then
          (case validate_asset_base (p_asset_base p) of Inl e \<Rightarrow> Inl (Validation (InvalidAssetBase e)) | Inr u \<Rightarrow> Inr u)
          else Inr ()) = Inr u) \<longleftrightarrow> p_asset_base p = [] \<or> validate_asset_base (p_asset_base p) = Inr ()"
    by (auto split: sum.splits)
  define fm where "fm = find_map (\<lambda>(_, fl). find_map (reference_error (map_of ?fl)) (fragments fl)) ?fl"
  define tl where "tl = tapes_loop (map snd ?fl) {} {}"
  define bs where "bs = (if p_asset_base p \<noteq> [] then
      (case validate_asset_base (p_asset_base p) of Inl e \<Rightarrow> Inl (Validation (InvalidAssetBase e)) | Inr u \<Rightarrow> Inr u)
      else Inr ())"
  have "validate_protocol p = Inr q \<longleftrightarrow> q = p \<and> css_try_from (p_css_strategy p) \<noteq> None \<and> (\<exists>u. bs = Inr u) \<and> fm = None \<and>
      (\<exists>res. tl = Inr res)"
    unfolding validate_protocol_def fm_def [symmetric] tl_def [symmetric] bs_def [symmetric]
    by (cases fm; cases tl; cases bs) auto
  then show ?thesis unfolding protocol_ok_def fm_def tl_def bs_def base refs tapes by blast
qed

end
