(* ===== verification/Ipc_Error.thy ===== *)
theory Ipc_Error
  imports Prelude Rust_Str
begin

text \<open>
  Diagnostics of the desktop IPC, \<open>crates/webui-desktop/src/ipc/error.rs\<close>: the stable error
  codes with their wire spelling, and the conversion to and from the wire form that cuts
  every text at a character boundary within a shared budget.
\<close>

datatype ipc_error_code =
    InvalidFrame | InvalidPayload | PayloadTooLarge | UnsupportedVersion | SchemaMismatch
  | PermissionDenied | UnknownMethod | ReceiverUnavailable | NotReady | Overloaded | Cancelled
  | DeadlineExceeded | Navigated | Closed | Transport | Handler

fun as_str :: "ipc_error_code \<Rightarrow> string" where
  "as_str InvalidFrame = ''invalid-frame''"
| "as_str InvalidPayload = ''invalid-payload''"
| "as_str PayloadTooLarge = ''payload-too-large''"
| "as_str UnsupportedVersion = ''unsupported-version''"
| "as_str SchemaMismatch = ''schema-mismatch''"
| "as_str PermissionDenied = ''permission-denied''"
| "as_str UnknownMethod = ''unknown-method''"
| "as_str ReceiverUnavailable = ''receiver-unavailable''"
| "as_str NotReady = ''not-ready''"
| "as_str Overloaded = ''overloaded''"
| "as_str Cancelled = ''cancelled''"
| "as_str DeadlineExceeded = ''deadline-exceeded''"
| "as_str Navigated = ''navigated''"
| "as_str Closed = ''closed''"
| "as_str Transport = ''transport''"
| "as_str Handler = ''handler''"

definition all_codes :: "ipc_error_code list" where
  "all_codes = [InvalidFrame, InvalidPayload, PayloadTooLarge, UnsupportedVersion, SchemaMismatch,
     PermissionDenied, UnknownMethod, ReceiverUnavailable, NotReady, Overloaded, Cancelled,
     DeadlineExceeded, Navigated, Closed, Transport, Handler]"

text \<open>\<open>IpcErrorCode::from_wire\<close>: the arms of the match in order, \<open>Transport\<close> otherwise.\<close>

definition code_from_wire :: "string \<Rightarrow> ipc_error_code" where
  "code_from_wire value = (case find (\<lambda>c. as_str c = value) all_codes of Some c \<Rightarrow> c | None \<Rightarrow> Transport)"

record ipc_error =
  err_code :: ipc_error_code
  err_message :: string
  err_help :: string
  err_application_code :: "string option"

record wire_error =
  we_code :: string
  we_message :: string
  we_help :: string
  we_application_code :: string

definition ipc_error_new :: "ipc_error_code \<Rightarrow> string \<Rightarrow> string \<Rightarrow> ipc_error" where
  "ipc_error_new code message help =
     \<lparr>err_code = code, err_message = message, err_help = help, err_application_code = None\<rparr>"

text \<open>The search for a character boundary at or below \<open>end\<close>; 0 is always one.\<close>

fun boundary_at_most :: "string \<Rightarrow> nat \<Rightarrow> nat" where
  "boundary_at_most s 0 = 0"
| "boundary_at_most s (Suc n) =
     (if is_char_boundary (bytes_of s) (Suc n) then Suc n else boundary_at_most s n)"

definition bounded :: "string \<Rightarrow> nat \<Rightarrow> string \<times> nat" where
  "bounded s remaining = (let e = boundary_at_most s (min (length s) remaining) in (take e s, remaining - e))"

definition err_wire :: "ipc_error \<Rightarrow> nat \<Rightarrow> wire_error" where
  "err_wire e budget =
     (let r0 = budget - length (as_str (err_code e));
          (m, r1) = bounded (err_message e) r0;
          (h, r2) = bounded (err_help e) r1;
          (a, r3) = bounded (case err_application_code e of Some x \<Rightarrow> x | None \<Rightarrow> []) r2
      in \<lparr>we_code = as_str (err_code e), we_message = m, we_help = h, we_application_code = a\<rparr>)"

definition err_from_wire :: "wire_error \<Rightarrow> nat \<Rightarrow> ipc_error" where
  "err_from_wire v budget =
     (let code = code_from_wire (we_code v);
          r0 = budget - length (as_str code);
          (m, r1) = bounded (we_message v) r0;
          (h, r2) = bounded (we_help v) r1;
          (a, r3) = bounded (we_application_code v) r2
      in \<lparr>err_code = code, err_message = m, err_help = h,
          err_application_code = (if a \<noteq> [] then Some a else None)\<rparr>)"

fun fail_help :: "ipc_error_code \<Rightarrow> string" where
  "fail_help Overloaded = ''reduce concurrent IPC work and wait for capacity before sending again''"
| "fail_help SchemaMismatch = ''regenerate and deploy matching host and renderer bindings together''"
| "fail_help UnsupportedVersion = ''regenerate and deploy matching host and renderer bindings together''"
| "fail_help PermissionDenied = ''use the admitted main document and explicitly grant this method on the host''"
| "fail_help InvalidFrame = ''send the generated payload type and supported desktop IPC envelope''"
| "fail_help InvalidPayload = ''send the generated payload type and supported desktop IPC envelope''"
| "fail_help PayloadTooLarge = ''send a smaller message within the configured frame and collection limits''"
| "fail_help NotReady = ''wait for a newly admitted document and acquire its session''"
| "fail_help Navigated = ''wait for a newly admitted document and acquire its session''"
| "fail_help UnknownMethod = ''install the generated receiver before sending this method''"
| "fail_help ReceiverUnavailable = ''install the generated receiver before sending this method''"
| "fail_help DeadlineExceeded = ''use cancellable asynchronous work and an appropriate bounded timeout''"
| "fail_help Cancelled = ''start a new call only if the application operation can safely be repeated''"
| "fail_help Closed = ''create a new frame; closed sessions cannot reconnect''"
| "fail_help Transport = ''check the native IPC adapter and platform support''"
| "fail_help Handler = ''handle the application failure without sending private exception details''"

definition fail :: "ipc_error_code \<Rightarrow> ipc_error" where
  "fail code = ipc_error_new code (as_str code) (fail_help code)"

section \<open>Lemmas\<close>

lemma code_from_wire_as_str [simp]: "code_from_wire (as_str c) = c"
  by (cases c) (simp_all add: code_from_wire_def all_codes_def)

lemma as_str_length: "length (as_str c) \<le> 20"
  by (cases c) simp_all

lemma boundary_at_most_le: "boundary_at_most s n \<le> n"
  by (induction s n rule: boundary_at_most.induct) auto

lemma boundary_at_most_boundary: "is_char_boundary (bytes_of s) (boundary_at_most s n)"
  by (induction s n rule: boundary_at_most.induct) (auto simp: is_char_boundary_def)

lemma boundary_at_most_length: "boundary_at_most s (length s) = length s"
  by (cases "length s") (auto simp: is_char_boundary_def)

lemma bounded_fits: "length s \<le> r \<Longrightarrow> bounded s r = (s, r - length s)"
  by (simp add: bounded_def boundary_at_most_length min_absorb1)

lemma bounded_budget: "bounded s r = (t, r') \<Longrightarrow> length t + r' = r"
  using boundary_at_most_le [of s "min (length s) r"] by (auto simp: bounded_def Let_def)

lemma bounded_valid:
  assumes "bounded s r = (t, r')" "utf8_valid (bytes_of s)"
  shows "utf8_valid (bytes_of t)"
proof -
  have "t = take (boundary_at_most s (min (length s) r)) s" using assms(1) by (simp add: bounded_def Let_def)
  then show ?thesis
    using utf8_valid_boundary [OF assms(2) boundary_at_most_boundary] by (simp add: take_map)
qed

definition wire_error_text :: "wire_error \<Rightarrow> nat" where
  "wire_error_text v = length (we_code v) + length (we_message v) + length (we_help v) + length (we_application_code v)"

lemma err_wire_budget: "wire_error_text (err_wire e budget) \<le> max budget (length (as_str (err_code e)))"
  by (auto simp: err_wire_def wire_error_text_def Let_def split: prod.splits dest!: bounded_budget)

definition wire_error_utf8 :: "wire_error \<Rightarrow> bool" where
  "wire_error_utf8 v \<longleftrightarrow> utf8_valid (bytes_of (we_code v)) \<and> utf8_valid (bytes_of (we_message v)) \<and>
     utf8_valid (bytes_of (we_help v)) \<and> utf8_valid (bytes_of (we_application_code v))"

definition ipc_error_utf8 :: "ipc_error \<Rightarrow> bool" where
  "ipc_error_utf8 e \<longleftrightarrow> utf8_valid (bytes_of (err_message e)) \<and> utf8_valid (bytes_of (err_help e)) \<and>
     (\<forall>a. err_application_code e = Some a \<longrightarrow> utf8_valid (bytes_of a))"

lemma as_str_ascii: "ascii_string (as_str c)"
  by (cases c) simp_all

lemma as_str_utf8: "utf8_valid (bytes_of (as_str c))"
  by (rule utf8_valid_ascii) (use as_str_ascii in auto)

lemma err_wire_utf8: "ipc_error_utf8 e \<Longrightarrow> wire_error_utf8 (err_wire e budget)"
  using as_str_utf8 [of "err_code e"]
  by (auto simp: err_wire_def wire_error_utf8_def ipc_error_utf8_def Let_def split: prod.splits option.splits
      dest!: bounded_valid)

section \<open>Properties\<close>

text \<open>
  C37.  A diagnostic keeps within its text budget on the wire, stays UTF-8 however it is cut,
  and comes back unchanged when it fits and its application code is not the empty text (which
  comes back as none); the code survives always.  The budget must cover the code itself, which is
  at most 20 bytes.
\<close>

theorem ipc_error_wire_bounded:
  assumes "ipc_error_utf8 e" "20 \<le> budget"
  shows "wire_error_text (err_wire e budget) \<le> budget \<and> wire_error_utf8 (err_wire e budget) \<and>
    err_code (err_from_wire (err_wire e budget) budget) = err_code e \<and>
    (length (as_str (err_code e)) + length (err_message e) + length (err_help e) +
       length (case err_application_code e of Some x \<Rightarrow> x | None \<Rightarrow> []) \<le> budget \<and> err_application_code e \<noteq> Some [] \<longrightarrow>
     err_from_wire (err_wire e budget) budget = e)"
proof (intro conjI impI)
  show "wire_error_text (err_wire e budget) \<le> budget"
    using err_wire_budget [of e budget] as_str_length [of "err_code e"] assms(2) by linarith
  show "wire_error_utf8 (err_wire e budget)" using assms(1) by (rule err_wire_utf8)
  show "err_code (err_from_wire (err_wire e budget) budget) = err_code e"
    by (simp add: err_from_wire_def err_wire_def Let_def case_prod_unfold)
  assume "length (as_str (err_code e)) + length (err_message e) + length (err_help e) +
       length (case err_application_code e of Some x \<Rightarrow> x | None \<Rightarrow> []) \<le> budget \<and> err_application_code e \<noteq> Some []"
  then show "err_from_wire (err_wire e budget) budget = e"
    by (cases e) (auto simp: err_wire_def err_from_wire_def bounded_fits Let_def split: option.splits)
qed

theorem ipc_error_wire_bounded_witness:
  "ipc_error_utf8 (fail NotReady) \<and> err_from_wire (err_wire (fail NotReady) 2048) 2048 = fail NotReady"
proof -
  have u: "ipc_error_utf8 (fail NotReady)"
    by (simp add: ipc_error_utf8_def fail_def ipc_error_new_def utf8_valid_ascii)
  have "length (as_str (err_code (fail NotReady))) + length (err_message (fail NotReady)) + length (err_help (fail NotReady)) +
       length (case err_application_code (fail NotReady) of Some x \<Rightarrow> x | None \<Rightarrow> []) \<le> 2048 \<and>
       err_application_code (fail NotReady) \<noteq> Some []"
    by (simp add: fail_def ipc_error_new_def)
  with u ipc_error_wire_bounded [OF u, of 2048] show ?thesis by simp
qed

end
