(* ===== verification/Ipc_Limits.thy ===== *)
theory Ipc_Limits
  imports Ipc_Error
begin

text \<open>
  The safety budgets of the desktop IPC, \<open>crates/webui-desktop/src/ipc/limits.rs\<close>.
  \<open>usize\<close> fields are naturals; \<open>Duration\<close> is its whole seconds and the nanoseconds below
  a second.
\<close>

record ipc_limits =
  max_frame_bytes :: nat
  max_native_control_bytes :: nat
  max_pending_calls_per_direction :: nat
  max_outstanding_notifications_per_direction :: nat
  max_queued_frames_per_direction :: nat
  max_queued_bytes_per_direction :: nat
  max_admitted_input_bytes_per_frame :: nat
  max_retained_bytes_per_frame :: nat
  max_worker_tasks_per_frame :: nat
  max_callbacks_per_event :: nat
  max_callbacks_per_document :: nat
  max_callback_tasks_per_document :: nat
  max_collection_entries_per_message :: nat
  max_schema_depth :: nat
  max_readiness_waiters :: nat
  default_timeout_ms :: nat
  max_timeout_ms :: nat
  notification_accept_timeout_ms :: nat
  handshake_timeout_ms :: nat
  max_error_text_bytes_total :: nat
  reserved_control_frames_per_direction :: nat

definition default_limits :: ipc_limits where
  "default_limits = \<lparr>max_frame_bytes = 1048576, max_native_control_bytes = 4096,
     max_pending_calls_per_direction = 64, max_outstanding_notifications_per_direction = 64,
     max_queued_frames_per_direction = 128, max_queued_bytes_per_direction = 8388608,
     max_admitted_input_bytes_per_frame = 8388608, max_retained_bytes_per_frame = 16777216,
     max_worker_tasks_per_frame = 128, max_callbacks_per_event = 16, max_callbacks_per_document = 128,
     max_callback_tasks_per_document = 128, max_collection_entries_per_message = 16384,
     max_schema_depth = 16, max_readiness_waiters = 16, default_timeout_ms = 30000,
     max_timeout_ms = 300000, notification_accept_timeout_ms = 30000, handshake_timeout_ms = 5000,
     max_error_text_bytes_total = 2048, reserved_control_frames_per_direction = 128\<rparr>"

text \<open>The disjunction of \<open>validate\<close> over every field, and that of \<open>validate_ceiling\<close>.\<close>

definition some_zero :: "ipc_limits \<Rightarrow> bool" where
  "some_zero l \<longleftrightarrow> 0 \<in> set [max_frame_bytes l, max_native_control_bytes l, max_pending_calls_per_direction l,
     max_outstanding_notifications_per_direction l, max_queued_frames_per_direction l,
     max_queued_bytes_per_direction l, max_admitted_input_bytes_per_frame l, max_retained_bytes_per_frame l,
     max_worker_tasks_per_frame l, max_callbacks_per_event l, max_callbacks_per_document l,
     max_callback_tasks_per_document l, max_collection_entries_per_message l, max_schema_depth l,
     max_readiness_waiters l, default_timeout_ms l, max_timeout_ms l, notification_accept_timeout_ms l,
     handshake_timeout_ms l, max_error_text_bytes_total l, reserved_control_frames_per_direction l]"

definition above_ceiling :: "ipc_limits \<Rightarrow> bool" where
  "above_ceiling l \<longleftrightarrow>
     max_frame_bytes l > 16 * 1024 * 1024
     \<or> max_frame_bytes l < max_error_text_bytes_total l + 128
     \<or> max_native_control_bytes l > 64 * 1024
     \<or> max_pending_calls_per_direction l > 4096
     \<or> max_outstanding_notifications_per_direction l > 4096
     \<or> max_callbacks_per_document l > 1024
     \<or> max_callbacks_per_event l > max_callbacks_per_document l
     \<or> max_queued_bytes_per_direction l > 64 * 1024 * 1024
     \<or> max_queued_bytes_per_direction l < max_frame_bytes l
     \<or> max_admitted_input_bytes_per_frame l < max_frame_bytes l
     \<or> max_admitted_input_bytes_per_frame l > 64 * 1024 * 1024
     \<or> max_retained_bytes_per_frame l < max_admitted_input_bytes_per_frame l
     \<or> max_retained_bytes_per_frame l > 128 * 1024 * 1024
     \<or> max_schema_depth l > 16
     \<or> max_readiness_waiters l > 16
     \<or> max_timeout_ms l > 300000
     \<or> default_timeout_ms l > max_timeout_ms l
     \<or> notification_accept_timeout_ms l > max_timeout_ms l
     \<or> max_worker_tasks_per_frame l > 4096
     \<or> max_callback_tasks_per_document l > 4096
     \<or> max_queued_frames_per_direction l > 8192
     \<or> reserved_control_frames_per_direction l > 8192
     \<or> max_collection_entries_per_message l > 1048576
     \<or> max_error_text_bytes_total l > 2048
     \<or> handshake_timeout_ms l > 5000"

definition validate_ceiling :: "ipc_limits \<Rightarrow> (ipc_error, unit) result" where
  "validate_ceiling l = (if above_ceiling l then Inl (fail InvalidPayload) else Inr ())"

definition limits_validate :: "ipc_limits \<Rightarrow> (ipc_error, unit) result" where
  "limits_validate l = (if some_zero l then Inl (fail InvalidPayload) else validate_ceiling l)"

definition with_max_frame_bytes :: "ipc_limits \<Rightarrow> nat \<Rightarrow> (ipc_error, ipc_limits) result" where
  "with_max_frame_bytes l bytes =
     (if \<not> (2176 \<le> bytes \<and> bytes \<le> 8 * 1024 * 1024)
      then Inl (ipc_error_new InvalidPayload ''IPC frame size is outside the supported range''
             ''choose an encoded frame limit from 2176 bytes through 8 MiB'')
      else let l' = l\<lparr>max_frame_bytes := bytes\<rparr> in rbind (limits_validate l') (\<lambda>_. Inr l'))"

record duration =
  dur_secs :: nat
  dur_nanos :: nat

definition duration_wf :: "duration \<Rightarrow> bool" where
  "duration_wf d \<longleftrightarrow> dur_nanos d < 1000000000"

definition as_millis :: "duration \<Rightarrow> nat" where
  "as_millis d = dur_secs d * 1000 + dur_nanos d div 1000000"

definition with_default_timeout :: "ipc_limits \<Rightarrow> duration \<Rightarrow> (ipc_error, ipc_limits) result" where
  "with_default_timeout l timeout =
     (if (dur_secs timeout = 0 \<and> dur_nanos timeout = 0)
         \<or> (dur_secs timeout > 300 \<or> (dur_secs timeout = 300 \<and> dur_nanos timeout > 0))
         \<or> dur_nanos timeout mod 1000000 \<noteq> 0
      then Inl (ipc_error_new InvalidPayload ''IPC default timeout is outside the supported range or precision''
             ''choose a whole number of milliseconds from 1 through 300000'')
      else let l' = l\<lparr>default_timeout_ms := as_millis timeout\<rparr> in rbind (limits_validate l') (\<lambda>_. Inr l'))"

datatype endpoint = Host | Renderer

record ipc_options =
  opt_limits :: ipc_limits
  worker_threads :: nat
  allow_renderer :: "u32 list"
  allow_host :: "u32 list"
  development :: bool

definition default_options :: ipc_options where
  "default_options = \<lparr>opt_limits = default_limits, worker_threads = 1, allow_renderer = [], allow_host = [],
     development = False\<rparr>"

definition options_validate :: "ipc_options \<Rightarrow> (ipc_error, unit) result" where
  "options_validate o1 =
     rbind (limits_validate (opt_limits o1))
       (\<lambda>_. if worker_threads o1 = 0 \<or> worker_threads o1 > 32 then Inl (fail InvalidPayload) else Inr ())"

section \<open>Valid limits\<close>

definition limits_ok :: "ipc_limits \<Rightarrow> bool" where
  "limits_ok l \<longleftrightarrow> \<not> some_zero l \<and> \<not> above_ceiling l"

lemma limits_validate_iff: "limits_validate l = Inr () \<longleftrightarrow> limits_ok l"
  by (simp add: limits_validate_def validate_ceiling_def limits_ok_def)

text \<open>What the other components rely on.\<close>

lemma limits_ok_frame:
  assumes "limits_ok l"
  shows "max_error_text_bytes_total l + 128 \<le> max_frame_bytes l" "max_frame_bytes l \<le> 16777216"
    "max_frame_bytes l \<le> max_queued_bytes_per_direction l" "max_frame_bytes l \<le> max_admitted_input_bytes_per_frame l"
    "0 < max_frame_bytes l" "max_schema_depth l \<le> 16" "0 < max_schema_depth l"
  using assms by (auto simp: limits_ok_def above_ceiling_def some_zero_def)

lemma default_limits_ok: "limits_ok default_limits"
  by (simp add: limits_ok_def some_zero_def above_ceiling_def default_limits_def)

text \<open>The budgets a host can reach through the builders.\<close>

inductive configured :: "ipc_limits \<Rightarrow> bool" where
  "configured default_limits"
| "configured l \<Longrightarrow> with_max_frame_bytes l bytes = Inr l' \<Longrightarrow> configured l'"
| "configured l \<Longrightarrow> duration_wf d \<Longrightarrow> with_default_timeout l d = Inr l' \<Longrightarrow> configured l'"

lemma with_max_frame_bytes_Inr:
  "with_max_frame_bytes l bytes = Inr l' \<Longrightarrow> l' = l\<lparr>max_frame_bytes := bytes\<rparr> \<and> limits_ok l' \<and> 2176 \<le> bytes \<and> bytes \<le> 8388608"
  by (auto simp: with_max_frame_bytes_def Let_def rbind_Inr_iff limits_validate_iff split: if_splits)

lemma with_default_timeout_Inr:
  "with_default_timeout l d = Inr l' \<Longrightarrow> l' = l\<lparr>default_timeout_ms := as_millis d\<rparr> \<and> limits_ok l'"
  by (auto simp: with_default_timeout_def Let_def rbind_Inr_iff limits_validate_iff split: if_splits)

lemma configured_shape:
  "configured l \<Longrightarrow> limits_ok l \<and> (\<exists>f t. l = default_limits\<lparr>max_frame_bytes := f, default_timeout_ms := t\<rparr>)"
proof (induction rule: configured.induct)
  case 1
  have "default_limits = default_limits\<lparr>max_frame_bytes := 1048576, default_timeout_ms := 30000\<rparr>"
    by (simp add: default_limits_def)
  then show ?case using default_limits_ok by blast
next
  case (2 l bytes l')
  then obtain f t where "l = default_limits\<lparr>max_frame_bytes := f, default_timeout_ms := t\<rparr>" by blast
  with with_max_frame_bytes_Inr [OF 2(2)]
  have "l' = default_limits\<lparr>max_frame_bytes := bytes, default_timeout_ms := t\<rparr>" "limits_ok l'" by auto
  then show ?case by blast
next
  case (3 l d l')
  then obtain f t where "l = default_limits\<lparr>max_frame_bytes := f, default_timeout_ms := t\<rparr>" by blast
  with with_default_timeout_Inr [OF 3(3)]
  have "l' = default_limits\<lparr>max_frame_bytes := f, default_timeout_ms := as_millis d\<rparr>" "limits_ok l'" by auto
  then show ?case by blast
qed

section \<open>Properties\<close>

text \<open>
   The builders reject what is out of range and nothing else: from the default limits
  every frame size from 2176 bytes to 8 MiB and every timeout of 1 to 300000 whole
  milliseconds is accepted, only that budget changes, and every reachable policy is valid.
\<close>

theorem limits_builders:
  assumes "configured l"
  shows "limits_validate l = Inr () \<and>
    (\<forall>bytes. (\<exists>l'. with_max_frame_bytes l bytes = Inr l') \<longleftrightarrow> 2176 \<le> bytes \<and> bytes \<le> 8388608) \<and>
    (\<forall>d. duration_wf d \<longrightarrow> (\<exists>l'. with_default_timeout l d = Inr l') \<longleftrightarrow>
       dur_nanos d mod 1000000 = 0 \<and> 1 \<le> as_millis d \<and> as_millis d \<le> 300000) \<and>
    (\<exists>f t. l = default_limits\<lparr>max_frame_bytes := f, default_timeout_ms := t\<rparr>)"
proof -
  obtain f t where l: "l = default_limits\<lparr>max_frame_bytes := f, default_timeout_ms := t\<rparr>" and ok: "limits_ok l"
    using configured_shape [OF assms] by blast
  have frame: "limits_ok (l\<lparr>max_frame_bytes := b\<rparr>)" if "2176 \<le> b" "b \<le> 8388608" for b
    using that ok unfolding l by (auto simp: limits_ok_def some_zero_def above_ceiling_def default_limits_def)
  have timeout: "limits_ok (l\<lparr>default_timeout_ms := n\<rparr>)" if "1 \<le> n" "n \<le> 300000" for n
    using that ok unfolding l by (auto simp: limits_ok_def some_zero_def above_ceiling_def default_limits_def)
  have "(\<exists>l'. with_max_frame_bytes l bytes = Inr l') \<longleftrightarrow> 2176 \<le> bytes \<and> bytes \<le> 8388608" for bytes
    using frame [of bytes] by (auto simp: with_max_frame_bytes_def Let_def rbind_Inr_iff limits_validate_iff)
  moreover have "(\<exists>l'. with_default_timeout l d = Inr l') \<longleftrightarrow>
      dur_nanos d mod 1000000 = 0 \<and> 1 \<le> as_millis d \<and> as_millis d \<le> 300000" if d: "duration_wf d" for d
  proof -
    obtain k where k: "dur_nanos d div 1000000 = k" by simp
    have small: "k < 1000" using d k by (auto simp: duration_wf_def)
    show ?thesis
    proof (cases "dur_nanos d mod 1000000 = 0")
      case True
      then have n: "dur_nanos d = k * 1000000" using k by auto
      have "(dur_secs d = 0 \<and> dur_nanos d = 0) \<or> (dur_secs d > 300 \<or> (dur_secs d = 300 \<and> dur_nanos d > 0)) \<longleftrightarrow>
          \<not> (1 \<le> as_millis d \<and> as_millis d \<le> 300000)"
        using small unfolding n as_millis_def by auto
      with True timeout [of "as_millis d"] show ?thesis
        by (auto simp: with_default_timeout_def Let_def rbind_Inr_iff limits_validate_iff)
    qed (simp add: with_default_timeout_def)
  qed
  ultimately show ?thesis using l ok limits_validate_iff by blast
qed

theorem limits_builders_witness:
  "configured default_limits \<and> (\<exists>l'. with_max_frame_bytes default_limits 2176 = Inr l')"
  using limits_builders [OF configured.intros(1)] configured.intros(1) by simp

end
