(* ===== verification/Ipc_Wire.thy ===== *)
theory Ipc_Wire
  imports Ipc_Limits
begin

text \<open>
  The fixed-layout envelope codec, \<open>crates/webui-desktop/src/ipc/wire.rs\<close>.  A reader maps
  the bytes left to its value and the bytes behind it (\<open>&mut &[u8]\<close>).  The laws every
  reader and writer pair obeys are the locales \<open>format\<close> (a writer's bytes are read back) and
  \<open>canonical\<close> (nothing else is read as that value), interpreted for each layer.
\<close>

type_synonym bytes = "u8 list"

datatype decode_error = DecodeError

type_synonym 'a reader = "bytes \<Rightarrow> (decode_error, 'a \<times> bytes) result"

section \<open>Frames\<close>

datatype kind = KUnspecified | KRequest | KResult | KError | KNotify | KAccept | KCancel

fun kind_i32 :: "kind \<Rightarrow> int" where
  "kind_i32 KUnspecified = 0"
| "kind_i32 KRequest = 1"
| "kind_i32 KResult = 2"
| "kind_i32 KError = 3"
| "kind_i32 KNotify = 4"
| "kind_i32 KAccept = 5"
| "kind_i32 KCancel = 6"

fun as_str_name :: "kind \<Rightarrow> string" where
  "as_str_name KUnspecified = ''KIND_UNSPECIFIED''"
| "as_str_name KRequest = ''REQUEST''"
| "as_str_name KResult = ''RESULT''"
| "as_str_name KError = ''ERROR''"
| "as_str_name KNotify = ''NOTIFY''"
| "as_str_name KAccept = ''ACCEPT''"
| "as_str_name KCancel = ''CANCEL''"

definition from_str_name :: "string \<Rightarrow> kind option" where
  "from_str_name value =
     find (\<lambda>k. as_str_name k = value) [KUnspecified, KRequest, KResult, KError, KNotify, KAccept, KCancel]"

definition kind_try_from :: "int \<Rightarrow> kind option" where
  "kind_try_from value =
     find (\<lambda>k. kind_i32 k = value) [KUnspecified, KRequest, KResult, KError, KNotify, KAccept, KCancel]"

datatype frame_body = Payload bytes | ErrorBody wire_error

record ipc_frame =
  version :: u32
  generation :: u64
  frame_id :: u64
  frame_kind :: int
  method_id :: u32
  timeout_ms :: u32
  body :: "frame_body option"

lemma kind_try_from_i32 [simp]: "kind_try_from (kind_i32 k) = Some k"
  by (cases k) (simp_all add: kind_try_from_def)

lemma kind_try_from_Some: "kind_try_from n = Some k \<Longrightarrow> n = kind_i32 k"
  unfolding kind_try_from_def find_Some_iff by auto

lemma from_str_name_as_str [simp]: "from_str_name (as_str_name k) = Some k"
  by (cases k) (simp_all add: from_str_name_def)

section \<open>Bytes\<close>

text \<open>\<open>to_le_bytes\<close> and \<open>from_le_bytes\<close> for \<open>n\<close> bytes.\<close>

fun le_bytes :: "nat \<Rightarrow> nat \<Rightarrow> bytes" where
  "le_bytes 0 v = []"
| "le_bytes (Suc n) v = of_nat v # le_bytes n (v div 256)"

fun le_val :: "bytes \<Rightarrow> nat" where
  "le_val [] = 0"
| "le_val (b # bs) = unat b + 256 * le_val bs"

definition str_bytes :: "string \<Rightarrow> bytes" where
  "str_bytes s = map (\<lambda>c. of_nat (of_char c)) s"

definition bytes_str :: "bytes \<Rightarrow> string" where
  "bytes_str bs = map (\<lambda>b. char_of (unat b)) bs"

lemma length_le_bytes [simp]: "length (le_bytes n v) = n"
  by (induction n v rule: le_bytes.induct) auto

lemma length_str_bytes [simp]: "length (str_bytes s) = length s"
  by (simp add: str_bytes_def)

lemma length_bytes_str [simp]: "length (bytes_str bs) = length bs"
  by (simp add: bytes_str_def)

lemma unat_of_char: "unat (of_nat (of_char c) :: u8) = of_char c"
  using nat_of_char_less_256 [of c] by (simp add: unat_of_nat_small)

lemma bytes_str_bytes [simp]: "bytes_str (str_bytes s) = s"
  by (simp add: bytes_str_def str_bytes_def comp_def unat_of_char)

lemma unat_u8_bound: "unat (b :: u8) < 256"
  using unsigned_less [of b] by simp

lemma str_bytes_str [simp]: "str_bytes (bytes_str bs) = bs"
  using unat_u8_bound by (induction bs) (simp_all add: bytes_str_def str_bytes_def of_char_of)

lemma bytes_of_bytes_str: "bytes_of (bytes_str bs) = map unat bs"
  using unat_u8_bound by (simp add: bytes_str_def comp_def of_char_of)

lemma map_unat_str_bytes [simp]: "map unat (str_bytes s) = bytes_of s"
  by (simp add: str_bytes_def comp_def unat_of_char)

lemma unat_of_nat_u8: "unat (of_nat v :: u8) = v mod 256"
  by (simp add: unat_of_nat)

lemma le_val_bytes: "le_val (le_bytes n v) = v mod 256 ^ n"
proof (induction n v rule: le_bytes.induct)
  case (2 n v)
  have "v mod 256 ^ Suc n = v mod 256 + 256 * (v div 256 mod 256 ^ n)"
    by (metis mod_mult2_eq power_Suc add.commute)
  with 2 show ?case by (simp add: unat_of_nat_u8)
qed simp

lemma le_val_bound: "le_val bs < 256 ^ length bs"
proof (induction bs)
  case (Cons b bs)
  then show ?case using unat_u8_bound [of b] by simp
qed simp

lemma le_bytes_val: "le_bytes (length bs) (le_val bs) = bs"
proof (induction bs)
  case (Cons b bs)
  have "(unat b + 256 * le_val bs) div 256 = le_val bs" using unat_u8_bound [of b] by simp
  moreover have "of_nat (unat b + 256 * le_val bs) = b"
  proof (rule unsigned_word_eqI)
    show "unat (of_nat (unat b + 256 * le_val bs) :: u8) = unat b"
      using unat_u8_bound [of b] by (subst unat_of_nat_u8) simp
  qed
  ultimately show ?case using Cons by simp
qed simp

section \<open>Formats\<close>

locale format =
  fixes enc :: "'a \<Rightarrow> bytes" and rd :: "bytes \<Rightarrow> ('e, 'a \<times> bytes) result" and ok :: "'a \<Rightarrow> bool"
  assumes rd_enc: "ok v \<Longrightarrow> rd (enc v @ rest) = Inr (v, rest)"
begin

lemma enc_prefix_free: "ok v \<Longrightarrow> ok w \<Longrightarrow> enc v @ r = enc w @ r' \<Longrightarrow> v = w \<and> r = r'"
  using rd_enc [of v r] rd_enc [of w r'] by (metis Inr_inject prod.inject)

end

locale canonical = format +
  assumes enc_rd: "rd bs = Inr (v, rest) \<Longrightarrow> bs = enc v @ rest \<and> ok v"
begin

lemma rd_iff: "rd bs = Inr (v, rest) \<longleftrightarrow> bs = enc v @ rest \<and> ok v"
  using rd_enc enc_rd by blast

end

section \<open>Reading\<close>

definition take_bytes :: "nat \<Rightarrow> bytes reader" where
  "take_bytes len input = (if length input < len then Inl DecodeError else Inr (take len input, drop len input))"

definition read_u8 :: "u8 reader" where
  "read_u8 input = rbind (take_bytes 1 input) (\<lambda>(b, r). Inr (b ! 0, r))"

definition read_u32 :: "u32 reader" where
  "read_u32 input = rbind (take_bytes 4 input) (\<lambda>(b, r). Inr (of_nat (le_val b), r))"

definition read_u64 :: "u64 reader" where
  "read_u64 input = rbind (take_bytes 8 input) (\<lambda>(b, r). Inr (of_nat (le_val b), r))"

definition read_delimited :: "bytes reader" where
  "read_delimited input = rbind (read_u32 input) (\<lambda>(len, r). take_bytes (unat len) r)"

definition read_string :: "string reader" where
  "read_string input = rbind (read_delimited input)
     (\<lambda>(b, r). if utf8_valid (map unat b) then Inr (bytes_str b, r) else Inl DecodeError)"

section \<open>Writing\<close>

definition kind_to_byte :: "int \<Rightarrow> u8" where
  "kind_to_byte kind = (if 0 \<le> kind \<and> kind \<le> 255 then of_int kind else 0)"

definition push_u32 :: "u32 \<Rightarrow> bytes" where
  "push_u32 value = le_bytes 4 (unat value)"

definition push_u64 :: "u64 \<Rightarrow> bytes" where
  "push_u64 value = le_bytes 8 (unat value)"

definition push_delimited :: "bytes \<Rightarrow> bytes" where
  "push_delimited b =
     push_u32 (if length b < 2 ^ 32 then of_nat (length b) else -1) @ b"

definition wire_error_encoded_len :: "wire_error \<Rightarrow> nat" where
  "wire_error_encoded_len e =
     16 + length (we_code e) + length (we_message e) + length (we_help e) + length (we_application_code e)"

definition wire_error_write :: "wire_error \<Rightarrow> bytes" where
  "wire_error_write e =
     push_delimited (str_bytes (we_code e)) @ push_delimited (str_bytes (we_message e)) @
     push_delimited (str_bytes (we_help e)) @ push_delimited (str_bytes (we_application_code e))"

definition wire_error_read :: "wire_error reader" where
  "wire_error_read input =
     rbind (read_string input) (\<lambda>(c, r1).
     rbind (read_string r1) (\<lambda>(m, r2).
     rbind (read_string r2) (\<lambda>(h, r3).
     rbind (read_string r3) (\<lambda>(a, r4).
       Inr (\<lparr>we_code = c, we_message = m, we_help = h, we_application_code = a\<rparr>, r4)))))"

definition wire_error_decode :: "bytes \<Rightarrow> (decode_error, wire_error) result" where
  "wire_error_decode bs = rbind (wire_error_read bs) (\<lambda>(v, r). if r \<noteq> [] then Inl DecodeError else Inr v)"

definition HEADER_LEN :: nat where
  "HEADER_LEN = 30"

definition encoded_len :: "ipc_frame \<Rightarrow> nat" where
  "encoded_len f = HEADER_LEN + (case body f of
     None \<Rightarrow> 0 | Some (Payload b) \<Rightarrow> 4 + length b | Some (ErrorBody e) \<Rightarrow> wire_error_encoded_len e)"

definition encode_to_vec :: "ipc_frame \<Rightarrow> bytes" where
  "encode_to_vec f =
     push_u32 (version f) @ push_u64 (generation f) @ push_u64 (frame_id f) @ [kind_to_byte (frame_kind f)] @
     push_u32 (method_id f) @ push_u32 (timeout_ms f) @
     (case body f of
        None \<Rightarrow> [0]
      | Some (Payload b) \<Rightarrow> [1] @ push_delimited b
      | Some (ErrorBody e) \<Rightarrow> [2] @ wire_error_write e)"

definition read_body :: "u8 \<Rightarrow> frame_body option reader" where
  "read_body tag input =
     (if tag = 0 then Inr (None, input)
      else if tag = 1 then rbind (read_delimited input) (\<lambda>(b, r). Inr (Some (Payload b), r))
      else if tag = 2 then rbind (wire_error_read input) (\<lambda>(e, r). Inr (Some (ErrorBody e), r))
      else Inl DecodeError)"

definition frame_decode :: "bytes \<Rightarrow> (decode_error, ipc_frame) result" where
  "frame_decode bs =
     (if length bs < HEADER_LEN then Inl DecodeError
      else
        rbind (read_u32 bs) (\<lambda>(v, r1).
        rbind (read_u64 r1) (\<lambda>(g, r2).
        rbind (read_u64 r2) (\<lambda>(i, r3).
        rbind (read_u8 r3) (\<lambda>(k, r4).
        rbind (read_u32 r4) (\<lambda>(m, r5).
        rbind (read_u32 r5) (\<lambda>(t, r6).
        rbind (read_u8 r6) (\<lambda>(tag, r7).
        rbind (read_body tag r7) (\<lambda>(b, r8).
          if r8 \<noteq> [] then Inl DecodeError
          else Inr \<lparr>version = v, generation = g, frame_id = i, frame_kind = uint k, method_id = m,
                    timeout_ms = t, body = b\<rparr>)))))))))"

section \<open>The layers are canonical\<close>

lemma take_bytes_iff: "take_bytes n bs = Inr (b, r) \<longleftrightarrow> bs = b @ r \<and> length b = n"
  by (auto simp: take_bytes_def)

interpretation u8f: canonical "\<lambda>b. [b]" read_u8 "\<lambda>_. True"
proof unfold_locales
  show "read_u8 bs = Inr (v, rest) \<Longrightarrow> bs = [v] @ rest \<and> True" for bs v rest
    by (cases bs) (auto simp: read_u8_def rbind_Inr_iff take_bytes_iff length_Suc_conv)
qed (simp add: read_u8_def take_bytes_def)

lemma push_read_le:
  assumes "LENGTH('a :: len) = 8 * n"
  shows "(of_nat (le_val (le_bytes n (unat (w :: 'a word)))) :: 'a word) = w"
proof -
  have "unat w < 2 ^ (8 * n)" using unsigned_less [of w] assms by simp
  then have "unat w mod 256 ^ n = unat w" by (simp add: power_mult)
  then show ?thesis by (simp add: le_val_bytes)
qed

lemma le_unat_of_nat:
  assumes "LENGTH('a :: len) = 8 * n" "length b = n"
  shows "le_bytes n (unat (of_nat (le_val b) :: 'a word)) = b"
proof -
  have "le_val b < 2 ^ LENGTH('a)" using le_val_bound [of b] assms by (simp add: power_mult)
  then show ?thesis using le_bytes_val [of b] assms(2) by (simp add: unat_of_nat_small)
qed

interpretation u32f: canonical push_u32 read_u32 "\<lambda>_. True"
proof unfold_locales
  show "read_u32 (push_u32 v @ rest) = Inr (v, rest)" for v rest
    using push_read_le [where 'a = 32 and n = 4] by (simp add: read_u32_def push_u32_def take_bytes_def)
  show "read_u32 bs = Inr (v, rest) \<Longrightarrow> bs = push_u32 v @ rest \<and> True" for bs v rest
    using le_unat_of_nat [where 'a = 32 and n = 4] by (auto simp: read_u32_def push_u32_def rbind_Inr_iff take_bytes_iff)
qed

interpretation u64f: canonical push_u64 read_u64 "\<lambda>_. True"
proof unfold_locales
  show "read_u64 (push_u64 v @ rest) = Inr (v, rest)" for v rest
    using push_read_le [where 'a = 64 and n = 8] by (simp add: read_u64_def push_u64_def take_bytes_def)
  show "read_u64 bs = Inr (v, rest) \<Longrightarrow> bs = push_u64 v @ rest \<and> True" for bs v rest
    using le_unat_of_nat [where 'a = 64 and n = 8] by (auto simp: read_u64_def push_u64_def rbind_Inr_iff take_bytes_iff)
qed

lemma delimited_len: "length b < 2 ^ 32 \<Longrightarrow> unat (of_nat (length b) :: u32) = length b"
  by (simp add: unat_of_nat_small)

interpretation delim: canonical push_delimited read_delimited "\<lambda>b. length b < 2 ^ 32"
proof unfold_locales
  show "length v < 2 ^ 32 \<Longrightarrow> read_delimited (push_delimited v @ rest) = Inr (v, rest)" for v rest
    by (simp add: read_delimited_def push_delimited_def u32f.rd_enc delimited_len take_bytes_def)
  show "bs = push_delimited v @ rest \<and> length v < 2 ^ 32" if "read_delimited bs = Inr (v, rest)" for bs v rest
  proof -
    from that obtain n r where n: "bs = push_u32 n @ r" "r = v @ rest" "length v = unat n"
      by (auto simp: read_delimited_def rbind_Inr_iff u32f.rd_iff take_bytes_iff)
    have "unat n < 2 ^ 32" using unsigned_less [of n] by simp
    with n show ?thesis by (simp add: push_delimited_def)
  qed
qed

definition string_ok :: "string \<Rightarrow> bool" where
  "string_ok s \<longleftrightarrow> length s < 2 ^ 32 \<and> utf8_valid (bytes_of s)"

interpretation strf: canonical "\<lambda>s. push_delimited (str_bytes s)" read_string string_ok
proof unfold_locales
  show "string_ok v \<Longrightarrow> read_string (push_delimited (str_bytes v) @ rest) = Inr (v, rest)" for v rest
    by (simp add: read_string_def string_ok_def delim.rd_enc)
  show "read_string bs = Inr (v, rest) \<Longrightarrow> bs = push_delimited (str_bytes v) @ rest \<and> string_ok v" for bs v rest
    by (auto simp: read_string_def rbind_Inr_iff delim.rd_iff string_ok_def bytes_of_bytes_str split: if_splits)
qed

definition wire_error_ok :: "wire_error \<Rightarrow> bool" where
  "wire_error_ok e \<longleftrightarrow> string_ok (we_code e) \<and> string_ok (we_message e) \<and> string_ok (we_help e) \<and> string_ok (we_application_code e)"

interpretation errf: canonical wire_error_write wire_error_read wire_error_ok
proof unfold_locales
  show "wire_error_ok v \<Longrightarrow> wire_error_read (wire_error_write v @ rest) = Inr (v, rest)" for v rest
    by (simp add: wire_error_read_def wire_error_write_def wire_error_ok_def strf.rd_enc)
  show "wire_error_read bs = Inr (v, rest) \<Longrightarrow> bs = wire_error_write v @ rest \<and> wire_error_ok v" for bs v rest
    by (auto simp: wire_error_read_def wire_error_write_def wire_error_ok_def rbind_Inr_iff strf.rd_iff)
qed

fun body_ok :: "frame_body option \<Rightarrow> bool" where
  "body_ok None \<longleftrightarrow> True"
| "body_ok (Some (Payload b)) \<longleftrightarrow> length b < 2 ^ 32"
| "body_ok (Some (ErrorBody e)) \<longleftrightarrow> wire_error_ok e"

fun body_write :: "frame_body option \<Rightarrow> bytes" where
  "body_write None = [0]"
| "body_write (Some (Payload b)) = [1] @ push_delimited b"
| "body_write (Some (ErrorBody e)) = [2] @ wire_error_write e"

definition body_read :: "frame_body option reader" where
  "body_read bs = rbind (read_u8 bs) (\<lambda>(tag, r). read_body tag r)"

interpretation bodyf: canonical body_write body_read body_ok
proof unfold_locales
  show "body_ok v \<Longrightarrow> body_read (body_write v @ rest) = Inr (v, rest)" for v rest
    using u8f.rd_enc
    by (cases v rule: body_ok.cases) (simp_all add: body_read_def read_body_def delim.rd_enc errf.rd_enc)
  show "body_read bs = Inr (v, rest) \<Longrightarrow> bs = body_write v @ rest \<and> body_ok v" for bs v rest
    by (auto simp: body_read_def read_body_def rbind_Inr_iff u8f.rd_iff delim.rd_iff errf.rd_iff split: if_splits)
qed

definition frame_ok :: "ipc_frame \<Rightarrow> bool" where
  "frame_ok f \<longleftrightarrow> 0 \<le> frame_kind f \<and> frame_kind f \<le> 255 \<and> body_ok (body f)"

lemma encode_body: "encode_to_vec f =
     push_u32 (version f) @ push_u64 (generation f) @ push_u64 (frame_id f) @ [kind_to_byte (frame_kind f)] @
     push_u32 (method_id f) @ push_u32 (timeout_ms f) @ body_write (body f)"
  by (cases "body f" rule: body_ok.cases) (simp_all add: encode_to_vec_def)

lemma length_push [simp]: "length (push_u32 n) = 4" "length (push_u64 m) = 8" "length (push_delimited b) = 4 + length b"
  by (simp_all add: push_u32_def push_u64_def push_delimited_def)

lemma length_encode: "length (encode_to_vec f) = encoded_len f"
  by (cases "body f" rule: body_ok.cases)
    (simp_all add: encode_body encoded_len_def HEADER_LEN_def wire_error_write_def wire_error_encoded_len_def)

lemma uint_u8_bound: "0 \<le> uint (b :: u8)" "uint (b :: u8) \<le> 255"
  using unsigned_less [of b, where ?'a = int] by simp_all

lemma kind_byte_int: "0 \<le> k \<Longrightarrow> k \<le> 255 \<Longrightarrow> uint (kind_to_byte k) = k"
  by (simp add: kind_to_byte_def unsigned_of_int take_bit_int_eq_self)

lemma kind_to_byte_uint: "kind_to_byte (uint b) = b"
  using uint_u8_bound [of b] by (simp add: kind_to_byte_def)

lemma frame_decode_body:
  "frame_decode bs =
     (if length bs < HEADER_LEN then Inl DecodeError
      else
        rbind (read_u32 bs) (\<lambda>(v, r1). rbind (read_u64 r1) (\<lambda>(g, r2). rbind (read_u64 r2) (\<lambda>(i, r3).
        rbind (read_u8 r3) (\<lambda>(k, r4). rbind (read_u32 r4) (\<lambda>(m, r5). rbind (read_u32 r5) (\<lambda>(t, r6).
        rbind (body_read r6) (\<lambda>(b, r8).
          if r8 \<noteq> [] then Inl DecodeError
          else Inr \<lparr>version = v, generation = g, frame_id = i, frame_kind = uint k, method_id = m,
                    timeout_ms = t, body = b\<rparr>))))))))"
proof -
  have assoc: "rbind (rbind x f) g = rbind x (\<lambda>a. rbind (f a) g)" for x :: "('e, 'a) result"
    and f :: "'a \<Rightarrow> ('e, 'b) result" and g :: "'b \<Rightarrow> ('e, 'c) result"
    by (cases x) auto
  show ?thesis by (simp add: frame_decode_def body_read_def assoc case_prod_unfold)
qed

lemma frame_decode_encode: "frame_ok f \<Longrightarrow> frame_decode (encode_to_vec f) = Inr f"
proof -
  assume ok: "frame_ok f"
  have "HEADER_LEN \<le> length (encode_to_vec f)" by (simp add: length_encode encoded_len_def)
  moreover have "body_read (body_write (body f)) = Inr (body f, [])"
    using bodyf.rd_enc [of "body f" "[]"] ok by (simp add: frame_ok_def)
  moreover have "read_u8 (kind_to_byte (frame_kind f) # r) = Inr (kind_to_byte (frame_kind f), r)" for r
    using u8f.rd_enc by simp
  ultimately show ?thesis
    using ok by (simp add: frame_decode_body encode_body u32f.rd_enc u64f.rd_enc kind_byte_int frame_ok_def not_less)
qed

lemma frame_encode_decode: "frame_decode bs = Inr f \<Longrightarrow> encode_to_vec f = bs \<and> frame_ok f"
  using uint_u8_bound
  by (auto simp: frame_decode_body encode_body rbind_Inr_iff u32f.rd_iff u64f.rd_iff u8f.rd_iff bodyf.rd_iff
      kind_to_byte_uint frame_ok_def split: if_splits)

section \<open>Properties\<close>

text \<open>
  C6.  The envelope.  The bytes the decoder accepts are exactly the encodings of the frames whose
  kind is one byte and whose body fits (payload and error texts shorter than 2^32 bytes, texts valid
  UTF-8), and each of them decodes to that frame alone: no ambiguity, no trailing or missing bytes.
  Decoding what was encoded gives the frame back, except that a kind outside 0..255, which the type
  of \<open>IpcFrame::kind\<close> allows, is sent as 0; the kinds 7..255, which name no \<open>Kind\<close>, come back as they
  are.  The predicted length is the length of the encoding, for every frame.
\<close>

theorem frame_codec_bijective:
  "(frame_decode bs = Inr f \<longleftrightarrow> (0 \<le> frame_kind f \<and> frame_kind f \<le> 255) \<and> body_ok (body f) \<and> bs = encode_to_vec f) \<and>
   (body_ok (body f) \<longrightarrow> frame_decode (encode_to_vec f) =
      Inr (f\<lparr>frame_kind := if 0 \<le> frame_kind f \<and> frame_kind f \<le> 255 then frame_kind f else 0\<rparr>)) \<and>
   length (encode_to_vec f) = encoded_len f"
proof (intro conjI impI)
  show "frame_decode bs = Inr f \<longleftrightarrow> (0 \<le> frame_kind f \<and> frame_kind f \<le> 255) \<and> body_ok (body f) \<and> bs = encode_to_vec f"
    using frame_decode_encode [of f] frame_encode_decode [of bs f] by (auto simp: frame_ok_def)
  let ?g = "f\<lparr>frame_kind := if 0 \<le> frame_kind f \<and> frame_kind f \<le> 255 then frame_kind f else 0\<rparr>"
  assume "body_ok (body f)"
  then have "frame_ok ?g" by (simp add: frame_ok_def)
  moreover have "encode_to_vec ?g = encode_to_vec f" by (simp add: encode_body kind_to_byte_def)
  ultimately show "frame_decode (encode_to_vec f) = Inr ?g" using frame_decode_encode [of ?g] by simp
qed (rule length_encode)

theorem frame_codec_bijective_witness:
  "frame_decode (encode_to_vec \<lparr>version = 1, generation = 2, frame_id = 3, frame_kind = 300, method_id = 4,
      timeout_ms = 5, body = Some (Payload [7])\<rparr>) =
    Inr \<lparr>version = 1, generation = 2, frame_id = 3, frame_kind = 0, method_id = 4, timeout_ms = 5,
      body = Some (Payload [7])\<rparr>"
proof -
  let ?f = "\<lparr>version = 1, generation = 2, frame_id = 3, frame_kind = 300, method_id = 4, timeout_ms = 5,
    body = Some (Payload [7])\<rparr>"
  have "body_ok (body ?f)" by simp
  with frame_codec_bijective [of "[]" ?f] show ?thesis by simp
qed

end
