(* ===== verification/Ipc_Codec.thy ===== *)
theory Ipc_Codec
  imports Ipc_Wire
begin

text \<open>
  The payload codec of generated messages, \<open>crates/webui-desktop/src/ipc/codec.rs\<close>:
  \<open>PayloadWriter\<close> appends protobuf-compatible fields to its bytes, \<open>WireReader\<close> and
  \<open>WireField\<close> read them.  Signed integers are words read with \<^const>\<open>sint\<close>, floats are their
  bits.  The varint, key and field readers are shared with \<open>validation.rs\<close>, which differs in
  the error code it reports; the code is a parameter here.
\<close>

unbundle bit_operations_syntax

section \<open>Bits\<close>

lemma take_bit_small:
  assumes "unat (w :: 'a :: len word) < 2 ^ n"
  shows "take_bit n w = w"
proof (rule unsigned_word_eqI)
  show "unat (take_bit n w) = unat w"
    using assms by (simp add: unsigned_take_bit_eq take_bit_nat_eq_self)
qed

lemma bit_small: "unat (w :: 'a :: len word) < 2 ^ n \<Longrightarrow> n \<le> i \<Longrightarrow> \<not> bit w i"
  by (metis bit_take_bit_iff leD take_bit_small)

lemma and_7: "(v :: u64) AND 7 = take_bit 3 v"
  by (simp add: take_bit_eq_mask mask_eq_exp_minus_1)

lemma and_127: "(v :: u64) AND 127 = take_bit 7 v" "(b :: u8) AND 127 = take_bit 7 b"
  by (simp_all add: take_bit_eq_mask mask_eq_exp_minus_1)

lemma key_number:
  fixes n :: u32 and w :: u64
  assumes "unat w < 8"
  shows "drop_bit 3 (push_bit 3 (ucast n) OR w) = (ucast n :: u64)"
  using bit_small [of w 3] assms
  by (intro bit_word_eqI) (auto simp: bit_simps dest: bit_imp_le_length)

lemma key_wire:
  fixes n :: u32 and w :: u64
  assumes "unat w < 8"
  shows "(push_bit 3 (ucast n) OR w) AND 7 = w"
  unfolding and_7 using bit_small [of w 3] assms
  by (intro bit_word_eqI) (auto simp: bit_simps not_le)

lemma bit_zigzag:
  fixes v :: "'a :: len word"
  assumes "LENGTH('a) = Suc k"
  shows "bit (push_bit 1 v XOR signed_drop_bit k v) i \<longleftrightarrow> i < Suc k \<and> ((0 < i \<and> bit v (i - 1)) \<noteq> bit v k)"
proof -
  have a: "bit (push_bit 1 v) i \<longleftrightarrow> 0 < i \<and> i < Suc k \<and> bit v (i - 1)"
    using assms by (simp only: bit_push_bit_iff) (auto simp: Suc_le_eq dest: bit_imp_le_length)
  have b: "bit (signed_drop_bit k v) i \<longleftrightarrow> i < Suc k \<and> bit v k"
    using assms by (cases i) (auto simp: bit_signed_drop_bit_iff dest: bit_imp_le_length)
  show ?thesis by (simp only: bit_xor_iff a b) auto
qed

lemma zigzag_inverse:
  fixes v :: "'a :: len word"
  assumes "LENGTH('a) = Suc k"
  defines "z \<equiv> push_bit 1 v XOR signed_drop_bit k v"
  shows "drop_bit 1 z XOR (- (z AND 1)) = v"
proof -
  have b: "bit z i \<longleftrightarrow> (i < Suc k) \<and> ((0 < i \<and> bit v (i - 1)) \<noteq> bit v k)" for i
    unfolding z_def by (rule bit_zigzag [OF assms(1)])
  have "z AND 1 = (if bit v k then 1 else 0)"
    using b [of 0] by (auto simp: and_one_eq mod2_eq_if bit_0)
  then show ?thesis using assms(1)
    by (intro bit_word_eqI) (auto simp: bit_xor_iff bit_drop_bit_eq b bit_minus_1_iff less_Suc_eq)
qed

lemma varint_split: "push_bit s (v :: u64) = push_bit s (v AND 127) OR push_bit (s + 7) (drop_bit 7 v)"
  unfolding and_127
proof (rule bit_word_eqI)
  fix n assume "n < LENGTH(64)"
  then show "bit (push_bit s v) n \<longleftrightarrow> bit (push_bit s (take_bit 7 v) OR push_bit (s + 7) (drop_bit 7 v)) n"
    by (cases "s + 7 \<le> n") (auto simp: bit_simps)
qed

lemma continuation_byte: "(ucast (((ucast ((v :: u64) AND 127) :: u8) OR 128) AND 127) :: u64) = v AND 127"
proof -
  have e: "(128 :: u8) = 2 ^ 7" by simp
  show ?thesis unfolding and_127 e
    by (intro bit_word_eqI) (auto simp: bit_simps bit_exp_iff)
qed

lemma unat_drop_7: "unat (drop_bit 7 (v :: u64)) = unat v div 128"
  unfolding unat_drop_bit_eq by (simp add: drop_bit_eq_div)

section \<open>Writing\<close>

function varint_bytes :: "u64 \<Rightarrow> bytes" where
  "varint_bytes v =
     (if 0x80 \<le> v then (ucast (v AND 0x7f) OR 0x80) # varint_bytes (drop_bit 7 v) else [ucast v])"
  by pat_completeness auto
termination
proof (relation "measure unat", goal_cases)
  case (2 v)
  then have "128 \<le> unat v" by (simp add: word_le_nat_alt)
  then show ?case by (simp add: unat_drop_7)
qed simp

declare varint_bytes.simps [simp del]

definition pw_varint :: "u64 \<Rightarrow> bytes \<Rightarrow> bytes" where
  "pw_varint v w = w @ varint_bytes v"

definition pw_key :: "u32 \<Rightarrow> u8 \<Rightarrow> bytes \<Rightarrow> bytes" where
  "pw_key number wire w = pw_varint (push_bit 3 (ucast number) OR ucast wire) w"

definition pw_varint_field :: "u32 \<Rightarrow> u64 \<Rightarrow> bytes \<Rightarrow> bytes" where
  "pw_varint_field number v w = pw_varint v (pw_key number 0 w)"

definition pw_bool :: "u32 \<Rightarrow> bool \<Rightarrow> bytes \<Rightarrow> bytes" where
  "pw_bool number v w = pw_varint_field number (if v then 1 else 0) w"

definition pw_uint32 :: "u32 \<Rightarrow> u32 \<Rightarrow> bytes \<Rightarrow> bytes" where
  "pw_uint32 number v w = pw_varint_field number (ucast v) w"

definition pw_uint64 :: "u32 \<Rightarrow> u64 \<Rightarrow> bytes \<Rightarrow> bytes" where
  "pw_uint64 number v w = pw_varint_field number v w"

definition pw_int32 :: "u32 \<Rightarrow> u32 \<Rightarrow> bytes \<Rightarrow> bytes" where
  "pw_int32 number v w = pw_varint_field number (scast v) w"

definition pw_int64 :: "u32 \<Rightarrow> u64 \<Rightarrow> bytes \<Rightarrow> bytes" where
  "pw_int64 number v w = pw_varint_field number v w"

definition pw_sint32 :: "u32 \<Rightarrow> u32 \<Rightarrow> bytes \<Rightarrow> bytes" where
  "pw_sint32 number v w = pw_varint_field number (ucast (push_bit 1 v XOR signed_drop_bit 31 v)) w"

definition pw_sint64 :: "u32 \<Rightarrow> u64 \<Rightarrow> bytes \<Rightarrow> bytes" where
  "pw_sint64 number v w = pw_varint_field number (push_bit 1 v XOR signed_drop_bit 63 v) w"

definition pw_fixed32 :: "u32 \<Rightarrow> u32 \<Rightarrow> bytes \<Rightarrow> bytes" where
  "pw_fixed32 number v w = pw_key number 5 w @ le_bytes 4 (unat v)"

definition pw_fixed64 :: "u32 \<Rightarrow> u64 \<Rightarrow> bytes \<Rightarrow> bytes" where
  "pw_fixed64 number v w = pw_key number 1 w @ le_bytes 8 (unat v)"

text \<open>Signed fixed integers are the words of their bits (\<open>cast_unsigned\<close>), floats their bits (\<open>to_bits\<close>).\<close>

definition pw_sfixed32 :: "u32 \<Rightarrow> u32 \<Rightarrow> bytes \<Rightarrow> bytes" where
  "pw_sfixed32 number v w = pw_fixed32 number v w"

definition pw_sfixed64 :: "u32 \<Rightarrow> u64 \<Rightarrow> bytes \<Rightarrow> bytes" where
  "pw_sfixed64 number v w = pw_fixed64 number v w"

definition pw_float :: "u32 \<Rightarrow> u32 \<Rightarrow> bytes \<Rightarrow> bytes" where
  "pw_float number v w = pw_fixed32 number v w"

definition pw_double :: "u32 \<Rightarrow> u64 \<Rightarrow> bytes \<Rightarrow> bytes" where
  "pw_double number v w = pw_fixed64 number v w"

definition pw_bytes :: "u32 \<Rightarrow> bytes \<Rightarrow> bytes \<Rightarrow> bytes" where
  "pw_bytes number v w = pw_varint (of_nat (length v)) (pw_key number 2 w) @ v"

definition pw_string :: "u32 \<Rightarrow> string \<Rightarrow> bytes \<Rightarrow> bytes" where
  "pw_string number v w = pw_bytes number (str_bytes v) w"

definition pw_raw_fixed32 :: "u32 \<Rightarrow> bytes \<Rightarrow> bytes" where
  "pw_raw_fixed32 v w = w @ le_bytes 4 (unat v)"

definition pw_raw_fixed64 :: "u64 \<Rightarrow> bytes \<Rightarrow> bytes" where
  "pw_raw_fixed64 v w = w @ le_bytes 8 (unat v)"

section \<open>Reading\<close>

type_synonym 'a ipc_reader = "bytes \<Rightarrow> (ipc_error, 'a \<times> bytes) result"

text \<open>\<open>for shift in (0..70).step_by(7)\<close>\<close>

definition varint_shifts :: "nat list" where
  "varint_shifts = [0, 7, 14, 21, 28, 35, 42, 49, 56, 63]"

fun read_varint_loop :: "ipc_error_code \<Rightarrow> nat list \<Rightarrow> u64 \<Rightarrow> u64 ipc_reader" where
  "read_varint_loop code [] acc input = Inl (fail code)"
| "read_varint_loop code (shift # shifts) acc input = (case input of
     [] \<Rightarrow> Inl (fail code)
   | byte # rest \<Rightarrow>
       if shift = 63 \<and> byte > 1 then Inl (fail code)
       else let acc' = acc OR push_bit shift (ucast (byte AND 0x7f)) in
         if byte < 0x80 then Inr (acc', rest) else read_varint_loop code shifts acc' rest)"

definition read_varint_with :: "ipc_error_code \<Rightarrow> u64 ipc_reader" where
  "read_varint_with code input = read_varint_loop code varint_shifts 0 input"

definition read_exact_with :: "ipc_error_code \<Rightarrow> nat \<Rightarrow> bytes ipc_reader" where
  "read_exact_with code len input =
     (if len > length input then Inl (fail code) else Inr (take len input, drop len input))"

definition read_key_with :: "ipc_error_code \<Rightarrow> (u32 \<times> u8) ipc_reader" where
  "read_key_with code input = rbind (read_varint_with code input) (\<lambda>(key, r).
     if unat (drop_bit 3 key) > 0xffffffff then Inl (fail code)
     else let number = ucast (drop_bit 3 key) :: u32 in
       if number = 0 \<or> number > 0x1fffffff then Inl (fail code)
       else Inr ((number, ucast (key AND 7)), r))"

definition read_field_with :: "ipc_error_code \<Rightarrow> u8 \<Rightarrow> bytes ipc_reader" where
  "read_field_with code wire input =
     (if wire = 0 then rbind (read_varint_with code input) (\<lambda>(v, r). Inr (take (length input - length r) input, r))
      else if wire = 1 then read_exact_with code 8 input
      else if wire = 2 then rbind (read_varint_with code input) (\<lambda>(n, r). read_exact_with code (unat n) r)
      else if wire = 5 then read_exact_with code 4 input
      else Inl (fail code))"

abbreviation read_varint :: "u64 ipc_reader" where
  "read_varint \<equiv> read_varint_with InvalidPayload"

record wire_field =
  wf_number :: u32
  wf_wire :: u8
  wf_data :: bytes

definition next_field :: "bytes \<Rightarrow> (ipc_error, wire_field option \<times> bytes) result" where
  "next_field input =
     (if input = [] then Inr (None, input)
      else rbind (read_key_with InvalidPayload input) (\<lambda>((number, wire), r).
        rbind (read_field_with InvalidPayload wire r) (\<lambda>(data, r').
          Inr (Some \<lparr>wf_number = number, wf_wire = wire, wf_data = data\<rparr>, r'))))"

definition wr_fixed32 :: "u32 ipc_reader" where
  "wr_fixed32 input = rbind (read_exact_with InvalidPayload 4 input) (\<lambda>(d, r). Inr (of_nat (le_val d), r))"

definition wr_fixed64 :: "u64 ipc_reader" where
  "wr_fixed64 input = rbind (read_exact_with InvalidPayload 8 input) (\<lambda>(d, r). Inr (of_nat (le_val d), r))"

definition expect_wire :: "wire_field \<Rightarrow> u8 \<Rightarrow> (ipc_error, unit) result" where
  "expect_wire f expected = (if wf_wire f = expected then Inr () else Inl (fail InvalidPayload))"

definition wf_uint64 :: "wire_field \<Rightarrow> (ipc_error, u64) result" where
  "wf_uint64 f = rbind (expect_wire f 0) (\<lambda>_. rbind (read_varint (wf_data f)) (\<lambda>(v, r).
     if r \<noteq> [] then Inl (fail InvalidPayload) else Inr v))"

definition wf_uint32 :: "wire_field \<Rightarrow> (ipc_error, u32) result" where
  "wf_uint32 f = rbind (wf_uint64 f) (\<lambda>v. if unat v > 0xffffffff then Inl (fail InvalidPayload) else Inr (ucast v))"

definition wf_bool :: "wire_field \<Rightarrow> (ipc_error, bool) result" where
  "wf_bool f = rbind (wf_uint32 f) (\<lambda>v.
     if v = 0 then Inr False else if v = 1 then Inr True else Inl (fail InvalidPayload))"

definition wf_int32 :: "wire_field \<Rightarrow> (ipc_error, u32) result" where
  "wf_int32 f = rbind (wf_uint64 f) (\<lambda>v.
     if v \<le> 0x7fffffff then Inr (ucast v)
     else if v \<ge> 0xffffffff80000000 then Inr (ucast v)
     else Inl (fail InvalidPayload))"

definition wf_int64 :: "wire_field \<Rightarrow> (ipc_error, u64) result" where
  "wf_int64 f = wf_uint64 f"

definition wf_sint32 :: "wire_field \<Rightarrow> (ipc_error, u32) result" where
  "wf_sint32 f = rbind (wf_uint32 f) (\<lambda>v. Inr (drop_bit 1 v XOR (- (v AND 1))))"

definition wf_sint64 :: "wire_field \<Rightarrow> (ipc_error, u64) result" where
  "wf_sint64 f = rbind (wf_uint64 f) (\<lambda>v. Inr (drop_bit 1 v XOR (- (v AND 1))))"

definition wf_fixed32 :: "wire_field \<Rightarrow> (ipc_error, u32) result" where
  "wf_fixed32 f = rbind (expect_wire f 5) (\<lambda>_.
     if length (wf_data f) \<noteq> 4 then Inl (fail InvalidPayload) else Inr (of_nat (le_val (wf_data f))))"

definition wf_fixed64 :: "wire_field \<Rightarrow> (ipc_error, u64) result" where
  "wf_fixed64 f = rbind (expect_wire f 1) (\<lambda>_.
     if length (wf_data f) \<noteq> 8 then Inl (fail InvalidPayload) else Inr (of_nat (le_val (wf_data f))))"

definition wf_sfixed32 :: "wire_field \<Rightarrow> (ipc_error, u32) result" where
  "wf_sfixed32 f = wf_fixed32 f"

definition wf_sfixed64 :: "wire_field \<Rightarrow> (ipc_error, u64) result" where
  "wf_sfixed64 f = wf_fixed64 f"

definition wf_float :: "wire_field \<Rightarrow> (ipc_error, u32) result" where
  "wf_float f = wf_fixed32 f"

definition wf_double :: "wire_field \<Rightarrow> (ipc_error, u64) result" where
  "wf_double f = wf_fixed64 f"

definition wf_bytes :: "wire_field \<Rightarrow> (ipc_error, bytes) result" where
  "wf_bytes f = rbind (expect_wire f 2) (\<lambda>_. Inr (wf_data f))"

definition wf_string :: "wire_field \<Rightarrow> (ipc_error, string) result" where
  "wf_string f = rbind (wf_bytes f) (\<lambda>b.
     if utf8_valid (map unat b) then Inr (bytes_str b) else Inl (fail InvalidPayload))"

section \<open>Varints\<close>

lemma varint_last_byte:
  assumes "\<not> 0x80 \<le> (v :: u64)"
  shows "(ucast v :: u8) < 0x80" "(ucast ((ucast v :: u8) AND 0x7f) :: u64) = v" "unat (ucast v :: u8) = unat v"
proof -
  have u: "unat v < 128" using assms by (simp add: word_le_nat_alt not_le)
  then show n: "unat (ucast v :: u8) = unat v" by (simp add: unsigned_ucast_eq take_bit_nat_eq_self)
  then show "(ucast v :: u8) < 0x80" using u by (simp add: word_less_nat_alt)
  have "n < 7" if "bit v n" for n using bit_small [of v 7 n] u that by (auto simp: not_le [symmetric])
  then show "(ucast ((ucast v :: u8) AND 0x7f) :: u64) = v"
    unfolding and_127 by (intro bit_word_eqI) (fastforce simp: bit_simps)
qed

lemma continuation_ge: "\<not> ((ucast ((v :: u64) AND 127) :: u8) OR 128) < 128"
proof
  assume l: "(ucast (v AND 127) OR 128 :: u8) < 128"
  have e: "(128 :: u8) = 2 ^ 7" by simp
  have "bit (ucast (v AND 127) OR 128 :: u8) 7" unfolding e by (simp add: bit_simps bit_exp_iff)
  moreover have "unat (ucast (v AND 127) OR 128 :: u8) < 2 ^ 7" using l by (simp add: word_less_nat_alt)
  ultimately show False using bit_small [of _ 7 7] by blast
qed

text \<open>The suffix of the shifts from \<open>s\<close> on; each leaves seven bits less to read.\<close>

lemma read_varint_loop_enc:
  assumes "k < 10" "unat v < 2 ^ (64 - 7 * k)"
  shows "read_varint_loop code (drop k varint_shifts) acc (varint_bytes v @ rest) = Inr (acc OR push_bit (7 * k) v, rest)"
  using assms
proof (induction v arbitrary: k acc rule: varint_bytes.induct)
  case (1 v)
  have shifts: "drop k varint_shifts = 7 * k # drop (Suc k) varint_shifts"
  proof -
    have "varint_shifts ! k = 7 * k"
      using "1.prems"(1) by (auto simp: varint_shifts_def less_Suc_eq numeral_eq_Suc)
    then show ?thesis using "1.prems"(1) Cons_nth_drop_Suc [of k varint_shifts] by (simp add: varint_shifts_def)
  qed
  show ?case
  proof (cases "0x80 \<le> v")
    case False
    have "\<not> (7 * k = 63 \<and> (ucast v :: u8) > 1)"
    proof
      assume "7 * k = 63 \<and> (ucast v :: u8) > 1"
      then have "k = 9" "unat v > 1" using varint_last_byte(3) [OF False] by (auto simp: word_less_nat_alt)
      with "1.prems"(2) show False by simp
    qed
    with False varint_last_byte(1,2) [OF False] show ?thesis
      by (simp add: shifts varint_bytes.simps [of v])
  next
    case True
    then have big: "128 \<le> unat v" by (simp add: word_le_nat_alt)
    have k9: "k < 9"
    proof (rule ccontr)
      assume "\<not> k < 9"
      with "1.prems" have "k = 9" by simp
      with "1.prems"(2) big show False by simp
    qed
    have "(2 :: nat) ^ (64 - 7 * k) = 128 * 2 ^ (64 - 7 * Suc k)"
    proof -
      have "64 - 7 * k = 7 + (64 - 7 * Suc k)" using k9 by simp
      then show ?thesis by (simp only: power_add) simp
    qed
    then have "unat (drop_bit 7 v) < 2 ^ (64 - 7 * Suc k)"
      using "1.prems"(2) by (simp add: unat_drop_7 less_mult_imp_div_less mult.commute)
    with "1.IH" [OF True, of "Suc k"] k9
    have IH: "read_varint_loop code (drop (Suc k) varint_shifts) acc' (varint_bytes (drop_bit 7 v) @ rest) =
        Inr (acc' OR push_bit (7 * Suc k) (drop_bit 7 v), rest)" for acc' by simp
    have "push_bit (7 * k) v = push_bit (7 * k) (v AND 127) OR push_bit (7 * Suc k) (drop_bit 7 v)"
      using varint_split [of "7 * k" v] by (simp add: add.commute)
    with True IH k9 show ?thesis
      by (simp add: shifts varint_bytes.simps [of v] continuation_ge continuation_byte or.assoc)
  qed
qed

lemma unat_u64_bound: "unat (v :: u64) < 2 ^ 64"
  using unsigned_less [of v] by simp

interpretation vint: format varint_bytes "read_varint_with code" "\<lambda>_. True" for code
  using read_varint_loop_enc [of 0] unat_u64_bound
  by unfold_locales (simp add: read_varint_with_def)

section \<open>Fields\<close>

definition field_number :: "u32 \<Rightarrow> bool" where
  "field_number n \<longleftrightarrow> n \<noteq> 0 \<and> n \<le> 0x1fffffff"

lemma field_number_iff: "field_number n \<longleftrightarrow> 1 \<le> n \<and> n < 2 ^ 29"
proof -
  have "n \<noteq> 0 \<longleftrightarrow> 1 \<le> n" by (simp add: word_le_nat_alt Suc_le_eq unat_gt_0)
  then show ?thesis by (auto simp: field_number_def word_le_nat_alt word_less_nat_alt)
qed

lemma read_key_enc:
  assumes "field_number n" "unat wire < 8"
  shows "read_key_with code (varint_bytes (push_bit 3 (ucast n) OR ucast wire) @ rest) = Inr ((n, wire), rest)"
proof -
  have w: "unat (ucast wire :: u64) < 8" using assms(2) by (simp add: unsigned_ucast_eq take_bit_nat_eq_self)
  have "unat (ucast n :: u64) = unat n"
    using unsigned_less [of n, where ?'a = nat] by (simp add: unsigned_ucast_eq take_bit_nat_eq_self)
  moreover have "unat n \<le> 0xffffffff" using unsigned_less [of n, where ?'a = nat] by simp
  moreover have "(ucast (ucast n :: u64) :: u32) = n" "(ucast (ucast wire :: u64) :: u8) = wire"
    by (rule bit_word_eqI; auto simp: bit_simps dest: bit_imp_le_length)+
  ultimately show ?thesis
    using assms(1) key_number [OF w, of n] key_wire [OF w, of n]
    by (auto simp: read_key_with_def vint.rd_enc field_number_def Let_def not_less)
qed

lemma read_exact_enc: "length d = len \<Longrightarrow> read_exact_with code len (d @ rest) = Inr (d, rest)"
  by (simp add: read_exact_with_def)

definition key_bytes :: "u32 \<Rightarrow> u8 \<Rightarrow> bytes" where
  "key_bytes n wire = varint_bytes (push_bit 3 (ucast n) OR ucast wire)"

lemma varint_bytes_ne: "varint_bytes v \<noteq> []"
  by (subst varint_bytes.simps) simp

lemma next_field_enc:
  assumes "field_number n" "unat wire < 8" "read_field_with InvalidPayload wire (d @ rest) = Inr (data, rest)"
  shows "next_field (key_bytes n wire @ d @ rest) = Inr (Some \<lparr>wf_number = n, wf_wire = wire, wf_data = data\<rparr>, rest)"
  using assms read_key_enc [OF assms(1,2), of InvalidPayload "d @ rest"] varint_bytes_ne
  by (simp add: next_field_def key_bytes_def)

lemma next_field_varint:
  assumes "field_number n"
  shows "next_field (key_bytes n 0 @ varint_bytes v @ rest) =
    Inr (Some \<lparr>wf_number = n, wf_wire = 0, wf_data = varint_bytes v\<rparr>, rest)"
  by (rule next_field_enc) (simp_all add: assms read_field_with_def vint.rd_enc)

lemma wf_uint64_enc: "wf_uint64 \<lparr>wf_number = n, wf_wire = 0, wf_data = varint_bytes v\<rparr> = Inr v"
  using vint.rd_enc [where v = v and rest = "[]"] by (simp add: wf_uint64_def expect_wire_def)

text \<open>The contract of a field type: its writer appends, its field is read back with its number.\<close>

locale payload_field =
  fixes put :: "u32 \<Rightarrow> 'a \<Rightarrow> bytes \<Rightarrow> bytes" and get :: "wire_field \<Rightarrow> (ipc_error, 'a) result" and ok :: "'a \<Rightarrow> bool"
  assumes put_append: "put n v w = w @ put n v []"
    and field: "field_number n \<Longrightarrow> ok v \<Longrightarrow>
      \<exists>f. next_field (put n v [] @ rest) = Inr (Some f, rest) \<and> wf_number f = n \<and> get f = Inr v"

lemma pw_key_bytes: "pw_key n wire w = w @ key_bytes n wire"
  by (simp only: pw_key_def pw_varint_def key_bytes_def)

lemmas pw_defs = pw_varint_def pw_key_bytes pw_varint_field_def

lemma zigzag32: "drop_bit 1 (push_bit 1 (v :: u32) XOR signed_drop_bit 31 v) XOR (- ((push_bit 1 v XOR signed_drop_bit 31 v) AND 1)) = v"
  by (rule zigzag_inverse) simp

lemma zigzag64: "drop_bit 1 (push_bit 1 (v :: u64) XOR signed_drop_bit 63 v) XOR (- ((push_bit 1 v XOR signed_drop_bit 63 v) AND 1)) = v"
  by (rule zigzag_inverse) simp

lemma varint_payload:
  assumes "\<And>n v w. put n v w = pw_varint_field n (conv v) w"
    and "\<And>n v. ok v \<Longrightarrow> get \<lparr>wf_number = n, wf_wire = 0, wf_data = varint_bytes (conv v)\<rparr> = Inr v"
  shows "payload_field put get ok"
proof
  show "put n v w = w @ put n v []" for n v w by (simp add: assms(1) pw_defs)
  show "\<exists>f. next_field (put n v [] @ rest) = Inr (Some f, rest) \<and> wf_number f = n \<and> get f = Inr v"
    if "field_number n" "ok v" for n v rest
    using that next_field_varint [OF that(1), of "conv v" rest] assms(2) [OF that(2)] by (simp add: assms(1) pw_defs)
qed

lemma ucast_u32_u64: "unat (ucast (v :: u32) :: u64) = unat v" "unat v \<le> 0xffffffff" "(ucast (ucast v :: u64) :: u32) = v"
proof -
  show "unat (ucast v :: u64) = unat v" "unat v \<le> 0xffffffff"
    using unsigned_less [of v, where ?'a = nat] by (simp_all add: unsigned_ucast_eq take_bit_nat_eq_self)
  show "(ucast (ucast v :: u64) :: u32) = v"
    by (rule bit_word_eqI) (auto simp: bit_simps dest: bit_imp_le_length)
qed

lemma wf_uint32_enc: "wf_uint32 \<lparr>wf_number = n, wf_wire = 0, wf_data = varint_bytes (ucast v)\<rparr> = Inr v"
  using ucast_u32_u64 [of v] by (simp add: wf_uint32_def wf_uint64_enc)

interpretation fb: payload_field pw_bool wf_bool "\<lambda>_. True"
  by (rule varint_payload [where conv = "\<lambda>v. if v then 1 else 0"])
    (simp_all add: pw_bool_def wf_bool_def wf_uint32_def wf_uint64_enc)

interpretation fu32: payload_field pw_uint32 wf_uint32 "\<lambda>_. True"
  by (rule varint_payload [where conv = ucast]) (simp_all add: pw_uint32_def wf_uint32_enc)

interpretation fu64: payload_field pw_uint64 wf_uint64 "\<lambda>_. True"
  by (rule varint_payload [where conv = "\<lambda>v. v"]) (simp_all add: pw_uint64_def wf_uint64_enc)

interpretation fi64: payload_field pw_int64 wf_int64 "\<lambda>_. True"
  by (rule varint_payload [where conv = "\<lambda>v. v"]) (simp_all add: pw_int64_def wf_int64_def wf_uint64_enc)

interpretation fs32: payload_field pw_sint32 wf_sint32 "\<lambda>_. True"
  by (rule varint_payload [where conv = "\<lambda>v. ucast (push_bit 1 v XOR signed_drop_bit 31 v)"])
    (simp_all only: pw_sint32_def wf_sint32_def wf_uint32_enc rbind.simps zigzag32)

interpretation fs64: payload_field pw_sint64 wf_sint64 "\<lambda>_. True"
  by (rule varint_payload [where conv = "\<lambda>v. push_bit 1 v XOR signed_drop_bit 63 v"])
    (simp_all only: pw_sint64_def wf_sint64_def wf_uint64_enc rbind.simps zigzag64)

lemma scast_u32_u64:
  fixes v :: u32
  shows "(ucast (scast v :: u64) :: u32) = v" "(scast v :: u64) \<le> 0x7fffffff \<or> (scast v :: u64) \<ge> 0xffffffff80000000"
proof -
  show "(ucast (scast v :: u64) :: u32) = v"
  proof (rule bit_word_eqI)
    fix n assume "n < LENGTH(32)"
    then show "bit (ucast (scast v :: u64) :: u32) n \<longleftrightarrow> bit v n"
      by (cases "n = 31") (auto simp: bit_simps min_def)
  qed
  have s: "- (2 ^ 31) \<le> sint v" "sint v < 2 ^ 31"
    using sint_greater_eq [of v] sint_less [of v] by simp_all
  have u: "uint (scast v :: u64) = sint v mod 2 ^ 64"
    unfolding scast_eq by (simp only: unsigned_of_int) (simp add: take_bit_eq_mod)
  show "(scast v :: u64) \<le> 0x7fffffff \<or> (scast v :: u64) \<ge> 0xffffffff80000000"
  proof (cases "0 \<le> sint v")
    case True
    with s have "uint (scast v :: u64) = sint v" by (simp add: u)
    with s show ?thesis by (simp add: word_le_def)
  next
    case False
    have "(sint v + 2 ^ 64) mod 2 ^ 64 = sint v + 2 ^ 64"
      using False s by (intro mod_pos_pos_trivial) simp_all
    then have "sint v mod 2 ^ 64 = sint v + 2 ^ 64" by (simp only: mod_add_self2)
    with s u show ?thesis by (simp add: word_le_def)
  qed
qed

interpretation fi32: payload_field pw_int32 wf_int32 "\<lambda>_. True"
  by (rule varint_payload [where conv = scast])
    (use scast_u32_u64 in \<open>auto simp: pw_int32_def wf_int32_def wf_uint64_enc\<close>)

interpretation ff32: payload_field pw_fixed32 wf_fixed32 "\<lambda>_. True"
proof
  show "pw_fixed32 n v w = w @ pw_fixed32 n v []" for n v w by (simp add: pw_fixed32_def pw_defs)
  show "\<exists>f. next_field (pw_fixed32 n v [] @ rest) = Inr (Some f, rest) \<and> wf_number f = n \<and> wf_fixed32 f = Inr v"
    if "field_number n" for n v rest
    using next_field_enc [OF that, of 5 "le_bytes 4 (unat v)" rest "le_bytes 4 (unat v)"] push_read_le [where 'a = 32 and n = 4]
    by (simp add: pw_fixed32_def pw_defs read_field_with_def read_exact_with_def wf_fixed32_def expect_wire_def)
qed

interpretation ff64: payload_field pw_fixed64 wf_fixed64 "\<lambda>_. True"
proof
  show "pw_fixed64 n v w = w @ pw_fixed64 n v []" for n v w by (simp add: pw_fixed64_def pw_defs)
  show "\<exists>f. next_field (pw_fixed64 n v [] @ rest) = Inr (Some f, rest) \<and> wf_number f = n \<and> wf_fixed64 f = Inr v"
    if "field_number n" for n v rest
    using next_field_enc [OF that, of 1 "le_bytes 8 (unat v)" rest "le_bytes 8 (unat v)"] push_read_le [where 'a = 64 and n = 8]
    by (simp add: pw_fixed64_def pw_defs read_field_with_def read_exact_with_def wf_fixed64_def expect_wire_def)
qed

lemma next_field_bytes:
  assumes "field_number n" "length v < 2 ^ 64"
  shows "next_field (pw_bytes n v [] @ rest) = Inr (Some \<lparr>wf_number = n, wf_wire = 2, wf_data = v\<rparr>, rest)"
proof -
  have "unat (of_nat (length v) :: u64) = length v" using assms(2) by (intro unat_of_nat_small) simp
  then have "read_field_with InvalidPayload 2 ((varint_bytes (of_nat (length v)) @ v) @ rest) = Inr (v, rest)"
    using vint.rd_enc [where v = "of_nat (length v)" and rest = "v @ rest"]
    by (simp add: read_field_with_def read_exact_with_def)
  from next_field_enc [OF assms(1) _ this] show ?thesis by (simp add: pw_bytes_def pw_defs)
qed

interpretation fsf32: payload_field pw_sfixed32 wf_sfixed32 "\<lambda>_. True"
  using ff32.payload_field_axioms by (simp add: pw_sfixed32_def [abs_def] wf_sfixed32_def [abs_def])

interpretation fsf64: payload_field pw_sfixed64 wf_sfixed64 "\<lambda>_. True"
  using ff64.payload_field_axioms by (simp add: pw_sfixed64_def [abs_def] wf_sfixed64_def [abs_def])

interpretation ffl: payload_field pw_float wf_float "\<lambda>_. True"
  using ff32.payload_field_axioms by (simp add: pw_float_def [abs_def] wf_float_def [abs_def])

interpretation fdb: payload_field pw_double wf_double "\<lambda>_. True"
  using ff64.payload_field_axioms by (simp add: pw_double_def [abs_def] wf_double_def [abs_def])

interpretation fby: payload_field pw_bytes wf_bytes "\<lambda>v. length v < 2 ^ 64"
proof
  show "pw_bytes n v w = w @ pw_bytes n v []" for n v w by (simp add: pw_bytes_def pw_defs)
  show "\<exists>f. next_field (pw_bytes n v [] @ rest) = Inr (Some f, rest) \<and> wf_number f = n \<and> wf_bytes f = Inr v"
    if "field_number n" "length v < 2 ^ 64" for n v rest
    using next_field_bytes [OF that, of rest] by (simp add: wf_bytes_def expect_wire_def)
qed

interpretation fst: payload_field pw_string wf_string "\<lambda>v. length v < 2 ^ 64 \<and> utf8_valid (bytes_of v)"
proof
  show "pw_string n v w = w @ pw_string n v []" for n v w by (simp add: pw_string_def pw_bytes_def pw_defs)
  show "\<exists>f. next_field (pw_string n v [] @ rest) = Inr (Some f, rest) \<and> wf_number f = n \<and> wf_string f = Inr v"
    if "field_number n" "length v < 2 ^ 64 \<and> utf8_valid (bytes_of v)" for n v rest
    using that next_field_bytes [OF that(1), of "str_bytes v" rest]
    by (simp add: pw_string_def wf_string_def wf_bytes_def expect_wire_def)
qed

section \<open>Messages\<close>

lemma read_varint_loop_rest: "read_varint_loop code shifts acc input = Inr (v, r) \<Longrightarrow> length r < length input"
  by (induction shifts arbitrary: acc input)
    (auto simp: Let_def split: list.splits if_splits intro: less_SucI)

lemma read_varint_rest: "read_varint_with code input = Inr (v, r) \<Longrightarrow> length r < length input"
  unfolding read_varint_with_def by (rule read_varint_loop_rest)

lemma read_key_rest: "read_key_with code input = Inr (k, r) \<Longrightarrow> length r < length input"
  by (auto simp: read_key_with_def rbind_Inr_iff Let_def split: if_splits dest: read_varint_rest)

lemma read_field_rest: "read_field_with code wire input = Inr (d, r) \<Longrightarrow> length r + length d \<le> length input"
  by (auto simp: read_field_with_def rbind_Inr_iff read_exact_with_def split: if_splits dest!: read_varint_rest)

lemma next_field_rest: "next_field input = Inr (Some f, r) \<Longrightarrow> length r < length input"
  by (auto simp: next_field_def rbind_Inr_iff split: if_splits dest!: read_key_rest read_field_rest)

text \<open>The loop of a generated decoder: fields until the input is empty.\<close>

function fields_of :: "bytes \<Rightarrow> (ipc_error, wire_field list) result" where
  "fields_of input = rbind (next_field input) (\<lambda>(f, r). case f of
     None \<Rightarrow> Inr []
   | Some g \<Rightarrow> rbind (fields_of r) (\<lambda>gs. Inr (g # gs)))"
  by pat_completeness auto
termination
  by (relation "measure length") (auto dest: next_field_rest)

declare fields_of.simps [simp del]

datatype field_value =
    VBool bool | VUint32 u32 | VUint64 u64 | VInt32 u32 | VInt64 u64 | VSint32 u32 | VSint64 u64
  | VFixed32 u32 | VFixed64 u64 | VSfixed32 u32 | VSfixed64 u64 | VFloat u32 | VDouble u64 | VBytes bytes | VString string

fun put_value :: "u32 \<Rightarrow> field_value \<Rightarrow> bytes \<Rightarrow> bytes" where
  "put_value n (VBool v) = pw_bool n v"
| "put_value n (VUint32 v) = pw_uint32 n v"
| "put_value n (VUint64 v) = pw_uint64 n v"
| "put_value n (VInt32 v) = pw_int32 n v"
| "put_value n (VInt64 v) = pw_int64 n v"
| "put_value n (VSint32 v) = pw_sint32 n v"
| "put_value n (VSint64 v) = pw_sint64 n v"
| "put_value n (VFixed32 v) = pw_fixed32 n v"
| "put_value n (VFixed64 v) = pw_fixed64 n v"
| "put_value n (VSfixed32 v) = pw_sfixed32 n v"
| "put_value n (VSfixed64 v) = pw_sfixed64 n v"
| "put_value n (VFloat v) = pw_float n v"
| "put_value n (VDouble v) = pw_double n v"
| "put_value n (VBytes v) = pw_bytes n v"
| "put_value n (VString v) = pw_string n v"

text \<open>The field holds this value, read with the accessor of the value's type.\<close>

fun holds :: "wire_field \<Rightarrow> field_value \<Rightarrow> bool" where
  "holds f (VBool v) \<longleftrightarrow> wf_bool f = Inr v"
| "holds f (VUint32 v) \<longleftrightarrow> wf_uint32 f = Inr v"
| "holds f (VUint64 v) \<longleftrightarrow> wf_uint64 f = Inr v"
| "holds f (VInt32 v) \<longleftrightarrow> wf_int32 f = Inr v"
| "holds f (VInt64 v) \<longleftrightarrow> wf_int64 f = Inr v"
| "holds f (VSint32 v) \<longleftrightarrow> wf_sint32 f = Inr v"
| "holds f (VSint64 v) \<longleftrightarrow> wf_sint64 f = Inr v"
| "holds f (VFixed32 v) \<longleftrightarrow> wf_fixed32 f = Inr v"
| "holds f (VFixed64 v) \<longleftrightarrow> wf_fixed64 f = Inr v"
| "holds f (VSfixed32 v) \<longleftrightarrow> wf_sfixed32 f = Inr v"
| "holds f (VSfixed64 v) \<longleftrightarrow> wf_sfixed64 f = Inr v"
| "holds f (VFloat v) \<longleftrightarrow> wf_float f = Inr v"
| "holds f (VDouble v) \<longleftrightarrow> wf_double f = Inr v"
| "holds f (VBytes v) \<longleftrightarrow> wf_bytes f = Inr v"
| "holds f (VString v) \<longleftrightarrow> wf_string f = Inr v"

fun value_ok :: "field_value \<Rightarrow> bool" where
  "value_ok (VBytes v) \<longleftrightarrow> length v < 2 ^ 64"
| "value_ok (VString v) \<longleftrightarrow> length v < 2 ^ 64 \<and> utf8_valid (bytes_of v)"
| "value_ok _ \<longleftrightarrow> True"

lemma put_value_append: "put_value n v w = w @ put_value n v []"
  by (cases v)
    (simp_all, (rule fb.put_append fu32.put_append fu64.put_append fi32.put_append fi64.put_append fs32.put_append
       fs64.put_append ff32.put_append ff64.put_append fsf32.put_append
       fsf64.put_append ffl.put_append fdb.put_append fby.put_append fst.put_append)+)

lemma put_value_field:
  "field_number n \<Longrightarrow> value_ok v \<Longrightarrow>
   \<exists>f. next_field (put_value n v [] @ rest) = Inr (Some f, rest) \<and> wf_number f = n \<and> holds f v"
  using fb.field fu32.field fu64.field fi32.field fi64.field fs32.field fs64.field ff32.field ff64.field fsf32.field fsf64.field
    ffl.field fdb.field fby.field fst.field
  by (cases v) simp_all

definition write_message :: "(u32 \<times> field_value) list \<Rightarrow> bytes" where
  "write_message fs = fold (\<lambda>(n, v) w. put_value n v w) fs []"

lemma write_message_fold: "fold (\<lambda>(n, v) w. put_value n v w) fs w = w @ write_message fs"
proof (induction fs arbitrary: w)
  case (Cons nv fs)
  obtain n v where nv: "nv = (n, v)" by (cases nv)
  have "fold (\<lambda>(n, v) w. put_value n v w) (nv # fs) u = u @ put_value n v [] @ write_message fs" for u
    using Cons.IH [of "put_value n v u"] put_value_append [of n v u] by (simp add: nv)
  from this [of w] this [of "[]"] show ?case by (simp add: write_message_def)
qed (simp add: write_message_def)

lemma write_message_Cons: "write_message ((n, v) # fs) = put_value n v [] @ write_message fs"
  using write_message_fold [of fs "put_value n v []"] by (simp add: write_message_def)

lemma fields_of_Nil: "fields_of [] = Inr []"
  by (simp add: fields_of.simps next_field_def)

section \<open>Properties\<close>

text \<open>
  C31.  What a payload writer emits is read back by the wire reader.  The fields are of every type the
  writer has (the varint and zigzag integers, the fixed and signed fixed integers, floats by their
  bits, booleans, bytes and strings), with field numbers from 1 to 2^29 - 1, bytes shorter than 2^64
  and strings that are valid UTF-8, as every \<open>String\<close> is.  Decoding the written message gives its
  fields in order, each with its number and its value, and nothing else.
\<close>

theorem payload_roundtrip:
  assumes "\<forall>(n, v) \<in> set fs. (1 \<le> n \<and> n < 2 ^ 29) \<and> value_ok v"
  shows "\<exists>gs. fields_of (write_message fs) = Inr gs \<and>
    list_all2 (\<lambda>(n, v) g. wf_number g = n \<and> holds g v) fs gs"
  using assms
proof (induction fs)
  case Nil
  then show ?case by (simp add: write_message_def fields_of_Nil)
next
  case (Cons nv fs)
  obtain n v where nv: "nv = (n, v)" by (cases nv)
  obtain g where g: "next_field (put_value n v [] @ write_message fs) = Inr (Some g, write_message fs)"
    "wf_number g = n" "holds g v"
    using Cons.prems nv put_value_field [of n v "write_message fs"] by (auto simp: field_number_iff)
  moreover obtain gs where "fields_of (write_message fs) = Inr gs" "list_all2 (\<lambda>(n, v) g. wf_number g = n \<and> holds g v) fs gs"
    using Cons by auto
  ultimately show ?case
    by (intro exI [of _ "g # gs"]) (simp add: nv write_message_Cons fields_of.simps [of "put_value n v [] @ write_message fs"])
qed

theorem payload_roundtrip_witness:
  "\<exists>gs. fields_of (write_message [(1, VSint32 (-5)), (2, VString ''hi''), (3, VBool True)]) = Inr gs \<and> length gs = 3"
proof -
  let ?fs = "[(1, VSint32 (-5)), (2, VString ''hi''), (3, VBool True)] :: (u32 \<times> field_value) list"
  have "\<forall>(n, v) \<in> set ?fs. (1 \<le> n \<and> n < 2 ^ 29) \<and> value_ok v"
    by (simp add: utf8_valid_ascii word_le_nat_alt word_less_nat_alt)
  from payload_roundtrip [OF this] obtain gs where "fields_of (write_message ?fs) = Inr gs"
    "list_all2 (\<lambda>(n, v) g. wf_number g = n \<and> holds g v) ?fs gs" by blast
  moreover from this(2) have "length gs = 3" by (auto dest!: list_all2_lengthD)
  ultimately show ?thesis by blast
qed

end
