(* ===== verification/Ipc_Validation.thy ===== *)
theory Ipc_Validation
  imports Ipc_Codec Ipc_Limits
begin

text \<open>
  Structural validation of application payloads and envelopes
  (\<open>crates/webui-desktop/src/ipc/validation.rs\<close>).  The generated message tables are an
  argument.  The readers \<open>varint\<close>, \<open>key\<close> and \<open>field\<close> of the file are those of
  \<open>Ipc_Codec\<close> with the error code \<open>InvalidFrame\<close>.
\<close>

datatype field_kind =
    FKBool | FKInt32 | FKInt64 | FKUint32 | FKUint64 | FKSint32 | FKSint64
  | FKFixed32 | FKFixed64 | FKSfixed32 | FKSfixed64 | FKFloat | FKDouble
  | FKEnum | FKBytes | FKString | FKMessage nat

record field_shape =
  fs_number :: u32
  fs_kind :: field_kind
  fs_repeated :: bool
  fs_packed :: bool
  fs_oneof :: "u32 option"
  fs_map_key :: bool

record message_shape =
  ms_fields :: "field_shape list"

record cursor =
  cur_input :: bytes
  cur_shape :: message_shape
  cur_oneofs :: "u32 \<rightharpoonup> u32"

definition cursor_new :: "bytes \<Rightarrow> message_shape \<Rightarrow> cursor" where
  "cursor_new input shape = \<lparr>cur_input = input, cur_shape = shape, cur_oneofs = Map.empty\<rparr>"

fun expected :: "field_kind \<Rightarrow> u8" where
  "expected FKFixed64 = 1"
| "expected FKSfixed64 = 1"
| "expected FKDouble = 1"
| "expected FKFixed32 = 5"
| "expected FKSfixed32 = 5"
| "expected FKFloat = 5"
| "expected FKBytes = 2"
| "expected FKString = 2"
| "expected (FKMessage c) = 2"
| "expected _ = 0"

fun scalar_in_range :: "field_kind \<Rightarrow> u64 \<Rightarrow> bool" where
  "scalar_in_range FKBool v \<longleftrightarrow> v \<le> 1"
| "scalar_in_range FKUint32 v \<longleftrightarrow> v \<le> 0xffffffff"
| "scalar_in_range FKSint32 v \<longleftrightarrow> v \<le> 0xffffffff"
| "scalar_in_range FKInt32 v \<longleftrightarrow> v \<le> 0x7fffffff \<or> v \<ge> 0xffffffff80000000"
| "scalar_in_range FKEnum v \<longleftrightarrow> v \<le> 0x7fffffff \<or> v \<ge> 0xffffffff80000000"
| "scalar_in_range _ v \<longleftrightarrow> True"

definition validate_scalar :: "bytes \<Rightarrow> field_kind \<Rightarrow> (ipc_error, unit) result" where
  "validate_scalar bs kind =
     (if expected kind \<noteq> 0 then Inr ()
      else rbind (read_varint_with InvalidFrame bs) (\<lambda>(v, r).
        if scalar_in_range kind v then Inr () else Inl (fail InvalidPayload)))"

lemma read_field_consumes: "read_field_with code wire input = Inr (d, r) \<Longrightarrow> length r < length input"
  by (auto simp: read_field_with_def rbind_Inr_iff read_exact_with_def split: if_splits dest!: read_varint_rest)

lemma read_delimited_consumes: "read_field_with code 2 input = Inr (d, r) \<Longrightarrow> length r + length d < length input"
  by (auto simp: read_field_with_def rbind_Inr_iff read_exact_with_def split: if_splits dest!: read_varint_rest)

text \<open>
  The loop over a packed field; it returns the number of collection entries so far.  Every
  entry takes at least one byte of the input, so the counter, a \<open>usize\<close> in the source, does
  not overflow.
\<close>

function packed_loop :: "ipc_limits \<Rightarrow> field_kind \<Rightarrow> bytes \<Rightarrow> nat \<Rightarrow> (ipc_error, nat) result" where
  "packed_loop limits kind packed entries =
     (if packed = [] then Inr entries
      else rbind (read_field_with InvalidFrame (expected kind) packed) (\<lambda>(v, rest).
        rbind (validate_scalar v kind) (\<lambda>_.
          if entries + 1 > max_collection_entries_per_message limits then Inl (fail PayloadTooLarge)
          else packed_loop limits kind rest (entries + 1))))"
  by pat_completeness auto
termination
  by (relation "measure (\<lambda>(_, _, packed, _). length packed)") (auto dest: read_field_consumes)

declare packed_loop.simps [simp del]

text \<open>
  One turn of the loop of \<open>validate_message\<close> with the cursor on top of the stack; the head of
  the list is the top.
\<close>

definition apply_rule ::
  "message_shape list \<Rightarrow> ipc_limits \<Rightarrow> field_shape \<Rightarrow> u8 \<Rightarrow> bytes \<Rightarrow> cursor list \<Rightarrow> nat \<Rightarrow>
   (ipc_error, cursor list \<times> nat) result" where
  "apply_rule messages limits rule wire data stack entries =
     (let scalar_wire = expected (fs_kind rule) in
      if fs_repeated rule \<and> fs_packed rule \<and> wire = 2 \<and> scalar_wire \<noteq> 2 then
        rbind (packed_loop limits (fs_kind rule) data entries) (\<lambda>e. Inr (stack, e))
      else if scalar_wire \<noteq> wire then Inl (fail InvalidPayload)
      else
        let entries' = (if fs_repeated rule then entries + 1 else entries) in
        if fs_repeated rule \<and> entries' > max_collection_entries_per_message limits then Inl (fail PayloadTooLarge)
        else (case fs_kind rule of
          FKMessage child \<Rightarrow>
            if length stack \<ge> max_schema_depth limits then Inl (fail PayloadTooLarge)
            else if child \<ge> length messages then Inl (fail SchemaMismatch)
            else Inr (cursor_new data (messages ! child) # stack, entries')
        | FKString \<Rightarrow> if utf8_valid (map unat data) then Inr (stack, entries') else Inl (fail InvalidPayload)
        | kind \<Rightarrow> rbind (validate_scalar data kind) (\<lambda>_. Inr (stack, entries'))))"

definition find_rule :: "message_shape \<Rightarrow> u32 \<Rightarrow> field_shape option" where
  "find_rule shape number = find (\<lambda>f. fs_number f = number) (ms_fields shape)"

definition validate_field ::
  "message_shape list \<Rightarrow> ipc_limits \<Rightarrow> cursor \<Rightarrow> cursor list \<Rightarrow> nat \<Rightarrow> (ipc_error, cursor list \<times> nat) result" where
  "validate_field messages limits cursor stack entries =
     (if cur_input cursor = [] then Inr (stack, entries)
      else rbind (read_key_with InvalidFrame (cur_input cursor)) (\<lambda>((number, wire), r).
        rbind (read_field_with InvalidFrame wire r) (\<lambda>(data, r').
          let cursor = cursor\<lparr>cur_input := r'\<rparr> in
          case find_rule (cur_shape cursor) number of
            None \<Rightarrow> Inr (cursor # stack, entries)
          | Some rule \<Rightarrow> (case fs_oneof rule of
              None \<Rightarrow> apply_rule messages limits rule wire data (cursor # stack) entries
            | Some grp \<Rightarrow>
                if (case cur_oneofs cursor grp of Some old \<Rightarrow> old \<noteq> number | None \<Rightarrow> False)
                then Inl (fail InvalidPayload)
                else apply_rule messages limits rule wire data
                  (cursor\<lparr>cur_oneofs := (cur_oneofs cursor)(grp \<mapsto> number)\<rparr> # stack) entries))))"

definition stack_size :: "cursor list \<Rightarrow> nat" where
  "stack_size stack = sum_list (map (\<lambda>c. Suc (length (cur_input c))) stack)"

lemma stack_size_Cons [simp]: "stack_size (c # cs) = Suc (length (cur_input c)) + stack_size cs" "stack_size [] = 0"
  by (simp_all add: stack_size_def)

lemma apply_rule_stack:
  "apply_rule messages limits rule wire data stack entries = Inr (stack', entries') \<Longrightarrow>
   stack' = stack \<or> (wire = 2 \<and> (\<exists>shape. stack' = cursor_new data shape # stack))"
  by (auto simp: apply_rule_def Let_def rbind_Inr_iff split: if_splits field_kind.splits)

lemma validate_field_decreases:
  assumes "validate_field messages limits c cs entries = Inr (stack', entries')"
  shows "stack_size stack' < stack_size (c # cs)"
proof (cases "cur_input c = []")
  case True
  with assms show ?thesis by (simp add: validate_field_def)
next
  case False
  then obtain number wire r data r' where k: "read_key_with InvalidFrame (cur_input c) = Inr ((number, wire), r)"
    and f: "read_field_with InvalidFrame wire r = Inr (data, r')"
    using assms by (auto simp: validate_field_def rbind_Inr_iff)
  have rest: "\<exists>oo. stack' = c\<lparr>cur_input := r', cur_oneofs := oo\<rparr> # cs \<or>
       (wire = 2 \<and> (\<exists>shape. stack' = cursor_new data shape # c\<lparr>cur_input := r', cur_oneofs := oo\<rparr> # cs))"
  proof (cases "find_rule (cur_shape c) number")
    case None
    with assms False k f have "stack' = c\<lparr>cur_input := r', cur_oneofs := cur_oneofs c\<rparr> # cs"
      by (simp add: validate_field_def)
    then show ?thesis by blast
  next
    case (Some rule)
    with assms False k f obtain oo where
      "apply_rule messages limits rule wire data (c\<lparr>cur_input := r', cur_oneofs := oo\<rparr> # cs) entries = Inr (stack', entries')"
      by (cases "fs_oneof rule") (auto simp: validate_field_def Let_def split: option.splits if_splits intro: that [of "cur_oneofs c"])
    from apply_rule_stack [OF this] show ?thesis by blast
  qed
  have "length r' < length r" "length r < length (cur_input c)"
    using read_field_consumes [OF f] read_key_rest [OF k] .
  moreover have "length r' + length data < length r" if "wire = 2" using read_delimited_consumes f that by blast
  ultimately show ?thesis using rest by (auto simp: cursor_new_def)
qed

function validate_loop :: "message_shape list \<Rightarrow> ipc_limits \<Rightarrow> cursor list \<Rightarrow> nat \<Rightarrow> (ipc_error, unit) result" where
  "validate_loop messages limits [] entries = Inr ()"
| "validate_loop messages limits (cursor # stack) entries =
     rbind (validate_field messages limits cursor stack entries)
       (\<lambda>(stack', entries'). validate_loop messages limits stack' entries')"
  by pat_completeness auto
termination
  by (relation "measure (\<lambda>(_, _, stack, _). stack_size stack)") (auto dest: validate_field_decreases)

definition validate_message :: "bytes \<Rightarrow> nat \<Rightarrow> message_shape list \<Rightarrow> ipc_limits \<Rightarrow> (ipc_error, unit) result" where
  "validate_message bs root messages limits =
     (if length bs > max_frame_bytes limits then Inl (fail PayloadTooLarge)
      else if root \<ge> length messages then Inl (fail SchemaMismatch)
      else validate_loop messages limits [cursor_new bs (messages ! root)] 0)"

section \<open>The specification\<close>

text \<open>
  What a message of a shape is, said with the reader and the typed accessors the generated
  decoders use: the payload splits into fields, every field the schema knows is readable with
  the accessor of its type, a oneof group is set through one field number only, and nested
  messages conform in turn.  The result is the number of collection entries.
\<close>

definition succeeds :: "('e, 'a) result \<Rightarrow> bool" where
  "succeeds r \<longleftrightarrow> (\<exists>v. r = Inr v)"

fun readable :: "field_kind \<Rightarrow> wire_field \<Rightarrow> bool" where
  "readable FKBool f \<longleftrightarrow> succeeds (wf_bool f)"
| "readable FKInt32 f \<longleftrightarrow> succeeds (wf_int32 f)"
| "readable FKEnum f \<longleftrightarrow> succeeds (wf_int32 f)"
| "readable FKInt64 f \<longleftrightarrow> succeeds (wf_int64 f)"
| "readable FKUint32 f \<longleftrightarrow> succeeds (wf_uint32 f)"
| "readable FKUint64 f \<longleftrightarrow> succeeds (wf_uint64 f)"
| "readable FKSint32 f \<longleftrightarrow> succeeds (wf_sint32 f)"
| "readable FKSint64 f \<longleftrightarrow> succeeds (wf_sint64 f)"
| "readable FKFixed32 f \<longleftrightarrow> succeeds (wf_fixed32 f)"
| "readable FKSfixed32 f \<longleftrightarrow> succeeds (wf_fixed32 f)"
| "readable FKFloat f \<longleftrightarrow> succeeds (wf_fixed32 f)"
| "readable FKFixed64 f \<longleftrightarrow> succeeds (wf_fixed64 f)"
| "readable FKSfixed64 f \<longleftrightarrow> succeeds (wf_fixed64 f)"
| "readable FKDouble f \<longleftrightarrow> succeeds (wf_fixed64 f)"
| "readable FKBytes f \<longleftrightarrow> succeeds (wf_bytes f)"
| "readable FKString f \<longleftrightarrow> succeeds (wf_string f)"
| "readable (FKMessage c) f \<longleftrightarrow> succeeds (wf_bytes f)"

text \<open>The values of a packed field.\<close>

function packed_values :: "u8 \<Rightarrow> bytes \<Rightarrow> (ipc_error, bytes list) result" where
  "packed_values wire packed =
     (if packed = [] then Inr []
      else rbind (read_field_with InvalidPayload wire packed) (\<lambda>(v, rest).
        rbind (packed_values wire rest) (\<lambda>vs. Inr (v # vs))))"
  by pat_completeness auto
termination
  by (relation "measure (\<lambda>(_, packed). length packed)") (auto dest: read_field_consumes)

declare packed_values.simps [simp del]

fun opt_plus :: "nat option \<Rightarrow> nat option \<Rightarrow> nat option" where
  "opt_plus (Some a) (Some b) = Some (a + b)"
| "opt_plus _ _ = None"

definition field_entries :: "(nat \<Rightarrow> bytes \<Rightarrow> nat option) \<Rightarrow> field_shape \<Rightarrow> wire_field \<Rightarrow> nat option" where
  "field_entries child rule f =
     (let one = (if fs_repeated rule then 1 else 0) in
      if fs_repeated rule \<and> fs_packed rule \<and> wf_wire f = 2 \<and> expected (fs_kind rule) \<noteq> 2 then
        (case packed_values (expected (fs_kind rule)) (wf_data f) of
           Inl _ \<Rightarrow> None
         | Inr vs \<Rightarrow>
             if \<forall>v \<in> set vs. readable (fs_kind rule) (f\<lparr>wf_wire := expected (fs_kind rule), wf_data := v\<rparr>)
             then Some (length vs) else None)
      else if \<not> readable (fs_kind rule) f then None
      else (case fs_kind rule of
          FKMessage c \<Rightarrow> opt_plus (Some one) (child c (wf_data f))
        | _ \<Rightarrow> Some one))"

definition known_entries :: "(nat \<Rightarrow> bytes \<Rightarrow> nat option) \<Rightarrow> message_shape \<Rightarrow> wire_field \<Rightarrow> nat option" where
  "known_entries child shape f = (case find_rule shape (wf_number f) of
     None \<Rightarrow> Some 0
   | Some rule \<Rightarrow> field_entries child rule f)"

definition oneof_tags :: "message_shape \<Rightarrow> wire_field list \<Rightarrow> (u32 \<times> u32) set" where
  "oneof_tags shape fs = {(g, n). \<exists>f \<in> set fs. \<exists>rule. n = wf_number f \<and> find_rule shape n = Some rule \<and> fs_oneof rule = Some g}"

definition fields_entries ::
  "(nat \<Rightarrow> bytes \<Rightarrow> nat option) \<Rightarrow> message_shape \<Rightarrow> (u32 \<rightharpoonup> u32) \<Rightarrow> (ipc_error, wire_field list) result \<Rightarrow> nat option" where
  "fields_entries child shape oo res = (case res of
     Inl _ \<Rightarrow> None
   | Inr fs \<Rightarrow>
       if single_valued (oneof_tags shape fs \<union> Map.graph oo)
       then foldr opt_plus (map (known_entries child shape) fs) (Some 0) else None)"

primrec message_entries :: "message_shape list \<Rightarrow> nat \<Rightarrow> message_shape \<Rightarrow> bytes \<Rightarrow> nat option" where
  "message_entries messages 0 shape bs = fields_entries (\<lambda>_ _. None) shape Map.empty (fields_of bs)"
| "message_entries messages (Suc depth) shape bs =
     fields_entries (\<lambda>c data. if c < length messages then message_entries messages depth (messages ! c) data else None)
       shape Map.empty (fields_of bs)"

section \<open>Reading does not depend on the error code\<close>

lemma read_varint_loop_code:
  "read_varint_loop code shifts acc input = Inr x \<Longrightarrow> read_varint_loop code' shifts acc input = Inr x"
  by (induction shifts arbitrary: acc input) (auto simp: Let_def split: list.splits if_splits)

lemma read_varint_code: "read_varint_with InvalidFrame input = Inr x \<longleftrightarrow> read_varint_with InvalidPayload input = Inr x"
  unfolding read_varint_with_def by (blast intro: read_varint_loop_code)

lemma read_exact_code: "read_exact_with InvalidFrame n input = Inr x \<longleftrightarrow> read_exact_with InvalidPayload n input = Inr x"
  by (simp add: read_exact_with_def)

lemma read_key_code: "read_key_with InvalidFrame input = Inr x \<longleftrightarrow> read_key_with InvalidPayload input = Inr x"
  by (simp add: read_key_with_def rbind_Inr_iff read_varint_code case_prod_unfold Let_def if_distrib [of "\<lambda>r. r = Inr x"] cong: if_cong)

lemma read_field_code: "read_field_with InvalidFrame wire input = Inr x \<longleftrightarrow> read_field_with InvalidPayload wire input = Inr x"
  by (simp add: read_field_with_def rbind_Inr_iff read_varint_code read_exact_code case_prod_unfold if_distrib [of "\<lambda>r. r = Inr x"] cong: if_cong)

lemma read_varint_loop_prefix:
  "read_varint_loop code shifts acc input = Inr (v, r) \<Longrightarrow>
   \<exists>p. input = p @ r \<and> read_varint_loop code' shifts acc p = Inr (v, [])"
proof (induction shifts arbitrary: acc input)
  case (Cons s ss)
  then obtain b rest where i: "input = b # rest" by (cases input) auto
  show ?case
  proof (cases "b < 0x80")
    case True
    with Cons.prems i show ?thesis by (intro exI [of _ "[b]"]) (auto simp: Let_def split: if_splits)
  next
    case False
    with Cons.prems i have "read_varint_loop code ss (acc OR push_bit s (ucast (b AND 0x7f))) rest = Inr (v, r)"
      by (auto simp: Let_def split: if_splits)
    from Cons.IH [OF this] obtain p where "rest = p @ r"
      "read_varint_loop code' ss (acc OR push_bit s (ucast (b AND 0x7f))) p = Inr (v, [])" by blast
    with Cons.prems i False show ?thesis by (intro exI [of _ "b # p"]) (auto simp: Let_def split: if_splits)
  qed
qed simp

lemma read_field_varint:
  assumes "read_field_with code 0 input = Inr (d, r)"
  shows "\<exists>v. read_varint_with code' d = Inr (v, [])"
proof -
  from assms obtain v where v: "read_varint_with code input = Inr (v, r)" "d = take (length input - length r) input"
    by (auto simp: read_field_with_def rbind_Inr_iff)
  obtain p where "input = p @ r" "read_varint_with code' p = Inr (v, [])"
    using read_varint_loop_prefix [OF v(1) [unfolded read_varint_with_def], of code'] by (auto simp: read_varint_with_def)
  with v(2) show ?thesis by auto
qed

section \<open>The validator meets the specification\<close>

lemma wf_uint64_data: "wf_wire f = 0 \<Longrightarrow> read_varint (wf_data f) = Inr (v, []) \<Longrightarrow> wf_uint64 f = Inr v"
  by (simp add: wf_uint64_def expect_wire_def)

lemma u64_le_u32: "(v :: u64) \<le> 0xffffffff \<longleftrightarrow> \<not> unat v > 0xffffffff"
  by (simp add: word_le_nat_alt not_less)

lemma ucast_0_1:
  assumes "(v :: u64) \<le> 0xffffffff"
  shows "(ucast v :: u32) = 0 \<longleftrightarrow> v = 0" "(ucast v :: u32) = 1 \<longleftrightarrow> v = 1"
proof -
  have "unat v < 2 ^ 32" using assms by (simp add: word_le_nat_alt)
  then have "unat (ucast v :: u32) = unat v" by (simp add: unsigned_ucast_eq take_bit_nat_eq_self)
  then show "(ucast v :: u32) = 0 \<longleftrightarrow> v = 0" "(ucast v :: u32) = 1 \<longleftrightarrow> v = 1"
    by (simp_all add: word_unat_eq_iff)
qed

lemma u64_le_1: "(v :: u64) \<le> 1 \<longleftrightarrow> v = 0 \<or> v = 1"
proof -
  have "unat v \<le> 1 \<longleftrightarrow> unat v = 0 \<or> unat v = 1" by auto
  then show ?thesis by (simp add: word_le_nat_alt word_unat_eq_iff)
qed

lemma wf_bool_range:
  assumes "wf_uint64 f = Inr v"
  shows "succeeds (wf_bool f) \<longleftrightarrow> v \<le> 1"
proof (cases "v \<le> 0xffffffff")
  case True
  then show ?thesis using assms ucast_0_1 [OF True]
    by (auto simp: succeeds_def wf_bool_def wf_uint32_def u64_le_u32 u64_le_1)
next
  case False
  then have "\<not> v \<le> 1" by (simp add: word_le_nat_alt)
  with False assms show ?thesis by (simp add: succeeds_def wf_bool_def wf_uint32_def u64_le_u32)
qed

lemma varint_readable:
  assumes "wf_uint64 f = Inr v" "expected kind = 0"
  shows "readable kind f \<longleftrightarrow> scalar_in_range kind v"
  using assms
  by (cases kind) (auto simp: wf_bool_range [unfolded succeeds_def] succeeds_def wf_int32_def wf_int64_def wf_uint32_def wf_sint32_def
      wf_sint64_def u64_le_u32 not_less)

text \<open>A field read with the wire type of its kind: the validator's test is the accessor's success.\<close>

lemma scalar_readable:
  assumes "read_field_with InvalidFrame (expected kind) input = Inr (data, r)" "kind \<noteq> FKString"
  shows "validate_scalar data kind = Inr () \<longleftrightarrow> readable kind \<lparr>wf_number = n, wf_wire = expected kind, wf_data = data\<rparr>"
proof (cases "expected kind = 0")
  case True
  with assms obtain v where v: "read_varint data = Inr (v, [])" by (auto dest: read_field_varint)
  then have "read_varint_with InvalidFrame data = Inr (v, [])" by (simp add: read_varint_code)
  with True have "validate_scalar data kind = Inr () \<longleftrightarrow> scalar_in_range kind v" by (simp add: validate_scalar_def)
  moreover have "wf_uint64 \<lparr>wf_number = n, wf_wire = expected kind, wf_data = data\<rparr> = Inr v"
    using v True by (intro wf_uint64_data) simp_all
  ultimately show ?thesis using varint_readable True by blast
next
  case False
  moreover have "expected kind = 5 \<Longrightarrow> length data = 4" "expected kind = 1 \<Longrightarrow> length data = 8"
    using assms(1) by (auto simp: read_field_with_def read_exact_with_def split: if_splits)
  ultimately show ?thesis using assms(2)
    by (cases kind) (auto simp: validate_scalar_def succeeds_def wf_fixed32_def wf_fixed64_def wf_bytes_def expect_wire_def)
qed

lemma wire_mismatch: "wf_wire f \<noteq> expected kind \<Longrightarrow> \<not> readable kind f"
  by (cases kind) (auto simp: succeeds_def wf_bool_def wf_int32_def wf_int64_def wf_uint32_def wf_uint64_def wf_sint32_def
      wf_sint64_def wf_fixed32_def wf_fixed64_def wf_bytes_def wf_string_def expect_wire_def)

lemma packed_loop_spec:
  assumes "expected kind \<noteq> 2" "entries \<le> max_collection_entries_per_message limits"
  shows "packed_loop limits kind packed entries = Inr e \<longleftrightarrow>
    (\<exists>vs. packed_values (expected kind) packed = Inr vs \<and>
      (\<forall>v \<in> set vs. readable kind \<lparr>wf_number = n, wf_wire = expected kind, wf_data = v\<rparr>) \<and>
      e = entries + length vs \<and> e \<le> max_collection_entries_per_message limits)"
  using assms
proof (induction limits kind packed entries rule: packed_loop.induct)
  case (1 limits kind packed entries)
  show ?case
  proof (cases "packed = []")
    case False
    show ?thesis
    proof (cases "read_field_with InvalidFrame (expected kind) packed")
      case (Inl err)
      then have "\<not> (\<exists>x. read_field_with InvalidPayload (expected kind) packed = Inr x)" by (simp flip: read_field_code)
      then have "\<not> (\<exists>vs. packed_values (expected kind) packed = Inr vs)"
        using False by (auto simp: packed_values.simps [of _ packed] rbind_Inr_iff)
      with Inl False show ?thesis by (simp add: packed_loop.simps [of _ _ packed])
    next
      case (Inr vr)
      then obtain v rest where vr: "read_field_with InvalidFrame (expected kind) packed = Inr (v, rest)" by (cases vr) auto
      have k: "kind \<noteq> FKString" using "1.prems"(1) by auto
      have pv: "packed_values (expected kind) packed = rbind (packed_values (expected kind) rest) (\<lambda>vs. Inr (v # vs))"
        using vr False by (simp add: packed_values.simps [of _ packed] read_field_code)
      note sr = scalar_readable [OF vr k, of n]
      show ?thesis
      proof (cases "validate_scalar v kind = Inr () \<and> entries + 1 \<le> max_collection_entries_per_message limits")
        case True
        then have "packed_loop limits kind packed entries = packed_loop limits kind rest (entries + 1)"
          using vr False by (simp add: packed_loop.simps [of _ _ packed])
        moreover have "packed_loop limits kind rest (entries + 1) = Inr e \<longleftrightarrow>
            (\<exists>vs. packed_values (expected kind) rest = Inr vs \<and>
              (\<forall>v \<in> set vs. readable kind \<lparr>wf_number = n, wf_wire = expected kind, wf_data = v\<rparr>) \<and>
              e = entries + 1 + length vs \<and> e \<le> max_collection_entries_per_message limits)"
          using "1.IH" [OF False vr refl, of "()"] True "1.prems"(1) by simp
        ultimately show ?thesis
          using True sr unfolding pv by (cases "packed_values (expected kind) rest") simp_all
      next
        case no: False
        then have "packed_loop limits kind packed entries \<noteq> Inr e"
          using vr False by (auto simp: packed_loop.simps [of _ _ packed] rbind_Inr_iff)
        moreover have "\<not> (\<exists>vs. packed_values (expected kind) packed = Inr vs \<and>
            (\<forall>v \<in> set vs. readable kind \<lparr>wf_number = n, wf_wire = expected kind, wf_data = v\<rparr>) \<and>
            entries + length vs \<le> max_collection_entries_per_message limits)"
          using no sr unfolding pv by (cases "packed_values (expected kind) rest") auto
        ultimately show ?thesis by auto
      qed
    qed
  qed (use "1.prems" in \<open>auto simp: packed_loop.simps [of _ _ "[]"] packed_values.simps [of _ "[]"]\<close>)
qed

text \<open>The entries still to be counted by the cursors on the stack.\<close>

definition child_entries :: "message_shape list \<Rightarrow> nat \<Rightarrow> nat \<Rightarrow> bytes \<Rightarrow> nat option" where
  "child_entries messages depth c data = (case depth of
     0 \<Rightarrow> None
   | Suc d \<Rightarrow> if c < length messages then message_entries messages d (messages ! c) data else None)"

lemma message_entries_eq:
  "message_entries messages depth shape bs = fields_entries (child_entries messages depth) shape Map.empty (fields_of bs)"
  by (cases depth) (simp_all add: child_entries_def [abs_def])

definition cursor_entries :: "message_shape list \<Rightarrow> nat \<Rightarrow> cursor \<Rightarrow> nat option" where
  "cursor_entries messages depth c =
     fields_entries (child_entries messages depth) (cur_shape c) (cur_oneofs c) (fields_of (cur_input c))"

fun stack_entries :: "message_shape list \<Rightarrow> nat \<Rightarrow> cursor list \<Rightarrow> nat option" where
  "stack_entries messages depth [] = Some 0"
| "stack_entries messages depth (c # cs) =
     opt_plus (cursor_entries messages (depth - Suc (length cs)) c) (stack_entries messages depth cs)"

definition admits :: "message_shape list \<Rightarrow> ipc_limits \<Rightarrow> nat option \<Rightarrow> nat \<Rightarrow> bool" where
  "admits messages limits n entries \<longleftrightarrow> (\<exists>k. n = Some k \<and> entries + k \<le> max_collection_entries_per_message limits)"

lemma opt_plus_simps [simp]: "opt_plus None y = None" "opt_plus x None = None" "opt_plus (Some 0) y = y" "opt_plus x (Some 0) = x"
  by (cases x; cases y; simp)+

lemma opt_plus_assoc: "opt_plus (opt_plus x y) z = opt_plus x (opt_plus y z)"
  by (cases x; cases y; cases z; simp)

lemma admits_plus: "admits messages limits (opt_plus (Some k) n) entries \<longleftrightarrow> admits messages limits n (entries + k)"
  by (cases n) (auto simp: admits_def)

lemma admits_None [simp]: "\<not> admits messages limits None entries"
  by (simp add: admits_def)

lemma graph_single_valued [simp]: "single_valued (Map.graph m)"
  by (auto simp: single_valued_def dest!: in_graphD)

lemma oneof_tags_Nil [simp]: "oneof_tags shape [] = {}"
  by (simp add: oneof_tags_def)

lemma oneof_tags_Cons:
  "oneof_tags shape (f # fs) = (case find_rule shape (wf_number f) of
     Some rule \<Rightarrow> (case fs_oneof rule of Some g \<Rightarrow> insert (g, wf_number f) (oneof_tags shape fs) | None \<Rightarrow> oneof_tags shape fs)
   | None \<Rightarrow> oneof_tags shape fs)"
  by (auto simp: oneof_tags_def split: option.splits)

lemma single_valued_graph_upd:
  "single_valued (insert (g, n) T \<union> Map.graph oo) \<longleftrightarrow>
   \<not> (case oo g of Some old \<Rightarrow> old \<noteq> n | None \<Rightarrow> False) \<and> single_valued (T \<union> Map.graph (oo(g \<mapsto> n)))"
proof (cases "case oo g of Some old \<Rightarrow> old \<noteq> n | None \<Rightarrow> False")
  case True
  then obtain old where "(g, old) \<in> Map.graph oo" "old \<noteq> n" by (auto split: option.splits intro: in_graphI)
  then show ?thesis using True by (auto simp: single_valued_def)
next
  case False
  then have "Map.graph (oo(g \<mapsto> n)) = insert (g, n) (Map.graph oo)"
    by (auto simp: Map.graph_def split: option.splits if_splits)
  with False show ?thesis by (auto simp: single_valued_def)
qed

lemma fields_of_step:
  assumes "input \<noteq> []" "read_key_with InvalidFrame input = Inr ((number, wire), r)"
    "read_field_with InvalidFrame wire r = Inr (data, r')"
  shows "fields_of input = rbind (fields_of r') (\<lambda>gs. Inr (\<lparr>wf_number = number, wf_wire = wire, wf_data = data\<rparr> # gs))"
  using assms by (simp add: fields_of.simps [of input] next_field_def read_key_code read_field_code)

lemma fields_entries_step:
  "fields_entries child shape oo (rbind fs (\<lambda>gs. Inr (f # gs))) =
     (case find_rule shape (wf_number f) of
        None \<Rightarrow> fields_entries child shape oo fs
      | Some rule \<Rightarrow> opt_plus (field_entries child rule f) (case fs_oneof rule of
          None \<Rightarrow> fields_entries child shape oo fs
        | Some g \<Rightarrow>
            if (case oo g of Some old \<Rightarrow> old \<noteq> wf_number f | None \<Rightarrow> False) then None
            else fields_entries child shape (oo(g \<mapsto> wf_number f)) fs))"
proof (cases fs)
  case Inl
  then show ?thesis by (auto simp: fields_entries_def split: option.splits)
next
  case gs: (Inr gs)
  show ?thesis
  proof (cases "find_rule shape (wf_number f)")
    case None
    then show ?thesis by (simp add: gs fields_entries_def oneof_tags_Cons known_entries_def)
  next
    case rule: (Some rule)
    show ?thesis
    proof (cases "fs_oneof rule")
      case None
      with rule show ?thesis by (simp add: gs fields_entries_def oneof_tags_Cons known_entries_def)
    next
      case (Some g)
      let ?T = "oneof_tags shape gs"
      have tags: "oneof_tags shape (f # gs) = insert (g, wf_number f) ?T" using rule Some by (simp add: oneof_tags_Cons)
      show ?thesis
        unfolding gs fields_entries_def rbind.simps sum.case tags single_valued_graph_upd
        using rule Some by (simp add: known_entries_def)
    qed
  qed
qed

text \<open>One turn of the loop keeps what is still to be counted.\<close>

abbreviation continues ::
  "message_shape list \<Rightarrow> ipc_limits \<Rightarrow> (ipc_error, cursor list \<times> nat) result \<Rightarrow> bool" where
  "continues messages limits res \<equiv> (\<exists>stack' e'. res = Inr (stack', e') \<and>
     e' \<le> max_collection_entries_per_message limits \<and>
     admits messages limits (stack_entries messages (max_schema_depth limits) stack') e')"

lemma admits_le: "admits messages limits n e \<Longrightarrow> e \<le> max_collection_entries_per_message limits"
  by (auto simp: admits_def)

lemma apply_rule_packed:
  assumes "fs_repeated rule" "fs_packed rule" "wire = 2" "expected (fs_kind rule) \<noteq> 2"
    "entries \<le> max_collection_entries_per_message limits"
  shows "continues messages limits (apply_rule messages limits rule wire data stack entries) \<longleftrightarrow>
    admits messages limits (opt_plus (field_entries child rule \<lparr>wf_number = n, wf_wire = wire, wf_data = data\<rparr>)
      (stack_entries messages (max_schema_depth limits) stack)) entries"
    (is "continues _ _ ?res \<longleftrightarrow> admits _ _ (opt_plus ?fe ?se) _")
proof -
  let ?ok = "\<lambda>vs. \<forall>v \<in> set vs. readable (fs_kind rule) \<lparr>wf_number = n, wf_wire = expected (fs_kind rule), wf_data = v\<rparr>"
  have res: "?res = rbind (packed_loop limits (fs_kind rule) data entries) (\<lambda>e. Inr (stack, e))"
    using assms by (simp add: apply_rule_def Let_def)
  have fe: "?fe = (case packed_values (expected (fs_kind rule)) data of
      Inl _ \<Rightarrow> None | Inr vs \<Rightarrow> if ?ok vs then Some (length vs) else None)"
    using assms by (simp add: field_entries_def Let_def split: sum.split)
  note spec = packed_loop_spec [OF assms(4,5), where n = n and packed = data]
  show ?thesis
  proof (cases "\<exists>vs. packed_values (expected (fs_kind rule)) data = Inr vs \<and> ?ok vs")
    case True
    then obtain vs where vs: "packed_values (expected (fs_kind rule)) data = Inr vs" "?ok vs" by blast
    have "?fe = Some (length vs)" using vs by (simp add: fe)
    moreover have "continues messages limits ?res \<longleftrightarrow> admits messages limits ?se (entries + length vs)"
      unfolding res using spec vs admits_le by (auto simp: rbind_Inr_iff)
    ultimately show ?thesis by (simp only: admits_plus)
  next
    case False
    then have "?fe = None" by (auto simp: fe split: sum.splits)
    moreover have "\<not> continues messages limits ?res" unfolding res using spec False by (auto simp: rbind_Inr_iff)
    ultimately show ?thesis by simp
  qed
qed

lemma apply_rule_single:
  assumes "\<not> (fs_repeated rule \<and> fs_packed rule \<and> wire = 2 \<and> expected (fs_kind rule) \<noteq> 2)"
    "read_field_with InvalidFrame wire r = Inr (data, r')" "entries \<le> max_collection_entries_per_message limits"
  shows "continues messages limits (apply_rule messages limits rule wire data stack entries) \<longleftrightarrow>
    admits messages limits (opt_plus
      (field_entries (child_entries messages (max_schema_depth limits - length stack)) rule
        \<lparr>wf_number = n, wf_wire = wire, wf_data = data\<rparr>)
      (stack_entries messages (max_schema_depth limits) stack)) entries"
    (is "continues _ _ ?res \<longleftrightarrow> admits _ _ (opt_plus (field_entries ?child _ ?f) ?se) _")
proof (cases "expected (fs_kind rule) = wire")
  case False
  then have "\<not> readable (fs_kind rule) ?f" by (intro wire_mismatch) simp
  moreover have "?res = Inl (fail InvalidPayload)" using False assms(1) by (auto simp: apply_rule_def Let_def)
  ultimately show ?thesis
    by (simp only: field_entries_def Let_def wire_field.simps if_not_P [OF assms(1)]) simp
next
  case wire: True
  let ?one = "if fs_repeated rule then 1 else 0 :: nat"
  have plain: "?res =
      (if entries + ?one > max_collection_entries_per_message limits then Inl (fail PayloadTooLarge)
       else (case fs_kind rule of
          FKMessage child \<Rightarrow>
            if length stack \<ge> max_schema_depth limits then Inl (fail PayloadTooLarge)
            else if child \<ge> length messages then Inl (fail SchemaMismatch)
            else Inr (cursor_new data (messages ! child) # stack, entries + ?one)
        | FKString \<Rightarrow> if utf8_valid (map unat data) then Inr (stack, entries + ?one) else Inl (fail InvalidPayload)
        | kind \<Rightarrow> rbind (validate_scalar data kind) (\<lambda>_. Inr (stack, entries + ?one))))"
    unfolding apply_rule_def Let_def if_not_P [OF assms(1)] using wire assms(3)
    by (cases "fs_repeated rule") (simp_all split: field_kind.split)
  have fe: "field_entries ?child rule ?f = (if \<not> readable (fs_kind rule) ?f then None
      else (case fs_kind rule of FKMessage c \<Rightarrow> opt_plus (Some ?one) (?child c data) | _ \<Rightarrow> Some ?one))"
    by (simp only: field_entries_def Let_def wire_field.simps if_not_P [OF assms(1)])
  consider (msg) c where "fs_kind rule = FKMessage c" | (str) "fs_kind rule = FKString"
    | (scalar) "fs_kind rule \<noteq> FKString" "\<And>c. fs_kind rule \<noteq> FKMessage c" by (cases "fs_kind rule") auto
  then show ?thesis
  proof cases
    case msg
    have rd: "readable (fs_kind rule) ?f" using wire msg by (simp add: succeeds_def wf_bytes_def expect_wire_def)
    have "continues messages limits ?res \<longleftrightarrow> admits messages limits (opt_plus (?child c data) ?se) (entries + ?one)"
    proof (cases "length stack < max_schema_depth limits \<and> c < length messages")
      case True
      then have d: "max_schema_depth limits - length stack = Suc (max_schema_depth limits - Suc (length stack))"
        by (simp add: Suc_diff_Suc)
      have "?child c data = cursor_entries messages (max_schema_depth limits - Suc (length stack)) (cursor_new data (messages ! c))"
        using True unfolding d by (simp add: child_entries_def cursor_entries_def cursor_new_def message_entries_eq)
      then have "continues messages limits ?res \<longleftrightarrow> entries + ?one \<le> max_collection_entries_per_message limits \<and>
          admits messages limits (opt_plus (?child c data) ?se) (entries + ?one)"
        unfolding plain using True msg by auto
      then show ?thesis using admits_le by blast
    next
      case False
      then have "?child c data = None" by (auto simp: child_entries_def split: nat.splits)
      with False show ?thesis unfolding plain using msg by auto
    qed
    then show ?thesis using rd msg by (simp only: fe opt_plus_assoc admits_plus field_kind.case not_True_eq_False if_False)
  next
    case str
    have "readable (fs_kind rule) ?f \<longleftrightarrow> utf8_valid (map unat data)"
      using wire str by (simp add: succeeds_def wf_string_def wf_bytes_def expect_wire_def)
    moreover have "continues messages limits ?res \<longleftrightarrow> utf8_valid (map unat data) \<and> admits messages limits ?se (entries + ?one)"
      unfolding plain using str by (auto dest: admits_le)
    ultimately show ?thesis using str by (cases "utf8_valid (map unat data)") (simp_all only: fe admits_plus field_kind.case if_True if_False not_True_eq_False not_False_eq_True opt_plus_simps admits_None simp_thms)
  next
    case scalar
    have sr: "validate_scalar data (fs_kind rule) = Inr () \<longleftrightarrow> readable (fs_kind rule) ?f"
      using scalar_readable [OF assms(2) [folded wire] scalar(1), of n] wire by simp
    have k: "(case fs_kind rule of FKMessage c \<Rightarrow> opt_plus (Some ?one) (?child c data) | _ \<Rightarrow> Some ?one) = Some ?one"
      using scalar by (cases "fs_kind rule") auto
    have "?res = (if entries + ?one > max_collection_entries_per_message limits then Inl (fail PayloadTooLarge)
        else rbind (validate_scalar data (fs_kind rule)) (\<lambda>_. Inr (stack, entries + ?one)))"
      unfolding plain using scalar by (cases "fs_kind rule") auto
    then have "continues messages limits ?res \<longleftrightarrow> readable (fs_kind rule) ?f \<and> admits messages limits ?se (entries + ?one)"
      using sr by (cases "validate_scalar data (fs_kind rule)") (auto dest: admits_le)
    then show ?thesis
      by (cases "readable (fs_kind rule) ?f") (simp_all only: fe k admits_plus if_True if_False not_True_eq_False not_False_eq_True opt_plus_simps admits_None simp_thms)
  qed
qed

lemma packed_loop_bound:
  "packed_loop limits kind packed entries = Inr e \<Longrightarrow> entries \<le> max_collection_entries_per_message limits \<Longrightarrow>
   e \<le> max_collection_entries_per_message limits"
proof (induction limits kind packed entries rule: packed_loop.induct)
  case (1 limits kind packed entries)
  then show ?case
    by (auto simp: packed_loop.simps [of limits kind packed entries] rbind_Inr_iff split: if_splits)
qed

lemma apply_rule_bound:
  "apply_rule messages limits rule wire data stack entries = Inr (s, e) \<Longrightarrow>
   entries \<le> max_collection_entries_per_message limits \<Longrightarrow> e \<le> max_collection_entries_per_message limits"
  by (auto simp: apply_rule_def Let_def rbind_Inr_iff split: if_splits field_kind.splits dest: packed_loop_bound)

lemma validate_field_bound:
  "validate_field messages limits c cs entries = Inr (s, e) \<Longrightarrow>
   entries \<le> max_collection_entries_per_message limits \<Longrightarrow> e \<le> max_collection_entries_per_message limits"
  by (auto simp: validate_field_def rbind_Inr_iff Let_def split: if_splits option.splits dest: apply_rule_bound)

lemma validate_field_spec:
  assumes "entries \<le> max_collection_entries_per_message limits"
  shows "continues messages limits (validate_field messages limits c cs entries) \<longleftrightarrow>
    admits messages limits (stack_entries messages (max_schema_depth limits) (c # cs)) entries"
proof (cases "cur_input c = []")
  case True
  then have "stack_entries messages (max_schema_depth limits) (c # cs) = stack_entries messages (max_schema_depth limits) cs"
    by (simp add: cursor_entries_def fields_entries_def fields_of_Nil)
  with True assms show ?thesis by (auto simp: validate_field_def)
next
  case ne: False
  show ?thesis
  proof (cases "\<exists>number wire r data r'. read_key_with InvalidFrame (cur_input c) = Inr ((number, wire), r) \<and>
      read_field_with InvalidFrame wire r = Inr (data, r')")
    case False
    have "\<not> (\<exists>fs. fields_of (cur_input c) = Inr fs)"
    proof
      assume "\<exists>fs. fields_of (cur_input c) = Inr fs"
      then obtain f r' where "next_field (cur_input c) = Inr (f, r')"
        by (auto simp: fields_of.simps [of "cur_input c"] rbind_Inr_iff)
      with ne False show False by (auto simp: next_field_def rbind_Inr_iff read_key_code read_field_code)
    qed
    then have "cursor_entries messages d c = None" for d
      by (cases "fields_of (cur_input c)") (auto simp: cursor_entries_def fields_entries_def)
    moreover have "\<not> continues messages limits (validate_field messages limits c cs entries)"
      using ne False by (auto simp: validate_field_def rbind_Inr_iff)
    ultimately show ?thesis by simp
  next
    case True
    then obtain number wire r data r' where k: "read_key_with InvalidFrame (cur_input c) = Inr ((number, wire), r)"
      and f: "read_field_with InvalidFrame wire r = Inr (data, r')" by blast
    let ?f = "\<lparr>wf_number = number, wf_wire = wire, wf_data = data\<rparr>"
    let ?d = "max_schema_depth limits - Suc (length cs)"
    let ?c = "\<lambda>oo. c\<lparr>cur_input := r', cur_oneofs := oo\<rparr>"
    have ce: "cursor_entries messages ?d c = fields_entries (child_entries messages ?d) (cur_shape c) (cur_oneofs c)
        (rbind (fields_of r') (\<lambda>gs. Inr (?f # gs)))"
      by (simp add: cursor_entries_def fields_of_step [OF ne k f])
    have ce': "cursor_entries messages ?d (?c oo) = fields_entries (child_entries messages ?d) (cur_shape c) oo (fields_of r')" for oo
      by (simp add: cursor_entries_def)
    have rule_spec: "continues messages limits (apply_rule messages limits rule wire data (?c oo # cs) entries) \<longleftrightarrow>
        admits messages limits (opt_plus (field_entries (child_entries messages ?d) rule ?f)
          (stack_entries messages (max_schema_depth limits) (?c oo # cs))) entries" for rule oo
    proof (cases "fs_repeated rule \<and> fs_packed rule \<and> wire = 2 \<and> expected (fs_kind rule) \<noteq> 2")
      case True
      then show ?thesis using apply_rule_packed [OF _ _ _ _ assms, of rule wire messages data "?c oo # cs"] by blast
    next
      case False
      from apply_rule_single [OF this f assms, of messages "?c oo # cs" number] show ?thesis by simp
    qed
    have step: "validate_field messages limits c cs entries =
        (case find_rule (cur_shape c) number of
           None \<Rightarrow> Inr (?c (cur_oneofs c) # cs, entries)
         | Some rule \<Rightarrow> (case fs_oneof rule of
             None \<Rightarrow> apply_rule messages limits rule wire data (?c (cur_oneofs c) # cs) entries
           | Some g \<Rightarrow>
               if (case cur_oneofs c g of Some old \<Rightarrow> old \<noteq> number | None \<Rightarrow> False) then Inl (fail InvalidPayload)
               else apply_rule messages limits rule wire data (?c ((cur_oneofs c)(g \<mapsto> number)) # cs) entries))"
      using ne k f by (simp add: validate_field_def Let_def split: option.split)
    show ?thesis
    proof (cases "find_rule (cur_shape c) number")
      case None
      then have "validate_field messages limits c cs entries = Inr (?c (cur_oneofs c) # cs, entries)" by (simp add: step)
      moreover have "cursor_entries messages ?d c = cursor_entries messages ?d (?c (cur_oneofs c))"
        using None unfolding ce ce' fields_entries_step by simp
      ultimately show ?thesis using assms by simp
    next
      case rule: (Some rule)
      define conflict where "conflict \<longleftrightarrow> (case fs_oneof rule of None \<Rightarrow> False
        | Some g \<Rightarrow> (case cur_oneofs c g of Some old \<Rightarrow> old \<noteq> number | None \<Rightarrow> False))"
      define oo where "oo = (case fs_oneof rule of None \<Rightarrow> cur_oneofs c | Some g \<Rightarrow> (cur_oneofs c)(g \<mapsto> number))"
      have v: "validate_field messages limits c cs entries =
          (if conflict then Inl (fail InvalidPayload) else apply_rule messages limits rule wire data (?c oo # cs) entries)"
        using rule by (simp add: step conflict_def oo_def split: option.splits)
      have "cursor_entries messages ?d c = (if conflict then None
          else opt_plus (field_entries (child_entries messages ?d) rule ?f) (cursor_entries messages ?d (?c oo)))"
        using rule unfolding ce ce' fields_entries_step by (simp add: conflict_def oo_def split: option.splits)
      then show ?thesis
        using rule_spec [of rule oo] by (cases conflict) (simp_all add: v opt_plus_assoc)
    qed
  qed
qed

lemma validate_loop_spec:
  "entries \<le> max_collection_entries_per_message limits \<Longrightarrow>
   validate_loop messages limits stack entries = Inr () \<longleftrightarrow>
   admits messages limits (stack_entries messages (max_schema_depth limits) stack) entries"
proof (induction messages limits stack entries rule: validate_loop.induct)
  case (1 messages limits entries)
  then show ?case by (simp add: admits_def)
next
  case (2 messages limits cursor stack entries)
  note spec = validate_field_spec [OF "2.prems", of messages cursor stack]
  show ?case
  proof (cases "validate_field messages limits cursor stack entries")
    case (Inl e)
    then show ?thesis using spec by simp
  next
    case (Inr se)
    then obtain s e where se: "validate_field messages limits cursor stack entries = Inr (s, e)" by (cases se) auto
    show ?thesis
    proof (cases "e \<le> max_collection_entries_per_message limits")
      case True
      from "2.IH" [OF se refl this] True spec se show ?thesis by simp
    next
      case False
      have "e \<le> max_collection_entries_per_message limits"
        using se "2.prems" by (rule validate_field_bound)
      with False show ?thesis by simp
    qed
  qed
qed

section \<open>Envelopes\<close>

definition IPC_VERSION :: u32 where
  "IPC_VERSION = 3"

definition is_payload :: "frame_body option \<Rightarrow> bool" where
  "is_payload b \<longleftrightarrow> (case b of Some (Payload _) \<Rightarrow> True | _ \<Rightarrow> False)"

definition is_error_body :: "frame_body option \<Rightarrow> bool" where
  "is_error_body b \<longleftrightarrow> (case b of Some (ErrorBody _) \<Rightarrow> True | _ \<Rightarrow> False)"

fun kind_shape :: "ipc_limits \<Rightarrow> ipc_frame \<Rightarrow> kind \<Rightarrow> bool" where
  "kind_shape limits f KRequest \<longleftrightarrow> method_id f \<noteq> 0 \<and> timeout_ms f \<noteq> 0 \<and>
     unat (timeout_ms f) \<le> max_timeout_ms limits \<and> is_payload (body f)"
| "kind_shape limits f KNotify \<longleftrightarrow> method_id f \<noteq> 0 \<and> timeout_ms f = 0 \<and> is_payload (body f)"
| "kind_shape limits f KResult \<longleftrightarrow> method_id f = 0 \<and> timeout_ms f = 0 \<and> is_payload (body f)"
| "kind_shape limits f KError \<longleftrightarrow> method_id f = 0 \<and> timeout_ms f = 0 \<and> is_error_body (body f)"
| "kind_shape limits f KAccept \<longleftrightarrow> method_id f = 0 \<and> timeout_ms f = 0 \<and> body f = None"
| "kind_shape limits f KCancel \<longleftrightarrow> method_id f = 0 \<and> timeout_ms f = 0 \<and> body f = None"
| "kind_shape limits f KUnspecified \<longleftrightarrow> False"

definition validate_frame :: "ipc_frame \<Rightarrow> ipc_limits \<Rightarrow> (ipc_error, unit) result" where
  "validate_frame f limits =
     (if version f \<noteq> IPC_VERSION then Inl (fail UnsupportedVersion)
      else if generation f = 0 \<or> frame_id f = 0 then Inl (fail InvalidFrame)
      else case kind_try_from (frame_kind f) of
        None \<Rightarrow> Inl (fail InvalidFrame)
      | Some kind \<Rightarrow>
          if \<not> kind_shape limits f kind then Inl (fail InvalidFrame)
          else (case body f of
            Some (ErrorBody e) \<Rightarrow>
              if length (we_code e) + length (we_message e) + length (we_help e) + length (we_application_code e)
                   > max_error_text_bytes_total limits
              then Inl (fail PayloadTooLarge) else Inr ()
          | _ \<Rightarrow> Inr ()))"

definition decode_frame :: "bytes \<Rightarrow> ipc_limits \<Rightarrow> (ipc_error, ipc_frame) result" where
  "decode_frame bs limits =
     (if length bs > max_frame_bytes limits then Inl (fail PayloadTooLarge)
      else case frame_decode bs of
        Inl _ \<Rightarrow> Inl (fail InvalidFrame)
      | Inr f \<Rightarrow> rbind (validate_frame f limits) (\<lambda>_. Inr f))"

lemma decode_frame_iff:
  "decode_frame bs limits = Inr f \<longleftrightarrow>
     frame_ok f \<and> bs = encode_to_vec f \<and> encoded_len f \<le> max_frame_bytes limits \<and> validate_frame f limits = Inr ()"
proof (cases "frame_decode bs")
  case (Inl e)
  then have "\<not> (frame_ok f \<and> bs = encode_to_vec f)" using frame_decode_encode [of f] by auto
  with Inl show ?thesis by (auto simp: decode_frame_def)
next
  case (Inr g)
  then have g: "encode_to_vec g = bs" "frame_ok g" by (simp_all add: frame_encode_decode)
  show ?thesis
  proof (cases "f = g")
    case True
    have "length bs = encoded_len g" using length_encode [of g] g(1) by simp
    with True Inr g show ?thesis by (cases "validate_frame g limits") (simp_all add: decode_frame_def)
  next
    case False
    then have "\<not> (frame_ok f \<and> bs = encode_to_vec f)" using Inr frame_decode_encode [of f] by (metis sum.inject(2))
    moreover have "decode_frame bs limits \<noteq> Inr f"
      using False Inr by (cases "validate_frame g limits") (simp_all add: decode_frame_def)
    ultimately show ?thesis by blast
  qed
qed

subsection \<open>Error frames\<close>

text \<open>The error frame of any error decodes to itself, under a policy a host can configure.\<close>

lemma error_frame_decode:
  assumes "ipc_error_utf8 e" "configured limits" "gen \<noteq> 0" "ident \<noteq> 0"
  shows "decode_frame (encode_to_vec \<lparr>version = IPC_VERSION, generation = gen, frame_id = ident,
        frame_kind = kind_i32 KError, method_id = 0, timeout_ms = 0,
        body = Some (ErrorBody (err_wire e (max_error_text_bytes_total limits)))\<rparr>) limits
      = Inr \<lparr>version = IPC_VERSION, generation = gen, frame_id = ident, frame_kind = kind_i32 KError, method_id = 0, timeout_ms = 0,
          body = Some (ErrorBody (err_wire e (max_error_text_bytes_total limits)))\<rparr>
    \<and> err_code (err_from_wire (err_wire e (max_error_text_bytes_total limits)) (max_error_text_bytes_total limits)) = err_code e"
proof -
  let ?w = "err_wire e (max_error_text_bytes_total limits)"
  let ?f = "\<lparr>version = IPC_VERSION, generation = gen, frame_id = ident, frame_kind = kind_i32 KError, method_id = 0,
     timeout_ms = 0, body = Some (ErrorBody ?w)\<rparr>"
  have lim: "limits_ok limits" "max_error_text_bytes_total limits = 2048"
    using configured_shape [OF assms(2)] by (auto simp: default_limits_def)
  have fits: "wire_error_text ?w \<le> max_error_text_bytes_total limits"
    using err_wire_budget [of e "max_error_text_bytes_total limits"] as_str_length [of "err_code e"] lim(2) by linarith
  have small: "max_error_text_bytes_total limits < 2 ^ 32"
    using lim(2) by simp
  have "wire_error_ok ?w"
    using err_wire_utf8 [OF assms(1), of "max_error_text_bytes_total limits"] fits small
    by (auto simp: wire_error_ok_def wire_error_utf8_def wire_error_text_def string_ok_def)
  then have ok: "frame_ok ?f" by (simp add: frame_ok_def)
  have "encoded_len ?f \<le> max_frame_bytes limits"
    using fits limits_ok_frame(1) [OF lim(1)]
    by (simp add: encoded_len_def HEADER_LEN_def wire_error_encoded_len_def wire_error_text_def)
  moreover have "validate_frame ?f limits = Inr ()"
    using fits assms(3,4) unfolding validate_frame_def ipc_frame.simps kind_try_from_i32
    by (simp add: is_error_body_def wire_error_text_def not_less)
  ultimately have "decode_frame (encode_to_vec ?f) limits = Inr ?f" using ok by (simp add: decode_frame_iff)
  moreover have "err_code (err_from_wire ?w (max_error_text_bytes_total limits)) = err_code e"
    by (simp add: err_from_wire_def err_wire_def Let_def case_prod_unfold)
  ultimately show ?thesis by blast
qed

section \<open>Properties\<close>

text \<open>
  C7.  The iterative validator accepts exactly the payloads the generated decoders can read:
  the payload is within the frame limit, the root message is in the table, and the recursive
  reference definition finds every known field readable with the accessor of its type, oneof
  groups consistent, nesting within the depth limit and at most the allowed number of
  collection entries in all.
\<close>

theorem validate_message_correct:
  "validate_message bs root messages limits = Inr () \<longleftrightarrow>
     length bs \<le> max_frame_bytes limits \<and> root < length messages \<and>
     (\<exists>n. message_entries messages (max_schema_depth limits - 1) (messages ! root) bs = Some n \<and>
        n \<le> max_collection_entries_per_message limits)"
proof -
  have "validate_loop messages limits [cursor_new bs (messages ! root)] 0 = Inr () \<longleftrightarrow>
      admits messages limits (message_entries messages (max_schema_depth limits - 1) (messages ! root) bs) 0"
    unfolding validate_loop_spec [of 0 limits, simplified]
    by (simp add: message_entries_eq cursor_entries_def cursor_new_def)
  then show ?thesis by (auto simp: validate_message_def admits_def)
qed

text \<open>
  C36.  Every diagnostic reaches the peer: whatever the error and its texts, the error frame
  the runtime builds for it under a policy a host can configure is within the frame limit and passes the
  peer's envelope checks, and comes back with its code.
\<close>

theorem error_frame_deliverable:
  assumes "ipc_error_utf8 e" "configured limits" "gen \<noteq> 0" "ident \<noteq> 0"
  shows "\<exists>f. decode_frame (encode_to_vec \<lparr>version = IPC_VERSION, generation = gen, frame_id = ident,
        frame_kind = kind_i32 KError, method_id = 0, timeout_ms = 0,
        body = Some (ErrorBody (err_wire e (max_error_text_bytes_total limits)))\<rparr>) limits = Inr f \<and>
      (\<exists>w. body f = Some (ErrorBody w) \<and> err_code (err_from_wire w (max_error_text_bytes_total limits)) = err_code e)"
  using error_frame_decode [OF assms] by auto

theorem error_frame_deliverable_witness:
  "\<exists>f. decode_frame (encode_to_vec \<lparr>version = IPC_VERSION, generation = 1, frame_id = 7,
        frame_kind = kind_i32 KError, method_id = 0, timeout_ms = 0,
        body = Some (ErrorBody (err_wire (fail Overloaded) 2048))\<rparr>) default_limits = Inr f"
proof -
  have "ipc_error_utf8 (fail Overloaded)"
    by (simp add: ipc_error_utf8_def fail_def ipc_error_new_def utf8_valid_ascii)
  moreover have "max_error_text_bytes_total default_limits = 2048" by (simp add: default_limits_def)
  ultimately show ?thesis using error_frame_deliverable [OF _ configured.intros(1), of "fail Overloaded" 1 7] by auto
qed

end
