(* ===== verification/Ipc_Budget.thy ===== *)
theory Ipc_Budget
  imports Ipc_Limits "HOL-Library.Multiset"
begin

text \<open>
  The shared budgets of \<open>crates/webui-desktop/src/ipc/executor.rs\<close>: two atomic counters that any
  thread raises within a maximum and that the drop of a permit lowers.  The counters are 64-bit
  words; \<open>fetch_sub\<close> wraps around, so that it never does is a theorem.  Each atomic access is
  one step: a reservation raises the tasks and then the bytes, with other threads in between,
  and a drop lowers them one after the other.
\<close>

section \<open>Budgets and permits\<close>

record budget =
  b_tasks :: u64
  b_bytes :: u64
  b_max_tasks :: u64
  b_max_bytes :: u64

record permit =
  pm_tasks :: u64
  pm_bytes :: u64

definition budget_new :: "u64 \<Rightarrow> u64 \<Rightarrow> budget" where
  "budget_new max_tasks max_bytes = \<lparr>b_tasks = 0, b_bytes = 0, b_max_tasks = max_tasks, b_max_bytes = max_bytes\<rparr>"

definition checked_add :: "u64 \<Rightarrow> u64 \<Rightarrow> u64 option" where
  "checked_add a b = (if unat a + unat b < 2 ^ 64 then Some (a + b) else None)"

text \<open>The closure of \<open>try_update\<close>; \<open>None\<close> is the error \<open>Overloaded\<close>.\<close>

definition add_bounded :: "u64 \<Rightarrow> u64 \<Rightarrow> u64 \<Rightarrow> u64 option" where
  "add_bounded value amount limit = (case checked_add value amount of
     Some new \<Rightarrow> if new \<le> limit then Some new else None
   | None \<Rightarrow> None)"

text \<open>A whole reservation when no other thread comes in between.\<close>

definition budget_reserve :: "budget \<Rightarrow> u64 \<Rightarrow> u64 \<Rightarrow> (ipc_error, permit) result \<times> budget" where
  "budget_reserve b tasks bytes = (case add_bounded (b_tasks b) tasks (b_max_tasks b) of
     None \<Rightarrow> (Inl (fail Overloaded), b)
   | Some new_tasks \<Rightarrow>
       let b1 = b\<lparr>b_tasks := new_tasks\<rparr> in
       (case add_bounded (b_bytes b1) bytes (b_max_bytes b1) of
          None \<Rightarrow> (Inl (fail Overloaded), b1\<lparr>b_tasks := b_tasks b1 - tasks\<rparr>)
        | Some new_bytes \<Rightarrow> (Inr \<lparr>pm_tasks = tasks, pm_bytes = bytes\<rparr>, b1\<lparr>b_bytes := new_bytes\<rparr>)))"

definition permit_grow :: "permit \<Rightarrow> u64 \<Rightarrow> budget \<Rightarrow> (ipc_error, permit) result \<times> budget" where
  "permit_grow p bytes b = (case add_bounded (b_bytes b) bytes (b_max_bytes b) of
     None \<Rightarrow> (Inl (fail Overloaded), b)
   | Some new_bytes \<Rightarrow> (Inr (p\<lparr>pm_bytes := pm_bytes p + bytes\<rparr>), b\<lparr>b_bytes := new_bytes\<rparr>))"

definition permit_shrink :: "permit \<Rightarrow> u64 \<Rightarrow> budget \<Rightarrow> permit \<times> budget" where
  "permit_shrink p bytes b = (p\<lparr>pm_bytes := pm_bytes p - bytes\<rparr>, b\<lparr>b_bytes := b_bytes b - bytes\<rparr>)"

definition permit_drop :: "permit \<Rightarrow> budget \<Rightarrow> budget" where
  "permit_drop p b = b\<lparr>b_tasks := b_tasks b - pm_tasks p, b_bytes := b_bytes b - pm_bytes p\<rparr>"

section \<open>Threads\<close>

text \<open>
  All threads together: the budget, the permits that are alive, and the reservations that have
  raised the tasks and not yet the bytes.
\<close>

record budget_system =
  bs_budget :: budget
  bs_permits :: "permit multiset"
  bs_half :: "(u64 \<times> u64) multiset"

inductive budget_step :: "budget_system \<Rightarrow> budget_system \<Rightarrow> bool" where
  reserve_tasks: "add_bounded (b_tasks b) tasks (b_max_tasks b) = Some new \<Longrightarrow>
    budget_step \<lparr>bs_budget = b, bs_permits = ps, bs_half = hs\<rparr>
      \<lparr>bs_budget = b\<lparr>b_tasks := new\<rparr>, bs_permits = ps, bs_half = add_mset (tasks, bytes) hs\<rparr>"
| reserve_bytes: "add_bounded (b_bytes b) bytes (b_max_bytes b) = Some new \<Longrightarrow>
    budget_step \<lparr>bs_budget = b, bs_permits = ps, bs_half = add_mset (tasks, bytes) hs\<rparr>
      \<lparr>bs_budget = b\<lparr>b_bytes := new\<rparr>, bs_permits = add_mset \<lparr>pm_tasks = tasks, pm_bytes = bytes\<rparr> ps, bs_half = hs\<rparr>"
| reserve_fails: "add_bounded (b_bytes b) bytes (b_max_bytes b) = None \<Longrightarrow>
    budget_step \<lparr>bs_budget = b, bs_permits = ps, bs_half = add_mset (tasks, bytes) hs\<rparr>
      \<lparr>bs_budget = b\<lparr>b_tasks := b_tasks b - tasks\<rparr>, bs_permits = ps, bs_half = hs\<rparr>"
| grow: "permit_grow p bytes b = (Inr p', b') \<Longrightarrow>
    budget_step \<lparr>bs_budget = b, bs_permits = add_mset p ps, bs_half = hs\<rparr>
      \<lparr>bs_budget = b', bs_permits = add_mset p' ps, bs_half = hs\<rparr>"
| shrink: "permit_shrink p bytes b = (p', b') \<Longrightarrow> bytes \<le> pm_bytes p \<Longrightarrow>
    budget_step \<lparr>bs_budget = b, bs_permits = add_mset p ps, bs_half = hs\<rparr>
      \<lparr>bs_budget = b', bs_permits = add_mset p' ps, bs_half = hs\<rparr>"
| drop_tasks: "budget_step \<lparr>bs_budget = b, bs_permits = add_mset p ps, bs_half = hs\<rparr>
      \<lparr>bs_budget = b\<lparr>b_tasks := b_tasks b - pm_tasks p\<rparr>, bs_permits = add_mset (p\<lparr>pm_tasks := 0\<rparr>) ps, bs_half = hs\<rparr>"
| drop_bytes: "pm_tasks p = 0 \<Longrightarrow> budget_step \<lparr>bs_budget = b, bs_permits = add_mset p ps, bs_half = hs\<rparr>
      \<lparr>bs_budget = b\<lparr>b_bytes := b_bytes b - pm_bytes p\<rparr>, bs_permits = ps, bs_half = hs\<rparr>"

definition budget_system_new :: "u64 \<Rightarrow> u64 \<Rightarrow> budget_system" where
  "budget_system_new max_tasks max_bytes = \<lparr>bs_budget = budget_new max_tasks max_bytes, bs_permits = {#}, bs_half = {#}\<rparr>"

section \<open>The counters are exact\<close>

definition held_tasks :: "budget_system \<Rightarrow> nat" where
  "held_tasks s = (\<Sum>p \<in># bs_permits s. unat (pm_tasks p)) + (\<Sum>h \<in># bs_half s. unat (fst h))"

definition held_bytes :: "budget_system \<Rightarrow> nat" where
  "held_bytes s = (\<Sum>p \<in># bs_permits s. unat (pm_bytes p))"

definition budget_exact :: "budget_system \<Rightarrow> bool" where
  "budget_exact s \<longleftrightarrow>
     unat (b_tasks (bs_budget s)) = held_tasks s \<and> unat (b_bytes (bs_budget s)) = held_bytes s \<and>
     b_tasks (bs_budget s) \<le> b_max_tasks (bs_budget s) \<and> b_bytes (bs_budget s) \<le> b_max_bytes (bs_budget s)"

lemma unat_add_fits: "unat a + unat b < 2 ^ 64 \<Longrightarrow> unat (a + b :: u64) = unat a + unat b"
  by (simp add: unat_word_ariths)

lemma add_bounded_Some:
  "add_bounded v c m = Some new \<longleftrightarrow> unat v + unat c < 2 ^ 64 \<and> new = v + c \<and> unat new = unat v + unat c \<and> new \<le> m"
  by (auto simp: add_bounded_def checked_add_def unat_add_fits split: if_splits)

lemma unat_sub_fits: "unat b \<le> unat a \<Longrightarrow> unat (a - b :: u64) = unat a - unat b"
  by (simp add: unat_sub word_le_nat_alt)

lemma sub_below: "unat b \<le> unat a \<Longrightarrow> a \<le> m \<Longrightarrow> a - b \<le> (m :: u64)"
  by (simp add: word_le_nat_alt unat_sub_fits)

lemma budget_step_exact: "budget_step s s' \<Longrightarrow> budget_exact s \<Longrightarrow> budget_exact s'"
proof (induction rule: budget_step.induct)
  case (grow p bytes b p' b' ps hs)
  then have p': "p' = p\<lparr>pm_bytes := pm_bytes p + bytes\<rparr>" and b': "b' = b\<lparr>b_bytes := b_bytes b + bytes\<rparr>"
    and fits: "unat (b_bytes b) + unat bytes < 2 ^ 64" "unat (b_bytes b + bytes) = unat (b_bytes b) + unat bytes" "b_bytes b + bytes \<le> b_max_bytes b"
    by (auto simp: permit_grow_def add_bounded_Some split: option.splits)
  have "unat (pm_bytes p) \<le> unat (b_bytes b)" using grow.prems by (simp add: budget_exact_def held_bytes_def)
  with fits(1) have "unat (pm_bytes p + bytes) = unat (pm_bytes p) + unat bytes" by (intro unat_add_fits) linarith
  with grow.prems fits p' b' show ?case by (simp add: budget_exact_def held_bytes_def held_tasks_def)
next
  case (shrink p bytes b p' b' ps hs)
  then have p': "p' = p\<lparr>pm_bytes := pm_bytes p - bytes\<rparr>" and b': "b' = b\<lparr>b_bytes := b_bytes b - bytes\<rparr>"
    and le: "unat bytes \<le> unat (pm_bytes p)" by (auto simp: permit_shrink_def word_le_nat_alt)
  have "unat (pm_bytes p) \<le> unat (b_bytes b)" using shrink.prems by (simp add: budget_exact_def held_bytes_def)
  with le shrink.prems p' b' show ?case
    by (simp add: budget_exact_def held_bytes_def held_tasks_def unat_sub_fits sub_below)
qed (auto simp: budget_exact_def held_tasks_def held_bytes_def add_bounded_Some unat_sub_fits sub_below)

lemma budget_new_exact: "budget_exact (budget_system_new max_tasks max_bytes)"
  by (simp add: budget_exact_def budget_system_new_def budget_new_def held_tasks_def held_bytes_def)

lemma budget_steps_exact: "budget_step\<^sup>*\<^sup>* s s' \<Longrightarrow> budget_exact s \<Longrightarrow> budget_exact s'"
  by (induction rule: rtranclp_induct) (auto intro: budget_step_exact)

lemma budget_step_limits: "budget_step s s' \<Longrightarrow>
   b_max_tasks (bs_budget s') = b_max_tasks (bs_budget s) \<and> b_max_bytes (bs_budget s') = b_max_bytes (bs_budget s)"
  by (induction rule: budget_step.induct) (auto simp: permit_grow_def permit_shrink_def split: option.splits)

lemma budget_steps_limits: "budget_step\<^sup>*\<^sup>* s s' \<Longrightarrow>
   b_max_tasks (bs_budget s') = b_max_tasks (bs_budget s) \<and> b_max_bytes (bs_budget s') = b_max_bytes (bs_budget s)"
  by (induction rule: rtranclp_induct) (auto dest: budget_step_limits)

text \<open>The sequential reservation is two steps of the system, or none.\<close>

lemma budget_reserve_steps:
  assumes "budget_reserve b tasks bytes = (r, b')"
  shows "budget_step\<^sup>*\<^sup>* \<lparr>bs_budget = b, bs_permits = ps, bs_half = hs\<rparr>
    \<lparr>bs_budget = b', bs_permits = (case r of Inr p \<Rightarrow> add_mset p ps | Inl _ \<Rightarrow> ps), bs_half = hs\<rparr>"
proof (cases "add_bounded (b_tasks b) tasks (b_max_tasks b)")
  case None
  with assms show ?thesis by (auto simp: budget_reserve_def)
next
  case (Some new)
  let ?b1 = "b\<lparr>b_tasks := new\<rparr>"
  have 1: "budget_step \<lparr>bs_budget = b, bs_permits = ps, bs_half = hs\<rparr>
      \<lparr>bs_budget = ?b1, bs_permits = ps, bs_half = add_mset (tasks, bytes) hs\<rparr>"
    by (rule reserve_tasks [OF Some])
  show ?thesis
  proof (cases "add_bounded (b_bytes ?b1) bytes (b_max_bytes ?b1)")
    case None
    from 1 budget_step.reserve_fails [OF None, of ps tasks hs] assms Some None show ?thesis
      by (auto simp: budget_reserve_def Let_def)
  next
    case (Some n)
    from 1 budget_step.reserve_bytes [OF Some, of ps tasks hs] assms Some \<open>add_bounded (b_tasks b) tasks (b_max_tasks b) = Some new\<close>
    show ?thesis by (auto simp: budget_reserve_def Let_def)
  qed
qed

text \<open>
  C30. Budgets are exact.  Whatever threads reserve, grow, shrink and drop permits, and however their
  atomic accesses interleave, the counters are the sums over the permits that are alive, within
  the maxima: no subtraction wraps, nothing leaks, and with the last permit they are back at zero.
\<close>

theorem budget_counters_exact:
  assumes "budget_step\<^sup>*\<^sup>* (budget_system_new max_tasks max_bytes) s"
  shows "unat (b_tasks (bs_budget s)) = (\<Sum>p \<in># bs_permits s. unat (pm_tasks p)) + (\<Sum>h \<in># bs_half s. unat (fst h)) \<and>
    unat (b_bytes (bs_budget s)) = (\<Sum>p \<in># bs_permits s. unat (pm_bytes p)) \<and>
    b_tasks (bs_budget s) \<le> max_tasks \<and> b_bytes (bs_budget s) \<le> max_bytes"
  using budget_steps_exact [OF assms budget_new_exact] budget_steps_limits [OF assms]
  by (simp add: budget_exact_def held_tasks_def held_bytes_def budget_system_new_def budget_new_def)

theorem budget_counters_exact_witness:
  "\<exists>s. budget_step\<^sup>*\<^sup>* (budget_system_new 4 100) s \<and> bs_permits s = {#\<lparr>pm_tasks = 1, pm_bytes = 64\<rparr>#} \<and>
     unat (b_tasks (bs_budget s)) = 1 \<and> unat (b_bytes (bs_budget s)) = 64"
proof -
  have r: "budget_reserve (budget_new 4 100) 1 64 =
      (Inr \<lparr>pm_tasks = 1, pm_bytes = 64\<rparr>, \<lparr>b_tasks = 1, b_bytes = 64, b_max_tasks = 4, b_max_bytes = 100\<rparr>)"
    by (simp add: budget_reserve_def budget_new_def add_bounded_def checked_add_def)
  define s where "s = \<lparr>bs_budget = \<lparr>b_tasks = 1, b_bytes = 64, b_max_tasks = 4, b_max_bytes = 100\<rparr>,
    bs_permits = {#\<lparr>pm_tasks = 1 :: u64, pm_bytes = 64\<rparr>#}, bs_half = {#}\<rparr>"
  have steps: "budget_step\<^sup>*\<^sup>* (budget_system_new 4 100) s"
    using budget_reserve_steps [OF r, of "{#}" "{#}"] by (simp add: budget_system_new_def s_def)
  from budget_counters_exact [OF steps] steps show ?thesis by (intro exI [of _ s]) (simp add: s_def)
qed

end
