(* ===== verification/Ipc_Engine.thy ===== *)
theory Ipc_Engine
  imports Ipc_Validation Ipc_Budget "HOL-Library.AList"
begin

text \<open>
  The IPC engine of the desktop shell (\<open>crates/webui-desktop/src/ipc\<close>): the registry of methods, the
  state behind the engine's mutex, and every region of code that runs under it, as functions on
  that state (\<open>engine.rs\<close>, \<open>bridge.rs\<close>, \<open>session.rs\<close>, \<open>admission.rs\<close>, \<open>registry.rs\<close>, \<open>credentials.rs\<close>).
  \<open>Ipc_System\<close> interleaves them.

  The answers of shared budgets come in as arguments (\<open>grant\<close>; \<open>Ipc_Budget\<close> has the budgets
  themselves), and so does the clock (\<open>now\<close>).  The \<open>usize\<close> counters of a document are integers
  here, so that an underflow would show as a negative number.  Cancellation tokens, abort
  handles, the timer's queue and the statistics counters are not part of the model; a timeout
  may fire at any time.
\<close>

section \<open>Registry\<close>

datatype method_kind = Rpc | Notification

record method_descriptor =
  md_id :: u32
  md_name :: string
  md_receiver :: endpoint
  md_kind :: method_kind
  md_development_only :: bool
  md_validate_request :: "bytes \<Rightarrow> ipc_limits \<Rightarrow> (ipc_error, unit) result"
  md_validate_response :: "(bytes \<Rightarrow> ipc_limits \<Rightarrow> (ipc_error, unit) result) option"

record ipc_schema =
  sc_name :: string
  sc_major :: u32
  sc_hash :: string
  sc_methods :: "method_descriptor list"

record ipc_registry =
  rg_schema :: "ipc_schema option"
  rg_handlers :: "u32 list"
  rg_notifications :: "u32 list"

definition registry_new :: "ipc_schema \<Rightarrow> ipc_registry" where
  "registry_new schema = \<lparr>rg_schema = Some schema, rg_handlers = [], rg_notifications = []\<rparr>"

definition is_enabled :: "ipc_registry \<Rightarrow> bool" where
  "is_enabled r \<longleftrightarrow> rg_schema r \<noteq> None"

definition schema_method :: "ipc_registry \<Rightarrow> u32 \<Rightarrow> method_descriptor option" where
  "schema_method r i = Option.bind (rg_schema r) (\<lambda>s. find (\<lambda>m. md_id m = i) (sc_methods s))"

fun registration_loop :: "ipc_registry \<Rightarrow> u32 list \<Rightarrow> u32 list \<Rightarrow> (ipc_error, unit) result" where
  "registration_loop r before [] = Inr ()"
| "registration_loop r before (i # ids) = (case schema_method r i of
     None \<Rightarrow> Inl (fail UnknownMethod)
   | Some m \<Rightarrow>
       if md_receiver m \<noteq> Host then Inl (fail InvalidFrame)
       else if i \<in> set (rg_handlers r) \<or> i \<in> set (rg_notifications r) \<or> i \<in> set before then Inl (fail InvalidPayload)
       else registration_loop r (before @ [i]) ids)"

definition validate_registration :: "ipc_registry \<Rightarrow> u32 list \<Rightarrow> (ipc_error, unit) result" where
  "validate_registration r ids = registration_loop r [] ids"

definition registry_method :: "ipc_registry \<Rightarrow> u32 \<Rightarrow> endpoint \<Rightarrow> method_kind \<Rightarrow> (ipc_error, method_descriptor) result" where
  "registry_method r i receiver kind = (case schema_method r i of
     None \<Rightarrow> Inl (fail UnknownMethod)
   | Some m \<Rightarrow> if md_receiver m \<noteq> receiver \<or> md_kind m \<noteq> kind then Inl (fail InvalidFrame) else Inr m)"

definition register_notification :: "ipc_registry \<Rightarrow> u32 \<Rightarrow> (ipc_error, ipc_registry) result" where
  "register_notification r i = rbind (validate_registration r [i]) (\<lambda>_.
     rbind (registry_method r i Host Notification) (\<lambda>_. Inr (r\<lparr>rg_notifications := rg_notifications r @ [i]\<rparr>)))"

definition register :: "ipc_registry \<Rightarrow> u32 \<Rightarrow> (ipc_error, ipc_registry) result" where
  "register r i = rbind (validate_registration r [i]) (\<lambda>_.
     rbind (registry_method r i Host Rpc) (\<lambda>_. Inr (r\<lparr>rg_handlers := rg_handlers r @ [i]\<rparr>)))"

fun methods_loop :: "u32 list \<Rightarrow> method_descriptor list \<Rightarrow> (ipc_error, unit) result" where
  "methods_loop before [] = Inr ()"
| "methods_loop before (m # ms) =
     (if md_id m \<le> 1023 \<or> md_id m \<in> set before \<or> ((md_kind m = Rpc) \<noteq> (md_validate_response m \<noteq> None))
      then Inl (fail SchemaMismatch) else methods_loop (before @ [md_id m]) ms)"

definition lower_hex_digit :: "char \<Rightarrow> bool" where
  "lower_hex_digit c \<longleftrightarrow> ascii_digit (of_char c) \<or> (of_char (CHR ''a'') \<le> (of_char c :: nat) \<and> (of_char c :: nat) \<le> of_char (CHR ''f''))"

definition registry_validate :: "ipc_registry \<Rightarrow> (ipc_error, unit) result" where
  "registry_validate r = (case rg_schema r of
     None \<Rightarrow> Inr ()
   | Some s \<Rightarrow>
       if sc_name s = [] \<or> length (sc_name s) > 256 \<or> sc_major s = 0 \<or> length (sc_hash s) \<noteq> 64 \<or> \<not> list_all lower_hex_digit (sc_hash s)
       then Inl (fail SchemaMismatch) else methods_loop [] (sc_methods s))"

section \<open>State\<close>

record pending_call =
  pc_sender :: bool
  pc_sent :: bool
  pc_kind :: method_kind
  pc_deadline :: nat

record incoming_call =
  ic_deadline :: nat

record queued =
  qd_bytes :: bytes
  qd_control :: bool

record subscription_slot =
  sl_method :: u32
  sl_active :: bool

record document_state =
  dc_navigation :: u64
  dc_generation :: u64
  dc_token :: string
  dc_next_id :: u64
  dc_last_peer_id :: u64
  dc_pending :: "(u64 \<times> pending_call) list"
  dc_incoming :: "(u64 \<times> incoming_call) list"
  dc_subscriptions :: "(u64 \<times> subscription_slot) list"
  dc_next_subscription :: u64
  dc_queue :: "queued list"
  dc_data_frames :: int
  dc_data_bytes :: int
  dc_control_slots :: int
  dc_ready :: bool
  dc_drain_inflight :: bool

definition document_new :: "u64 \<Rightarrow> u64 \<Rightarrow> string \<Rightarrow> document_state" where
  "document_new nav gen token = \<lparr>dc_navigation = nav, dc_generation = gen, dc_token = token, dc_next_id = 1, dc_last_peer_id = 0,
     dc_pending = [], dc_incoming = [], dc_subscriptions = [], dc_next_subscription = 1, dc_queue = [], dc_data_frames = 0,
     dc_data_bytes = 0, dc_control_slots = 0, dc_ready = False, dc_drain_inflight = False\<rparr>"

record document_activation =
  da_navigation :: u64
  da_nonce :: bytes
  da_challenge :: bytes

record committed_document =
  cm_navigation :: u64
  cm_origin :: string

datatype native_control = ControlReady u64 | ControlClosed u64 ipc_error_code

record engine_state =
  st_closed :: bool
  st_navigation :: u64
  st_admitted :: bool
  st_generation :: u64
  st_document :: "document_state option"
  st_waiters :: "nat list"
  st_waker :: bool
  st_wake_pending :: bool
  st_closed_control :: "native_control option"
  st_activation :: "(committed_document \<times> document_activation) option"
  st_activation_started :: bool

definition engine_new :: engine_state where
  "engine_new = \<lparr>st_closed = False, st_navigation = 0, st_admitted = False, st_generation = 0, st_document = None, st_waiters = [],
     st_waker = False, st_wake_pending = False, st_closed_control = None, st_activation = None, st_activation_started = False\<rparr>"

text \<open>What an engine never changes (\<open>IpcHost\<close>, \<open>Core\<close> and \<open>IpcWindowOwner::new\<close> of \<open>bridge.rs\<close>).  Whether the
  host is active (a local server may stop at any time) is an argument of the operations that ask.\<close>

datatype ipc_host = SourceHost string | PackagedHost string | LocalOwned string

fun is_source :: "ipc_host \<Rightarrow> bool" where
  "is_source (SourceHost _) \<longleftrightarrow> True"
| "is_source (LocalOwned _) \<longleftrightarrow> True"
| "is_source (PackagedHost _) \<longleftrightarrow> False"

fun host_origin :: "ipc_host \<Rightarrow> string" where
  "host_origin (SourceHost origin) = origin"
| "host_origin (PackagedHost origin) = origin"
| "host_origin (LocalOwned origin) = origin"

record engine_config =
  cf_registry :: ipc_registry
  cf_options :: ipc_options
  cf_host :: ipc_host

abbreviation limits_of :: "engine_config \<Rightarrow> ipc_limits" where
  "limits_of c \<equiv> opt_limits (cf_options c)"

abbreviation control_max :: "engine_config \<Rightarrow> nat" where
  "control_max c \<equiv> max_error_text_bytes_total (limits_of c) + 128"

definition window_owner_new :: "ipc_registry \<Rightarrow> ipc_options \<Rightarrow> ipc_host \<Rightarrow> bool \<Rightarrow> (ipc_error, engine_config \<times> engine_state) result" where
  "window_owner_new registry options host active =
     rbind (registry_validate registry) (\<lambda>_. rbind (options_validate options) (\<lambda>_.
       if length (rg_notifications registry) > max_callbacks_per_document (opt_limits options)
       then Inl (ipc_error_new InvalidPayload ''startup notification definitions exceed the document callback limit''
         ''raise max_callbacks_per_document within its SDK ceiling or register fewer startup receivers'')
       else if \<not> (case host of LocalOwned _ \<Rightarrow> active
           | _ \<Rightarrow> host_origin host \<in> {''webui://app'', ''https://app.webui.localhost''}) then Inl (fail PermissionDenied)
       else Inr (\<lparr>cf_registry = registry, cf_options = options, cf_host = host\<rparr>, engine_new)))"

section \<open>Regions of the engine\<close>

text \<open>\<open>credentials.rs\<close>.\<close>

unbundle bit_operations_syntax

definition constant_equal :: "bytes \<Rightarrow> bytes \<Rightarrow> bool" where
  "constant_equal a b =
     (if length a \<noteq> length b then False else fold (\<lambda>(x, y) difference. difference OR (x XOR y)) (zip a b) (0 :: u8) = 0)"

definition core_document :: "u64 \<Rightarrow> engine_state \<Rightarrow> (ipc_error, document_state) result" where
  "core_document gen s = (if st_closed s then Inl (fail Closed)
     else (case st_document s of
       Some d \<Rightarrow> if dc_generation d = gen then Inr d else Inl (fail Navigated)
     | None \<Rightarrow> Inl (fail Navigated)))"

text \<open>A region of code that runs under the lock on the live document of a generation: an error of
  \<open>Core::document\<close> ends it with the state unchanged, and otherwise the document is replaced by the
  one the region leaves, also when the region itself ends with an error.\<close>

definition with_document ::
  "u64 \<Rightarrow> (document_state \<Rightarrow> (ipc_error, 'r) result \<times> document_state) \<Rightarrow> engine_state \<Rightarrow> (ipc_error, 'r) result \<times> engine_state" where
  "with_document gen f s = (case core_document gen s of
     Inl e \<Rightarrow> (Inl e, s)
   | Inr d \<Rightarrow> (let (r, d') = f d in (r, s\<lparr>st_document := Some d'\<rparr>)))"

definition allowed :: "engine_config \<Rightarrow> u32 \<Rightarrow> endpoint \<Rightarrow> method_kind \<Rightarrow> (ipc_error, method_descriptor) result" where
  "allowed c i receiver kind = rbind (registry_method (cf_registry c) i receiver kind) (\<lambda>m.
     let granted = (case receiver of Host \<Rightarrow> allow_host (cf_options c) | Renderer \<Rightarrow> allow_renderer (cf_options c)) in
     if i \<notin> set granted \<or> (md_development_only m \<and> (\<not> development (cf_options c) \<or> \<not> is_source (cf_host c)))
     then Inl (fail PermissionDenied) else Inr m)"

definition reservation :: "engine_config \<Rightarrow> bool \<Rightarrow> document_state \<Rightarrow> (ipc_error, document_state) result" where
  "reservation c grant d =
     (if dc_control_slots d \<ge> int (reserved_control_frames_per_direction (limits_of c)) then Inl (fail Overloaded)
      else if \<not> grant then Inl (fail Overloaded)
      else Inr (d\<lparr>dc_control_slots := dc_control_slots d + 1\<rparr>))"

definition push_queue :: "queued \<Rightarrow> document_state \<Rightarrow> document_state" where
  "push_queue q d = d\<lparr>dc_ready := dc_ready d \<or> dc_queue d = [], dc_queue := dc_queue d @ [q]\<rparr>"

definition enqueue_data :: "engine_config \<Rightarrow> bool \<Rightarrow> ipc_frame \<Rightarrow> document_state \<Rightarrow> (ipc_error, document_state) result" where
  "enqueue_data c grant frame d =
     (let size = encoded_len frame; limits = limits_of c in
      if size > max_frame_bytes limits then Inl (fail PayloadTooLarge)
      else if dc_data_frames d \<ge> int (max_queued_frames_per_direction limits)
          \<or> int size > max 0 (int (max_queued_bytes_per_direction limits) - dc_data_bytes d) then Inl (fail Overloaded)
      else if \<not> grant then Inl (fail Overloaded)
      else Inr (push_queue \<lparr>qd_bytes = encode_to_vec frame, qd_control = False\<rparr>
        (d\<lparr>dc_data_frames := dc_data_frames d + 1, dc_data_bytes := dc_data_bytes d + int size\<rparr>)))"

definition envelope :: "u64 \<Rightarrow> u64 \<Rightarrow> kind \<Rightarrow> frame_body option \<Rightarrow> ipc_frame" where
  "envelope gen i k b = \<lparr>version = IPC_VERSION, generation = gen, frame_id = i, frame_kind = kind_i32 k, method_id = 0,
     timeout_ms = 0, body = b\<rparr>"

definition error_body :: "engine_config \<Rightarrow> ipc_error \<Rightarrow> frame_body option" where
  "error_body c e = Some (ErrorBody (err_wire e (max_error_text_bytes_total (limits_of c))))"

definition enqueue_control :: "engine_config \<Rightarrow> bool \<Rightarrow> u64 \<Rightarrow> kind \<Rightarrow> frame_body option \<Rightarrow> document_state \<Rightarrow> document_state" where
  "enqueue_control c grant i k b d =
     (let frame = envelope (dc_generation d) i k b; size = encoded_len frame;
          (sent, d') =
            (if size \<le> control_max c then (frame, d)
             else if int size \<le> max 0 (int (max_queued_bytes_per_direction (limits_of c)) - dc_data_bytes d)
                 \<and> size \<le> max_frame_bytes (limits_of c) \<and> grant
             then (frame, d\<lparr>dc_data_bytes := dc_data_bytes d + int size\<rparr>)
             else (envelope (dc_generation d) i KError (error_body c (fail PayloadTooLarge)), d)) in
      push_queue \<lparr>qd_bytes = encode_to_vec sent, qd_control = True\<rparr> d')"

text \<open>\<open>Core::signal\<close>: whether the waker is to be called, outside the lock.\<close>

definition engine_signal :: "engine_state \<Rightarrow> bool \<times> engine_state" where
  "engine_signal s =
     (if st_closed s \<or> st_wake_pending s \<or>
         (st_closed_control s = None \<and> \<not> (case st_document s of Some d \<Rightarrow> dc_ready d | None \<Rightarrow> False)) then (False, s)
      else if \<not> st_waker s then (False, s)
      else (True, s\<lparr>st_wake_pending := True\<rparr>))"

subsection \<open>Completion, cancellation and timeouts\<close>

text \<open>The regions return the deadline of the call they removed, for \<open>remove_timer\<close>, and \<open>None\<close> when there was no call.\<close>

definition complete_incoming ::
  "engine_config \<Rightarrow> bool \<Rightarrow> nat \<Rightarrow> u64 \<Rightarrow> (ipc_error, bytes) result \<Rightarrow> document_state \<Rightarrow> (ipc_error, nat option) result \<times> document_state" where
  "complete_incoming c grant now i result d = (case map_of (dc_incoming d) i of
     None \<Rightarrow> (Inr None, d)
   | Some p \<Rightarrow>
       let result' = (if now \<ge> ic_deadline p then Inl (fail DeadlineExceeded) else result);
           (k, b) = (case result' of Inr payload \<Rightarrow> (KResult, Some (Payload payload)) | Inl e \<Rightarrow> (KError, error_body c e)) in
       (Inr (Some (ic_deadline p)), enqueue_control c grant i k b (d\<lparr>dc_incoming := AList.delete i (dc_incoming d)\<rparr>)))"

definition cancel_local :: "engine_config \<Rightarrow> bool \<Rightarrow> u64 \<Rightarrow> document_state \<Rightarrow> (ipc_error, nat option) result \<times> document_state" where
  "cancel_local c grant i d = (case map_of (dc_pending d) i of
     None \<Rightarrow> (Inr None, d)
   | Some p \<Rightarrow>
       let d' = d\<lparr>dc_pending := AList.delete i (dc_pending d)\<rparr> in
       (Inr (Some (pc_deadline p)), if pc_sent p then enqueue_control c grant i KCancel None d'
         else d'\<lparr>dc_control_slots := dc_control_slots d' - 1\<rparr>))"

text \<open>\<open>Core::timeout\<close> for a call of the peer; that of a local call is \<open>cancel_local\<close>.\<close>

definition timeout_incoming :: "engine_config \<Rightarrow> bool \<Rightarrow> u64 \<Rightarrow> document_state \<Rightarrow> (ipc_error, nat option) result \<times> document_state" where
  "timeout_incoming c grant i d = (case map_of (dc_incoming d) i of
     None \<Rightarrow> (Inr None, d)
   | Some p \<Rightarrow> (Inr (Some (ic_deadline p)), enqueue_control c grant i KError (error_body c (fail DeadlineExceeded))
       (d\<lparr>dc_incoming := AList.delete i (dc_incoming d)\<rparr>)))"

subsection \<open>Retirement\<close>

datatype document_change = Navigate u64 | Disconnect u64 string

text \<open>\<open>retire_matching\<close>: \<open>Inr None\<close> is its early return with nothing to do, \<open>Inr (Some (document, waiters))\<close> what it goes
  on to release outside the lock.\<close>

definition retire_matching ::
  "ipc_error_code \<Rightarrow> bool \<Rightarrow> document_change option \<Rightarrow> engine_state \<Rightarrow>
     (ipc_error, (document_state option \<times> nat list) option) result \<times> engine_state" where
  "retire_matching code terminal change s =
     (if st_closed s then (case change of Some (Disconnect _ _) \<Rightarrow> Inl (fail Closed) | _ \<Rightarrow> Inr None, s)
      else
        let finish = (\<lambda>s. (Inr (Some (st_document s, if terminal then st_waiters s else [])),
              s\<lparr>st_closed := terminal, st_activation := None, st_document := None,
                st_closed_control := (case st_document s of Some d \<Rightarrow> Some (ControlClosed (dc_generation d) code) | None \<Rightarrow> st_closed_control s),
                st_wake_pending := False, st_waiters := (if terminal then [] else st_waiters s),
                st_waker := (st_waker s \<and> \<not> terminal)\<rparr>)) in
        (case change of
           Some (Navigate navigation) \<Rightarrow>
             if navigation \<le> st_navigation s then (Inr None, s)
             else finish (s\<lparr>st_navigation := navigation, st_admitted := False, st_activation_started := False\<rparr>)
         | Some (Disconnect gen token) \<Rightarrow> (case st_document s of
             None \<Rightarrow> (Inl (fail Closed), s)
           | Some d \<Rightarrow> if \<not> (constant_equal (str_bytes (dc_token d)) (str_bytes token) \<and> gen = dc_generation d)
               then (Inl (fail PermissionDenied), s) else finish s)
         | None \<Rightarrow> finish s))"

subsection \<open>Frames of the peer\<close>

text \<open>\<open>IpcBridge\<close> and its helpers (\<open>bridge.rs\<close>).\<close>

definition attach_waker :: "engine_state \<Rightarrow> (ipc_error, unit) result \<times> engine_state" where
  "attach_waker s = (if st_closed s then (Inl (fail Closed), s)
     else if st_waker s then (Inl (fail InvalidFrame), s)
     else (Inr (), s\<lparr>st_waker := True\<rparr>))"

definition take_control :: "engine_state \<Rightarrow> native_control option \<times> engine_state" where
  "take_control s =
     (if st_closed s then (None, s)
      else let s' = s\<lparr>st_wake_pending := False\<rparr> in
        case st_closed_control s' of
          Some control \<Rightarrow> (Some control, s'\<lparr>st_closed_control := None\<rparr>)
        | None \<Rightarrow> (case st_document s' of
            Some d \<Rightarrow> if dc_ready d then (Some (ControlReady (dc_generation d)), s'\<lparr>st_document := Some (d\<lparr>dc_ready := False\<rparr>)\<rparr>)
              else (None, s')
          | None \<Rightarrow> (None, s')))"

text \<open>\<open>DesktopHttpMethod\<close> (\<open>protocol.rs\<close>).\<close>

datatype http_method = HttpGet | HttpPost | HttpOther string

definition http_method_parse :: "string \<Rightarrow> http_method" where
  "http_method_parse method =
     (if method = ''GET'' \<or> method = ''get'' then HttpGet
      else if method = ''POST'' \<or> method = ''post'' then HttpPost
      else HttpOther method)"

record http_request =
  hr_navigation :: u64
  hr_method :: http_method
  hr_path :: string
  hr_token :: string
  hr_body :: bytes
  hr_permit_ours :: bool
  hr_permit_bytes :: nat
  hr_capacity :: nat

definition authenticate :: "engine_config \<Rightarrow> bool \<Rightarrow> http_request \<Rightarrow> engine_state \<Rightarrow> (ipc_error, u64) result" where
  "authenticate c active req s =
     (if \<not> active then Inl (fail Closed)
      else if length (hr_body req) > max_frame_bytes (limits_of c) then Inl (fail PayloadTooLarge)
      else if \<not> hr_permit_ours req \<or> hr_permit_bytes req < hr_capacity req then Inl (fail InvalidFrame)
      else if length (hr_path req) > 64 \<or> length (hr_token req) \<noteq> 32 then Inl (fail InvalidFrame)
      else if st_closed s then Inl (fail Closed)
      else (case st_document s of
        None \<Rightarrow> Inl (fail NotReady)
      | Some d \<Rightarrow>
          if dc_navigation d \<noteq> hr_navigation req \<or> \<not> constant_equal (str_bytes (dc_token d)) (str_bytes (hr_token req))
          then Inl (fail PermissionDenied) else Inr (dc_generation d)))"

text \<open>
  What \<open>submit\<close> does once the request is authenticated.  The reservations it asks for are grants: of
  the shared budget for the copy of a posted body, of the control budget when that is refused to a
  small body, and, for requests and notifications, of the input permit's own data budgets and of the
  shared budget again after an emergency copy.
\<close>

record copy_grants =
  cg_copy :: bool
  cg_emergency :: bool
  cg_input :: bool
  cg_recopy :: bool

datatype submission = Drain u64 | Dispatch ipc_frame

definition submit :: "engine_config \<Rightarrow> bool \<Rightarrow> copy_grants \<Rightarrow> http_request \<Rightarrow> engine_state \<Rightarrow> (ipc_error, submission) result" where
  "submit c active g req s = rbind (authenticate c active req s) (\<lambda>gen. case hr_method req of
     HttpGet \<Rightarrow>
       if hr_path req = ''/_webui/ipc/outbound'' \<and> hr_body req = [] then Inr (Drain gen) else Inl (fail InvalidFrame)
   | HttpPost \<Rightarrow>
       if hr_path req \<noteq> ''/_webui/ipc'' then Inl (fail InvalidFrame)
       else if \<not> cg_copy g \<and> \<not> (length (hr_body req) \<le> control_max c \<and> cg_emergency g) then Inl (fail Overloaded)
       else rbind (decode_frame (hr_body req) (limits_of c)) (\<lambda>frame.
         if generation frame \<noteq> gen then Inl (fail Navigated)
         else if kind_try_from (frame_kind frame) \<in> {Some KRequest, Some KNotify} \<and> \<not> (cg_input g \<and> (cg_copy g \<or> cg_recopy g))
         then Inl (fail Overloaded)
         else Inr (Dispatch frame))
   | HttpOther _ \<Rightarrow> Inl (fail InvalidFrame))"

text \<open>The check the future of \<open>IpcBridge::submit\<close> makes before it hands the response out.\<close>

definition response_released :: "u64 \<Rightarrow> engine_state \<Rightarrow> (ipc_error, unit) result" where
  "response_released nav s = (if st_closed s then Inl (fail Closed)
     else if st_navigation s \<noteq> nav then Inl (fail Navigated)
     else if st_document s = None then Inl (fail Closed) else Inr ())"

fun http_status :: "ipc_error_code \<Rightarrow> nat" where
  "http_status code =
     (if code = PermissionDenied then 401
      else if code \<in> {Navigated, NotReady, SchemaMismatch} then 409
      else if code = PayloadTooLarge then 413
      else if code = Overloaded then 429
      else if code \<in> {Closed, Transport} then 503 else 400)"

definition drain :: "engine_config \<Rightarrow> document_state \<Rightarrow> (ipc_error, bytes option) result \<times> document_state" where
  "drain c d =
     (if dc_drain_inflight d then (Inl (fail Overloaded), d)
      else let d = d\<lparr>dc_drain_inflight := True\<rparr> in
        case dc_queue d of
          [] \<Rightarrow> (Inr None, d)
        | q # rest \<Rightarrow>
            let d = d\<lparr>dc_queue := rest\<rparr> in
            (Inr (Some (qd_bytes q)),
             if qd_control q then
               d\<lparr>dc_control_slots := dc_control_slots d - 1,
                 dc_data_bytes := (if length (qd_bytes q) > control_max c then dc_data_bytes d - int (length (qd_bytes q)) else dc_data_bytes d)\<rparr>
             else d\<lparr>dc_data_frames := dc_data_frames d - 1, dc_data_bytes := dc_data_bytes d - int (length (qd_bytes q))\<rparr>))"

definition drain_guard_drop :: "document_state \<Rightarrow> (ipc_error, unit) result \<times> document_state" where
  "drain_guard_drop d = (Inr (), d\<lparr>dc_drain_inflight := False\<rparr>)"

definition dispatch_cancel :: "u64 \<Rightarrow> document_state \<Rightarrow> (ipc_error, nat option) result \<times> document_state" where
  "dispatch_cancel i d = (case map_of (dc_incoming d) i of
     None \<Rightarrow> (Inr None, d)
   | Some p \<Rightarrow> (Inr (Some (ic_deadline p)),
       d\<lparr>dc_incoming := AList.delete i (dc_incoming d), dc_control_slots := dc_control_slots d - 1\<rparr>))"

text \<open>\<open>reply\<close>: the result is what the waiting task receives, \<open>None\<close> for a stale reply.\<close>

definition reply ::
  "engine_config \<Rightarrow> ipc_frame \<Rightarrow> document_state \<Rightarrow> (ipc_error, (ipc_error, bytes) result option) result \<times> document_state" where
  "reply c frame d = (case map_of (dc_pending d) (frame_id frame) of
     None \<Rightarrow> (Inr None, d)
   | Some p \<Rightarrow>
       if \<not> pc_sent p \<or> (frame_kind frame = kind_i32 KAccept \<and> pc_kind p \<noteq> Notification)
           \<or> (frame_kind frame = kind_i32 KResult \<and> pc_kind p \<noteq> Rpc) then (Inl (fail InvalidFrame), d)
       else
         let result = (case body frame of
               Some (Payload bytes) \<Rightarrow> Inr bytes
             | Some (ErrorBody e) \<Rightarrow> Inl (err_from_wire e (max_error_text_bytes_total (limits_of c)))
             | None \<Rightarrow> Inr []) in
         (Inr (if pc_sender p then Some result else None),
          d\<lparr>dc_pending := AList.update (frame_id frame) (p\<lparr>pc_sender := False\<rparr>) (dc_pending d)\<rparr>))"

text \<open>The region of \<open>invoke\<close>: \<open>Inr True\<close> goes on with \<open>request\<close> or \<open>notify\<close>, \<open>Inr False\<close> has queued the refusal.\<close>

definition invoke :: "engine_config \<Rightarrow> bool \<Rightarrow> bool \<Rightarrow> ipc_frame \<Rightarrow> document_state \<Rightarrow> (ipc_error, bool) result \<times> document_state" where
  "invoke c grant memory frame d =
     (let kind = (if frame_kind frame = kind_i32 KRequest then Rpc else Notification) in
      if frame_id frame \<le> dc_last_peer_id d then (Inl (fail InvalidFrame), d)
      else let d = d\<lparr>dc_last_peer_id := frame_id frame\<rparr> in
        case allowed c (method_id frame) Host kind of
          Inr _ \<Rightarrow> (Inr True, d)
        | Inl e \<Rightarrow> (case reservation c grant d of
            Inl e' \<Rightarrow> (Inl e', d)
          | Inr d' \<Rightarrow> (Inr False, enqueue_control c memory (frame_id frame) KError (error_body c e) d')))"

text \<open>The region of \<open>request\<close>, with the deadline computed before it.\<close>

definition request :: "engine_config \<Rightarrow> bool \<Rightarrow> nat \<Rightarrow> ipc_frame \<Rightarrow> document_state \<Rightarrow> (ipc_error, unit) result \<times> document_state" where
  "request c grant deadline frame d =
     (if length (dc_incoming d) \<ge> max_pending_calls_per_direction (limits_of c) then (Inl (fail Overloaded), d)
      else case reservation c grant d of
        Inl e \<Rightarrow> (Inl e, d)
      | Inr d' \<Rightarrow> (Inr (), d'\<lparr>dc_incoming := AList.update (frame_id frame) \<lparr>ic_deadline = deadline\<rparr> (dc_incoming d')\<rparr>))"

text \<open>The region of \<open>notify\<close>: the subscriptions the notification is delivered to.  The grants are those of the frame's task
  budget, of the document's callback and notification budgets, and of the control budget, in this order.\<close>

definition receivers :: "u32 \<Rightarrow> document_state \<Rightarrow> u64 list" where
  "receivers m d = map fst (filter (\<lambda>(_, slot). sl_method slot = m \<and> sl_active slot) (dc_subscriptions d))"

definition notify ::
  "engine_config \<Rightarrow> bool \<Rightarrow> bool \<Rightarrow> bool \<Rightarrow> bool \<Rightarrow> ipc_frame \<Rightarrow> document_state \<Rightarrow> (ipc_error, u64 list) result \<times> document_state" where
  "notify c tasks callbacks notifications grant frame d =
     (let slots = receivers (method_id frame) d in
      if encoded_len frame * length slots \<ge> 2 ^ 64 then (Inl (fail Overloaded), d)
      else if \<not> tasks then (Inl (fail Overloaded), d)
      else if \<not> callbacks then (Inl (fail Overloaded), d)
      else if \<not> notifications then (Inl (fail Overloaded), d)
      else case reservation c grant d of
        Inl e \<Rightarrow> (Inl e, d)
      | Inr d' \<Rightarrow> (Inr slots, d'))"

text \<open>The region of the task that \<open>notify\<close> spawns.\<close>

definition notify_accept ::
  "engine_config \<Rightarrow> bool \<Rightarrow> u64 \<Rightarrow> (ipc_error, unit) result \<Rightarrow> document_state \<Rightarrow> (ipc_error, unit) result \<times> document_state" where
  "notify_accept c memory i validation d = (Inr (), (case validation of
     Inr _ \<Rightarrow> enqueue_control c memory i KAccept None d
   | Inl e \<Rightarrow> enqueue_control c memory i KError (error_body c e) d))"

subsection \<open>Calls of the host\<close>

text \<open>\<open>IpcSession\<close> (\<open>session.rs\<close>).  The region of \<open>prepare\<close> returns \<open>Inr None\<close> when the identifiers are used up, in
  which case the document is retired.  Instants are in nanoseconds.\<close>

definition prepare ::
  "engine_config \<Rightarrow> bool \<Rightarrow> method_kind \<Rightarrow> nat \<Rightarrow> document_state \<Rightarrow> (ipc_error, u64 option) result \<times> document_state" where
  "prepare c grant kind deadline d =
     (let n = length (filter (\<lambda>(_, p). pc_kind p = kind) (dc_pending d));
          cap = (case kind of Rpc \<Rightarrow> max_pending_calls_per_direction (limits_of c)
                 | Notification \<Rightarrow> max_outstanding_notifications_per_direction (limits_of c)) in
      if dc_next_id d = - 1 then (Inr None, d)
      else if n \<ge> cap then (Inl (fail Overloaded), d)
      else case reservation c grant d of
        Inl e \<Rightarrow> (Inl e, d)
      | Inr d' \<Rightarrow> (Inr (Some (dc_next_id d)),
          d'\<lparr>dc_next_id := dc_next_id d + 1,
             dc_pending := AList.update (dc_next_id d)
               \<lparr>pc_sender = True, pc_sent = False, pc_kind = kind, pc_deadline = deadline\<rparr> (dc_pending d')\<rparr>))"

text \<open>The checks of \<open>prepare\<close> before the lock: the deadline it arms.\<close>

definition prepare_deadline :: "engine_config \<Rightarrow> u32 \<Rightarrow> method_kind \<Rightarrow> nat \<Rightarrow> nat \<Rightarrow> (ipc_error, nat) result" where
  "prepare_deadline c method kind timeout started = rbind (allowed c method Renderer kind) (\<lambda>_.
     if timeout = 0 \<or> timeout > max_timeout_ms (limits_of c) * 1000000 then Inl (fail InvalidPayload)
     else Inr (started + timeout))"

definition send_request ::
  "engine_config \<Rightarrow> bool \<Rightarrow> nat \<Rightarrow> u64 \<Rightarrow> u32 \<Rightarrow> method_kind \<Rightarrow> bytes \<Rightarrow> document_state \<Rightarrow> (ipc_error, unit) result \<times> document_state" where
  "send_request c grant now i method kind payload d = (case map_of (dc_pending d) i of
     None \<Rightarrow> (Inl (fail Cancelled), d)
   | Some p \<Rightarrow>
       if now > pc_deadline p then (Inl (fail DeadlineExceeded), d)
       else let remaining = max 1 ((pc_deadline p - now) div 1000000) in
         if kind = Rpc \<and> remaining \<ge> 2 ^ 32 then (Inl (fail InvalidPayload), d)
         else
           let frame = (envelope (dc_generation d) i (if kind = Rpc then KRequest else KNotify) (Some (Payload payload)))
                 \<lparr>method_id := method, timeout_ms := (if kind = Rpc then of_nat remaining else 0)\<rparr> in
           case enqueue_data c grant frame d of
             Inl e \<Rightarrow> (Inl e, d)
           | Inr d' \<Rightarrow> (Inr (), d'\<lparr>dc_pending := AList.update i (p\<lparr>pc_sent := True\<rparr>) (dc_pending d')\<rparr>))"

text \<open>The checks of \<open>send_request\<close> before the lock.\<close>

definition send_checks :: "engine_config \<Rightarrow> u32 \<Rightarrow> method_kind \<Rightarrow> bytes \<Rightarrow> (ipc_error, unit) result" where
  "send_checks c method kind payload =
     (if length payload > max_frame_bytes (limits_of c) - 64 then Inl (fail PayloadTooLarge)
      else rbind (allowed c method Renderer kind) (\<lambda>m. md_validate_request m payload (limits_of c)))"

definition finish_local :: "u64 \<Rightarrow> document_state \<Rightarrow> (ipc_error, nat option) result \<times> document_state" where
  "finish_local i d = (case map_of (dc_pending d) i of
     None \<Rightarrow> (Inr None, d)
   | Some p \<Rightarrow> (Inr (Some (pc_deadline p)),
       d\<lparr>dc_pending := AList.delete i (dc_pending d), dc_control_slots := dc_control_slots d - 1\<rparr>))"

definition subscribe :: "engine_config \<Rightarrow> u32 \<Rightarrow> document_state \<Rightarrow> (ipc_error, u64) result \<times> document_state" where
  "subscribe c m d =
     (if length (dc_subscriptions d) \<ge> max_callbacks_per_document (limits_of c)
         \<or> length (filter (\<lambda>(_, slot). sl_method slot = m) (dc_subscriptions d)) \<ge> max_callbacks_per_event (limits_of c)
      then (Inl (fail Overloaded), d)
      else if dc_next_subscription d = - 1 then (Inl (fail Overloaded), d)
      else (Inr (dc_next_subscription d),
        d\<lparr>dc_next_subscription := dc_next_subscription d + 1,
          dc_subscriptions := AList.update (dc_next_subscription d) \<lparr>sl_method = m, sl_active = True\<rparr> (dc_subscriptions d)\<rparr>))"

text \<open>\<open>IpcSubscription::close\<close> first closes the slot, which the document still lists, and then removes it.\<close>

definition slot_close :: "u64 \<Rightarrow> document_state \<Rightarrow> (ipc_error, unit) result \<times> document_state" where
  "slot_close i d = (Inr (), d\<lparr>dc_subscriptions := AList.map_entry i (\<lambda>slot. slot\<lparr>sl_active := False\<rparr>) (dc_subscriptions d)\<rparr>)"

definition subscription_remove :: "u64 \<Rightarrow> document_state \<Rightarrow> (ipc_error, unit) result \<times> document_state" where
  "subscription_remove i d = (Inr (), d\<lparr>dc_subscriptions := AList.delete i (dc_subscriptions d)\<rparr>)"

definition current_session :: "engine_state \<Rightarrow> (ipc_error, u64) result" where
  "current_session s = (if st_closed s then Inl (fail Closed)
     else (case st_document s of None \<Rightarrow> Inl (fail NotReady) | Some d \<Rightarrow> Inr (dc_generation d)))"

definition session_is_closed :: "u64 \<Rightarrow> engine_state \<Rightarrow> bool" where
  "session_is_closed gen s \<longleftrightarrow> st_closed s \<or> \<not> (case st_document s of Some d \<Rightarrow> dc_generation d = gen | None \<Rightarrow> False)"

text \<open>\<open>IpcWindow::ready\<close>: the session there is, or a waiter (here the number \<open>w\<close>) for the next one.\<close>

definition ready :: "engine_config \<Rightarrow> (nat \<Rightarrow> bool) \<Rightarrow> nat \<Rightarrow> engine_state \<Rightarrow> (ipc_error, u64 option) result \<times> engine_state" where
  "ready c cancelled w s =
     (if st_closed s then (Inl (fail Closed), s)
      else if \<not> is_enabled (cf_registry c) then (Inl (fail NotReady), s)
      else case st_document s of
        Some d \<Rightarrow> (Inr (Some (dc_generation d)), s)
      | None \<Rightarrow>
          let s = s\<lparr>st_waiters := filter (\<lambda>x. \<not> cancelled x) (st_waiters s)\<rparr> in
          if length (st_waiters s) \<ge> max_readiness_waiters (limits_of c) then (Inl (fail Overloaded), s)
          else (Inr None, s\<lparr>st_waiters := st_waiters s @ [w]\<rparr>))"

subsection \<open>Admission\<close>

text \<open>\<open>admission.rs\<close>; the random bytes are arguments.\<close>

definition hex :: "bytes \<Rightarrow> string" where
  "hex value = concat (map (\<lambda>b. [''0123456789abcdef'' ! unat (drop_bit 4 b), ''0123456789abcdef'' ! unat (b AND 15)]) value)"

definition check_identity :: "engine_config \<Rightarrow> bool \<Rightarrow> committed_document \<Rightarrow> (ipc_error, unit) result" where
  "check_identity c active doc =
     (if \<not> active \<or> cm_navigation doc = 0 \<or> length (cm_origin doc) > 256 \<or> cm_origin doc \<noteq> host_origin (cf_host c)
      then Inl (fail PermissionDenied) else Inr ())"

definition begin_document ::
  "engine_config \<Rightarrow> bool \<Rightarrow> bytes \<Rightarrow> committed_document \<Rightarrow> bytes \<Rightarrow> engine_state \<Rightarrow> (ipc_error, document_activation) result \<times> engine_state" where
  "begin_document c active challenge doc nonce s = (case check_identity c active doc of
     Inl e \<Rightarrow> (Inl e, s)
   | Inr _ \<Rightarrow>
       if \<not> is_enabled (cf_registry c) then (Inl (fail NotReady), s)
       else if st_closed s then (Inl (fail Closed), s)
       else if cm_navigation doc \<noteq> st_navigation s then (Inl (fail Navigated), s)
       else if st_activation_started s \<or> st_admitted s then (Inl (fail NotReady), s)
       else let proof = \<lparr>da_navigation = cm_navigation doc, da_nonce = nonce, da_challenge = challenge\<rparr> in
         (Inr proof, s\<lparr>st_activation := Some (doc, proof), st_activation_started := True\<rparr>))"

record hello =
  hl_wire_version :: u32
  hl_contract_name :: string
  hl_contract_major :: u32
  hl_schema_hash :: string

definition check_activation :: "engine_config \<Rightarrow> bool \<Rightarrow> document_activation \<Rightarrow> engine_state \<Rightarrow> (ipc_error, unit) result" where
  "check_activation c active given s =
     (if st_closed s then Inl (fail Closed)
      else if st_admitted s then Inl (fail NotReady)
      else case st_activation s of
        None \<Rightarrow> Inl (fail NotReady)
      | Some (doc, proof) \<Rightarrow> rbind (check_identity c active doc) (\<lambda>_.
          if st_navigation s \<noteq> cm_navigation doc then Inl (fail Navigated)
          else if \<not> (constant_equal (da_nonce proof) (da_nonce given) \<and> constant_equal (da_challenge proof) (da_challenge given)
              \<and> cm_navigation doc = da_navigation given) then Inl (fail PermissionDenied)
          else Inr ()))"

definition check_admission :: "engine_config \<Rightarrow> bool \<Rightarrow> hello \<Rightarrow> document_activation \<Rightarrow> engine_state \<Rightarrow> (ipc_error, unit) result" where
  "check_admission c active h given s = (case rg_schema (cf_registry c) of
     None \<Rightarrow> Inl (fail NotReady)
   | Some schema \<Rightarrow>
       if hl_wire_version h \<noteq> IPC_VERSION then Inl (fail UnsupportedVersion)
       else if length (hl_contract_name h) > 256 \<or> length (hl_schema_hash h) \<noteq> 64 \<or> hl_contract_name h \<noteq> sc_name schema
           \<or> hl_contract_major h \<noteq> sc_major schema \<or> hl_schema_hash h \<noteq> sc_hash schema then Inl (fail SchemaMismatch)
       else check_activation c active given s)"

definition startup_subscription :: "document_state \<Rightarrow> u32 \<Rightarrow> document_state" where
  "startup_subscription d m = d\<lparr>dc_next_subscription := dc_next_subscription d + 1,
     dc_subscriptions := AList.update (dc_next_subscription d) \<lparr>sl_method = m, sl_active = True\<rparr> (dc_subscriptions d)\<rparr>"

text \<open>The region of \<open>admit\<close>, after its own call of \<open>check_admission\<close>: the generation of the new document and the
  waiters to be told.\<close>

definition admit ::
  "engine_config \<Rightarrow> bool \<Rightarrow> document_activation \<Rightarrow> bytes \<Rightarrow> nat \<Rightarrow> nat \<Rightarrow> engine_state \<Rightarrow> (ipc_error, u64 \<times> nat list) result \<times> engine_state" where
  "admit c active given random now deadline s = (case check_activation c active given s of
     Inl e \<Rightarrow> (Inl e, s)
   | Inr _ \<Rightarrow>
       if now \<ge> deadline then (Inl (fail DeadlineExceeded), s)
       else if st_generation s = - 1 then (Inl (fail Closed), s)
       else let gen = st_generation s + 1 in
         (Inr (gen, st_waiters s),
          s\<lparr>st_activation := None, st_admitted := True, st_generation := gen,
            st_document := Some (foldl startup_subscription (document_new (st_navigation s) gen (hex random))
              (rg_notifications (cf_registry c))),
            st_waiters := []\<rparr>))"

end
