(* ===== verification/Ipc_Document.thy ===== *)
theory Ipc_Document
  imports Ipc_Engine
begin

text \<open>
  What the regions of \<open>Ipc_Engine\<close> do to one document: the accounting of control slots, queued frames and
  queued bytes (\<open>doc_ok\<close>), which calls are open (\<open>open_calls\<close>), and whether queued frames are
  announced (\<open>announced\<close>).

  A reservation is a value that some owner holds: an open call, a queued control frame, or a task
  between the region that made it and the one that uses it up.  \<open>doc_ok c x d\<close> counts the \<open>x\<close> reservations
  held outside the document, so that the lemmas of the primitive updates (reserve, release, take a
  call out, put a call in, queue a frame) compose to those of the regions.
\<close>

section \<open>Accounting\<close>

text \<open>The bytes a queued frame takes of the data budget: a control frame that fits its reservation takes none.\<close>

definition counted :: "engine_config \<Rightarrow> queued \<Rightarrow> nat" where
  "counted c q = (if qd_control q \<and> length (qd_bytes q) \<le> control_max c then 0 else length (qd_bytes q))"

definition slots_ok :: "engine_config \<Rightarrow> nat \<Rightarrow> document_state \<Rightarrow> bool" where
  "slots_ok c x d \<longleftrightarrow>
     dc_control_slots d = int (length (dc_pending d) + length (dc_incoming d) + length (filter qd_control (dc_queue d)) + x)
     \<and> dc_control_slots d \<le> int (reserved_control_frames_per_direction (limits_of c))"

definition data_ok :: "engine_config \<Rightarrow> document_state \<Rightarrow> bool" where
  "data_ok c d \<longleftrightarrow>
     dc_data_frames d = int (length (filter (\<lambda>q. \<not> qd_control q) (dc_queue d)))
     \<and> dc_data_frames d \<le> int (max_queued_frames_per_direction (limits_of c))
     \<and> dc_data_bytes d = int (sum_list (map (counted c) (dc_queue d)))
     \<and> dc_data_bytes d \<le> int (max_queued_bytes_per_direction (limits_of c))
     \<and> list_all (\<lambda>q. length (qd_bytes q) \<le> max_frame_bytes (limits_of c)) (dc_queue d)"

definition pending_of :: "method_kind \<Rightarrow> document_state \<Rightarrow> nat" where
  "pending_of kind d = length (filter (\<lambda>(_, p). pc_kind p = kind) (dc_pending d))"

definition calls_ok :: "engine_config \<Rightarrow> document_state \<Rightarrow> bool" where
  "calls_ok c d \<longleftrightarrow>
     distinct (map fst (dc_pending d)) \<and> distinct (map fst (dc_incoming d)) \<and> distinct (map fst (dc_subscriptions d))
     \<and> length (dc_incoming d) \<le> max_pending_calls_per_direction (limits_of c)
     \<and> pending_of Rpc d \<le> max_pending_calls_per_direction (limits_of c)
     \<and> pending_of Notification d \<le> max_outstanding_notifications_per_direction (limits_of c)
     \<and> length (dc_subscriptions d) \<le> max_callbacks_per_document (limits_of c)"

definition doc_ok :: "engine_config \<Rightarrow> nat \<Rightarrow> document_state \<Rightarrow> bool" where
  "doc_ok c x d \<longleftrightarrow> slots_ok c x d \<and> data_ok c d \<and> calls_ok c d"

lemmas doc_defs = doc_ok_def slots_ok_def data_ok_def calls_ok_def

subsection \<open>The frames that are queued\<close>

lemma envelope_simps [simp]: "body (envelope gen i k b) = b" "generation (envelope gen i k b) = gen" "frame_id (envelope gen i k b) = i"
  by (simp_all add: envelope_def)

lemma error_envelope_fits: "encoded_len (envelope gen i k (error_body c e)) \<le> control_max c"
proof -
  let ?w = "err_wire e (max_error_text_bytes_total (limits_of c))"
  have "wire_error_text ?w \<le> max (max_error_text_bytes_total (limits_of c)) 20"
    using err_wire_budget [of e "max_error_text_bytes_total (limits_of c)"] as_str_length [of "err_code e"] by linarith
  then have "wire_error_encoded_len ?w \<le> 16 + max (max_error_text_bytes_total (limits_of c)) 20"
    by (simp add: wire_error_encoded_len_def wire_error_text_def)
  then show ?thesis by (auto simp: encoded_len_def error_body_def HEADER_LEN_def max_def split: if_splits)
qed

lemma limits_ok_control_max: "limits_ok l \<Longrightarrow> max_error_text_bytes_total l + 128 \<le> max_frame_bytes l"
  by (auto simp: limits_ok_def above_ceiling_def)

text \<open>\<open>enqueue_control\<close> queues one control frame that is no longer than a frame may be, and charges exactly the bytes
  that \<open>drain\<close> gives back.\<close>

lemma enqueue_control_queues:
  assumes "limits_ok (limits_of c)"
    and "dc_data_bytes d \<le> int (max_queued_bytes_per_direction (limits_of c))"
  obtains q where "qd_control q" "length (qd_bytes q) \<le> max_frame_bytes (limits_of c)"
    "dc_data_bytes d + int (counted c q) \<le> int (max_queued_bytes_per_direction (limits_of c))"
    "enqueue_control c memory i k b d = push_queue q (d\<lparr>dc_data_bytes := dc_data_bytes d + int (counted c q)\<rparr>)"
proof -
  let ?f = "envelope (dc_generation d) i k b" and ?e = "envelope (dc_generation d) i KError (error_body c (fail PayloadTooLarge))"
  let ?q = "\<lambda>f. \<lparr>qd_bytes = encode_to_vec f, qd_control = True\<rparr>"
  have fits: "length (qd_bytes (?q f)) \<le> max_frame_bytes (limits_of c)" "counted c (?q f) = 0" if "encoded_len f \<le> control_max c" for f
    using that limits_ok_control_max [OF assms(1)] by (simp_all add: counted_def length_encode)
  have same: "d\<lparr>dc_data_bytes := dc_data_bytes d\<rparr> = d" by simp
  show thesis
  proof (cases "encoded_len ?f \<le> control_max c")
    case True
    then show thesis using that [of "?q ?f"] fits [OF True] assms(2) by (simp add: enqueue_control_def Let_def)
  next
    case long: False
    show thesis
    proof (cases "int (encoded_len ?f) \<le> max 0 (int (max_queued_bytes_per_direction (limits_of c)) - dc_data_bytes d)
        \<and> encoded_len ?f \<le> max_frame_bytes (limits_of c) \<and> memory")
      case True
      with long have "counted c (?q ?f) = encoded_len ?f" by (simp add: counted_def length_encode)
      then show thesis using that [of "?q ?f"] True long assms(2)
        by (auto simp: enqueue_control_def Let_def length_encode max_def split: if_splits)
    next
      case False
      then show thesis using that [of "?q ?e"] fits [OF error_envelope_fits [of "dc_generation d" i KError c "fail PayloadTooLarge"]] long assms(2)
        by (auto simp: enqueue_control_def Let_def)
    qed
  qed
qed

subsection \<open>Primitive updates\<close>

lemma push_queue_simps [simp]:
  "dc_queue (push_queue q d) = dc_queue d @ [q]" "dc_pending (push_queue q d) = dc_pending d" "dc_incoming (push_queue q d) = dc_incoming d"
  "dc_control_slots (push_queue q d) = dc_control_slots d" "dc_data_frames (push_queue q d) = dc_data_frames d"
  "dc_data_bytes (push_queue q d) = dc_data_bytes d" "dc_subscriptions (push_queue q d) = dc_subscriptions d"
  "dc_generation (push_queue q d) = dc_generation d" "dc_navigation (push_queue q d) = dc_navigation d"
  "dc_next_id (push_queue q d) = dc_next_id d" "dc_last_peer_id (push_queue q d) = dc_last_peer_id d"
  "dc_ready (push_queue q d) = (dc_ready d \<or> dc_queue d = [])"
  by (simp_all add: push_queue_def)

lemma pending_of_cong [simp]:
  "pending_of k (push_queue q d) = pending_of k d" "pending_of k (d\<lparr>dc_data_bytes := n\<rparr>) = pending_of k d"
  "pending_of k (d\<lparr>dc_control_slots := n\<rparr>) = pending_of k d" "pending_of k (d\<lparr>dc_incoming := inc\<rparr>) = pending_of k d"
  "pending_of k (d\<lparr>dc_data_frames := n\<rparr>) = pending_of k d"
  "pending_of k (d\<lparr>dc_queue := qs\<rparr>) = pending_of k d" "pending_of k (d\<lparr>dc_subscriptions := subs\<rparr>) = pending_of k d"
  "pending_of k (d\<lparr>dc_next_subscription := w\<rparr>) = pending_of k d" "pending_of k (d\<lparr>dc_last_peer_id := w\<rparr>) = pending_of k d"
  "pending_of k (d\<lparr>dc_drain_inflight := f\<rparr>) = pending_of k d" "pending_of k (d\<lparr>dc_ready := f\<rparr>) = pending_of k d"
  by (simp_all add: pending_of_def)

lemma reservation_ok: "doc_ok c x d \<Longrightarrow> reservation c grant d = Inr d' \<Longrightarrow> doc_ok c (Suc x) d'"
  by (auto simp: doc_defs reservation_def split: if_splits)

lemma release_ok: "doc_ok c (Suc x) d \<Longrightarrow> doc_ok c x (d\<lparr>dc_control_slots := dc_control_slots d - 1\<rparr>)"
  by (auto simp: doc_defs)

lemma enqueue_control_ok:
  assumes "limits_ok (limits_of c)" "doc_ok c (Suc x) d"
  shows "doc_ok c x (enqueue_control c memory i k b d)"
proof -
  obtain q where "qd_control q" "length (qd_bytes q) \<le> max_frame_bytes (limits_of c)"
    "dc_data_bytes d + int (counted c q) \<le> int (max_queued_bytes_per_direction (limits_of c))"
    "enqueue_control c memory i k b d = push_queue q (d\<lparr>dc_data_bytes := dc_data_bytes d + int (counted c q)\<rparr>)"
    using enqueue_control_queues [OF assms(1), of d memory i k b thesis] assms(2) by (simp add: doc_defs)
  then show ?thesis using assms(2) by (auto simp: doc_defs)
qed

lemma enqueue_data_ok:
  assumes "doc_ok c x d" "enqueue_data c grant f d = Inr d'"
  shows "doc_ok c x d'"
proof -
  let ?q = "\<lparr>qd_bytes = encode_to_vec f, qd_control = False\<rparr>"
  have "counted c ?q = encoded_len f" by (simp add: counted_def length_encode)
  with assms show ?thesis
    by (auto simp: doc_defs enqueue_data_def Let_def length_encode max_def split: if_splits)
qed

lemma length_delete:
  assumes "distinct (map fst xs)" "map_of xs i = Some p"
  shows "Suc (length (AList.delete i xs)) = length xs"
  using assms
proof (induction xs)
  case (Cons y ys)
  have "AList.delete i ys = ys" if "i \<notin> fst ` set ys"
    using that by (intro AList.delete_id) (auto simp: image_iff)
  with Cons show ?case by (auto split: if_splits)
qed simp

lemma filter_delete_le: "length (filter P (AList.delete i xs)) \<le> length (filter P xs)"
proof (induction xs)
  case (Cons y ys)
  then show ?case by (cases y) auto
qed simp

lemma update_new: "i \<notin> fst ` set xs \<Longrightarrow> AList.update i v xs = xs @ [(i, v)]"
  by (induction xs) auto

lemma take_incoming_ok:
  "doc_ok c x d \<Longrightarrow> map_of (dc_incoming d) i = Some p \<Longrightarrow> doc_ok c (Suc x) (d\<lparr>dc_incoming := AList.delete i (dc_incoming d)\<rparr>)"
  using length_delete [of "dc_incoming d" i p] by (auto simp: doc_defs AList.distinct_delete)

lemma take_pending_ok:
  assumes "doc_ok c x d" "map_of (dc_pending d) i = Some p"
  shows "doc_ok c (Suc x) (d\<lparr>dc_pending := AList.delete i (dc_pending d)\<rparr>)"
proof -
  have "pending_of k (d\<lparr>dc_pending := AList.delete i (dc_pending d)\<rparr>) \<le> pending_of k d" for k
    by (simp add: pending_of_def filter_delete_le)
  from this [of Rpc] this [of Notification] show ?thesis
    using assms length_delete [of "dc_pending d" i p] by (auto simp: doc_defs AList.distinct_delete)
qed

lemma put_incoming_ok:
  "doc_ok c (Suc x) d \<Longrightarrow> i \<notin> fst ` set (dc_incoming d) \<Longrightarrow> length (dc_incoming d) < max_pending_calls_per_direction (limits_of c) \<Longrightarrow>
     doc_ok c x (d\<lparr>dc_incoming := AList.update i v (dc_incoming d)\<rparr>)"
  by (auto simp: doc_defs update_new)

lemma put_pending_ok:
  assumes "doc_ok c (Suc x) d" "i \<notin> fst ` set (dc_pending d)"
    "pending_of (pc_kind p) d < (case pc_kind p of Rpc \<Rightarrow> max_pending_calls_per_direction (limits_of c)
       | Notification \<Rightarrow> max_outstanding_notifications_per_direction (limits_of c))"
  shows "doc_ok c x (d\<lparr>dc_pending := AList.update i p (dc_pending d)\<rparr>)"
proof -
  have "pending_of k (d\<lparr>dc_pending := dc_pending d @ [(i, p)]\<rparr>) = pending_of k d + (if pc_kind p = k then 1 else 0)" for k
    by (simp add: pending_of_def)
  from this [of Rpc] this [of Notification] show ?thesis
    using assms by (cases "pc_kind p") (auto simp: doc_defs update_new)
qed

text \<open>A call that stays open with other data.\<close>

lemma update_keys: "i \<in> fst ` set xs \<Longrightarrow> map fst (AList.update i v xs) = map fst xs"
  by (induction xs) auto

lemma update_keeps:
  assumes "map_of xs i = Some p" "f v = f p"
  shows "map (\<lambda>(i, p). (i, f p)) (AList.update i v xs) = map (\<lambda>(i, p). (i, f p)) xs"
  using assms by (induction xs) (auto split: if_splits)

lemma pending_of_map: "pending_of k d = length (filter (\<lambda>(_, k'). k' = k) (map (\<lambda>(i, p). (i, pc_kind p)) (dc_pending d)))"
  by (simp add: pending_of_def filter_map comp_def case_prod_unfold)

lemma change_pending_ok:
  assumes "doc_ok c x d" "map_of (dc_pending d) i = Some p" "pc_kind p' = pc_kind p"
  shows "doc_ok c x (d\<lparr>dc_pending := AList.update i p' (dc_pending d)\<rparr>)"
proof -
  have mem: "i \<in> fst ` set (dc_pending d)" using assms(2) by (force dest: map_of_SomeD)
  have "pending_of k (d\<lparr>dc_pending := AList.update i p' (dc_pending d)\<rparr>) = pending_of k d" for k
    using update_keeps [of "dc_pending d" i p pc_kind p'] assms(2,3) by (simp add: pending_of_map)
  moreover have "length (AList.update i p' (dc_pending d)) = length (dc_pending d)"
    using update_keys [OF mem, of p'] by (metis length_map)
  ultimately show ?thesis using assms(1) update_keys [OF mem, of p'] by (simp add: doc_defs)
qed

section \<open>Open calls\<close>

text \<open>The key of a call, as the timer has it (\<open>TimerKey\<close> of \<open>executor.rs\<close>).\<close>

record timer_key =
  tk_generation :: u64
  tk_id :: u64
  tk_local :: bool

definition local_key :: "u64 \<Rightarrow> u64 \<Rightarrow> timer_key" where
  "local_key gen i = \<lparr>tk_generation = gen, tk_id = i, tk_local = True\<rparr>"

definition peer_key :: "u64 \<Rightarrow> u64 \<Rightarrow> timer_key" where
  "peer_key gen i = \<lparr>tk_generation = gen, tk_id = i, tk_local = False\<rparr>"

text \<open>The calls that are open in a document, with their deadlines.\<close>

definition local_calls :: "document_state \<Rightarrow> (nat \<times> timer_key) multiset" where
  "local_calls d = mset (map (\<lambda>(i, p). (pc_deadline p, local_key (dc_generation d) i)) (dc_pending d))"

definition peer_calls :: "document_state \<Rightarrow> (nat \<times> timer_key) multiset" where
  "peer_calls d = mset (map (\<lambda>(i, p). (ic_deadline p, peer_key (dc_generation d) i)) (dc_incoming d))"

definition open_calls :: "document_state \<Rightarrow> (nat \<times> timer_key) multiset" where
  "open_calls d = local_calls d + peer_calls d"

text \<open>Queued frames are announced: the renderer has been told since it last found the queue empty, or is about to be.\<close>

definition announced :: "bool \<Rightarrow> document_state \<Rightarrow> bool" where
  "announced told d \<longleftrightarrow> dc_queue d = [] \<or> dc_ready d \<or> told"

text \<open>What a region does to a document, for a caller that holds \<open>x\<close> reservations before and \<open>x'\<close> after it: it closes the
  calls \<open>gone\<close> and opens the calls \<open>new\<close>.\<close>

definition doc_moves ::
  "engine_config \<Rightarrow> nat \<Rightarrow> document_state \<Rightarrow> (nat \<times> timer_key) multiset \<Rightarrow> (nat \<times> timer_key) multiset \<Rightarrow> document_state \<Rightarrow> bool" where
  "doc_moves c x' d gone new d' \<longleftrightarrow>
     doc_ok c x' d' \<and> open_calls d' + gone = open_calls d + new
     \<and> dc_generation d' = dc_generation d \<and> dc_navigation d' = dc_navigation d
     \<and> dc_next_id d \<le> dc_next_id d' \<and> dc_last_peer_id d \<le> dc_last_peer_id d'
     \<and> (\<forall>told. announced told d \<longrightarrow> announced told d') \<and> (dc_ready d \<longrightarrow> dc_ready d')"

lemma doc_moves_refl: "doc_ok c x d \<Longrightarrow> doc_moves c x d {#} {#} d"
  by (simp add: doc_moves_def)

lemma doc_moves_trans:
  assumes "doc_moves c x d g n d1" "doc_moves c x' d1 g' n' d2"
  shows "doc_moves c x' d (g + g') (n + n') d2"
proof -
  have "open_calls d2 + (g + g') = open_calls d + (n + n')"
    using assms unfolding doc_moves_def by (metis (no_types, lifting) add.assoc add.commute)
  with assms show ?thesis unfolding doc_moves_def by auto
qed

lemma delete_calls:
  assumes "distinct (map fst xs)" "map_of xs i = Some p"
  shows "mset xs = add_mset (i, p) (mset (AList.delete i xs))"
  using assms
proof (induction xs)
  case (Cons y ys)
  have "AList.delete i ys = ys" if "i \<notin> fst ` set ys"
    using that by (intro AList.delete_id) (auto simp: image_iff)
  with Cons show ?case by (cases y) (auto split: if_splits)
qed simp

lemma take_incoming_moves:
  assumes "doc_ok c x d" "map_of (dc_incoming d) i = Some p"
  shows "doc_moves c (Suc x) d {#(ic_deadline p, peer_key (dc_generation d) i)#} {#} (d\<lparr>dc_incoming := AList.delete i (dc_incoming d)\<rparr>)"
  using take_incoming_ok [OF assms] delete_calls [OF _ assms(2)] assms(1)
  by (simp add: doc_moves_def open_calls_def peer_calls_def local_calls_def announced_def doc_defs)

lemma take_pending_moves:
  assumes "doc_ok c x d" "map_of (dc_pending d) i = Some p"
  shows "doc_moves c (Suc x) d {#(pc_deadline p, local_key (dc_generation d) i)#} {#} (d\<lparr>dc_pending := AList.delete i (dc_pending d)\<rparr>)"
  using take_pending_ok [OF assms] delete_calls [OF _ assms(2)] assms(1)
  by (simp add: doc_moves_def open_calls_def peer_calls_def local_calls_def announced_def doc_defs)

lemma release_moves: "doc_ok c (Suc x) d \<Longrightarrow> doc_moves c x d {#} {#} (d\<lparr>dc_control_slots := dc_control_slots d - 1\<rparr>)"
  using release_ok by (simp add: doc_moves_def open_calls_def peer_calls_def local_calls_def announced_def)

lemma reservation_moves: "doc_ok c x d \<Longrightarrow> reservation c grant d = Inr d' \<Longrightarrow> doc_moves c (Suc x) d {#} {#} d'"
  using reservation_ok [of c x d grant d']
  by (auto simp: doc_moves_def reservation_def open_calls_def peer_calls_def local_calls_def announced_def split: if_splits)

lemma enqueue_control_same:
  "open_calls (enqueue_control c memory i k b d) = open_calls d"
  "dc_generation (enqueue_control c memory i k b d) = dc_generation d" "dc_navigation (enqueue_control c memory i k b d) = dc_navigation d"
  "dc_next_id (enqueue_control c memory i k b d) = dc_next_id d" "dc_last_peer_id (enqueue_control c memory i k b d) = dc_last_peer_id d"
  "announced told d \<Longrightarrow> announced told (enqueue_control c memory i k b d)"
  "dc_ready d \<Longrightarrow> dc_ready (enqueue_control c memory i k b d)"
  by (auto simp: enqueue_control_def Let_def open_calls_def local_calls_def peer_calls_def announced_def split: prod.splits if_splits)

lemma enqueue_control_moves:
  "limits_ok (limits_of c) \<Longrightarrow> doc_ok c (Suc x) d \<Longrightarrow> doc_moves c x d {#} {#} (enqueue_control c memory i k b d)"
  by (simp add: doc_moves_def enqueue_control_ok enqueue_control_same)

lemma doc_moves_ok: "doc_moves c x d g n d' \<Longrightarrow> doc_ok c x d'"
  by (simp add: doc_moves_def)

text \<open>Two steps in a row, the first of which takes a call out.\<close>

lemma doc_moves_then:
  "doc_moves c x d g {#} d1 \<Longrightarrow> doc_moves c x' d1 {#} {#} d2 \<Longrightarrow> doc_moves c x' d g {#} d2"
  using doc_moves_trans [of c x d g "{#}" d1 x' "{#}" "{#}" d2] by simp

lemmas doc_moves_seq = doc_moves_then [OF _ enqueue_control_moves] doc_moves_then [OF _ release_moves]

section \<open>Regions\<close>

text \<open>A region that closes a call: with \<open>Some\<close> deadline the call is gone, with \<open>None\<close> nothing has changed.\<close>

definition closes_call ::
  "engine_config \<Rightarrow> nat \<Rightarrow> (u64 \<Rightarrow> timer_key) \<Rightarrow> u64 \<Rightarrow> document_state \<Rightarrow> (ipc_error, nat option) result \<times> document_state \<Rightarrow> bool" where
  "closes_call c x key i d out \<longleftrightarrow> (case out of
     (Inr (Some dl), d') \<Rightarrow> doc_moves c x d {#(dl, key i)#} {#} d'
   | (Inr None, d') \<Rightarrow> d' = d
   | (Inl _, d') \<Rightarrow> False)"

lemma complete_incoming_closes:
  assumes "limits_ok (limits_of c)" "doc_ok c x d"
  shows "closes_call c x (peer_key (dc_generation d)) i d (complete_incoming c memory now i result d)"
  using assms doc_moves_seq(1) [OF take_incoming_moves [OF assms(2)] assms(1) doc_moves_ok [OF take_incoming_moves [OF assms(2)]]]
  by (auto simp: closes_call_def complete_incoming_def Let_def split: option.splits prod.splits)

lemma timeout_incoming_closes:
  assumes "limits_ok (limits_of c)" "doc_ok c x d"
  shows "closes_call c x (peer_key (dc_generation d)) i d (timeout_incoming c memory i d)"
  using assms doc_moves_seq(1) [OF take_incoming_moves [OF assms(2)] assms(1) doc_moves_ok [OF take_incoming_moves [OF assms(2)]]]
  by (auto simp: closes_call_def timeout_incoming_def split: option.splits)

lemma cancel_local_closes:
  assumes "limits_ok (limits_of c)" "doc_ok c x d"
  shows "closes_call c x (local_key (dc_generation d)) i d (cancel_local c memory i d)"
proof (cases "map_of (dc_pending d) i")
  case (Some p)
  note out = take_pending_moves [OF assms(2) Some]
  show ?thesis
    using doc_moves_seq(1) [OF out assms(1) doc_moves_ok [OF out]] doc_moves_seq(2) [OF out doc_moves_ok [OF out]] Some
    by (simp add: closes_call_def cancel_local_def Let_def)
qed (simp add: closes_call_def cancel_local_def)

lemma finish_local_closes:
  assumes "doc_ok c x d"
  shows "closes_call c x (local_key (dc_generation d)) i d (finish_local i d)"
proof (cases "map_of (dc_pending d) i")
  case (Some p)
  note out = take_pending_moves [OF assms Some]
  show ?thesis using doc_moves_seq(2) [OF out doc_moves_ok [OF out]] Some by (simp add: closes_call_def finish_local_def)
qed (simp add: closes_call_def finish_local_def)

lemma dispatch_cancel_closes:
  assumes "doc_ok c x d"
  shows "closes_call c x (peer_key (dc_generation d)) i d (dispatch_cancel i d)"
proof (cases "map_of (dc_incoming d) i")
  case (Some p)
  note out = take_incoming_moves [OF assms Some]
  show ?thesis using doc_moves_seq(2) [OF out doc_moves_ok [OF out]] Some by (simp add: closes_call_def dispatch_cancel_def)
qed (simp add: closes_call_def dispatch_cancel_def)

lemma closes_callE:
  assumes "closes_call c x key i d (r, d')" "doc_ok c x d"
  obtains (closed) dl where "r = Inr (Some dl)" "doc_moves c x d {#(dl, key i)#} {#} d'"
    | (absent) "r = Inr None" "d' = d"
  using assms by (auto simp: closes_call_def split: sum.splits option.splits)

text \<open>Regions that leave the calls as they are.\<close>

lemma change_pending_moves:
  assumes "doc_ok c x d" "map_of (dc_pending d) i = Some p" "pc_kind p' = pc_kind p" "pc_deadline p' = pc_deadline p"
  shows "doc_moves c x d {#} {#} (d\<lparr>dc_pending := AList.update i p' (dc_pending d)\<rparr>)"
proof -
  have "map (\<lambda>(i, p). (i, pc_deadline p)) (AList.update i p' (dc_pending d)) = map (\<lambda>(i, p). (i, pc_deadline p)) (dc_pending d)"
    using update_keeps [OF assms(2), of pc_deadline p'] assms(4) by simp
  then have "map (\<lambda>(i, p). (pc_deadline p, local_key (dc_generation d) i)) (AList.update i p' (dc_pending d))
      = map (\<lambda>(i, p). (pc_deadline p, local_key (dc_generation d) i)) (dc_pending d)"
    by (auto dest: arg_cong [where f = "map (\<lambda>(i, dl). (dl, local_key (dc_generation d) i))"] simp: comp_def case_prod_unfold)
  then show ?thesis using change_pending_ok [OF assms(1-3)]
    by (simp add: doc_moves_def open_calls_def local_calls_def peer_calls_def announced_def)
qed

lemma reply_moves:
  assumes "doc_ok c x d"
  shows "doc_moves c x d {#} {#} (snd (reply c f d))" "dc_ready (snd (reply c f d)) = dc_ready d"
  using doc_moves_refl [OF assms] change_pending_moves [OF assms] by (auto simp: reply_def Let_def split: option.splits)

lemmas moves_defs = doc_moves_def open_calls_def local_calls_def peer_calls_def announced_def

lemma drain_moves:
  assumes "doc_ok c x d"
  shows "doc_moves c x d {#} {#} (snd (drain c d))" "dc_ready (snd (drain c d)) = dc_ready d"
    "fst (drain c d) = Inr None \<Longrightarrow> dc_queue (snd (drain c d)) = []"
proof -
  show "doc_moves c x d {#} {#} (snd (drain c d))"
  proof (cases "dc_queue d")
    case Nil
    then show ?thesis using assms by (simp add: drain_def moves_defs doc_defs)
  next
    case (Cons q rest)
    then show ?thesis using assms by (simp add: drain_def Let_def moves_defs doc_defs counted_def split: if_splits)
  qed
qed (auto simp: drain_def Let_def split: list.splits if_splits)

lemma drain_guard_drop_moves:
  "doc_ok c x d \<Longrightarrow> doc_moves c x d {#} {#} (snd (drain_guard_drop d))" "dc_ready (snd (drain_guard_drop d)) = dc_ready d"
  by (simp_all add: drain_guard_drop_def moves_defs doc_defs)

lemma last_peer_moves: "doc_ok c x d \<Longrightarrow> dc_last_peer_id d \<le> i \<Longrightarrow> doc_moves c x d {#} {#} (d\<lparr>dc_last_peer_id := i\<rparr>)"
  by (simp add: moves_defs doc_defs)

lemma less_plus_one: "(w :: u64) \<noteq> - 1 \<Longrightarrow> w < w + 1"
  using max_word_wrap [of w] unatSuc [of w] by (cases "1 + w = 0") (auto simp: word_less_nat_alt add.commute)

text \<open>\<open>invoke\<close>: only the refusal is queued, and a frame that is let through has an identifier above every earlier one.\<close>

lemma invoke_moves:
  assumes "limits_ok (limits_of c)" "doc_ok c x d" "invoke c grant memory f d = (r, d')"
  shows "doc_moves c x d {#} {#} d'"
    and "r \<noteq> Inr False \<Longrightarrow> dc_ready d' = dc_ready d"
    and "r = Inr True \<Longrightarrow> dc_last_peer_id d < frame_id f \<and> dc_last_peer_id d' = frame_id f"
proof -
  let ?d = "d\<lparr>dc_last_peer_id := frame_id f\<rparr>"
  have refused: "doc_moves c x d {#} {#} (enqueue_control c memory i k b d1)"
    if "reservation c grant ?d = Inr d1" "dc_last_peer_id d < frame_id f" for d1 i k b
  proof -
    have "doc_moves c x d {#} {#} ?d" using that last_peer_moves [OF assms(2)] by simp
    moreover from doc_moves_ok [OF this] have "doc_moves c (Suc x) ?d {#} {#} d1" by (rule reservation_moves) (rule that(1))
    ultimately have "doc_moves c (Suc x) d {#} {#} d1" by (rule doc_moves_then)
    with doc_moves_ok [OF this] show ?thesis using doc_moves_seq(1) assms(1) by blast
  qed
  show "doc_moves c x d {#} {#} d'"
    using assms(3) refused last_peer_moves [OF assms(2), of "frame_id f"] doc_moves_refl [OF assms(2)]
    by (auto simp: invoke_def Let_def not_le split: if_splits sum.splits)
  show "r \<noteq> Inr False \<Longrightarrow> dc_ready d' = dc_ready d"
    using assms(3) by (auto simp: invoke_def Let_def split: if_splits sum.splits)
  show "r = Inr True \<Longrightarrow> dc_last_peer_id d < frame_id f \<and> dc_last_peer_id d' = frame_id f"
    using assms(3) by (auto simp: invoke_def Let_def not_le split: if_splits sum.splits)
qed

lemma reservation_same:
  "reservation c grant d = Inr d' \<Longrightarrow> dc_incoming d' = dc_incoming d \<and> dc_pending d' = dc_pending d \<and> dc_ready d' = dc_ready d
     \<and> dc_generation d' = dc_generation d \<and> dc_next_id d' = dc_next_id d \<and> dc_last_peer_id d' = dc_last_peer_id d \<and> pending_of k d' = pending_of k d"
  by (auto simp: reservation_def split: if_splits)

lemma request_moves:
  assumes "doc_ok c x d" "request c grant dl f d = (r, d')" "frame_id f \<notin> fst ` set (dc_incoming d)"
  shows "if r = Inr () then doc_moves c x d {#} {#(dl, peer_key (dc_generation d) (frame_id f))#} d' else d' = d"
    and "dc_ready d' = dc_ready d"
proof -
  have "doc_moves c x d {#} {#(dl, peer_key (dc_generation d) (frame_id f))#}
      (d1\<lparr>dc_incoming := AList.update (frame_id f) \<lparr>ic_deadline = dl\<rparr> (dc_incoming d1)\<rparr>)"
    if "reservation c grant d = Inr d1" "length (dc_incoming d) < max_pending_calls_per_direction (limits_of c)" for d1
    using put_incoming_ok [OF reservation_ok [OF assms(1) that(1)], of "frame_id f" "\<lparr>ic_deadline = dl\<rparr>"]
      reservation_moves [OF assms(1) that(1)] reservation_same [OF that(1)] that(2) assms(3)
    by (simp add: moves_defs update_new)
  then show "if r = Inr () then doc_moves c x d {#} {#(dl, peer_key (dc_generation d) (frame_id f))#} d' else d' = d"
    and "dc_ready d' = dc_ready d"
    using assms(2) by (auto simp: request_def not_le dest: reservation_same split: if_splits sum.splits)
qed

lemma notify_moves:
  assumes "doc_ok c x d" "notify c tasks callbacks notifications grant f d = (r, d')"
  shows "case r of Inr _ \<Rightarrow> doc_moves c (Suc x) d {#} {#} d' | Inl _ \<Rightarrow> d' = d" and "dc_ready d' = dc_ready d"
  using assms reservation_moves [OF assms(1)] by (auto simp: notify_def Let_def dest: reservation_same split: if_splits sum.splits)

lemma notify_accept_moves:
  assumes "limits_ok (limits_of c)" "doc_ok c (Suc x) d"
  shows "doc_moves c x d {#} {#} (snd (notify_accept c memory i validation d))"
  using enqueue_control_moves [OF assms] by (simp add: notify_accept_def split: sum.splits)

lemma prepare_moves:
  assumes "doc_ok c x d" "prepare c grant kind dl d = (r, d')" "dc_next_id d \<notin> fst ` set (dc_pending d)"
  shows "case r of
      Inr (Some i) \<Rightarrow> i = dc_next_id d \<and> dc_next_id d < dc_next_id d' \<and> doc_moves c x d {#} {#(dl, local_key (dc_generation d) i)#} d'
    | _ \<Rightarrow> d' = d"
    and "dc_ready d' = dc_ready d"
proof -
  let ?p = "\<lparr>pc_sender = True, pc_sent = False, pc_kind = kind, pc_deadline = dl\<rparr>"
  have step: "doc_moves c x d {#} {#(dl, local_key (dc_generation d) (dc_next_id d))#}
      (d1\<lparr>dc_next_id := dc_next_id d + 1, dc_pending := AList.update (dc_next_id d) ?p (dc_pending d1)\<rparr>) \<and> dc_next_id d < dc_next_id d + 1"
    if *: "reservation c grant d = Inr d1" "\<not> (case kind of Rpc \<Rightarrow> max_pending_calls_per_direction (limits_of c)
        | Notification \<Rightarrow> max_outstanding_notifications_per_direction (limits_of c)) \<le> pending_of kind d" "dc_next_id d \<noteq> - 1" for d1
  proof -
    have less: "dc_next_id d < dc_next_id d + 1"
      using *(3) by (rule less_plus_one)
    have "doc_ok c x (d1\<lparr>dc_pending := AList.update (dc_next_id d) ?p (dc_pending d1)\<rparr>)"
      using put_pending_ok [OF reservation_ok [OF assms(1) *(1)], of "dc_next_id d" ?p] *(2) assms(3) reservation_same [OF *(1), of kind]
      by (simp add: not_le)
    then have "doc_ok c x (d1\<lparr>dc_next_id := dc_next_id d + 1, dc_pending := AList.update (dc_next_id d) ?p (dc_pending d1)\<rparr>)"
      by (simp add: doc_defs pending_of_def)
    then show ?thesis using less reservation_moves [OF assms(1) *(1)] reservation_same [OF *(1)] assms(3)
      by (simp add: moves_defs update_new)
  qed
  show "case r of
      Inr (Some i) \<Rightarrow> i = dc_next_id d \<and> dc_next_id d < dc_next_id d' \<and> doc_moves c x d {#} {#(dl, local_key (dc_generation d) i)#} d'
    | _ \<Rightarrow> d' = d"
    and "dc_ready d' = dc_ready d"
    using assms(2) step by (auto simp: prepare_def Let_def pending_of_def dest: reservation_same split: if_splits sum.splits)
qed

lemma enqueue_data_moves:
  assumes "doc_ok c x d" "enqueue_data c grant f d = Inr d'"
  shows "doc_moves c x d {#} {#} d'" "dc_pending d' = dc_pending d"
  using enqueue_data_ok [OF assms] assms(2) by (auto simp: enqueue_data_def Let_def moves_defs split: if_splits)

lemma send_request_moves:
  assumes "doc_ok c x d" "send_request c grant now i m kind payload d = (r, d')"
  shows "if r = Inr () then doc_moves c x d {#} {#} d' else d' = d"
proof -
  have "doc_moves c x d {#} {#} (d1\<lparr>dc_pending := AList.update i (p\<lparr>pc_sent := True\<rparr>) (dc_pending d1)\<rparr>)"
    if "enqueue_data c grant f d = Inr d1" "map_of (dc_pending d) i = Some p" for f d1 p
  proof -
    note q = enqueue_data_moves [OF assms(1) that(1)]
    have "map_of (dc_pending d1) i = Some p" using q(2) that(2) by simp
    from doc_moves_then [OF q(1) change_pending_moves [OF doc_moves_ok [OF q(1)] this, of "p\<lparr>pc_sent := True\<rparr>"]] show ?thesis by simp
  qed
  then show ?thesis using assms(2) by (auto simp: send_request_def Let_def split: if_splits option.splits sum.splits)
qed

lemma subscriptions_moves:
  assumes "doc_ok c x d" "distinct (map fst subs)" "length subs \<le> max_callbacks_per_document (limits_of c)"
  shows "doc_moves c x d {#} {#} (d\<lparr>dc_subscriptions := subs\<rparr>)"
    "doc_moves c x d {#} {#} (d\<lparr>dc_next_subscription := n, dc_subscriptions := subs\<rparr>)"
  using assms by (simp_all add: moves_defs doc_defs pending_of_def)

lemma length_update: "length (AList.update i v xs) \<le> Suc (length xs)"
  by (induction xs) auto

lemma map_entry_keys: "map fst (AList.map_entry i f xs) = map fst xs"
  by (induction xs) auto

lemma length_map_entry: "length (AList.map_entry i f xs) = length xs"
  by (induction xs) auto

lemma subscribe_moves:
  assumes "doc_ok c x d"
  shows "doc_moves c x d {#} {#} (snd (subscribe c m d))" "dc_ready (snd (subscribe c m d)) = dc_ready d"
  using assms doc_moves_refl [OF assms] length_update [of "dc_next_subscription d" "\<lparr>sl_method = m, sl_active = True\<rparr>" "dc_subscriptions d"]
  by (auto simp: subscribe_def AList.distinct_update doc_defs intro!: subscriptions_moves)

lemma slot_close_moves:
  "doc_ok c x d \<Longrightarrow> doc_moves c x d {#} {#} (snd (slot_close i d))" "dc_ready (snd (slot_close i d)) = dc_ready d"
  by (auto simp: slot_close_def map_entry_keys length_map_entry doc_defs intro!: subscriptions_moves)

lemma subscription_remove_moves:
  "doc_ok c x d \<Longrightarrow> doc_moves c x d {#} {#} (snd (subscription_remove i d))" "dc_ready (snd (subscription_remove i d)) = dc_ready d"
  using AList.length_delete_le [of i "dc_subscriptions d"]
  by (auto simp: subscription_remove_def AList.distinct_delete doc_defs intro!: subscriptions_moves)

text \<open>The document that \<open>admit\<close> makes.\<close>

lemma startup_subscriptions:
  "doc_ok c x d \<Longrightarrow> length (dc_subscriptions d) + length ms \<le> max_callbacks_per_document (limits_of c) \<Longrightarrow>
   doc_moves c x d {#} {#} (foldl startup_subscription d ms)"
proof (induction ms arbitrary: d)
  case Nil
  then show ?case by (simp add: doc_moves_refl)
next
  case (Cons m ms)
  have more: "length (dc_subscriptions (startup_subscription d m)) \<le> Suc (length (dc_subscriptions d))"
    by (simp add: startup_subscription_def length_update)
  have step: "doc_moves c x d {#} {#} (startup_subscription d m)"
    using Cons.prems more unfolding startup_subscription_def by (intro subscriptions_moves) (auto simp: AList.distinct_update doc_defs)
  have "doc_moves c x (startup_subscription d m) {#} {#} (foldl startup_subscription (startup_subscription d m) ms)"
    using Cons.prems more by (intro Cons.IH doc_moves_ok [OF step]) simp
  then show ?case using doc_moves_then [OF step] by simp
qed

lemma document_new_ok: "doc_ok c 0 (document_new nav gen token)"
  by (simp add: document_new_def doc_defs pending_of_def)

lemma document_new_open: "open_calls (document_new nav gen token) = {#}" "announced False (document_new nav gen token)"
  "dc_ready (document_new nav gen token) = False" "dc_generation (document_new nav gen token) = gen"
  "dc_navigation (document_new nav gen token) = nav" "dc_subscriptions (document_new nav gen token) = []"
  by (simp_all add: document_new_def open_calls_def local_calls_def peer_calls_def announced_def)

lemma startup_same:
  "dc_ready (foldl startup_subscription d ms) = dc_ready d" "dc_queue (foldl startup_subscription d ms) = dc_queue d"
  by (induction ms arbitrary: d) (simp_all add: startup_subscription_def)

end
