(* ===== verification/Ipc_System.thy ===== *)
theory Ipc_System
  imports Ipc_Document
begin

text \<open>
  The desktop IPC as a concurrent system: every step is one region of code under the engine's lock
  (\<open>Ipc_Engine\<close>), or one operation of the deadline timer, and the threads that stand between two regions are
  a multiset of tasks.  Worker threads, the native event loop, the timer and the application may take their
  steps in any order; the budgets' answers and the clock are arbitrary.

  The history fields record which calls have begun and ended, which calls of the renderer got an answer queued, the
  reservations that no owner has any more, and the admissions.  \<open>ipc_inv\<close> is the invariant of the reachable
  systems, kept by each step (\<open>ipc_inv_step\<close>).
\<close>

section \<open>Tasks\<close>

datatype ipc_task =
    SignalTask
  | WakeTask
  | ControlTask
  | RetireTask ipc_error_code bool
  | StopTask
  | FrameTask ipc_frame nat
  | RequestTask ipc_frame nat
  | NotifyTask ipc_frame
  | AcceptTask ipc_frame
  | DrainTask u64
  | GuardTask u64
  | TimeoutTask timer_key
  | UntimeTask nat timer_key

text \<open>The call a task is to open or to answer.\<close>

fun task_key :: "ipc_task \<Rightarrow> timer_key option" where
  "task_key (RequestTask f _) = Some (peer_key (generation f) (frame_id f))"
| "task_key (NotifyTask f) = Some (peer_key (generation f) (frame_id f))"
| "task_key (AcceptTask f) = Some (peer_key (generation f) (frame_id f))"
| "task_key _ = None"

definition task_keys :: "ipc_task multiset \<Rightarrow> timer_key multiset" where
  "task_keys ts = image_mset (the \<circ> task_key) (filter_mset (\<lambda>t. task_key t \<noteq> None) ts)"

text \<open>The reservations of a generation that tasks hold.\<close>

fun reserves :: "u64 \<Rightarrow> ipc_task \<Rightarrow> bool" where
  "reserves gen (AcceptTask f) \<longleftrightarrow> generation f = gen"
| "reserves gen _ \<longleftrightarrow> False"

section \<open>System\<close>

record ipc_system =
  sy_state :: engine_state
  sy_tasks :: "ipc_task multiset"
  sy_timer :: "(nat \<times> timer_key) set"
  sy_told :: bool
  sy_begun :: "timer_key multiset"
  sy_ended :: "timer_key multiset"
  sy_answered :: "timer_key multiset"
  sy_lost :: "u64 multiset"
  sy_admissions :: "(u64 \<times> u64) list"

definition system_new :: ipc_system where
  "system_new = \<lparr>sy_state = engine_new, sy_tasks = {#}, sy_timer = {}, sy_told = False, sy_begun = {#}, sy_ended = {#}, sy_answered = {#},
     sy_lost = {#}, sy_admissions = []\<rparr>"

text \<open>What a region adds to the history.\<close>

record effect =
  ef_begun :: "timer_key multiset"
  ef_ended :: "timer_key multiset"
  ef_answered :: "timer_key multiset"
  ef_lost :: "u64 multiset"
  ef_armed :: "(nat \<times> timer_key) multiset"

definition no_effect :: effect where
  "no_effect = \<lparr>ef_begun = {#}, ef_ended = {#}, ef_answered = {#}, ef_lost = {#}, ef_armed = {#}\<rparr>"

text \<open>A thread has run a region: its task \<open>before\<close> is done and the tasks \<open>after\<close> stand to be run.\<close>

definition advance :: "engine_state \<Rightarrow> ipc_task multiset \<Rightarrow> ipc_task multiset \<Rightarrow> effect \<Rightarrow> ipc_system \<Rightarrow> ipc_system" where
  "advance s before after ef sy = sy\<lparr>sy_state := s, sy_tasks := sy_tasks sy - before + after,
     sy_timer := sy_timer sy \<union> set_mset (ef_armed ef), sy_begun := sy_begun sy + ef_begun ef, sy_ended := sy_ended sy + ef_ended ef,
     sy_answered := sy_answered sy + ef_answered ef, sy_lost := sy_lost sy + ef_lost ef\<rparr>"

definition ended :: "timer_key \<Rightarrow> effect" where
  "ended k = no_effect\<lparr>ef_ended := {#k#}\<rparr>"

definition answered :: "timer_key \<Rightarrow> effect" where
  "answered k = no_effect\<lparr>ef_ended := {#k#}, ef_answered := {#k#}\<rparr>"

definition frame_key :: "ipc_frame \<Rightarrow> timer_key" where
  "frame_key f = peer_key (generation f) (frame_id f)"

text \<open>\<open>retire_matching\<close> after the lock is released: the open calls of the document fail and their deadlines are removed, and
  the timer is stopped or the renderer's side told.\<close>

definition retired :: "bool \<Rightarrow> document_state option \<Rightarrow> engine_state \<Rightarrow> ipc_task multiset \<Rightarrow> ipc_system \<Rightarrow> ipc_system" where
  "retired terminal doc s before sy =
     (let calls = (case doc of Some d \<Rightarrow> open_calls d | None \<Rightarrow> {#}) in
      advance s before ((if terminal then {#StopTask#} else {#SignalTask#}) + image_mset (\<lambda>(dl, k). UntimeTask dl k) calls)
        (no_effect\<lparr>ef_ended := image_mset snd calls\<rparr>) sy)"

abbreviation frame_is :: "ipc_frame \<Rightarrow> kind set \<Rightarrow> bool" where
  "frame_is f ks \<equiv> \<exists>k\<in>ks. kind_try_from (frame_kind f) = Some k"

section \<open>Steps\<close>

inductive ipc_step :: "engine_config \<Rightarrow> ipc_system \<Rightarrow> ipc_system \<Rightarrow> bool" for c where
  signal: "SignalTask \<in># sy_tasks sy \<Longrightarrow> engine_signal (sy_state sy) = (wake, s) \<Longrightarrow>
    ipc_step c sy (advance s {#SignalTask#} (if wake then {#WakeTask#} else {#}) no_effect sy)"
| wake: "WakeTask \<in># sy_tasks sy \<Longrightarrow> t \<in> {ControlTask, RetireTask Transport True} \<Longrightarrow>
    ipc_step c sy (advance (sy_state sy) {#WakeTask#} {#t#} no_effect sy)"
| control: "ControlTask \<in># sy_tasks sy \<Longrightarrow> take_control (sy_state sy) = (r, s) \<Longrightarrow>
    ipc_step c sy ((advance s {#ControlTask#} (if r = None then {#} else {#ControlTask#}) no_effect sy)
      \<lparr>sy_told := sy_told sy \<or> (\<exists>gen. r = Some (ControlReady gen))\<rparr>)"
| attach: "attach_waker (sy_state sy) = (Inr (), s) \<Longrightarrow> ipc_step c sy (advance s {#} {#SignalTask#} no_effect sy)"
| change: "terminal \<longleftrightarrow> change = None \<Longrightarrow> retire_matching code terminal change (sy_state sy) = (Inr (Some (doc, waiters)), s) \<Longrightarrow>
    ipc_step c sy (retired terminal doc s {#} sy)"
| retire: "RetireTask code terminal \<in># sy_tasks sy \<Longrightarrow> retire_matching code terminal None (sy_state sy) = (Inr (Some (doc, waiters)), s) \<Longrightarrow>
    ipc_step c sy (retired terminal doc s {#RetireTask code terminal#} sy)"
| retired: "RetireTask code terminal \<in># sy_tasks sy \<Longrightarrow> retire_matching code terminal None (sy_state sy) = (Inr None, s) \<Longrightarrow>
    ipc_step c sy (advance s {#RetireTask code terminal#} {#} no_effect sy)"
| begin_document: "begin_document c active challenge doc nonce (sy_state sy) = (r, s) \<Longrightarrow> ipc_step c sy (advance s {#} {#} no_effect sy)"
| admit: "check_admission c active h given (sy_state sy) = Inr () \<Longrightarrow>
    admit c active given random now deadline (sy_state sy) = (Inr (gen, waiters), s) \<Longrightarrow>
    ipc_step c sy ((advance s {#} {#} no_effect sy)\<lparr>sy_told := False, sy_admissions := sy_admissions sy @ [(st_navigation s, gen)]\<rparr>)"
| ready: "ready c cancelled w (sy_state sy) = (r, s) \<Longrightarrow> ipc_step c sy (advance s {#} {#} no_effect sy)"
| submit_frame: "submit c active grants req (sy_state sy) = Inr (Dispatch f) \<Longrightarrow>
    ipc_step c sy (advance (sy_state sy) {#} {#FrameTask f received#} no_effect sy)"
| submit_drain: "submit c active grants req (sy_state sy) = Inr (Drain gen) \<Longrightarrow>
    ipc_step c sy (advance (sy_state sy) {#} {#DrainTask gen#} no_effect sy)"
| drain: "DrainTask gen \<in># sy_tasks sy \<Longrightarrow> with_document gen (drain c) (sy_state sy) = (r, s) \<Longrightarrow>
    ipc_step c sy ((advance s {#DrainTask gen#} (if isl r then {#} else {#GuardTask gen#}) no_effect sy)
      \<lparr>sy_told := sy_told sy \<and> r \<noteq> Inr None\<rparr>)"
| drain_drop: "GuardTask gen \<in># sy_tasks sy \<Longrightarrow> with_document gen drain_guard_drop (sy_state sy) = (r, s) \<Longrightarrow>
    ipc_step c sy (advance s {#GuardTask gen#} {#} no_effect sy)"
| invoke: "FrameTask f received \<in># sy_tasks sy \<Longrightarrow> frame_is f {KRequest, KNotify} \<Longrightarrow>
    with_document (generation f) (invoke c grant memory f) (sy_state sy) = (r, s) \<Longrightarrow>
    ipc_step c sy (case r of
      Inl _ \<Rightarrow> advance s {#FrameTask f received#} {#} no_effect sy
    | Inr False \<Rightarrow> advance s {#FrameTask f received#} {#SignalTask#} ((answered (frame_key f))\<lparr>ef_begun := {#frame_key f#}\<rparr>) sy
    | Inr True \<Rightarrow> advance s {#FrameTask f received#}
        {#if frame_kind f = kind_i32 KRequest then RequestTask f received else NotifyTask f#} (no_effect\<lparr>ef_begun := {#frame_key f#}\<rparr>) sy)"
| reply: "FrameTask f received \<in># sy_tasks sy \<Longrightarrow> frame_is f {KResult, KError, KAccept} \<Longrightarrow>
    with_document (generation f) (reply c f) (sy_state sy) = (r, s) \<Longrightarrow>
    ipc_step c sy (advance s {#FrameTask f received#} {#} no_effect sy)"
| dispatch_cancel: "FrameTask f received \<in># sy_tasks sy \<Longrightarrow> frame_is f {KCancel} \<Longrightarrow>
    with_document (generation f) (dispatch_cancel (frame_id f)) (sy_state sy) = (r, s) \<Longrightarrow>
    ipc_step c sy (case r of
      Inr (Some dl) \<Rightarrow> advance s {#FrameTask f received#} {#UntimeTask dl (frame_key f)#} (ended (frame_key f)) sy
    | _ \<Rightarrow> advance s {#FrameTask f received#} {#} no_effect sy)"
| request_refused: "RequestTask f received \<in># sy_tasks sy \<Longrightarrow>
    ipc_step c sy (advance (sy_state sy) {#RequestTask f received#} {#} (ended (frame_key f)) sy)"
| request: "RequestTask f received \<in># sy_tasks sy \<Longrightarrow> dl = received + unat (timeout_ms f) * 1000000 \<Longrightarrow>
    with_document (generation f) (request c grant dl f) (sy_state sy) = (r, s) \<Longrightarrow>
    ipc_step c sy (case r of
      Inl _ \<Rightarrow> advance s {#RequestTask f received#} {#} (ended (frame_key f)) sy
    | Inr _ \<Rightarrow> advance s {#RequestTask f received#} {#} (no_effect\<lparr>ef_armed := {#(dl, frame_key f)#}\<rparr>) sy)"
| complete: "with_document gen (complete_incoming c memory now i result) (sy_state sy) = (Inr (Some dl), s) \<Longrightarrow>
    ipc_step c sy (advance s {#} {#SignalTask, UntimeTask dl (peer_key gen i)#} (answered (peer_key gen i)) sy)"
| notify_refused: "NotifyTask f \<in># sy_tasks sy \<Longrightarrow>
    ipc_step c sy (advance (sy_state sy) {#NotifyTask f#} {#} (ended (frame_key f)) sy)"
| notify: "NotifyTask f \<in># sy_tasks sy \<Longrightarrow> allowed c (method_id f) Host Notification = Inr m \<Longrightarrow>
    with_document (generation f) (notify c tasks callbacks notifications grant f) (sy_state sy) = (r, s) \<Longrightarrow>
    ipc_step c sy (case r of
      Inl _ \<Rightarrow> advance s {#NotifyTask f#} {#} (ended (frame_key f)) sy
    | Inr _ \<Rightarrow> if spawned then advance s {#NotifyTask f#} {#AcceptTask f#} no_effect sy
        else advance s {#NotifyTask f#} {#} ((ended (frame_key f))\<lparr>ef_lost := {#generation f#}\<rparr>) sy)"
| accept: "AcceptTask f \<in># sy_tasks sy \<Longrightarrow> body f = Some (Payload payload) \<Longrightarrow> allowed c (method_id f) Host Notification = Inr m \<Longrightarrow>
    with_document (generation f) (notify_accept c memory (frame_id f) (md_validate_request m payload (limits_of c))) (sy_state sy) = (r, s) \<Longrightarrow>
    ipc_step c sy (case r of
      Inl _ \<Rightarrow> advance s {#AcceptTask f#} {#} (ended (frame_key f)) sy
    | Inr _ \<Rightarrow> advance s {#AcceptTask f#} (add_mset SignalTask (if spawned then {#} else {#RetireTask Transport True#})) (answered (frame_key f)) sy)"
| accept_lost: "AcceptTask f \<in># sy_tasks sy \<Longrightarrow> \<not> is_payload (body f) \<Longrightarrow>
    ipc_step c sy (advance (sy_state sy) {#AcceptTask f#} {#} ((ended (frame_key f))\<lparr>ef_lost := {#generation f#}\<rparr>) sy)"
| prepare: "prepare_deadline c m kind timeout started = Inr dl \<Longrightarrow>
    with_document gen (prepare c grant kind dl) (sy_state sy) = (Inr r, s) \<Longrightarrow>
    ipc_step c sy (case r of
      None \<Rightarrow> advance s {#} {#RetireTask Closed False#} no_effect sy
    | Some i \<Rightarrow> advance s {#} {#} (no_effect\<lparr>ef_begun := {#local_key gen i#}, ef_armed := {#(dl, local_key gen i)#}\<rparr>) sy)"
| send_request: "send_checks c m kind payload = Inr () \<Longrightarrow>
    with_document gen (send_request c grant now i m kind payload) (sy_state sy) = (Inr (), s) \<Longrightarrow>
    ipc_step c sy (advance s {#} {#SignalTask#} no_effect sy)"
| finish_local: "with_document gen (finish_local i) (sy_state sy) = (Inr (Some dl), s) \<Longrightarrow>
    ipc_step c sy (advance s {#} {#UntimeTask dl (local_key gen i)#} (ended (local_key gen i)) sy)"
| cancel_local: "with_document gen (cancel_local c memory i) (sy_state sy) = (Inr (Some dl), s) \<Longrightarrow>
    ipc_step c sy (advance s {#} {#SignalTask, UntimeTask dl (local_key gen i)#} (ended (local_key gen i)) sy)"
| timer_fire: "(dl, k) \<in> sy_timer sy \<Longrightarrow> \<forall>e\<in>sy_timer sy. dl \<le> fst e \<Longrightarrow> dl \<le> now \<Longrightarrow>
    ipc_step c sy ((advance (sy_state sy) {#} {#TimeoutTask k#} no_effect sy)\<lparr>sy_timer := sy_timer sy - {(dl, k)}\<rparr>)"
| timeout_local: "TimeoutTask k \<in># sy_tasks sy \<Longrightarrow> tk_local k \<Longrightarrow>
    with_document (tk_generation k) (cancel_local c memory (tk_id k)) (sy_state sy) = (r, s) \<Longrightarrow>
    ipc_step c sy (case r of
      Inr (Some dl) \<Rightarrow> advance s {#TimeoutTask k#} {#SignalTask, UntimeTask dl k#} (ended k) sy
    | _ \<Rightarrow> advance s {#TimeoutTask k#} {#} no_effect sy)"
| timeout_peer: "TimeoutTask k \<in># sy_tasks sy \<Longrightarrow> \<not> tk_local k \<Longrightarrow>
    with_document (tk_generation k) (timeout_incoming c memory (tk_id k)) (sy_state sy) = (r, s) \<Longrightarrow>
    ipc_step c sy (case r of
      Inr (Some dl) \<Rightarrow> advance s {#TimeoutTask k#} {#SignalTask#} (answered k) sy
    | _ \<Rightarrow> advance s {#TimeoutTask k#} {#} no_effect sy)"
| untime: "UntimeTask dl k \<in># sy_tasks sy \<Longrightarrow>
    ipc_step c sy ((advance (sy_state sy) {#UntimeTask dl k#} {#} no_effect sy)\<lparr>sy_timer := sy_timer sy - {(dl, k)}\<rparr>)"
| stop: "StopTask \<in># sy_tasks sy \<Longrightarrow>
    ipc_step c sy ((advance (sy_state sy) {#StopTask#} {#} no_effect sy)\<lparr>sy_timer := {}\<rparr>)"
| subscribe: "allowed c m Host Notification = Inr md \<Longrightarrow> with_document gen (subscribe c m) (sy_state sy) = (r, s) \<Longrightarrow>
    ipc_step c sy (advance s {#} {#} no_effect sy)"
| slot_close: "with_document gen (slot_close i) (sy_state sy) = (r, s) \<Longrightarrow> ipc_step c sy (advance s {#} {#} no_effect sy)"
| subscription_remove: "with_document gen (subscription_remove i) (sy_state sy) = (r, s) \<Longrightarrow>
    ipc_step c sy (advance s {#} {#} no_effect sy)"

inductive ipc_reach :: "engine_config \<Rightarrow> ipc_system \<Rightarrow> bool" for c where
  init: "ipc_reach c system_new"
| step: "ipc_reach c sy \<Longrightarrow> ipc_step c sy sy' \<Longrightarrow> ipc_reach c sy'"

section \<open>Invariant\<close>

text \<open>The reservations of a generation that are held outside its document.\<close>

definition held :: "u64 \<Rightarrow> ipc_system \<Rightarrow> nat" where
  "held gen sy = size (filter_mset (reserves gen) (sy_tasks sy)) + Multiset.count (sy_lost sy) gen"

definition open_of :: "engine_state \<Rightarrow> (nat \<times> timer_key) multiset" where
  "open_of s = (case st_document s of Some d \<Rightarrow> open_calls d | None \<Rightarrow> {#})"

text \<open>The identifier of a call has been handed out.\<close>

definition handed_out :: "document_state \<Rightarrow> timer_key \<Rightarrow> bool" where
  "handed_out d k \<longleftrightarrow> (if tk_local k then tk_id k < dc_next_id d else tk_id k \<le> dc_last_peer_id d)"

definition doc_inv :: "engine_config \<Rightarrow> ipc_system \<Rightarrow> document_state \<Rightarrow> bool" where
  "doc_inv c sy d \<longleftrightarrow>
     doc_ok c (held (dc_generation d) sy) d \<and> announced (sy_told sy) d
     \<and> dc_generation d = st_generation (sy_state sy) \<and> dc_navigation d = st_navigation (sy_state sy)
     \<and> st_admitted (sy_state sy) \<and> \<not> st_closed (sy_state sy)
     \<and> (\<forall>k. k \<in># sy_begun sy \<longrightarrow> tk_generation k = dc_generation d \<longrightarrow> handed_out d k)
     \<and> (\<forall>dl k. (dl, k) \<in># open_calls d \<longrightarrow> (dl, k) \<in> sy_timer sy \<or> TimeoutTask k \<in># sy_tasks sy)"

definition key_inv :: "ipc_system \<Rightarrow> bool" where
  "key_inv sy \<longleftrightarrow>
     sy_begun sy = image_mset snd (open_of (sy_state sy)) + task_keys (sy_tasks sy) + sy_ended sy
     \<and> (\<forall>k. Multiset.count (sy_begun sy) k \<le> 1)
     \<and> (\<forall>k. k \<in># sy_begun sy \<longrightarrow> tk_generation k \<le> st_generation (sy_state sy))
     \<and> (\<forall>gen. gen \<in># sy_lost sy \<longrightarrow> gen \<le> st_generation (sy_state sy))
     \<and> (\<forall>dl k. UntimeTask dl k \<in># sy_tasks sy \<longrightarrow> k \<in># sy_ended sy)
     \<and> sy_answered sy \<subseteq># sy_ended sy
     \<and> (StopTask \<in># sy_tasks sy \<longrightarrow> st_closed (sy_state sy))"

text \<open>Something is to be reported to the native event loop.\<close>

definition to_report :: "engine_state \<Rightarrow> bool" where
  "to_report s \<longleftrightarrow> st_closed_control s \<noteq> None \<or> (case st_document s of Some d \<Rightarrow> dc_ready d | None \<Rightarrow> False)"

text \<open>The event loop is being woken, is reporting, or the frame is being closed because it cannot be woken.\<close>

definition waking :: "ipc_task multiset \<Rightarrow> bool" where
  "waking ts \<longleftrightarrow> WakeTask \<in># ts \<or> ControlTask \<in># ts \<or> (\<exists>code. RetireTask code True \<in># ts)"

definition wake_inv :: "ipc_system \<Rightarrow> bool" where
  "wake_inv sy \<longleftrightarrow> st_closed (sy_state sy) \<or>
     (st_wake_pending (sy_state sy) \<longrightarrow> waking (sy_tasks sy))
     \<and> (st_waker (sy_state sy) \<and> to_report (sy_state sy) \<longrightarrow> SignalTask \<in># sy_tasks sy \<or> waking (sy_tasks sy))"

definition admission_inv :: "engine_config \<Rightarrow> ipc_system \<Rightarrow> bool" where
  "admission_inv c sy \<longleftrightarrow>
     sorted_wrt (\<lambda>a b. fst a < fst b \<and> snd a < snd b) (sy_admissions sy)
     \<and> (\<forall>(nav, gen) \<in> set (sy_admissions sy). gen \<le> st_generation (sy_state sy) \<and> nav \<le> st_navigation (sy_state sy)
          \<and> (nav = st_navigation (sy_state sy) \<longrightarrow> st_admitted (sy_state sy)))
     \<and> (st_admitted (sy_state sy) \<longrightarrow> sy_admissions sy \<noteq> [] \<and> last (sy_admissions sy) = (st_navigation (sy_state sy), st_generation (sy_state sy)))
     \<and> (st_closed (sy_state sy) \<longrightarrow> st_document (sy_state sy) = None)
     \<and> length (st_waiters (sy_state sy)) \<le> max_readiness_waiters (limits_of c)"

definition ipc_inv :: "engine_config \<Rightarrow> ipc_system \<Rightarrow> bool" where
  "ipc_inv c sy \<longleftrightarrow> (\<forall>d. st_document (sy_state sy) = Some d \<longrightarrow> doc_inv c sy d) \<and> key_inv sy \<and> wake_inv sy \<and> admission_inv c sy"

lemma task_keys_simps [simp]:
  "task_keys {#} = {#}" "task_keys (ts + ts') = task_keys ts + task_keys ts'"
  "task_keys (add_mset t ts) = (case task_key t of Some k \<Rightarrow> {#k#} | None \<Rightarrow> {#}) + task_keys ts"
  by (auto simp: task_keys_def split: option.splits)

lemma task_keys_diff: "before \<subseteq># ts \<Longrightarrow> task_keys ts = task_keys (ts - before) + task_keys before"
  by (metis task_keys_simps(2) subset_mset.diff_add)

lemma advance_simps [simp]:
  "sy_state (advance s before after ef sy) = s" "sy_tasks (advance s before after ef sy) = sy_tasks sy - before + after"
  "sy_timer (advance s before after ef sy) = sy_timer sy \<union> set_mset (ef_armed ef)"
  "sy_told (advance s before after ef sy) = sy_told sy" "sy_begun (advance s before after ef sy) = sy_begun sy + ef_begun ef"
  "sy_ended (advance s before after ef sy) = sy_ended sy + ef_ended ef"
  "sy_answered (advance s before after ef sy) = sy_answered sy + ef_answered ef"
  "sy_lost (advance s before after ef sy) = sy_lost sy + ef_lost ef"
  "sy_admissions (advance s before after ef sy) = sy_admissions sy"
  by (simp_all add: advance_def)

lemma effect_simps [simp]:
  "ef_begun no_effect = {#}" "ef_ended no_effect = {#}" "ef_answered no_effect = {#}" "ef_lost no_effect = {#}" "ef_armed no_effect = {#}"
  "ef_begun (ended k) = {#}" "ef_ended (ended k) = {#k#}" "ef_answered (ended k) = {#}" "ef_lost (ended k) = {#}" "ef_armed (ended k) = {#}"
  "ef_begun (answered k) = {#}" "ef_ended (answered k) = {#k#}" "ef_answered (answered k) = {#k#}" "ef_lost (answered k) = {#}"
  "ef_armed (answered k) = {#}"
  by (simp_all add: no_effect_def ended_def answered_def)

lemma key_invD:
  assumes "key_inv sy"
  shows "sy_begun sy = image_mset snd (open_of (sy_state sy)) + task_keys (sy_tasks sy) + sy_ended sy"
    and "Multiset.count (sy_begun sy) k \<le> 1"
    and "k \<in># sy_begun sy \<Longrightarrow> tk_generation k \<le> st_generation (sy_state sy)"
    and "gen \<in># sy_lost sy \<Longrightarrow> gen \<le> st_generation (sy_state sy)"
    and "UntimeTask dl k \<in># sy_tasks sy \<Longrightarrow> k \<in># sy_ended sy"
    and "sy_answered sy \<subseteq># sy_ended sy"
    and "StopTask \<in># sy_tasks sy \<Longrightarrow> st_closed (sy_state sy)"
  using assms unfolding key_inv_def by blast+

lemma key_invI:
  assumes "sy_begun sy = image_mset snd (open_of (sy_state sy)) + task_keys (sy_tasks sy) + sy_ended sy"
    and "\<And>k. Multiset.count (sy_begun sy) k \<le> 1"
    and "\<And>k. k \<in># sy_begun sy \<Longrightarrow> tk_generation k \<le> st_generation (sy_state sy)"
    and "\<And>gen. gen \<in># sy_lost sy \<Longrightarrow> gen \<le> st_generation (sy_state sy)"
    and "\<And>dl k. UntimeTask dl k \<in># sy_tasks sy \<Longrightarrow> k \<in># sy_ended sy"
    and "sy_answered sy \<subseteq># sy_ended sy"
    and "StopTask \<in># sy_tasks sy \<Longrightarrow> st_closed (sy_state sy)"
  shows "key_inv sy"
  unfolding key_inv_def using assms by blast

lemma key_inv_same [simp]:
  "key_inv (sy\<lparr>sy_timer := x\<rparr>) = key_inv sy" "key_inv (sy\<lparr>sy_told := b\<rparr>) = key_inv sy" "key_inv (sy\<lparr>sy_admissions := l\<rparr>) = key_inv sy"
  unfolding key_inv_def by simp_all

lemma doc_invD:
  assumes "doc_inv c sy d"
  shows "doc_ok c (held (dc_generation d) sy) d" "announced (sy_told sy) d" "dc_generation d = st_generation (sy_state sy)"
    "dc_navigation d = st_navigation (sy_state sy)" "st_admitted (sy_state sy)" "\<not> st_closed (sy_state sy)"
    and "k \<in># sy_begun sy \<Longrightarrow> tk_generation k = dc_generation d \<Longrightarrow> handed_out d k"
    and "(dl, k) \<in># open_calls d \<Longrightarrow> (dl, k) \<in> sy_timer sy \<or> TimeoutTask k \<in># sy_tasks sy"
  using assms unfolding doc_inv_def by blast+

text \<open>The tasks that the wake-up depends on.\<close>

definition waker_task :: "ipc_task \<Rightarrow> bool" where
  "waker_task t \<longleftrightarrow> t \<in> {SignalTask, WakeTask, ControlTask} \<or> (\<exists>code. t = RetireTask code True)"

lemma waking_mono: "waking ts \<Longrightarrow> (\<And>t. t \<in># ts \<Longrightarrow> waker_task t \<Longrightarrow> t \<in># ts') \<Longrightarrow> waking ts'"
  by (auto simp: waking_def waker_task_def)

lemma mset_balance:
  fixes begun :: "'a multiset"
  assumes "begun = calls + keys + done" "keys = rest + took" "new + took + gone = armed + gave + fin" "calls' + gone = calls + armed"
  shows "begun + new = calls' + (rest + gave) + (done + fin)"
proof (rule multiset_eqI)
  fix k
  show "Multiset.count (begun + new) k = Multiset.count (calls' + (rest + gave) + (done + fin)) k"
    using assms(1,2) arg_cong [OF assms(3), of "\<lambda>m. Multiset.count m k"] arg_cong [OF assms(4), of "\<lambda>m. Multiset.count m k"] by simp
qed

text \<open>The tasks of \<open>before\<close> are done; the others are still there.\<close>

lemma in_advanced: "t \<in># ts \<Longrightarrow> t \<notin># before \<Longrightarrow> t \<in># ts - before + after"
  by (auto simp: in_diff_count not_in_iff)

lemma key_advance:
  assumes K: "key_inv sy" and before: "before \<subseteq># sy_tasks sy"
    and calls: "open_of s + gone = open_of (sy_state sy) + ef_armed ef"
    and balance: "ef_begun ef + task_keys before + image_mset snd gone = image_mset snd (ef_armed ef) + task_keys after + ef_ended ef"
    and fresh: "\<And>k. k \<in># ef_begun ef \<Longrightarrow> ef_begun ef = {#k#} \<and> k \<notin># sy_begun sy \<and> tk_generation k \<le> st_generation s"
    and gen: "st_generation (sy_state sy) \<le> st_generation s"
    and lost: "\<And>g. g \<in># ef_lost ef \<Longrightarrow> g \<le> st_generation s"
    and ended: "ef_answered ef \<subseteq># ef_ended ef" "\<And>dl k. UntimeTask dl k \<in># after \<Longrightarrow> k \<in># ef_ended ef"
    and stop: "StopTask \<in># after \<Longrightarrow> st_closed s" "st_closed (sy_state sy) \<Longrightarrow> st_closed s"
  shows "key_inv (advance s before after ef sy)"
proof (rule key_invI, simp_all only: advance_simps)
  have *: "image_mset snd (open_of s) + image_mset snd gone = image_mset snd (open_of (sy_state sy)) + image_mset snd (ef_armed ef)"
    using arg_cong [OF calls, of "image_mset snd"] by simp
  show "sy_begun sy + ef_begun ef = image_mset snd (open_of s) + task_keys (sy_tasks sy - before + after) + (sy_ended sy + ef_ended ef)"
    using mset_balance [OF key_invD(1) [OF K] task_keys_diff [OF before] balance *] by simp
  show "Multiset.count (sy_begun sy + ef_begun ef) k \<le> 1" for k
    using key_invD(2) [OF K, of k] fresh [of k] by (cases "k \<in># ef_begun ef") (auto simp: not_in_iff)
  show "tk_generation k \<le> st_generation s" if "k \<in># sy_begun sy + ef_begun ef" for k
    using that key_invD(3) [OF K, of k] fresh [of k] gen by auto
  show "g \<le> st_generation s" if "g \<in># sy_lost sy + ef_lost ef" for g
    using that key_invD(4) [OF K, of g] lost [of g] gen by auto
  show "k \<in># sy_ended sy + ef_ended ef" if "UntimeTask dl k \<in># sy_tasks sy - before + after" for dl k
    using that key_invD(5) [OF K, of dl k] ended(2) [of dl k] by (auto dest: in_diffD)
  show "sy_answered sy + ef_answered ef \<subseteq># sy_ended sy + ef_ended ef"
    using key_invD(6) [OF K] ended(1) by (rule subset_mset.add_mono)
  show "st_closed s" if "StopTask \<in># sy_tasks sy - before + after"
    using that key_invD(7) [OF K] stop by (auto dest: in_diffD)
qed

lemma wake_advance:
  assumes W: "wake_inv sy" and before: "\<And>t. t \<in># before \<Longrightarrow> \<not> waker_task t"
    and same: "st_closed (sy_state sy) \<Longrightarrow> st_closed s" "st_waker s \<Longrightarrow> st_waker (sy_state sy)"
      "st_wake_pending s \<Longrightarrow> st_wake_pending (sy_state sy)"
    and report: "to_report s \<Longrightarrow> to_report (sy_state sy) \<or> SignalTask \<in># after \<or> st_closed s"
  shows "wake_inv (advance s before after ef sy)"
proof -
  have m: "waking (sy_tasks sy) \<Longrightarrow> waking (sy_tasks sy - before + after)"
    by (erule waking_mono) (metis in_advanced before)
  have "SignalTask \<in># sy_tasks sy \<Longrightarrow> SignalTask \<in># sy_tasks sy - before + after"
    using before [of SignalTask] in_advanced [of SignalTask] by (auto simp: waker_task_def)
  then show ?thesis using W m same report by (auto simp: wake_inv_def)
qed

text \<open>A region on the live document.\<close>

lemma region_inv:
  assumes inv: "ipc_inv c sy" and doc: "st_document (sy_state sy) = Some d"
    and tasks: "before \<subseteq># sy_tasks sy" "\<And>t. t \<in># before \<Longrightarrow> \<not> waker_task t"
    and s: "s = (sy_state sy)\<lparr>st_document := Some d'\<rparr>"
    and moves: "doc_moves c (held (dc_generation d) (advance s before after ef sy)) d gone (ef_armed ef) d'"
    and balance: "ef_begun ef + task_keys before + image_mset snd gone = image_mset snd (ef_armed ef) + task_keys after + ef_ended ef"
    and fresh: "\<And>k. k \<in># ef_begun ef \<Longrightarrow> ef_begun ef = {#k#} \<and> tk_generation k = dc_generation d \<and> \<not> handed_out d k \<and> handed_out d' k"
    and lost: "\<And>g. g \<in># ef_lost ef \<Longrightarrow> g \<le> st_generation (sy_state sy)"
    and ended: "ef_answered ef \<subseteq># ef_ended ef" "\<And>dl k. UntimeTask dl k \<in># after \<Longrightarrow> k \<in># ef_ended ef" "StopTask \<notin># after"
    and timeout: "\<And>k. TimeoutTask k \<in># before \<Longrightarrow> k \<notin># image_mset snd (open_calls d')"
    and wakes: "dc_ready d' \<Longrightarrow> dc_ready d \<or> SignalTask \<in># after"
  shows "ipc_inv c (advance s before after ef sy)"
proof -
  let ?sy = "advance s before after ef sy"
  have D: "doc_inv c sy d" and K: "key_inv sy" and W: "wake_inv sy" and A: "admission_inv c sy"
    using inv doc by (simp_all add: ipc_inv_def)
  have "doc_inv c ?sy d'"
  proof -
    have "(dl, k) \<in> sy_timer ?sy \<or> TimeoutTask k \<in># sy_tasks ?sy" if "(dl, k) \<in># open_calls d'" for dl k
    proof -
      have "(dl, k) \<in># open_calls d + ef_armed ef"
        using that moves unfolding doc_moves_def by (metis union_iff)
      moreover have "k \<in># image_mset snd (open_calls d')" using that by force
      ultimately show ?thesis
        using doc_invD(8) [OF D, of dl k] timeout [of k] in_advanced [of "TimeoutTask k" "sy_tasks sy" before after] by auto
    qed
    moreover have "handed_out d' k" if "k \<in># sy_begun ?sy" "tk_generation k = dc_generation d'" for k
    proof (cases "k \<in># ef_begun ef")
      case False
      then have "handed_out d k" using that doc_invD(7) [OF D, of k] moves by (simp add: doc_moves_def)
      then show ?thesis using moves by (auto simp: doc_moves_def handed_out_def split: if_splits)
    qed (use fresh in auto)
    ultimately show ?thesis using D moves s by (auto simp: doc_inv_def doc_moves_def)
  qed
  moreover have "key_inv ?sy"
  proof (rule key_advance [where gone = gone])
    show "open_of s + gone = open_of (sy_state sy) + ef_armed ef" using moves doc s by (simp add: open_of_def doc_moves_def)
    show "ef_begun ef = {#k#} \<and> k \<notin># sy_begun sy \<and> tk_generation k \<le> st_generation s" if "k \<in># ef_begun ef" for k
      using fresh [OF that] doc_invD(3) [OF D] doc_invD(7) [OF D, of k] s by auto
  qed (use K tasks balance lost ended s in auto)
  moreover have "wake_inv ?sy"
    using W tasks(2) wakes doc s by (intro wake_advance) (auto simp: to_report_def)
  moreover have "admission_inv c ?sy" using A doc_invD(6) [OF D] s by (simp add: admission_inv_def)
  ultimately show ?thesis using s by (simp add: ipc_inv_def)
qed

text \<open>A step of the tasks alone: calls that were still to be opened end.\<close>

lemma idle_inv:
  assumes inv: "ipc_inv c sy" and tasks: "before \<subseteq># sy_tasks sy" "\<And>t. t \<in># before \<Longrightarrow> \<not> waker_task t"
    and ef: "ef_begun ef = {#}" "ef_armed ef = {#}" "task_keys before = task_keys after + ef_ended ef"
    and lost: "\<And>g. g \<in># ef_lost ef \<Longrightarrow> g \<le> st_generation (sy_state sy)"
    and held: "\<And>d. st_document (sy_state sy) = Some d \<Longrightarrow>
      held (dc_generation d) (advance (sy_state sy) before after ef sy) = held (dc_generation d) sy"
    and ended: "ef_answered ef \<subseteq># ef_ended ef" "\<And>dl k. UntimeTask dl k \<in># after \<Longrightarrow> k \<in># ef_ended ef" "StopTask \<notin># after"
    and timeout: "\<And>k. TimeoutTask k \<in># before \<Longrightarrow> k \<notin># image_mset snd (open_of (sy_state sy))"
  shows "ipc_inv c (advance (sy_state sy) before after ef sy)"
proof (cases "st_document (sy_state sy)")
  case None
  have "key_inv (advance (sy_state sy) before after ef sy)"
    by (rule key_advance [where gone = "{#}"]) (use inv tasks ef lost ended in \<open>auto simp: ipc_inv_def\<close>)
  moreover have "wake_inv (advance (sy_state sy) before after ef sy)"
    by (rule wake_advance) (use inv tasks in \<open>auto simp: ipc_inv_def\<close>)
  ultimately show ?thesis using inv None by (simp add: ipc_inv_def admission_inv_def)
next
  case (Some d)
  show ?thesis
  proof (rule region_inv [where d = d and d' = d and gone = "{#}"])
    show "doc_moves c (held (dc_generation d) (advance (sy_state sy) before after ef sy)) d {#} (ef_armed ef) d"
      using inv Some held [OF Some] doc_moves_refl doc_invD(1) ef(2) by (auto simp: ipc_inv_def)
  qed (use inv Some tasks ef lost ended timeout in \<open>auto simp: open_of_def\<close>)
qed

section \<open>Steps keep the invariant\<close>

lemma with_documentE:
  assumes "with_document gen f s = (r, s')"
  obtains (live) d d' where "st_document s = Some d" "dc_generation d = gen" "f d = (r, d')" "s' = s\<lparr>st_document := Some d'\<rparr>"
    | (gone) e where "r = Inl e" "s' = s" "\<And>d. st_document s = Some d \<Longrightarrow> dc_generation d \<noteq> gen \<or> st_closed s"
proof (cases "core_document gen s")
  case (Inl e)
  then show thesis using assms gone by (fastforce simp: with_document_def core_document_def split: if_splits option.splits)
next
  case (Inr d)
  obtain r' d' where "f d = (r', d')" by fastforce
  with Inr show thesis using assms live [of d d'] by (auto simp: with_document_def core_document_def split: if_splits option.splits)
qed

lemma same_document [simp]: "st_document s = Some d \<Longrightarrow> s\<lparr>st_document := Some d\<rparr> = s"
  by (cases s) simp

lemma held_same [simp]: "held g (sy\<lparr>sy_timer := x\<rparr>) = held g sy" "held g (sy\<lparr>sy_told := b\<rparr>) = held g sy" "held g (sy\<lparr>sy_admissions := l\<rparr>) = held g sy"
  by (simp_all add: held_def)

lemma filter_none: "(\<And>t. t \<in># ts \<Longrightarrow> \<not> P t) \<Longrightarrow> filter_mset P ts = {#}"
  by (induction ts) auto

lemma held_advance:
  assumes "before \<subseteq># sy_tasks sy"
  shows "held gen (advance s before after ef sy) + size (filter_mset (reserves gen) before)
    = held gen sy + size (filter_mset (reserves gen) after) + Multiset.count (ef_lost ef) gen"
proof -
  have "size (filter_mset (reserves gen) (sy_tasks sy - before)) + size (filter_mset (reserves gen) before) = size (filter_mset (reserves gen) (sy_tasks sy))"
    using assms by (metis filter_union_mset size_union subset_mset.diff_add)
  then show ?thesis by (simp add: held_def)
qed

text \<open>Tasks that hold no reservation, stand for no call, and neither time out, remove a deadline nor stop the timer.\<close>

fun plain :: "ipc_task \<Rightarrow> bool" where
  "plain SignalTask \<longleftrightarrow> True" | "plain WakeTask \<longleftrightarrow> True" | "plain ControlTask \<longleftrightarrow> True" | "plain (RetireTask _ _) \<longleftrightarrow> True"
| "plain (FrameTask _ _) \<longleftrightarrow> True" | "plain (DrainTask _) \<longleftrightarrow> True" | "plain (GuardTask _) \<longleftrightarrow> True" | "plain _ \<longleftrightarrow> False"

lemma plain_task: "plain t \<Longrightarrow> task_key t = None \<and> \<not> reserves gen t \<and> t \<noteq> StopTask \<and> t \<noteq> TimeoutTask k \<and> t \<noteq> UntimeTask dl k"
  by (cases t) auto

lemma plain_tasks:
  assumes "\<And>t. t \<in># ts \<Longrightarrow> plain t"
  shows "task_keys ts = {#}" "filter_mset (reserves gen) ts = {#}" "StopTask \<notin># ts" "TimeoutTask k \<notin># ts" "UntimeTask dl k \<notin># ts"
proof -
  have "filter_mset (\<lambda>t. task_key t \<noteq> None) ts = {#}"
    using assms plain_task by (intro filter_none) simp
  then show "task_keys ts = {#}" by (simp add: task_keys_def)
  show "filter_mset (reserves gen) ts = {#}" using assms plain_task by (intro filter_none) simp
  show "StopTask \<notin># ts" "TimeoutTask k \<notin># ts" "UntimeTask dl k \<notin># ts" using assms plain_task by blast+
qed

lemma ipc_invD:
  assumes "ipc_inv c sy"
  shows "st_document (sy_state sy) = Some d \<Longrightarrow> doc_inv c sy d" "key_inv sy" "wake_inv sy" "admission_inv c sy"
  using assms by (simp_all add: ipc_inv_def)

text \<open>A region that opens and closes no call.\<close>

lemma quiet_inv:
  assumes inv: "ipc_inv c sy" and out: "with_document gen f (sy_state sy) = (r, s)"
    and moves: "\<And>d x. doc_ok c x d \<Longrightarrow> doc_moves c x d {#} {#} (snd (f d))"
    and quiet: "SignalTask \<in># after \<or> (\<forall>d x. doc_ok c x d \<longrightarrow> dc_ready (snd (f d)) = dc_ready d)"
    and tasks: "before \<subseteq># sy_tasks sy" "\<And>t. t \<in># before \<Longrightarrow> plain t \<and> \<not> waker_task t" "\<And>t. t \<in># after \<Longrightarrow> plain t"
  shows "ipc_inv c (advance s before after no_effect sy)"
proof -
  note p = plain_tasks [of before, OF conjunct1 [OF tasks(2)]] plain_tasks [of after, OF tasks(3)]
  have held: "held g (advance s' before after no_effect sy) = held g sy" for g s'
    using held_advance [OF tasks(1), of g s' after no_effect] p(2) [of g] p(7) [of g] by simp
  from out show ?thesis
  proof (cases rule: with_documentE)
    case (live d d')
    show ?thesis
    proof (rule region_inv [OF inv live(1) tasks(1) _ live(4), where gone = "{#}"])
      show "doc_moves c (held (dc_generation d) (advance s before after no_effect sy)) d {#} (ef_armed no_effect) d'"
        using moves [OF doc_invD(1) [OF ipc_invD(1) [OF inv live(1)]]] live(3) held by simp
      show "dc_ready d' \<Longrightarrow> dc_ready d \<or> SignalTask \<in># after"
        using quiet live(3) doc_invD(1) [OF ipc_invD(1) [OF inv live(1)]] by (metis snd_conv)
    qed (use tasks p in auto)
  next
    case gone
    show ?thesis unfolding gone(2)
      by (rule idle_inv) (use inv tasks p held in auto)
  qed
qed

text \<open>The keys of open calls.\<close>

lemma open_calls_generation: "(dl, k) \<in># open_calls d \<Longrightarrow> tk_generation k = dc_generation d"
  by (auto simp: open_calls_def local_calls_def peer_calls_def local_key_def peer_key_def)

lemma open_calls_local: "(dl, local_key gen i) \<in># open_calls d \<Longrightarrow> i \<in> fst ` set (dc_pending d)"
  by (force simp: open_calls_def local_calls_def peer_calls_def local_key_def peer_key_def)

lemma open_calls_peer: "(dl, peer_key gen i) \<in># open_calls d \<Longrightarrow> i \<in> fst ` set (dc_incoming d)"
  by (force simp: open_calls_def local_calls_def peer_calls_def local_key_def peer_key_def)

text \<open>A region that closes a call.\<close>

lemma close_inv:
  assumes inv: "ipc_inv c sy" and out: "with_document gen f (sy_state sy) = (Inr (Some dl), s)"
    and closes: "\<And>d x. doc_ok c x d \<Longrightarrow> dc_generation d = gen \<Longrightarrow> closes_call c x key i d (f d)"
    and quiet: "SignalTask \<in># after \<or> (\<forall>d. dc_ready (snd (f d)) = dc_ready d)"
    and tasks: "before \<subseteq># sy_tasks sy" "\<And>t. t \<in># before \<Longrightarrow> plain t \<and> \<not> waker_task t \<or> t = TimeoutTask (key i)"
      "\<And>t. t \<in># after \<Longrightarrow> t = SignalTask \<or> t = UntimeTask dl (key i)"
    and ef: "ef \<in> {ended (key i), answered (key i)}"
  shows "ipc_inv c (advance s before after ef sy)"
proof -
  have "task_key t = None \<and> \<not> reserves g t" if "t \<in># before + after" for t g
    using that tasks(2,3) [of t] plain_task [of t] by auto
  then have keys: "task_keys before = {#}" "task_keys after = {#}" "filter_mset (reserves g) before = {#}" "filter_mset (reserves g) after = {#}" for g
    by (auto simp: task_keys_def intro!: filter_none)
  have held: "held g (advance s before after ef sy) = held g sy" for g
    using held_advance [OF tasks(1), of g s after ef] keys(3,4) [of g] ef by auto
  from out show ?thesis
  proof (cases rule: with_documentE)
    case (live d d')
    note D = ipc_invD(1) [OF inv live(1)] and K = ipc_invD(2) [OF inv]
    have m: "doc_moves c (held gen sy) d {#(dl, key i)#} {#} d'"
      using closes [OF doc_invD(1) [OF D] live(2)] live(2,3) by (simp add: closes_call_def)
    have once: "key i \<notin># image_mset snd (open_calls d')"
    proof -
      have "open_calls d' + {#(dl, key i)#} = open_calls d" using m by (simp add: doc_moves_def)
      from arg_cong [OF this, of "\<lambda>cs. Multiset.count (image_mset snd cs) (key i)"]
      have "Suc (Multiset.count (image_mset snd (open_calls d')) (key i)) = Multiset.count (image_mset snd (open_calls d)) (key i)" by simp
      moreover have "Multiset.count (image_mset snd (open_calls d)) (key i) \<le> Multiset.count (sy_begun sy) (key i)"
        using key_invD(1) [OF K] live(1) by (simp add: open_of_def)
      ultimately have "Multiset.count (image_mset snd (open_calls d')) (key i) = 0" using key_invD(2) [OF K, of "key i"] by linarith
      then show ?thesis by (simp only: not_in_iff)
    qed
    show ?thesis
    proof (rule region_inv [OF inv live(1) tasks(1) _ live(4), where gone = "{#(dl, key i)#}"])
      show "doc_moves c (held (dc_generation d) (advance s before after ef sy)) d {#(dl, key i)#} (ef_armed ef) d'"
        using m held ef live(2) by auto
      show "\<not> waker_task t" if "t \<in># before" for t using tasks(2) [OF that] by (auto simp: waker_task_def)
      show "k \<notin># image_mset snd (open_calls d')" if "TimeoutTask k \<in># before" for k
        using tasks(2) [OF that] once plain_task by auto
      show "k \<in># ef_ended ef" if "UntimeTask dl' k \<in># after" for dl' k using tasks(3) [OF that] ef by auto
      show "dc_ready d' \<Longrightarrow> dc_ready d \<or> SignalTask \<in># after" using quiet live(3) by (metis snd_conv)
    qed (use tasks(3) keys ef in auto)
  qed auto
qed

subsection \<open>Frames of the renderer\<close>

lemma frame_key_task: "task_key (RequestTask f n) = Some (frame_key f)" "task_key (NotifyTask f) = Some (frame_key f)"
  "task_key (AcceptTask f) = Some (frame_key f)"
  by (simp_all add: frame_key_def)

lemma waker_task_simps [simp]:
  "waker_task SignalTask" "waker_task WakeTask" "waker_task ControlTask" "waker_task (RetireTask code b) \<longleftrightarrow> b" "\<not> waker_task StopTask"
  "\<not> waker_task (FrameTask f n)" "\<not> waker_task (RequestTask f n)" "\<not> waker_task (NotifyTask f)" "\<not> waker_task (AcceptTask f)"
  "\<not> waker_task (DrainTask gen)" "\<not> waker_task (GuardTask gen)" "\<not> waker_task (TimeoutTask k)" "\<not> waker_task (UntimeTask dl k)"
  by (auto simp: waker_task_def)

text \<open>A task that was to open a call, or to answer one, ends instead.\<close>

lemma refused_inv:
  assumes inv: "ipc_inv c sy" and t: "t \<in># sy_tasks sy" "task_key t = Some k"
    and held: "\<And>d. st_document (sy_state sy) = Some d \<Longrightarrow> (if reserves (dc_generation d) t then 1 else 0) = Multiset.count (ef_lost ef) (dc_generation d)"
    and ef: "ef \<in> {ended k, (ended k)\<lparr>ef_lost := {#tk_generation k#}\<rparr>}"
  shows "ipc_inv c (advance (sy_state sy) {#t#} {#} ef sy)"
proof (rule idle_inv [OF inv])
  have K: "k \<in># sy_begun sy"
    using key_invD(1) [OF ipc_invD(2) [OF inv]] t by (auto simp: task_keys_def image_iff intro!: bexI [of _ t])
  show "g \<le> st_generation (sy_state sy)" if "g \<in># ef_lost ef" for g
    using that ef key_invD(3) [OF ipc_invD(2) [OF inv] K] by auto
  show "held (dc_generation d) (advance (sy_state sy) {#t#} {#} ef sy) = held (dc_generation d) sy"
    if "st_document (sy_state sy) = Some d" for d
    using held_advance [of "{#t#}" sy "dc_generation d" "sy_state sy" "{#}" ef] held [OF that] t(1) by (auto split: if_splits)
qed (use t ef in \<open>auto simp: waker_task_def\<close>)

lemma frame_key_simps [simp]: "tk_generation (frame_key f) = generation f" "tk_local (frame_key f) = False" "tk_id (frame_key f) = frame_id f"
  by (simp_all add: frame_key_def peer_key_def)

lemma key_simps [simp]:
  "tk_generation (local_key g i) = g" "tk_local (local_key g i) = True" "tk_id (local_key g i) = i"
  "tk_generation (peer_key g i) = g" "tk_local (peer_key g i) = False" "tk_id (peer_key g i) = i"
  by (simp_all add: local_key_def peer_key_def)

lemma invoke_inv:
  assumes inv: "ipc_inv c sy" and L: "limits_ok (limits_of c)" and t: "FrameTask f received \<in># sy_tasks sy"
    and out: "with_document (generation f) (invoke c grant memory f) (sy_state sy) = (r, s)"
  shows "ipc_inv c (case r of
      Inl _ \<Rightarrow> advance s {#FrameTask f received#} {#} no_effect sy
    | Inr False \<Rightarrow> advance s {#FrameTask f received#} {#SignalTask#} ((answered (frame_key f))\<lparr>ef_begun := {#frame_key f#}\<rparr>) sy
    | Inr True \<Rightarrow> advance s {#FrameTask f received#}
        {#if frame_kind f = kind_i32 KRequest then RequestTask f received else NotifyTask f#} (no_effect\<lparr>ef_begun := {#frame_key f#}\<rparr>) sy)"
  using out
proof (cases rule: with_documentE)
  case (live d d')
  note D = ipc_invD(1) [OF inv live(1)] and m = invoke_moves [OF L doc_invD(1) [OF ipc_invD(1) [OF inv live(1)]] live(3)]
  have held: "held g (advance s {#FrameTask f received#} after ef sy) = held g sy"
    if "filter_mset (reserves g) after = {#}" "ef_lost ef = {#}" for g after ef
    using held_advance [of "{#FrameTask f received#}" sy g s after ef] t that by simp
  consider e where "r = Inl e" | "r = Inr False" | "r = Inr True" by (cases r) auto
  then show ?thesis
  proof cases
    case 1
    have "ipc_inv c (advance s {#FrameTask f received#} {#} no_effect sy)"
      by (rule region_inv [OF inv live(1) _ _ live(4), where gone = "{#}"]) (use m t 1 held in auto)
    then show ?thesis using 1 by simp
  next
    case 2
    have "dc_last_peer_id d < frame_id f \<and> frame_id f \<le> dc_last_peer_id d'"
      using live(3) 2 by (auto simp: invoke_def Let_def not_le enqueue_control_same reservation_def split: if_splits sum.splits)
    then have "ipc_inv c (advance s {#FrameTask f received#} {#SignalTask#} ((answered (frame_key f))\<lparr>ef_begun := {#frame_key f#}\<rparr>) sy)"
      by (intro region_inv [OF inv live(1) _ _ live(4), where gone = "{#}"]) (use m t live(2) held in \<open>auto simp: handed_out_def not_le\<close>)
    then show ?thesis using 2 by simp
  next
    case 3
    have "ipc_inv c (advance s {#FrameTask f received#}
        {#if frame_kind f = kind_i32 KRequest then RequestTask f received else NotifyTask f#} (no_effect\<lparr>ef_begun := {#frame_key f#}\<rparr>) sy)"
      by (intro region_inv [OF inv live(1) _ _ live(4), where gone = "{#}"])
        (use m t live(2) 3 held in \<open>auto simp: handed_out_def not_le frame_key_def split: if_splits\<close>)
    then show ?thesis using 3 by simp
  qed
next
  case (gone e)
  have "held g (advance (sy_state sy) {#FrameTask f received#} {#} no_effect sy) = held g sy" for g
    using held_advance [of "{#FrameTask f received#}" sy g "sy_state sy" "{#}" no_effect] t by simp
  then have "ipc_inv c (advance s {#FrameTask f received#} {#} no_effect sy)"
    unfolding gone(2) by (intro idle_inv [OF inv]) (use t in auto)
  then show ?thesis using gone(1) by simp
qed

lemma begun_task: "key_inv sy \<Longrightarrow> t \<in># sy_tasks sy \<Longrightarrow> task_key t = Some k \<Longrightarrow> k \<in># sy_begun sy"
  by (force simp: key_invD(1) task_keys_def)

text \<open>A call that a task is still to open, or that has ended, is not open.\<close>

lemma key_not_open:
  assumes "key_inv sy" "k \<in># task_keys (sy_tasks sy) + sy_ended sy"
  shows "k \<notin># image_mset snd (open_of (sy_state sy))"
proof -
  have "1 \<le> Multiset.count (task_keys (sy_tasks sy) + sy_ended sy) k" using assms(2) by (simp only: count_greater_eq_one_iff)
  moreover have "Multiset.count (image_mset snd (open_of (sy_state sy))) k + Multiset.count (task_keys (sy_tasks sy) + sy_ended sy) k \<le> 1"
    using key_invD(2) [OF assms(1), of k] arg_cong [OF key_invD(1) [OF assms(1)], of "\<lambda>m. Multiset.count m k"] by simp
  ultimately have "Multiset.count (image_mset snd (open_of (sy_state sy))) k = 0" by linarith
  then show ?thesis by (simp only: not_in_iff)
qed

lemma task_key_not_open:
  "key_inv sy \<Longrightarrow> t \<in># sy_tasks sy \<Longrightarrow> task_key t = Some k \<Longrightarrow> k \<notin># image_mset snd (open_of (sy_state sy))"
  by (rule key_not_open) (force simp: task_keys_def)+

lemma incoming_open: "i \<in> fst ` set (dc_incoming d) \<Longrightarrow> peer_key (dc_generation d) i \<in># image_mset snd (open_calls d)"
  by (force simp: open_calls_def peer_calls_def)

lemma pending_open: "i \<in> fst ` set (dc_pending d) \<Longrightarrow> local_key (dc_generation d) i \<in># image_mset snd (open_calls d)"
  by (force simp: open_calls_def local_calls_def)

lemma request_inv:
  assumes inv: "ipc_inv c sy" and t: "RequestTask f received \<in># sy_tasks sy"
    and out: "with_document (generation f) (request c grant dl f) (sy_state sy) = (r, s)"
  shows "ipc_inv c (case r of
      Inl _ \<Rightarrow> advance s {#RequestTask f received#} {#} (ended (frame_key f)) sy
    | Inr _ \<Rightarrow> advance s {#RequestTask f received#} {#} (no_effect\<lparr>ef_armed := {#(dl, frame_key f)#}\<rparr>) sy)"
proof -
  have refused: "ipc_inv c (advance (sy_state sy) {#RequestTask f received#} {#} (ended (frame_key f)) sy)"
    by (rule refused_inv [OF inv t frame_key_task(1)]) simp_all
  from out show ?thesis
  proof (cases rule: with_documentE)
    case (live d d')
    note D = ipc_invD(1) [OF inv live(1)]
    have "frame_id f \<notin> fst ` set (dc_incoming d)"
      using task_key_not_open [OF ipc_invD(2) [OF inv] t, of "frame_key f"] incoming_open [of "frame_id f" d] live(1,2)
      by (auto simp: frame_key_def open_of_def)
    note m = request_moves [OF doc_invD(1) [OF D] live(3) this]
    have held: "held g (advance s {#RequestTask f received#} {#} ef sy) = held g sy" if "ef_lost ef = {#}" for g ef
      using held_advance [of "{#RequestTask f received#}" sy g s "{#}" ef] t that by simp
    show ?thesis
    proof (cases r)
      case (Inl e)
      then show ?thesis using m(1) refused live(1,4) by simp
    next
      case (Inr u)
      have "ipc_inv c (advance s {#RequestTask f received#} {#} (no_effect\<lparr>ef_armed := {#(dl, frame_key f)#}\<rparr>) sy)"
        by (intro region_inv [OF inv live(1) _ _ live(4), where gone = "{#}"])
          (use m Inr t live(2) held in \<open>auto simp: frame_key_def\<close>)
      then show ?thesis using Inr by simp
    qed
  qed (use refused in auto)
qed

lemma notify_inv:
  assumes inv: "ipc_inv c sy" and t: "NotifyTask f \<in># sy_tasks sy"
    and out: "with_document (generation f) (notify c tasks callbacks notifications grant f) (sy_state sy) = (r, s)"
  shows "ipc_inv c (case r of
      Inl _ \<Rightarrow> advance s {#NotifyTask f#} {#} (ended (frame_key f)) sy
    | Inr _ \<Rightarrow> if spawned then advance s {#NotifyTask f#} {#AcceptTask f#} no_effect sy
        else advance s {#NotifyTask f#} {#} ((ended (frame_key f))\<lparr>ef_lost := {#generation f#}\<rparr>) sy)"
proof -
  have refused: "ipc_inv c (advance (sy_state sy) {#NotifyTask f#} {#} (ended (frame_key f)) sy)"
    by (rule refused_inv [OF inv t frame_key_task(2)]) simp_all
  from out show ?thesis
  proof (cases rule: with_documentE)
    case (live d d')
    note D = ipc_invD(1) [OF inv live(1)]
    note m = notify_moves [OF doc_invD(1) [OF D] live(3)]
    have held: "held g (advance s {#NotifyTask f#} after ef sy) = held g sy + size (filter_mset (reserves g) after) + Multiset.count (ef_lost ef) g" for g after ef
      using held_advance [of "{#NotifyTask f#}" sy g s after ef] t by simp
    show ?thesis
    proof (cases r)
      case (Inl e)
      then show ?thesis using m(1) refused live(1,4) by simp
    next
      case (Inr u)
      have "ipc_inv c (advance s {#NotifyTask f#} {#AcceptTask f#} no_effect sy)"
        by (intro region_inv [OF inv live(1) _ _ live(4), where gone = "{#}"]) (use m Inr t live(2) held in auto)
      moreover have "ipc_inv c (advance s {#NotifyTask f#} {#} ((ended (frame_key f))\<lparr>ef_lost := {#generation f#}\<rparr>) sy)"
        by (intro region_inv [OF inv live(1) _ _ live(4), where gone = "{#}"])
          (use m Inr t live(2) held doc_invD(3) [OF D] in \<open>auto simp: frame_key_def\<close>)
      ultimately show ?thesis using Inr by simp
    qed
  qed (use refused in auto)
qed

lemma accept_inv:
  assumes inv: "ipc_inv c sy" and L: "limits_ok (limits_of c)" and t: "AcceptTask f \<in># sy_tasks sy"
    and out: "with_document (generation f) (notify_accept c memory (frame_id f) v) (sy_state sy) = (r, s)"
  shows "ipc_inv c (case r of
      Inl _ \<Rightarrow> advance s {#AcceptTask f#} {#} (ended (frame_key f)) sy
    | Inr _ \<Rightarrow> advance s {#AcceptTask f#} (add_mset SignalTask (if spawned then {#} else {#RetireTask Transport True#})) (answered (frame_key f)) sy)"
  using out
proof (cases rule: with_documentE)
  case (live d d')
  note D = ipc_invD(1) [OF inv live(1)]
  let ?after = "add_mset SignalTask (if spawned then {#} else {#RetireTask Transport True#})"
  have held: "held (generation f) sy = Suc (held (generation f) (advance s {#AcceptTask f#} ?after (answered (frame_key f)) sy))"
    using held_advance [of "{#AcceptTask f#}" sy "generation f" s ?after "answered (frame_key f)"] t by simp
  have "doc_moves c (held (generation f) (advance s {#AcceptTask f#} ?after (answered (frame_key f)) sy)) d {#} {#} d'"
    using notify_accept_moves [OF L, of _ d memory "frame_id f" v] doc_invD(1) [OF D] held live(2,3) by simp
  then have "ipc_inv c (advance s {#AcceptTask f#} ?after (answered (frame_key f)) sy)"
    by (intro region_inv [OF inv live(1) _ _ live(4), where gone = "{#}"])
      (use t live(2) in \<open>auto simp: frame_key_def split: if_splits\<close>)
  moreover have "\<not> isl r" using live(3) by (auto simp: notify_accept_def)
  ultimately show ?thesis by (auto split: sum.splits)
next
  case (gone e)
  have "\<not> reserves (dc_generation d) (AcceptTask f)" if "st_document (sy_state sy) = Some d" for d
    using gone(3) [OF that] doc_invD(6) [OF ipc_invD(1) [OF inv that]] by auto
  then have "ipc_inv c (advance (sy_state sy) {#AcceptTask f#} {#} (ended (frame_key f)) sy)"
    by (intro refused_inv [OF inv t frame_key_task(3)]) auto
  then show ?thesis using gone by simp
qed

lemma prepare_inv:
  assumes inv: "ipc_inv c sy" and out: "with_document gen (prepare c grant kind dl) (sy_state sy) = (Inr r, s)"
  shows "ipc_inv c (case r of
      None \<Rightarrow> advance s {#} {#RetireTask Closed False#} no_effect sy
    | Some i \<Rightarrow> advance s {#} {#} (no_effect\<lparr>ef_begun := {#local_key gen i#}, ef_armed := {#(dl, local_key gen i)#}\<rparr>) sy)"
  using out
proof (cases rule: with_documentE)
  case (live d d')
  note D = ipc_invD(1) [OF inv live(1)]
  have "dc_next_id d \<notin> fst ` set (dc_pending d)"
  proof
    assume "dc_next_id d \<in> fst ` set (dc_pending d)"
    from pending_open [OF this] have "local_key (dc_generation d) (dc_next_id d) \<in># sy_begun sy"
      using key_invD(1) [OF ipc_invD(2) [OF inv]] live(1) by (simp add: open_of_def)
    from doc_invD(7) [OF D this] show False by (simp add: handed_out_def)
  qed
  note m = prepare_moves [OF doc_invD(1) [OF D] live(3) this]
  have held: "held g (advance s {#} after ef sy) = held g sy" if "filter_mset (reserves g) after = {#}" "ef_lost ef = {#}" for g after ef
    using held_advance [of "{#}" sy g s after ef] that by simp
  show ?thesis
  proof (cases r)
    case None
    have "ipc_inv c (advance s {#} {#RetireTask Closed False#} no_effect sy)"
      by (intro region_inv [OF inv live(1) _ _ live(4), where gone = "{#}"])
        (use m None held doc_moves_refl [OF doc_invD(1) [OF D]] in auto)
    then show ?thesis using None by simp
  next
    case (Some i)
    have "ipc_inv c (advance s {#} {#} (no_effect\<lparr>ef_begun := {#local_key gen i#}, ef_armed := {#(dl, local_key gen i)#}\<rparr>) sy)"
      by (intro region_inv [OF inv live(1) _ _ live(4), where gone = "{#}"]) (use m Some held live(2) in \<open>auto simp: handed_out_def\<close>)
    then show ?thesis using Some by simp
  qed
qed simp

subsection \<open>Deadlines\<close>

text \<open>A timeout of a call that is not open any more has nothing to do.\<close>

lemma late_timeout_inv:
  assumes inv: "ipc_inv c sy" and t: "TimeoutTask k \<in># sy_tasks sy" and "k \<notin># image_mset snd (open_of (sy_state sy))"
  shows "ipc_inv c (advance (sy_state sy) {#TimeoutTask k#} {#} no_effect sy)"
proof (rule idle_inv [OF inv])
  show "held (dc_generation d) (advance (sy_state sy) {#TimeoutTask k#} {#} no_effect sy) = held (dc_generation d) sy" for d
    using held_advance [of "{#TimeoutTask k#}" sy "dc_generation d" "sy_state sy" "{#}" no_effect] t by simp
qed (use t assms(3) in auto)

lemma map_of_None_key: "map_of xs i = None \<Longrightarrow> i \<notin> fst ` set xs"
  by (simp add: map_of_eq_None_iff)

text \<open>The two halves of \<open>Core::timeout\<close> share this: \<open>f\<close> closes the call \<open>k\<close> if it is open.\<close>

lemma timeout_inv:
  assumes inv: "ipc_inv c sy" and t: "TimeoutTask k \<in># sy_tasks sy"
    and out: "with_document (tk_generation k) f (sy_state sy) = (r, s)"
    and closes: "\<And>d x. doc_ok c x d \<Longrightarrow> dc_generation d = tk_generation k \<Longrightarrow> closes_call c x (\<lambda>_. k) (tk_id k) d (f d)"
    and absent: "\<And>d d' dl. f d = (Inr None, d') \<Longrightarrow> (dl, k) \<notin># open_calls d"
    and after: "\<And>dl t. t \<in># after dl \<Longrightarrow> t = SignalTask \<or> t = UntimeTask dl k" "\<And>dl. SignalTask \<in># after dl"
    and ef: "ef \<in> {ended k, answered k}"
  shows "ipc_inv c (case r of
      Inr (Some dl) \<Rightarrow> advance s {#TimeoutTask k#} (after dl) ef sy
    | _ \<Rightarrow> advance s {#TimeoutTask k#} {#} no_effect sy)"
proof (cases "\<exists>dl. r = Inr (Some dl)")
  case True
  then obtain dl where r: "r = Inr (Some dl)" by blast
  have "ipc_inv c (advance s {#TimeoutTask k#} (after dl) ef sy)"
    by (rule close_inv [OF inv out [unfolded r] closes]) (use t after ef in auto)
  then show ?thesis using r by simp
next
  case False
  have "ipc_inv c (advance s {#TimeoutTask k#} {#} no_effect sy)"
    using out
  proof (cases rule: with_documentE)
    case (live d d')
    have "r = Inr None" "d' = d"
      using closes [OF doc_invD(1) [OF ipc_invD(1) [OF inv live(1)]] live(2)] False live(3)
      by (auto simp: closes_call_def split: sum.splits option.splits)
    moreover from this have "k \<notin># image_mset snd (open_calls d)" using absent live(3) by (auto simp: image_iff)
    ultimately show ?thesis using late_timeout_inv [OF inv t] live(1,4) by (simp add: open_of_def)
  next
    case (gone e)
    have "(dl, k) \<notin># open_of (sy_state sy)" for dl
      using gone(3) open_calls_generation doc_invD(6) [OF ipc_invD(1) [OF inv]] by (fastforce simp: open_of_def split: option.splits)
    then have "k \<notin># image_mset snd (open_of (sy_state sy))" by (auto simp: image_iff)
    then show ?thesis unfolding gone(2) by (rule late_timeout_inv [OF inv t])
  qed
  then show ?thesis using False by (auto split: sum.splits option.splits)
qed

text \<open>The timer loses a deadline: it has fired, or its call has ended.\<close>

lemma timer_inv:
  assumes inv: "ipc_inv c sy"
    and kept: "\<And>d dl k. st_document (sy_state sy) = Some d \<Longrightarrow> (dl, k) \<in># open_calls d \<Longrightarrow> (dl, k) \<in> sy_timer sy \<Longrightarrow>
      (dl, k) \<in> timer \<or> TimeoutTask k \<in># sy_tasks sy"
  shows "ipc_inv c (sy\<lparr>sy_timer := timer\<rparr>)"
proof -
  have "doc_inv c (sy\<lparr>sy_timer := timer\<rparr>) d" if "st_document (sy_state sy) = Some d" for d
    unfolding doc_inv_def using doc_invD [OF ipc_invD(1) [OF inv that]] kept [OF that] by simp blast
  then show ?thesis using inv by (simp add: ipc_inv_def wake_inv_def admission_inv_def)
qed

subsection \<open>Wake-ups\<close>

text \<open>The engine's own fields change and no call does; what is left to show is the wake-up and the renderer's side.\<close>

lemma state_inv:
  assumes inv: "ipc_inv c sy"
    and doc: "map_option (\<lambda>d. d\<lparr>dc_ready := False\<rparr>) (st_document s) = map_option (\<lambda>d. d\<lparr>dc_ready := False\<rparr>) (st_document (sy_state sy))"
    and told: "\<And>d. st_document s = Some d \<Longrightarrow> announced told d"
    and same: "st_generation s = st_generation (sy_state sy)" "st_navigation s = st_navigation (sy_state sy)"
      "st_admitted s = st_admitted (sy_state sy)" "st_closed s = st_closed (sy_state sy)"
      "length (st_waiters s) \<le> max_readiness_waiters (limits_of c)"
    and tasks: "before \<subseteq># sy_tasks sy" "\<And>t. t \<in># before + after \<Longrightarrow> plain t"
    and wake: "wake_inv (advance s before after no_effect sy)"
  shows "ipc_inv c ((advance s before after no_effect sy)\<lparr>sy_told := told\<rparr>)"
proof -
  let ?sy = "(advance s before after no_effect sy)\<lparr>sy_told := told\<rparr>"
  have "plain t" if "t \<in># before" for t using tasks(2) that by simp
  from plain_tasks [OF this] have p: "task_keys before = {#}" "filter_mset (reserves g) before = {#}" "TimeoutTask k \<notin># before" for g k by blast+
  have "plain t" if "t \<in># after" for t using tasks(2) that by simp
  from plain_tasks [OF this] have q: "task_keys after = {#}" "filter_mset (reserves g) after = {#}" "StopTask \<notin># after" "UntimeTask dl k \<notin># after"
    for g dl k by blast+
  have held: "held g ?sy = held g sy" for g
    using held_advance [OF tasks(1), of g s after no_effect] unfolding p(2) q(2) by simp
  have "doc_inv c ?sy d'" if d': "st_document s = Some d'" for d'
  proof -
    from doc d' obtain d where d: "st_document (sy_state sy) = Some d" and eq: "d'\<lparr>dc_ready := False\<rparr> = d\<lparr>dc_ready := False\<rparr>"
      by (cases "st_document (sy_state sy)") auto
    have d'_eq: "d' = d\<lparr>dc_ready := dc_ready d'\<rparr>" using arg_cong [OF eq, of "\<lambda>x. x\<lparr>dc_ready := dc_ready d'\<rparr>"] by simp
    note D = ipc_invD(1) [OF inv d]
    have "(dl, k) \<in> sy_timer sy \<or> TimeoutTask k \<in># sy_tasks sy - before + after" if "(dl, k) \<in># open_calls d" for dl k
      using doc_invD(8) [OF D that] in_advanced p(3) by metis
    moreover have "open_calls d' = open_calls d" by (subst d'_eq) (simp add: open_calls_def local_calls_def peer_calls_def)
    moreover have "doc_ok c x d' = doc_ok c x d" "handed_out d' k = handed_out d k" for x k
      by (subst d'_eq; simp add: doc_defs handed_out_def)+
    moreover have "dc_generation d' = dc_generation d" "dc_navigation d' = dc_navigation d" by (subst d'_eq; simp)+
    ultimately show ?thesis unfolding doc_inv_def using doc_invD [OF D] told [OF d'] same held by simp
  qed
  moreover have "key_inv ?sy"
  proof -
    have "open_of s = open_of (sy_state sy)"
      using doc by (cases "st_document s"; cases "st_document (sy_state sy)")
        (auto simp: open_of_def open_calls_def local_calls_def peer_calls_def dest!: arg_cong [where f = "\<lambda>d. (dc_pending d, dc_incoming d, dc_generation d)"])
    then have "key_inv (advance s before after no_effect sy)"
      using ipc_invD(2) [OF inv] same p q by (intro key_advance [where gone = "{#}"] tasks(1)) auto
    then show ?thesis by simp
  qed
  moreover have "admission_inv c ?sy"
    using ipc_invD(4) [OF inv] same doc by (auto simp: admission_inv_def)
  ultimately show ?thesis using wake by (simp add: ipc_inv_def wake_inv_def)
qed

lemma advance_told [simp]: "(advance s before after ef sy)\<lparr>sy_told := sy_told sy\<rparr> = advance s before after ef sy"
  by (simp add: advance_def)

lemmas untold_inv = state_inv [where told = "sy_told sy" and sy = sy for sy, simplified]

lemma told_doc: "ipc_inv c sy \<Longrightarrow> st_document (sy_state sy) = Some d \<Longrightarrow> announced (sy_told sy) d"
  using doc_invD(2) ipc_invD(1) by blast

lemma waiters_bound: "ipc_inv c sy \<Longrightarrow> length (st_waiters (sy_state sy)) \<le> max_readiness_waiters (limits_of c)"
  using ipc_invD(4) by (simp add: admission_inv_def)

lemma waking_keep:
  assumes "waking ts" "\<And>t. t \<in># before \<Longrightarrow> waker_task t \<Longrightarrow> t = SignalTask"
  shows "waking (ts - before + after)"
proof -
  have "t \<in># ts - before + after" if "t \<in># ts" "waker_task t" "t \<noteq> SignalTask" for t
    using that assms(2) by (intro in_advanced) auto
  from this [of WakeTask] this [of ControlTask] this [of "RetireTask code True" for code] show ?thesis
    using assms(1) unfolding waking_def by auto
qed

lemma signal_inv:
  assumes inv: "ipc_inv c sy" and t: "SignalTask \<in># sy_tasks sy" and out: "engine_signal (sy_state sy) = (wake, s)"
  shows "ipc_inv c (advance s {#SignalTask#} (if wake then {#WakeTask#} else {#}) no_effect sy)"
proof -
  have s: "s = (if wake then (sy_state sy)\<lparr>st_wake_pending := True\<rparr> else sy_state sy)"
    using out by (auto simp: engine_signal_def split: if_splits)
  have "wake_inv (advance s {#SignalTask#} (if wake then {#WakeTask#} else {#}) no_effect sy)"
  proof (cases wake)
    case True
    then show ?thesis by (simp add: wake_inv_def waking_def)
  next
    case False
    then have "st_closed s \<or> st_wake_pending s \<or> \<not> to_report s \<or> \<not> st_waker s"
      using out by (auto simp: engine_signal_def to_report_def split: if_splits option.splits)
    then show ?thesis
      using ipc_invD(3) [OF inv] False s waking_keep [of "sy_tasks sy" "{#SignalTask#}" "{#}"] by (auto simp: wake_inv_def)
  qed
  then show ?thesis
    using s t told_doc [OF inv] waiters_bound [OF inv] by (intro untold_inv [OF inv]) (auto split: if_splits)
qed

lemma wake_step_inv:
  assumes inv: "ipc_inv c sy" and t: "WakeTask \<in># sy_tasks sy" "u \<in> {ControlTask, RetireTask Transport True}"
  shows "ipc_inv c (advance (sy_state sy) {#WakeTask#} {#u#} no_effect sy)"
proof -
  have "wake_inv (advance (sy_state sy) {#WakeTask#} {#u#} no_effect sy)"
    using t(2) by (auto simp: wake_inv_def waking_def)
  then show ?thesis using t told_doc [OF inv] waiters_bound [OF inv] by (intro untold_inv [OF inv]) auto
qed

lemma take_control_doc:
  assumes "take_control s = (r, s')" "st_document s' = Some d"
  shows "st_document s = Some d \<or> (\<exists>gen. r = Some (ControlReady gen))"
  using assms by (auto simp: take_control_def Let_def split: if_splits option.splits)

lemma control_inv:
  assumes inv: "ipc_inv c sy" and t: "ControlTask \<in># sy_tasks sy" and out: "take_control (sy_state sy) = (r, s)"
  shows "ipc_inv c ((advance s {#ControlTask#} (if r = None then {#} else {#ControlTask#}) no_effect sy)
      \<lparr>sy_told := sy_told sy \<or> (\<exists>gen. r = Some (ControlReady gen))\<rparr>)"
proof (rule state_inv [OF inv])
  show "wake_inv (advance s {#ControlTask#} (if r = None then {#} else {#ControlTask#}) no_effect sy)"
  proof -
    have "st_closed s \<or> (\<not> st_wake_pending s \<and> (r = None \<longrightarrow> \<not> to_report s))"
      using out by (auto simp: take_control_def Let_def to_report_def split: if_splits option.splits)
    then show ?thesis by (cases "r = None") (auto simp: wake_inv_def waking_def)
  qed
  show "announced (sy_told sy \<or> (\<exists>gen. r = Some (ControlReady gen))) d" if "st_document s = Some d" for d
    using take_control_doc [OF out that] told_doc [OF inv] by (auto simp: announced_def)
qed (use out t waiters_bound [OF inv] in \<open>auto simp: take_control_def Let_def split: if_splits option.splits\<close>)

lemma attach_inv:
  assumes inv: "ipc_inv c sy" and out: "attach_waker (sy_state sy) = (Inr (), s)"
  shows "ipc_inv c (advance s {#} {#SignalTask#} no_effect sy)"
proof (rule untold_inv [OF inv])
  show "wake_inv (advance s {#} {#SignalTask#} no_effect sy)"
    using ipc_invD(3) [OF inv] out waking_keep [of "sy_tasks sy" "{#}" "{#SignalTask#}"]
    by (auto simp: wake_inv_def attach_waker_def split: if_splits)
qed (use out told_doc [OF inv] waiters_bound [OF inv] in \<open>auto simp: attach_waker_def split: if_splits\<close>)

lemma begin_inv:
  assumes inv: "ipc_inv c sy" and out: "begin_document c active challenge doc nonce (sy_state sy) = (r, s)"
  shows "ipc_inv c (advance s {#} {#} no_effect sy)"
proof (rule untold_inv [OF inv])
  show "wake_inv (advance s {#} {#} no_effect sy)"
    using ipc_invD(3) [OF inv] out by (auto simp: wake_inv_def begin_document_def to_report_def Let_def split: if_splits sum.splits)
qed (use out told_doc [OF inv] waiters_bound [OF inv] in \<open>auto simp: begin_document_def Let_def split: if_splits sum.splits\<close>)

lemma ready_inv:
  assumes inv: "ipc_inv c sy" and out: "ready c cancelled w (sy_state sy) = (r, s)"
  shows "ipc_inv c (advance s {#} {#} no_effect sy)"
proof (rule untold_inv [OF inv])
  show "wake_inv (advance s {#} {#} no_effect sy)"
    using ipc_invD(3) [OF inv] out by (auto simp: wake_inv_def ready_def to_report_def Let_def split: if_splits option.splits)
  show "length (st_waiters s) \<le> max_readiness_waiters (limits_of c)"
    using out waiters_bound [OF inv] order_trans [OF length_filter_le waiters_bound [OF inv], of "\<lambda>x. \<not> cancelled x"]
    by (auto simp: ready_def Let_def split: if_splits option.splits)
qed (use out told_doc [OF inv] in \<open>auto simp: ready_def Let_def split: if_splits option.splits\<close>)

subsection \<open>Retirement and admission\<close>

lemma retire_matching_some:
  assumes "retire_matching code terminal change s = (Inr (Some (doc, waiters)), s')"
  shows "\<not> st_closed s" "doc = st_document s" "st_document s' = None" "st_closed s' = terminal" "\<not> st_wake_pending s'"
    "st_generation s' = st_generation s" "length (st_waiters s') \<le> length (st_waiters s)" "st_waker s' \<Longrightarrow> st_waker s"
    "st_navigation s' = st_navigation s \<and> st_admitted s' = st_admitted s \<or> st_navigation s < st_navigation s' \<and> \<not> st_admitted s'"
  using assms by (auto simp: retire_matching_def Let_def not_le split: if_splits option.splits document_change.splits)

lemma retired_inv:
  assumes inv: "ipc_inv c sy" and out: "retire_matching code terminal change (sy_state sy) = (Inr (Some (doc, waiters)), s)"
    and tasks: "before \<subseteq># sy_tasks sy" "\<And>t. t \<in># before \<Longrightarrow> plain t"
  shows "ipc_inv c (retired terminal doc s before sy)"
proof -
  note f = retire_matching_some [OF out]
  let ?calls = "open_of (sy_state sy)"
  let ?after = "(if terminal then {#StopTask#} else {#SignalTask#}) + image_mset (\<lambda>(dl, k). UntimeTask dl k) ?calls"
  let ?ef = "no_effect\<lparr>ef_ended := image_mset snd ?calls\<rparr>"
  have eq: "retired terminal doc s before sy = advance s before ?after ?ef sy"
    using f(2) by (simp add: retired_def open_of_def Let_def split: option.splits)
  have "task_keys (image_mset (\<lambda>(dl, k). UntimeTask dl k) m) = {#}" for m
    by (induction m) (auto simp: case_prod_unfold)
  then have "task_keys ?after = {#}" by (auto split: if_splits)
  have "key_inv (advance s before ?after ?ef sy)"
  proof (rule key_advance [where gone = ?calls])
    show "open_of s + ?calls = ?calls + ef_armed ?ef" using f(3) by (simp add: open_of_def)
    show "ef_begun ?ef + task_keys before + image_mset snd ?calls = image_mset snd (ef_armed ?ef) + task_keys ?after + ef_ended ?ef"
      using \<open>task_keys ?after = {#}\<close> plain_tasks(1) [OF tasks(2)] by simp
    show "k \<in># ef_ended ?ef" if "UntimeTask dl k \<in># ?after" for dl k using that by (force split: if_splits)
    show "StopTask \<in># ?after \<Longrightarrow> st_closed s" using f(4) by (force split: if_splits)
  qed (use ipc_invD(2) [OF inv] tasks(1) f(1,6) in auto)
  moreover have "wake_inv (advance s before ?after ?ef sy)" using f(4,5) by (auto simp: wake_inv_def)
  moreover have "admission_inv c (advance s before ?after ?ef sy)"
    using ipc_invD(4) [OF inv] f by (auto simp: admission_inv_def)
  ultimately show ?thesis using f(3) by (simp add: eq ipc_inv_def)
qed

text \<open>The configurations that \<open>IpcWindowOwner::new\<close> accepts.\<close>

definition config_ok :: "engine_config \<Rightarrow> bool" where
  "config_ok c \<longleftrightarrow> limits_ok (limits_of c) \<and> length (rg_notifications (cf_registry c)) \<le> max_callbacks_per_document (limits_of c)"

lemma admit_inv:
  assumes inv: "ipc_inv c sy" and C: "config_ok c"
    and out: "admit c active given random now deadline (sy_state sy) = (Inr (gen, waiters), s)"
  shows "ipc_inv c ((advance s {#} {#} no_effect sy)\<lparr>sy_told := False, sy_admissions := sy_admissions sy @ [(st_navigation s, gen)]\<rparr>)"
    (is "ipc_inv c ?sy")
proof -
  let ?s = "sy_state sy" and ?fresh = "document_new (st_navigation (sy_state sy)) gen (hex random)"
  let ?d = "foldl startup_subscription ?fresh (rg_notifications (cf_registry c))"
  have a: "\<not> st_closed ?s" "\<not> st_admitted ?s" "st_generation ?s \<noteq> - 1" "gen = st_generation ?s + 1"
    and s: "s = ?s\<lparr>st_activation := None, st_admitted := True, st_generation := gen, st_document := Some ?d, st_waiters := []\<rparr>"
    using out by (auto simp: admit_def check_activation_def Let_def split: if_splits sum.splits option.splits)
  have none: "st_document ?s = None" using doc_invD(5) [OF ipc_invD(1) [OF inv]] a(2) by (cases "st_document ?s") auto
  have less: "st_generation ?s < gen" using a(3,4) less_plus_one by simp
  have old: "tk_generation k < gen" if "k \<in># sy_begun sy" for k
    using key_invD(3) [OF ipc_invD(2) [OF inv] that] less by simp
  have held: "held gen sy = 0"
  proof -
    have "\<not> reserves gen t" if "t \<in># sy_tasks sy" for t
      using begun_task [OF ipc_invD(2) [OF inv] that] old by (cases t) fastforce+
    then have "filter_mset (reserves gen) (sy_tasks sy) = {#}" by (rule filter_none)
    moreover have "gen \<notin># sy_lost sy" using key_invD(4) [OF ipc_invD(2) [OF inv], of gen] less by auto
    ultimately show ?thesis by (simp add: held_def not_in_iff)
  qed
  have m: "doc_moves c 0 ?fresh {#} {#} ?d"
    using startup_subscriptions [of c 0 ?fresh "rg_notifications (cf_registry c)"] C document_new_ok
    by (simp add: config_ok_def document_new_open)
  have "doc_inv c ?sy ?d"
    unfolding doc_inv_def using m s held old document_new_open [of "st_navigation ?s" gen "hex random"] a(1)
      held_advance [of "{#}" sy gen s "{#}" no_effect]
    by (auto simp: doc_moves_def)
  moreover have "key_inv (advance s {#} {#} no_effect sy)"
    using ipc_invD(2) [OF inv] m s none less document_new_open(1) [of "st_navigation ?s" gen "hex random"]
    by (intro key_advance [where gone = "{#}"]) (auto simp: open_of_def doc_moves_def)
  moreover have "wake_inv (advance s {#} {#} no_effect sy)"
    using ipc_invD(3) [OF inv] s by (intro wake_advance) (auto simp: to_report_def startup_same document_new_open(3))
  moreover have "admission_inv c ?sy"
    using ipc_invD(4) [OF inv] s a less by (fastforce simp: admission_inv_def sorted_wrt_append)
  ultimately show ?thesis using s by (simp add: ipc_inv_def wake_inv_def)
qed

subsection \<open>Every step\<close>

lemma submit_inv:
  assumes inv: "ipc_inv c sy" and "plain t" "\<not> waker_task t"
  shows "ipc_inv c (advance (sy_state sy) {#} {#t#} no_effect sy)"
proof (rule idle_inv [OF inv])
  show "held (dc_generation d) (advance (sy_state sy) {#} {#t#} no_effect sy) = held (dc_generation d) sy" for d
    using held_advance [of "{#}" sy "dc_generation d" "sy_state sy" "{#t#}" no_effect] plain_task [OF assms(2)] by simp
qed (use plain_task [OF assms(2)] in auto)

lemma drain_inv:
  assumes inv: "ipc_inv c sy" and t: "DrainTask gen \<in># sy_tasks sy" and out: "with_document gen (drain c) (sy_state sy) = (r, s)"
  shows "ipc_inv c ((advance s {#DrainTask gen#} (if isl r then {#} else {#GuardTask gen#}) no_effect sy)\<lparr>sy_told := sy_told sy \<and> r \<noteq> Inr None\<rparr>)"
proof -
  let ?sy = "advance s {#DrainTask gen#} (if isl r then {#} else {#GuardTask gen#}) no_effect sy"
  have inv': "ipc_inv c ?sy"
    by (rule quiet_inv [OF inv out]) (use t drain_moves in \<open>auto split: if_splits\<close>)
  have "announced (sy_told sy \<and> r \<noteq> Inr None) d" if "st_document s = Some d" for d
    using out
  proof (cases rule: with_documentE)
    case (live d0 d')
    note m = drain_moves(3) [OF doc_invD(1) [OF ipc_invD(1) [OF inv live(1)]]]
    show ?thesis using told_doc [OF inv', of d] that live(3,4) m by (cases "r = Inr None") (auto simp: announced_def)
  qed (use told_doc [OF inv', of d] that in auto)
  then have "doc_inv c (?sy\<lparr>sy_told := sy_told sy \<and> r \<noteq> Inr None\<rparr>) d" if "st_document s = Some d" for d
    using doc_invD [OF ipc_invD(1) [OF inv'], of d] that unfolding doc_inv_def by simp
  then show ?thesis using inv' by (simp add: ipc_inv_def wake_inv_def admission_inv_def)
qed

lemma cancel_absent: "cancel_local c memory i d = (Inr None, d') \<Longrightarrow> (dl, local_key gen i) \<notin># open_calls d"
  using open_calls_local [of dl gen i d] map_of_None_key [of "dc_pending d" i] by (auto simp: cancel_local_def Let_def split: option.splits)

lemma timeout_absent: "timeout_incoming c memory i d = (Inr None, d') \<Longrightarrow> (dl, peer_key gen i) \<notin># open_calls d"
  using open_calls_peer [of dl gen i d] map_of_None_key [of "dc_incoming d" i] by (auto simp: timeout_incoming_def split: option.splits)

lemma key_eta: "tk_local k \<Longrightarrow> k = local_key (tk_generation k) (tk_id k)" "\<not> tk_local k \<Longrightarrow> k = peer_key (tk_generation k) (tk_id k)"
  by (cases k; simp add: local_key_def peer_key_def)+

lemma untime_inv:
  assumes inv: "ipc_inv c sy" and t: "UntimeTask dl k \<in># sy_tasks sy"
  shows "ipc_inv c ((advance (sy_state sy) {#UntimeTask dl k#} {#} no_effect sy)\<lparr>sy_timer := sy_timer sy - {(dl, k)}\<rparr>)"
proof (rule timer_inv)
  show "ipc_inv c (advance (sy_state sy) {#UntimeTask dl k#} {#} no_effect sy)"
  proof (rule idle_inv [OF inv])
    show "held (dc_generation d) (advance (sy_state sy) {#UntimeTask dl k#} {#} no_effect sy) = held (dc_generation d) sy" for d
      using held_advance [of "{#UntimeTask dl k#}" sy "dc_generation d" "sy_state sy" "{#}" no_effect] t by simp
  qed (use t in auto)
  note K = ipc_invD(2) [OF inv]
  have "k \<notin># image_mset snd (open_of (sy_state sy))" by (rule key_not_open [OF K]) (use key_invD(5) [OF K t] in simp)
  then show "(dl', k') \<in> sy_timer sy - {(dl, k)} \<or> TimeoutTask k' \<in># sy_tasks (advance (sy_state sy) {#UntimeTask dl k#} {#} no_effect sy)"
    if "st_document (sy_state (advance (sy_state sy) {#UntimeTask dl k#} {#} no_effect sy)) = Some d" "(dl', k') \<in># open_calls d"
      "(dl', k') \<in> sy_timer (advance (sy_state sy) {#UntimeTask dl k#} {#} no_effect sy)" for d dl' k'
    using that by (force simp: open_of_def)
qed

lemma fire_inv:
  assumes inv: "ipc_inv c sy"
  shows "ipc_inv c ((advance (sy_state sy) {#} {#TimeoutTask k#} no_effect sy)\<lparr>sy_timer := sy_timer sy - {(dl, k)}\<rparr>)"
proof (rule timer_inv)
  show "ipc_inv c (advance (sy_state sy) {#} {#TimeoutTask k#} no_effect sy)"
  proof (rule idle_inv [OF inv])
    show "held (dc_generation d) (advance (sy_state sy) {#} {#TimeoutTask k#} no_effect sy) = held (dc_generation d) sy" for d
      using held_advance [of "{#}" sy "dc_generation d" "sy_state sy" "{#TimeoutTask k#}" no_effect] by simp
  qed auto
qed auto

lemma stop_inv:
  assumes inv: "ipc_inv c sy" and t: "StopTask \<in># sy_tasks sy"
  shows "ipc_inv c ((advance (sy_state sy) {#StopTask#} {#} no_effect sy)\<lparr>sy_timer := {}\<rparr>)"
proof (rule timer_inv)
  show "ipc_inv c (advance (sy_state sy) {#StopTask#} {#} no_effect sy)"
  proof (rule idle_inv [OF inv])
    show "held (dc_generation d) (advance (sy_state sy) {#StopTask#} {#} no_effect sy) = held (dc_generation d) sy" for d
      using held_advance [of "{#StopTask#}" sy "dc_generation d" "sy_state sy" "{#}" no_effect] t by simp
  qed (use t in auto)
  have "st_closed (sy_state sy)" using key_invD(7) [OF ipc_invD(2) [OF inv] t] .
  then have "st_document (sy_state sy) = None" using ipc_invD(4) [OF inv] by (simp add: admission_inv_def)
  then show "(dl, k) \<in> {} \<or> TimeoutTask k \<in># sy_tasks (advance (sy_state sy) {#StopTask#} {#} no_effect sy)"
    if "st_document (sy_state (advance (sy_state sy) {#StopTask#} {#} no_effect sy)) = Some d" for d dl k
    using that by simp
qed

lemma close_ready_same: "dc_ready (snd (finish_local i d)) = dc_ready d" "dc_ready (snd (dispatch_cancel i d)) = dc_ready d"
  by (simp_all add: finish_local_def dispatch_cancel_def split: option.splits)

lemma closes_at:
  "doc_ok c x d \<Longrightarrow> dc_generation d = gen \<Longrightarrow> closes_call c x (peer_key gen) i d (dispatch_cancel i d)"
  "doc_ok c x d \<Longrightarrow> dc_generation d = gen \<Longrightarrow> closes_call c x (local_key gen) i d (finish_local i d)"
  "limits_ok (limits_of c) \<Longrightarrow> doc_ok c x d \<Longrightarrow> dc_generation d = gen \<Longrightarrow> closes_call c x (local_key gen) i d (cancel_local c memory i d)"
  "limits_ok (limits_of c) \<Longrightarrow> doc_ok c x d \<Longrightarrow> dc_generation d = gen \<Longrightarrow>
     closes_call c x (peer_key gen) i d (complete_incoming c memory now i result d)"
  "limits_ok (limits_of c) \<Longrightarrow> doc_ok c x d \<Longrightarrow> dc_generation d = gen \<Longrightarrow> closes_call c x (peer_key gen) i d (timeout_incoming c memory i d)"
  using dispatch_cancel_closes finish_local_closes cancel_local_closes complete_incoming_closes timeout_incoming_closes by auto

lemma done_inv:
  assumes inv: "ipc_inv c sy" and t: "t \<in># sy_tasks sy" "plain t" "\<not> waker_task t"
  shows "ipc_inv c (advance (sy_state sy) {#t#} {#} no_effect sy)"
proof (rule idle_inv [OF inv])
  show "held (dc_generation d) (advance (sy_state sy) {#t#} {#} no_effect sy) = held (dc_generation d) sy" for d
    using held_advance [of "{#t#}" sy "dc_generation d" "sy_state sy" "{#}" no_effect] plain_task [OF t(2)] t(1) by simp
qed (use t plain_task [OF t(2)] in auto)

lemma dispatch_cancel_inv:
  assumes inv: "ipc_inv c sy" and t: "FrameTask f received \<in># sy_tasks sy"
    and out: "with_document (generation f) (dispatch_cancel (frame_id f)) (sy_state sy) = (r, s)"
  shows "ipc_inv c (case r of
      Inr (Some dl) \<Rightarrow> advance s {#FrameTask f received#} {#UntimeTask dl (frame_key f)#} (ended (frame_key f)) sy
    | _ \<Rightarrow> advance s {#FrameTask f received#} {#} no_effect sy)"
proof (cases "\<exists>dl. r = Inr (Some dl)")
  case True
  then obtain dl where r: "r = Inr (Some dl)" by blast
  have "ipc_inv c (advance s {#FrameTask f received#} {#UntimeTask dl (frame_key f)#} (ended (frame_key f)) sy)"
    unfolding frame_key_def
    by (rule close_inv [OF inv out [unfolded r] closes_at(1)]) (use t close_ready_same in auto)
  then show ?thesis using r by simp
next
  case False
  have "ipc_inv c (advance s {#FrameTask f received#} {#} no_effect sy)"
    using out
  proof (cases rule: with_documentE)
    case (live d d')
    have "d' = d" using live(3) False by (auto simp: dispatch_cancel_def split: option.splits)
    then show ?thesis using live(1,4) done_inv [OF inv t] by simp
  qed (use done_inv [OF inv t] in simp)
  then show ?thesis using False by (auto split: sum.splits option.splits)
qed

lemma closes_call_const: "closes_call c x key i d out = closes_call c x (\<lambda>_. key i) i d out"
  by (simp add: closes_call_def)

lemma ipc_inv_step:
  assumes C: "config_ok c" and inv: "ipc_inv c sy" and step: "ipc_step c sy sy'"
  shows "ipc_inv c sy'"
proof -
  have L: "limits_ok (limits_of c)" using C by (simp add: config_ok_def)
  from step show ?thesis
  proof cases
    case (signal wake s)
    then show ?thesis using signal_inv [OF inv] by simp
  next
    case (wake t)
    then show ?thesis using wake_step_inv [OF inv] by simp
  next
    case (control r s)
    then show ?thesis using control_inv [OF inv] by simp
  next
    case (attach s)
    then show ?thesis using attach_inv [OF inv] by simp
  next
    case (change terminal chg code doc waiters s)
    show ?thesis unfolding change(1) by (rule retired_inv [OF inv change(3)]) simp_all
  next
    case (retire code terminal doc waiters s)
    show ?thesis unfolding retire(1) by (rule retired_inv [OF inv retire(3)]) (use retire(2) in auto)
  next
    case (retired code terminal s)
    then have "st_closed (sy_state sy)" "s = sy_state sy" by (auto simp: retire_matching_def Let_def split: if_splits)
    then show ?thesis using retired
      by (auto intro!: untold_inv [OF inv] simp: wake_inv_def told_doc [OF inv] waiters_bound [OF inv])
  next
    case (begin_document active challenge doc nonce r s)
    then show ?thesis using begin_inv [OF inv] by simp
  next
    case (admit active h given random now deadline gen waiters s)
    then show ?thesis using admit_inv [OF inv C] by simp
  next
    case (ready cancelled w r s)
    then show ?thesis using ready_inv [OF inv] by simp
  next
    case (submit_frame active grants req f received)
    then show ?thesis using submit_inv [OF inv] by simp
  next
    case (submit_drain active grants req gen)
    then show ?thesis using submit_inv [OF inv] by simp
  next
    case (drain gen r s)
    then show ?thesis using drain_inv [OF inv] by simp
  next
    case (drain_drop gen r s)
    show ?thesis unfolding drain_drop(1)
      by (rule quiet_inv [OF inv drain_drop(3)]) (use drain_drop(2) drain_guard_drop_moves in auto)
  next
    case (invoke f received grant memory r s)
    show ?thesis unfolding invoke(1) by (rule invoke_inv [OF inv L invoke(2,4)])
  next
    case (reply f received r s)
    show ?thesis unfolding reply(1) by (rule quiet_inv [OF inv reply(4)]) (use reply(2) reply_moves in auto)
  next
    case (dispatch_cancel f received r s)
    show ?thesis unfolding dispatch_cancel(1) by (rule dispatch_cancel_inv [OF inv dispatch_cancel(2,4)])
  next
    case (request_refused f received)
    show ?thesis unfolding request_refused(1) by (rule refused_inv [OF inv request_refused(2) frame_key_task(1)]) simp_all
  next
    case (request f received dl grant r s)
    show ?thesis unfolding request(1) by (rule request_inv [OF inv request(2,4)])
  next
    case (complete gen memory now i result dl s)
    show ?thesis unfolding complete(1) by (rule close_inv [OF inv complete(2) closes_at(4) [OF L]]) auto
  next
    case (notify_refused f)
    show ?thesis unfolding notify_refused(1) by (rule refused_inv [OF inv notify_refused(2) frame_key_task(2)]) simp_all
  next
    case (notify f m tasks callbacks notifications grant r s spawned)
    show ?thesis unfolding notify(1) by (rule notify_inv [OF inv notify(2,4)])
  next
    case (accept f payload m memory r s spawned)
    show ?thesis unfolding accept(1) by (rule accept_inv [OF inv L accept(2,5)])
  next
    case (accept_lost f)
    show ?thesis unfolding accept_lost(1) by (rule refused_inv [OF inv accept_lost(2) frame_key_task(3)]) auto
  next
    case (prepare m kind timeout started dl gen grant r s)
    show ?thesis unfolding prepare(1) by (rule prepare_inv [OF inv prepare(3)])
  next
    case (send_request m kind payload gen grant now i s)
    have "doc_moves c x d {#} {#} (snd (send_request c grant now i m kind payload d))" if "doc_ok c x d" for d x
      using send_request_moves [OF that, of grant now i m kind payload] doc_moves_refl [OF that]
      by (metis prod.collapse)
    then show ?thesis unfolding send_request(1) by (intro quiet_inv [OF inv send_request(3)]) auto
  next
    case (finish_local gen i dl s)
    show ?thesis unfolding finish_local(1) by (rule close_inv [OF inv finish_local(2) closes_at(2)]) (auto simp: close_ready_same)
  next
    case (cancel_local gen memory i dl s)
    show ?thesis unfolding cancel_local(1) by (rule close_inv [OF inv cancel_local(2) closes_at(3) [OF L]]) auto
  next
    case (timer_fire dl k now)
    then show ?thesis using fire_inv [OF inv] by simp
  next
    case (timeout_local k memory r s)
    note k = key_eta(1) [OF timeout_local(3)]
    have "closes_call c x (\<lambda>_. k) (tk_id k) d (cancel_local c memory (tk_id k) d)" if "doc_ok c x d" "dc_generation d = tk_generation k" for d x
      using closes_at(3) [OF L that, of "tk_id k" memory] k by (metis closes_call_const)
    moreover have "(dl, k) \<notin># open_calls d" if "cancel_local c memory (tk_id k) d = (Inr None, d')" for d d' dl
      using cancel_absent [OF that, of dl "tk_generation k"] k by metis
    ultimately show ?thesis unfolding timeout_local(1)
      by (intro timeout_inv [OF inv timeout_local(2,4), where after = "\<lambda>dl. {#SignalTask, UntimeTask dl k#}"]) auto
  next
    case (timeout_peer k memory r s)
    note k = key_eta(2) [OF timeout_peer(3)]
    have "closes_call c x (\<lambda>_. k) (tk_id k) d (timeout_incoming c memory (tk_id k) d)" if "doc_ok c x d" "dc_generation d = tk_generation k" for d x
      using closes_at(5) [OF L that, of "tk_id k" memory] k by (metis closes_call_const)
    moreover have "(dl, k) \<notin># open_calls d" if "timeout_incoming c memory (tk_id k) d = (Inr None, d')" for d d' dl
      using timeout_absent [OF that, of dl "tk_generation k"] k by metis
    ultimately show ?thesis unfolding timeout_peer(1)
      by (intro timeout_inv [OF inv timeout_peer(2,4), where after = "\<lambda>dl. {#SignalTask#}"]) auto
  next
    case (untime dl k)
    then show ?thesis using untime_inv [OF inv] by simp
  next
    case stop
    then show ?thesis using stop_inv [OF inv] by simp
  next
    case (subscribe m md gen r s)
    show ?thesis unfolding subscribe(1) by (rule quiet_inv [OF inv subscribe(3)]) (use subscribe_moves in auto)
  next
    case (slot_close gen i r s)
    show ?thesis unfolding slot_close(1) by (rule quiet_inv [OF inv slot_close(2)]) (use slot_close_moves in auto)
  next
    case (subscription_remove gen i r s)
    show ?thesis unfolding subscription_remove(1) by (rule quiet_inv [OF inv subscription_remove(2)]) (use subscription_remove_moves in auto)
  qed
qed

lemma ipc_inv_init: "ipc_inv c system_new"
  by (simp add: ipc_inv_def key_inv_def wake_inv_def admission_inv_def system_new_def engine_new_def open_of_def to_report_def)

lemma ipc_inv_reach: "ipc_reach c sy \<Longrightarrow> config_ok c \<Longrightarrow> ipc_inv c sy"
  by (induction rule: ipc_reach.induct) (auto simp: ipc_inv_init intro: ipc_inv_step)

lemma window_owner_config: "window_owner_new registry options host active = Inr (c, s) \<Longrightarrow> config_ok c \<and> s = engine_new"
  by (auto simp: window_owner_new_def config_ok_def options_validate_def limits_validate_iff rbind_Inr_iff split: if_splits)

lemma owner_inv: "window_owner_new registry options host active = Inr (c, s) \<Longrightarrow> ipc_reach c sy \<Longrightarrow> ipc_inv c sy"
  using window_owner_config ipc_inv_reach by blast

end
