(* ===== verification/Ipc_Run.thy ===== *)
theory Ipc_Run
  imports Ipc_System
begin

text \<open>
  What the reachable systems of \<open>Ipc_System\<close> satisfy, for every frame that \<open>IpcWindowOwner::new\<close> accepts, and a
  run of a small contract on which the statements are applied.
\<close>

section \<open>A run\<close>

text \<open>A small contract and a run of it: a document is admitted and one call is sent to it.\<close>

definition demo_method :: method_descriptor where
  "demo_method = \<lparr>md_id = 1024, md_name = ''ping'', md_receiver = Renderer, md_kind = Rpc, md_development_only = False,
     md_validate_request = (\<lambda>_ _. Inr ()), md_validate_response = Some (\<lambda>_ _. Inr ())\<rparr>"

definition demo_registry :: ipc_registry where
  "demo_registry = registry_new \<lparr>sc_name = ''demo'', sc_major = 1, sc_hash = replicate 64 (CHR ''0''), sc_methods = [demo_method]\<rparr>"

definition demo_options :: ipc_options where
  "demo_options = default_options\<lparr>allow_renderer := [1024]\<rparr>"

definition demo_config :: engine_config where
  "demo_config = \<lparr>cf_registry = demo_registry, cf_options = demo_options, cf_host = SourceHost ''webui://app''\<rparr>"

definition demo_committed :: committed_document where
  "demo_committed = \<lparr>cm_navigation = 1, cm_origin = ''webui://app''\<rparr>"

definition demo_proof :: document_activation where
  "demo_proof = \<lparr>da_navigation = 1, da_nonce = [7], da_challenge = [9]\<rparr>"

definition demo_hello :: hello where
  "demo_hello = \<lparr>hl_wire_version = IPC_VERSION, hl_contract_name = ''demo'', hl_contract_major = 1, hl_schema_hash = replicate 64 (CHR ''0'')\<rparr>"

definition demo_navigated :: ipc_system where
  "demo_navigated = retired False None (snd (retire_matching Navigated False (Some (Navigate 1)) engine_new)) {#} system_new"

definition demo_begun :: ipc_system where
  "demo_begun = advance (snd (begin_document demo_config True [9] demo_committed [7] (sy_state demo_navigated))) {#} {#} no_effect demo_navigated"

definition demo_admitted :: ipc_system where
  "demo_admitted = (advance (snd (admit demo_config True demo_proof (replicate 16 0) 0 5 (sy_state demo_begun))) {#} {#} no_effect demo_begun)
     \<lparr>sy_told := False, sy_admissions := [(1, 1)]\<rparr>"

definition demo_prepared :: ipc_system where
  "demo_prepared = advance (snd (with_document 1 (prepare demo_config True Rpc 1000000) (sy_state demo_admitted))) {#} {#}
     (no_effect\<lparr>ef_begun := {#local_key 1 1#}, ef_armed := {#(1000000, local_key 1 1)#}\<rparr>) demo_admitted"

definition demo_sent :: ipc_system where
  "demo_sent = advance (snd (with_document 1 (send_request demo_config True 0 1 1024 Rpc [42]) (sy_state demo_prepared))) {#} {#SignalTask#}
     no_effect demo_prepared"

lemmas demo_defs = demo_config_def demo_options_def default_options_def demo_registry_def registry_new_def demo_method_def

lemma demo_limits [simp]: "limits_of demo_config = default_limits"
  by (simp add: demo_defs)

lemma demo_owner: "window_owner_new demo_registry demo_options (SourceHost ''webui://app'') True = Inr (demo_config, engine_new)"
proof -
  have "registry_validate demo_registry = Inr ()"
    by (simp add: registry_validate_def demo_defs list_all_iff lower_hex_digit_def ascii_digit_def)
  moreover have "options_validate demo_options = Inr ()"
    using default_limits_ok by (simp add: options_validate_def demo_options_def default_options_def limits_validate_iff [symmetric])
  ultimately show ?thesis by (simp add: window_owner_new_def demo_config_def) (simp add: demo_defs default_limits_def)
qed

lemma demo_navigated_step: "ipc_step demo_config system_new demo_navigated"
  unfolding demo_navigated_def
  by (rule ipc_step.change [where code = Navigated and change = "Some (Navigate 1)" and waiters = "[]"])
    (simp_all add: retire_matching_def system_new_def engine_new_def)

lemma demo_navigated_state: "sy_state demo_navigated = engine_new\<lparr>st_navigation := 1\<rparr>"
  by (simp add: demo_navigated_def retired_def retire_matching_def engine_new_def)

lemma demo_identity: "check_identity demo_config True demo_committed = Inr ()"
  by (simp add: check_identity_def demo_committed_def demo_config_def)

lemma demo_begun_step: "ipc_step demo_config demo_navigated demo_begun"
  unfolding demo_begun_def by (rule ipc_step.begin_document) (rule surjective_pairing)

lemma demo_begun_state: "sy_state demo_begun = engine_new\<lparr>st_navigation := 1, st_activation := Some (demo_committed, demo_proof), st_activation_started := True\<rparr>"
  by (simp add: demo_begun_def begin_document_def demo_identity demo_navigated_state is_enabled_def engine_new_def)
    (simp add: demo_defs demo_committed_def demo_proof_def Let_def)

lemma constant_equal_refl: "constant_equal a a"
proof -
  have "fold (\<lambda>(x, y) difference. difference OR (x XOR y)) (zip a a) (0 :: u8) = 0" by (induction a) auto
  then show ?thesis by (simp add: constant_equal_def)
qed

lemma demo_activation: "check_activation demo_config True demo_proof (sy_state demo_begun) = Inr ()"
  by (simp add: check_activation_def demo_begun_state demo_identity constant_equal_refl engine_new_def)
    (simp add: demo_committed_def demo_proof_def)

definition demo_document :: document_state where
  "demo_document = document_new 1 1 (hex (replicate 16 0))"

lemma demo_admit: "admit demo_config True demo_proof (replicate 16 0) 0 5 (sy_state demo_begun) =
    (Inr (1, []), engine_new\<lparr>st_navigation := 1, st_activation_started := True, st_admitted := True, st_generation := 1,
       st_document := Some demo_document\<rparr>)"
  unfolding admit_def demo_activation
  by (simp add: demo_begun_state engine_new_def Let_def) (simp add: demo_defs demo_document_def)

lemma demo_admitted_state: "sy_state demo_admitted = engine_new\<lparr>st_navigation := 1, st_activation_started := True, st_admitted := True,
    st_generation := 1, st_document := Some demo_document\<rparr>"
  by (simp add: demo_admitted_def demo_admit)

lemma demo_admitted_step: "ipc_step demo_config demo_begun demo_admitted"
proof -
  have "check_admission demo_config True demo_hello demo_proof (sy_state demo_begun) = Inr ()"
    unfolding check_admission_def demo_activation by (simp add: demo_defs demo_hello_def)
  moreover have "sy_admissions demo_begun = []" by (simp add: demo_begun_def demo_navigated_def retired_def system_new_def)
  ultimately show ?thesis using ipc_step.admit [OF _ demo_admit] by (simp add: demo_admitted_def demo_admit engine_new_def)
qed

lemma demo_allowed: "allowed demo_config 1024 Renderer Rpc = Inr demo_method"
  by (simp add: allowed_def registry_method_def schema_method_def demo_defs)

definition demo_pending :: document_state where
  "demo_pending = demo_document\<lparr>dc_next_id := 2, dc_control_slots := 1,
     dc_pending := [(1, \<lparr>pc_sender = True, pc_sent = False, pc_kind = Rpc, pc_deadline = 1000000\<rparr>)]\<rparr>"

lemma demo_prepare: "with_document 1 (prepare demo_config True Rpc 1000000) (sy_state demo_admitted) =
    (Inr (Some 1), (sy_state demo_admitted)\<lparr>st_document := Some demo_pending\<rparr>)"
  by (simp add: with_document_def core_document_def demo_admitted_state prepare_def reservation_def demo_document_def document_new_def
    engine_new_def default_limits_def demo_pending_def Let_def)

lemma demo_prepared_step: "ipc_step demo_config demo_admitted demo_prepared"
proof -
  have "prepare_deadline demo_config 1024 Rpc 1000000 0 = Inr 1000000"
    by (simp add: prepare_deadline_def demo_allowed default_limits_def)
  from ipc_step.prepare [OF this demo_prepare] show ?thesis by (simp add: demo_prepared_def demo_prepare)
qed

lemma demo_prepared_core: "core_document 1 (sy_state demo_prepared) = Inr demo_pending"
  unfolding demo_prepared_def demo_prepare
  by (simp add: core_document_def demo_admitted_state) (simp add: engine_new_def demo_pending_def demo_document_def document_new_def)

lemma demo_send_document: "\<exists>q d. send_request demo_config True 0 1 1024 Rpc [42] demo_pending = (Inr (), d) \<and> dc_queue d = [q]"
  by (simp add: send_request_def demo_pending_def demo_document_def document_new_def default_limits_def enqueue_data_def Let_def
    encoded_len_def envelope_def HEADER_LEN_def)

lemma demo_send: "\<exists>q d. with_document 1 (send_request demo_config True 0 1 1024 Rpc [42]) (sy_state demo_prepared) =
    (Inr (), (sy_state demo_prepared)\<lparr>st_document := Some d\<rparr>) \<and> dc_queue d = [q]"
proof -
  from demo_send_document obtain q d where "send_request demo_config True 0 1 1024 Rpc [42] demo_pending = (Inr (), d)" "dc_queue d = [q]" by blast
  then show ?thesis by (intro exI [of _ q] exI [of _ d]) (simp add: with_document_def demo_prepared_core)
qed

lemma demo_sent_step: "ipc_step demo_config demo_prepared demo_sent"
proof -
  have "send_checks demo_config 1024 Rpc [42] = Inr ()"
    by (simp add: send_checks_def demo_allowed default_limits_def demo_method_def)
  from ipc_step.send_request [OF this] demo_send show ?thesis unfolding demo_sent_def by fastforce
qed

lemma demo_reach: "ipc_reach demo_config demo_sent"
  using demo_navigated_step demo_begun_step demo_admitted_step demo_prepared_step demo_sent_step
  by (meson ipc_reach.init ipc_reach.step)

lemma demo_live: "\<exists>d q. st_document (sy_state demo_sent) = Some d \<and> dc_queue d = [q]"
  using demo_send by (auto simp: demo_sent_def)

text \<open>The renderer is woken: the application attaches its waker, a thread signals, the event loop reports the queued frame, and the
  threads that signal later find nothing to do.\<close>

lemma demo_sent_state:
  obtains d q where "st_document (sy_state demo_sent) = Some d" "dc_queue d = [q]" "dc_ready d" "sy_tasks demo_sent = {#SignalTask, SignalTask#}"
    "\<not> st_closed (sy_state demo_sent)" "\<not> st_waker (sy_state demo_sent)" "\<not> st_wake_pending (sy_state demo_sent)"
    "st_closed_control (sy_state demo_sent) = None"
proof -
  obtain d q where d: "st_document (sy_state demo_sent) = Some d" "dc_queue d = [q]" using demo_live by blast
  have e: "sy_state demo_sent = (sy_state demo_prepared)\<lparr>st_document := Some d\<rparr>"
    using demo_send d by (auto simp: demo_sent_def)
  have ts: "sy_tasks demo_sent = {#SignalTask, SignalTask#}"
    by (simp add: demo_sent_def demo_prepared_def demo_admitted_def demo_begun_def demo_navigated_def retired_def system_new_def)
  have s: "\<not> st_closed (sy_state demo_sent)" "\<not> st_waker (sy_state demo_sent)" "\<not> st_wake_pending (sy_state demo_sent)"
    "st_closed_control (sy_state demo_sent) = None"
    unfolding e demo_prepared_def demo_prepare by (simp_all add: demo_admitted_state engine_new_def)
  have "announced False d"
  proof -
    have "\<not> sy_told demo_sent" by (simp add: demo_sent_def demo_prepared_def demo_admitted_def)
    then show ?thesis using told_doc [OF owner_inv [OF demo_owner demo_reach] d(1)] by simp
  qed
  then have "dc_ready d" using d(2) by (simp add: announced_def)
  with that d ts s show thesis by blast
qed

lemma demo_woken:
  obtains sy d q where "ipc_reach demo_config sy" "sy_tasks sy = {#}" "st_waker (sy_state sy)" "\<not> st_closed (sy_state sy)"
    "st_document (sy_state sy) = Some d" "dc_queue d = [q]"
proof -
  obtain d q where d: "st_document (sy_state demo_sent) = Some d" "dc_queue d = [q]" "dc_ready d" "sy_tasks demo_sent = {#SignalTask, SignalTask#}"
    "\<not> st_closed (sy_state demo_sent)" "\<not> st_waker (sy_state demo_sent)" "\<not> st_wake_pending (sy_state demo_sent)"
    "st_closed_control (sy_state demo_sent) = None" by (rule demo_sent_state)
  define s1 where "s1 = (sy_state demo_sent)\<lparr>st_waker := True\<rparr>"
  define sy1 where "sy1 = advance s1 {#} {#SignalTask#} no_effect demo_sent"
  define s2 where "s2 = s1\<lparr>st_wake_pending := True\<rparr>"
  define sy2 where "sy2 = advance s2 {#SignalTask#} {#WakeTask#} no_effect sy1"
  define sy3 where "sy3 = advance s2 {#WakeTask#} {#ControlTask#} no_effect sy2"
  define s4 where "s4 = s1\<lparr>st_document := Some (d\<lparr>dc_ready := False\<rparr>)\<rparr>"
  define sy4 where "sy4 = (advance s4 {#ControlTask#} {#ControlTask#} no_effect sy3)\<lparr>sy_told := True\<rparr>"
  define sy5 where "sy5 = (advance s4 {#ControlTask#} {#} no_effect sy4)\<lparr>sy_told := True\<rparr>"
  define sy6 where "sy6 = advance s4 {#SignalTask#} {#} no_effect sy5"
  define sy7 where "sy7 = advance s4 {#SignalTask#} {#} no_effect sy6"
  have ts: "sy_tasks sy1 = {#SignalTask, SignalTask, SignalTask#}" "sy_tasks sy2 = {#WakeTask, SignalTask, SignalTask#}"
    "sy_tasks sy3 = {#ControlTask, SignalTask, SignalTask#}" "sy_tasks sy4 = {#ControlTask, SignalTask, SignalTask#}"
    "sy_tasks sy5 = {#SignalTask, SignalTask#}" "sy_tasks sy6 = {#SignalTask#}" "sy_tasks sy7 = {#}"
    by (simp_all add: d(4) sy1_def sy2_def sy3_def sy4_def sy5_def sy6_def sy7_def)
  have st: "sy_state sy1 = s1" "sy_state sy2 = s2" "sy_state sy3 = s2" "sy_state sy4 = s4" "sy_state sy5 = s4" "sy_state sy6 = s4" "sy_state sy7 = s4"
    by (simp_all add: sy1_def sy2_def sy3_def sy4_def sy5_def sy6_def sy7_def)
  have "ipc_step demo_config demo_sent sy1"
    unfolding sy1_def by (rule ipc_step.attach) (use d in \<open>simp add: attach_waker_def s1_def\<close>)
  moreover have "ipc_step demo_config sy1 sy2"
    using ipc_step.signal [of sy1 True s2] d by (simp add: st ts sy2_def engine_signal_def s1_def s2_def)
  moreover have "ipc_step demo_config sy2 sy3"
    unfolding sy3_def using ipc_step.wake [of sy2 ControlTask] by (simp add: st ts)
  moreover have "ipc_step demo_config sy3 sy4"
  proof -
    have "take_control (sy_state sy3) = (Some (ControlReady (dc_generation d)), s4)"
      unfolding st by (simp add: take_control_def s2_def s1_def s4_def d Let_def)
    from ipc_step.control [OF _ this, of demo_config] show ?thesis unfolding sy4_def ts(3) by simp
  qed
  moreover have "ipc_step demo_config sy4 sy5"
  proof -
    have "take_control (sy_state sy4) = (None, s4)"
      unfolding st by (simp add: take_control_def s1_def s4_def d Let_def)
    from ipc_step.control [OF _ this, of demo_config] show ?thesis unfolding sy5_def ts(4) by (simp add: sy4_def)
  qed
  moreover have "ipc_step demo_config sy5 sy6" "ipc_step demo_config sy6 sy7"
  proof -
    have "engine_signal s4 = (False, s4)" by (simp add: engine_signal_def s1_def s4_def d)
    then have e: "engine_signal (sy_state sy5) = (False, s4)" "engine_signal (sy_state sy6) = (False, s4)" unfolding st by blast+
    show "ipc_step demo_config sy5 sy6" using ipc_step.signal [OF _ e(1), of demo_config] ts(5) by (simp add: sy6_def)
    show "ipc_step demo_config sy6 sy7" using ipc_step.signal [OF _ e(2), of demo_config] ts(6) by (simp add: sy7_def)
  qed
  ultimately have "ipc_reach demo_config sy7" using demo_reach by (meson ipc_reach.step)
  moreover have "st_waker (sy_state sy7)" "\<not> st_closed (sy_state sy7)" "st_document (sy_state sy7) = Some (d\<lparr>dc_ready := False\<rparr>)"
    unfolding st(7) by (simp_all add: s4_def s1_def d(5))
  moreover have "dc_queue (d\<lparr>dc_ready := False\<rparr>) = [q]" using d(2) by simp
  ultimately show thesis using that ts(7) by blast
qed

section \<open>Lost reservations\<close>

text \<open>A slot is lost only with a notification of the renderer that has ended and got no answer.\<close>

definition unanswered :: "u64 \<Rightarrow> ipc_system \<Rightarrow> nat" where
  "unanswered gen sy = size (filter_mset (\<lambda>k. \<not> tk_local k \<and> tk_generation k = gen) (sy_ended sy - sy_answered sy))"

lemma unanswered_grows:
  assumes "sy_answered sy \<subseteq># sy_ended sy" "sy_ended sy' = sy_ended sy + ends" "sy_answered sy' = sy_answered sy + answers"
    "answers \<subseteq># ends"
  shows "unanswered gen sy' = unanswered gen sy + size (filter_mset (\<lambda>k. \<not> tk_local k \<and> tk_generation k = gen) (ends - answers))"
proof -
  have "sy_ended sy + ends - (sy_answered sy + answers) = (sy_ended sy - sy_answered sy) + (ends - answers)"
    using assms(1,4) by (simp add: multiset_eq_iff subseteq_mset_def)
  with assms(2,3) show ?thesis by (simp add: unanswered_def)
qed

definition losses_counted :: "ipc_system \<Rightarrow> bool" where
  "losses_counted sy \<longleftrightarrow> (\<forall>gen. Multiset.count (sy_lost sy) gen \<le> unanswered gen sy)"

lemma losses_advance:
  assumes "losses_counted sy" "sy_answered sy \<subseteq># sy_ended sy"
    and "ef_answered ef \<subseteq># ef_ended ef"
    and "\<And>gen. Multiset.count (ef_lost ef) gen \<le> size (filter_mset (\<lambda>k. \<not> tk_local k \<and> tk_generation k = gen) (ef_ended ef - ef_answered ef))"
  shows "losses_counted (advance s before after ef sy)"
  unfolding losses_counted_def
proof
  fix gen
  have "unanswered gen (advance s before after ef sy) =
      unanswered gen sy + size (filter_mset (\<lambda>k. \<not> tk_local k \<and> tk_generation k = gen) (ef_ended ef - ef_answered ef))"
    by (rule unanswered_grows [OF assms(2) _ _ assms(3)]) simp_all
  with assms(1) assms(4) [of gen] show "Multiset.count (sy_lost (advance s before after ef sy)) gen \<le> unanswered gen (advance s before after ef sy)"
    by (simp add: losses_counted_def add_mono)
qed

lemma losses_update [simp]:
  "losses_counted (sy\<lparr>sy_timer := x\<rparr>) = losses_counted sy" "losses_counted (sy\<lparr>sy_told := y\<rparr>) = losses_counted sy"
  "losses_counted (sy\<lparr>sy_admissions := z\<rparr>) = losses_counted sy"
  by (simp_all add: losses_counted_def unanswered_def)

lemma losses_step:
  assumes "ipc_step c sy sy'" "losses_counted sy" "sy_answered sy \<subseteq># sy_ended sy"
  shows "losses_counted sy'"
proof -
  note rule = losses_advance [OF assms(2,3)]
  note keys = frame_key_def peer_key_def local_key_def
  from assms(1) show ?thesis
    by (cases rule: ipc_step.cases)
      (auto simp: retired_def Let_def keys intro!: rule split: sum.splits option.splits bool.splits if_splits)
qed

lemma losses_reach:
  assumes "window_owner_new registry options host active = Inr (c, s)" "ipc_reach c sy"
  shows "losses_counted sy"
  using assms(2)
proof induction
  case init
  then show ?case by (simp add: losses_counted_def system_new_def)
next
  case (step sy sy')
  then show ?case using losses_step key_invD(6) [OF ipc_invD(2) [OF owner_inv [OF assms(1) step.hyps(1)]]] by blast
qed

section \<open>Properties\<close>

text \<open>
  C10. The slots for control frames are accounted for: each slot in use belongs to one call the host waits for, one call the renderer
  waits for, one queued control frame, or one notification that is waiting to be accepted, or else it was lost. A slot is lost, and stays
  in use until the document is retired, when the pool refuses the task of a notification after the reservation (\<open>sy_lost\<close>; see the
  finding at \<open>bridge.rs\<close>, \<open>notify\<close>); there are at most as many lost slots as calls of the renderer that ended without an answer, and
  none where every call is answered. The frames and bytes of the queue are counted exactly, and the limits hold.
\<close>

theorem ipc_accounting:
  assumes "window_owner_new registry options host active = Inr (c, s)" "ipc_reach c sy" "st_document (sy_state sy) = Some d"
  shows "dc_control_slots d
      = int (length (dc_pending d) + length (dc_incoming d) + length (filter qd_control (dc_queue d))
          + size (filter_mset (reserves (dc_generation d)) (sy_tasks sy)) + Multiset.count (sy_lost sy) (dc_generation d))
    \<and> Multiset.count (sy_lost sy) (dc_generation d)
        \<le> size (filter_mset (\<lambda>k. \<not> tk_local k \<and> tk_generation k = dc_generation d) (sy_ended sy - sy_answered sy))
    \<and> dc_control_slots d \<le> int (reserved_control_frames_per_direction (limits_of c))
    \<and> dc_data_frames d = int (length (filter (\<lambda>q. \<not> qd_control q) (dc_queue d)))
    \<and> dc_data_frames d \<le> int (max_queued_frames_per_direction (limits_of c))
    \<and> dc_data_bytes d = int (\<Sum>q\<leftarrow>dc_queue d. if qd_control q \<and> length (qd_bytes q) \<le> control_max c then 0 else length (qd_bytes q))
    \<and> dc_data_bytes d \<le> int (max_queued_bytes_per_direction (limits_of c))
    \<and> list_all (\<lambda>q. length (qd_bytes q) \<le> max_frame_bytes (limits_of c)) (dc_queue d)
    \<and> length (dc_incoming d) \<le> max_pending_calls_per_direction (limits_of c)
    \<and> pending_of Rpc d \<le> max_pending_calls_per_direction (limits_of c)
    \<and> pending_of Notification d \<le> max_outstanding_notifications_per_direction (limits_of c)
    \<and> length (dc_subscriptions d) \<le> max_callbacks_per_document (limits_of c)
    \<and> length (st_waiters (sy_state sy)) \<le> max_readiness_waiters (limits_of c)"
proof -
  note inv = owner_inv [OF assms(1,2)]
  have "Multiset.count (sy_lost sy) gen \<le> unanswered gen sy" for gen
    using losses_reach [OF assms(1,2)] by (simp add: losses_counted_def)
  then show ?thesis using doc_invD(1) [OF ipc_invD(1) [OF inv assms(3)]] waiters_bound [OF inv]
    by (simp add: doc_defs counted_def [abs_def] held_def unanswered_def)
qed

theorem ipc_accounting_witness:
  "\<exists>d q. st_document (sy_state demo_sent) = Some d \<and> dc_queue d = [q] \<and> dc_control_slots d \<le> 128 \<and> dc_data_frames d \<le> 128"
proof -
  obtain d q where d: "st_document (sy_state demo_sent) = Some d" "dc_queue d = [q]" using demo_live by blast
  have "reserved_control_frames_per_direction (limits_of demo_config) = 128" "max_queued_frames_per_direction (limits_of demo_config) = 128"
    by (simp_all add: default_limits_def)
  moreover note ipc_accounting [OF demo_owner demo_reach d(1)]
  ultimately have "dc_control_slots d \<le> 128 \<and> dc_data_frames d \<le> 128" by (simp del: demo_limits)
  with d show ?thesis by blast
qed

text \<open>C11. No wake-up is lost in a frame that is not closed and whose waker is attached: when no thread is about to signal, to wake the
  event loop, to report or to retire the frame for good, nothing is left to report, and the renderer has been told of the frames in the
  queue since it last found the queue empty.\<close>

theorem ipc_no_lost_wakeup:
  assumes "window_owner_new registry options host active = Inr (c, s)" "ipc_reach c sy"
    and "\<not> st_closed (sy_state sy)" "st_waker (sy_state sy)"
    and "SignalTask \<notin># sy_tasks sy" "WakeTask \<notin># sy_tasks sy" "ControlTask \<notin># sy_tasks sy" "\<And>code. RetireTask code True \<notin># sy_tasks sy"
  shows "st_closed_control (sy_state sy) = None
    \<and> (\<forall>d. st_document (sy_state sy) = Some d \<longrightarrow> \<not> dc_ready d \<and> (dc_queue d \<noteq> [] \<longrightarrow> sy_told sy))"
proof -
  note inv = owner_inv [OF assms(1,2)]
  have "\<not> to_report (sy_state sy)" using ipc_invD(3) [OF inv] assms(3-) by (auto simp: wake_inv_def waking_def)
  then show ?thesis using told_doc [OF inv] by (auto simp: to_report_def announced_def)
qed

theorem ipc_no_lost_wakeup_witness:
  "\<exists>sy d q. ipc_reach demo_config sy \<and> st_document (sy_state sy) = Some d \<and> dc_queue d = [q] \<and> sy_told sy"
proof -
  obtain sy d q where w: "ipc_reach demo_config sy" "sy_tasks sy = {#}" "st_waker (sy_state sy)" "\<not> st_closed (sy_state sy)"
    "st_document (sy_state sy) = Some d" "dc_queue d = [q]" by (rule demo_woken)
  have "sy_told sy" using ipc_no_lost_wakeup [OF demo_owner w(1,4,3)] w by simp
  with w show ?thesis by blast
qed

text \<open>C9. Every call that has begun is open in the live document, or carried by one task, or has ended; it ends once, and a call of the
  renderer is answered at most once.  In a closed frame whose tasks are done every call has ended.\<close>

theorem ipc_calls_settle_once:
  assumes "window_owner_new registry options host active = Inr (c, s)" "ipc_reach c sy"
  shows "sy_begun sy = image_mset snd (open_of (sy_state sy)) + task_keys (sy_tasks sy) + sy_ended sy
    \<and> (\<forall>k. Multiset.count (sy_begun sy) k \<le> 1)
    \<and> sy_answered sy \<subseteq># sy_ended sy
    \<and> (st_closed (sy_state sy) \<longrightarrow> sy_tasks sy = {#} \<longrightarrow> sy_ended sy = sy_begun sy)"
proof -
  note inv = owner_inv [OF assms] and K = ipc_invD(2) [OF owner_inv [OF assms]]
  have "open_of (sy_state sy) = {#}" if "st_closed (sy_state sy)"
    using ipc_invD(4) [OF inv] that by (simp add: admission_inv_def open_of_def)
  then have "sy_ended sy = sy_begun sy" if "st_closed (sy_state sy)" "sy_tasks sy = {#}"
    using key_invD(1) [OF K] that by simp
  then show ?thesis using key_invD(1,2,6) [OF K] by blast
qed

theorem ipc_calls_settle_once_witness:
  "sy_begun demo_sent = image_mset snd (open_of (sy_state demo_sent)) + task_keys (sy_tasks demo_sent) + sy_ended demo_sent"
  using ipc_calls_settle_once [OF demo_owner demo_reach] by blast

text \<open>C29. Every open call has its deadline armed, or its timeout is on the way.\<close>

theorem ipc_deadlines_armed:
  assumes "window_owner_new registry options host active = Inr (c, s)" "ipc_reach c sy" "st_document (sy_state sy) = Some d"
  shows "((i, p) \<in> set (dc_pending d) \<longrightarrow> (pc_deadline p, local_key (dc_generation d) i) \<in> sy_timer sy
        \<or> TimeoutTask (local_key (dc_generation d) i) \<in># sy_tasks sy)
    \<and> ((i, q) \<in> set (dc_incoming d) \<longrightarrow> (ic_deadline q, peer_key (dc_generation d) i) \<in> sy_timer sy
        \<or> TimeoutTask (peer_key (dc_generation d) i) \<in># sy_tasks sy)"
  using doc_invD(8) [OF ipc_invD(1) [OF owner_inv [OF assms(1,2)] assms(3)]]
  by (force simp: open_calls_def local_calls_def peer_calls_def)

theorem ipc_deadlines_armed_witness:
  "\<exists>d p. st_document (sy_state demo_prepared) = Some d \<and> (1, p) \<in> set (dc_pending d) \<and>
     ((pc_deadline p, local_key (dc_generation d) 1) \<in> sy_timer demo_prepared \<or> TimeoutTask (local_key (dc_generation d) 1) \<in># sy_tasks demo_prepared)"
proof -
  let ?p = "\<lparr>pc_sender = True, pc_sent = False, pc_kind = Rpc, pc_deadline = 1000000\<rparr>"
  have reach: "ipc_reach demo_config demo_prepared"
    using demo_navigated_step demo_begun_step demo_admitted_step demo_prepared_step by (meson ipc_reach.init ipc_reach.step)
  have d: "st_document (sy_state demo_prepared) = Some demo_pending" "(1, ?p) \<in> set (dc_pending demo_pending)"
    by (simp_all add: demo_prepared_def demo_prepare demo_pending_def)
  with ipc_deadlines_armed [OF demo_owner reach d(1), of 1 ?p] show ?thesis by blast
qed

text \<open>C14. Admissions: a navigation admits at most one document, generations and navigations strictly increase, and the live document is
  the one admitted last, under the current navigation.  A closed frame has none.\<close>

theorem ipc_admission_unique:
  assumes "window_owner_new registry options host active = Inr (c, s)" "ipc_reach c sy"
  shows "sorted_wrt (\<lambda>a b. fst a < fst b \<and> snd a < snd b) (sy_admissions sy)
    \<and> (\<forall>d. st_document (sy_state sy) = Some d \<longrightarrow> \<not> st_closed (sy_state sy) \<and> sy_admissions sy \<noteq> []
        \<and> last (sy_admissions sy) = (dc_navigation d, dc_generation d) \<and> dc_navigation d = st_navigation (sy_state sy))"
proof -
  note inv = owner_inv [OF assms]
  show ?thesis using ipc_invD(4) [OF inv] doc_invD(3-6) [OF ipc_invD(1) [OF inv]] by (simp add: admission_inv_def)
qed

theorem ipc_admission_unique_witness: "\<exists>d. st_document (sy_state demo_sent) = Some d \<and> last (sy_admissions demo_sent) = (dc_navigation d, dc_generation d)"
  using demo_live ipc_admission_unique [OF demo_owner demo_reach] by blast

text \<open>Credentials are compared as wholes.\<close>

lemma xor_zero: "x XOR y = 0 \<longleftrightarrow> x = (y :: u8)"
  by (auto simp: bit_eq_iff bit_xor_iff)

lemma constant_equal_iff: "constant_equal a b \<longleftrightarrow> a = b"
proof (cases "length a = length b")
  case True
  then have "fold (\<lambda>(x, y) difference. difference OR (x XOR y)) (zip a b) acc = 0 \<longleftrightarrow> acc = 0 \<and> a = b" for acc :: u8
    by (induction a b arbitrary: acc rule: list_induct2) (auto simp: or_eq_0_iff xor_zero)
  from this [of 0] True show ?thesis by (simp add: constant_equal_def)
qed (auto simp: constant_equal_def)

lemma str_bytes_inject: "str_bytes a = str_bytes b \<longleftrightarrow> a = b"
  by (metis bytes_str_bytes)

text \<open>
  C12. A request is taken exactly when it is addressed to the live document, with its navigation and its token, within the limits,
  on one of the two routes: a \<open>GET\<close> of the outbound queue with an empty body, or a \<open>POST\<close> whose body can be copied (out of the shared
  budget, or out of the control budget when it is no longer than a control frame), decodes under the limits and carries the document's
  generation, a request or notification with the reservations for its data. Every other method is refused.
\<close>

theorem submit_exact:
  "submit c active g req s = Inr sub \<longleftrightarrow>
     (\<exists>d. active \<and> \<not> st_closed s \<and> st_document s = Some d
        \<and> hr_navigation req = dc_navigation d \<and> hr_token req = dc_token d \<and> length (dc_token d) = 32
        \<and> length (hr_body req) \<le> max_frame_bytes (limits_of c) \<and> length (hr_path req) \<le> 64
        \<and> hr_permit_ours req \<and> hr_capacity req \<le> hr_permit_bytes req
        \<and> (case sub of
            Drain gen \<Rightarrow> hr_method req = HttpGet \<and> hr_path req = ''/_webui/ipc/outbound'' \<and> hr_body req = [] \<and> gen = dc_generation d
          | Dispatch f \<Rightarrow> hr_method req = HttpPost \<and> hr_path req = ''/_webui/ipc''
              \<and> (cg_copy g \<or> length (hr_body req) \<le> control_max c \<and> cg_emergency g)
              \<and> decode_frame (hr_body req) (limits_of c) = Inr f \<and> generation f = dc_generation d
              \<and> (if kind_try_from (frame_kind f) \<in> {Some KRequest, Some KNotify}
                 then cg_input g \<and> (cg_copy g \<or> cg_recopy g) else True)))"
proof -
  have auth: "authenticate c active req s = Inr gen \<longleftrightarrow>
      (\<exists>d. active \<and> \<not> st_closed s \<and> st_document s = Some d \<and> gen = dc_generation d
        \<and> hr_navigation req = dc_navigation d \<and> hr_token req = dc_token d \<and> length (dc_token d) = 32
        \<and> length (hr_body req) \<le> max_frame_bytes (limits_of c) \<and> length (hr_path req) \<le> 64
        \<and> hr_permit_ours req \<and> hr_capacity req \<le> hr_permit_bytes req)" for gen
    by (cases "st_document s") (auto simp: authenticate_def constant_equal_iff str_bytes_inject)
  have "(if hr_path req \<noteq> ''/_webui/ipc'' then Inl (fail InvalidFrame)
       else if \<not> cg_copy g \<and> \<not> (length (hr_body req) \<le> control_max c \<and> cg_emergency g) then Inl (fail Overloaded)
       else rbind (decode_frame (hr_body req) (limits_of c)) (\<lambda>frame.
         if generation frame \<noteq> gen then Inl (fail Navigated)
         else if kind_try_from (frame_kind frame) \<in> {Some KRequest, Some KNotify} \<and> \<not> (cg_input g \<and> (cg_copy g \<or> cg_recopy g))
         then Inl (fail Overloaded)
         else Inr (Dispatch frame))) = Inr sub \<longleftrightarrow>
      (\<exists>f. sub = Dispatch f \<and> hr_path req = ''/_webui/ipc'' \<and> (cg_copy g \<or> length (hr_body req) \<le> control_max c \<and> cg_emergency g)
        \<and> decode_frame (hr_body req) (limits_of c) = Inr f \<and> generation f = gen
        \<and> (if kind_try_from (frame_kind f) \<in> {Some KRequest, Some KNotify} then cg_input g \<and> (cg_copy g \<or> cg_recopy g) else True))" for gen
    by (cases "decode_frame (hr_body req) (limits_of c)") auto
  moreover have "(if hr_path req = ''/_webui/ipc/outbound'' \<and> hr_body req = [] then Inr (Drain gen) else Inl (fail InvalidFrame)) = Inr sub \<longleftrightarrow>
      sub = Drain gen \<and> hr_path req = ''/_webui/ipc/outbound'' \<and> hr_body req = []" for gen
    by auto
  ultimately have "submit c active g req s = Inr sub \<longleftrightarrow> (\<exists>gen. authenticate c active req s = Inr gen \<and> (case hr_method req of
      HttpGet \<Rightarrow> sub = Drain gen \<and> hr_path req = ''/_webui/ipc/outbound'' \<and> hr_body req = []
    | HttpPost \<Rightarrow> (\<exists>f. sub = Dispatch f \<and> hr_path req = ''/_webui/ipc'' \<and> (cg_copy g \<or> length (hr_body req) \<le> control_max c \<and> cg_emergency g)
        \<and> decode_frame (hr_body req) (limits_of c) = Inr f \<and> generation f = gen
        \<and> (if kind_try_from (frame_kind f) \<in> {Some KRequest, Some KNotify} then cg_input g \<and> (cg_copy g \<or> cg_recopy g) else True))
    | HttpOther _ \<Rightarrow> False))"
    unfolding submit_def rbind_Inr_iff by (cases "hr_method req") (simp_all only: http_method.case, blast+)
  with auth show ?thesis by (cases sub; cases "hr_method req") auto
qed

text \<open>A frame of a completed call can be queued: in the reserved control slot, or as a large frame that shares the queue's byte budget.\<close>

definition queueable :: "engine_config \<Rightarrow> bool \<Rightarrow> document_state \<Rightarrow> nat \<Rightarrow> bool" where
  "queueable c memory d n \<longleftrightarrow> n \<le> control_max c
     \<or> n \<le> max_frame_bytes (limits_of c) \<and> dc_data_bytes d + int n \<le> int (max_queued_bytes_per_direction (limits_of c)) \<and> memory"

lemma enqueue_control_sent:
  fixes c memory i k b d
  defines "frame \<equiv> envelope (dc_generation d) i k b"
  shows "dc_queue (enqueue_control c memory i k b d) = dc_queue d @ [\<lparr>qd_bytes = encode_to_vec
      (if queueable c memory d (encoded_len frame) then frame
       else envelope (dc_generation d) i KError (error_body c (fail PayloadTooLarge))), qd_control = True\<rparr>]"
proof -
  have "0 < encoded_len frame" by (simp add: encoded_len_def HEADER_LEN_def)
  then have large: "int (encoded_len frame) \<le> max 0 (int (max_queued_bytes_per_direction (limits_of c)) - dc_data_bytes d) \<longleftrightarrow>
      dc_data_bytes d + int (encoded_len frame) \<le> int (max_queued_bytes_per_direction (limits_of c))"
    by linarith
  consider "encoded_len frame \<le> control_max c"
    | "\<not> encoded_len frame \<le> control_max c" "queueable c memory d (encoded_len frame)"
    | "\<not> queueable c memory d (encoded_len frame)" by blast
  then show ?thesis
  proof cases
    case 1
    then show ?thesis unfolding enqueue_control_def Let_def frame_def [symmetric] by (simp add: queueable_def)
  next
    case 2
    then show ?thesis unfolding enqueue_control_def Let_def frame_def [symmetric] by (simp add: queueable_def large)
  next
    case 3
    then have "\<not> encoded_len frame \<le> control_max c"
      "\<not> (dc_data_bytes d + int (encoded_len frame) \<le> int (max_queued_bytes_per_direction (limits_of c))
         \<and> encoded_len frame \<le> max_frame_bytes (limits_of c) \<and> memory)" by (auto simp: queueable_def)
    with 3 show ?thesis
      unfolding enqueue_control_def Let_def frame_def [symmetric] by (simp only: large if_False prod.case push_queue_simps)
  qed
qed

lemma queueable_frame: "limits_ok (limits_of c) \<Longrightarrow> queueable c memory d n \<Longrightarrow> n \<le> max_frame_bytes (limits_of c)"
  using limits_ok_control_max by (fastforce simp: queueable_def)

lemma envelope_kind: "frame_kind (envelope gen i k b) = kind_i32 k"
  by (simp add: envelope_def)

lemma fail_code: "err_code (fail code) = code"
  by (simp add: fail_def ipc_error_new_def)

lemma error_envelope_decode:
  assumes "configured (limits_of c)" "gen \<noteq> 0" "i \<noteq> 0" "ipc_error_utf8 e"
  shows "decode_frame (encode_to_vec (envelope gen i KError (error_body c e))) (limits_of c) = Inr (envelope gen i KError (error_body c e))"
    and "\<exists>w. error_body c e = Some (ErrorBody w) \<and> err_code (err_from_wire w (max_error_text_bytes_total (limits_of c))) = err_code e"
  using error_frame_decode [OF assms(4,1-3)] by (simp_all add: envelope_def error_body_def)

lemma fail_utf8: "ipc_error_utf8 (fail code)"
  by (cases code) (simp_all add: ipc_error_utf8_def fail_def ipc_error_new_def utf8_valid_ascii)

lemma result_envelope_decode:
  assumes "limits_ok (limits_of c)" "gen \<noteq> 0" "i \<noteq> 0" "encoded_len (envelope gen i KResult (Some (Payload payload))) \<le> max_frame_bytes (limits_of c)"
  shows "decode_frame (encode_to_vec (envelope gen i KResult (Some (Payload payload)))) (limits_of c) = Inr (envelope gen i KResult (Some (Payload payload)))"
proof -
  have "max_frame_bytes (limits_of c) < 2 ^ 32" using assms(1) by (auto simp: limits_ok_def above_ceiling_def)
  with assms(4) have "length payload < 2 ^ 32" by (simp add: encoded_len_def envelope_def)
  then have "frame_ok (envelope gen i KResult (Some (Payload payload)))" by (simp add: frame_ok_def envelope_def)
  moreover have "validate_frame (envelope gen i KResult (Some (Payload payload))) (limits_of c) = Inr ()"
    using assms(2,3) unfolding validate_frame_def envelope_def ipc_frame.simps kind_try_from_i32 by (simp add: is_payload_def)
  ultimately show ?thesis using assms(4) by (simp add: decode_frame_iff)
qed

text \<open>
  C13. A handler's result reaches the renderer as one frame, which takes the call's control slot and which the renderer's codec accepts
  and reads as the call's answer. The answer is the payload exactly when the result is one, came before the deadline and its frame (34
  bytes of envelope and the payload) can be queued: it is no longer than a control frame, or it is within the frame limit, the bytes left
  in the queue and the memory the shared budget grants. Otherwise it is the error frame of the passed deadline, of the handler's error,
  or of a payload that is too large, with that error's code.
\<close>

theorem complete_incoming_answers:
  assumes "configured (limits_of c)" "dc_generation d \<noteq> 0" "i \<noteq> 0" "map_of (dc_incoming d) i = Some p"
    and "\<And>e. result = Inl e \<Longrightarrow> ipc_error_utf8 e"
    and "complete_incoming c memory now i result d = (r, d')"
  shows "r = Inr (Some (ic_deadline p)) \<and> i \<notin> fst ` set (dc_incoming d') \<and>
    (\<exists>q f. dc_queue d' = dc_queue d @ [q] \<and> qd_control q \<and> decode_frame (qd_bytes q) (limits_of c) = Inr f
      \<and> frame_id f = i \<and> generation f = dc_generation d
      \<and> (case (if ic_deadline p \<le> now then Inl DeadlineExceeded
            else case result of Inl e \<Rightarrow> Inl (err_code e)
            | Inr payload \<Rightarrow>
                if 34 + length payload \<le> max_error_text_bytes_total (limits_of c) + 128
                  \<or> 34 + length payload \<le> max_frame_bytes (limits_of c) \<and> memory
                    \<and> dc_data_bytes d + int (34 + length payload) \<le> int (max_queued_bytes_per_direction (limits_of c))
                then Inr payload else Inl PayloadTooLarge) of
          Inr payload \<Rightarrow> frame_kind f = kind_i32 KResult \<and> body f = Some (Payload payload)
        | Inl code \<Rightarrow> frame_kind f = kind_i32 KError \<and> (\<exists>w. body f = Some (ErrorBody w) \<and>
            err_code (err_from_wire w (max_error_text_bytes_total (limits_of c))) = code)))"
proof -
  have L: "limits_ok (limits_of c)" using configured_shape [OF assms(1)] by blast
  define res where "res = (if ic_deadline p \<le> now then Inl (fail DeadlineExceeded) else result)"
  define k where "k = (case res of Inr _ \<Rightarrow> KResult | Inl _ \<Rightarrow> KError)"
  define b where "b = (case res of Inr payload \<Rightarrow> Some (Payload payload) | Inl e \<Rightarrow> error_body c e)"
  let ?d = "d\<lparr>dc_incoming := AList.delete i (dc_incoming d)\<rparr>"
  let ?frame = "envelope (dc_generation d) i k b"
  let ?error = "\<lambda>e. envelope (dc_generation d) i KError (error_body c e)"
  define sent where "sent = (if queueable c memory d (encoded_len ?frame) then ?frame else ?error (fail PayloadTooLarge))"
  have out: "r = Inr (Some (ic_deadline p))" "d' = enqueue_control c memory i k b ?d"
    using assms(4,6) by (auto simp: complete_incoming_def res_def [symmetric] k_def b_def Let_def split: sum.splits prod.splits)
  have "queueable c memory ?d = queueable c memory d" by (simp add: fun_eq_iff queueable_def)
  then have queue: "dc_queue d' = dc_queue d @ [\<lparr>qd_bytes = encode_to_vec sent, qd_control = True\<rparr>]"
    using enqueue_control_sent [of c memory i k b ?d] by (simp add: out(2) sent_def)
  have removed: "i \<notin> fst ` set (dc_incoming d')"
    by (simp add: out(2) enqueue_control_def Let_def AList.delete_notin_dom split: prod.splits if_splits)
  let ?answers = "\<lambda>f. \<lambda>a. case a of
      Inr payload \<Rightarrow> frame_kind f = kind_i32 KResult \<and> body f = Some (Payload payload)
    | Inl code \<Rightarrow> frame_kind f = kind_i32 KError \<and> (\<exists>w. body f = Some (ErrorBody w) \<and>
        err_code (err_from_wire w (max_error_text_bytes_total (limits_of c))) = code)"
  let ?answer = "case res of Inl e \<Rightarrow> Inl (err_code e)
    | Inr payload \<Rightarrow> if queueable c memory d (34 + length payload) then Inr payload else Inl PayloadTooLarge"
  have error: "decode_frame (encode_to_vec (?error e)) (limits_of c) = Inr (?error e) \<and> ?answers (?error e) (Inl (err_code e))"
    if "ipc_error_utf8 e" for e
    using error_envelope_decode [OF assms(1-3) that] by (simp add: envelope_kind)
  have "decode_frame (encode_to_vec sent) (limits_of c) = Inr sent \<and> ?answers sent ?answer"
  proof (cases res)
    case (Inl e)
    have "ipc_error_utf8 e" using Inl assms(5) fail_utf8 by (auto simp: res_def split: if_splits)
    moreover have "sent = ?error e"
      using Inl error_envelope_fits [of "dc_generation d" i KError c e] by (simp add: sent_def k_def b_def queueable_def)
    ultimately show ?thesis using error [of e] Inl by simp
  next
    case (Inr payload)
    then have frame: "?frame = envelope (dc_generation d) i KResult (Some (Payload payload))" by (simp add: k_def b_def)
    then have len: "encoded_len ?frame = 34 + length payload" by (simp add: encoded_len_def envelope_def HEADER_LEN_def)
    show ?thesis
    proof (cases "queueable c memory d (34 + length payload)")
      case True
      then have "sent = envelope (dc_generation d) i KResult (Some (Payload payload))"
        using len unfolding sent_def frame by (simp only: if_True)
      with result_envelope_decode [OF L assms(2,3), of payload] queueable_frame [OF L True] len frame True Inr show ?thesis
        by (simp add: envelope_def)
    next
      case False
      then have "sent = ?error (fail PayloadTooLarge)" by (simp only: sent_def len if_False)
      with error [OF fail_utf8, of PayloadTooLarge] False Inr show ?thesis by (simp add: fail_code)
    qed
  qed
  moreover have "?answer = (if ic_deadline p \<le> now then Inl DeadlineExceeded
      else case result of Inl e \<Rightarrow> Inl (err_code e)
      | Inr payload \<Rightarrow>
          if 34 + length payload \<le> max_error_text_bytes_total (limits_of c) + 128
            \<or> 34 + length payload \<le> max_frame_bytes (limits_of c) \<and> memory
              \<and> dc_data_bytes d + int (34 + length payload) \<le> int (max_queued_bytes_per_direction (limits_of c))
          then Inr payload else Inl PayloadTooLarge)"
    by (cases result) (auto simp: res_def fail_code queueable_def)
  moreover have "frame_id sent = i" "generation sent = dc_generation d" by (simp_all add: sent_def envelope_def)
  ultimately show ?thesis using out(1) removed queue by auto
qed

theorem complete_incoming_answers_witness:
  "\<exists>q f. dc_queue (snd (complete_incoming demo_config True 0 7 (Inr [42]) (demo_document\<lparr>dc_incoming := [(7, \<lparr>ic_deadline = 10\<rparr>)]\<rparr>))) = [q]
    \<and> decode_frame (qd_bytes q) default_limits = Inr f \<and> frame_id f = 7 \<and> body f = Some (Payload [42])"
proof -
  let ?d = "demo_document\<lparr>dc_incoming := [(7, \<lparr>ic_deadline = 10\<rparr>)]\<rparr>"
  have d: "configured (limits_of demo_config)" "dc_generation ?d \<noteq> 0" "map_of (dc_incoming ?d) 7 = Some \<lparr>ic_deadline = 10\<rparr>" "dc_queue ?d = []"
    by (simp_all add: configured.intros(1) demo_document_def document_new_def)
  obtain r d' where out: "complete_incoming demo_config True 0 7 (Inr [42]) ?d = (r, d')" by fastforce
  have "\<exists>q f. dc_queue d' = dc_queue ?d @ [q] \<and> decode_frame (qd_bytes q) (limits_of demo_config) = Inr f \<and> frame_id f = 7 \<and> body f = Some (Payload [42])"
    using complete_incoming_answers [OF d(1,2) _ d(3) _ out] by auto
  then show ?thesis unfolding out d(4) demo_limits by simp
qed

end
