(* ===== verification/Render_Plan.thy ===== *)
theory Render_Plan
  imports Style_Closures Html_Encode
begin

text \<open>
  Attribute names (\<open>crates/webui-protocol/src/attrs.rs\<close>) and the render plan that is prepared
  when a protocol is loaded (\<open>RenderFragmentIndex\<close> in \<open>crates/webui-handler/src/lib.rs\<close>, the
  slots of \<open>Protocol::new_with_style_metadata\<close> in \<open>route_handler.rs\<close>): numeric slots instead of
  fragment identifiers, prepared targets and property names, one bit per list with routes.

  \<open>up\<close> is the upper-case mapping of \<open>char::to_uppercase\<close> on one character beyond ASCII.
\<close>

unbundle bit_operations_syntax

section \<open>Attribute names\<close>

definition attr_mappings :: "(string \<times> string) list" where
  "attr_mappings = [
    (''ariaActiveDescendant'', ''aria-activedescendant''), (''ariaAutoComplete'', ''aria-autocomplete''),
    (''ariaBrailleLabel'', ''aria-braillelabel''), (''ariaBrailleRoleDescription'', ''aria-brailleroledescription''),
    (''ariaColCount'', ''aria-colcount''), (''ariaColIndex'', ''aria-colindex''),
    (''ariaColIndexText'', ''aria-colindextext''), (''ariaColSpan'', ''aria-colspan''),
    (''ariaDescribedBy'', ''aria-describedby''), (''ariaDropEffect'', ''aria-dropeffect''),
    (''ariaErrorMessage'', ''aria-errormessage''), (''ariaFlowTo'', ''aria-flowto''),
    (''ariaHasPopup'', ''aria-haspopup''), (''ariaKeyShortcuts'', ''aria-keyshortcuts''),
    (''ariaLabelledBy'', ''aria-labelledby''), (''ariaMultiLine'', ''aria-multiline''),
    (''ariaMultiSelectable'', ''aria-multiselectable''), (''ariaPosInSet'', ''aria-posinset''),
    (''ariaReadOnly'', ''aria-readonly''), (''ariaRoleDescription'', ''aria-roledescription''),
    (''ariaRowCount'', ''aria-rowcount''), (''ariaRowIndex'', ''aria-rowindex''),
    (''ariaRowIndexText'', ''aria-rowindextext''), (''ariaRowSpan'', ''aria-rowspan''),
    (''ariaSetSize'', ''aria-setsize''), (''ariaValueMax'', ''aria-valuemax''),
    (''ariaValueMin'', ''aria-valuemin''), (''ariaValueNow'', ''aria-valuenow''),
    (''ariaValueText'', ''aria-valuetext''), (''accessKey'', ''accesskey''),
    (''autoCapitalize'', ''autocapitalize''), (''contentEditable'', ''contenteditable''),
    (''crossOrigin'', ''crossorigin''), (''dirName'', ''dirname''), (''fetchPriority'', ''fetchpriority''),
    (''formAction'', ''formaction''), (''formEnctype'', ''formenctype''), (''formMethod'', ''formmethod''),
    (''formNoValidate'', ''formnovalidate''), (''formTarget'', ''formtarget''), (''inputMode'', ''inputmode''),
    (''isMap'', ''ismap''), (''maxLength'', ''maxlength''), (''minLength'', ''minlength''),
    (''noModule'', ''nomodule''), (''noValidate'', ''novalidate''), (''readOnly'', ''readonly''),
    (''referrerPolicy'', ''referrerpolicy''), (''tabIndex'', ''tabindex''), (''useMap'', ''usemap'')]"

definition property_to_attribute :: "string \<Rightarrow> string option" where
  "property_to_attribute name = map_of attr_mappings name"

definition attribute_to_property :: "string \<Rightarrow> string option" where
  "attribute_to_property name = map_of (map prod.swap attr_mappings) name"

definition ascii_upper :: "char \<Rightarrow> char" where
  "ascii_upper c = (let n = of_char c :: nat in if 97 \<le> n \<and> n \<le> 122 then char_of (n - 32) else c)"

definition to_uppercase :: "(string \<Rightarrow> string) \<Rightarrow> string \<Rightarrow> string" where
  "to_uppercase up ch = (case ch of [c] \<Rightarrow> if (of_char c :: nat) < 128 then [ascii_upper c] else up ch | _ \<Rightarrow> up ch)"

text \<open>The loop over the characters: a dash is dropped and the character after it is capitalised.\<close>

function camel_loop :: "(string \<Rightarrow> string) \<Rightarrow> bool \<Rightarrow> string \<Rightarrow> string" where
  "camel_loop up capitalize_next s =
     (case s of
        [] \<Rightarrow> []
      | c # rest \<Rightarrow>
          if c = CHR ''-'' then camel_loop up True rest
          else let n = max 1 (utf8_len (bytes_of s)) in
            (if capitalize_next then to_uppercase up (take n s) else take n s) @ camel_loop up False (drop n s))"
  by pat_completeness auto
termination by (relation "measure (\<lambda>(up, b, s). length s)") auto

declare camel_loop.simps [simp del]

definition attribute_to_camel :: "(string \<Rightarrow> string) \<Rightarrow> string \<Rightarrow> string" where
  "attribute_to_camel up name = (case attribute_to_property name of
     Some prop \<Rightarrow> prop
   | None \<Rightarrow> camel_loop up False name)"

definition strip_colon :: "string \<Rightarrow> string" where
  "strip_colon name = (case strip_prefix '':'' name of Some r \<Rightarrow> r | None \<Rightarrow> name)"

definition push_component_attr_name :: "(string \<Rightarrow> string) \<Rightarrow> string \<Rightarrow> string \<Rightarrow> string" where
  "push_component_attr_name up buffer name =
     (let stripped = strip_colon name in
      case attribute_to_property stripped of
        Some prop \<Rightarrow> buffer @ prop
      | None \<Rightarrow> buffer @ camel_loop up False stripped)"

lemma push_component_attr_name_eq:
  "push_component_attr_name up buffer name = buffer @ attribute_to_camel up (strip_colon name)"
  by (simp add: push_component_attr_name_def attribute_to_camel_def Let_def split: option.split)

definition component_attr_source :: "web_ui_attribute \<Rightarrow> string" where
  "component_attr_source a =
     (if attr_condition_tree a = None \<and> attr_template a = [] \<and> attr_value a \<noteq> [] \<and> \<not> attr_raw_value a \<and> attr_complex a
      then strip_colon (attr_name a) else attr_name a)"

section \<open>The index\<close>

definition NO_RENDER_SLOT :: u32 where
  "NO_RENDER_SLOT = 2 ^ 32 - 1"

definition NO_ATTR_NAME :: u32 where
  "NO_ATTR_NAME = 2 ^ 32 - 1"

record render_fragment_metadata =
  m_target :: u32
  m_attr_start :: u32
  m_attr_len :: u32

record render_fragment_index =
  ri_ids :: "string list"
  ri_metadata :: "render_fragment_metadata list"
  ri_ranges :: "u32 list"
  ri_attr_names :: string
  ri_route_presence :: "u64 list"

record render_fragment_list =
  rl_fragments :: "web_ui_fragment list"
  rl_metadata :: "render_fragment_metadata list"
  rl_attr_names :: string
  rl_contains_boundary :: bool
  rl_has_routes :: bool

definition fragment_target_id :: "web_ui_fragment \<Rightarrow> string option" where
  "fragment_target_id f = (case f of
     Some (FComponent c) \<Rightarrow> Some c
   | Some (FForLoop l) \<Rightarrow> Some (for_fragment_id l)
   | Some (FIfCond i) \<Rightarrow> Some (if_fragment_id i)
   | Some (FAttribute a) \<Rightarrow> if attr_template a \<noteq> [] then Some (attr_template a) else None
   | _ \<Rightarrow> None)"

definition is_route :: "web_ui_fragment \<Rightarrow> bool" where
  "is_route f = (case f of Some (FRoute _) \<Rightarrow> True | _ \<Rightarrow> False)"

text \<open>One fragment of a list: its metadata, the grown name arena, and whether a route was seen.\<close>

definition prepare_fragment ::
  "(string \<Rightarrow> string) \<Rightarrow> (string \<rightharpoonup> u32) \<Rightarrow> web_ui_fragment \<Rightarrow>
   render_fragment_metadata list \<times> string \<times> bool \<Rightarrow> render_fragment_metadata list \<times> string \<times> bool" where
  "prepare_fragment up slot_of f acc = (case acc of (metadata, attr_names, has_routes) \<Rightarrow>
     let target = (case Option.bind (fragment_target_id f) slot_of of Some s \<Rightarrow> s | None \<Rightarrow> NO_RENDER_SLOT) in
     case f of
       Some (FAttribute a) \<Rightarrow>
         if \<not> attr_skip a then
           let names' = push_component_attr_name up attr_names (component_attr_source a) in
           (metadata @ [\<lparr>m_target = target, m_attr_start = word_of_nat (length attr_names),
              m_attr_len = word_of_nat (length names' - length attr_names)\<rparr>], names', has_routes)
         else (metadata @ [\<lparr>m_target = target, m_attr_start = NO_ATTR_NAME, m_attr_len = 0\<rparr>], attr_names, has_routes)
     | _ \<Rightarrow> (metadata @ [\<lparr>m_target = target, m_attr_start = NO_ATTR_NAME, m_attr_len = 0\<rparr>], attr_names,
              has_routes \<or> is_route f))"

fun index_loop_lists ::
  "(string \<Rightarrow> string) \<Rightarrow> (string \<times> fragment_list) list \<Rightarrow> (string \<rightharpoonup> u32) \<Rightarrow> nat \<Rightarrow> string list \<Rightarrow>
   render_fragment_index \<Rightarrow> render_fragment_index" where
  "index_loop_lists up frags slot_of n [] ix = ix"
| "index_loop_lists up frags slot_of n (i # ids) ix =
     (let ix = ix\<lparr>ri_ranges := ri_ranges ix @ [word_of_nat (length (ri_metadata ix))]\<rparr> in
      case map_of frags i of
        None \<Rightarrow> index_loop_lists up frags slot_of (n + 1) ids ix
      | Some fl \<Rightarrow>
          (case fold (prepare_fragment up slot_of) (fragments fl) (ri_metadata ix, ri_attr_names ix, False) of
             (metadata, names, has_routes) \<Rightarrow>
               index_loop_lists up frags slot_of (n + 1) ids
                 (ix\<lparr>ri_metadata := metadata, ri_attr_names := names,
                     ri_route_presence := (if has_routes
                       then (ri_route_presence ix)[n div 64 := (ri_route_presence ix ! (n div 64)) OR push_bit (n mod 64) 1]
                       else ri_route_presence ix)\<rparr>)))"

definition index_new ::
  "(string \<Rightarrow> string) \<Rightarrow> web_ui_protocol \<Rightarrow> string list \<Rightarrow> (string \<rightharpoonup> u32) \<Rightarrow> render_fragment_index" where
  "index_new up p ids slot_of =
     (let ix = index_loop_lists up (p_fragments p) slot_of 0 ids
        \<lparr>ri_ids = ids, ri_metadata = [], ri_ranges = [], ri_attr_names = [],
         ri_route_presence = replicate ((length ids + 63) div 64) 0\<rparr>
      in ix\<lparr>ri_ranges := ri_ranges ix @ [word_of_nat (length (ri_metadata ix))]\<rparr>)"

text \<open>The sorted identifiers and the slot map of the runtime protocol.\<close>

definition fragment_ids :: "web_ui_protocol \<Rightarrow> string list" where
  "fragment_ids p = sort (map fst (p_fragments p))"

definition fragment_slots :: "web_ui_protocol \<Rightarrow> string \<rightharpoonup> u32" where
  "fragment_slots p = map_of (zip (fragment_ids p) (map word_of_nat [0..<length (fragment_ids p)]))"

definition render_index :: "(string \<Rightarrow> string) \<Rightarrow> web_ui_protocol \<Rightarrow> render_fragment_index" where
  "render_index up p = index_new up p (fragment_ids p) (fragment_slots p)"

text \<open>\<open>binary_search_by\<close>: the window \<open>[base, base + width)\<close> is halved until one place is left.\<close>

function search_window :: "'a::linorder list \<Rightarrow> 'a \<Rightarrow> nat \<Rightarrow> nat \<Rightarrow> nat option" where
  "search_window xs x base width =
     (if width = 0 then None
      else if width = 1 then (if xs ! base = x then Some base else None)
      else search_window xs x (if x < xs ! (base + width div 2) then base else base + width div 2) (width - width div 2))"
  by pat_completeness auto
termination by (relation "measure (\<lambda>(_, _, _, width). width)") auto

declare search_window.simps [simp del]

definition ri_index :: "render_fragment_index \<Rightarrow> string \<Rightarrow> nat option" where
  "ri_index ix i = search_window (ri_ids ix) i 0 (length (ri_ids ix))"

definition nth_opt :: "'a list \<Rightarrow> nat \<Rightarrow> 'a option" where
  "nth_opt xs i = (if i < length xs then Some (xs ! i) else None)"

definition range_opt :: "'a list \<Rightarrow> nat \<Rightarrow> nat \<Rightarrow> 'a list option" where
  "range_opt xs a b = (if a \<le> b \<and> b \<le> length xs then Some (take (b - a) (drop a xs)) else None)"

text \<open>
  \<open>ResolvedRenderFragmentIndex::list\<close>.  Its memo cell for a slot holds what the protocol's map
  holds under the slot's identifier, so reading through it is reading the map.
\<close>

definition ri_list :: "web_ui_protocol \<Rightarrow> render_fragment_index \<Rightarrow> nat \<Rightarrow> render_fragment_list option" where
  "ri_list p ix n =
     Option.bind (nth_opt (ri_ids ix) n) (\<lambda>i.
     Option.bind (map_of (p_fragments p) i) (\<lambda>fl.
     Option.bind (nth_opt (ri_ranges ix) n) (\<lambda>a.
     Option.bind (nth_opt (ri_ranges ix) (n + 1)) (\<lambda>b.
     Option.bind (range_opt (ri_metadata ix) (unat a) (unat b)) (\<lambda>md.
     Some \<lparr>rl_fragments = fragments fl, rl_metadata = md, rl_attr_names = ri_attr_names ix,
       rl_contains_boundary = contains_boundary fl,
       rl_has_routes = (case nth_opt (ri_route_presence ix) (n div 64) of
          Some word \<Rightarrow> word AND push_bit (n mod 64) 1 \<noteq> 0
        | None \<Rightarrow> False)\<rparr>)))))"

definition rl_target :: "render_fragment_list \<Rightarrow> nat \<Rightarrow> nat option" where
  "rl_target l i = (case nth_opt (rl_metadata l) i of
     None \<Rightarrow> None
   | Some m \<Rightarrow> if m_target m \<noteq> NO_RENDER_SLOT then Some (unat (m_target m)) else None)"

text \<open>The range was cut where whole names were appended, so it falls on character boundaries.\<close>

definition component_attr_name :: "render_fragment_list \<Rightarrow> nat \<Rightarrow> string option" where
  "component_attr_name l i = (case nth_opt (rl_metadata l) i of
     None \<Rightarrow> None
   | Some m \<Rightarrow>
       if m_attr_start m = NO_ATTR_NAME then None
       else range_opt (rl_attr_names l) (unat (m_attr_start m)) (unat (m_attr_start m) + unat (m_attr_len m)))"

section \<open>What the loops build\<close>

text \<open>The property name an attribute fragment is prepared with.\<close>

definition prop_name :: "(string \<Rightarrow> string) \<Rightarrow> web_ui_fragment \<Rightarrow> string option" where
  "prop_name up f = (case f of
     Some (FAttribute a) \<Rightarrow>
       if attr_skip a then None else Some (attribute_to_camel up (strip_colon (component_attr_source a)))
   | _ \<Rightarrow> None)"

definition target_word :: "(string \<rightharpoonup> u32) \<Rightarrow> web_ui_fragment \<Rightarrow> u32" where
  "target_word slot_of f = (case Option.bind (fragment_target_id f) slot_of of Some s \<Rightarrow> s | None \<Rightarrow> NO_RENDER_SLOT)"

text \<open>The metadata of one fragment, with its name at its place in the arena.\<close>

definition prepared ::
  "(string \<Rightarrow> string) \<Rightarrow> (string \<rightharpoonup> u32) \<Rightarrow> string \<Rightarrow> render_fragment_metadata \<Rightarrow> web_ui_fragment \<Rightarrow> bool" where
  "prepared up slot_of names m f \<longleftrightarrow> m_target m = target_word slot_of f \<and>
     (case prop_name up f of
        None \<Rightarrow> m_attr_start m = NO_ATTR_NAME
      | Some name \<Rightarrow> (\<exists>a b. names = a @ name @ b \<and> m_attr_start m = word_of_nat (length a) \<and>
          m_attr_len m = word_of_nat (length name)))"

lemma prepared_grow: "prepared up slot_of names m f \<Longrightarrow> prepared up slot_of (names @ ext) m f"
  by (auto simp: prepared_def split: option.splits) (metis append.assoc)

lemma prepare_fragment_attr:
  assumes "f = Some (FAttribute a)" "\<not> attr_skip a"
  shows "\<exists>m. prepare_fragment up slot_of f (md, names, routes) =
      (md @ [m], names @ attribute_to_camel up (strip_colon (component_attr_source a)), routes \<or> is_route f) \<and>
    prepared up slot_of (names @ attribute_to_camel up (strip_colon (component_attr_source a))) m f"
proof -
  have "\<exists>x y. names @ s = x @ s @ y \<and> word_of_nat (length names) = (word_of_nat (length x) :: u32)" for s
    by (rule exI [of _ names], rule exI [of _ "[]"]) simp
  with assms show ?thesis
    by (auto simp: prepare_fragment_def prepared_def prop_name_def target_word_def is_route_def
        push_component_attr_name_eq Let_def)
qed

lemma prepare_fragment_eq:
  "\<exists>m ext. prepare_fragment up slot_of f (md, names, routes) = (md @ [m], names @ ext, routes \<or> is_route f) \<and>
     prepared up slot_of (names @ ext) m f"
proof (cases "\<exists>a. f = Some (FAttribute a) \<and> \<not> attr_skip a")
  case True
  then show ?thesis using prepare_fragment_attr by blast
next
  case False
  then have "\<exists>m. prepare_fragment up slot_of f (md, names, routes) = (md @ [m], names, routes \<or> is_route f) \<and>
      prepared up slot_of names m f"
    by (cases f; cases "the f")
      (auto simp: prepare_fragment_def prepared_def prop_name_def target_word_def is_route_def Let_def)
  then show ?thesis by (metis append_Nil2)
qed

lemma prepare_fragments:
  "\<exists>ms ext. fold (prepare_fragment up slot_of) fs (md, names, routes) =
       (md @ ms, names @ ext, routes \<or> list_ex is_route fs) \<and>
     list_all2 (prepared up slot_of (names @ ext)) ms fs"
proof (induction fs arbitrary: md names routes)
  case (Cons f fs)
  obtain m ext1 where 1: "prepare_fragment up slot_of f (md, names, routes) = (md @ [m], names @ ext1, routes \<or> is_route f)"
    "prepared up slot_of (names @ ext1) m f"
    using prepare_fragment_eq by blast
  obtain ms ext2 where 2: "fold (prepare_fragment up slot_of) fs (md @ [m], names @ ext1, routes \<or> is_route f) =
      ((md @ [m]) @ ms, (names @ ext1) @ ext2, (routes \<or> is_route f) \<or> list_ex is_route fs)"
    "list_all2 (prepared up slot_of ((names @ ext1) @ ext2)) ms fs"
    using Cons.IH by blast
  have "list_all2 (prepared up slot_of (names @ (ext1 @ ext2))) (m # ms) (f # fs)"
    using 1(2) 2(2) prepared_grow [of up slot_of "names @ ext1" m f ext2] by simp
  with 1(1) 2(1) show ?case
    by (intro exI [of _ "m # ms"] exI [of _ "ext1 @ ext2"]) simp
qed simp

definition frags_of :: "(string \<times> fragment_list) list \<Rightarrow> string \<Rightarrow> web_ui_fragment list" where
  "frags_of frags i = (case map_of frags i of Some fl \<Rightarrow> fragments fl | None \<Rightarrow> [])"

definition offset :: "(string \<times> fragment_list) list \<Rightarrow> string list \<Rightarrow> nat \<Rightarrow> nat" where
  "offset frags ids n = sum_list (map (\<lambda>i. length (frags_of frags i)) (take n ids))"

text \<open>The bit of a slot in the route bit set.\<close>

definition route_bit :: "u64 list \<Rightarrow> nat \<Rightarrow> bool" where
  "route_bit ws n \<longleftrightarrow> bit (ws ! (n div 64)) (n mod 64)"

lemma route_bit_set:
  assumes "n div 64 < length ws"
  shows "route_bit (ws[n div 64 := (ws ! (n div 64)) OR push_bit (n mod 64) 1]) k \<longleftrightarrow> k = n \<or> route_bit ws k"
proof (cases "k div 64 = n div 64")
  case True
  then have "k mod 64 = n mod 64 \<longleftrightarrow> k = n" by (metis div_mult_mod_eq)
  with True assms show ?thesis
    by (auto simp: route_bit_def bit_or_iff bit_exp_iff)
qed (use assms in \<open>auto simp: route_bit_def\<close>)

text \<open>The outer loop: one block of metadata, one range start and one bit per list.\<close>

lemma index_loop_lists:
  assumes "n + length ids \<le> 64 * length (ri_route_presence ix)" "\<forall>i \<in> set ids. map_of frags i \<noteq> None"
  shows "\<exists>mss ext. let ix' = index_loop_lists up frags slot_of n ids ix in
     ri_ids ix' = ri_ids ix \<and> length mss = length ids \<and>
     ri_metadata ix' = ri_metadata ix @ concat mss \<and>
     ri_ranges ix' = ri_ranges ix @ map (\<lambda>k. word_of_nat (length (ri_metadata ix) + offset frags ids k)) [0..<length ids] \<and>
     ri_attr_names ix' = ri_attr_names ix @ ext \<and>
     list_all2 (\<lambda>ms i. list_all2 (prepared up slot_of (ri_attr_names ix')) ms (frags_of frags i)) mss ids \<and>
     length (ri_route_presence ix') = length (ri_route_presence ix) \<and>
     (\<forall>k. route_bit (ri_route_presence ix') k \<longleftrightarrow>
        (n \<le> k \<and> k < n + length ids \<and> list_ex is_route (frags_of frags (ids ! (k - n)))) \<or> route_bit (ri_route_presence ix) k)"
  using assms
proof (induction ids arbitrary: n ix)
  case (Cons i ids)
  obtain fl where fl: "map_of frags i = Some fl" using Cons.prems(2) by auto
  obtain ms ext1 where p: "fold (prepare_fragment up slot_of) (fragments fl) (ri_metadata ix, ri_attr_names ix, False) =
      (ri_metadata ix @ ms, ri_attr_names ix @ ext1, list_ex is_route (fragments fl))"
    "list_all2 (prepared up slot_of (ri_attr_names ix @ ext1)) ms (fragments fl)"
    using prepare_fragments [of up slot_of "fragments fl" "ri_metadata ix" "ri_attr_names ix" False] by auto
  define jx where "jx = ix\<lparr>ri_ranges := ri_ranges ix @ [word_of_nat (length (ri_metadata ix))],
    ri_metadata := ri_metadata ix @ ms, ri_attr_names := ri_attr_names ix @ ext1,
    ri_route_presence := (if list_ex is_route (fragments fl)
      then (ri_route_presence ix)[n div 64 := (ri_route_presence ix ! (n div 64)) OR push_bit (n mod 64) 1]
      else ri_route_presence ix)\<rparr>"
  have step: "index_loop_lists up frags slot_of n (i # ids) ix = index_loop_lists up frags slot_of (n + 1) ids jx"
    using fl p(1) by (simp add: jx_def)
  have "(n + 1) + length ids \<le> 64 * length (ri_route_presence jx)" "\<forall>i \<in> set ids. map_of frags i \<noteq> None"
    using Cons.prems by (auto simp: jx_def)
  from Cons.IH [OF this] obtain mss ext2 where IH:
    "ri_ids (index_loop_lists up frags slot_of (n + 1) ids jx) = ri_ids jx" "length mss = length ids"
    "ri_metadata (index_loop_lists up frags slot_of (n + 1) ids jx) = ri_metadata jx @ concat mss"
    "ri_ranges (index_loop_lists up frags slot_of (n + 1) ids jx) =
       ri_ranges jx @ map (\<lambda>k. word_of_nat (length (ri_metadata jx) + offset frags ids k)) [0..<length ids]"
    "ri_attr_names (index_loop_lists up frags slot_of (n + 1) ids jx) = ri_attr_names jx @ ext2"
    "list_all2 (\<lambda>ms i. list_all2 (prepared up slot_of (ri_attr_names jx @ ext2)) ms (frags_of frags i)) mss ids"
    "length (ri_route_presence (index_loop_lists up frags slot_of (n + 1) ids jx)) = length (ri_route_presence jx)"
    "\<And>k. route_bit (ri_route_presence (index_loop_lists up frags slot_of (n + 1) ids jx)) k \<longleftrightarrow>
        (n + 1 \<le> k \<and> k < n + 1 + length ids \<and> list_ex is_route (frags_of frags (ids ! (k - (n + 1))))) \<or>
        route_bit (ri_route_presence jx) k"
    by (auto simp: Let_def)
  have names: "ri_attr_names jx = ri_attr_names ix @ ext1" by (simp add: jx_def)
  have "list_all2 (prepared up slot_of (ri_attr_names jx @ ext2)) ms (frags_of frags i)"
    unfolding frags_of_def fl names option.case
    by (rule list_all2_mono [OF p(2)]) (rule prepared_grow)
  note ms = this
  have len: "length ms = length (frags_of frags i)"
    using list_all2_lengthD [OF p(2)] fl by (simp add: frags_of_def)
  have off: "offset frags (i # ids) (Suc k) = length ms + offset frags ids k" for k
    by (simp add: offset_def len)
  have upt: "[0..<length (i # ids)] = 0 # map Suc [0..<length ids]"
    by (simp add: upt_conv_Cons map_Suc_upt del: upt_Suc)
  have ranges: "ri_ranges (index_loop_lists up frags slot_of (n + 1) ids jx) =
      ri_ranges ix @ map (\<lambda>k. word_of_nat (length (ri_metadata ix) + offset frags (i # ids) k)) [0..<length (i # ids)]"
    unfolding IH(4) upt by (simp add: jx_def off comp_def add.assoc) (simp add: offset_def)
  have "n div 64 < length (ri_route_presence ix)"
    using Cons.prems(1) by (simp add: less_mult_imp_div_less)
  then have "route_bit (ri_route_presence jx) k \<longleftrightarrow>
      k = n \<and> list_ex is_route (frags_of frags i) \<or> route_bit (ri_route_presence ix) k" for k
    using fl by (auto simp: jx_def frags_of_def route_bit_set [unfolded push_bit_of_1])
  then have bits: "route_bit (ri_route_presence (index_loop_lists up frags slot_of (n + 1) ids jx)) k \<longleftrightarrow>
      (n \<le> k \<and> k < n + length (i # ids) \<and> list_ex is_route (frags_of frags ((i # ids) ! (k - n)))) \<or>
      route_bit (ri_route_presence ix) k" for k
    unfolding IH(8) by (cases "k = n") (auto simp: nth_Cons' Suc_le_eq)
  have "length (ri_route_presence jx) = length (ri_route_presence ix)" by (simp add: jx_def)
  then show ?case
    unfolding step Let_def using IH(1,2,3,5,6,7) ms ranges bits names
    by (intro exI [of _ "ms # mss"] exI [of _ "ext1 @ ext2"]) (simp add: jx_def)
qed (auto simp: offset_def)

section \<open>Reading the index\<close>

lemma concat_block:
  assumes "s < length mss"
  shows "length (concat (take (Suc s) mss)) = length (concat (take s mss)) + length (mss ! s)"
    and "take (length (mss ! s)) (drop (length (concat (take s mss))) (concat mss)) = mss ! s"
    and "length (concat (take (Suc s) mss)) \<le> length (concat mss)"
proof -
  show "length (concat (take (Suc s) mss)) = length (concat (take s mss)) + length (mss ! s)"
    using assms by (simp add: take_Suc_conv_app_nth)
  have "concat mss = concat (take s mss) @ mss ! s @ concat (drop (Suc s) mss)"
    using id_take_nth_drop [OF assms] by (metis concat.simps(2) concat_append)
  then show "take (length (mss ! s)) (drop (length (concat (take s mss))) (concat mss)) = mss ! s" by simp
  show "length (concat (take (Suc s) mss)) \<le> length (concat mss)"
    by (metis append_take_drop_id concat_append le_add1 length_append)
qed

lemma offset_concat:
  assumes "list_all2 (\<lambda>ms i. length ms = length (frags_of frags i)) mss ids"
  shows "length (concat (take k mss)) = offset frags ids k"
  using assms by (induction mss ids arbitrary: k rule: list_all2_induct) (auto simp: offset_def take_Cons' split: nat.splits)

lemma position_Cons: "position P (y # xs) = (if P y then Some 0 else map_option Suc (position P xs))"
  by (auto simp: position_def Let_def)

lemma position_eq_iff: "distinct xs \<Longrightarrow> position (\<lambda>c. c = x) xs = Some n \<longleftrightarrow> n < length xs \<and> xs ! n = x"
proof (induction xs arbitrary: n)
  case (Cons y xs)
  show ?case
  proof (cases n)
    case (Suc m)
    show ?thesis
    proof (cases "y = x")
      case True
      then have "\<not> (m < length xs \<and> xs ! m = x)" using Cons.prems nth_mem by fastforce
      with True Suc show ?thesis by (simp add: position_Cons)
    next
      case False
      with Suc Cons.IH [of m] Cons.prems show ?thesis by (simp add: position_Cons)
    qed
  qed (simp add: position_Cons)
qed (simp add: position_def)

definition plan_fits :: "(string \<Rightarrow> string) \<Rightarrow> web_ui_protocol \<Rightarrow> bool" where
  "plan_fits up p \<longleftrightarrow> distinct (map fst (p_fragments p)) \<and> length (p_fragments p) < 2 ^ 32 - 1 \<and>
     length (ri_metadata (render_index up p)) < 2 ^ 32 \<and> length (ri_attr_names (render_index up p)) < 2 ^ 32 - 1"

lemma fragment_ids_facts:
  "distinct (map fst (p_fragments p)) \<Longrightarrow> distinct (fragment_ids p)"
  "set (fragment_ids p) = fst ` set (p_fragments p)"
  "length (fragment_ids p) = length (p_fragments p)"
  by (simp_all add: fragment_ids_def)

lemma fragment_slots_index:
  assumes "distinct (fragment_ids p)"
  shows "fragment_slots p i = map_option word_of_nat (position (\<lambda>c. c = i) (fragment_ids p))"
proof (cases "position (\<lambda>c. c = i) (fragment_ids p)")
  case None
  then have "i \<notin> set (fragment_ids p)" by (auto simp: position_None_iff list_all_iff)
  with None show ?thesis by (auto simp: fragment_slots_def map_of_eq_None_iff dest: set_zip_leftD)
next
  case (Some n)
  with assms have "n < length (fragment_ids p)" "fragment_ids p ! n = i" by (auto simp: position_eq_iff)
  with Some assms show ?thesis
    unfolding fragment_slots_def
    by (auto simp: set_zip intro!: exI [of _ n])
qed

text \<open>The word of a small slot is not the sentinel and reads back as the slot.\<close>

lemma small_word:
  "n < 2 ^ 32 - 1 \<Longrightarrow> (word_of_nat n :: u32) \<noteq> 2 ^ 32 - 1 \<and> unat (word_of_nat n :: u32) = n"
proof -
  assume n: "n < 2 ^ 32 - 1"
  then have u: "unat (word_of_nat n :: u32) = n" by (simp add: unat_of_nat_small)
  have "unat (2 ^ 32 - 1 :: u32) = 2 ^ 32 - 1" by simp
  with n u show ?thesis by (metis less_irrefl)
qed

text \<open>The whole index in closed form.\<close>

lemma render_index_shape:
  assumes "plan_fits up p"
  obtains mss where
    "ri_ids (render_index up p) = fragment_ids p" "length mss = length (fragment_ids p)"
    "ri_metadata (render_index up p) = concat mss"
    "ri_ranges (render_index up p) = map (\<lambda>k. word_of_nat (length (concat (take k mss)))) [0..<Suc (length (fragment_ids p))]"
    "list_all2 (\<lambda>ms i. list_all2 (prepared up (fragment_slots p) (ri_attr_names (render_index up p))) ms
       (frags_of (p_fragments p) i)) mss (fragment_ids p)"
    "length (ri_route_presence (render_index up p)) = (length (fragment_ids p) + 63) div 64"
    "\<And>k. route_bit (ri_route_presence (render_index up p)) k \<longleftrightarrow>
       k < length (fragment_ids p) \<and> list_ex is_route (frags_of (p_fragments p) (fragment_ids p ! k)) \<or>
       route_bit (replicate ((length (fragment_ids p) + 63) div 64) 0) k"
proof -
  let ?ids = "fragment_ids p" and ?frags = "p_fragments p"
  define ix0 where "ix0 = \<lparr>ri_ids = ?ids, ri_metadata = [], ri_ranges = [], ri_attr_names = [],
    ri_route_presence = replicate ((length ?ids + 63) div 64) 0\<rparr>"
  let ?ix = "index_loop_lists up ?frags (fragment_slots p) 0 ?ids ix0"
  have idx: "render_index up p = ?ix\<lparr>ri_ranges := ri_ranges ?ix @ [word_of_nat (length (ri_metadata ?ix))]\<rparr>"
    by (simp add: render_index_def index_new_def ix0_def Let_def)
  have "0 + length ?ids \<le> 64 * length (ri_route_presence ix0)" by (simp add: ix0_def)
  moreover have "\<forall>i \<in> set ?ids. map_of ?frags i \<noteq> None"
    by (auto simp: fragment_ids_facts(2) map_of_eq_None_iff)
  ultimately obtain mss ext where L: "ri_ids ?ix = ri_ids ix0" "length mss = length ?ids"
    "ri_metadata ?ix = concat mss"
    "ri_ranges ?ix = map (\<lambda>k. word_of_nat (offset ?frags ?ids k)) [0..<length ?ids]"
    "list_all2 (\<lambda>ms i. list_all2 (prepared up (fragment_slots p) (ri_attr_names ?ix)) ms (frags_of ?frags i)) mss ?ids"
    "length (ri_route_presence ?ix) = length (ri_route_presence ix0)"
    "\<And>k. route_bit (ri_route_presence ?ix) k \<longleftrightarrow>
       k < length ?ids \<and> list_ex is_route (frags_of ?frags (?ids ! k)) \<or> route_bit (ri_route_presence ix0) k"
    using index_loop_lists [of 0 ?ids ix0 ?frags up "fragment_slots p"] by (auto simp: Let_def ix0_def)
  have off: "length (concat (take k mss)) = offset ?frags ?ids k" for k
    by (rule offset_concat) (rule list_all2_mono [OF L(5)], erule list_all2_lengthD)
  have "length (concat mss) = offset ?frags ?ids (length ?ids)"
    using off [of "length ?ids"] L(2) by simp
  then have r: "ri_ranges (render_index up p) =
      map (\<lambda>k. word_of_nat (length (concat (take k mss)))) [0..<Suc (length ?ids)]"
    unfolding idx off using L(3,4) by simp
  show ?thesis
    by (rule that [of mss]) (use L r idx in \<open>simp_all add: ix0_def\<close>)
qed

text \<open>The binary search of the sorted, distinct identifiers finds the place of the one that is equal.\<close>

lemma search_window_finds:
  assumes "sorted_wrt (<) xs" "base + width \<le> length xs"
    and "\<And>i. i < length xs \<Longrightarrow> xs ! i = x \<Longrightarrow> base \<le> i \<and> i < base + width"
  shows "search_window xs x base width = Some n \<longleftrightarrow> n < length xs \<and> xs ! n = x"
  using assms
proof (induction xs x base width rule: search_window.induct)
  case (1 xs x base width)
  show ?case
  proof (cases "width \<le> 1")
    case True
    have "n = base \<and> width = 1" if "n < length xs" "xs ! n = x" using 1(4) [OF that] True by linarith
    then show ?thesis using 1(3) True
      by (subst search_window.simps) (cases "width = 0"; auto)
  next
    case False
    let ?mid = "base + width div 2"
    have mid: "?mid < length xs" "0 < width div 2" "width div 2 \<le> width" using 1(3) False by auto
    have order: "xs ! i < xs ! j" if "i < j" "j < length xs" for i j
      using sorted_wrt_nth_less [OF 1(2)] that by simp
    have window: "(if x < xs ! ?mid then base else ?mid) \<le> i \<and>
        i < (if x < xs ! ?mid then base else ?mid) + (width - width div 2)" if "i < length xs" "xs ! i = x" for i
    proof (cases "x < xs ! ?mid")
      case True
      then have "i < ?mid" using order [of ?mid i] that by (cases "i = ?mid"; force simp: not_less_iff_gr_or_eq)
      then show ?thesis using True 1(4) [OF that] by simp
    next
      case False
      then have "?mid \<le> i" using order [of i ?mid] that mid(1) by force
      then show ?thesis using False 1(4) [OF that] mid(3) by simp
    qed
    have fit: "(if x < xs ! ?mid then base else ?mid) + (width - width div 2) \<le> length xs" using 1(3) by auto
    have "search_window xs x (if x < xs ! ?mid then base else ?mid) (width - width div 2) = Some n \<longleftrightarrow>
        n < length xs \<and> xs ! n = x"
      by (rule 1(1)) (use False 1(2) fit window in auto)
    moreover have "width \<noteq> 0" "width \<noteq> 1" using False by auto
    ultimately show ?thesis by (subst search_window.simps) (simp only: if_False)
  qed
qed

lemma ri_index_position:
  assumes fit: "plan_fits up p"
  shows "ri_index (render_index up p) i = position (\<lambda>c. c = i) (fragment_ids p)"
proof -
  obtain mss where ids: "ri_ids (render_index up p) = fragment_ids p"
    by (rule render_index_shape [OF fit])
  have d: "distinct (fragment_ids p)" using fit by (simp add: plan_fits_def fragment_ids_facts)
  then have "sorted_wrt (<) (fragment_ids p)" by (simp add: strict_sorted_iff fragment_ids_def)
  then have "ri_index (render_index up p) i = Some n \<longleftrightarrow> n < length (fragment_ids p) \<and> fragment_ids p ! n = i" for n
    unfolding ri_index_def ids by (rule search_window_finds) auto
  then have "ri_index (render_index up p) i = Some n \<longleftrightarrow> position (\<lambda>c. c = i) (fragment_ids p) = Some n" for n
    by (simp only: position_eq_iff [OF d])
  then show ?thesis by (metis not_None_eq)
qed

lemma route_word:
  fixes w :: u64
  shows "k < 64 \<Longrightarrow> w AND push_bit k 1 \<noteq> 0 \<longleftrightarrow> bit w k"
  by (simp add: and_exp_eq_0_iff_not_bit)

lemma list_lookup:
  assumes fit: "plan_fits up p" and idx: "ri_index (render_index up p) i = Some n"
  obtains fl ms where "map_of (p_fragments p) i = Some fl"
    "ri_list p (render_index up p) n = Some \<lparr>rl_fragments = fragments fl, rl_metadata = ms,
       rl_attr_names = ri_attr_names (render_index up p), rl_contains_boundary = contains_boundary fl,
       rl_has_routes = list_ex is_route (fragments fl)\<rparr>"
    "list_all2 (prepared up (fragment_slots p) (ri_attr_names (render_index up p))) ms (fragments fl)"
proof -
  let ?ix = "render_index up p"
  obtain mss where S: "ri_ids ?ix = fragment_ids p" "length mss = length (fragment_ids p)"
    "ri_metadata ?ix = concat mss"
    "ri_ranges ?ix = map (\<lambda>k. word_of_nat (length (concat (take k mss)))) [0..<Suc (length (fragment_ids p))]"
    "list_all2 (\<lambda>ms i. list_all2 (prepared up (fragment_slots p) (ri_attr_names ?ix)) ms (frags_of (p_fragments p) i))
       mss (fragment_ids p)"
    "length (ri_route_presence ?ix) = (length (fragment_ids p) + 63) div 64"
    "\<And>k. route_bit (ri_route_presence ?ix) k \<longleftrightarrow>
       k < length (fragment_ids p) \<and> list_ex is_route (frags_of (p_fragments p) (fragment_ids p ! k)) \<or>
       route_bit (replicate ((length (fragment_ids p) + 63) div 64) 0) k"
    by (rule render_index_shape [OF fit]) blast
  have d: "distinct (fragment_ids p)" using fit by (simp add: plan_fits_def fragment_ids_facts)
  have n: "n < length (fragment_ids p)" "fragment_ids p ! n = i"
    using idx d by (simp_all add: ri_index_position [OF fit] position_eq_iff)
  then have "i \<in> fst ` set (p_fragments p)" by (metis fragment_ids_facts(2) nth_mem)
  then obtain fl where fl: "map_of (p_fragments p) i = Some fl" by (cases "map_of (p_fragments p) i") (auto simp: map_of_eq_None_iff)
  have small: "unat (word_of_nat (length (concat (take k mss))) :: u32) = length (concat (take k mss))" for k
  proof -
    have "length (concat (take k mss)) \<le> length (concat mss)"
      by (metis append_take_drop_id concat_append le_add1 length_append)
    then have "length (concat (take k mss)) < 2 ^ 32" using fit S(3) by (simp add: plan_fits_def)
    then show ?thesis by (simp add: unat_of_nat_small)
  qed
  have block: "range_opt (concat mss) (length (concat (take n mss))) (length (concat (take (Suc n) mss))) = Some (mss ! n)"
    using concat_block [of n mss] n(1) S(2) by (simp add: range_opt_def)
  have w: "n div 64 < (length (fragment_ids p) + 63) div 64" using n(1) by linarith
  have zero: "\<not> route_bit (replicate ((length (fragment_ids p) + 63) div 64) 0) n"
    using w by (simp add: route_bit_def)
  have bit: "ri_route_presence ?ix ! (n div 64) AND push_bit (n mod 64) 1 \<noteq> 0 \<longleftrightarrow> list_ex is_route (fragments fl)"
    using S(7) [of n] zero n fl route_word [of "n mod 64"] by (simp add: route_bit_def frags_of_def del: push_bit_of_1)
  show ?thesis
  proof (rule that [of fl "mss ! n"])
    have r: "nth_opt (ri_ranges ?ix) n = Some (word_of_nat (length (concat (take n mss))))"
      "nth_opt (ri_ranges ?ix) (n + 1) = Some (word_of_nat (length (concat (take (Suc n) mss))))"
      using n(1) by (simp_all add: nth_opt_def S(4) del: upt_Suc)
    show "ri_list p ?ix n = Some \<lparr>rl_fragments = fragments fl, rl_metadata = mss ! n,
       rl_attr_names = ri_attr_names ?ix, rl_contains_boundary = contains_boundary fl,
       rl_has_routes = list_ex is_route (fragments fl)\<rparr>"
      unfolding ri_list_def r using n fl block bit w
      by (simp add: nth_opt_def S(1,3,6) small del: push_bit_of_1)
    show "list_all2 (prepared up (fragment_slots p) (ri_attr_names ?ix)) (mss ! n) (fragments fl)"
      using list_all2_nthD [OF S(5), of n] n S(2) fl by (simp add: frags_of_def)
  qed (rule fl)
qed

lemma prepared_target:
  assumes fit: "plan_fits up p" and pr: "prepared up (fragment_slots p) names m f"
  shows "(if m_target m \<noteq> NO_RENDER_SLOT then Some (unat (m_target m)) else None) =
    Option.bind (fragment_target_id f) (ri_index (render_index up p))"
proof -
  have ix: "ri_index (render_index up p) = (\<lambda>i. position (\<lambda>c. c = i) (fragment_ids p))"
    by (simp add: fun_eq_iff ri_index_position [OF fit])
  have d: "distinct (fragment_ids p)" and len: "length (fragment_ids p) < 2 ^ 32 - 1"
    using fit by (simp_all add: plan_fits_def fragment_ids_facts)
  have small: "n < 2 ^ 32 - 1" if "position (\<lambda>c. c = i) (fragment_ids p) = Some n" for i n
    using that d len position_eq_iff [of "fragment_ids p" i n] by linarith
  show ?thesis
  proof (cases "Option.bind (fragment_target_id f) (\<lambda>i. position (\<lambda>c. c = i) (fragment_ids p))")
    case None
    then have "Option.bind (fragment_target_id f) (fragment_slots p) = None"
      by (cases "fragment_target_id f") (simp_all add: fragment_slots_index [OF d])
    with pr None show ?thesis
      unfolding ix None by (simp add: prepared_def target_word_def)
  next
    case (Some n)
    then obtain i where i: "fragment_target_id f = Some i" "position (\<lambda>c. c = i) (fragment_ids p) = Some n"
      by (auto simp: bind_eq_Some_conv)
    with pr have "m_target m = word_of_nat n"
      by (simp add: prepared_def target_word_def fragment_slots_index [OF d])
    with small_word [OF small [OF i(2)]] Some i show ?thesis
      by (simp add: NO_RENDER_SLOT_def ix)
  qed
qed

lemma prepared_name:
  assumes "length names < 2 ^ 32 - 1" and pr: "prepared up slot_of names m f"
  shows "(if m_attr_start m = NO_ATTR_NAME then None
    else range_opt names (unat (m_attr_start m)) (unat (m_attr_start m) + unat (m_attr_len m))) = prop_name up f"
proof (cases "prop_name up f")
  case None
  with pr show ?thesis by (simp add: prepared_def)
next
  case (Some name)
  with pr obtain a b where ab: "names = a @ name @ b" "m_attr_start m = word_of_nat (length a)"
    "m_attr_len m = word_of_nat (length name)"
    by (auto simp: prepared_def)
  with assms(1) have "length a < 2 ^ 32 - 1" "length name < 2 ^ 32" by auto
  with small_word [of "length a"] unat_of_nat_small [of "length name", where 'a = 32] Some ab show ?thesis
    by (simp add: NO_ATTR_NAME_def range_opt_def)
qed

lemma plan_lookup:
  assumes fit: "plan_fits up p" and idx: "ri_index (render_index up p) i = Some n"
  obtains fl l where "map_of (p_fragments p) i = Some fl" "ri_list p (render_index up p) n = Some l"
    "rl_fragments l = fragments fl" "rl_contains_boundary l = contains_boundary fl"
    "rl_has_routes l = list_ex is_route (fragments fl)"
    "\<And>k. k < length (fragments fl) \<Longrightarrow>
       rl_target l k = Option.bind (fragment_target_id (fragments fl ! k)) (ri_index (render_index up p)) \<and>
       component_attr_name l k = prop_name up (fragments fl ! k)"
proof -
  from assms obtain fl ms where fl: "map_of (p_fragments p) i = Some fl"
    "ri_list p (render_index up p) n = Some \<lparr>rl_fragments = fragments fl, rl_metadata = ms,
       rl_attr_names = ri_attr_names (render_index up p), rl_contains_boundary = contains_boundary fl,
       rl_has_routes = list_ex is_route (fragments fl)\<rparr>"
    "list_all2 (prepared up (fragment_slots p) (ri_attr_names (render_index up p))) ms (fragments fl)"
    by (rule list_lookup)
  have names: "length (ri_attr_names (render_index up p)) < 2 ^ 32 - 1" using fit by (simp add: plan_fits_def)
  have len: "length ms = length (fragments fl)" by (rule list_all2_lengthD [OF fl(3)])
  show ?thesis
  proof (rule that [OF fl(1,2)])
    fix k assume k: "k < length (fragments fl)"
    then have pr: "prepared up (fragment_slots p) (ri_attr_names (render_index up p)) (ms ! k) (fragments fl ! k)"
      using list_all2_nthD [OF fl(3), of k] len by simp
    show "rl_target \<lparr>rl_fragments = fragments fl, rl_metadata = ms,
       rl_attr_names = ri_attr_names (render_index up p), rl_contains_boundary = contains_boundary fl,
       rl_has_routes = list_ex is_route (fragments fl)\<rparr> k =
        Option.bind (fragment_target_id (fragments fl ! k)) (ri_index (render_index up p)) \<and>
      component_attr_name \<lparr>rl_fragments = fragments fl, rl_metadata = ms,
       rl_attr_names = ri_attr_names (render_index up p), rl_contains_boundary = contains_boundary fl,
       rl_has_routes = list_ex is_route (fragments fl)\<rparr> k = prop_name up (fragments fl ! k)"
      using prepared_target [OF fit pr] prepared_name [OF names pr] k len
      by (auto simp: rl_target_def component_attr_name_def nth_opt_def split: if_splits)
  qed simp_all
qed

lemma ri_index_None_iff:
  assumes "plan_fits up p"
  shows "ri_index (render_index up p) i = None \<longleftrightarrow> map_of (p_fragments p) i = None"
proof -
  have "ri_index (render_index up p) i = None \<longleftrightarrow> i \<notin> set (fragment_ids p)"
    by (auto simp: ri_index_position [OF assms] position_None_iff list_all_iff)
  then show ?thesis by (simp add: fragment_ids_facts(2) map_of_eq_None_iff)
qed

section \<open>Properties\<close>

text \<open>
  C19.  The render plan describes the protocol it was prepared from.  As long as its sizes fit
  the 32-bit fields, an identifier has a slot exactly when the protocol has a record for it;
  the list read at that slot is the record's, its route bit says whether it has a route, and
  for every fragment the prepared target is the slot of the record it descends into and the
  prepared property name is the camel-case name of the attribute.
\<close>

theorem render_plan_correct:
  assumes "plan_fits up p"
  shows "case ri_index (render_index up p) i of
      None \<Rightarrow> map_of (p_fragments p) i = None
    | Some n \<Rightarrow> (\<exists>fl l. map_of (p_fragments p) i = Some fl \<and> ri_list p (render_index up p) n = Some l \<and>
        rl_fragments l = fragments fl \<and> rl_contains_boundary l = contains_boundary fl \<and>
        rl_has_routes l = list_ex is_route (fragments fl) \<and>
        map (rl_target l) [0..<length (fragments fl)] =
          map (\<lambda>f. Option.bind (fragment_target_id f) (ri_index (render_index up p))) (fragments fl) \<and>
        map (component_attr_name l) [0..<length (fragments fl)] = map (prop_name up) (fragments fl))"
proof (cases "ri_index (render_index up p) i")
  case None
  then show ?thesis using ri_index_None_iff [OF assms, of i] by simp
next
  case (Some n)
  obtain fl l where l: "map_of (p_fragments p) i = Some fl" "ri_list p (render_index up p) n = Some l"
    "rl_fragments l = fragments fl" "rl_contains_boundary l = contains_boundary fl"
    "rl_has_routes l = list_ex is_route (fragments fl)"
    "\<And>k. k < length (fragments fl) \<Longrightarrow>
       rl_target l k = Option.bind (fragment_target_id (fragments fl ! k)) (ri_index (render_index up p)) \<and>
       component_attr_name l k = prop_name up (fragments fl ! k)"
    using plan_lookup [OF assms Some] by blast
  from l(6) have "map (rl_target l) [0..<length (fragments fl)] =
      map (\<lambda>f. Option.bind (fragment_target_id f) (ri_index (render_index up p))) (fragments fl)"
    "map (component_attr_name l) [0..<length (fragments fl)] = map (prop_name up) (fragments fl)"
    by (auto intro!: nth_equalityI)
  with l Some show ?thesis by auto
qed

definition sample_plan :: web_ui_protocol where
  "sample_plan = protocol_new [
     (''page'', \<lparr>fragments = [frag_raw ''<p>'', attribute_template ''data-x'' ''t'', frag_component ''my-card''],
        contains_boundary = False\<rparr>),
     (''my-card'', \<lparr>fragments = [frag_route ''/'' ''home''], contains_boundary = False\<rparr>),
     (''t'', \<lparr>fragments = [frag_raw ''v''], contains_boundary = False\<rparr>)]"

theorem render_plan_correct_witness:
  "plan_fits id sample_plan \<and> ri_index (render_index id sample_plan) ''page'' = Some 1 \<and>
   (case ri_index (render_index id sample_plan) ''page'' of
      None \<Rightarrow> map_of (p_fragments sample_plan) ''page'' = None
    | Some n \<Rightarrow> (\<exists>fl l. map_of (p_fragments sample_plan) ''page'' = Some fl \<and>
        ri_list sample_plan (render_index id sample_plan) n = Some l \<and>
        rl_fragments l = fragments fl \<and> rl_contains_boundary l = contains_boundary fl \<and>
        rl_has_routes l = list_ex is_route (fragments fl) \<and>
        map (rl_target l) [0..<length (fragments fl)] =
          map (\<lambda>f. Option.bind (fragment_target_id f) (ri_index (render_index id sample_plan))) (fragments fl) \<and>
        map (component_attr_name l) [0..<length (fragments fl)] = map (prop_name id) (fragments fl)))"
proof -
  have "distinct (map fst (p_fragments sample_plan))" "length (p_fragments sample_plan) = 3"
    "length (ri_metadata (render_index id sample_plan)) = 5"
    "ri_attr_names (render_index id sample_plan) = ''dataX''"
    by code_simp+
  then have fit: "plan_fits id sample_plan" by (simp add: plan_fits_def)
  moreover have "ri_index (render_index id sample_plan) ''page'' = Some 1" by code_simp
  ultimately show ?thesis using render_plan_correct [OF fit, of "''page''"] by blast
qed

end
