(* ===== verification/Route_Walk.thy ===== *)
theory Route_Walk
  imports Route_Matcher Style_Closures
begin

text \<open>
  The walks of the fragment graph in \<open>crates/webui-handler/src/route_handler.rs\<close>: the chain of routes
  a request matches (\<open>collect_route_chain_plan\<close>), and the components it can reach along them
  (\<open>collect_inventoryable_components_from_stack\<close>).  Both are work lists with a set of visited
  fragments; a vector used as a stack is a list with its top in front.  \<open>RouteBaseArena\<close> numbers
  the base paths of a walk; its indices stay below the number of segments of the request
  path, far from the 32 bits they are stored in.
\<close>

type_synonym route_index = "string \<rightharpoonup> segment_pattern list"

section \<open>The best child of a route\<close>

fun best_child_loop ::
  "route_index \<Rightarrow> string \<Rightarrow> string list \<Rightarrow> nat \<Rightarrow> web_ui_route list \<Rightarrow> (nat \<times> route_match) option \<Rightarrow> (nat \<times> route_match) option" where
  "best_child_loop index base segs idx [] best = best"
| "best_child_loop index base segs idx (r # rs) best =
     best_child_loop index base segs (idx + 1) rs
       (case match_route_indexed_with_segments index (route_path r) base segs (route_exact r) of
          None \<Rightarrow> best
        | Some m \<Rightarrow> (case best of
            Some (i, prev) \<Rightarrow> if specificity m > specificity prev then Some (idx, m) else best
          | None \<Rightarrow> Some (idx, m)))"

definition select_best_child_route :: "web_ui_route list \<Rightarrow> string \<Rightarrow> string \<Rightarrow> route_index \<Rightarrow> (nat \<times> route_match) option" where
  "select_best_child_route nested request_path route_base index =
     best_child_loop index route_base (split_request_path request_path) 0 nested None"

lemma best_child_bound:
  "best_child_loop index base segs idx rs best = Some (i, m) \<Longrightarrow> (\<forall>j x. best = Some (j, x) \<longrightarrow> j < idx) \<Longrightarrow> i < idx + length rs"
proof (induction rs arbitrary: idx best)
  case (Cons r rs)
  let ?best = "case match_route_indexed_with_segments index (route_path r) base segs (route_exact r) of
      None \<Rightarrow> best
    | Some m \<Rightarrow> (case best of
        Some (i, prev) \<Rightarrow> if specificity m > specificity prev then Some (idx, m) else best
      | None \<Rightarrow> Some (idx, m))"
  have "\<forall>j x. ?best = Some (j, x) \<longrightarrow> j < idx + 1"
    using Cons.prems(2) by (auto split: option.split)
  with Cons.IH [of "idx + 1" ?best] Cons.prems(1) show ?case by simp
qed simp

lemma select_child_bound: "select_best_child_route rs path base index = Some (i, m) \<Longrightarrow> i < length rs"
  using best_child_bound [of index base "split_request_path path" 0 rs None i m] by (simp add: select_best_child_route_def)

abbreviation routes_size :: "web_ui_route list \<Rightarrow> nat" where
  "routes_size rs \<equiv> sum_list (map route_size rs)"

lemma child_smaller: "i < length rs \<Longrightarrow> routes_size (route_children (rs ! i)) < routes_size rs"
proof -
  assume "i < length rs"
  then have "route_size (rs ! i) \<le> routes_size rs" by (intro member_le_sum_list) simp_all
  moreover have "routes_size (route_children (rs ! i)) < route_size (rs ! i)" by (cases "rs ! i") simp
  ultimately show ?thesis by simp
qed

lemma select_child_smaller:
  "select_best_child_route rs path base index = Some (i, m) \<Longrightarrow> routes_size (route_children (rs ! i)) < routes_size rs"
  using child_smaller select_child_bound by blast

section \<open>The route chain\<close>

record route_chain_entry =
  rc_component :: string
  rc_path :: string
  rc_params :: "string \<rightharpoonup> string"
  rc_exact :: bool
  rc_allowed_query :: string
  rc_keep_alive :: bool
  rc_cache_tags :: "string list"
  rc_invalidates :: "string list"
  rc_pending_component :: string
  rc_error_component :: string

definition chain_entry :: "web_ui_route \<Rightarrow> route_match \<Rightarrow> route_chain_entry" where
  "chain_entry r rm = \<lparr>rc_component = route_fragment_id r, rc_path = route_path r, rc_params = params rm,
     rc_exact = route_exact r, rc_allowed_query = route_allowed_query r, rc_keep_alive = route_keep_alive r,
     rc_cache_tags = route_cache_tags r, rc_invalidates = route_invalidates r,
     rc_pending_component = route_pending_component r, rc_error_component = route_error_component r\<rparr>"

type_synonym chain_output = "route_chain_entry list \<times> bool list"

text \<open>The work list of the children never holds more than one level.\<close>

function collect_chain_loop ::
  "web_ui_protocol \<Rightarrow> string \<Rightarrow> route_index \<Rightarrow> (web_ui_route list \<times> string \<times> bool) list \<Rightarrow> chain_output \<Rightarrow> chain_output" where
  "collect_chain_loop p path index [] out = out"
| "collect_chain_loop p path index ((current, base, doc) # pending) (entries, targets) =
     (case select_best_child_route current path base index of
        None \<Rightarrow> collect_chain_loop p path index pending (entries, targets)
      | Some (idx, rm) \<Rightarrow>
          let matched = current ! idx;
              matched_doc = (doc \<and> \<not> component_uses_shadow_dom p (route_fragment_id matched));
              out = (entries @ [chain_entry matched rm], targets @ [matched_doc]) in
          collect_chain_loop p path index
            (if route_children matched \<noteq> []
             then (route_children matched, compute_route_base path (consumed_segments rm), matched_doc) # pending
             else pending) out)"
  by pat_completeness auto
termination
  by (relation "measure (\<lambda>(_, _, _, pending, _). sum_list (map (\<lambda>(rs, _). Suc (routes_size rs)) pending))")
    (auto dest!: select_child_smaller)

definition collect_chain_from_children ::
  "web_ui_protocol \<Rightarrow> string \<Rightarrow> route_index \<Rightarrow> web_ui_route list \<Rightarrow> string \<Rightarrow> bool \<Rightarrow> chain_output \<Rightarrow> chain_output" where
  "collect_chain_from_children p path index nested base doc out = collect_chain_loop p path index [(nested, base, doc)] out"

record route_chain_work =
  cw_id :: string
  cw_base :: string
  cw_doc :: bool

text \<open>One fragment of the list that is being walked.\<close>

definition chain_fragment ::
  "web_ui_protocol \<Rightarrow> string \<Rightarrow> route_index \<Rightarrow> route_chain_work \<Rightarrow> (string \<times> route_match) option \<Rightarrow> web_ui_fragment \<Rightarrow>
   route_chain_work list \<times> chain_output \<Rightarrow> route_chain_work list \<times> chain_output" where
  "chain_fragment p path index queued matched_route f acc = (case acc of (stack, entries, targets) \<Rightarrow>
     (case f of
        Some (FComponent i) \<Rightarrow>
          (\<lparr>cw_id = i, cw_base = cw_base queued, cw_doc = cw_doc queued \<and> \<not> component_uses_shadow_dom p i\<rparr> # stack, entries, targets)
      | Some (FForLoop l) \<Rightarrow>
          (\<lparr>cw_id = for_fragment_id l, cw_base = cw_base queued, cw_doc = cw_doc queued\<rparr> # stack, entries, targets)
      | Some (FIfCond c) \<Rightarrow>
          (\<lparr>cw_id = if_fragment_id c, cw_base = cw_base queued, cw_doc = cw_doc queued\<rparr> # stack, entries, targets)
      | Some (FRoute r) \<Rightarrow>
          (case matched_route of
             Some (best_key, rm) \<Rightarrow>
               if best_key = route_fragment_id r \<and> route_fragment_id r \<noteq> [] then
                 let doc = (cw_doc queued \<and> \<not> component_uses_shadow_dom p (route_fragment_id r));
                     child_base = compute_route_base path (consumed_segments rm) in
                 (\<lparr>cw_id = route_fragment_id r, cw_base = child_base, cw_doc = doc\<rparr> # stack,
                  collect_chain_from_children p path index (route_children r) child_base doc
                    (entries @ [chain_entry r rm], targets @ [doc]))
               else (stack, entries, targets)
           | None \<Rightarrow> (stack, entries, targets))
      | _ \<Rightarrow> (stack, entries, targets)))"

text \<open>Base paths of a walk, a finite set.\<close>

lemma base_loop_take: "base_loop n ps = base_loop (min n (length ps)) ps"
  by (induction n ps rule: base_loop.induct) simp_all

lemma finite_bases: "finite (range (compute_route_base path))"
proof -
  let ?ps = "filter (\<lambda>s. s \<noteq> []) (split_on CHR ''/'' path)"
  have "range (compute_route_base path) \<subseteq> insert ''/'' ((\<lambda>n. base_loop n ?ps) ` {..length ?ps})"
  proof
    fix b assume "b \<in> range (compute_route_base path)"
    then obtain n where "b = compute_route_base path n" by blast
    moreover have "base_loop n ?ps \<in> (\<lambda>n. base_loop n ?ps) ` {..length ?ps}"
      using base_loop_take [of n ?ps] by (intro image_eqI [of _ _ "min n (length ?ps)"]) auto
    ultimately show "b \<in> insert ''/'' ((\<lambda>n. base_loop n ?ps) ` {..length ?ps})"
      by (auto simp: compute_route_base_def Let_def)
  qed
  then show ?thesis by (rule finite_subset) simp
qed

lemma chain_fragment_bases:
  assumes "chain_fragment p path index q m f (stack, out) = (stack', out')"
  shows "cw_base ` set stack' \<subseteq> insert (cw_base q) (cw_base ` set stack) \<union> range (compute_route_base path)"
  using assms by (cases out) (auto simp: chain_fragment_def Let_def split: option.splits fragment.splits if_splits prod.splits)

lemma chain_fold_bases:
  "fold (chain_fragment p path index q m) fs (stack, out) = (stack', out') \<Longrightarrow>
   cw_base ` set stack' \<subseteq> insert (cw_base q) (cw_base ` set stack) \<union> range (compute_route_base path)"
proof (induction fs arbitrary: stack out)
  case (Cons f fs)
  obtain s1 o1 where 1: "chain_fragment p path index q m f (stack, out) = (s1, o1)" by (metis surj_pair)
  with Cons.prems have "fold (chain_fragment p path index q m) fs (s1, o1) = (stack', out')" by simp
  from Cons.IH [OF this] chain_fragment_bases [OF 1] show ?case by blast
qed auto

text \<open>The fragments a walk can still enter.\<close>

definition chain_universe :: "web_ui_protocol \<Rightarrow> string \<Rightarrow> route_chain_work list \<Rightarrow> (string \<times> string) set" where
  "chain_universe p path stack = fst ` set (p_fragments p) \<times> (cw_base ` set stack \<union> range (compute_route_base path))"

lemma finite_chain_universe [simp]: "finite (chain_universe p path stack)"
  by (simp add: chain_universe_def finite_bases)

lemma chain_step_shrinks:
  assumes "(stack', out') = fold (chain_fragment p path index q m) (fragments fl) (stack, out)"
    and "map_of (p_fragments p) (cw_id q) = Some fl" "(cw_id q, cw_base q) \<notin> visited"
  shows "chain_universe p path stack' - insert (cw_id q, cw_base q) visited \<subset> chain_universe p path (q # stack) - visited"
proof -
  have "chain_universe p path stack' \<subseteq> chain_universe p path (q # stack)"
    using chain_fold_bases [OF assms(1) [symmetric]] by (auto simp: chain_universe_def)
  moreover have "(cw_id q, cw_base q) \<in> chain_universe p path (q # stack) - visited"
    using map_of_SomeD [OF assms(2)] assms(3) by (force simp: chain_universe_def)
  ultimately show ?thesis by blast
qed

function chain_plan_loop ::
  "web_ui_protocol \<Rightarrow> string \<Rightarrow> route_index \<Rightarrow> route_chain_work list \<Rightarrow> (string \<times> string) set \<Rightarrow> chain_output \<Rightarrow> chain_output" where
  "chain_plan_loop p path index [] visited out = out"
| "chain_plan_loop p path index (queued # stack) visited out =
     (if cw_id queued = [] \<or> (cw_id queued, cw_base queued) \<in> visited then chain_plan_loop p path index stack visited out
      else (case map_of (p_fragments p) (cw_id queued) of
         None \<Rightarrow> chain_plan_loop p path index stack (insert (cw_id queued, cw_base queued) visited) out
       | Some fl \<Rightarrow>
           (case fold (chain_fragment p path index queued
               (find_best_route_match (fragments fl) path (cw_base queued) index)) (fragments fl) (stack, out) of
              (stack', out') \<Rightarrow> chain_plan_loop p path index stack' (insert (cw_id queued, cw_base queued) visited) out')))"
  by pat_completeness auto
termination
proof (relation "inv_image (finite_psubset <*lex*> less_than)
    (\<lambda>(p, path, _, stack, visited, _). (chain_universe p path stack - visited, length stack))", goal_cases)
  case 1
  show ?case by (intro wf_inv_image wf_lex_prod wf_finite_psubset wf_less_than)
next
  case (4 p path index q stack visited out fl)
  then show ?case by (auto simp: finite_psubset_def dest: chain_step_shrinks)
qed (auto simp: finite_psubset_def chain_universe_def finite_bases)

definition collect_route_chain_plan :: "web_ui_protocol \<Rightarrow> string \<Rightarrow> string \<Rightarrow> route_index \<Rightarrow> chain_output" where
  "collect_route_chain_plan p entry_id request_path index =
     chain_plan_loop p request_path index
       [\<lparr>cw_id = entry_id, cw_base = ''/'', cw_doc = \<not> component_uses_shadow_dom p entry_id\<rparr>] {} ([], [])"

text \<open>Every entry has its style target.\<close>

lemma chain_loop_lengths:
  "length (fst out) = length (snd out) \<Longrightarrow>
   length (fst (collect_chain_loop p path index pending out)) = length (snd (collect_chain_loop p path index pending out))"
proof (induction p path index pending out rule: collect_chain_loop.induct)
  case (2 p path index current base doc pending entries targets)
  then show ?case by (auto simp: Let_def split: option.split)
qed simp

lemma chain_children_lengths:
  "collect_chain_from_children p path index rs base doc (es, ts) = (es', ts') \<Longrightarrow> length es = length ts \<Longrightarrow> length es' = length ts'"
  using chain_loop_lengths [of "(es, ts)"] by (metis collect_chain_from_children_def fst_conv snd_conv)

lemma chain_fragment_lengths:
  assumes "length entries = length targets" "chain_fragment p path index q m f (stack, entries, targets) = (stack', entries', targets')"
  shows "length entries' = length targets'"
  using assms
  by (auto simp: chain_fragment_def Let_def split: option.splits fragment.splits if_splits prod.splits
      dest!: chain_children_lengths)

lemma chain_fold_lengths:
  "length entries = length targets \<Longrightarrow> fold (chain_fragment p path index q m) fs (stack, entries, targets) = (stack', entries', targets') \<Longrightarrow>
   length entries' = length targets'"
proof (induction fs arbitrary: stack entries targets)
  case (Cons f fs)
  obtain s1 e1 t1 where 1: "chain_fragment p path index q m f (stack, entries, targets) = (s1, e1, t1)" by (metis surj_pair)
  with Cons.prems have "fold (chain_fragment p path index q m) fs (s1, e1, t1) = (stack', entries', targets')" by simp
  with Cons.IH chain_fragment_lengths [OF Cons.prems(1) 1] show ?case by blast
qed simp

lemma chain_plan_lengths:
  "length (fst out) = length (snd out) \<Longrightarrow>
   length (fst (chain_plan_loop p path index stack visited out)) = length (snd (chain_plan_loop p path index stack visited out))"
proof (induction p path index stack visited out rule: chain_plan_loop.induct)
  case (2 p path index q stack visited out)
  show ?case
  proof (cases "cw_id q = [] \<or> (cw_id q, cw_base q) \<in> visited")
    case False
    show ?thesis
    proof (cases "map_of (p_fragments p) (cw_id q)")
      case (Some fl)
      obtain stack' entries' targets' where f: "fold (chain_fragment p path index q
          (find_best_route_match (fragments fl) path (cw_base q) index)) (fragments fl) (stack, out) = (stack', entries', targets')"
        by (metis surj_pair)
      have "length entries' = length targets'" using chain_fold_lengths 2(4) f by (metis prod.collapse)
      with 2(3) [OF False Some f [symmetric]] False Some f show ?thesis by simp
    qed (use 2 False in simp)
  qed (use 2 in simp)
qed simp

section \<open>Reachable components\<close>

definition has_template_payload :: "component_data \<Rightarrow> bool" where
  "has_template_payload c \<longleftrightarrow> cd_template_json c \<noteq> [] \<or> cd_template c \<noteq> []"

definition inventoryable_tag :: "web_ui_protocol \<Rightarrow> string \<Rightarrow> bool" where
  "inventoryable_tag p tag = (case map_of (p_components p) tag of Some c \<Rightarrow> has_template_payload c | None \<Rightarrow> False)"

subsection \<open>The arena of base paths\<close>

definition ARENA_ROOT :: nat where
  "ARENA_ROOT = 0"

definition arena_new :: "string list" where
  "arena_new = [''/'']"

fun arena_find :: "string list \<Rightarrow> string \<Rightarrow> nat option" where
  "arena_find [] base = None"
| "arena_find (known # bases) base = (if known = base then Some 0 else map_option Suc (arena_find bases base))"

definition arena_push :: "string list \<Rightarrow> string \<Rightarrow> nat \<times> string list" where
  "arena_push bases base = (length bases, bases @ [base])"

definition arena_intern :: "string list \<Rightarrow> string \<Rightarrow> nat \<times> string list" where
  "arena_intern bases base = (case arena_find bases base of Some i \<Rightarrow> (i, bases) | None \<Rightarrow> arena_push bases base)"

definition arena_get :: "string list \<Rightarrow> nat \<Rightarrow> string" where
  "arena_get bases i = (if i < length bases then bases ! i else ''/'')"

subsection \<open>The work list\<close>

record queued_fragment =
  q_id :: string
  q_inventoryable :: bool
  q_base :: nat

definition child_pushes :: "web_ui_protocol \<Rightarrow> web_ui_route \<Rightarrow> (string \<times> bool) list" where
  "child_pushes p r = map (\<lambda>tag. (tag, inventoryable_tag p tag))
     (route_fragment_id r # filter (\<lambda>tag. tag \<noteq> []) [route_pending_component r, route_error_component r])"

definition push_all :: "nat \<Rightarrow> (string \<times> bool) list \<Rightarrow> queued_fragment list \<Rightarrow> queued_fragment list" where
  "push_all base ts stack = fold (\<lambda>(tag, inv) s. \<lparr>q_id = tag, q_inventoryable = inv, q_base = base\<rparr> # s) ts stack"

function walk_route_children ::
  "web_ui_protocol \<Rightarrow> string \<Rightarrow> route_index \<Rightarrow> web_ui_route list \<Rightarrow> nat \<Rightarrow> queued_fragment list \<Rightarrow> string list \<Rightarrow>
   queued_fragment list \<times> string list" where
  "walk_route_children p path index current base stack arena =
     (case select_best_child_route current path (arena_get arena base) index of
        None \<Rightarrow> (stack, arena)
      | Some (idx, rm) \<Rightarrow>
          if idx \<ge> length current \<or> route_fragment_id (current ! idx) = [] then (stack, arena)
          else (case arena_intern arena (compute_route_base path (consumed_segments rm)) of
            (child_base, arena') \<Rightarrow>
              let matched = current ! idx; stack' = push_all child_base (child_pushes p matched) stack in
              if route_children matched = [] then (stack', arena')
              else walk_route_children p path index (route_children matched) child_base stack' arena'))"
  by pat_completeness auto
termination
  by (relation "measure (\<lambda>(_, _, _, current, _). routes_size current)") (auto dest!: select_child_smaller)

declare walk_route_children.simps [simp del]

function boundary_loop :: "web_ui_protocol \<Rightarrow> nat \<Rightarrow> web_ui_route list \<Rightarrow> queued_fragment list \<Rightarrow> queued_fragment list" where
  "boundary_loop p base [] stack = stack"
| "boundary_loop p base (r # remaining) stack = boundary_loop p base (rev (route_children r) @ remaining)
     (push_all base (map (\<lambda>tag. (tag, inventoryable_tag p tag))
       (filter (\<lambda>tag. tag \<noteq> []) [route_pending_component r, route_error_component r])) stack)"
  by pat_completeness auto
termination
proof (relation "measure (\<lambda>(_, _, remaining, _). routes_size remaining)", goal_cases)
  case (2 p base r remaining stack)
  have "routes_size (route_children r) < route_size r" by (cases r) simp
  then show ?case by (simp add: rev_map [symmetric])
qed simp

definition collect_route_boundary_components ::
  "web_ui_route list \<Rightarrow> nat \<Rightarrow> web_ui_protocol \<Rightarrow> queued_fragment list \<Rightarrow> queued_fragment list" where
  "collect_route_boundary_components routes base p stack = boundary_loop p base (rev routes) stack"

text \<open>
  One fragment of the list that is being walked; \<open>active\<close> are the lazy conditions that were
  selected for the request, if the protocol has any.
\<close>

definition walk_fragment ::
  "web_ui_protocol \<Rightarrow> string option \<Rightarrow> route_index \<Rightarrow> string set option \<Rightarrow> queued_fragment \<Rightarrow> (string \<times> route_match) option \<Rightarrow>
   web_ui_fragment \<Rightarrow> queued_fragment list \<times> string list \<Rightarrow> queued_fragment list \<times> string list" where
  "walk_fragment p request_path index active queued matched_route f acc = (case acc of (stack, arena) \<Rightarrow>
     (case f of
        Some (FComponent i) \<Rightarrow> (push_all (q_base queued) [(i, True)] stack, arena)
      | Some (FForLoop l) \<Rightarrow> (push_all (q_base queued) [(for_fragment_id l, False)] stack, arena)
      | Some (FIfCond c) \<Rightarrow>
          if \<not> if_lazy c \<or> (case active of Some ids \<Rightarrow> if_fragment_id c \<in> ids | None \<Rightarrow> False)
          then (push_all (q_base queued) [(if_fragment_id c, False)] stack, arena) else (stack, arena)
      | Some (FAttribute a) \<Rightarrow>
          if attr_template a \<noteq> [] then (push_all (q_base queued) [(attr_template a, False)] stack, arena) else (stack, arena)
      | Some (FRoute r) \<Rightarrow>
          (case (matched_route, request_path) of
             (Some (best_key, rm), Some path) \<Rightarrow>
               if best_key \<noteq> route_fragment_id r then (stack, arena)
               else
                 let stack1 = (if route_content_fragment_id r \<noteq> []
                   then push_all (q_base queued) [(route_content_fragment_id r, False)] stack else stack) in
                 if route_fragment_id r = [] then (stack1, arena)
                 else (case arena_intern arena (compute_route_base path (consumed_segments rm)) of
                   (child_base, arena') \<Rightarrow>
                     let stack2 = push_all child_base [(route_fragment_id r, inventoryable_tag p (route_fragment_id r))] stack1;
                         stack3 = collect_route_boundary_components [r] child_base p stack2 in
                     if route_children r = [] then (stack3, arena')
                     else walk_route_children p path index (route_children r) child_base stack3 arena')
           | _ \<Rightarrow> (stack, arena))
      | _ \<Rightarrow> (stack, arena)))"

subsection \<open>Termination\<close>

text \<open>The number of base paths an arena can hold in the end.\<close>

definition room :: "string option \<Rightarrow> string list \<Rightarrow> nat" where
  "room request_path arena = length arena +
     (case request_path of None \<Rightarrow> 0 | Some path \<Rightarrow> card (range (compute_route_base path) - set arena))"

lemma arena_find_Some: "arena_find a b = Some i \<Longrightarrow> i < length a \<and> a ! i = b"
  by (induction a arbitrary: i) (auto split: if_splits)

lemma arena_find_None: "arena_find a b = None \<longleftrightarrow> b \<notin> set a"
  by (induction a) auto

lemma arena_intern_cases:
  assumes "arena_intern a b = (i, a')"
  obtains (known) "b \<in> set a" "a' = a" "i < length a" "a ! i = b" | (new) "b \<notin> set a" "a' = a @ [b]" "i = length a"
proof (cases "arena_find a b")
  case None
  with assms show ?thesis by (intro new) (auto simp: arena_intern_def arena_push_def arena_find_None)
next
  case (Some j)
  with assms arena_find_Some [OF Some] show ?thesis by (intro known) (auto simp: arena_intern_def)
qed

lemma arena_intern_room:
  assumes "arena_intern a (compute_route_base path n) = (i, a')"
  shows "room (Some path) a' = room (Some path) a" "i < room (Some path) a"
proof -
  let ?b = "compute_route_base path n"
  have *: "room (Some path) a' = room (Some path) a \<and> i < length a'"
    using assms
  proof (cases rule: arena_intern_cases)
    case new
    have "range (compute_route_base path) - set a = insert ?b (range (compute_route_base path) - set a')"
      using new by auto
    moreover have "?b \<notin> range (compute_route_base path) - set a'" using new(2) by simp
    moreover have "finite (range (compute_route_base path) - set a')" using finite_bases by (rule finite_Diff)
    ultimately have "card (range (compute_route_base path) - set a) = Suc (card (range (compute_route_base path) - set a'))"
      by (metis card_insert_disjoint)
    moreover have "length a' = Suc (length a)" using new(2) by simp
    ultimately show ?thesis using new(3) unfolding room_def option.case by linarith
  qed simp
  then show "room (Some path) a' = room (Some path) a" by simp
  with * show "i < room (Some path) a" by (simp add: room_def)
qed

definition numbered_below :: "nat set \<Rightarrow> queued_fragment list \<Rightarrow> bool" where
  "numbered_below N stack \<longleftrightarrow> q_base ` set stack \<subseteq> N"

lemma push_all_base: "b \<in> N \<Longrightarrow> numbered_below N stack \<Longrightarrow> numbered_below N (push_all b ts stack)"
  by (induction ts arbitrary: stack) (auto simp: push_all_def numbered_below_def split: prod.split)

lemma boundary_base: "b \<in> N \<Longrightarrow> numbered_below N stack \<Longrightarrow> numbered_below N (boundary_loop p b rs stack)"
  by (induction p b rs stack rule: boundary_loop.induct) (simp_all add: push_all_base)

lemma children_base:
  "walk_route_children p path index rs b stack a = (stack', a') \<Longrightarrow> {..<room (Some path) a} \<subseteq> N \<Longrightarrow> numbered_below N stack \<Longrightarrow>
   numbered_below N stack' \<and> room (Some path) a' = room (Some path) a"
proof (induction p path index rs b stack a rule: walk_route_children.induct)
  case (1 p path index rs b stack a)
  show ?case
  proof (cases "select_best_child_route rs path (arena_get a b) index")
    case None
    with "1.prems" show ?thesis by (simp add: walk_route_children.simps)
  next
    case (Some m)
    obtain idx rm where m: "m = (idx, rm)" by fastforce
    show ?thesis
    proof (cases "idx \<ge> length rs \<or> route_fragment_id (rs ! idx) = []")
      case True
      with Some m "1.prems" show ?thesis by (simp add: walk_route_children.simps)
    next
      case False
      obtain i a1 where i: "arena_intern a (compute_route_base path (consumed_segments rm)) = (i, a1)" by fastforce
      note r = arena_intern_room [OF i]
      let ?stack = "push_all i (child_pushes p (rs ! idx)) stack"
      have st: "numbered_below N ?stack" using r(2) "1.prems"(2,3) by (intro push_all_base) auto
      show ?thesis
      proof (cases "route_children (rs ! idx) = []")
        case True
        with Some m False i st r(1) "1.prems" show ?thesis by (subst (asm) walk_route_children.simps) (simp add: Let_def)
      next
        case ne: False
        have "walk_route_children p path index (route_children (rs ! idx)) i ?stack a1 = (stack', a')"
          using Some m False i ne "1.prems"(1) by (subst (asm) walk_route_children.simps) (simp add: Let_def)
        from "1.IH" [OF Some m [symmetric] False i [symmetric] refl refl ne this] r(1) st "1.prems"(2) show ?thesis by simp
      qed
    qed
  qed
qed

lemma fragment_base:
  assumes "walk_fragment p request_path index active q m f (stack, a) = (stack', a')"
    and "numbered_below N stack" "q_base q \<in> N" "{..<room request_path a} \<subseteq> N"
  shows "numbered_below N stack' \<and> room request_path a' = room request_path a"
proof (cases "\<exists>r best rm path. f = Some (FRoute r) \<and> m = Some (best, rm) \<and> request_path = Some path \<and> best = route_fragment_id r \<and> best \<noteq> []")
  case True
  then obtain r rm path where c: "f = Some (FRoute r)" "m = Some (route_fragment_id r, rm)" "request_path = Some path" "route_fragment_id r \<noteq> []"
    by blast
  obtain i a1 where i: "arena_intern a (compute_route_base path (consumed_segments rm)) = (i, a1)" by fastforce
  note room = arena_intern_room [OF i]
  define stack1 where "stack1 = (if route_content_fragment_id r \<noteq> []
    then push_all (q_base q) [(route_content_fragment_id r, False)] stack else stack)"
  define stack3 where "stack3 = collect_route_boundary_components [r] i p
    (push_all i [(route_fragment_id r, inventoryable_tag p (route_fragment_id r))] stack1)"
  have "numbered_below N stack1" using assms(2,3) by (simp add: stack1_def push_all_base)
  moreover have "i \<in> N" using room(2) assms(4) c(3) by auto
  ultimately have s3: "numbered_below N stack3"
    by (simp add: stack3_def collect_route_boundary_components_def push_all_base boundary_base)
  have e: "(if route_children r = [] then (stack3, a1) else walk_route_children p path index (route_children r) i stack3 a1) = (stack', a')"
    using assms(1) c i by (auto simp: walk_fragment_def Let_def stack1_def stack3_def split: if_splits)
  show ?thesis
  proof (cases "route_children r = []")
    case True
    with e s3 room(1) c(3) show ?thesis by simp
  next
    case False
    with e have "walk_route_children p path index (route_children r) i stack3 a1 = (stack', a')" by simp
    from children_base [OF this, of N] s3 room(1) assms(4) c(3) show ?thesis by simp
  qed
next
  case False
  with assms show ?thesis
    by (auto simp: walk_fragment_def Let_def push_all_base split: option.splits fragment.splits if_splits prod.splits)
qed

lemma fragments_base:
  "fold (walk_fragment p request_path index active q m) fs (stack, a) = (stack', a') \<Longrightarrow>
   numbered_below N stack \<Longrightarrow> q_base q \<in> N \<Longrightarrow> {..<room request_path a} \<subseteq> N \<Longrightarrow>
   numbered_below N stack' \<and> room request_path a' = room request_path a"
proof (induction fs arbitrary: stack a)
  case (Cons f fs)
  obtain s1 a1 where 1: "walk_fragment p request_path index active q m f (stack, a) = (s1, a1)" by (metis surj_pair)
  with Cons.prems(1) have "fold (walk_fragment p request_path index active q m) fs (s1, a1) = (stack', a')" by simp
  from Cons.IH [OF this] fragment_base [OF 1 Cons.prems(2-4)] Cons.prems(3,4) show ?case by simp
qed simp

text \<open>The keys a walk can still mark before it reads a record.\<close>

definition walk_universe :: "web_ui_protocol \<Rightarrow> string option \<Rightarrow> queued_fragment list \<Rightarrow> string list \<Rightarrow> (string \<times> nat option) set" where
  "walk_universe p request_path stack arena =
     (fst ` set (p_fragments p) \<union> fst ` set (p_client_fragments p)) \<times>
     insert None (Some ` ({..<room request_path arena} \<union> q_base ` set stack))"

lemma finite_walk_universe [simp]: "finite (walk_universe p request_path stack arena)"
  by (simp add: walk_universe_def)

definition fragment_key :: "string option \<Rightarrow> queued_fragment \<Rightarrow> string \<times> nat option" where
  "fragment_key request_path q = (q_id q, if request_path = None then None else Some (q_base q))"

definition push_dependencies :: "web_ui_protocol \<Rightarrow> queued_fragment \<Rightarrow> queued_fragment list \<Rightarrow> queued_fragment list" where
  "push_dependencies p q stack = (case map_of (p_client_fragments p) (q_id q) of
     None \<Rightarrow> stack
   | Some c \<Rightarrow> push_all (q_base q) (map (\<lambda>d. (d, True)) (rev (cf_dependencies c))) stack)"

definition walk_record ::
  "web_ui_protocol \<Rightarrow> string option \<Rightarrow> route_index \<Rightarrow> string set option \<Rightarrow> queued_fragment \<Rightarrow>
   queued_fragment list \<times> string list \<Rightarrow> queued_fragment list \<times> string list" where
  "walk_record p request_path index active queued acc = (case map_of (p_fragments p) (q_id queued) of
     None \<Rightarrow> acc
   | Some fl \<Rightarrow> fold (walk_fragment p request_path index active queued
       (Option.bind request_path (\<lambda>path. find_best_route_match (fragments fl) path (arena_get (snd acc) (q_base queued)) index)))
       (rev (fragments fl)) acc)"

definition walk_queued ::
  "web_ui_protocol \<Rightarrow> string option \<Rightarrow> route_index \<Rightarrow> string set option \<Rightarrow> queued_fragment \<Rightarrow>
   queued_fragment list \<times> string list \<Rightarrow> queued_fragment list \<times> string list" where
  "walk_queued p request_path index active queued acc = (case acc of (stack, arena) \<Rightarrow>
     walk_record p request_path index active queued (push_dependencies p queued stack, arena))"

lemma walk_queued_base:
  assumes "walk_queued p request_path index active q (stack, a) = (stack', a')"
    and "numbered_below N stack" "q_base q \<in> N" "{..<room request_path a} \<subseteq> N"
  shows "numbered_below N stack' \<and> room request_path a' = room request_path a"
proof -
  have d: "numbered_below N (push_dependencies p q stack)"
    using assms(2,3) by (simp add: push_dependencies_def push_all_base split: option.split)
  show ?thesis
  proof (cases "map_of (p_fragments p) (q_id q)")
    case None
    with assms(1) d show ?thesis by (simp add: walk_queued_def walk_record_def)
  next
    case (Some fl)
    show ?thesis
      by (rule fragments_base [OF _ d assms(3,4)]) (use assms(1) Some in \<open>simp add: walk_queued_def walk_record_def\<close>)
  qed
qed

lemma walk_step_shrinks:
  assumes w: "(stack', a') = walk_queued p request_path index active q (stack, a)" and k: "fragment_key request_path q \<notin> visited"
  shows "walk_universe p request_path stack' a' - insert (fragment_key request_path q) visited \<subset> walk_universe p request_path (q # stack) a - visited
    \<or> walk_universe p request_path stack' a' - insert (fragment_key request_path q) visited \<subseteq> walk_universe p request_path (q # stack) a - visited
      \<and> length stack' < length (q # stack)"
proof -
  let ?N = "{..<room request_path a} \<union> q_base ` set (q # stack)"
  have "numbered_below ?N stack' \<and> room request_path a' = room request_path a"
    by (rule walk_queued_base [OF w [symmetric]]) (auto simp: numbered_below_def)
  then have sub: "walk_universe p request_path stack' a' \<subseteq> walk_universe p request_path (q # stack) a"
    by (auto simp: walk_universe_def numbered_below_def)
  show ?thesis
  proof (cases "q_id q \<in> fst ` set (p_fragments p) \<union> fst ` set (p_client_fragments p)")
    case True
    then have "fragment_key request_path q \<in> walk_universe p request_path (q # stack) a"
      by (auto simp: walk_universe_def fragment_key_def)
    with sub k show ?thesis by blast
  next
    case False
    then have "map_of (p_fragments p) (q_id q) = None" "map_of (p_client_fragments p) (q_id q) = None"
      by (auto simp: map_of_eq_None_iff)
    then have "stack' = stack" using w by (simp add: walk_queued_def walk_record_def push_dependencies_def)
    with sub show ?thesis by auto
  qed
qed

subsection \<open>The traversal\<close>

definition collects :: "web_ui_protocol \<Rightarrow> string \<Rightarrow> bool \<Rightarrow> bool" where
  "collects p i inventoryable \<longleftrightarrow> inventoryable \<or> (p_client_fragments p \<noteq> [] \<and> map_of (p_client_fragments p) i \<noteq> None)"

function inventory_loop ::
  "web_ui_protocol \<Rightarrow> string option \<Rightarrow> route_index \<Rightarrow> string set option \<Rightarrow> queued_fragment list \<Rightarrow> string list \<Rightarrow>
   (string \<times> nat option) set \<Rightarrow> string list \<Rightarrow> string list" where
  "inventory_loop p request_path index active [] arena visited component_ids = component_ids"
| "inventory_loop p request_path index active (queued # stack) arena visited component_ids =
     (if q_id queued = [] then inventory_loop p request_path index active stack arena visited component_ids
      else
        let component_ids' = (if collects p (q_id queued) (q_inventoryable queued) \<and> q_id queued \<notin> set component_ids
          then component_ids @ [q_id queued] else component_ids) in
        if fragment_key request_path queued \<in> visited
        then inventory_loop p request_path index active stack arena visited component_ids'
        else (case walk_queued p request_path index active queued (stack, arena) of
          (stack', arena') \<Rightarrow> inventory_loop p request_path index active stack' arena'
            (insert (fragment_key request_path queued) visited) component_ids'))"
  by pat_completeness auto
termination
proof (relation "inv_image (finite_psubset <*lex*> less_than)
    (\<lambda>(p, request_path, _, _, stack, arena, visited, _). (walk_universe p request_path stack arena - visited, length stack))", goal_cases)
  case 1
  show ?case by (intro wf_inv_image wf_lex_prod wf_finite_psubset wf_less_than)
next
  case (4 p request_path index active q stack arena visited ids ids' stack' arena')
  then show ?case using walk_step_shrinks [of stack' arena' p request_path index active q stack arena visited]
    by (auto simp: finite_psubset_def)
qed (auto simp: finite_psubset_def walk_universe_def)

definition collect_inventoryable_components_from_stack ::
  "web_ui_protocol \<Rightarrow> string option \<Rightarrow> string set option \<Rightarrow> route_index \<Rightarrow> queued_fragment list \<Rightarrow> string list \<Rightarrow> string list" where
  "collect_inventoryable_components_from_stack p request_path active index stack arena =
     inventory_loop p request_path index active stack arena {} []"

definition collect_inventoryable_components :: "web_ui_protocol \<Rightarrow> string \<Rightarrow> string option \<Rightarrow> bool \<Rightarrow> route_index \<Rightarrow> string list" where
  "collect_inventoryable_components p entry_id request_path root_inventoryable index =
     collect_inventoryable_components_from_stack p request_path None index
       [\<lparr>q_id = entry_id, q_inventoryable = root_inventoryable, q_base = ARENA_ROOT\<rparr>] arena_new"

definition collect_reachable_component_order_for_request :: "web_ui_protocol \<Rightarrow> string \<Rightarrow> string \<Rightarrow> route_index \<Rightarrow> string list" where
  "collect_reachable_component_order_for_request p entry_id request_path index =
     collect_inventoryable_components p entry_id (Some request_path) False index"

definition collect_reachable_with_lazy :: "web_ui_protocol \<Rightarrow> string \<Rightarrow> string \<Rightarrow> route_index \<Rightarrow> string set option \<Rightarrow> string list" where
  "collect_reachable_with_lazy p entry_id request_path index active =
     collect_inventoryable_components_from_stack p (Some request_path) active index
       [\<lparr>q_id = entry_id, q_inventoryable = False, q_base = ARENA_ROOT\<rparr>] arena_new"

section \<open>The components a request reaches\<close>

text \<open>
  The specification of the walk: what one fragment leads to, as (fragment, inventoryable, base
  path), and its closure from the entry.  It has no stack, no visited set and no numbering.
\<close>

type_synonym reach_node = "string \<times> bool \<times> string"

inductive below :: "web_ui_route list \<Rightarrow> web_ui_route \<Rightarrow> bool" where
  below_top: "r \<in> set rs \<Longrightarrow> below rs r"
| below_child: "below (route_children r) c \<Longrightarrow> r \<in> set rs \<Longrightarrow> below rs c"

inductive_simps below_simps: "below rs c"

definition boundary_nodes :: "web_ui_protocol \<Rightarrow> web_ui_route list \<Rightarrow> string \<Rightarrow> reach_node set" where
  "boundary_nodes p rs base = {(tag, inventoryable_tag p tag, base) | r tag.
     below rs r \<and> tag \<in> {route_pending_component r, route_error_component r} \<and> tag \<noteq> []}"

function chain_nodes :: "web_ui_protocol \<Rightarrow> string \<Rightarrow> route_index \<Rightarrow> web_ui_route list \<Rightarrow> string \<Rightarrow> reach_node set" where
  "chain_nodes p path index rs base = (case select_best_child_route rs path base index of
     None \<Rightarrow> {}
   | Some (idx, rm) \<Rightarrow>
       if idx \<ge> length rs \<or> route_fragment_id (rs ! idx) = [] then {}
       else let c = compute_route_base path (consumed_segments rm) in
         (\<lambda>(tag, inv). (tag, inv, c)) ` set (child_pushes p (rs ! idx)) \<union> chain_nodes p path index (route_children (rs ! idx)) c)"
  by pat_completeness auto
termination
  by (relation "measure (\<lambda>(_, _, _, rs, _). routes_size rs)") (auto dest!: select_child_smaller)

declare chain_nodes.simps [simp del]

fun fragment_nodes :: "web_ui_protocol \<Rightarrow> string \<Rightarrow> route_index \<Rightarrow> string set option \<Rightarrow> (string \<times> route_match) option \<Rightarrow> string \<Rightarrow>
    web_ui_fragment \<Rightarrow> reach_node set" where
  "fragment_nodes p path index active m base (Some (FComponent i)) = {(i, True, base)}"
| "fragment_nodes p path index active m base (Some (FForLoop l)) = {(for_fragment_id l, False, base)}"
| "fragment_nodes p path index active m base (Some (FIfCond c)) =
     (if if_lazy c \<and> (active = None \<or> if_fragment_id c \<notin> the active) then {} else {(if_fragment_id c, False, base)})"
| "fragment_nodes p path index active m base (Some (FAttribute a)) =
     (if attr_template a = [] then {} else {(attr_template a, False, base)})"
| "fragment_nodes p path index active m base (Some (FRoute r)) = (case m of
     None \<Rightarrow> {}
   | Some (best_key, rm) \<Rightarrow>
       if best_key \<noteq> route_fragment_id r then {}
       else (if route_content_fragment_id r = [] then {} else {(route_content_fragment_id r, False, base)}) \<union>
         (if route_fragment_id r = [] then {}
          else let c = compute_route_base path (consumed_segments rm) in
            insert (route_fragment_id r, inventoryable_tag p (route_fragment_id r), c)
              (boundary_nodes p [r] c \<union> chain_nodes p path index (route_children r) c)))"
| "fragment_nodes p path index active m base f = {}"

definition successors :: "web_ui_protocol \<Rightarrow> string \<Rightarrow> route_index \<Rightarrow> string set option \<Rightarrow> string \<Rightarrow> string \<Rightarrow> reach_node set" where
  "successors p path index active i base =
     (case map_of (p_client_fragments p) i of None \<Rightarrow> {} | Some c \<Rightarrow> (\<lambda>d. (d, True, base)) ` set (cf_dependencies c)) \<union>
     (case map_of (p_fragments p) i of None \<Rightarrow> {}
      | Some fl \<Rightarrow> \<Union> (fragment_nodes p path index active (find_best_route_match (fragments fl) path base index) base ` set (fragments fl)))"

inductive reached :: "web_ui_protocol \<Rightarrow> string \<Rightarrow> route_index \<Rightarrow> string set option \<Rightarrow> reach_node set \<Rightarrow> reach_node \<Rightarrow> bool"
  for p path index active starts where
  reached_start: "n \<in> starts \<Longrightarrow> reached p path index active starts n"
| reached_step: "reached p path index active starts (i, v, b) \<Longrightarrow> i \<noteq> [] \<Longrightarrow> n \<in> successors p path index active i b \<Longrightarrow>
    reached p path index active starts n"

text \<open>What the numbered work list stands for.\<close>

definition node_of :: "string list \<Rightarrow> queued_fragment \<Rightarrow> reach_node" where
  "node_of arena q = (q_id q, q_inventoryable q, arena_get arena (q_base q))"

definition valid_walk :: "queued_fragment list \<times> string list \<Rightarrow> bool" where
  "valid_walk acc = (case acc of (stack, arena) \<Rightarrow> distinct arena \<and> numbered_below {..<length arena} stack)"

text \<open>One step adds the nodes \<open>ns\<close> and may append new base paths to the arena.\<close>

definition adds :: "queued_fragment list \<times> string list \<Rightarrow> queued_fragment list \<times> string list \<Rightarrow> reach_node set \<Rightarrow> bool" where
  "adds acc acc' ns = (case (acc, acc') of ((stack, arena), (stack', arena')) \<Rightarrow>
     valid_walk (stack', arena') \<and> (\<exists>bs. arena' = arena @ bs) \<and>
     node_of arena' ` set stack' = ns \<union> node_of arena ` set stack)"

lemma arena_get_append [simp]: "i < length a \<Longrightarrow> arena_get (a @ bs) i = arena_get a i"
  by (simp add: arena_get_def nth_append)

lemma node_of_append: "numbered_below {..<length a} stack \<Longrightarrow> node_of (a @ bs) ` set stack = node_of a ` set stack"
  by (intro image_cong) (auto simp: node_of_def numbered_below_def)

lemma adds_refl: "valid_walk acc \<Longrightarrow> adds acc acc {}"
  by (auto simp: adds_def split: prod.split)

lemma adds_trans [trans]: "adds acc acc1 ns1 \<Longrightarrow> adds acc1 acc2 ns2 \<Longrightarrow> adds acc acc2 (ns1 \<union> ns2)"
  by (clarsimp simp: adds_def) (simp add: Un_ac)

lemma adds_valid: "adds acc acc' ns \<Longrightarrow> valid_walk acc'"
  by (auto simp: adds_def split: prod.splits)

lemma push_all_set: "set (push_all b ts stack) = (\<lambda>(tag, inv). \<lparr>q_id = tag, q_inventoryable = inv, q_base = b\<rparr>) ` set ts \<union> set stack"
  by (induction ts arbitrary: stack) (auto simp: push_all_def split: prod.splits)

lemma push_all_adds:
  assumes "valid_walk (stack, arena)" "b < length arena"
  shows "adds (stack, arena) (push_all b ts stack, arena) ((\<lambda>(tag, inv). (tag, inv, arena_get arena b)) ` set ts)"
proof -
  have "numbered_below {..<length arena} (push_all b ts stack)" using assms by (intro push_all_base) (auto simp: valid_walk_def)
  moreover have "node_of arena ` (\<lambda>(tag, inv). \<lparr>q_id = tag, q_inventoryable = inv, q_base = b\<rparr>) ` set ts =
      (\<lambda>(tag, inv). (tag, inv, arena_get arena b)) ` set ts"
    unfolding image_image by (intro image_cong) (auto simp: node_of_def)
  ultimately show ?thesis using assms(1) by (simp add: adds_def valid_walk_def push_all_set image_Un)
qed

lemma arena_intern_adds:
  assumes "arena_intern a b = (i, a')" "valid_walk (stack, a)"
  shows "adds (stack, a) (stack, a') {}" "i < length a'" "arena_get a' i = b" "valid_walk (stack, a')"
proof -
  have "i < length a' \<and> arena_get a' i = b \<and> adds (stack, a) (stack, a') {}"
    using assms(1)
  proof (cases rule: arena_intern_cases)
    case known
    with assms(2) show ?thesis by (simp add: arena_get_def adds_refl)
  next
    case new
    have "numbered_below {..<length a} stack" using assms(2) by (simp add: valid_walk_def)
    moreover have "valid_walk (stack, a')" using new assms(2) by (auto simp: valid_walk_def numbered_below_def)
    ultimately show ?thesis using new by (simp add: adds_def node_of_append arena_get_def)
  qed
  then show "adds (stack, a) (stack, a') {}" "i < length a'" "arena_get a' i = b" "valid_walk (stack, a')"
    by (auto simp: adds_def)
qed

lemma below_Nil: "\<not> below [] c"
  by (subst below_simps) simp

lemma below_append: "below (rs @ ss) c \<longleftrightarrow> below rs c \<or> below ss c"
  by (subst (1 2 3) below_simps) auto

lemma below_set: "set rs = set ss \<Longrightarrow> below rs c \<longleftrightarrow> below ss c"
  by (subst (1 2) below_simps) simp

lemma below_Cons: "below (r # rs) c \<longleftrightarrow> c = r \<or> below (route_children r) c \<or> below rs c"
  by (subst (1 3) below_simps) auto

lemma boundary_nodes_Cons: "boundary_nodes p (r # rs) base =
    (\<lambda>tag. (tag, inventoryable_tag p tag, base)) ` {tag \<in> {route_pending_component r, route_error_component r}. tag \<noteq> []} \<union>
    boundary_nodes p (rev (route_children r) @ rs) base"
  by (auto simp: boundary_nodes_def below_Cons below_append below_set [of "rev (route_children r)" "route_children r"])

lemma boundary_adds:
  "valid_walk (stack, arena) \<Longrightarrow> b < length arena \<Longrightarrow>
   adds (stack, arena) (boundary_loop p b rs stack, arena) (boundary_nodes p rs (arena_get arena b))"
proof (induction p b rs stack rule: boundary_loop.induct)
  case (1 p b stack)
  have "boundary_nodes p [] c = {}" for c by (simp add: boundary_nodes_def below_Nil)
  with adds_refl 1(1) show ?case by simp
next
  case (2 p b r rs stack)
  let ?ts = "map (\<lambda>tag. (tag, inventoryable_tag p tag)) (filter (\<lambda>tag. tag \<noteq> []) [route_pending_component r, route_error_component r])"
  have a: "adds (stack, arena) (push_all b ?ts stack, arena) ((\<lambda>(tag, inv). (tag, inv, arena_get arena b)) ` set ?ts)"
    by (rule push_all_adds [OF "2.prems"])
  have e: "(\<lambda>(tag, inv). (tag, inv, arena_get arena b)) ` set ?ts =
      (\<lambda>tag. (tag, inventoryable_tag p tag, arena_get arena b)) ` {tag \<in> {route_pending_component r, route_error_component r}. tag \<noteq> []}"
    by auto
  from adds_trans [OF a "2.IH" [OF adds_valid [OF a] "2.prems"(2)]] show ?case
    unfolding boundary_nodes_Cons e boundary_loop.simps .
qed

lemma children_adds:
  "walk_route_children p path index rs b stack a = (stack', a') \<Longrightarrow> valid_walk (stack, a) \<Longrightarrow> b < length a \<Longrightarrow>
   adds (stack, a) (stack', a') (chain_nodes p path index rs (arena_get a b))"
proof (induction p path index rs b stack a rule: walk_route_children.induct)
  case (1 p path index rs b stack a)
  show ?case
  proof (cases "select_best_child_route rs path (arena_get a b) index")
    case None
    with "1.prems" show ?thesis by (simp add: walk_route_children.simps chain_nodes.simps adds_refl)
  next
    case (Some m)
    obtain idx rm where m: "m = (idx, rm)" by fastforce
    show ?thesis
    proof (cases "idx \<ge> length rs \<or> route_fragment_id (rs ! idx) = []")
      case True
      with Some m "1.prems" show ?thesis by (simp add: walk_route_children.simps chain_nodes.simps adds_refl)
    next
      case False
      obtain i a1 where i: "arena_intern a (compute_route_base path (consumed_segments rm)) = (i, a1)" by fastforce
      note in_arena = arena_intern_adds [OF i "1.prems"(2)]
      let ?stack = "push_all i (child_pushes p (rs ! idx)) stack"
      let ?c = "compute_route_base path (consumed_segments rm)"
      have p1: "adds (stack, a) (?stack, a1) ((\<lambda>(tag, inv). (tag, inv, ?c)) ` set (child_pushes p (rs ! idx)))"
        using adds_trans [OF in_arena(1) push_all_adds [OF in_arena(4,2)]] in_arena(3) by simp
      have nodes: "chain_nodes p path index rs (arena_get a b) =
          (\<lambda>(tag, inv). (tag, inv, ?c)) ` set (child_pushes p (rs ! idx)) \<union> chain_nodes p path index (route_children (rs ! idx)) ?c"
        using Some m False by (subst chain_nodes.simps) (simp add: Let_def)
      show ?thesis
      proof (cases "route_children (rs ! idx) = []")
        case True
        have "chain_nodes p path index [] ?c = {}" by (simp add: chain_nodes.simps select_best_child_route_def)
        with p1 nodes True Some m False i "1.prems"(1) show ?thesis
          by (subst (asm) walk_route_children.simps) (simp add: Let_def)
      next
        case ne: False
        have "walk_route_children p path index (route_children (rs ! idx)) i ?stack a1 = (stack', a')"
          using Some m False i ne "1.prems"(1) by (subst (asm) walk_route_children.simps) (simp add: Let_def)
        from "1.IH" [OF Some m [symmetric] False i [symmetric] refl refl ne this adds_valid [OF p1] in_arena(2)] in_arena(3)
        have "adds (?stack, a1) (stack', a') (chain_nodes p path index (route_children (rs ! idx)) ?c)" by simp
        from adds_trans [OF p1 this] nodes show ?thesis by simp
      qed
    qed
  qed
qed

lemma chain_nodes_Nil [simp]: "chain_nodes p path index [] base = {}"
  by (simp add: chain_nodes.simps select_best_child_route_def)

lemma push_one_adds:
  "valid_walk (stack, arena) \<Longrightarrow> b < length arena \<Longrightarrow> adds (stack, arena) (push_all b [(i, v)] stack, arena) {(i, v, arena_get arena b)}"
  using push_all_adds [of stack arena b "[(i, v)]"] by simp

lemma route_adds:
  assumes w: "walk_fragment p (Some path) index active q (Some (route_fragment_id r, rm)) (Some (FRoute r)) (stack, a) = (stack', a')"
    and v: "valid_walk (stack, a)" and b: "q_base q < length a"
  shows "adds (stack, a) (stack', a')
    (fragment_nodes p path index active (Some (route_fragment_id r, rm)) (arena_get a (q_base q)) (Some (FRoute r)))"
proof -
  let ?c = "compute_route_base path (consumed_segments rm)"
  let ?content = "if route_content_fragment_id r = [] then {} else {(route_content_fragment_id r, False, arena_get a (q_base q))}"
  define stack1 where "stack1 = (if route_content_fragment_id r \<noteq> []
    then push_all (q_base q) [(route_content_fragment_id r, False)] stack else stack)"
  have a1: "adds (stack, a) (stack1, a) ?content"
    using v b by (simp add: stack1_def push_one_adds adds_refl)
  show ?thesis
  proof (cases "route_fragment_id r = []")
    case True
    with w a1 show ?thesis by (auto simp: walk_fragment_def Let_def stack1_def split: if_splits)
  next
    case False
    obtain i a2 where i: "arena_intern a ?c = (i, a2)" by fastforce
    note in_arena = arena_intern_adds [OF i adds_valid [OF a1]]
    define stack2 where "stack2 = push_all i [(route_fragment_id r, inventoryable_tag p (route_fragment_id r))] stack1"
    define stack3 where "stack3 = collect_route_boundary_components [r] i p stack2"
    have e: "(if route_children r = [] then (stack3, a2) else walk_route_children p path index (route_children r) i stack3 a2) = (stack', a')"
      using w False i by (auto simp: walk_fragment_def Let_def stack1_def stack2_def stack3_def split: if_splits)
    have a3: "adds (stack1, a2) (stack2, a2) {(route_fragment_id r, inventoryable_tag p (route_fragment_id r), ?c)}"
      using push_one_adds [OF in_arena(4,2)] in_arena(3) by (simp add: stack2_def)
    have a4: "adds (stack2, a2) (stack3, a2) (boundary_nodes p [r] ?c)"
      using boundary_adds [OF adds_valid [OF a3] in_arena(2), of p "[r]"] in_arena(3)
      by (simp add: stack3_def collect_route_boundary_components_def)
    have a5: "adds (stack3, a2) (stack', a') (chain_nodes p path index (route_children r) ?c)"
    proof (cases "route_children r = []")
      case True
      with e adds_refl [OF adds_valid [OF a4]] show ?thesis by simp
    next
      case ne: False
      with e have "walk_route_children p path index (route_children r) i stack3 a2 = (stack', a')" by simp
      from children_adds [OF this adds_valid [OF a4] in_arena(2)] in_arena(3) show ?thesis by simp
    qed
    from adds_trans [OF a1 adds_trans [OF in_arena(1) adds_trans [OF a3 adds_trans [OF a4 a5]]]] False
    show ?thesis by (simp add: Let_def)
  qed
qed

lemma fragment_adds:
  assumes w: "walk_fragment p (Some path) index active q m f (stack, a) = (stack', a')"
    and v: "valid_walk (stack, a)" and b: "q_base q < length a"
  shows "adds (stack, a) (stack', a') (fragment_nodes p path index active m (arena_get a (q_base q)) f)"
proof (cases "\<exists>r rm. f = Some (FRoute r) \<and> m = Some (route_fragment_id r, rm)")
  case True
  with route_adds [OF _ v b] w show ?thesis by blast
next
  case False
  with w v b show ?thesis
    by (cases "(p, path, index, active, m, arena_get a (q_base q), f)" rule: fragment_nodes.cases)
      (auto simp: walk_fragment_def push_one_adds adds_refl split: option.splits if_splits prod.splits)
qed

lemma fragments_adds:
  "fold (walk_fragment p (Some path) index active q m) fs (stack, a) = (stack', a') \<Longrightarrow> valid_walk (stack, a) \<Longrightarrow> q_base q < length a \<Longrightarrow>
   adds (stack, a) (stack', a') (\<Union> (fragment_nodes p path index active m (arena_get a (q_base q)) ` set fs))"
proof (induction fs arbitrary: stack a)
  case (Cons f fs)
  obtain s1 a1 where 1: "walk_fragment p (Some path) index active q m f (stack, a) = (s1, a1)" by (metis surj_pair)
  with Cons.prems(1) have rest: "fold (walk_fragment p (Some path) index active q m) fs (s1, a1) = (stack', a')" by simp
  note first = fragment_adds [OF 1 Cons.prems(2,3)]
  then obtain bs where a1: "a1 = a @ bs" by (auto simp: adds_def)
  from Cons.IH [OF rest adds_valid [OF first]] Cons.prems(3) a1
  have "adds (s1, a1) (stack', a') (\<Union> (fragment_nodes p path index active m (arena_get a (q_base q)) ` set fs))" by simp
  from adds_trans [OF first this] show ?case by simp
qed (simp add: adds_refl)

lemma walk_queued_adds:
  assumes w: "walk_queued p (Some path) index active q (stack, a) = (stack', a')"
    and v: "valid_walk (stack, a)" and b: "q_base q < length a"
  shows "adds (stack, a) (stack', a') (successors p path index active (q_id q) (arena_get a (q_base q)))"
proof -
  let ?deps = "case map_of (p_client_fragments p) (q_id q) of None \<Rightarrow> {}
    | Some c \<Rightarrow> (\<lambda>d. (d, True, arena_get a (q_base q))) ` set (cf_dependencies c)"
  have d: "adds (stack, a) (push_dependencies p q stack, a) ?deps"
    using push_all_adds [OF v b, of "map (\<lambda>d. (d, True)) (rev (cf_dependencies c))" for c] v
    by (cases "map_of (p_client_fragments p) (q_id q)") (simp_all add: push_dependencies_def adds_refl image_image)
  show ?thesis
  proof (cases "map_of (p_fragments p) (q_id q)")
    case None
    with w d show ?thesis by (auto simp: walk_queued_def walk_record_def successors_def)
  next
    case (Some fl)
    with w have "fold (walk_fragment p (Some path) index active q (find_best_route_match (fragments fl) path (arena_get a (q_base q)) index))
        (rev (fragments fl)) (push_dependencies p q stack, a) = (stack', a')"
      by (simp add: walk_queued_def walk_record_def)
    from adds_trans [OF d fragments_adds [OF this adds_valid [OF d] b]] Some show ?thesis by (simp add: successors_def)
  qed
qed

subsection \<open>Soundness of the traversal\<close>

lemma collects_simp: "collects p i v \<longleftrightarrow> v \<or> map_of (p_client_fragments p) i \<noteq> None"
  by (auto simp: collects_def)

definition wanted :: "web_ui_protocol \<Rightarrow> string \<Rightarrow> route_index \<Rightarrow> string set option \<Rightarrow> reach_node set \<Rightarrow> string set" where
  "wanted p path index active starts =
     {i. i \<noteq> [] \<and> (\<exists>v b. reached p path index active starts (i, v, b) \<and> (v \<or> map_of (p_client_fragments p) i \<noteq> None))}"

lemma reached_mono:
  assumes "reached p path index active starts n" "\<And>x. x \<in> starts \<Longrightarrow> reached p path index active starts' x"
  shows "reached p path index active starts' n"
  using assms by (induction rule: reached.induct) (auto intro: reached_step)

lemma wanted_mono: "(\<And>x. x \<in> starts \<Longrightarrow> reached p path index active starts' x) \<Longrightarrow> wanted p path index active starts \<subseteq> wanted p path index active starts'"
  unfolding wanted_def using reached_mono by blast

lemma wanted_subset: "starts \<subseteq> starts' \<Longrightarrow> wanted p path index active starts \<subseteq> wanted p path index active starts'"
  by (rule wanted_mono) (auto intro: reached_start)

lemma wanted_step:
  "node_of a q \<in> starts' \<Longrightarrow> q_id q \<noteq> [] \<Longrightarrow> starts \<subseteq> successors p path index active (q_id q) (arena_get a (q_base q)) \<union> starts' \<Longrightarrow>
   wanted p path index active starts \<subseteq> wanted p path index active starts'"
  by (rule wanted_mono) (auto simp: node_of_def intro: reached_start reached_step)

lemma loop_sound:
  "valid_walk (stack, a) \<Longrightarrow> distinct ids \<Longrightarrow>
   distinct (inventory_loop p (Some path) index active stack a visited ids) \<and>
   set ids \<subseteq> set (inventory_loop p (Some path) index active stack a visited ids) \<and>
   set (inventory_loop p (Some path) index active stack a visited ids) \<subseteq> set ids \<union> wanted p path index active (node_of a ` set stack)"
proof (induction p "Some path" index active stack a visited ids rule: inventory_loop.induct)
  case (2 p index active q stack a visited ids)
  have v: "valid_walk (stack, a)" and b: "q_base q < length a" using "2.prems"(1) by (auto simp: valid_walk_def numbered_below_def)
  have sub: "wanted p path index active (node_of a ` set stack) \<subseteq> wanted p path index active (node_of a ` set (q # stack))"
    by (rule wanted_subset) auto
  show ?case
  proof (cases "q_id q = []")
    case True
    with "2.hyps"(1) [OF True v "2.prems"(2)] sub show ?thesis by auto
  next
    case False
    define ids' where "ids' = (if collects p (q_id q) (q_inventoryable q) \<and> q_id q \<notin> set ids then ids @ [q_id q] else ids)"
    have d: "distinct ids'" "set ids \<subseteq> set ids'" using "2.prems"(2) by (auto simp: ids'_def)
    have in_w: "set ids' \<subseteq> set ids \<union> wanted p path index active (node_of a ` set (q # stack))"
      using False by (auto simp: ids'_def collects_simp wanted_def node_of_def intro!: reached_start)
    show ?thesis
    proof (cases "fragment_key (Some path) q \<in> visited")
      case True
      from "2.hyps"(2) [OF False ids'_def True v d(1)] in_w sub d(2) show ?thesis
        using False True by (auto simp: Let_def ids'_def [symmetric])
    next
      case new: False
      obtain stack' a' where w: "walk_queued p (Some path) index active q (stack, a) = (stack', a')" by fastforce
      note add = walk_queued_adds [OF w v b]
      have "wanted p path index active (node_of a' ` set stack') \<subseteq> wanted p path index active (node_of a ` set (q # stack))"
        using add by (intro wanted_step [OF _ False]) (auto simp: adds_def)
      with "2.hyps"(3) [OF False ids'_def new w [symmetric] adds_valid [OF add] d(1)] in_w d(2) show ?thesis
        using False new w by (auto simp: Let_def ids'_def [symmetric])
    qed
  qed
qed simp

subsection \<open>Completeness of the traversal\<close>

text \<open>A node is done when its fragment was walked under its base path and its component collected.\<close>

definition done_nodes :: "web_ui_protocol \<Rightarrow> string list \<Rightarrow> (string \<times> nat option) set \<Rightarrow> string list \<Rightarrow> reach_node set" where
  "done_nodes p a visited ids = {(i, v, b). i = [] \<or>
     ((\<exists>k < length a. (i, Some k) \<in> visited \<and> arena_get a k = b) \<and> (collects p i v \<longrightarrow> i \<in> set ids))}"

definition walk_closed ::
  "web_ui_protocol \<Rightarrow> string \<Rightarrow> route_index \<Rightarrow> string set option \<Rightarrow> queued_fragment list \<Rightarrow> string list \<Rightarrow> (string \<times> nat option) set \<Rightarrow>
   string list \<Rightarrow> bool" where
  "walk_closed p path index active stack a visited ids \<longleftrightarrow>
     (\<forall>i k. (i, Some k) \<in> visited \<longrightarrow> k < length a \<and>
       successors p path index active i (arena_get a k) \<subseteq> done_nodes p a visited ids \<union> node_of a ` set stack)"

lemma done_nodes_mono:
  "visited \<subseteq> visited' \<Longrightarrow> set ids \<subseteq> set ids' \<Longrightarrow> done_nodes p a visited ids \<subseteq> done_nodes p (a @ bs) visited' ids'"
  unfolding done_nodes_def by clarsimp (metis arena_get_append subset_iff trans_less_add1)

lemma done_nodes_mono0:
  "set ids \<subseteq> set ids' \<Longrightarrow> done_nodes p a visited ids \<subseteq> done_nodes p a visited ids'"
  using done_nodes_mono [of visited visited ids ids' p a "[]"] by simp

definition walk_covered :: "web_ui_protocol \<Rightarrow> string \<Rightarrow> route_index \<Rightarrow> string set option \<Rightarrow> reach_node set \<Rightarrow> string list \<Rightarrow> bool" where
  "walk_covered p path index active ns result \<longleftrightarrow> (\<exists>H. ns \<subseteq> H \<and> (\<forall>i v b. (i, v, b) \<in> H \<longrightarrow> i \<noteq> [] \<longrightarrow>
     successors p path index active i b \<subseteq> H \<and> (collects p i v \<longrightarrow> i \<in> set result)))"

lemma covered_mono: "walk_covered p path index active ns' result \<Longrightarrow> ns \<subseteq> ns' \<Longrightarrow> walk_covered p path index active ns result"
  unfolding walk_covered_def by blast

lemma covered_done:
  assumes "walk_closed p path index active [] a visited ids"
  shows "walk_covered p path index active (done_nodes p a visited ids) ids"
  unfolding walk_covered_def
proof (intro exI conjI allI impI)
  fix i v b assume "(i, v, b) \<in> done_nodes p a visited ids" "i \<noteq> []"
  with assms show "successors p path index active i b \<subseteq> done_nodes p a visited ids" "collects p i v \<Longrightarrow> i \<in> set ids"
    by (auto simp: walk_closed_def done_nodes_def)
qed simp

lemma loop_complete:
  "valid_walk (stack, a) \<Longrightarrow> walk_closed p path index active stack a visited ids \<Longrightarrow>
   walk_covered p path index active (done_nodes p a visited ids \<union> node_of a ` set stack)
     (inventory_loop p (Some path) index active stack a visited ids)"
proof (induction p "Some path" index active stack a visited ids rule: inventory_loop.induct)
  case (1 p index active a visited ids)
  then show ?case by (simp add: covered_done)
next
  case (2 p index active q stack a visited ids)
  have v: "valid_walk (stack, a)" and b: "q_base q < length a" using "2.prems"(1) by (auto simp: valid_walk_def numbered_below_def)
  show ?case
  proof (cases "q_id q = []")
    case True
    then have q: "node_of a q \<in> done_nodes p a visited ids" by (simp add: node_of_def done_nodes_def)
    with "2.prems"(2) have "walk_closed p path index active stack a visited ids" by (simp add: walk_closed_def insert_absorb)
    from covered_mono [OF "2.hyps"(1) [OF True v this]] q True show ?thesis by auto
  next
    case False
    define ids' where "ids' = (if collects p (q_id q) (q_inventoryable q) \<and> q_id q \<notin> set ids then ids @ [q_id q] else ids)"
    have ids': "set ids \<subseteq> set ids'" "collects p (q_id q) (q_inventoryable q) \<longrightarrow> q_id q \<in> set ids'" by (auto simp: ids'_def)
    show ?thesis
    proof (cases "fragment_key (Some path) q \<in> visited")
      case True
      then have q: "node_of a q \<in> done_nodes p a visited ids'"
        using ids'(2) b by (auto simp: node_of_def done_nodes_def fragment_key_def)
      have "walk_closed p path index active stack a visited ids'"
        using "2.prems"(2) q done_nodes_mono0 [OF ids'(1), of p a visited] by (fastforce simp: walk_closed_def)
      moreover have "done_nodes p a visited ids \<union> node_of a ` set (q # stack) \<subseteq> done_nodes p a visited ids' \<union> node_of a ` set stack"
        using q done_nodes_mono0 [OF ids'(1), of p a visited] by auto
      ultimately show ?thesis
        using covered_mono [OF "2.hyps"(2) [OF False ids'_def True v]] False True by (simp add: Let_def ids'_def [symmetric])
    next
      case new: False
      obtain stack' a' where w: "walk_queued p (Some path) index active q (stack, a) = (stack', a')" by fastforce
      note add = walk_queued_adds [OF w v b]
      then obtain bs where bs: "a' = a @ bs" and nodes: "node_of a' ` set stack' =
          successors p path index active (q_id q) (arena_get a (q_base q)) \<union> node_of a ` set stack"
        by (auto simp: adds_def)
      let ?visited = "insert (fragment_key (Some path) q) visited"
      have mono: "done_nodes p a visited ids \<subseteq> done_nodes p a' ?visited ids'"
        unfolding bs by (rule done_nodes_mono) (use ids'(1) in auto)
      have q: "node_of a q \<in> done_nodes p a' ?visited ids'"
        using ids'(2) b bs by (auto simp: node_of_def done_nodes_def fragment_key_def intro!: exI [of _ "q_base q"])
      have "walk_closed p path index active stack' a' ?visited ids'"
        unfolding walk_closed_def
      proof (intro allI impI)
        fix i k assume "(i, Some k) \<in> ?visited"
        then consider "i = q_id q" "k = q_base q" | "(i, Some k) \<in> visited" by (auto simp: fragment_key_def)
        then show "k < length a' \<and> successors p path index active i (arena_get a' k) \<subseteq> done_nodes p a' ?visited ids' \<union> node_of a' ` set stack'"
        proof cases
          case 1
          with b bs nodes show ?thesis by auto
        next
          case 2
          with "2.prems"(2) have k: "k < length a" and "successors p path index active i (arena_get a k) \<subseteq>
              done_nodes p a visited ids \<union> insert (node_of a q) (node_of a ` set stack)"
            by (auto simp: walk_closed_def)
          moreover have "arena_get a' k = arena_get a k" using k bs by simp
          moreover have "done_nodes p a visited ids \<union> insert (node_of a q) (node_of a ` set stack) \<subseteq>
              done_nodes p a' ?visited ids' \<union> node_of a' ` set stack'"
            using mono q nodes by blast
          ultimately show ?thesis using bs by (simp add: subset_trans)
        qed
      qed
      moreover have "done_nodes p a visited ids \<union> node_of a ` set (q # stack) \<subseteq> done_nodes p a' ?visited ids' \<union> node_of a' ` set stack'"
        using mono q nodes by auto
      ultimately show ?thesis
        using covered_mono [OF "2.hyps"(3) [OF False ids'_def new w [symmetric] adds_valid [OF add]]] False new w
        by (simp add: Let_def ids'_def [symmetric])
    qed
  qed
qed

lemma covered_wanted: "walk_covered p path index active ns result \<Longrightarrow> wanted p path index active ns \<subseteq> set result"
proof -
  assume "walk_covered p path index active ns result"
  then obtain H where H: "ns \<subseteq> H" "\<And>i v b. (i, v, b) \<in> H \<Longrightarrow> i \<noteq> [] \<Longrightarrow>
      successors p path index active i b \<subseteq> H \<and> (collects p i v \<longrightarrow> i \<in> set result)"
    unfolding walk_covered_def by blast
  have "reached p path index active ns n \<Longrightarrow> n \<in> H" for n
    by (induction rule: reached.induct) (use H in blast)+
  with H(2) show ?thesis unfolding wanted_def collects_simp by blast
qed

lemma inventory_exact:
  assumes "valid_walk (stack, a)"
  shows "distinct (inventory_loop p (Some path) index active stack a {} [])"
    and "set (inventory_loop p (Some path) index active stack a {} []) = wanted p path index active (node_of a ` set stack)"
proof -
  have "walk_closed p path index active stack a {} []" by (simp add: walk_closed_def)
  from covered_wanted [OF covered_mono [OF loop_complete [OF assms this]]]
  have "wanted p path index active (node_of a ` set stack) \<subseteq> set (inventory_loop p (Some path) index active stack a {} [])" by blast
  with loop_sound [OF assms, of "[]" p path index active "{}"]
  show "distinct (inventory_loop p (Some path) index active stack a {} [])"
    "set (inventory_loop p (Some path) index active stack a {} []) = wanted p path index active (node_of a ` set stack)" by auto
qed

text \<open>
  C4. The components collected for a request are listed once each, and they are exactly the
  non-empty fragments that the request reaches from the entry through component, loop,
  attribute and selected conditional fragments, client dependencies and the routes it matches,
  and that are inventoryable or client fragments.
\<close>

theorem reachable_components_exact:
  "distinct (collect_reachable_with_lazy p entry_id request_path index active) \<and>
   set (collect_reachable_with_lazy p entry_id request_path index active) =
     {i. i \<noteq> [] \<and> (\<exists>v b. reached p request_path index active {(entry_id, False, ''/'')} (i, v, b) \<and>
       (v \<or> i \<in> fst ` set (p_client_fragments p)))}"
proof -
  let ?stack = "[\<lparr>q_id = entry_id, q_inventoryable = False, q_base = ARENA_ROOT\<rparr>]"
  have "valid_walk (?stack, arena_new)" by (simp add: valid_walk_def numbered_below_def arena_new_def ARENA_ROOT_def)
  moreover have "node_of arena_new ` set ?stack = {(entry_id, False, ''/'')}"
    by (simp add: node_of_def arena_get_def arena_new_def ARENA_ROOT_def)
  ultimately show ?thesis
    using inventory_exact [of ?stack arena_new p request_path index active]
    by (simp add: collect_reachable_with_lazy_def collect_inventoryable_components_from_stack_def wanted_def
        map_of_eq_None_iff)
qed

end
