(* ===== verification/Lazy_Index.thy ===== *)
theory Lazy_Index
  imports Render_Plan Route_Walk
begin

text \<open>
  The index of lazy conditions that is compiled when a protocol is loaded
  (\<open>crates/webui-handler/src/lazy/index.rs\<close>): which records can reach a lazy condition or an
  outlet, and the steps that a selection takes through such a record.  A vector used as a
  stack is a list with its top in front.  The index of a slot is in range: \<open>slots\<close> numbers the
  entries of \<open>ids\<close> (\<open>slots_in_range\<close>), so an update by index never leaves the vector.
\<close>

unbundle bit_operations_syntax

definition HAS_LAZY :: "8 word" where
  "HAS_LAZY = 1"

definition HAS_OUTLET :: "8 word" where
  "HAS_OUTLET = 2"

datatype lazy_step =
    StepComponent nat "nat list"
  | StepCondition nat
  | StepRepeat nat
  | StepRoute nat
  | StepOutlet

record record_plan =
  rp_flags :: "8 word"
  rp_steps :: "lazy_step list"

type_synonym lazy_index = "record_plan list"

section \<open>Building\<close>

function route_targets_loop :: "web_ui_route list \<Rightarrow> string list \<Rightarrow> string list" where
  "route_targets_loop [] targets = targets"
| "route_targets_loop (r # pending) targets =
     route_targets_loop (rev (route_children r) @ pending)
       (targets @ [route_fragment_id r] @ (if route_content_fragment_id r \<noteq> [] then [route_content_fragment_id r] else []))"
  by pat_completeness auto
termination
proof (relation "measure (\<lambda>(pending, _). routes_size pending)", goal_cases)
  case (2 r pending targets)
  have "routes_size (route_children r) < route_size r" by (cases r) simp
  then show ?case by (simp add: rev_map [symmetric])
qed simp

definition route_targets :: "web_ui_route \<Rightarrow> string list \<Rightarrow> string list" where
  "route_targets r targets = route_targets_loop [r] targets"

text \<open>One fragment: the flags of its record and the records it leads to.\<close>

definition scan_fragment :: "web_ui_fragment \<Rightarrow> 8 word \<times> string list \<Rightarrow> 8 word \<times> string list" where
  "scan_fragment f acc = (case acc of (flags, targets) \<Rightarrow>
     (case f of
        Some (FIfCond c) \<Rightarrow> (if if_lazy c then flags OR HAS_LAZY else flags, targets @ [if_fragment_id c])
      | Some (FForLoop l) \<Rightarrow> (flags, targets @ [for_fragment_id l])
      | Some (FComponent i) \<Rightarrow> (flags, targets @ [i])
      | Some (FRoute r) \<Rightarrow> (flags, route_targets r targets)
      | Some FOutlet \<Rightarrow> (flags OR HAS_OUTLET, targets)
      | _ \<Rightarrow> (flags, targets)))"

definition add_parents :: "(string \<rightharpoonup> u32) \<Rightarrow> nat \<Rightarrow> string list \<Rightarrow> nat list list \<Rightarrow> nat list list" where
  "add_parents slots slot targets reverse = fold (\<lambda>target rv. case slots target of
     None \<Rightarrow> rv
   | Some child \<Rightarrow> rv[unat child := rv ! unat child @ [slot]]) targets reverse"

fun scan_records ::
  "web_ui_protocol \<Rightarrow> (string \<rightharpoonup> u32) \<Rightarrow> nat \<Rightarrow> string list \<Rightarrow> 8 word list \<Rightarrow> nat list list \<Rightarrow> 8 word list \<times> nat list list" where
  "scan_records p slots slot [] flags reverse = (flags, reverse)"
| "scan_records p slots slot (i # ids) flags reverse = (case map_of (p_fragments p) i of
     None \<Rightarrow> scan_records p slots (slot + 1) ids flags reverse
   | Some fl \<Rightarrow> (case fold scan_fragment (fragments fl) (flags ! slot, []) of
       (flags', targets) \<Rightarrow>
         scan_records p slots (slot + 1) ids (flags[slot := flags']) (add_parents slots slot targets reverse)))"

section \<open>Propagation\<close>

text \<open>
  The slot \<open>parent\<close> was numbered by the scan, so the guard of the update always holds; the source
  would panic where it does not.
\<close>

definition raise_parent :: "nat \<Rightarrow> nat \<Rightarrow> 8 word list \<times> nat list \<Rightarrow> 8 word list \<times> nat list" where
  "raise_parent child parent acc = (case acc of (flags, pending) \<Rightarrow>
     let next = flags ! parent OR flags ! child in
     if parent < length flags \<and> next \<noteq> flags ! parent then (flags[parent := next], parent # pending) else (flags, pending))"

text \<open>What is still unset in the flags.\<close>

definition unset_flags :: "8 word list \<Rightarrow> nat" where
  "unset_flags flags = sum_list (map (\<lambda>f. 256 - unat f) flags)"

lemma unset_flags_update:
  assumes "i < length flags" "flags ! i \<noteq> flags ! i OR w"
  shows "unset_flags (flags[i := flags ! i OR w]) < unset_flags flags"
proof -
  let ?f = "\<lambda>f :: 8 word. 256 - unat f"
  have "unat (flags ! i) < unat (flags ! i OR w)"
    using assms(2) le_word_or2 [of "flags ! i" w] by (metis order_le_less word_less_nat_alt)
  moreover have "unat (flags ! i OR w) < 256" using unsigned_less [of "flags ! i OR w"] by simp
  ultimately have "?f (flags ! i OR w) < ?f (flags ! i)" by linarith
  moreover have "unset_flags flags = sum_list (map ?f (take i flags)) + ?f (flags ! i) + sum_list (map ?f (drop (Suc i) flags))"
    unfolding unset_flags_def by (subst id_take_nth_drop [OF assms(1)]) simp
  moreover have "unset_flags (flags[i := flags ! i OR w]) =
      sum_list (map ?f (take i flags)) + ?f (flags ! i OR w) + sum_list (map ?f (drop (Suc i) flags))"
    unfolding unset_flags_def by (simp add: upd_conv_take_nth_drop [OF assms(1)])
  ultimately show ?thesis by simp
qed

lemma raise_parents_unset:
  assumes "fold (raise_parent child) parents (flags, pending) = (flags', pending')"
  shows "unset_flags flags' < unset_flags flags \<or> flags' = flags \<and> pending' = pending"
  using assms
proof (induction parents arbitrary: flags pending)
  case (Cons parent parents)
  obtain f1 p1 where 1: "raise_parent child parent (flags, pending) = (f1, p1)" by fastforce
  have "unset_flags f1 < unset_flags flags \<or> f1 = flags \<and> p1 = pending"
    using 1 unset_flags_update [of parent flags "flags ! child"] by (auto simp: raise_parent_def Let_def split: if_splits)
  with Cons.IH [of f1 p1] Cons.prems 1 show ?case by auto
qed simp

function propagate_loop :: "nat list list \<Rightarrow> nat list \<Rightarrow> 8 word list \<Rightarrow> 8 word list" where
  "propagate_loop reverse [] flags = flags"
| "propagate_loop reverse (child # pending) flags =
     (case fold (raise_parent child) (reverse ! child) (flags, pending) of
        (flags', pending') \<Rightarrow> propagate_loop reverse pending' flags')"
  by pat_completeness auto
termination
proof (relation "measures [\<lambda>(_, _, flags). unset_flags flags, \<lambda>(_, pending, _). length pending]", goal_cases)
  case (2 reverse child pending flags flags' pending')
  then show ?case using raise_parents_unset [of child "reverse ! child" flags pending flags' pending'] by auto
qed simp

definition propagate :: "8 word list \<Rightarrow> nat list list \<Rightarrow> 8 word list" where
  "propagate flags reverse = propagate_loop reverse (rev (filter (\<lambda>slot. flags ! slot \<noteq> 0) [0..<length flags])) flags"

section \<open>Steps\<close>

text \<open>\<open>attributes.take().unwrap_or(position)..position\<close>\<close>

fun compile_loop :: "nat \<Rightarrow> nat option \<Rightarrow> web_ui_fragment list \<Rightarrow> lazy_step list" where
  "compile_loop place attributes [] = []"
| "compile_loop place attributes (f # fs) = (case f of
     Some (FAttribute a) \<Rightarrow> compile_loop (place + 1) (if attr_start a then Some place else attributes) fs
   | Some (FComponent _) \<Rightarrow>
       StepComponent place [(case attributes of Some start \<Rightarrow> start | None \<Rightarrow> place)..<place] # compile_loop (place + 1) None fs
   | Some (FIfCond _) \<Rightarrow> StepCondition place # compile_loop (place + 1) attributes fs
   | Some (FForLoop _) \<Rightarrow> StepRepeat place # compile_loop (place + 1) attributes fs
   | Some (FRoute _) \<Rightarrow> StepRoute place # compile_loop (place + 1) attributes fs
   | Some FOutlet \<Rightarrow> StepOutlet # compile_loop (place + 1) attributes fs
   | _ \<Rightarrow> compile_loop (place + 1) attributes fs)"

definition compile_steps :: "fragment_list \<Rightarrow> lazy_step list" where
  "compile_steps fl = compile_loop 0 None (fragments fl)"

section \<open>The index\<close>

definition is_lazy_condition :: "web_ui_fragment \<Rightarrow> bool" where
  "is_lazy_condition f = (case f of Some (FIfCond c) \<Rightarrow> if_lazy c | _ \<Rightarrow> False)"

definition record_plan_of :: "web_ui_protocol \<Rightarrow> string \<Rightarrow> 8 word \<Rightarrow> record_plan" where
  "record_plan_of p i flags = \<lparr>rp_flags = flags,
     rp_steps = (case map_of (p_fragments p) i of
       Some fl \<Rightarrow> if flags \<noteq> 0 then compile_steps fl else []
     | None \<Rightarrow> [])\<rparr>"

definition lazy_index_new :: "web_ui_protocol \<Rightarrow> string list \<Rightarrow> (string \<rightharpoonup> u32) \<Rightarrow> lazy_index option" where
  "lazy_index_new p ids slots =
     (if \<not> list_ex (\<lambda>(_, fl). list_ex is_lazy_condition (fragments fl)) (p_fragments p) then None
      else (case scan_records p slots 0 ids (replicate (length ids) 0) (replicate (length ids) []) of
        (flags, reverse) \<Rightarrow> Some (map2 (record_plan_of p) ids (propagate flags reverse))))"

definition relevant :: "lazy_index \<Rightarrow> nat \<Rightarrow> bool \<Rightarrow> bool" where
  "relevant records slot has_route_children \<longleftrightarrow> slot < length records \<and>
     (rp_flags (records ! slot) AND HAS_LAZY \<noteq> 0 \<or> (has_route_children \<and> rp_flags (records ! slot) AND HAS_OUTLET \<noteq> 0))"

section \<open>What the flags say\<close>

subsection \<open>Propagation is reachability\<close>

definition parent_of :: "nat list list \<Rightarrow> (nat \<times> nat) set" where
  "parent_of reverse = {(parent, child). child < length reverse \<and> parent \<in> set (reverse ! child)}"

text \<open>Bits only come from records below, and a record that is not pending has given its bits to its parents.\<close>

definition bits_sound :: "nat list list \<Rightarrow> 8 word list \<Rightarrow> 8 word list \<Rightarrow> bool" where
  "bits_sound reverse flags0 flags \<longleftrightarrow> length flags = length flags0 \<and>
     (\<forall>s b. s < length flags0 \<longrightarrow> bit (flags ! s) b \<longrightarrow>
       (\<exists>t. t < length flags0 \<and> (s, t) \<in> (parent_of reverse)\<^sup>* \<and> bit (flags0 ! t) b)) \<and>
     (\<forall>s b. s < length flags0 \<longrightarrow> bit (flags0 ! s) b \<longrightarrow> bit (flags ! s) b)"

definition gives :: "8 word list \<Rightarrow> nat \<Rightarrow> nat \<Rightarrow> bool" where
  "gives flags child parent \<longleftrightarrow> (\<forall>b. bit (flags ! child) b \<longrightarrow> bit (flags ! parent) b)"

definition settled :: "nat list list \<Rightarrow> nat list \<Rightarrow> 8 word list \<Rightarrow> bool" where
  "settled reverse pending flags \<longleftrightarrow>
     (\<forall>child < length reverse. child \<in> set pending \<or> (\<forall>parent \<in> set (reverse ! child). gives flags child parent))"

lemma bits_soundD: "bits_sound reverse flags0 flags \<Longrightarrow> s < length flags0 \<Longrightarrow> bit (flags ! s) b \<Longrightarrow>
    \<exists>t. t < length flags0 \<and> (s, t) \<in> (parent_of reverse)\<^sup>* \<and> bit (flags0 ! t) b"
  unfolding bits_sound_def by blast

lemma bits_sound_old: "bits_sound reverse flags0 flags \<Longrightarrow> s < length flags0 \<Longrightarrow> bit (flags0 ! s) b \<Longrightarrow> bit (flags ! s) b"
  unfolding bits_sound_def by blast

lemma or_absorb_bits: "(x OR y :: 8 word) = x \<longleftrightarrow> (\<forall>b. bit y b \<longrightarrow> bit x b)"
proof
  assume "x OR y = x"
  then show "\<forall>b. bit y b \<longrightarrow> bit x b" by (metis bit_or_iff)
next
  assume "\<forall>b. bit y b \<longrightarrow> bit x b"
  then show "x OR y = x" by (intro bit_eqI) (auto simp: bit_or_iff)
qed

lemma raise_sound:
  assumes "bits_sound reverse flags0 flags" "raise_parent child parent (flags, pending) = (flags', pending')"
    "child < length flags" "(parent, child) \<in> parent_of reverse"
  shows "bits_sound reverse flags0 flags'"
proof -
  have len: "length flags = length flags0" using assms(1) by (simp add: bits_sound_def)
  have bits: "bit (flags' ! s) b \<longleftrightarrow> bit (flags ! s) b \<or> s = parent \<and> bit (flags ! child) b" if "s < length flags" for s b
    using that assms(2)
    by (auto simp: raise_parent_def Let_def bit_or_iff nth_list_update or_absorb_bits split: if_splits)
  have "length flags' = length flags0" using assms(2) len by (auto simp: raise_parent_def Let_def split: if_splits)
  moreover have "\<exists>t. t < length flags0 \<and> (s, t) \<in> (parent_of reverse)\<^sup>* \<and> bit (flags0 ! t) b"
    if "s < length flags0" "bit (flags' ! s) b" for s b
  proof (cases "bit (flags ! s) b")
    case True
    from bits_soundD [OF assms(1) that(1) this] show ?thesis .
  next
    case False
    with bits that len have s: "s = parent" "bit (flags ! child) b" by auto
    with bits_soundD [OF assms(1), of child b] assms(3) len
    obtain t where "t < length flags0" "(child, t) \<in> (parent_of reverse)\<^sup>*" "bit (flags0 ! t) b" by auto
    with s(1) assms(4) show ?thesis by (meson converse_rtrancl_into_rtrancl)
  qed
  moreover have "bit (flags' ! s) b" if "s < length flags0" "bit (flags0 ! s) b" for s b
    using bits_sound_old [OF assms(1) that] bits that(1) len by simp
  ultimately show ?thesis unfolding bits_sound_def by blast
qed

lemma raise_gives:
  assumes "raise_parent child parent (flags, pending) = (flags', pending')" "parent < length flags" "child < length flags"
  shows "gives flags' child parent" "set pending \<subseteq> set pending'" "flags' ! child = flags ! child"
    "bit (flags ! q) b \<Longrightarrow> bit (flags' ! q) b" "c \<notin> set pending' \<Longrightarrow> flags' ! c = flags ! c"
  using assms
  by (auto simp: raise_parent_def Let_def gives_def bit_or_iff nth_list_update or_absorb_bits split: if_splits)

lemma raise_all:
  "fold (raise_parent child) parents (flags, pending) = (flags', pending') \<Longrightarrow> bits_sound reverse flags0 flags \<Longrightarrow>
   child < length flags \<Longrightarrow> \<forall>parent \<in> set parents. parent < length flags \<and> (parent, child) \<in> parent_of reverse \<Longrightarrow>
   bits_sound reverse flags0 flags' \<and> (\<forall>parent \<in> set parents. gives flags' child parent) \<and> set pending \<subseteq> set pending' \<and>
   flags' ! child = flags ! child \<and> (\<forall>q b. bit (flags ! q) b \<longrightarrow> bit (flags' ! q) b) \<and> (\<forall>c. c \<notin> set pending' \<longrightarrow> flags' ! c = flags ! c)"
proof (induction parents arbitrary: flags pending)
  case (Cons parent parents)
  obtain f1 p1 where 1: "raise_parent child parent (flags, pending) = (f1, p1)" by fastforce
  have len: "length f1 = length flags" using 1 by (auto simp: raise_parent_def Let_def split: if_splits)
  have here: "bits_sound reverse flags0 f1" using raise_sound [OF Cons.prems(2) 1 Cons.prems(3)] Cons.prems(4) by simp
  have "parent < length flags" using Cons.prems(4) by simp
  note g = raise_gives [OF 1 this Cons.prems(3)]
  have IH: "bits_sound reverse flags0 flags' \<and> (\<forall>parent \<in> set parents. gives flags' child parent) \<and> set p1 \<subseteq> set pending' \<and>
      flags' ! child = f1 ! child \<and> (\<forall>q b. bit (f1 ! q) b \<longrightarrow> bit (flags' ! q) b) \<and> (\<forall>c. c \<notin> set pending' \<longrightarrow> flags' ! c = f1 ! c)"
    by (rule Cons.IH) (use Cons.prems 1 here len in auto)
  have "gives flags' child parent" using IH g(1) unfolding gives_def by metis
  moreover have "\<forall>q b. bit (flags ! q) b \<longrightarrow> bit (flags' ! q) b" using IH g(4) by blast
  moreover have "\<forall>c. c \<notin> set pending' \<longrightarrow> flags' ! c = flags ! c" using IH g(5) by (metis subset_iff)
  moreover have "set pending \<subseteq> set pending'" "flags' ! child = flags ! child" using IH g(2,3) by auto
  ultimately show ?case using IH by simp
qed (simp add: gives_def)

definition parents_in_range :: "nat list list \<Rightarrow> bool" where
  "parents_in_range reverse \<longleftrightarrow> (\<forall>ps \<in> set reverse. \<forall>q \<in> set ps. q < length reverse)"

lemma propagate_invariant:
  "bits_sound reverse flags0 flags \<Longrightarrow> settled reverse pending flags \<Longrightarrow> length reverse = length flags0 \<Longrightarrow> parents_in_range reverse \<Longrightarrow>
   \<forall>c \<in> set pending. c < length flags0 \<Longrightarrow>
   bits_sound reverse flags0 (propagate_loop reverse pending flags) \<and> settled reverse [] (propagate_loop reverse pending flags)"
proof (induction reverse pending flags rule: propagate_loop.induct)
  case (2 reverse child pending flags)
  obtain flags' pending' where f: "fold (raise_parent child) (reverse ! child) (flags, pending) = (flags', pending')" by fastforce
  have len: "length flags = length flags0" using "2.prems"(1) by (simp add: bits_sound_def)
  have child: "child < length reverse" using "2.prems"(3,5) by simp
  have par: "\<forall>parent \<in> set (reverse ! child). parent < length flags \<and> (parent, child) \<in> parent_of reverse"
    using child "2.prems"(3,4) len by (auto simp: parents_in_range_def parent_of_def)
  note r = raise_all [OF f "2.prems"(1) _ par]
  have "settled reverse pending' flags'"
    unfolding settled_def
  proof (intro allI impI disj_imp [THEN iffD2] ballI)
    fix c q assume c: "c < length reverse" and n: "c \<notin> set pending'" and q: "q \<in> set (reverse ! c)"
    show "gives flags' c q"
    proof (cases "c = child")
      case True
      with r child "2.prems"(3) len q show ?thesis by simp
    next
      case False
      have "c \<notin> set (child # pending)" using False n r child "2.prems"(3) len by auto
      with "2.prems"(2) c q have "gives flags c q" by (auto simp: settled_def)
      then show ?thesis using n r child "2.prems"(3) len unfolding gives_def by simp
    qed
  qed
  moreover have "\<forall>c \<in> set pending'. c < length flags0"
  proof -
    have "fold (raise_parent child) ps (flags1, pending1) = (flags', pending') \<Longrightarrow> set pending' \<subseteq> set pending1 \<union> set ps" for ps flags1 pending1
    proof (induction ps arbitrary: flags1 pending1)
      case (Cons q ps)
      obtain f2 p2 where 2: "raise_parent child q (flags1, pending1) = (f2, p2)" by fastforce
      then have "set p2 \<subseteq> insert q (set pending1)" by (auto simp: raise_parent_def Let_def split: if_splits)
      with Cons.IH [of f2 p2] Cons.prems 2 show ?case by auto
    qed simp
    from this [OF f] par len "2.prems"(5) show ?thesis by auto
  qed
  ultimately show ?case using "2.IH" [OF f [symmetric]] "2.prems" r f child len by simp
qed simp

theorem propagate_exact:
  assumes "length reverse = length flags" "parents_in_range reverse" "s < length flags"
  shows "bit (propagate flags reverse ! s) b \<longleftrightarrow> (\<exists>t. t < length flags \<and> (s, t) \<in> (parent_of reverse)\<^sup>* \<and> bit (flags ! t) b)"
proof -
  let ?pending = "rev (filter (\<lambda>slot. flags ! slot \<noteq> 0) [0..<length flags])"
  let ?r = "propagate flags reverse"
  have "settled reverse ?pending flags" using assms(1) by (auto simp: settled_def gives_def)
  moreover have "bits_sound reverse flags flags" unfolding bits_sound_def by blast
  moreover have "\<forall>c \<in> set ?pending. c < length flags" by simp
  ultimately have inv: "bits_sound reverse flags ?r" "settled reverse [] ?r"
    unfolding propagate_def using propagate_invariant assms(1,2) by blast+
  have "bit (?r ! s) b" if "(s, t) \<in> (parent_of reverse)\<^sup>*" "t < length flags" "bit (flags ! t) b" for t
    using that
  proof (induction rule: converse_rtrancl_induct)
    case base
    then show ?case by (rule bits_sound_old [OF inv(1)])
  next
    case (step y z)
    then have "gives ?r z y" using inv(2) by (auto simp: settled_def parent_of_def)
    with step show ?case by (simp add: gives_def)
  qed
  moreover have "\<exists>t. t < length flags \<and> (s, t) \<in> (parent_of reverse)\<^sup>* \<and> bit (flags ! t) b" if "bit (?r ! s) b"
    using bits_soundD [OF inv(1) assms(3) that] .
  ultimately show ?thesis by blast
qed

subsection \<open>The scan\<close>

text \<open>What a fragment leads to, and what its record has of its own.\<close>

fun fragment_targets :: "web_ui_fragment \<Rightarrow> string set" where
  "fragment_targets (Some (FIfCond c)) = {if_fragment_id c}"
| "fragment_targets (Some (FForLoop l)) = {for_fragment_id l}"
| "fragment_targets (Some (FComponent i)) = {i}"
| "fragment_targets (Some (FRoute r)) =
     {i. \<exists>x. below [r] x \<and> (i = route_fragment_id x \<or> (i = route_content_fragment_id x \<and> i \<noteq> []))}"
| "fragment_targets f = {}"

definition has_lazy :: "web_ui_protocol \<Rightarrow> string \<Rightarrow> bool" where
  "has_lazy p i \<longleftrightarrow> list_ex is_lazy_condition (frags_of (p_fragments p) i)"

definition has_outlet :: "web_ui_protocol \<Rightarrow> string \<Rightarrow> bool" where
  "has_outlet p i \<longleftrightarrow> Some FOutlet \<in> set (frags_of (p_fragments p) i)"

definition leads :: "web_ui_protocol \<Rightarrow> (string \<times> string) set" where
  "leads p = {(i, j). j \<in> fst ` set (p_fragments p) \<and> (\<exists>f \<in> set (frags_of (p_fragments p) i). j \<in> fragment_targets f)}"

lemma route_targets_loop_set:
  "set (route_targets_loop rs targets) =
   set targets \<union> {i. \<exists>x. below rs x \<and> (i = route_fragment_id x \<or> (i = route_content_fragment_id x \<and> i \<noteq> []))}"
proof (induction rs targets rule: route_targets_loop.induct)
  case (1 targets)
  then show ?case by (simp add: below_Nil)
next
  case (2 r rs targets)
  then show ?case
    by (auto simp: below_Cons [of r rs] below_append below_set [of "rev (route_children r)" "route_children r"])
qed

lemma bit_HAS_LAZY [simp]: "bit HAS_LAZY b \<longleftrightarrow> b = 0"
  by (simp add: HAS_LAZY_def bit_1_iff)

lemma bit_HAS_OUTLET [simp]: "bit HAS_OUTLET b \<longleftrightarrow> b = 1"
  using bit_exp_iff [of 1 b, where 'a = "8 word"] by (auto simp: HAS_OUTLET_def)

lemma scan_fragment_targets: "set (snd (scan_fragment f (w, ts))) = set ts \<union> fragment_targets f"
  by (cases f rule: fragment_targets.cases) (simp_all add: scan_fragment_def route_targets_def route_targets_loop_set
      del: route_targets_loop.simps)

lemma scan_fragment_flags:
  "bit (fst (scan_fragment f (w, ts))) b \<longleftrightarrow> bit w b \<or> (b = 0 \<and> is_lazy_condition f) \<or> (b = 1 \<and> f = Some FOutlet)"
  by (cases f rule: fragment_targets.cases) (auto simp: scan_fragment_def is_lazy_condition_def bit_or_iff)

lemma scan_fragments_targets: "set (snd (fold scan_fragment fs (w, ts))) = set ts \<union> \<Union> (fragment_targets ` set fs)"
proof (induction fs arbitrary: w ts)
  case (Cons f fs)
  obtain w1 ts1 where "scan_fragment f (w, ts) = (w1, ts1)" by fastforce
  with Cons.IH [of w1 ts1] scan_fragment_targets [of f w ts] show ?case by auto
qed simp

lemma scan_fragments_flags:
  "bit (fst (fold scan_fragment fs (w, ts))) b \<longleftrightarrow>
     bit w b \<or> (b = 0 \<and> list_ex is_lazy_condition fs) \<or> (b = 1 \<and> Some FOutlet \<in> set fs)"
proof (induction fs arbitrary: w ts)
  case (Cons f fs)
  obtain w1 ts1 where "scan_fragment f (w, ts) = (w1, ts1)" by fastforce
  with Cons.IH [of w1 ts1] scan_fragment_flags [of f w ts b] show ?case by auto
qed simp

lemma add_parents_spec:
  assumes "\<And>t c. slots t = Some c \<Longrightarrow> unat c < length reverse"
  shows "length (add_parents slots slot targets reverse) = length reverse"
    "c < length reverse \<Longrightarrow> set (add_parents slots slot targets reverse ! c) =
       set (reverse ! c) \<union> {s. s = slot \<and> (\<exists>t \<in> set targets. \<exists>w. slots t = Some w \<and> unat w = c)}"
  using assms unfolding add_parents_def
proof (induction targets arbitrary: reverse)
  case (Cons t targets)
  { case 1 with Cons.IH(1) show ?case by (simp split: option.split) }
  { case 2
    show ?case
    proof (cases "slots t")
      case None
      with Cons.IH(2) [of reverse] 2 show ?thesis by auto
    next
      case (Some w)
      with Cons.IH(2) [of "reverse[unat w := reverse ! unat w @ [slot]]"] 2 show ?thesis
        by (auto simp: nth_list_update)
    qed }
qed auto

lemma scan_records_spec:
  assumes "scan_records p slots slot ids flags reverse = (flags', reverse')"
    "length flags = slot + length ids" "length reverse = slot + length ids" "\<And>t c. slots t = Some c \<Longrightarrow> unat c < slot + length ids"
    "\<And>k. slot \<le> k \<Longrightarrow> k < slot + length ids \<Longrightarrow> flags ! k = 0"
  shows "length flags' = slot + length ids \<and> length reverse' = slot + length ids \<and>
     (\<forall>k b. k < slot + length ids \<longrightarrow> bit (flags' ! k) b = (if k < slot then bit (flags ! k) b
        else b = 0 \<and> has_lazy p (ids ! (k - slot)) \<or> b = 1 \<and> has_outlet p (ids ! (k - slot)))) \<and>
     (\<forall>c < slot + length ids. set (reverse' ! c) = set (reverse ! c) \<union>
        {s. slot \<le> s \<and> s < slot + length ids \<and> (\<exists>f \<in> set (frags_of (p_fragments p) (ids ! (s - slot))).
          \<exists>t \<in> fragment_targets f. \<exists>w. slots t = Some w \<and> unat w = c)})"
  using assms
proof (induction ids arbitrary: slot flags reverse)
  case (Cons i ids)
  define fs where "fs = frags_of (p_fragments p) i"
  define flags1 where "flags1 = flags[slot := fst (fold scan_fragment fs (flags ! slot, []))]"
  define reverse1 where "reverse1 = add_parents slots slot (snd (fold scan_fragment fs (flags ! slot, []))) reverse"
  have z: "flags ! slot = 0" using Cons.prems(5) by simp
  have "flags[slot := 0] = flags" using z by (metis list_update_id)
  then have e: "scan_records p slots (slot + 1) ids flags1 reverse1 = (flags', reverse')"
    using Cons.prems(1) z Cons.prems(2)
    by (auto simp: flags1_def reverse1_def fs_def frags_of_def add_parents_def split: option.splits prod.splits)
  have r1: "length reverse1 = length reverse" "\<And>c. c < length reverse \<Longrightarrow> set (reverse1 ! c) =
      set (reverse ! c) \<union> {s. s = slot \<and> (\<exists>f \<in> set fs. \<exists>t \<in> fragment_targets f. \<exists>w. slots t = Some w \<and> unat w = c)}"
    unfolding reverse1_def
    by (subst add_parents_spec; use Cons.prems(3,4) in \<open>simp add: scan_fragments_targets\<close>)+
  have IH: "length flags' = slot + 1 + length ids \<and> length reverse' = slot + 1 + length ids \<and>
     (\<forall>k b. k < slot + 1 + length ids \<longrightarrow> bit (flags' ! k) b = (if k < slot + 1 then bit (flags1 ! k) b
        else b = 0 \<and> has_lazy p (ids ! (k - (slot + 1))) \<or> b = 1 \<and> has_outlet p (ids ! (k - (slot + 1))))) \<and>
     (\<forall>c < slot + 1 + length ids. set (reverse' ! c) = set (reverse1 ! c) \<union>
        {s. slot + 1 \<le> s \<and> s < slot + 1 + length ids \<and> (\<exists>f \<in> set (frags_of (p_fragments p) (ids ! (s - (slot + 1)))).
          \<exists>t \<in> fragment_targets f. \<exists>w. slots t = Some w \<and> unat w = c)})"
    by (rule Cons.IH [OF e]) (use Cons.prems r1(1) in \<open>auto simp: flags1_def\<close>)
  have later: "(i # ids) ! (s - slot) = ids ! (s - (slot + 1))" if "slot + 1 \<le> s" for s
    using that by (simp add: nth_Cons')
  show ?case
  proof (intro conjI allI impI)
    fix k b assume k: "k < slot + length (i # ids)"
    have "bit (flags1 ! slot) b \<longleftrightarrow> b = 0 \<and> has_lazy p i \<or> b = 1 \<and> has_outlet p i"
      using z Cons.prems(2) scan_fragments_flags [of fs 0 "[]" b] by (simp add: flags1_def fs_def has_lazy_def has_outlet_def)
    moreover have "k < slot \<Longrightarrow> flags1 ! k = flags ! k" by (simp add: flags1_def)
    ultimately show "bit (flags' ! k) b = (if k < slot then bit (flags ! k) b
        else b = 0 \<and> has_lazy p ((i # ids) ! (k - slot)) \<or> b = 1 \<and> has_outlet p ((i # ids) ! (k - slot)))"
      using IH k later [of k] by (cases k slot rule: linorder_cases) simp_all
  next
    fix c assume c: "c < slot + length (i # ids)"
    show "set (reverse' ! c) = set (reverse ! c) \<union> {s. slot \<le> s \<and> s < slot + length (i # ids) \<and>
        (\<exists>f \<in> set (frags_of (p_fragments p) ((i # ids) ! (s - slot))). \<exists>t \<in> fragment_targets f. \<exists>w. slots t = Some w \<and> unat w = c)}"
    proof -
      have split_s: "{s. slot \<le> s \<and> s < slot + length (i # ids) \<and> P s} =
          {s. s = slot \<and> P s} \<union> {s. slot + 1 \<le> s \<and> s < slot + 1 + length ids \<and> P s}" for P
        by auto
      have "set (reverse1 ! c) = set (reverse ! c) \<union>
          {s. s = slot \<and> (\<exists>f \<in> set fs. \<exists>t \<in> fragment_targets f. \<exists>w. slots t = Some w \<and> unat w = c)}"
        using r1(2) [of c] c Cons.prems(3) by simp
      moreover have "set (reverse' ! c) = set (reverse1 ! c) \<union>
          {s. slot + 1 \<le> s \<and> s < slot + 1 + length ids \<and> (\<exists>f \<in> set (frags_of (p_fragments p) ((i # ids) ! (s - slot))).
            \<exists>t \<in> fragment_targets f. \<exists>w. slots t = Some w \<and> unat w = c)}"
        using IH c later by (auto cong: conj_cong)
      ultimately show ?thesis unfolding split_s by (simp add: fs_def Un_assoc cong: conj_cong)
    qed
  qed (use IH in auto)
qed auto

subsection \<open>The index of a protocol\<close>

definition numberable :: "web_ui_protocol \<Rightarrow> bool" where
  "numberable p \<longleftrightarrow> distinct (map fst (p_fragments p)) \<and> length (p_fragments p) < 2 ^ 32"

lemma slot_of_id:
  assumes "numberable p" "fragment_slots p t = Some w"
  shows "unat w < length (fragment_ids p)" "fragment_ids p ! unat w = t"
proof -
  have d: "distinct (fragment_ids p)" and l: "length (fragment_ids p) < 2 ^ 32"
    using assms(1) by (simp_all add: numberable_def fragment_ids_def)
  obtain n where n: "position (\<lambda>c. c = t) (fragment_ids p) = Some n" "w = word_of_nat n"
    using assms(2) by (auto simp: fragment_slots_index [OF d])
  then have "n < length (fragment_ids p)" "fragment_ids p ! n = t" using d by (simp_all add: position_eq_iff)
  moreover from this l n(2) have "unat w = n" by (simp add: unat_of_nat_small)
  ultimately show "unat w < length (fragment_ids p)" "fragment_ids p ! unat w = t" by simp_all
qed

lemma id_has_slot:
  assumes "numberable p" "s < length (fragment_ids p)"
  shows "\<exists>w. fragment_slots p (fragment_ids p ! s) = Some w \<and> unat w = s"
proof -
  have d: "distinct (fragment_ids p)" and l: "length (fragment_ids p) < 2 ^ 32"
    using assms(1) by (simp_all add: numberable_def fragment_ids_def)
  have "position (\<lambda>c. c = fragment_ids p ! s) (fragment_ids p) = Some s"
    using assms(2) d by (auto simp: position_eq_iff nth_eq_iff_index_eq)
  then show ?thesis using l assms(2) by (simp add: fragment_slots_index [OF d] unat_of_nat_small)
qed

lemma index_flags:
  assumes n: "numberable p" and ix: "lazy_index_new p (fragment_ids p) (fragment_slots p) = Some records"
  shows "length records = length (fragment_ids p)"
    and "\<And>s b. s < length (fragment_ids p) \<Longrightarrow> bit (rp_flags (records ! s)) b \<longleftrightarrow>
      (\<exists>j. (fragment_ids p ! s, j) \<in> (leads p)\<^sup>* \<and> (b = 0 \<and> has_lazy p j \<or> b = 1 \<and> has_outlet p j))"
proof -
  let ?ids = "fragment_ids p" and ?N = "length (fragment_ids p)"
  obtain flags reverse where sc: "scan_records p (fragment_slots p) 0 ?ids (replicate ?N 0) (replicate ?N []) = (flags, reverse)" by fastforce
  with ix have rec: "records = map2 (record_plan_of p) ?ids (propagate flags reverse)"
    by (auto simp: lazy_index_new_def split: if_splits)
  have spec: "length flags = ?N" "length reverse = ?N"
    "\<And>k b. k < ?N \<Longrightarrow> bit (flags ! k) b \<longleftrightarrow> b = 0 \<and> has_lazy p (?ids ! k) \<or> b = 1 \<and> has_outlet p (?ids ! k)"
    "\<And>c. c < ?N \<Longrightarrow> set (reverse ! c) = {s. s < ?N \<and> (\<exists>f \<in> set (frags_of (p_fragments p) (?ids ! s)).
       \<exists>t \<in> fragment_targets f. \<exists>w. fragment_slots p t = Some w \<and> unat w = c)}"
    using scan_records_spec [OF sc] slot_of_id(1) [OF n] by simp_all
  have range: "parents_in_range reverse"
    unfolding parents_in_range_def
  proof (intro ballI)
    fix ps q assume "ps \<in> set reverse" "q \<in> set ps"
    then obtain c where "c < ?N" "q \<in> set (reverse ! c)" using spec(2) by (metis in_set_conv_nth)
    then show "q < length reverse" using spec(2,4) by simp
  qed
  have len: "length (propagate flags reverse) = ?N"
  proof -
    have "bits_sound reverse flags (propagate flags reverse)"
      unfolding propagate_def
      by (rule propagate_invariant [THEN conjunct1])
        (use spec(1,2) range in \<open>auto simp: bits_sound_def settled_def gives_def\<close>)
    with spec(1) show ?thesis by (simp add: bits_sound_def)
  qed
  with rec show "length records = ?N" by simp
  have edge: "(s, t) \<in> parent_of reverse \<longleftrightarrow> s < ?N \<and> t < ?N \<and> (?ids ! s, ?ids ! t) \<in> leads p" for s t
  proof (cases "t < ?N")
    case True
    obtain w where w: "fragment_slots p (?ids ! t) = Some w" "unat w = t" using id_has_slot [OF n True] by blast
    have "(\<exists>w. fragment_slots p x = Some w \<and> unat w = t) \<longleftrightarrow> x = ?ids ! t" for x
      using w slot_of_id(2) [OF n, of x] by auto
    moreover have "?ids ! t \<in> fst ` set (p_fragments p)" using True fragment_ids_facts(2) nth_mem by blast
    ultimately show ?thesis using True spec(2,4) by (auto simp: parent_of_def leads_def)
  qed (use spec(2) in \<open>auto simp: parent_of_def\<close>)
  have to_ids: "(?ids ! s, ?ids ! t) \<in> (leads p)\<^sup>*" if "(s, t) \<in> (parent_of reverse)\<^sup>*" for s t
    using that by (induction rule: rtrancl_induct) (auto simp: edge intro: rtrancl_into_rtrancl)
  have from_ids: "\<exists>t < ?N. ?ids ! t = j \<and> (s, t) \<in> (parent_of reverse)\<^sup>*" if "s < ?N" "(?ids ! s, j) \<in> (leads p)\<^sup>*" for s j
    using that(2)
  proof (induction rule: rtrancl_induct)
    case base
    with that(1) show ?case by blast
  next
    case (step y z)
    then obtain t where t: "t < ?N" "?ids ! t = y" "(s, t) \<in> (parent_of reverse)\<^sup>*" by blast
    have "z \<in> set ?ids" using step(2) fragment_ids_facts(2) by (auto simp: leads_def)
    then obtain u where u: "u < ?N" "?ids ! u = z" by (metis in_set_conv_nth)
    with t step(2) edge have "(t, u) \<in> parent_of reverse" by simp
    with t(3) have "(s, u) \<in> (parent_of reverse)\<^sup>*" by (rule rtrancl_into_rtrancl)
    with u show ?case by blast
  qed
  show "bit (rp_flags (records ! s)) b \<longleftrightarrow>
      (\<exists>j. (?ids ! s, j) \<in> (leads p)\<^sup>* \<and> (b = 0 \<and> has_lazy p j \<or> b = 1 \<and> has_outlet p j))" if s: "s < ?N" for s b
  proof -
    have "rp_flags (records ! s) = propagate flags reverse ! s" using rec s len by (simp add: record_plan_of_def)
    then have "bit (rp_flags (records ! s)) b \<longleftrightarrow> (\<exists>t. t < ?N \<and> (s, t) \<in> (parent_of reverse)\<^sup>* \<and> bit (flags ! t) b)"
      using propagate_exact [of reverse flags s b] spec(1,2) range s by simp
    then show ?thesis using to_ids from_ids [OF s] spec(3) by metis
  qed
qed

lemma and_flag: "w AND HAS_LAZY \<noteq> 0 \<longleftrightarrow> bit w 0" "w AND HAS_OUTLET \<noteq> 0 \<longleftrightarrow> bit w 1"
proof -
  have *: "w AND m \<noteq> 0 \<longleftrightarrow> (\<exists>b. bit w b \<and> bit m b)" for m :: "8 word"
  proof
    assume "w AND m \<noteq> 0"
    then obtain b where "bit (w AND m) b" by (metis bit_0_eq bit_eqI bot_apply bot_bool_def)
    then show "\<exists>b. bit w b \<and> bit m b" by (auto simp: bit_and_iff)
  qed (metis bit_and_iff bit_0_eq bot_apply bot_bool_def)
  show "w AND HAS_LAZY \<noteq> 0 \<longleftrightarrow> bit w 0" "w AND HAS_OUTLET \<noteq> 0 \<longleftrightarrow> bit w 1" unfolding * by simp_all
qed

text \<open>
  C27. A record is relevant to the selection exactly when the records it leads to, directly or
  through others, include one with a lazy condition, or, where the enclosing route still has
  children to place, one with an outlet.
\<close>

theorem relevant_exact:
  assumes "numberable p" "lazy_index_new p (fragment_ids p) (fragment_slots p) = Some records" "s < length (fragment_ids p)"
  shows "relevant records s has_route_children \<longleftrightarrow>
    (\<exists>j. (fragment_ids p ! s, j) \<in> (leads p)\<^sup>* \<and> (has_lazy p j \<or> has_route_children \<and> has_outlet p j))"
  using index_flags(1) [OF assms(1,2)] index_flags(2) [OF assms(1,2) assms(3), of 0] index_flags(2) [OF assms(1,2) assms(3), of 1] assms(3)
  by (auto simp: relevant_def and_flag)

text \<open>A page that shows a card whose details are lazy, and a plain footer.\<close>

definition sample_lazy :: web_ui_protocol where
  "sample_lazy = protocol_new [
     (''page'', \<lparr>fragments = [frag_component ''my-card'', frag_component ''my-foot''], contains_boundary = False\<rparr>),
     (''my-card'', \<lparr>fragments = [frag_lazy_if (cond_identifier ''shown'') ''details''], contains_boundary = False\<rparr>),
     (''my-foot'', \<lparr>fragments = [frag_raw ''foot''], contains_boundary = False\<rparr>),
     (''details'', \<lparr>fragments = [frag_raw ''more''], contains_boundary = False\<rparr>)]"

definition sample_records :: lazy_index where
  "sample_records = the (lazy_index_new sample_lazy (fragment_ids sample_lazy) (fragment_slots sample_lazy))"

lemma sample_lazy_facts:
  "numberable sample_lazy" "lazy_index_new sample_lazy (fragment_ids sample_lazy) (fragment_slots sample_lazy) = Some sample_records"
  "fragment_ids sample_lazy = [''details'', ''my-card'', ''my-foot'', ''page'']"
proof -
  have "lazy_index_new sample_lazy (fragment_ids sample_lazy) (fragment_slots sample_lazy) \<noteq> None" by code_simp
  then show "lazy_index_new sample_lazy (fragment_ids sample_lazy) (fragment_slots sample_lazy) = Some sample_records"
    by (auto simp: sample_records_def)
  show "numberable sample_lazy" by (simp add: numberable_def sample_lazy_def protocol_new_def with_tokens_def)
  show "fragment_ids sample_lazy = [''details'', ''my-card'', ''my-foot'', ''page'']" by code_simp
qed

theorem relevant_exact_witness:
  "relevant sample_records 3 False \<and> \<not> relevant sample_records 2 False \<and>
   (\<exists>j. (''page'', j) \<in> (leads sample_lazy)\<^sup>* \<and> has_lazy sample_lazy j)"
proof -
  have "relevant sample_records 3 False" "\<not> relevant sample_records 2 False" by code_simp+
  with relevant_exact [OF sample_lazy_facts(1,2), of 3 False] sample_lazy_facts(3) show ?thesis by simp
qed

end
