(* ===== verification/Render_Scope.thy ===== *)
theory Render_Scope
  imports Expressions Response_Writer "HOL-Library.AList" "HOL-Library.Multiset"
begin

text \<open>
  The lexical scope of a render (\<open>crates/webui-handler/src/lib.rs\<close>): the inline map
  \<open>BorrowedScope\<close>, the pools of scopes, the loop bindings, and the three functions that
  resolve a dotted path against them.  A \<open>HashMap\<close> scope is an association list.  The
  locale \<open>scope_map\<close> is the contract of a scope; \<open>BorrowedScope\<close> is shown to implement it.
\<close>

section \<open>Borrowed scopes\<close>

definition INLINE_SCOPE_SLOTS :: nat where
  "INLINE_SCOPE_SLOTS = 4"

definition SCOPE_POOL_CAP :: nat where
  "SCOPE_POOL_CAP = 8"

record 'v borrowed_scope =
  inline :: "(string \<times> 'v) option list"
  inline_len :: nat
  overflow :: "(string \<times> 'v) list"

definition scope_default :: "'v borrowed_scope" where
  "scope_default = \<lparr>inline = replicate INLINE_SCOPE_SLOTS None, inline_len = 0, overflow = []\<rparr>"

text \<open>The searches through the occupied slots; \<open>flatten\<close> skips the empty ones.\<close>

fun find_slot :: "(string \<times> 'v) option list \<Rightarrow> string \<Rightarrow> 'v option" where
  "find_slot [] name = None"
| "find_slot (None # es) name = find_slot es name"
| "find_slot (Some (k, v) # es) name = (if k = name then Some v else find_slot es name)"

fun replace_slot ::
  "(string \<times> 'v) option list \<Rightarrow> string \<Rightarrow> 'v \<Rightarrow> ('v \<times> (string \<times> 'v) option list) option" where
  "replace_slot [] name value = None"
| "replace_slot (None # es) name value = map_option (apsnd (Cons None)) (replace_slot es name value)"
| "replace_slot (Some (k, v) # es) name value =
     (if k = name then Some (v, Some (k, value) # es)
      else map_option (apsnd (Cons (Some (k, v)))) (replace_slot es name value))"

fun replace_pair :: "(string \<times> 'v) list \<Rightarrow> string \<Rightarrow> 'v \<Rightarrow> ('v \<times> (string \<times> 'v) list) option" where
  "replace_pair [] name value = None"
| "replace_pair ((k, v) # es) name value =
     (if k = name then Some (v, (k, value) # es)
      else map_option (apsnd (Cons (k, v))) (replace_pair es name value))"

definition slot_named :: "string \<Rightarrow> (string \<times> 'v) option \<Rightarrow> bool" where
  "slot_named name e = (case e of Some (k, _) \<Rightarrow> k = name | None \<Rightarrow> False)"

text \<open>\<open>Vec::swap_remove\<close>: the last element takes the place of the removed one.\<close>

definition swap_remove :: "nat \<Rightarrow> 'a list \<Rightarrow> 'a list" where
  "swap_remove i xs = butlast (xs[i := last xs])"

definition scope_get :: "'v borrowed_scope \<Rightarrow> string \<Rightarrow> 'v option" where
  "scope_get s name =
     (if inline_len s = 0 then None
      else if slot_named name (inline s ! 0) then map_option snd (inline s ! 0)
      else (case find_slot (drop 1 (take (inline_len s) (inline s))) name of
              Some v \<Rightarrow> Some v
            | None \<Rightarrow> map_of (overflow s) name))"

definition scope_insert :: "string \<Rightarrow> 'v \<Rightarrow> 'v borrowed_scope \<Rightarrow> 'v option \<times> 'v borrowed_scope" where
  "scope_insert name value s =
     (case replace_slot (take (inline_len s) (inline s)) name value of
        Some (old, es) \<Rightarrow> (Some old, s\<lparr>inline := es @ drop (inline_len s) (inline s)\<rparr>)
      | None \<Rightarrow> (case replace_pair (overflow s) name value of
          Some (old, es) \<Rightarrow> (Some old, s\<lparr>overflow := es\<rparr>)
        | None \<Rightarrow>
            if inline_len s < INLINE_SCOPE_SLOTS
            then (None, s\<lparr>inline := (inline s)[inline_len s := Some (name, value)], inline_len := inline_len s + 1\<rparr>)
            else (None, s\<lparr>overflow := overflow s @ [(name, value)]\<rparr>)))"

definition scope_remove :: "string \<Rightarrow> 'v borrowed_scope \<Rightarrow> 'v option \<times> 'v borrowed_scope" where
  "scope_remove name s =
     (case position (slot_named name) (take (inline_len s) (inline s)) of
        Some i \<Rightarrow>
          let removed = map_option snd (inline s ! i); inl = (inline s)[i := None] in
          if overflow s \<noteq> [] then
            (removed, s\<lparr>inline := inl[i := Some (last (overflow s))], overflow := butlast (overflow s)\<rparr>)
          else
            let len = inline_len s - 1; moved = inl ! len in
            (removed, s\<lparr>inline := (inl[len := None])[i := moved], inline_len := len\<rparr>)
      | None \<Rightarrow> (case position (\<lambda>(k, _). k = name) (overflow s) of
          None \<Rightarrow> (None, s)
        | Some i \<Rightarrow> (Some (snd (overflow s ! i)), s\<lparr>overflow := swap_remove i (overflow s)\<rparr>)))"

definition scope_clear :: "'v borrowed_scope \<Rightarrow> 'v borrowed_scope" where
  "scope_clear s = \<lparr>inline = replicate (inline_len s) None @ drop (inline_len s) (inline s),
     inline_len = 0, overflow = []\<rparr>"

fun insert_all :: "(string \<times> 'v) option list \<Rightarrow> (string \<times> 'v) list \<Rightarrow> (string \<times> 'v) list" where
  "insert_all [] target = target"
| "insert_all (None # es) target = insert_all es target"
| "insert_all (Some (k, v) # es) target = insert_all es (AList.update k v target)"

definition clone_into_owned :: "'v borrowed_scope \<Rightarrow> (string \<times> 'v) list \<Rightarrow> (string \<times> 'v) list" where
  "clone_into_owned s target =
     insert_all (map Some (overflow s)) (insert_all (take (inline_len s) (inline s)) target)"

section \<open>Pools\<close>

type_synonym 'v scope_map = "(string \<times> 'v) list"

definition remove_owned_component_attr :: "'v scope_map \<Rightarrow> string \<Rightarrow> 'v scope_map" where
  "remove_owned_component_attr attrs name = (if attrs \<noteq> [] then AList.delete name attrs else attrs)"

definition take_scope_map :: "'v scope_map list \<Rightarrow> 'v scope_map \<times> 'v scope_map list" where
  "take_scope_map pool = (if pool = [] then ([], []) else (last pool, butlast pool))"

definition recycle_scope_map :: "'v scope_map list \<Rightarrow> 'v scope_map \<Rightarrow> 'v scope_map list" where
  "recycle_scope_map pool m = (if length pool < SCOPE_POOL_CAP then pool @ [[]] else pool)"

definition take_borrowed_scope ::
  "'v borrowed_scope list \<Rightarrow> 'v borrowed_scope \<times> 'v borrowed_scope list" where
  "take_borrowed_scope pool = (if pool = [] then (scope_default, []) else (last pool, butlast pool))"

definition recycle_borrowed_scope ::
  "'v borrowed_scope list \<Rightarrow> 'v borrowed_scope \<Rightarrow> 'v borrowed_scope list" where
  "recycle_borrowed_scope pool s = (if length pool < SCOPE_POOL_CAP then pool @ [scope_clear s] else pool)"

section \<open>What a scope holds\<close>

definition slots :: "'v borrowed_scope \<Rightarrow> (string \<times> 'v) list" where
  "slots s = map the (take (inline_len s) (inline s))"

definition entries :: "'v borrowed_scope \<Rightarrow> (string \<times> 'v) list" where
  "entries s = slots s @ overflow s"

definition scope_of :: "'v borrowed_scope \<Rightarrow> string \<Rightarrow> 'v option" where
  "scope_of s = map_of (entries s)"

definition scope_ok :: "'v borrowed_scope \<Rightarrow> bool" where
  "scope_ok s \<longleftrightarrow>
     length (inline s) = INLINE_SCOPE_SLOTS \<and> inline_len s \<le> INLINE_SCOPE_SLOTS \<and>
     inline s = map Some (slots s) @ replicate (INLINE_SCOPE_SLOTS - inline_len s) None \<and>
     (overflow s \<noteq> [] \<longrightarrow> inline_len s = INLINE_SCOPE_SLOTS) \<and>
     distinct (map fst (entries s))"

text \<open>The scope that holds the given slots and overflow.\<close>

definition mk_scope :: "(string \<times> 'v) list \<Rightarrow> (string \<times> 'v) list \<Rightarrow> 'v borrowed_scope" where
  "mk_scope es ov = \<lparr>inline = map Some es @ replicate (INLINE_SCOPE_SLOTS - length es) None,
     inline_len = length es, overflow = ov\<rparr>"

definition mk_ok :: "(string \<times> 'v) list \<Rightarrow> (string \<times> 'v) list \<Rightarrow> bool" where
  "mk_ok es ov \<longleftrightarrow> length es \<le> INLINE_SCOPE_SLOTS \<and> (ov \<noteq> [] \<longrightarrow> length es = INLINE_SCOPE_SLOTS) \<and>
     distinct (map fst (es @ ov))"

lemma mk_scope_sel [simp]:
  "inline (mk_scope es ov) = map Some es @ replicate (INLINE_SCOPE_SLOTS - length es) None"
  "inline_len (mk_scope es ov) = length es"
  "overflow (mk_scope es ov) = ov"
  "slots (mk_scope es ov) = es"
  "entries (mk_scope es ov) = es @ ov"
  by (simp_all add: mk_scope_def slots_def entries_def)

lemma mk_scope_ok [simp]: "scope_ok (mk_scope es ov) \<longleftrightarrow> mk_ok es ov"
  by (auto simp: scope_ok_def mk_ok_def)

lemma scope_okD:
  assumes "scope_ok s"
  shows "inline_len s \<le> INLINE_SCOPE_SLOTS"
    and "inline s = map Some (slots s) @ replicate (INLINE_SCOPE_SLOTS - inline_len s) None"
    and "length (inline s) = INLINE_SCOPE_SLOTS"
  using assms unfolding scope_ok_def by blast+

lemma length_slots:
  assumes "scope_ok s"
  shows "length (slots s) = inline_len s"
  using scope_okD(1,3) [OF assms] by (simp add: slots_def)

lemma scope_okE:
  assumes "scope_ok s"
  obtains es ov where "s = mk_scope es ov" "mk_ok es ov"
proof
  show "s = mk_scope (slots s) (overflow s)"
    using scope_okD(2) [OF assms] length_slots [OF assms]
    by (intro borrowed_scope.equality) (simp_all (no_asm_simp))
  with assms show "mk_ok (slots s) (overflow s)"
    by (metis mk_scope_ok)
qed

lemma find_slot_Some [simp]: "find_slot (map Some es) name = map_of es name"
  by (induction es) auto

lemma replace_slot_map_Some [simp]:
  "replace_slot (map Some es) name value = map_option (apsnd (map Some)) (replace_pair es name value)"
  by (induction es) (auto simp: option.map_comp o_def apsnd_def map_prod_def split: prod.splits
      intro!: map_option_cong)

lemma replace_pair_eq:
  "replace_pair es name value = map_option (\<lambda>old. (old, AList.update name value es)) (map_of es name)"
  by (induction es) (auto simp: option.map_comp o_def)

lemma position_slot [simp]: "position (slot_named name) (map Some es) = position (\<lambda>(k, _). k = name) es"
  by (simp add: position_def slot_named_def takeWhile_map o_def split_beta case_prod_unfold)

text \<open>What removal by swapping does to the map.\<close>

lemma mset_swap_remove: "i < length xs \<Longrightarrow> mset (swap_remove i xs) = mset (remove1 (xs ! i) xs)"
proof -
  assume i: "i < length xs"
  then have "xs[i := last xs] \<noteq> []" by auto
  then have "mset (butlast (xs[i := last xs])) = mset (xs[i := last xs]) - {#last (xs[i := last xs])#}"
    by (metis add_mset_remove_trivial append_butlast_last_id mset.simps(2) union_mset_add_mset_right
        mset_append add.right_neutral mset_zero_iff_right)
  moreover have "last (xs[i := last xs]) = last xs"
    using i by (cases xs rule: rev_cases) (auto simp: list_update_append)
  ultimately show ?thesis
    using i by (simp add: swap_remove_def mset_update)
qed

lemma swap_remove_map:
  assumes "distinct (map fst xs)" "i < length xs"
  shows "distinct (map fst (swap_remove i xs))"
    and "map_of (swap_remove i xs) = (map_of xs)(fst (xs ! i) := None)"
proof -
  have "distinct xs" using assms(1) by (simp add: distinct_map)
  have m: "mset (swap_remove i xs) = mset (remove1 (xs ! i) xs)"
    by (rule mset_swap_remove [OF assms(2)])
  have "distinct (map fst (remove1 (xs ! i) xs))"
    using assms(1) \<open>distinct xs\<close> by (auto simp: distinct_map intro: inj_on_subset)
  moreover from m have "mset (map fst (swap_remove i xs)) = mset (map fst (remove1 (xs ! i) xs))"
    by simp
  ultimately show d: "distinct (map fst (swap_remove i xs))"
    by (metis mset_eq_imp_distinct_iff)
  have s: "set (swap_remove i xs) = set xs - {xs ! i}"
    using m \<open>distinct xs\<close> by (metis set_mset_mset set_remove1_eq)
  show "map_of (swap_remove i xs) = (map_of xs)(fst (xs ! i) := None)"
  proof
    fix k
    have inj: "inj_on fst (set xs)" using assms(1) by (simp add: distinct_map)
    have "(k, v) \<in> set (swap_remove i xs) \<longleftrightarrow> (k, v) \<in> set xs \<and> k \<noteq> fst (xs ! i)" for v
      using s inj assms(2) by (auto simp: inj_on_def) (metis fst_conv)
    then have "map_of (swap_remove i xs) k = Some v \<longleftrightarrow> ((map_of xs)(fst (xs ! i) := None)) k = Some v" for v
      using map_of_eq_Some_iff [OF d] map_of_eq_Some_iff [OF assms(1)] by simp
    then show "map_of (swap_remove i xs) k = ((map_of xs)(fst (xs ! i) := None)) k"
      by (metis option.exhaust)
  qed
qed

lemma swap_remove_append:
  "i < length es \<Longrightarrow> ov \<noteq> [] \<Longrightarrow> swap_remove i (es @ ov) = es[i := last ov] @ butlast ov"
  by (simp add: swap_remove_def list_update_append butlast_append)

lemma swap_remove_tail:
  "i < length ov \<Longrightarrow> swap_remove (length es + i) (es @ ov) = es @ swap_remove i ov"
  by (auto simp: swap_remove_def list_update_append butlast_append)

section \<open>The operations on the slots\<close>

lemma scope_get_mk: "mk_ok es ov \<Longrightarrow> scope_get (mk_scope es ov) name = map_of (es @ ov) name"
proof (cases es)
  case (Cons e es')
  assume "mk_ok es ov"
  then have "take (length es) (map Some es @ replicate (INLINE_SCOPE_SLOTS - length es) None) = map Some es"
    by simp
  with Cons show ?thesis
    by (cases e) (auto simp: scope_get_def slot_named_def map_add_def split: option.split)
qed (auto simp: scope_get_def mk_ok_def INLINE_SCOPE_SLOTS_def)

lemma scope_insert_mk:
  assumes "mk_ok es ov"
  obtains es' ov' where "scope_insert name value (mk_scope es ov) = (map_of (es @ ov) name, mk_scope es' ov')"
    "mk_ok es' ov'" "map_of (es' @ ov') = (map_of (es @ ov))(name \<mapsto> value)"
proof (cases "map_of es name")
  case (Some old)
  then have k: "name \<in> fst ` set es" by (metis map_of_eq_None_iff option.distinct(1))
  then have len: "length (AList.update name value es) = length es"
    by (metis length_map update_keys set_map)
  show ?thesis
  proof (rule that)
    show "scope_insert name value (mk_scope es ov) = (map_of (es @ ov) name, mk_scope (AList.update name value es) ov)"
      using Some len by (simp add: scope_insert_def replace_pair_eq mk_scope_def map_add_def)
    show "mk_ok (AList.update name value es) ov"
      using assms k len by (simp add: mk_ok_def update_keys)
  qed (use Some assms k in \<open>auto simp: update_conv' mk_ok_def map_add_def fun_eq_iff dest: map_of_SomeD split: option.splits\<close>)
next
  case None
  note N = this
  show ?thesis
  proof (cases "map_of ov name")
    case (Some old)
    then have k: "name \<in> fst ` set ov" by (metis map_of_eq_None_iff option.distinct(1))
    show ?thesis
    proof (rule that)
      show "scope_insert name value (mk_scope es ov) = (map_of (es @ ov) name, mk_scope es (AList.update name value ov))"
        using N Some by (simp add: scope_insert_def replace_pair_eq mk_scope_def map_add_def)
      show "mk_ok es (AList.update name value ov)"
        using assms k by (auto simp: mk_ok_def update_keys)
    qed (use N Some in \<open>auto simp: update_conv' map_add_def fun_eq_iff split: option.splits\<close>)
  next
    case None
    then have fresh: "name \<notin> fst ` set es" "name \<notin> fst ` set ov"
      using N by (auto simp: map_of_eq_None_iff)
    show ?thesis
    proof (cases "length es < INLINE_SCOPE_SLOTS")
      case True
      then have ov: "ov = []" using assms by (auto simp: mk_ok_def)
      obtain n where n: "INLINE_SCOPE_SLOTS - length es = Suc n" using True by (metis Suc_diff_Suc)
      show ?thesis
      proof (rule that)
        show "scope_insert name value (mk_scope es ov) = (map_of (es @ ov) name, mk_scope (es @ [(name, value)]) ov)"
          using N None True n by (simp add: scope_insert_def replace_pair_eq mk_scope_def map_add_def list_update_append)
        show "mk_ok (es @ [(name, value)]) ov"
          using assms True fresh ov by (auto simp: mk_ok_def)
      qed (use N ov in \<open>auto simp: map_add_def fun_eq_iff split: option.splits\<close>)
    next
      case False
      show ?thesis
      proof (rule that)
        show "scope_insert name value (mk_scope es ov) = (map_of (es @ ov) name, mk_scope es (ov @ [(name, value)]))"
          using N None False by (simp add: scope_insert_def replace_pair_eq mk_scope_def map_add_def)
        show "mk_ok es (ov @ [(name, value)])"
          using assms False fresh by (auto simp: mk_ok_def)
      qed (use N None in \<open>auto simp: map_add_def fun_eq_iff split: option.splits\<close>)
    qed
  qed
qed

lemma position_SomeD: "position P xs = Some i \<Longrightarrow> i < length xs \<and> P (xs ! i)"
  by (auto simp: position_def Let_def split: if_splits dest: nth_length_takeWhile)

lemma position_key_None: "position (\<lambda>(k, _). k = name) es = None \<longleftrightarrow> map_of es name = None"
  by (auto simp: position_None_iff list_all_iff map_of_eq_None_iff split_beta)

lemma map_of_nth_distinct: "distinct (map fst xs) \<Longrightarrow> i < length xs \<Longrightarrow> map_of xs (fst (xs ! i)) = Some (snd (xs ! i))"
  by simp

text \<open>Taking the entry at \<open>i\<close> out of the last slots, when nothing overflows.\<close>

lemma scope_remove_last:
  assumes p: "position (\<lambda>(k, _). k = name) (xs @ [x]) = Some i" and len: "length xs < INLINE_SCOPE_SLOTS"
  shows "scope_remove name (mk_scope (xs @ [x]) []) =
    (Some (snd ((xs @ [x]) ! i)), mk_scope (swap_remove i (xs @ [x])) [])"
proof -
  obtain n where n: "INLINE_SCOPE_SLOTS - length xs = Suc n" "INLINE_SCOPE_SLOTS - Suc (length xs) = n"
    using len by (metis Suc_diff_Suc diff_Suc_Suc)
  have i: "i < length (xs @ [x])" using p by (auto dest: position_SomeD)
  have r: "scope_remove name (mk_scope (xs @ [x]) []) =
    (map_option snd (inline (mk_scope (xs @ [x]) []) ! i),
     (mk_scope (xs @ [x]) [])\<lparr>inline := ((inline (mk_scope (xs @ [x]) []))[i := None, length xs := None])
        [i := (inline (mk_scope (xs @ [x]) []))[i := None] ! length xs], inline_len := length xs\<rparr>)"
    using p by (simp add: scope_remove_def Let_def del: map_append)
  show ?thesis
  proof (cases "i = length xs")
    case True
    with r n show ?thesis by (simp add: mk_scope_def swap_remove_def list_update_append nth_append)
  next
    case False
    with i have "i < length xs" by simp
    with r n show ?thesis
      by (simp add: mk_scope_def swap_remove_def list_update_append nth_append map_update butlast_append)
  qed
qed

lemma scope_remove_mk:
  assumes "mk_ok es ov"
  obtains es' ov' where "scope_remove name (mk_scope es ov) = (map_of (es @ ov) name, mk_scope es' ov')"
    "mk_ok es' ov'" "map_of (es' @ ov') = (map_of (es @ ov))(name := None)"
proof (cases "position (\<lambda>(k, _). k = name) es")
  case (Some i)
  then have i: "i < length es" "fst (es ! i) = name" by (auto dest!: position_SomeD simp: split_beta)
  have d: "distinct (map fst (es @ ov))" using assms by (simp add: mk_ok_def)
  have at: "(es @ ov) ! i = es ! i" using i by (simp add: nth_append)
  have val: "map_of (es @ ov) name = Some (snd (es ! i))"
    using map_of_nth_distinct [OF d, of i] i at by simp
  have sw: "distinct (map fst (swap_remove i (es @ ov)))"
    "map_of (swap_remove i (es @ ov)) = (map_of (es @ ov))(name := None)"
    using swap_remove_map [OF d, of i] i at by auto
  show ?thesis
  proof (cases "ov = []")
    case True
    obtain xs x where es: "es = xs @ [x]" using i by (cases es rule: rev_cases) auto
    have len: "length xs < INLINE_SCOPE_SLOTS" using assms es by (simp add: mk_ok_def)
    show ?thesis
    proof (rule that)
      show "scope_remove name (mk_scope es ov) = (map_of (es @ ov) name, mk_scope (swap_remove i es) [])"
        using scope_remove_last [OF _ len, of name x i] Some val True es by simp
      show "mk_ok (swap_remove i es) []" using assms sw(1) True by (auto simp: mk_ok_def swap_remove_def)
      show "map_of (swap_remove i es @ []) = (map_of (es @ ov))(name := None)" using sw(2) True by simp
    qed
  next
    case False
    have eq: "swap_remove i (es @ ov) = es[i := last ov] @ butlast ov"
      by (rule swap_remove_append [OF i(1) False])
    show ?thesis
    proof (rule that)
      show "scope_remove name (mk_scope es ov) = (map_of (es @ ov) name, mk_scope (es[i := last ov]) (butlast ov))"
        using Some i val False
        by (simp add: scope_remove_def mk_scope_def Let_def map_update list_update_append nth_append)
      show "mk_ok (es[i := last ov]) (butlast ov)"
        using assms sw(1) eq by (auto simp: mk_ok_def)
    qed (use sw(2) eq in simp)
  qed
next
  case None
  then have es: "map_of es name = None" by (simp add: position_key_None)
  show ?thesis
  proof (cases "position (\<lambda>(k, _). k = name) ov")
    case (Some i)
    then have i: "i < length ov" "fst (ov ! i) = name" by (auto dest!: position_SomeD simp: split_beta)
    have d: "distinct (map fst (es @ ov))" using assms by (simp add: mk_ok_def)
    have at: "(es @ ov) ! (length es + i) = ov ! i" "length es + i < length (es @ ov)" using i by auto
    have eq: "swap_remove (length es + i) (es @ ov) = es @ swap_remove i ov"
      by (rule swap_remove_tail [OF i(1)])
    show ?thesis
    proof (rule that)
      show "scope_remove name (mk_scope es ov) = (map_of (es @ ov) name, mk_scope es (swap_remove i ov))"
        using None Some map_of_nth_distinct [OF d at(2)] at(1) i(2)
        by (simp add: scope_remove_def mk_scope_def)
      show "mk_ok es (swap_remove i ov)"
        using assms swap_remove_map(1) [OF d at(2)] eq by (auto simp: mk_ok_def swap_remove_def)
      show "map_of (es @ swap_remove i ov) = (map_of (es @ ov))(name := None)"
        using swap_remove_map(2) [OF d at(2)] eq at(1) i(2) by simp
    qed
  next
    case None
    then have ov: "map_of ov name = None" by (simp add: position_key_None)
    show ?thesis
    proof (rule that)
      show "scope_remove name (mk_scope es ov) = (map_of (es @ ov) name, mk_scope es ov)"
        using \<open>position _ es = None\<close> None es ov by (simp add: scope_remove_def map_add_def)
    qed (use assms es ov in \<open>auto simp: fun_eq_iff map_add_def\<close>)
  qed
qed

section \<open>The contract of a scope\<close>

datatype 'v scope_op = OpGet string | OpInsert string 'v | OpRemove string | OpClear

text \<open>A sequence of calls and what each of them returns.\<close>

fun run_ops ::
  "('s \<Rightarrow> string \<Rightarrow> 'v option) \<Rightarrow> (string \<Rightarrow> 'v \<Rightarrow> 's \<Rightarrow> 'v option \<times> 's) \<Rightarrow> (string \<Rightarrow> 's \<Rightarrow> 'v option \<times> 's) \<Rightarrow>
   ('s \<Rightarrow> 's) \<Rightarrow> 'v scope_op list \<Rightarrow> 's \<Rightarrow> 'v option list \<times> 's" where
  "run_ops get put del clear [] s = ([], s)"
| "run_ops get put del clear (OpGet n # calls) s = apfst (Cons (get s n)) (run_ops get put del clear calls s)"
| "run_ops get put del clear (OpInsert n v # calls) s =
     (case put n v s of (r, s') \<Rightarrow> apfst (Cons r) (run_ops get put del clear calls s'))"
| "run_ops get put del clear (OpRemove n # calls) s =
     (case del n s of (r, s') \<Rightarrow> apfst (Cons r) (run_ops get put del clear calls s'))"
| "run_ops get put del clear (OpClear # calls) s = run_ops get put del clear calls (clear s)"

definition map_put :: "string \<Rightarrow> 'v \<Rightarrow> (string \<rightharpoonup> 'v) \<Rightarrow> 'v option \<times> (string \<rightharpoonup> 'v)" where
  "map_put n v m = (m n, m(n \<mapsto> v))"

definition map_del :: "string \<Rightarrow> (string \<rightharpoonup> 'v) \<Rightarrow> 'v option \<times> (string \<rightharpoonup> 'v)" where
  "map_del n m = (m n, m(n := None))"

abbreviation run_map :: "'v scope_op list \<Rightarrow> (string \<rightharpoonup> 'v) \<Rightarrow> 'v option list \<times> (string \<rightharpoonup> 'v)" where
  "run_map \<equiv> run_ops (\<lambda>m n. m n) map_put map_del (\<lambda>_. Map.empty)"

locale scope_map =
  fixes get :: "'s \<Rightarrow> string \<Rightarrow> 'v option"
    and put :: "string \<Rightarrow> 'v \<Rightarrow> 's \<Rightarrow> 'v option \<times> 's"
    and del :: "string \<Rightarrow> 's \<Rightarrow> 'v option \<times> 's"
    and clear :: "'s \<Rightarrow> 's"
    and ok :: "'s \<Rightarrow> bool"
    and abs :: "'s \<Rightarrow> string \<Rightarrow> 'v option"
  assumes get_abs: "ok s \<Longrightarrow> get s n = abs s n"
    and put_abs: "ok s \<Longrightarrow> put n v s = (r, s') \<Longrightarrow> ok s' \<and> r = abs s n \<and> abs s' = (abs s)(n \<mapsto> v)"
    and del_abs: "ok s \<Longrightarrow> del n s = (r, s') \<Longrightarrow> ok s' \<and> r = abs s n \<and> abs s' = (abs s)(n := None)"
    and clear_abs: "ok s \<Longrightarrow> ok (clear s) \<and> abs (clear s) = Map.empty"
begin

lemma run_ops_map:
  "ok s \<Longrightarrow> abs s = m \<Longrightarrow>
   ok (snd (run_ops get put del clear calls s)) \<and>
   fst (run_ops get put del clear calls s) = fst (run_map calls m) \<and>
   abs (snd (run_ops get put del clear calls s)) = snd (run_map calls m)"
proof (induction calls arbitrary: s m)
  case (Cons op calls)
  show ?case
  proof (cases op)
    case (OpInsert n v)
    obtain r s' where p: "put n v s = (r, s')" by fastforce
    from put_abs [OF Cons.prems(1) p] Cons.IH [of s' "m(n \<mapsto> v)"] OpInsert p Cons.prems(2) show ?thesis
      by (auto simp: map_put_def simp del: fun_upd_apply)
  next
    case (OpRemove n)
    obtain r s' where p: "del n s = (r, s')" by fastforce
    from del_abs [OF Cons.prems(1) p] Cons.IH [of s' "m(n := None)"] OpRemove p Cons.prems(2) show ?thesis
      by (auto simp: map_del_def simp del: fun_upd_apply)
  qed (use Cons in \<open>auto simp: get_abs clear_abs\<close>)
qed simp

text \<open>What a loop does around its body: hide a name, and bind it again at the end.\<close>

lemma hide_and_restore:
  assumes "ok s" "del n s = (r, s')" "ok t" "abs t = abs s'"
  shows "case r of None \<Rightarrow> abs t = abs s
    | Some v \<Rightarrow> (\<forall>old t'. put n v t = (old, t') \<longrightarrow> ok t' \<and> abs t' = abs s)"
  using del_abs [OF assms(1,2)] put_abs [OF assms(3)] assms(4)
  by (auto split: option.split simp: fun_eq_iff)

end

lemma scope_clear_mk: "mk_ok es ov \<Longrightarrow> scope_clear (mk_scope es ov) = scope_default"
  by (simp add: scope_clear_def scope_default_def mk_ok_def flip: replicate_add)

lemma scope_default_mk: "scope_default = mk_scope [] []"
  by (simp add: scope_default_def mk_scope_def)

lemma scope_default_ok [simp]: "scope_ok scope_default" "scope_of scope_default = Map.empty"
  by (simp_all add: scope_default_mk mk_ok_def scope_of_def)

lemma scope_clear_default: "scope_ok s \<Longrightarrow> scope_clear s = scope_default"
  by (erule scope_okE) (simp add: scope_clear_mk)

interpretation bscope: scope_map scope_get scope_insert scope_remove scope_clear scope_ok scope_of
proof (unfold_locales, goal_cases)
  case (1 s n)
  then show ?case by (auto elim!: scope_okE simp: scope_get_mk scope_of_def simp del: map_of_append)
next
  case (2 s n v r s')
  from 2(1) obtain es ov where s: "s = mk_scope es ov" "mk_ok es ov" by (rule scope_okE)
  obtain es' ov' where "scope_insert n v (mk_scope es ov) = (map_of (es @ ov) n, mk_scope es' ov')"
    "mk_ok es' ov'" "map_of (es' @ ov') = (map_of (es @ ov))(n \<mapsto> v)"
    by (rule scope_insert_mk [OF s(2)])
  with 2(2) s(1) show ?case by (auto simp: scope_of_def simp del: map_of_append fun_upd_apply)
next
  case (3 s n r s')
  from 3(1) obtain es ov where s: "s = mk_scope es ov" "mk_ok es ov" by (rule scope_okE)
  obtain es' ov' where "scope_remove n (mk_scope es ov) = (map_of (es @ ov) n, mk_scope es' ov')"
    "mk_ok es' ov'" "map_of (es' @ ov') = (map_of (es @ ov))(n := None)"
    by (rule scope_remove_mk [OF s(2)])
  with 3(2) s(1) show ?case by (auto simp: scope_of_def simp del: map_of_append fun_upd_apply)
next
  case (4 s)
  then show ?case by (simp add: scope_clear_default)
qed

text \<open>The owned scopes, \<open>HashMap\<close> in the source.\<close>

definition owned_insert :: "string \<Rightarrow> 'v \<Rightarrow> 'v scope_map \<Rightarrow> 'v option \<times> 'v scope_map" where
  "owned_insert name value m = (map_of m name, AList.update name value m)"

definition owned_remove :: "string \<Rightarrow> 'v scope_map \<Rightarrow> 'v option \<times> 'v scope_map" where
  "owned_remove name m = (map_of m name, AList.delete name m)"

interpretation oscope: scope_map map_of owned_insert owned_remove "\<lambda>_. []" "\<lambda>_. True" map_of
  by unfold_locales (auto simp: owned_insert_def owned_remove_def update_conv' delete_conv')

text \<open>\<open>clone_into_owned\<close> adds every borrowed value to the owned map.\<close>

lemma insert_all_map: "distinct (map fst es) \<Longrightarrow> map_of (insert_all (map Some es) m) = map_of m ++ map_of es"
proof (induction es arbitrary: m)
  case (Cons e es)
  then show ?case
    by (cases e) (simp add: update_conv' map_add_upd_left dom_map_of_conv_image_fst del: fun_upd_apply)
qed simp

lemma clone_into_owned_map: "scope_ok s \<Longrightarrow> map_of (clone_into_owned s m) = map_of m ++ scope_of s"
proof (erule scope_okE)
  fix es ov assume s: "s = mk_scope es ov" "mk_ok es ov"
  then have "distinct (map fst es)" "distinct (map fst ov)" "fst ` set es \<inter> fst ` set ov = {}"
    by (auto simp: mk_ok_def)
  moreover from this have "map_of es ++ map_of ov = map_of ov ++ map_of es"
    by (intro map_add_comm) (simp add: dom_map_of_conv_image_fst)
  ultimately show ?thesis using s
    by (simp add: clone_into_owned_def scope_of_def insert_all_map flip: map_add_assoc)
qed

text \<open>The pools hold cleared scopes only, and at most \<open>SCOPE_POOL_CAP\<close> of them.\<close>

definition pools_ok :: "'v scope_map list \<Rightarrow> 'v borrowed_scope list \<Rightarrow> bool" where
  "pools_ok pool bpool \<longleftrightarrow> set pool \<subseteq> {[]} \<and> set bpool \<subseteq> {scope_default} \<and>
     length pool \<le> SCOPE_POOL_CAP \<and> length bpool \<le> SCOPE_POOL_CAP"

lemma pools_take:
  assumes "pools_ok pool bpool" "take_scope_map pool = (m, pool')" "take_borrowed_scope bpool = (s, bpool')"
  shows "m = [] \<and> s = scope_default \<and> pools_ok pool' bpool'"
proof -
  have "pool \<noteq> [] \<Longrightarrow> last pool = []" "bpool \<noteq> [] \<Longrightarrow> last bpool = scope_default"
    using assms(1) last_in_set [of pool] last_in_set [of bpool] unfolding pools_ok_def by blast+
  with assms show ?thesis
    by (auto simp: pools_ok_def take_scope_map_def take_borrowed_scope_def split: if_splits dest: in_set_butlastD)
qed

lemma pools_recycle:
  "pools_ok pool bpool \<Longrightarrow> scope_ok s \<Longrightarrow> pools_ok (recycle_scope_map pool m) (recycle_borrowed_scope bpool s)"
  by (auto simp: pools_ok_def recycle_scope_map_def recycle_borrowed_scope_def scope_clear_default)

section \<open>Properties\<close>

text \<open>
  C21.  \<open>BorrowedScope\<close> implements a finite map.  Whatever sequence of gets, inserts, removes
  and clears is run on an empty scope, every call returns what the same call returns on a
  plain map, the inline slots and the overflow stay consistent (the invariant), and the scope
  holds exactly that map; cloning it into an owned map adds its entries, and clearing it gives
  back the empty scope that the pool hands out again.
\<close>

theorem borrowed_scope_refines_map:
  "fst (run_ops scope_get scope_insert scope_remove scope_clear calls scope_default) = fst (run_map calls Map.empty) \<and>
   scope_ok (snd (run_ops scope_get scope_insert scope_remove scope_clear calls scope_default)) \<and>
   scope_of (snd (run_ops scope_get scope_insert scope_remove scope_clear calls scope_default)) =
     snd (run_map calls Map.empty) \<and>
   map_of (clone_into_owned (snd (run_ops scope_get scope_insert scope_remove scope_clear calls scope_default)) m) =
     map_of m ++ snd (run_map calls Map.empty) \<and>
   scope_clear (snd (run_ops scope_get scope_insert scope_remove scope_clear calls scope_default)) = scope_default"
proof -
  note run = bscope.run_ops_map [OF scope_default_ok, of calls]
  then have ok: "scope_ok (snd (run_ops scope_get scope_insert scope_remove scope_clear calls scope_default))"
    by blast
  with run show ?thesis by (simp add: clone_into_owned_map scope_clear_default)
qed

end
