(* ===== verification/Render_Resolve.thy ===== *)
theory Render_Resolve
  imports Render_Scope
begin

text \<open>
  Resolving a dotted path during a render (\<open>crates/webui-handler/src/lib.rs\<close>):
  \<open>resolve_value_from_sources\<close>, \<open>resolve_borrowed_collection\<close>, \<open>resolve_state_backed_value\<close>, and
  the evaluation of a condition in the current scope.  All three resolvers are shown to be
  views of one lexical lookup.
\<close>

section \<open>Loop bindings\<close>

type_synonym loop_binding = "string \<times> json"

record visible_loop_scope =
  v_start :: nat
  v_end :: nat

definition VISIBLE_EMPTY :: visible_loop_scope where
  "VISIBLE_EMPTY = \<lparr>v_start = 0, v_end = 0\<rparr>"

text \<open>\<open>loop_vars[start..end]\<close>; the range is within the vector in every reachable scope (\<open>visible_ok\<close>).\<close>

definition visible_bindings :: "loop_binding list \<Rightarrow> visible_loop_scope \<Rightarrow> loop_binding list" where
  "visible_bindings loop_vars vis = take (v_end vis - v_start vis) (drop (v_start vis) loop_vars)"

definition visible_ok :: "loop_binding list \<Rightarrow> visible_loop_scope \<Rightarrow> bool" where
  "visible_ok loop_vars vis \<longleftrightarrow> v_start vis \<le> v_end vis \<and> v_end vis \<le> length loop_vars"

text \<open>\<open>loop_vars.get(start..end).and_then(|bindings| bindings.last())\<close>\<close>

definition last_binding :: "loop_binding list \<Rightarrow> visible_loop_scope \<Rightarrow> loop_binding option" where
  "last_binding loop_vars vis =
     (if visible_ok loop_vars vis \<and> visible_bindings loop_vars vis \<noteq> []
      then Some (last (visible_bindings loop_vars vis)) else None)"

section \<open>The resolvers\<close>

abbreviation first_part :: "string \<Rightarrow> string" where
  "first_part path \<equiv> hd (split_on (CHR ''.'') path)"

text \<open>The value of a local whose name is the first part of the path; a path it does not have is the state's.\<close>

definition resolve_in :: "string \<Rightarrow> string \<Rightarrow> json \<Rightarrow> json \<Rightarrow> json cow option" where
  "resolve_in path first value state =
     (if length first = length path then Some (Borrowed value)
      else (case find_value_by_dotted_path_ref (drop (length first + 1) path) value of
              Some found \<Rightarrow> Some found
            | None \<Rightarrow> find_value_by_dotted_path_ref path state))"

definition resolve_value_from_sources ::
  "string \<Rightarrow> loop_binding list \<Rightarrow> visible_loop_scope \<Rightarrow> json scope_map \<Rightarrow> json borrowed_scope \<Rightarrow> json \<Rightarrow> json cow option" where
  "resolve_value_from_sources path loop_vars vis owned borrowed state =
     (let first = first_part path;
          rest = (case scope_get borrowed first of
              Some local_value \<Rightarrow> resolve_in path first local_value state
            | None \<Rightarrow> (case map_of owned first of
                Some local_value \<Rightarrow> resolve_in path first local_value state
              | None \<Rightarrow> (case find (\<lambda>b. fst b = first) (rev (visible_bindings loop_vars vis)) of
                  Some b \<Rightarrow> resolve_in path first (snd b) state
                | None \<Rightarrow> find_value_by_dotted_path_ref path state)))
      in case last_binding loop_vars vis of
           None \<Rightarrow> rest
         | Some (name, value) \<Rightarrow>
             if length path = length name \<and> path = name then Some (Borrowed value)
             else if length name < length path \<and> path ! length name = CHR ''.'' \<and> starts_with path name then
               (case find_value_by_dotted_path_ref (drop (length name + 1) path) value of
                  Some found \<Rightarrow> Some found
                | None \<Rightarrow> find_value_by_dotted_path_ref path state)
             else rest)"

definition borrowed_state_value :: "string \<Rightarrow> json \<Rightarrow> json option" where
  "borrowed_state_value path state = (case find_value_by_dotted_path_ref path state of
     Some (Borrowed value) \<Rightarrow> Some value
   | _ \<Rightarrow> None)"

definition as_array :: "json \<Rightarrow> json list option" where
  "as_array v = (case v of JArray xs \<Rightarrow> Some xs | _ \<Rightarrow> None)"

definition borrowed_state_array :: "string \<Rightarrow> json \<Rightarrow> json list option" where
  "borrowed_state_array path state = (case find_value_by_dotted_path_ref path state of
     None \<Rightarrow> None
   | Some (Borrowed value) \<Rightarrow> as_array value
   | Some (Owned _) \<Rightarrow> None)"

text \<open>The search common to both: the value itself, or the rest of the path in it.\<close>

definition local_match :: "string \<Rightarrow> string \<Rightarrow> json \<Rightarrow> json cow option" where
  "local_match path first value =
     (if length first = length path then Some (Borrowed value)
      else find_value_by_dotted_path_ref (drop (length first + 1) path) value)"

definition resolve_borrowed_collection ::
  "string \<Rightarrow> loop_binding list \<Rightarrow> visible_loop_scope \<Rightarrow> json scope_map \<Rightarrow> json borrowed_scope \<Rightarrow> json \<Rightarrow> json list option" where
  "resolve_borrowed_collection path loop_vars vis owned borrowed state =
     (let first = first_part path;
          in_state = (\<lambda>value. case local_match path first value of
              Some (Borrowed v) \<Rightarrow> as_array v
            | Some (Owned _) \<Rightarrow> None
            | None \<Rightarrow> borrowed_state_array path state);
          rest = (case scope_get borrowed first of
              Some local_value \<Rightarrow> in_state local_value
            | None \<Rightarrow> (case map_of owned first of
                Some local_value \<Rightarrow>
                  (if local_match path first local_value \<noteq> None then None else borrowed_state_array path state)
              | None \<Rightarrow> (case find (\<lambda>b. fst b = first) (rev (visible_bindings loop_vars vis)) of
                  Some b \<Rightarrow> in_state (snd b)
                | None \<Rightarrow> borrowed_state_array path state)))
      in case last_binding loop_vars vis of
           None \<Rightarrow> rest
         | Some (name, value) \<Rightarrow> if name = first then in_state value else rest)"

definition resolve_state_backed_value ::
  "string \<Rightarrow> loop_binding list \<Rightarrow> visible_loop_scope \<Rightarrow> json scope_map \<Rightarrow> json borrowed_scope \<Rightarrow> json \<Rightarrow> json option" where
  "resolve_state_backed_value path loop_vars vis owned borrowed state =
     (let first = first_part path;
          in_state = (\<lambda>value. case local_match path first value of
              Some (Borrowed v) \<Rightarrow> Some v
            | Some (Owned _) \<Rightarrow> None
            | None \<Rightarrow> borrowed_state_value path state);
          rest = (case scope_get borrowed first of
              Some local_value \<Rightarrow> in_state local_value
            | None \<Rightarrow> (case map_of owned first of
                Some local_value \<Rightarrow>
                  (if local_match path first local_value \<noteq> None then None else borrowed_state_value path state)
              | None \<Rightarrow> (case find (\<lambda>b. fst b = first) (rev (visible_bindings loop_vars vis)) of
                  Some b \<Rightarrow> in_state (snd b)
                | None \<Rightarrow> borrowed_state_value path state)))
      in case last_binding loop_vars vis of
           None \<Rightarrow> rest
         | Some (name, value) \<Rightarrow> if name = first then in_state value else rest)"

text \<open>
  \<open>WebUIHandler::evaluate_condition\<close>; \<open>show_error\<close> is the message text of an expression error.
\<close>

definition evaluate_condition ::
  "(expression_error \<Rightarrow> string) \<Rightarrow> resolver \<Rightarrow> condition_expr \<Rightarrow> (handler_error, bool) result" where
  "evaluate_condition show_error resolver condition = (case evaluate_with_resolver condition resolver of
     Inr b \<Rightarrow> Inr b
   | Inl (MissingValue _) \<Rightarrow> Inr False
   | Inl e \<Rightarrow> Inl (handler_error.Evaluation (show_error e)))"

section \<open>Scalars\<close>

definition SCALAR_BUFFER :: nat where
  "SCALAR_BUFFER = 48"

definition format_plain_json_scalar :: "(number \<Rightarrow> string) \<Rightarrow> json \<Rightarrow> string option" where
  "format_plain_json_scalar print_number v = (case v of
     JBool True \<Rightarrow> Some ''true''
   | JBool False \<Rightarrow> Some ''false''
   | JNull \<Rightarrow> Some ''null''
   | JNumber n \<Rightarrow> (let s = print_number n in if length s \<le> SCALAR_BUFFER then Some s else None)
   | _ \<Rightarrow> None)"

section \<open>The lexical lookup they are views of\<close>

text \<open>Where a visible name comes from: the request state, or a value the render made up.\<close>

datatype source = FromState json | FromRender json

fun source_value :: "source \<Rightarrow> json" where
  "source_value (FromState v) = v"
| "source_value (FromRender v) = v"

text \<open>The innermost entry for a name.\<close>

definition visible_entry ::
  "loop_binding list \<Rightarrow> visible_loop_scope \<Rightarrow> json scope_map \<Rightarrow> json borrowed_scope \<Rightarrow> string \<Rightarrow> source option" where
  "visible_entry loop_vars vis owned borrowed name =
     (case last_binding loop_vars vis of
        Some (n, v) \<Rightarrow> if n = name then Some (FromState v) else
          (case scope_of borrowed name of
             Some v \<Rightarrow> Some (FromState v)
           | None \<Rightarrow> (case map_of owned name of
               Some v \<Rightarrow> Some (FromRender v)
             | None \<Rightarrow> map_option FromState (map_of (rev (visible_bindings loop_vars vis)) name)))
      | None \<Rightarrow> (case scope_of borrowed name of
             Some v \<Rightarrow> Some (FromState v)
           | None \<Rightarrow> (case map_of owned name of
               Some v \<Rightarrow> Some (FromRender v)
             | None \<Rightarrow> map_option FromState (map_of (rev (visible_bindings loop_vars vis)) name))))"

definition from_state :: "json cow \<Rightarrow> source" where
  "from_state c = (case c of Borrowed v \<Rightarrow> FromState v | Owned v \<Rightarrow> FromRender v)"

definition tagged :: "source \<Rightarrow> json cow \<Rightarrow> source" where
  "tagged src c = (case src of FromState _ \<Rightarrow> from_state c | FromRender _ \<Rightarrow> FromRender (cow_value c))"

text \<open>
  The lookup: the first part of the path names an entry of the scope or a member of the
  state; when the entry has no value at the rest of the path, the whole path is the state's.
\<close>

definition lexical_resolve :: "(string \<Rightarrow> source option) \<Rightarrow> string \<Rightarrow> json \<Rightarrow> source option" where
  "lexical_resolve entry path state =
     (case split_on (CHR ''.'') path of
        [] \<Rightarrow> None
      | name # rest \<Rightarrow> (case entry name of
          None \<Rightarrow> map_option from_state (find_value_by_dotted_path_ref path state)
        | Some src \<Rightarrow>
            (case walk_path rest (source_value src) of
               Some c \<Rightarrow> Some (tagged src c)
             | None \<Rightarrow> map_option from_state (find_value_by_dotted_path_ref path state))))"

section \<open>Facts about paths\<close>

lemma split_on_first:
  assumes "split_on c path = name # rest"
  obtains "rest = []" "path = name" "c \<notin> set name"
  | r where "rest = split_on c r" "path = name @ c # r" "c \<notin> set name"
proof (cases "rest = []")
  case True
  with assms have "path = name" by (metis join_split_on join_with.simps(2))
  with True assms show ?thesis using that(1) split_on_sep_free [of name c path] by simp
next
  case False
  then have "path = name @ c # join_with [c] rest"
    using join_split_on [of c path] assms by (cases rest) simp_all
  moreover have "c \<notin> set name" using split_on_sep_free [of name c path] assms by simp
  ultimately show ?thesis
    using that(2) [of "join_with [c] rest"] assms by (simp add: split_on_append split_on_no_sep)
qed

lemma find_map_of: "find (\<lambda>b. fst b = n) xs = map_option (Pair n) (map_of xs n)"
  by (induction xs) auto

lemma local_match_walk:
  assumes "split_on (CHR ''.'') path = name # rest"
  shows "local_match path name value = walk_path rest value"
  using assms by (cases rule: split_on_first)
    (auto simp: local_match_def find_value_by_dotted_path_ref_def)

lemma resolve_in_match:
  "resolve_in path name value state = (case local_match path name value of
     Some found \<Rightarrow> Some found | None \<Rightarrow> find_value_by_dotted_path_ref path state)"
  by (simp add: resolve_in_def local_match_def)

text \<open>A loop variable whose name has no dot is compared with the first part of the path.\<close>

lemma last_binding_test:
  assumes "split_on (CHR ''.'') path = first # rest" "CHR ''.'' \<notin> set name"
  shows "path = name \<longleftrightarrow> first = name \<and> length first = length path"
    and "length name < length path \<and> path ! length name = CHR ''.'' \<and> starts_with path name \<longleftrightarrow>
      first = name \<and> length first \<noteq> length path"
  using assms
  by (auto elim!: split_on_first simp: starts_with_iff append_eq_append_conv2 Cons_eq_append_conv append_eq_Cons_conv
      neq_Nil_conv)

section \<open>The resolvers are views of it\<close>

definition names_plain :: "loop_binding list \<Rightarrow> bool" where
  "names_plain bs \<longleftrightarrow> list_all (\<lambda>b. CHR ''.'' \<notin> set (fst b)) bs"

lemma last_binding_plain:
  assumes "names_plain loop_vars" "last_binding loop_vars vis = Some (n, v)"
  shows "CHR ''.'' \<notin> set n"
proof -
  have "visible_bindings loop_vars vis \<noteq> []" "(n, v) = last (visible_bindings loop_vars vis)"
    using assms(2) by (auto simp: last_binding_def split: if_splits)
  then have "(n, v) \<in> set (visible_bindings loop_vars vis)" by (metis last_in_set)
  then have "(n, v) \<in> set loop_vars"
    unfolding visible_bindings_def by (meson in_set_takeD in_set_dropD)
  with assms(1) show ?thesis by (auto simp: names_plain_def list_all_iff)
qed

text \<open>The entry found, its walk and the fallback to the state, for each kind of source.\<close>

definition resolve_from :: "source option \<Rightarrow> string \<Rightarrow> json \<Rightarrow> source option" where
  "resolve_from src path state = (case src of
     None \<Rightarrow> map_option from_state (find_value_by_dotted_path_ref path state)
   | Some s \<Rightarrow> (case local_match path (first_part path) (source_value s) of
       Some c \<Rightarrow> Some (tagged s c)
     | None \<Rightarrow> map_option from_state (find_value_by_dotted_path_ref path state)))"

lemma lexical_resolve_from: "lexical_resolve entry path state = resolve_from (entry (first_part path)) path state"
proof -
  obtain name rest where s: "split_on (CHR ''.'') path = name # rest"
    by (cases "split_on (CHR ''.'') path") auto
  then show ?thesis
    by (simp add: lexical_resolve_def resolve_from_def local_match_walk split: option.split)
qed

lemma source_value_tags [simp]: "source_value (from_state c) = cow_value c" "source_value (tagged s c) = cow_value c"
  by (cases c; cases s; simp add: from_state_def tagged_def)+

definition state_backed :: "source option \<Rightarrow> json option" where
  "state_backed r = (case r of Some (FromState v) \<Rightarrow> Some v | _ \<Rightarrow> None)"

lemma state_backed_simps [simp]:
  "state_backed None = None" "state_backed (Some (FromState v)) = Some v" "state_backed (Some (FromRender v)) = None"
  "state_backed (map_option from_state (find_value_by_dotted_path_ref path state)) = borrowed_state_value path state"
  by (auto simp: state_backed_def borrowed_state_value_def from_state_def split: option.splits cow.splits)

lemma borrowed_state_array_value:
  "borrowed_state_array path state = Option.bind (borrowed_state_value path state) as_array"
  by (simp add: borrowed_state_array_def borrowed_state_value_def split: option.split cow.split)

lemma resolve_value_cases:
  assumes plain: "names_plain loop_vars" and ok: "scope_ok borrowed"
  shows "resolve_value_from_sources path loop_vars vis owned borrowed state =
    (case visible_entry loop_vars vis owned borrowed (first_part path) of
       None \<Rightarrow> find_value_by_dotted_path_ref path state
     | Some s \<Rightarrow> resolve_in path (first_part path) (source_value s) state)"
proof (cases "last_binding loop_vars vis")
  case None
  with ok show ?thesis
    by (simp add: resolve_value_from_sources_def Let_def visible_entry_def bscope.get_abs find_map_of split: option.split)
next
  case (Some b)
  obtain n v where b: "b = (n, v)" by fastforce
  obtain name rest where s: "split_on (CHR ''.'') path = name # rest"
    by (cases "split_on (CHR ''.'') path") auto
  note test = last_binding_test [OF s last_binding_plain [OF plain Some [unfolded b]]]
  show ?thesis
  proof (cases "name = n")
    case True
    with Some b s test show ?thesis
      by (simp add: resolve_value_from_sources_def Let_def visible_entry_def resolve_in_def)
  next
    case False
    with Some b s ok test show ?thesis
      by (auto simp: resolve_value_from_sources_def Let_def visible_entry_def bscope.get_abs find_map_of split: option.split)
  qed
qed

lemma resolve_value_view:
  assumes "names_plain loop_vars" "scope_ok borrowed"
  shows "map_option cow_value (resolve_value_from_sources path loop_vars vis owned borrowed state) =
    map_option source_value (lexical_resolve (visible_entry loop_vars vis owned borrowed) path state)"
  by (simp add: resolve_value_cases [OF assms] lexical_resolve_from resolve_from_def resolve_in_match
      option.map_comp o_def split: option.split)

lemma state_backed_tagged:
  "state_backed (Some (tagged (FromState v) c)) = (case c of Borrowed w \<Rightarrow> Some w | Owned _ \<Rightarrow> None)"
  "state_backed (Some (tagged (FromRender v) c)) = None"
  by (simp_all add: tagged_def from_state_def split: cow.split)

lemma state_backed_from:
  "state_backed (resolve_from (Some (FromState v)) path state) =
    (case local_match path (first_part path) v of
       Some (Borrowed w) \<Rightarrow> Some w | Some (Owned _) \<Rightarrow> None | None \<Rightarrow> borrowed_state_value path state)"
  "state_backed (resolve_from (Some (FromRender v)) path state) =
    (if local_match path (first_part path) v \<noteq> None then None else borrowed_state_value path state)"
  "state_backed (resolve_from None path state) = borrowed_state_value path state"
  by (auto simp: resolve_from_def state_backed_tagged split: option.split cow.split)

lemma state_backed_view:
  assumes "scope_ok borrowed"
  shows "resolve_state_backed_value path loop_vars vis owned borrowed state =
    state_backed (lexical_resolve (visible_entry loop_vars vis owned borrowed) path state)"
  unfolding resolve_state_backed_value_def Let_def lexical_resolve_from visible_entry_def find_map_of
    bscope.get_abs [OF assms]
  by (simp add: state_backed_from split: option.split prod.split)

lemma bind_cases [simp]:
  "Option.bind (case x of None \<Rightarrow> a | Some y \<Rightarrow> f y) g = (case x of None \<Rightarrow> Option.bind a g | Some y \<Rightarrow> Option.bind (f y) g)"
  by (simp split: option.split)

lemma bind_cow [simp]:
  "Option.bind (case c of Borrowed x \<Rightarrow> Some x | Owned _ \<Rightarrow> None) g = (case c of Borrowed x \<Rightarrow> g x | Owned _ \<Rightarrow> None)"
  by (simp split: cow.split)

lemma collection_backed:
  "resolve_borrowed_collection path loop_vars vis owned borrowed state =
    Option.bind (resolve_state_backed_value path loop_vars vis owned borrowed state) as_array"
  unfolding resolve_borrowed_collection_def resolve_state_backed_value_def Let_def
    borrowed_state_array_value
  by (simp split: option.split prod.split)

section \<open>Properties\<close>

text \<open>
  C20.  The three resolvers of the renderer agree.  With dot-free loop variable names, a path
  has one meaning, the lexical lookup of its first part (innermost loop variable, component
  properties, outer loop variables, and the request state behind them):
  \<open>resolve_value_from_sources\<close> returns its value, \<open>resolve_state_backed_value\<close> returns it
  exactly when it lives in the request state, and \<open>resolve_borrowed_collection\<close> exactly when it
  is moreover an array.
\<close>

theorem resolvers_agree:
  assumes "names_plain loop_vars" "scope_ok borrowed" "visible_ok loop_vars vis"
  shows "map_option cow_value (resolve_value_from_sources path loop_vars vis owned borrowed state) =
      map_option source_value (lexical_resolve (visible_entry loop_vars vis owned borrowed) path state) \<and>
    resolve_state_backed_value path loop_vars vis owned borrowed state =
      state_backed (lexical_resolve (visible_entry loop_vars vis owned borrowed) path state) \<and>
    resolve_borrowed_collection path loop_vars vis owned borrowed state =
      Option.bind (state_backed (lexical_resolve (visible_entry loop_vars vis owned borrowed) path state)) as_array"
  using assms by (simp add: resolve_value_view state_backed_view collection_backed)

definition sample_bindings :: "loop_binding list" where
  "sample_bindings = [(''row'', JArray [JNull]), (''item'', JObject [(''tags'', JArray [JBool True])])]"

theorem resolvers_agree_witness:
  "resolve_borrowed_collection ''item.tags'' sample_bindings \<lparr>v_start = 0, v_end = 2\<rparr> [] scope_default JNull =
     Option.bind (state_backed (lexical_resolve
       (visible_entry sample_bindings \<lparr>v_start = 0, v_end = 2\<rparr> [] scope_default) ''item.tags'' JNull)) as_array \<and>
   resolve_borrowed_collection ''item.tags'' sample_bindings \<lparr>v_start = 0, v_end = 2\<rparr> [] scope_default JNull =
     Some [JBool True]"
proof -
  have "names_plain sample_bindings" "visible_ok sample_bindings \<lparr>v_start = 0, v_end = 2\<rparr>"
    by (simp_all add: names_plain_def sample_bindings_def visible_ok_def)
  from resolvers_agree [OF this(1) scope_default_ok(1) this(2), where path = "''item.tags''" and owned = "[]" and state = JNull]
  show ?thesis
    by (simp add: sample_bindings_def resolve_borrowed_collection_def last_binding_def visible_bindings_def
        visible_ok_def local_match_def find_value_by_dotted_path_ref_def as_array_def)
qed

end
