(* ===== verification/Lazy_Select.thy ===== *)
theory Lazy_Select
  imports Lazy_Index Render_Resolve
begin

text \<open>
  The selection of lazy conditions for a request (\<open>crates/webui-handler/src/lazy/mod.rs\<close> and
  \<open>scope.rs\<close>): a machine with an explicit stack of frames that walks the relevant records under the
  request's state, and enters in \<open>active\<close> each lazy condition that holds.  It stops with an
  error after \<open>MAX_PLAN_STEPS\<close> frames or above \<open>MAX_PLAN_DEPTH\<close>.

  Stacks are lists with the top in front, except the loop bindings, which the visible range
  indexes from the bottom.  Indexing that would panic in the source is \<open>LazyPanic\<close> here.
\<close>

section \<open>Scopes\<close>

record lazy_scope =
  ls_owned :: "json scope_map"
  ls_borrowed :: "json borrowed_scope"
  ls_visible :: visible_loop_scope

definition lazy_scope_new :: "nat \<Rightarrow> lazy_scope" where
  "lazy_scope_new loop_depth = \<lparr>ls_owned = [], ls_borrowed = scope_default, ls_visible = \<lparr>v_start = loop_depth, v_end = loop_depth\<rparr>\<rparr>"

record lazy_values =
  lv_scope :: lazy_scope
  lv_loops :: "loop_binding list"
  lv_state :: json

definition lv_resolve :: "lazy_values \<Rightarrow> string \<Rightarrow> json cow option" where
  "lv_resolve v path = resolve_value_from_sources path (lv_loops v) (ls_visible (lv_scope v))
     (ls_owned (lv_scope v)) (ls_borrowed (lv_scope v)) (lv_state v)"

definition lv_condition :: "(expression_error \<Rightarrow> string) \<Rightarrow> lazy_values \<Rightarrow> condition_expr \<Rightarrow> (handler_error, bool) result" where
  "lv_condition show_error v condition =
     (case evaluate_with_resolver condition (\<lambda>path. map_option cow_value (lv_resolve v path)) of
        Inr value \<Rightarrow> Inr value
      | Inl (MissingValue _) \<Rightarrow> Inr False
      | Inl err \<Rightarrow> Inl (handler_error.Evaluation (show_error err)))"

definition non_array_collection :: "string \<Rightarrow> handler_error" where
  "non_array_collection path = HTypeError (''Collection '' @ [CHR 0x27] @ path @ [CHR 0x27] @ '' is not a state-backed array'')"

definition lv_collection :: "lazy_values \<Rightarrow> string \<Rightarrow> (handler_error, json list) result" where
  "lv_collection v path =
     (case resolve_borrowed_collection path (lv_loops v) (ls_visible (lv_scope v)) (ls_owned (lv_scope v))
         (ls_borrowed (lv_scope v)) (lv_state v) of
        Some items \<Rightarrow> Inr items
      | None \<Rightarrow> (case lv_resolve v path of None \<Rightarrow> Inr [] | Some _ \<Rightarrow> Inl (non_array_collection path)))"

text \<open>The library functions the values are printed with, and the texts of evaluation errors.\<close>

record lazy_printers =
  lp_show :: "expression_error \<Rightarrow> string"
  lp_number :: "number \<Rightarrow> string"
  lp_json :: "json \<Rightarrow> string"

definition lv_template_piece :: "lazy_printers \<Rightarrow> lazy_values \<Rightarrow> web_ui_fragment \<Rightarrow> string" where
  "lv_template_piece lp v f = (case f of
     Some (FRaw value) \<Rightarrow> value
   | Some (FSignal s) \<Rightarrow> (case lv_resolve v (signal_value s) of
       None \<Rightarrow> []
     | Some resolved \<Rightarrow> (case cow_value resolved of
         JString t \<Rightarrow> t
       | other \<Rightarrow> (case format_plain_json_scalar (lp_number lp) other of Some t \<Rightarrow> t | None \<Rightarrow> lp_json lp other)))
   | _ \<Rightarrow> [])"

definition lv_template_attribute :: "lazy_printers \<Rightarrow> lazy_values \<Rightarrow> web_ui_protocol \<Rightarrow> string \<Rightarrow> (handler_error, string) result" where
  "lv_template_attribute lp v p i = (case map_of (p_fragments p) i of
     None \<Rightarrow> Inl (MissingFragment i)
   | Some fl \<Rightarrow> Inr (concat (map (lv_template_piece lp v) (fragments fl))))"

definition scope_set_owned :: "string \<Rightarrow> json \<Rightarrow> lazy_scope \<Rightarrow> lazy_scope" where
  "scope_set_owned name value s =
     s\<lparr>ls_borrowed := snd (scope_remove name (ls_borrowed s)), ls_owned := AList.update name value (ls_owned s)\<rparr>"

definition scope_set_borrowed :: "string \<Rightarrow> json \<Rightarrow> lazy_scope \<Rightarrow> lazy_scope" where
  "scope_set_borrowed name value s =
     s\<lparr>ls_owned := AList.delete name (ls_owned s), ls_borrowed := snd (scope_insert name value (ls_borrowed s))\<rparr>"

definition lv_attribute ::
  "lazy_printers \<Rightarrow> lazy_values \<Rightarrow> web_ui_attribute \<Rightarrow> string \<Rightarrow> web_ui_protocol \<Rightarrow> lazy_scope \<Rightarrow> (handler_error, lazy_scope) result" where
  "lv_attribute lp v a name p target =
     (if attr_skip a then Inr target
      else case attr_condition_tree a of
        Some condition \<Rightarrow> map_sum id (\<lambda>b. scope_set_owned name (JBool b) target) (lv_condition (lp_show lp) v condition)
      | None \<Rightarrow>
          if attr_template a \<noteq> [] then
            map_sum id (\<lambda>t. scope_set_owned name (JString t) target) (lv_template_attribute lp v p (attr_template a))
          else if attr_raw_value a then Inr (scope_set_owned name (JString (attr_value a)) target)
          else if attr_value a = [] then Inr target
          else (case resolve_state_backed_value (attr_value a) (lv_loops v) (ls_visible (lv_scope v))
              (ls_owned (lv_scope v)) (ls_borrowed (lv_scope v)) (lv_state v) of
            Some value \<Rightarrow> Inr (scope_set_borrowed name value target)
          | None \<Rightarrow> (case lv_resolve v (attr_value a) of
              Some value \<Rightarrow> Inr (scope_set_owned name (cow_value value) target)
            | None \<Rightarrow> Inr (if attr_complex a then target else scope_set_owned name (JString []) target))))"

section \<open>The machine\<close>

definition MAX_PLAN_STEPS :: int where
  "MAX_PLAN_STEPS = 1000000"

definition MAX_PLAN_DEPTH :: int where
  "MAX_PLAN_DEPTH = 1024"

record selection_input =
  si_protocol :: web_ui_protocol
  si_render :: render_fragment_index
  si_index :: lazy_index
  si_state :: json
  si_entry :: string
  si_request_path :: string
  si_routes :: route_index
  si_printers :: lazy_printers

datatype lazy_frame =
    RecordFrame nat nat "(string \<times> nat) option"
  | ComponentEnd
  | ComponentFrame string
  | RepeatFrame web_ui_for "json list" nat
  | IterationEnd visible_loop_scope
  | RepeatEnd string "json option" "json option"
  | RouteEnd string "web_ui_route list"

record selection =
  s_frames :: "lazy_frame list"
  s_scopes :: "lazy_scope list"
  s_loops :: "loop_binding list"
  s_active :: "string set"
  s_base :: string
  s_children :: "web_ui_route list"

datatype lazy_stop = LazyFailed handler_error | LazyPanic

type_synonym 'a lazy_result = "(lazy_stop, 'a) result"

definition invalid_plan :: lazy_stop where
  "invalid_plan = LazyFailed (Invariant ''invalid compiled lazy-selection instruction; rebuild the protocol'')"

definition selection_limit :: lazy_stop where
  "selection_limit = LazyFailed (Rendering ''lazy-selection limit exceeded; reduce nested or repeated lazy regions'')"

definition lift_err :: "(handler_error, 'a) result \<Rightarrow> 'a lazy_result" where
  "lift_err r = map_sum LazyFailed id r"

definition or_panic :: "'a option \<Rightarrow> 'a lazy_result" where
  "or_panic x = (case x of Some y \<Rightarrow> Inr y | None \<Rightarrow> Inl LazyPanic)"

definition bind_lazy :: "'a lazy_result \<Rightarrow> ('a \<Rightarrow> 'b lazy_result) \<Rightarrow> 'b lazy_result" where
  "bind_lazy r f = (case r of Inl e \<Rightarrow> Inl e | Inr x \<Rightarrow> f x)"

definition push_frame :: "lazy_frame \<Rightarrow> selection \<Rightarrow> selection" where
  "push_frame f s = s\<lparr>s_frames := f # s_frames s\<rparr>"

definition top_scope :: "selection \<Rightarrow> lazy_scope lazy_result" where
  "top_scope s = (case s_scopes s of [] \<Rightarrow> Inl LazyPanic | sc # _ \<Rightarrow> Inr sc)"

definition set_top :: "lazy_scope \<Rightarrow> selection \<Rightarrow> selection" where
  "set_top sc s = s\<lparr>s_scopes := sc # tl (s_scopes s)\<rparr>"

text \<open>\<open>Selection::values\<close>; the visible range must lie within the loop bindings where it is read.\<close>

definition sel_values :: "selection_input \<Rightarrow> selection \<Rightarrow> lazy_values lazy_result" where
  "sel_values i s = bind_lazy (top_scope s) (\<lambda>sc.
     if visible_ok (s_loops s) (ls_visible sc)
     then Inr \<lparr>lv_scope = sc, lv_loops = s_loops s, lv_state = si_state i\<rparr> else Inl LazyPanic)"

definition sel_record :: "selection_input \<Rightarrow> nat \<Rightarrow> render_fragment_list lazy_result" where
  "sel_record i slot = (case ri_list (si_protocol i) (si_render i) slot of
     Some l \<Rightarrow> Inr l
   | None \<Rightarrow> Inl (LazyFailed (Invariant ''lazy selection lost a compiled record'')))"

definition sel_target :: "selection_input \<Rightarrow> string \<Rightarrow> nat lazy_result" where
  "sel_target i fid = (case ri_index (si_render i) fid of Some slot \<Rightarrow> Inr slot | None \<Rightarrow> Inl (LazyFailed (MissingFragment fid)))"

definition sel_relevant :: "selection_input \<Rightarrow> selection \<Rightarrow> nat \<Rightarrow> bool" where
  "sel_relevant i s slot = relevant (si_index i) slot (s_children s \<noteq> [])"

definition enter_record :: "selection_input \<Rightarrow> nat \<Rightarrow> selection \<Rightarrow> selection lazy_result" where
  "enter_record i slot s =
     (if \<not> sel_relevant i s slot then Inr s
      else bind_lazy (sel_record i slot) (\<lambda>l.
        Inr (push_frame (RecordFrame slot 0 (if rl_has_routes l
          then map_option (\<lambda>(name, rm). (name, consumed_segments rm))
            (find_best_route_match (rl_fragments l) (si_request_path i) (s_base s) (si_routes i))
          else None)) s)))"

definition sel_component :: "selection_input \<Rightarrow> nat \<Rightarrow> lazy_scope \<Rightarrow> selection \<Rightarrow> selection lazy_result" where
  "sel_component i slot sc s =
     (if \<not> sel_relevant i s slot then Inr s
      else enter_record i slot (push_frame ComponentEnd (s\<lparr>s_scopes := sc # s_scopes s\<rparr>)))"

definition sel_repeat :: "selection_input \<Rightarrow> web_ui_for \<Rightarrow> json list \<Rightarrow> nat \<Rightarrow> selection \<Rightarrow> selection lazy_result" where
  "sel_repeat i l items k s =
     (if k \<ge> length items then Inr s
      else bind_lazy (top_scope s) (\<lambda>sc.
        let s1 = push_frame (IterationEnd (ls_visible sc)) (push_frame (RepeatFrame l items (k + 1)) s);
            s2 = s1\<lparr>s_loops := s_loops s1 @ [(for_item l, items ! k)]\<rparr>;
            s3 = set_top (sc\<lparr>ls_visible := (ls_visible sc)\<lparr>v_end := length (s_loops s2)\<rparr>\<rparr>) s2 in
        bind_lazy (sel_target i (for_fragment_id l)) (\<lambda>slot. enter_record i slot s3)))"

definition sel_route :: "selection_input \<Rightarrow> web_ui_route \<Rightarrow> nat \<Rightarrow> selection \<Rightarrow> selection lazy_result" where
  "sel_route i r consumed s =
     (let s1 = push_frame (RouteEnd (s_base s) (s_children s))
            (s\<lparr>s_base := compute_route_base (si_request_path i) consumed, s_children := route_children r\<rparr>);
          s2 = (if route_fragment_id r \<noteq> [] then push_frame (ComponentFrame (route_fragment_id r)) s1 else s1) in
      if route_content_fragment_id r \<noteq> []
      then bind_lazy (sel_target i (route_content_fragment_id r)) (\<lambda>slot. enter_record i slot s2)
      else Inr s2)"

definition sel_outlet :: "selection_input \<Rightarrow> selection \<Rightarrow> selection lazy_result" where
  "sel_outlet i s =
     (let s1 = s\<lparr>s_children := []\<rparr> in
      case best_child_loop (si_routes i) (s_base s1) (split_request_path (si_request_path i)) 0 (s_children s) None of
        None \<Rightarrow> Inr s1
      | Some (k, rm) \<Rightarrow> sel_route i (s_children s ! k) (consumed_segments rm) s1)"

fun sel_attributes ::
  "selection_input \<Rightarrow> lazy_values \<Rightarrow> render_fragment_list \<Rightarrow> nat list \<Rightarrow> lazy_scope \<Rightarrow> lazy_scope lazy_result" where
  "sel_attributes i v l [] sc = Inr sc"
| "sel_attributes i v l (k # ks) sc = bind_lazy (or_panic (nth_opt (rl_fragments l) k)) (\<lambda>f. case f of
     Some (FAttribute a) \<Rightarrow> (case component_attr_name l k of
       Some name \<Rightarrow> bind_lazy (lift_err (lv_attribute (si_printers i) v a name (si_protocol i) sc)) (sel_attributes i v l ks)
     | None \<Rightarrow> sel_attributes i v l ks sc)
   | _ \<Rightarrow> sel_attributes i v l ks sc)"

definition step_component :: "selection_input \<Rightarrow> render_fragment_list \<Rightarrow> web_ui_fragment \<Rightarrow> nat list \<Rightarrow> selection \<Rightarrow> selection lazy_result" where
  "step_component i l f attributes s = (case f of
     Some (FComponent fid) \<Rightarrow> bind_lazy (sel_target i fid) (\<lambda>target.
       if \<not> sel_relevant i s target then Inr s
       else bind_lazy (sel_values i s) (\<lambda>v.
         bind_lazy (sel_attributes i v l attributes (lazy_scope_new (length (s_loops s)))) (\<lambda>sc. sel_component i target sc s)))
   | _ \<Rightarrow> Inl invalid_plan)"

definition step_condition :: "selection_input \<Rightarrow> web_ui_fragment \<Rightarrow> selection \<Rightarrow> selection lazy_result" where
  "step_condition i f s = (case f of
     Some (FIfCond c) \<Rightarrow> bind_lazy (sel_target i (if_fragment_id c)) (\<lambda>target.
       if \<not> if_lazy c \<and> \<not> sel_relevant i s target then Inr s
       else (case if_condition c of
         None \<Rightarrow> Inl invalid_plan
       | Some expression \<Rightarrow> bind_lazy (sel_values i s) (\<lambda>v.
           bind_lazy (lift_err (lv_condition (lp_show (si_printers i)) v expression)) (\<lambda>met.
             if met then enter_record i target (if if_lazy c then s\<lparr>s_active := insert (if_fragment_id c) (s_active s)\<rparr> else s)
             else Inr s))))
   | _ \<Rightarrow> Inl invalid_plan)"

definition step_repeat :: "selection_input \<Rightarrow> web_ui_fragment \<Rightarrow> selection \<Rightarrow> selection lazy_result" where
  "step_repeat i f s = (case f of
     Some (FForLoop l) \<Rightarrow> bind_lazy (sel_target i (for_fragment_id l)) (\<lambda>target.
       if \<not> sel_relevant i s target then Inr s
       else bind_lazy (sel_values i s) (\<lambda>v.
         bind_lazy (lift_err (lv_collection v (for_collection l))) (\<lambda>items.
         bind_lazy (top_scope s) (\<lambda>sc.
           let owned = map_of (ls_owned sc) (for_item l);
               (borrowed, rest) = scope_remove (for_item l) (ls_borrowed sc);
               s1 = set_top (sc\<lparr>ls_owned := AList.delete (for_item l) (ls_owned sc), ls_borrowed := rest\<rparr>) s in
           Inr (push_frame (RepeatFrame l items 0) (push_frame (RepeatEnd (for_item l) owned borrowed) s1))))))
   | _ \<Rightarrow> Inl invalid_plan)"

definition step_route :: "selection_input \<Rightarrow> web_ui_fragment \<Rightarrow> nat option \<Rightarrow> selection \<Rightarrow> selection lazy_result" where
  "step_route i f consumed s = (case f of
     Some (FRoute r) \<Rightarrow> (case consumed of Some n \<Rightarrow> sel_route i r n s | None \<Rightarrow> Inr s)
   | _ \<Rightarrow> Inl invalid_plan)"

definition sel_step :: "selection_input \<Rightarrow> nat \<Rightarrow> lazy_step \<Rightarrow> nat option \<Rightarrow> selection \<Rightarrow> selection lazy_result" where
  "sel_step i slot st consumed s = bind_lazy (sel_record i slot) (\<lambda>l.
     let frag = (\<lambda>k. or_panic (nth_opt (rl_fragments l) k)) in
     case st of
       StepComponent k attributes \<Rightarrow> bind_lazy (frag k) (\<lambda>f. step_component i l f attributes s)
     | StepCondition k \<Rightarrow> bind_lazy (frag k) (\<lambda>f. step_condition i f s)
     | StepRepeat k \<Rightarrow> bind_lazy (frag k) (\<lambda>f. step_repeat i f s)
     | StepRoute k \<Rightarrow> bind_lazy (frag k) (\<lambda>f. step_route i f consumed s)
     | StepOutlet \<Rightarrow> sel_outlet i s)"

definition route_consumed :: "selection_input \<Rightarrow> nat \<Rightarrow> lazy_step \<Rightarrow> (string \<times> nat) option \<Rightarrow> nat option lazy_result" where
  "route_consumed i slot st matched = (case (st, matched) of
     (StepRoute k, Some (name, consumed)) \<Rightarrow> bind_lazy (sel_record i slot) (\<lambda>l.
       bind_lazy (or_panic (nth_opt (rl_fragments l) k)) (\<lambda>f.
         Inr (case f of Some (FRoute r) \<Rightarrow> if route_fragment_id r = name then Some consumed else None | _ \<Rightarrow> None)))
   | _ \<Rightarrow> Inr None)"

definition restore_item :: "string \<Rightarrow> json option \<Rightarrow> json option \<Rightarrow> lazy_scope \<Rightarrow> lazy_scope" where
  "restore_item name owned borrowed sc =
     (let sc1 = (case owned of Some v \<Rightarrow> sc\<lparr>ls_owned := AList.update name v (ls_owned sc)\<rparr> | None \<Rightarrow> sc) in
      case borrowed of Some v \<Rightarrow> sc1\<lparr>ls_borrowed := snd (scope_insert name v (ls_borrowed sc1))\<rparr> | None \<Rightarrow> sc1)"

fun sel_advance :: "selection_input \<Rightarrow> lazy_frame \<Rightarrow> selection \<Rightarrow> selection lazy_result" where
  "sel_advance i (RecordFrame slot k matched) s = bind_lazy (or_panic (nth_opt (si_index i) slot)) (\<lambda>plan.
     case nth_opt (rp_steps plan) k of
       None \<Rightarrow> Inr s
     | Some st \<Rightarrow> bind_lazy (route_consumed i slot st matched) (\<lambda>consumed.
         sel_step i slot st consumed (push_frame (RecordFrame slot (k + 1) matched) s)))"
| "sel_advance i ComponentEnd s = Inr (s\<lparr>s_scopes := tl (s_scopes s)\<rparr>)"
| "sel_advance i (ComponentFrame fid) s = bind_lazy (sel_target i fid) (\<lambda>slot. sel_component i slot (lazy_scope_new (length (s_loops s))) s)"
| "sel_advance i (RepeatFrame l items k) s = sel_repeat i l items k s"
| "sel_advance i (IterationEnd visible) s = (let s1 = s\<lparr>s_loops := butlast (s_loops s)\<rparr> in
     bind_lazy (top_scope s1) (\<lambda>sc. Inr (set_top (sc\<lparr>ls_visible := visible\<rparr>) s1)))"
| "sel_advance i (RepeatEnd name owned borrowed) s = bind_lazy (top_scope s) (\<lambda>sc. Inr (set_top (restore_item name owned borrowed sc) s))"
| "sel_advance i (RouteEnd base cs) s = Inr (s\<lparr>s_base := base, s_children := cs\<rparr>)"

function select_loop :: "selection_input \<Rightarrow> int \<Rightarrow> selection \<Rightarrow> selection lazy_result" where
  "select_loop i steps s = (case s_frames s of
     [] \<Rightarrow> Inr s
   | f # rest \<Rightarrow>
       if steps + 1 > MAX_PLAN_STEPS \<or> int (length rest) > MAX_PLAN_DEPTH then Inl selection_limit
       else (case sel_advance i f (s\<lparr>s_frames := rest\<rparr>) of
         Inl e \<Rightarrow> Inl e
       | Inr s' \<Rightarrow> select_loop i (steps + 1) s'))"
  by pat_completeness auto
termination by (relation "measure (\<lambda>(_, steps, _). nat (MAX_PLAN_STEPS - steps))") auto

declare select_loop.simps [simp del]

definition initial_selection :: selection where
  "initial_selection = \<lparr>s_frames = [], s_scopes = [lazy_scope_new 0], s_loops = [], s_active = {}, s_base = ''/'', s_children = []\<rparr>"

definition lazy_select :: "selection_input \<Rightarrow> string set lazy_result" where
  "lazy_select i = (case ri_index (si_render i) (si_entry i) of
     None \<Rightarrow> Inl (LazyFailed (MissingFragment (si_entry i)))
   | Some slot \<Rightarrow> bind_lazy (or_panic (nth_opt (si_index i) slot)) (\<lambda>plan.
       if rp_flags plan AND HAS_LAZY = 0 then Inr {}
       else bind_lazy (enter_record i slot initial_selection) (\<lambda>s.
         bind_lazy (select_loop i 0 s) (\<lambda>s'. Inr (s_active s')))))"

section \<open>The machine does not panic\<close>

text \<open>
  The frames account for the scopes and the loop bindings: each \<open>ComponentEnd\<close> for a scope that sees
  no binding of its caller, each \<open>IterationEnd\<close> for a binding.  \<open>vs\<close> are the visible ranges of
  the scopes and \<open>n\<close> is the number of bindings.
\<close>

fun frames_ok :: "nat \<Rightarrow> lazy_frame list \<Rightarrow> visible_loop_scope list \<Rightarrow> nat \<Rightarrow> bool" where
  "frames_ok N [] vs n \<longleftrightarrow> vs = [\<lparr>v_start = 0, v_end = 0\<rparr>] \<and> n = 0"
| "frames_ok N (ComponentEnd # fs) vs n \<longleftrightarrow> vs \<noteq> [] \<and> hd vs = \<lparr>v_start = n, v_end = n\<rparr> \<and> frames_ok N fs (tl vs) n"
| "frames_ok N (IterationEnd u # fs) vs n \<longleftrightarrow>
     vs \<noteq> [] \<and> 0 < n \<and> hd vs = u\<lparr>v_end := n\<rparr> \<and> frames_ok N fs (u # tl vs) (n - 1)"
| "frames_ok N (RecordFrame slot k m # fs) vs n \<longleftrightarrow> slot < N \<and> frames_ok N fs vs n"
| "frames_ok N (f # fs) vs n \<longleftrightarrow> frames_ok N fs vs n"

abbreviation ranges :: "selection \<Rightarrow> visible_loop_scope list" where
  "ranges s \<equiv> map ls_visible (s_scopes s)"

definition sel_ok :: "nat \<Rightarrow> selection \<Rightarrow> bool" where
  "sel_ok N s \<longleftrightarrow> frames_ok N (s_frames s) (ranges s) (length (s_loops s))"

lemma frames_ok_top: "frames_ok N fs vs n \<Longrightarrow> vs \<noteq> [] \<and> v_start (hd vs) \<le> n \<and> v_end (hd vs) = n"
proof (induction N fs vs n rule: frames_ok.induct)
  case (3 N u fs vs n)
  then show ?case by (cases vs) auto
qed auto

definition runs_ok :: "nat \<Rightarrow> selection lazy_result \<Rightarrow> bool" where
  "runs_ok N r = (case r of Inl e \<Rightarrow> e \<noteq> LazyPanic | Inr s \<Rightarrow> sel_ok N s)"

lemma runs_ok_simps [simp]:
  "runs_ok N (Inr s) \<longleftrightarrow> sel_ok N s" "runs_ok N (Inl e) \<longleftrightarrow> e \<noteq> LazyPanic"
  by (simp_all add: runs_ok_def)

lemma stops_fail [simp]: "invalid_plan \<noteq> LazyPanic" "selection_limit \<noteq> LazyPanic" "lift_err r \<noteq> Inl LazyPanic"
  by (auto simp: invalid_plan_def selection_limit_def lift_err_def map_sum_def split: sum.splits)

lemma bind_ok: "(\<And>e. r = Inl e \<Longrightarrow> e \<noteq> LazyPanic) \<Longrightarrow> (\<And>x. r = Inr x \<Longrightarrow> runs_ok N (f x)) \<Longrightarrow> runs_ok N (bind_lazy r f)"
  by (cases r) (simp_all add: bind_lazy_def)

lemma bind_known [simp]: "bind_lazy (Inr x) f = f x" "bind_lazy (Inl e) f = Inl e"
  by (simp_all add: bind_lazy_def)

lemma bind_target_ok [intro!]: "(\<And>x. sel_target i fid = Inr x \<Longrightarrow> runs_ok N (f x)) \<Longrightarrow> runs_ok N (bind_lazy (sel_target i fid) f)"
  by (rule bind_ok) (auto simp: sel_target_def split: option.splits)

lemma bind_record_ok [intro!]: "(\<And>x. sel_record i slot = Inr x \<Longrightarrow> runs_ok N (f x)) \<Longrightarrow> runs_ok N (bind_lazy (sel_record i slot) f)"
  by (rule bind_ok) (auto simp: sel_record_def split: option.splits)

lemma bind_lift_ok [intro!]: "(\<And>x. runs_ok N (f x)) \<Longrightarrow> runs_ok N (bind_lazy (lift_err r) f)"
  by (rule bind_ok) (auto simp: lift_err_def map_sum_def split: sum.splits)

lemma top_scope_ok: "sel_ok N s \<Longrightarrow> \<exists>sc. top_scope s = Inr sc \<and> sc = hd (s_scopes s) \<and> s_scopes s \<noteq> []"
  using frames_ok_top [of N "s_frames s" "ranges s"] by (auto simp: sel_ok_def top_scope_def split: list.splits)

lemma sel_values_ok: "sel_ok N s \<Longrightarrow> \<exists>v. sel_values i s = Inr v"
  using frames_ok_top [of N "s_frames s" "ranges s"]
  by (auto simp: sel_ok_def sel_values_def top_scope_def bind_lazy_def visible_ok_def split: list.splits)

lemma push_frame_fields [simp]:
  "s_frames (push_frame f s) = f # s_frames s" "s_scopes (push_frame f s) = s_scopes s" "s_loops (push_frame f s) = s_loops s"
  "s_children (push_frame f s) = s_children s" "s_active (push_frame f s) = s_active s"
  by (simp_all add: push_frame_def)

lemma enter_record_ok: "sel_ok (length (si_index i)) s \<Longrightarrow> runs_ok (length (si_index i)) (enter_record i slot s)"
  unfolding enter_record_def
  by (auto simp: sel_ok_def sel_relevant_def relevant_def)

lemma sel_component_ok:
  "sel_ok (length (si_index i)) s \<Longrightarrow> ls_visible sc = \<lparr>v_start = length (s_loops s), v_end = length (s_loops s)\<rparr> \<Longrightarrow>
   runs_ok (length (si_index i)) (sel_component i slot sc s)"
  unfolding sel_component_def by (auto intro!: enter_record_ok simp: sel_ok_def)

lemma sel_repeat_ok:
  assumes "sel_ok (length (si_index i)) s"
  shows "runs_ok (length (si_index i)) (sel_repeat i l items k s)"
proof -
  obtain sc rest where sc: "s_scopes s = sc # rest" "top_scope s = Inr sc"
    using top_scope_ok [OF assms] by (cases "s_scopes s") auto
  show ?thesis
    using assms sc unfolding sel_repeat_def
    by (auto intro!: enter_record_ok simp: sel_ok_def set_top_def Let_def)
qed

lemma sel_route_ok: "sel_ok (length (si_index i)) s \<Longrightarrow> runs_ok (length (si_index i)) (sel_route i r consumed s)"
  unfolding sel_route_def by (auto intro!: enter_record_ok simp: sel_ok_def Let_def)

lemma sel_outlet_ok: "sel_ok (length (si_index i)) s \<Longrightarrow> runs_ok (length (si_index i)) (sel_outlet i s)"
  unfolding sel_outlet_def by (auto intro!: sel_route_ok simp: sel_ok_def Let_def split: option.splits prod.splits)

lemma scope_sets_visible [simp]:
  "ls_visible (scope_set_owned name v sc) = ls_visible sc" "ls_visible (scope_set_borrowed name v sc) = ls_visible sc"
  by (simp_all add: scope_set_owned_def scope_set_borrowed_def)

lemma lv_attribute_visible: "lv_attribute lp v a name p sc = Inr sc' \<Longrightarrow> ls_visible sc' = ls_visible sc"
  by (auto simp: lv_attribute_def map_sum_def split: if_splits option.splits sum.splits)

lemma sel_attributes_visible: "sel_attributes i v l ks sc = Inr sc' \<Longrightarrow> ls_visible sc' = ls_visible sc"
  by (induction i v l ks sc rule: sel_attributes.induct)
    (auto simp: bind_lazy_def or_panic_def lift_err_def map_sum_def dest!: lv_attribute_visible split: sum.splits option.splits fragment.splits)

lemma sel_attributes_panic: "\<forall>k \<in> set ks. k < length (rl_fragments l) \<Longrightarrow> sel_attributes i v l ks sc \<noteq> Inl LazyPanic"
  by (induction i v l ks sc rule: sel_attributes.induct)
    (auto simp: bind_lazy_def or_panic_def nth_opt_def lift_err_def map_sum_def split: sum.splits option.splits fragment.splits)

lemma step_component_ok:
  assumes "sel_ok (length (si_index i)) s" "\<forall>k \<in> set ks. k < length (rl_fragments l)"
  shows "runs_ok (length (si_index i)) (step_component i l f ks s)"
proof -
  obtain v where v: "sel_values i s = Inr v" using sel_values_ok [OF assms(1)] by blast
  have "runs_ok (length (si_index i)) (bind_lazy (sel_attributes i v l ks (lazy_scope_new (length (s_loops s)))) (\<lambda>sc. sel_component i t sc s))" for t
  proof (rule bind_ok)
    fix sc assume "sel_attributes i v l ks (lazy_scope_new (length (s_loops s))) = Inr sc"
    from sel_attributes_visible [OF this] show "runs_ok (length (si_index i)) (sel_component i t sc s)"
      by (intro sel_component_ok [OF assms(1)]) (simp add: lazy_scope_new_def)
  qed (use sel_attributes_panic [OF assms(2)] in blast)
  with v assms(1) show ?thesis
    by (auto simp: step_component_def split: option.splits fragment.splits)
qed

lemma step_condition_ok:
  assumes "sel_ok (length (si_index i)) s"
  shows "runs_ok (length (si_index i)) (step_condition i f s)"
proof -
  obtain v where v: "sel_values i s = Inr v" using sel_values_ok [OF assms] by blast
  have "sel_ok (length (si_index i)) (s\<lparr>s_active := A\<rparr>)" for A using assms by (simp add: sel_ok_def)
  with v assms show ?thesis
    by (auto simp: step_condition_def intro!: enter_record_ok split: option.splits fragment.splits)
qed

lemma step_repeat_ok:
  assumes "sel_ok (length (si_index i)) s"
  shows "runs_ok (length (si_index i)) (step_repeat i f s)"
proof -
  obtain v where v: "sel_values i s = Inr v" using sel_values_ok [OF assms] by blast
  obtain sc rest where sc: "s_scopes s = sc # rest" "top_scope s = Inr sc"
    using top_scope_ok [OF assms] by (cases "s_scopes s") auto
  from v sc assms show ?thesis
    by (auto simp: step_repeat_def sel_ok_def set_top_def Let_def split: option.splits fragment.splits prod.splits)
qed

fun step_places :: "lazy_step \<Rightarrow> nat set" where
  "step_places (StepComponent k ks) = insert k (set ks)"
| "step_places (StepCondition k) = {k}"
| "step_places (StepRepeat k) = {k}"
| "step_places (StepRoute k) = {k}"
| "step_places StepOutlet = {}"

text \<open>Every place a step names is one of its record's fragments.\<close>

definition places_ok :: "selection_input \<Rightarrow> bool" where
  "places_ok i \<longleftrightarrow> (\<forall>slot l. slot < length (si_index i) \<longrightarrow> ri_list (si_protocol i) (si_render i) slot = Some l \<longrightarrow>
     (\<forall>st \<in> set (rp_steps (si_index i ! slot)). \<forall>k \<in> step_places st. k < length (rl_fragments l)))"

lemma sel_record_Some: "sel_record i slot = Inr l \<Longrightarrow> ri_list (si_protocol i) (si_render i) slot = Some l"
  by (auto simp: sel_record_def split: option.splits)

lemma sel_step_ok:
  assumes "sel_ok (length (si_index i)) s"
    and "\<And>l k. ri_list (si_protocol i) (si_render i) slot = Some l \<Longrightarrow> k \<in> step_places st \<Longrightarrow> k < length (rl_fragments l)"
  shows "runs_ok (length (si_index i)) (sel_step i slot st consumed s)"
  unfolding sel_step_def
proof (rule bind_record_ok)
  fix l assume "sel_record i slot = Inr l"
  from assms(2) [OF sel_record_Some [OF this]] have places: "\<And>k. k \<in> step_places st \<Longrightarrow> k < length (rl_fragments l)" .
  show "runs_ok (length (si_index i)) (let frag = \<lambda>k. or_panic (nth_opt (rl_fragments l) k) in case st of
       StepComponent k attributes \<Rightarrow> bind_lazy (frag k) (\<lambda>f. step_component i l f attributes s)
     | StepCondition k \<Rightarrow> bind_lazy (frag k) (\<lambda>f. step_condition i f s)
     | StepRepeat k \<Rightarrow> bind_lazy (frag k) (\<lambda>f. step_repeat i f s)
     | StepRoute k \<Rightarrow> bind_lazy (frag k) (\<lambda>f. step_route i f consumed s)
     | StepOutlet \<Rightarrow> sel_outlet i s)"
    using assms(1) places
    by (cases st) (auto simp: or_panic_def nth_opt_def step_route_def split: option.splits fragment.splits
        intro!: step_component_ok step_condition_ok step_repeat_ok sel_route_ok sel_outlet_ok)
qed

lemma route_consumed_ok:
  assumes "\<And>l k. ri_list (si_protocol i) (si_render i) slot = Some l \<Longrightarrow> k \<in> step_places st \<Longrightarrow> k < length (rl_fragments l)"
  shows "route_consumed i slot st matched \<noteq> Inl LazyPanic"
proof (cases "\<exists>k name n l. st = StepRoute k \<and> matched = Some (name, n) \<and> sel_record i slot = Inr l")
  case True
  then obtain k name n l where c: "st = StepRoute k" "matched = Some (name, n)" "sel_record i slot = Inr l" by blast
  have "k < length (rl_fragments l)" using assms [OF sel_record_Some [OF c(3)]] c(1) by simp
  with c show ?thesis by (simp add: route_consumed_def or_panic_def nth_opt_def)
next
  case False
  then show ?thesis
    by (auto simp: route_consumed_def bind_lazy_def sel_record_def split: lazy_step.splits option.splits sum.splits)
qed

lemma advance_ok:
  assumes "places_ok i" "sel_ok (length (si_index i)) s" "s_frames s = f # rest"
  shows "runs_ok (length (si_index i)) (sel_advance i f (s\<lparr>s_frames := rest\<rparr>))"
proof (cases f)
  case (RecordFrame slot k matched)
  with assms(2,3) have slot: "slot < length (si_index i)" and ok: "sel_ok (length (si_index i)) (s\<lparr>s_frames := rest\<rparr>)"
    by (simp_all add: sel_ok_def)
  show ?thesis
  proof (cases "nth_opt (rp_steps (si_index i ! slot)) k")
    case None
    with RecordFrame slot ok show ?thesis by (simp add: or_panic_def nth_opt_def)
  next
    case (Some st)
    then have st: "st \<in> set (rp_steps (si_index i ! slot))" by (auto simp: nth_opt_def split: if_splits)
    with assms(1) slot have places: "\<And>l k. ri_list (si_protocol i) (si_render i) slot = Some l \<Longrightarrow> k \<in> step_places st \<Longrightarrow> k < length (rl_fragments l)"
      by (auto simp: places_ok_def)
    have "sel_ok (length (si_index i)) (push_frame (RecordFrame slot (k + 1) matched) (s\<lparr>s_frames := rest\<rparr>))"
      using ok slot by (simp add: sel_ok_def)
    from sel_step_ok [OF this places] route_consumed_ok [OF places]
    have "runs_ok (length (si_index i)) (bind_lazy (route_consumed i slot st matched) (\<lambda>consumed.
        sel_step i slot st consumed (push_frame (RecordFrame slot (k + 1) matched) (s\<lparr>s_frames := rest\<rparr>))))"
      by (intro bind_ok) blast+
    with RecordFrame slot Some show ?thesis by (simp add: or_panic_def nth_opt_def)
  qed
next
  case (IterationEnd visible)
  with assms(2,3) show ?thesis
    by (cases "s_scopes s") (auto simp: sel_ok_def top_scope_def set_top_def Let_def)
next
  case (RepeatEnd name owned borrowed)
  have v: "ls_visible (restore_item name owned borrowed sc) = ls_visible sc" for sc
    by (simp add: restore_item_def Let_def split: option.split)
  have "s_scopes s \<noteq> []" using top_scope_ok [OF assms(2)] by blast
  with RepeatEnd v assms(2,3) show ?thesis
    by (cases "s_scopes s") (auto simp: sel_ok_def top_scope_def set_top_def)
next
  case ComponentEnd
  with assms(2,3) show ?thesis by (auto simp: sel_ok_def map_tl)
next
  case (ComponentFrame fid)
  with assms(2,3) show ?thesis by (auto intro!: sel_component_ok simp: sel_ok_def lazy_scope_new_def)
next
  case (RepeatFrame l items k)
  with assms(2,3) show ?thesis by (auto intro!: sel_repeat_ok simp: sel_ok_def)
next
  case (RouteEnd base cs)
  with assms(2,3) show ?thesis by (simp add: sel_ok_def)
qed

lemma select_loop_ok: "places_ok i \<Longrightarrow> sel_ok (length (si_index i)) s \<Longrightarrow> runs_ok (length (si_index i)) (select_loop i steps s)"
proof (induction i steps s rule: select_loop.induct)
  case (1 i steps s)
  show ?case
  proof (cases "s_frames s")
    case Nil
    with "1.prems"(2) show ?thesis by (simp add: select_loop.simps)
  next
    case (Cons f rest)
    from advance_ok [OF "1.prems" Cons] "1.IH" [OF Cons] "1.prems"(1) Cons show ?thesis
      by (subst select_loop.simps) (auto split: sum.split)
  qed
qed

lemma compile_places: "st \<in> set (compile_loop n attributes fs) \<Longrightarrow> k \<in> step_places st \<Longrightarrow> k < n + length fs"
proof (induction n attributes fs rule: compile_loop.induct)
  case (2 n attributes f fs)
  then show ?case
    by (cases f; cases "the f") (auto split: if_splits option.splits)
qed simp

lemma index_steps:
  assumes "numberable p" "lazy_index_new p (fragment_ids p) (fragment_slots p) = Some records" "slot < length records"
  shows "\<exists>w. records ! slot = record_plan_of p (fragment_ids p ! slot) w"
proof -
  have "length records = length (fragment_ids p)" by (rule index_flags(1) [OF assms(1,2)])
  with assms(2,3) show ?thesis by (auto simp: lazy_index_new_def split: if_splits prod.splits)
qed

lemma index_places:
  assumes fit: "plan_fits up p" and ix: "lazy_index_new p (fragment_ids p) (fragment_slots p) = Some records"
    and i: "si_protocol i = p" "si_render i = render_index up p" "si_index i = records"
  shows "places_ok i"
  unfolding places_ok_def
proof (intro allI impI ballI)
  fix slot l st k
  assume slot: "slot < length (si_index i)" and l: "ri_list (si_protocol i) (si_render i) slot = Some l"
    and st: "st \<in> set (rp_steps (si_index i ! slot))" and k: "k \<in> step_places st"
  obtain mss where ids: "ri_ids (render_index up p) = fragment_ids p" by (rule render_index_shape [OF fit])
  have "numberable p" using fit by (simp add: numberable_def plan_fits_def)
  with index_steps [OF this ix] slot i obtain w where w: "si_index i ! slot = record_plan_of p (fragment_ids p ! slot) w" by auto
  from l i ids obtain fl where fl: "map_of (p_fragments p) (fragment_ids p ! slot) = Some fl" "rl_fragments l = fragments fl"
    by (auto simp: ri_list_def nth_opt_def bind_eq_Some_conv split: if_splits)
  from st w fl(1) have "st \<in> set (compile_loop 0 None (fragments fl))"
    by (auto simp: record_plan_of_def compile_steps_def split: if_splits)
  from compile_places [OF this k] fl(2) show "k < length (rl_fragments l)" by simp
qed

text \<open>
  C28. Selecting the lazy conditions of a request always ends, and without a panic: every
  index the machine follows is in range, there is a scope under every frame and the range of
  visible loop bindings lies within the bindings.  It answers with a set or a handler error.
\<close>

theorem lazy_select_safe:
  assumes "plan_fits up p" "lazy_index_new p (fragment_ids p) (fragment_slots p) = Some records"
    "si_protocol i = p" "si_render i = render_index up p" "si_index i = records"
  shows "lazy_select i \<noteq> Inl LazyPanic"
proof (cases "ri_index (si_render i) (si_entry i)")
  case (Some slot)
  have "numberable p" using assms(1) by (simp add: numberable_def plan_fits_def)
  then have "length records = length (fragment_ids p)" by (rule index_flags(1) [OF _ assms(2)])
  moreover have "slot < length (fragment_ids p)"
    using Some assms(4) fragment_ids_facts(1) [of p] \<open>numberable p\<close>
    by (auto simp: ri_index_position [OF assms(1)] numberable_def position_eq_iff)
  ultimately have slot: "nth_opt (si_index i) slot = Some (records ! slot)" using assms(5) by (simp add: nth_opt_def)
  have "sel_ok (length (si_index i)) initial_selection" by (simp add: sel_ok_def initial_selection_def lazy_scope_new_def)
  from enter_record_ok [OF this] have enter: "runs_ok (length (si_index i)) (enter_record i slot initial_selection)" .
  have loop: "select_loop i 0 s \<noteq> Inl LazyPanic" if "enter_record i slot initial_selection = Inr s" for s
    using select_loop_ok [OF index_places [OF assms], of s 0] enter that by auto
  show ?thesis
  proof (cases "enter_record i slot initial_selection")
    case (Inr s)
    with Some slot loop [OF Inr] show ?thesis by (cases "select_loop i 0 s") (auto simp: lazy_select_def or_panic_def)
  qed (use Some slot enter in \<open>auto simp: lazy_select_def or_panic_def\<close>)
qed (simp add: lazy_select_def)

definition sample_selection :: selection_input where
  "sample_selection = \<lparr>si_protocol = sample_lazy, si_render = render_index id sample_lazy, si_index = sample_records,
     si_state = JObject [(''shown'', JBool True)], si_entry = ''page'', si_request_path = ''/'', si_routes = Map.empty,
     si_printers = \<lparr>lp_show = (\<lambda>_. ''error''), lp_number = (\<lambda>_. ''0''), lp_json = (\<lambda>_. ''{}'')\<rparr>\<rparr>"

theorem lazy_select_safe_witness:
  "lazy_select sample_selection = Inr {''details''} \<and> lazy_select sample_selection \<noteq> Inl LazyPanic"
proof -
  have "distinct (map fst (p_fragments sample_lazy))" "length (p_fragments sample_lazy) = 4"
    "length (ri_metadata (render_index id sample_lazy)) = 5" "ri_attr_names (render_index id sample_lazy) = []"
    by code_simp+
  then have "plan_fits id sample_lazy" by (simp add: plan_fits_def)
  from lazy_select_safe [OF this sample_lazy_facts(2), of sample_selection]
  have "lazy_select sample_selection \<noteq> Inl LazyPanic" by (simp add: sample_selection_def)
  moreover have "lazy_select sample_selection = Inr {''details''}" by code_simp
  ultimately show ?thesis by blast
qed

section \<open>The components of a request\<close>

text \<open>\<open>WebUIHandler::request_reachable_components\<close>\<close>

definition request_reachable_components :: "lazy_index option \<Rightarrow> selection_input \<Rightarrow> string list lazy_result" where
  "request_reachable_components lazy i = (case lazy of
     None \<Rightarrow> Inr (collect_reachable_component_order_for_request (si_protocol i) (si_entry i) (si_request_path i) (si_routes i))
   | Some index \<Rightarrow> bind_lazy (lazy_select (i\<lparr>si_index := index\<rparr>)) (\<lambda>active.
       Inr (collect_reachable_with_lazy (si_protocol i) (si_entry i) (si_request_path i) (si_routes i) (Some active))))"

end
