(* ===== verification/Render_Doc.thy ===== *)
theory Render_Doc
  imports Render_Plan Render_Resolve Route_Walk Asset_Base
begin

text \<open>
  What a render writes outside its lexical scope (\<open>crates/webui-handler/src/lib.rs\<close>,
  \<open>css_module.rs\<close>, \<open>route_renderer.rs\<close>): the document part of \<open>WebUIProcessContext\<close>, scalars,
  asset links, style closures, the structural hooks at the head and the body, and the route
  elements.  The model is the ordinary render of a handler without a plugin
  (\<open>WebUIHandler::new\<close>), where \<open>context.plugin\<close> and \<open>context.streaming\<close> are \<open>None\<close>.

  \<open>env\<close> holds what a render only reads.  Its library functions (JSON printing of
  \<open>serde_json\<close>, message texts) and the writer are arguments.  The results of the two graph walks of
  \<open>route_handler.rs\<close> that the head hook consults (\<open>e_route_plan\<close>, \<open>e_reachable\<close>) depend on nothing
  a render changes; the source computes them at their first use and keeps them.  In string
  constants made by \<open>dq\<close> a tilde stands for the double quote.
\<close>

section \<open>Context\<close>

definition dq :: "string \<Rightarrow> string" where
  "dq s = map (\<lambda>c. if c = CHR ''~'' then CHR 0x22 else c) s"

record state_inject =
  inj_head_end :: "string option"
  inj_body_start :: "string option"
  inj_body_end :: "string option"
  inj_asset_base :: "string option"

record shadow_style_root =
  sr_component_index :: u32
  sr_static_emitted :: bool
  sr_routed :: "u32 list"

record 'w env =
  e_protocol :: web_ui_protocol
  e_index :: render_fragment_index
  e_state :: json
  e_entry_id :: string
  e_request_path :: string
  e_nonce :: "string option"
  e_head_inject :: "string option"
  e_body_inject :: "string option"
  e_inject :: state_inject
  e_routes :: "string \<rightharpoonup> segment_pattern list"
  e_component_index :: "(string \<times> u32) list"
  e_style_resource_index :: "(string \<times> u32) list"
  e_style_escape :: "string list"
  e_chunk_index :: "string \<rightharpoonup> u32"
  e_asset_manifest :: string
  e_asset_links :: string
  e_asset_hrefs :: "string list"
  e_route_plan :: "string list \<times> bool list"
  e_reachable :: "(handler_error, string list) result"
  e_json :: "json \<Rightarrow> string"
  e_number :: "number \<Rightarrow> string"
  e_show :: "expression_error \<Rightarrow> string"
  e_put :: "string \<Rightarrow> 'w act"
  e_put_escaped :: "string \<Rightarrow> 'w act"
  e_put_attribute :: "string \<Rightarrow> string \<Rightarrow> 'w act"
  e_put_escaped_attribute :: "string \<Rightarrow> string \<Rightarrow> 'w act"
  e_end :: "'w act"

record 'w doc =
  d_writer :: 'w
  d_route_base :: string
  d_rendered :: "string set"
  d_route_children :: "web_ui_route list"
  d_head_end :: bool
  d_body_start :: bool
  d_asset_styles :: bool
  d_body_end :: bool
  d_route_chain_index :: nat
  d_doc_styles :: "string set"
  d_shadow_roots :: "shadow_style_root list"

definition wr :: "'w act \<Rightarrow> 'w doc act" where
  "wr a d = (case a (d_writer d) of (r, w) \<Rightarrow> (r, d\<lparr>d_writer := w\<rparr>))"

definition put :: "'w env \<Rightarrow> string \<Rightarrow> 'w doc act" where
  "put e s = wr (e_put e s)"

definition put_escaped :: "'w env \<Rightarrow> string \<Rightarrow> 'w doc act" where
  "put_escaped e s = wr (e_put_escaped e s)"

abbreviation enc :: "string \<Rightarrow> string" where
  "enc s \<equiv> cow_value (encode_safe s)"

definition seq :: "'s act list \<Rightarrow> 's act" where
  "seq as = foldr and_then as act_ok"

definition when_do :: "bool \<Rightarrow> 's act \<Rightarrow> 's act" where
  "when_do b a = (if b then a else act_ok)"

definition opt_do :: "'a option \<Rightarrow> ('a \<Rightarrow> 's act) \<Rightarrow> 's act" where
  "opt_do x f = (case x of None \<Rightarrow> act_ok | Some y \<Rightarrow> f y)"

section \<open>Scalars\<close>

definition write_signal_value :: "'w env \<Rightarrow> json \<Rightarrow> bool \<Rightarrow> 'w doc act" where
  "write_signal_value e v raw = (case format_plain_json_scalar (e_number e) v of
     Some rendered \<Rightarrow> put e rendered
   | None \<Rightarrow>
       if raw then (case v of JString s \<Rightarrow> put e s | _ \<Rightarrow> put e (e_json e v))
       else (case v of JString s \<Rightarrow> put_escaped e s | _ \<Rightarrow> put_escaped e (e_json e v)))"

fun usize_loop :: "nat \<Rightarrow> string \<Rightarrow> string" where
  "usize_loop n buf = (if n = 0 then buf else usize_loop (n div 10) (char_of (48 + n mod 10) # buf))"

declare usize_loop.simps [simp del]

definition write_usize :: "'w env \<Rightarrow> nat \<Rightarrow> 'w doc act" where
  "write_usize e n = (if n = 0 then put e ''0'' else put e (usize_loop n []))"

section \<open>Reserved state and asset links\<close>

definition STATE_INJECT_KEY :: string where
  "STATE_INJECT_KEY = ''$webui''"

definition ASSET_BASE_MEMBER :: string where
  "ASSET_BASE_MEMBER = ''assetBase''"

definition html_field :: "(string \<times> json) list \<Rightarrow> string \<Rightarrow> string option" where
  "html_field m name = (case map_of m name of Some (JString s) \<Rightarrow> non_empty s | _ \<Rightarrow> None)"

text \<open>\<open>show_base\<close> is the text of a rejected base, \<open>kind_text\<close> of a base that is not a string.\<close>

definition inject_resolve ::
  "(string \<Rightarrow> asset_base_problem_value \<Rightarrow> string) \<Rightarrow> (json \<Rightarrow> string) \<Rightarrow> json \<Rightarrow> (handler_error, state_inject) result" where
  "inject_resolve show_base kind_text state =
     (case state of
        JObject members \<Rightarrow> (case map_of members STATE_INJECT_KEY of
          Some (JObject m) \<Rightarrow>
            rbind
              (case map_of m ASSET_BASE_MEMBER of
                 None \<Rightarrow> Inr None
               | Some JNull \<Rightarrow> Inr None
               | Some (JString base) \<Rightarrow> (case validate_asset_base base of
                   Inl problem \<Rightarrow> Inl (InvalidState (show_base base problem))
                 | Inr _ \<Rightarrow> Inr (Some base))
               | Some other \<Rightarrow> Inl (InvalidState (kind_text other)))
              (\<lambda>base. Inr \<lparr>inj_head_end = html_field m ''headEnd'', inj_body_start = html_field m ''bodyStart'',
                 inj_body_end = html_field m ''bodyEnd'', inj_asset_base = base\<rparr>)
        | _ \<Rightarrow> Inr \<lparr>inj_head_end = None, inj_body_start = None, inj_body_end = None, inj_asset_base = None\<rparr>)
      | _ \<Rightarrow> Inr \<lparr>inj_head_end = None, inj_body_start = None, inj_body_end = None, inj_asset_base = None\<rparr>)"

definition effective_asset_base :: "state_inject \<Rightarrow> web_ui_protocol \<Rightarrow> string option" where
  "effective_asset_base si p = (case inj_asset_base si of Some b \<Rightarrow> Some b | None \<Rightarrow> non_empty (p_asset_base p))"

definition is_base_relative :: "string \<Rightarrow> bool" where
  "is_base_relative href \<longleftrightarrow> \<not> starts_with href ''/'' \<and>
     (case position (\<lambda>c. c = CHR '':'' \<or> c = CHR ''/'') href of
        None \<Rightarrow> True
      | Some end \<Rightarrow> href ! end = CHR ''/'')"

definition write_asset_href :: "'w env \<Rightarrow> string option \<Rightarrow> string \<Rightarrow> 'w doc act" where
  "write_asset_href e base path = seq [
     opt_do base (\<lambda>b. when_do (is_base_relative path) (put_escaped e b)),
     put_escaped e path]"

definition write_nonce :: "'w env \<Rightarrow> 'w doc act" where
  "write_nonce e = opt_do (e_nonce e) (\<lambda>n. seq [put e (dq '' nonce=~''), put e (enc n), put e (dq ''~'')])"

definition COMPONENT_ASSET_MANIFEST_ID :: string where
  "COMPONENT_ASSET_MANIFEST_ID = ''webui-component-assets''"

definition write_component_asset_style_manifest :: "'w env \<Rightarrow> 'w doc act" where
  "write_component_asset_style_manifest e = when_do (e_asset_manifest e \<noteq> []) (seq [
     put e (dq ''<script type=~application/json~ id=~''), put e COMPONENT_ASSET_MANIFEST_ID, put e (dq ''~''),
     write_nonce e, put e ''>'', put e (e_asset_manifest e), put e ''</script>''])"

definition write_component_asset_styles :: "'w env \<Rightarrow> 'w doc act" where
  "write_component_asset_styles e d =
     (if d_asset_styles d then (Inr (), d)
      else seq [
        (case effective_asset_base (e_inject e) (e_protocol e) of
           Some base \<Rightarrow>
             if e_asset_hrefs e \<noteq> [] then
               seq (map (\<lambda>href. seq [put e (dq ''<link rel=~stylesheet~ href=~''), write_asset_href e (Some base) href,
                 put e (dq ''~>'')]) (e_asset_hrefs e))
             else put e (e_asset_links e)
         | None \<Rightarrow> put e (e_asset_links e)),
        write_component_asset_style_manifest e] (d\<lparr>d_asset_styles := True\<rparr>))"

section \<open>CSS modules\<close>

definition hex_upper :: "nat \<Rightarrow> char" where
  "hex_upper n = char_of (if n < 10 then 48 + n else 55 + n)"

definition percent_encode_css :: "string \<Rightarrow> string" where
  "percent_encode_css css = concat (map (\<lambda>c. let b = of_char c :: nat in
     if c \<in> {CHR ''%'', CHR ''#'', CHR 0x22, CHR ''<'', CHR ''>'', CHR '' '', CHR 0x09, CHR 0x0A, CHR 0x0D} \<or>
        \<not> (32 \<le> b \<and> b < 128)
     then [CHR ''%'', hex_upper (b div 16), hex_upper (b mod 16)] else [c]) css)"

definition build_data_uri :: "string \<Rightarrow> string" where
  "build_data_uri css = ''data:text/css,'' @ percent_encode_css css"

definition build_importmap_json :: "(json \<Rightarrow> string) \<Rightarrow> string \<Rightarrow> string \<Rightarrow> string" where
  "build_importmap_json to_json specifier data_uri =
     to_json (JObject [(''imports'', JObject [(specifier, JString data_uri)])])"

definition build_importmap_tag :: "(json \<Rightarrow> string) \<Rightarrow> string \<Rightarrow> string \<Rightarrow> string option \<Rightarrow> string" where
  "build_importmap_tag to_json specifier css nonce =
     dq ''<script type=~importmap~'' @
     (case nonce of Some n \<Rightarrow> dq '' nonce=~'' @ n @ dq ''~'' | None \<Rightarrow> []) @
     dq '' data-webui-resource=~'' @ enc specifier @ dq ''~'' @ ''>'' @
     build_importmap_json to_json specifier (build_data_uri css) @ ''</script>''"

definition emit_css_module :: "'w env \<Rightarrow> string \<Rightarrow> 'w doc act" where
  "emit_css_module e fragment_id d =
     (if css_strategy (e_protocol e) \<noteq> Module then (Inr (), d)
      else if fragment_id \<in> d_rendered d then (Inr (), d)
      else (case map_of (p_components (e_protocol e)) fragment_id of
              Some c \<Rightarrow> when_do (cd_css c \<noteq> [])
                (put e (build_importmap_tag (e_json e) fragment_id (cd_css c) (e_nonce e))) d
            | None \<Rightarrow> (Inr (), d)))"

section \<open>Style closures\<close>

definition INLINE_STYLE_UNITS :: nat where
  "INLINE_STYLE_UNITS = 8"

text \<open>\<open>EmittedStyleUnits\<close>: the occupied part of the inline array, and the hash set behind it.\<close>

record emitted_style_units =
  eu_inline :: "string list"
  eu_overflow :: "string set"

definition emitted_new :: emitted_style_units where
  "emitted_new = \<lparr>eu_inline = [], eu_overflow = {}\<rparr>"

definition emitted_insert :: "string \<Rightarrow> emitted_style_units \<Rightarrow> bool \<times> emitted_style_units" where
  "emitted_insert name u =
     (if name \<in> set (eu_inline u) then (False, u)
      else if length (eu_inline u) < INLINE_STYLE_UNITS then (True, u\<lparr>eu_inline := eu_inline u @ [name]\<rparr>)
      else (name \<notin> eu_overflow u, u\<lparr>eu_overflow := insert name (eu_overflow u)\<rparr>))"

definition component_owns_css_tree :: "string \<Rightarrow> web_ui_protocol \<Rightarrow> bool" where
  "component_owns_css_tree tag p \<longleftrightarrow> p_style_closures p \<noteq> [] \<and> component_uses_shadow_dom p tag"

definition push_shadow_style_root :: "'w env \<Rightarrow> string \<Rightarrow> 'w doc act" where
  "push_shadow_style_root e tag d =
     (if map_of (p_style_closures (e_protocol e)) tag = None
      then (Inl (Invariant (''component style closure metadata is missing Shadow root `'' @ tag @ ''`'')), d)
      else (case map_of (e_component_index e) tag of
              None \<Rightarrow> (Inl (Invariant (''Shadow component `'' @ tag @ ''` is missing its protocol index'')), d)
            | Some i \<Rightarrow> (Inr (), d\<lparr>d_shadow_roots := d_shadow_roots d @
                [\<lparr>sr_component_index = i, sr_static_emitted = False, sr_routed = []\<rparr>]\<rparr>)))"

definition pop_shadow_style_root :: "string \<Rightarrow> 'w doc act" where
  "pop_shadow_style_root tag d =
     (if d_shadow_roots d = []
      then (Inl (Invariant (''Shadow component `'' @ tag @ ''` lost its active style root'')), d)
      else (Inr (), d\<lparr>d_shadow_roots := butlast (d_shadow_roots d)\<rparr>))"

datatype style_closure_install = InstallStatic | InstallRouted

text \<open>The closure already installed in the shadow root that routed styles go into.\<close>

definition shadow_static_closure ::
  "'w env \<Rightarrow> style_closure_install \<Rightarrow> 'w doc \<Rightarrow> (handler_error, style_closure option) result" where
  "shadow_static_closure e install d =
     (if install = InstallRouted \<and> d_shadow_roots d \<noteq> [] then
        let rt = last (d_shadow_roots d) in
        if \<not> sr_static_emitted rt
        then Inl (Invariant ''routed styles reached a ShadowRoot before its static style hook'')
        else (case find (\<lambda>(n, i). i = sr_component_index rt) (e_component_index e) of
                None \<Rightarrow> Inl (Invariant ''active Shadow style root lost its protocol index'')
              | Some (root_name, _) \<Rightarrow> (case map_of (p_style_closures (e_protocol e)) root_name of
                  None \<Rightarrow> Inl (Invariant (''component style closure metadata is missing Shadow root `'' @ root_name @ ''`''))
                | Some c \<Rightarrow> Inr (Some c)))
      else Inr None)"

text \<open>Whether a routed resource still has to be written into the active shadow root; it is recorded there.\<close>

definition admit_routed :: "u32 \<Rightarrow> 'w doc \<Rightarrow> (handler_error, bool) result \<times> 'w doc" where
  "admit_routed i d =
     (if d_shadow_roots d = []
      then (Inl (Invariant ''active Shadow style root disappeared during routed style delivery''), d)
      else let rt = last (d_shadow_roots d) in
        if i \<in> set (sr_routed rt) then (Inr False, d)
        else (Inr True, d\<lparr>d_shadow_roots := butlast (d_shadow_roots d) @ [rt\<lparr>sr_routed := sr_routed rt @ [i]\<rparr>]\<rparr>))"

definition admit_unit ::
  "'w env \<Rightarrow> style_closure option \<Rightarrow> style_closure_unit_value \<Rightarrow> 'w doc \<Rightarrow> (handler_error, bool) result \<times> 'w doc" where
  "admit_unit e static_closure u d = (case static_closure of
     None \<Rightarrow> (Inr True, d)
   | Some sc \<Rightarrow> (case unit_chunk u of
       Some i \<Rightarrow> if i \<in> set (sc_style_chunks sc) then (Inr False, d) else admit_routed i d
     | None \<Rightarrow>
         if unit_name u \<in> set (sc_component_tags sc) then (Inr False, d)
         else (case map_of (e_component_index e) (unit_name u) of
                 None \<Rightarrow> (Inl (Invariant (''component style resource `'' @ unit_name u @ ''` is missing its protocol index'')), d)
               | Some i \<Rightarrow> admit_routed i d)))"

definition write_style_unit :: "'w env \<Rightarrow> string \<Rightarrow> string \<Rightarrow> 'w doc act" where
  "write_style_unit e name resource = (case css_strategy (e_protocol e) of
     Link \<Rightarrow> seq [
       put e (dq ''<link rel=~stylesheet~ href=~''),
       write_asset_href e (effective_asset_base (e_inject e) (e_protocol e)) resource,
       put e (dq ''~ data-webui-resource=~''), put e (enc name), put e (dq ''~ data-webui-strategy=~link~>'')]
   | strategy \<Rightarrow> seq [
       put e ''<style'', write_nonce e,
       put e (dq '' data-webui-resource=~''), put e (enc name), put e (dq ''~ data-webui-strategy=~''),
       put e (if strategy = Module then ''module'' else ''style''), put e (dq ''~>''),
       (if name \<in> set (e_style_escape e) then wr (write_style_text (e_put e) resource) else put e resource),
       put e ''</style>''])"

text \<open>The text of a unit position or a chunk index in an error message.\<close>

definition nat_text :: "nat \<Rightarrow> string" where
  "nat_text n = (if n = 0 then ''0'' else usize_loop n [])"

fun style_units_loop ::
  "'w env \<Rightarrow> string \<Rightarrow> style_closure \<Rightarrow> style_closure option \<Rightarrow> bool \<Rightarrow> nat list \<Rightarrow> emitted_style_units \<Rightarrow> 'w doc act" where
  "style_units_loop e rt c static_closure is_document [] em d = (Inr (), d)"
| "style_units_loop e rt c static_closure is_document (n # ns) em d =
     (case style_closure_unit (e_protocol e) c (e_chunk_index e) n of
        None \<Rightarrow> (Inl (Invariant (''component style closure `'' @ rt @ ''` references out-of-range unit '' @ nat_text n)), d)
      | Some u \<Rightarrow>
          (case emitted_insert (unit_name u) em of
             (False, em') \<Rightarrow> style_units_loop e rt c static_closure is_document ns em' d
           | (True, em') \<Rightarrow>
               (case unit_resource u of
                  None \<Rightarrow> (Inl (Invariant (case unit_chunk u of
                      Some i \<Rightarrow> ''component style closure `'' @ rt @ ''` references missing style chunk '' @ nat_text (unat i)
                    | None \<Rightarrow> ''component style closure `'' @ rt @ ''` references missing resource `'' @ unit_name u @ ''`'')), d)
                | Some resource \<Rightarrow>
                    if is_document \<and> unit_name u \<in> d_doc_styles d
                    then style_units_loop e rt c static_closure is_document ns em' d
                    else
                      (case admit_unit e static_closure u
                          (if is_document then d\<lparr>d_doc_styles := insert (unit_name u) (d_doc_styles d)\<rparr> else d) of
                         (Inl err, d') \<Rightarrow> (Inl err, d')
                       | (Inr False, d') \<Rightarrow> style_units_loop e rt c static_closure is_document ns em' d'
                       | (Inr True, d') \<Rightarrow>
                           and_then (write_style_unit e (unit_name u) resource)
                             (style_units_loop e rt c static_closure is_document ns em') d'))))"

definition emit_component_style_closure :: "'w env \<Rightarrow> string \<Rightarrow> style_closure_install \<Rightarrow> 'w doc act" where
  "emit_component_style_closure e rt install d =
     (if p_style_closures (e_protocol e) = [] then (Inr (), d)
      else (case shadow_static_closure e install d of
        Inl err \<Rightarrow> (Inl err, d)
      | Inr static_closure \<Rightarrow> (case map_of (p_style_closures (e_protocol e)) rt of
          None \<Rightarrow> (Inl (Invariant (''component style closure metadata is missing root `'' @ rt @ ''`'')), d)
        | Some c \<Rightarrow> style_units_loop e rt c static_closure (d_shadow_roots d = []) [0..<style_closure_unit_count c] emitted_new d)))"

definition process_shadow_style_signal :: "'w env \<Rightarrow> string \<Rightarrow> 'w doc act" where
  "process_shadow_style_signal e rt d = (case map_of (e_component_index e) rt of
     None \<Rightarrow> (Inl (Invariant (''Shadow style hook `'' @ rt @ ''` references an unknown component'')), d)
   | Some i \<Rightarrow>
       if d_shadow_roots d = [] \<or> sr_component_index (last (d_shadow_roots d)) \<noteq> i
       then (Inl (Invariant (''Shadow style hook `'' @ rt @ ''` does not match the active component root'')), d)
       else and_then (emit_component_style_closure e rt InstallStatic)
         (\<lambda>d. if d_shadow_roots d = []
           then (Inl (Invariant ''active Shadow style root disappeared after its static style hook''), d)
           else (Inr (), d\<lparr>d_shadow_roots := butlast (d_shadow_roots d) @
             [(last (d_shadow_roots d))\<lparr>sr_static_emitted := True\<rparr>]\<rparr>)) d)"

section \<open>Route styles and preloads\<close>

fun preload_units_loop ::
  "'w env \<Rightarrow> style_closure \<Rightarrow> nat list \<Rightarrow> u32 list \<Rightarrow> 'w doc \<Rightarrow> (handler_error, u32 list) result \<times> 'w doc" where
  "preload_units_loop e c [] preloaded d = (Inr preloaded, d)"
| "preload_units_loop e c (n # ns) preloaded d =
     (case style_closure_unit (e_protocol e) c (e_chunk_index e) n of
        None \<Rightarrow> preload_units_loop e c ns preloaded d
      | Some u \<Rightarrow> (case unit_resource u of
          None \<Rightarrow> preload_units_loop e c ns preloaded d
        | Some href \<Rightarrow>
            if unit_name u \<in> d_doc_styles d then preload_units_loop e c ns preloaded d
            else (case map_of (e_style_resource_index e) (unit_name u) of
              None \<Rightarrow> preload_units_loop e c ns preloaded d
            | Some i \<Rightarrow>
                if i \<in> set preloaded then preload_units_loop e c ns preloaded d
                else (case seq [
                    put e (dq ''<link rel=~preload~ as=~style~ href=~''),
                    write_asset_href e (effective_asset_base (e_inject e) (e_protocol e)) href,
                    put e (dq ''~>'')] d of
                  (Inl err, d') \<Rightarrow> (Inl err, d')
                | (Inr _, d') \<Rightarrow> preload_units_loop e c ns (preloaded @ [i]) d'))))"

definition emit_component_style_preloads ::
  "'w env \<Rightarrow> string \<Rightarrow> u32 list \<Rightarrow> 'w doc \<Rightarrow> (handler_error, u32 list) result \<times> 'w doc" where
  "emit_component_style_preloads e rt preloaded d = (case map_of (p_style_closures (e_protocol e)) rt of
     None \<Rightarrow> (Inr preloaded, d)
   | Some c \<Rightarrow> preload_units_loop e c [0..<style_closure_unit_count c] preloaded d)"

fun route_styles_loop ::
  "'w env \<Rightarrow> (string \<times> bool) list \<Rightarrow> u32 list \<Rightarrow> 'w doc \<Rightarrow> (handler_error, u32 list) result \<times> 'w doc" where
  "route_styles_loop e [] preloaded d = (Inr preloaded, d)"
| "route_styles_loop e ((tag, targets_document) # es) preloaded d =
     (if targets_document then
        (case emit_component_style_closure e tag InstallStatic d of
           (Inl err, d') \<Rightarrow> (Inl err, d')
         | (Inr _, d') \<Rightarrow> route_styles_loop e es preloaded d')
      else if css_strategy (e_protocol e) \<noteq> Link then route_styles_loop e es preloaded d
      else (case emit_component_style_preloads e tag preloaded d of
           (Inl err, d') \<Rightarrow> (Inl err, d')
         | (Inr preloaded', d') \<Rightarrow> route_styles_loop e es preloaded' d'))"

definition emit_active_route_styles ::
  "'w env \<Rightarrow> u32 list \<Rightarrow> 'w doc \<Rightarrow> (handler_error, u32 list) result \<times> 'w doc" where
  "emit_active_route_styles e preloaded d =
     (case e_route_plan e of (chain, document_targets) \<Rightarrow>
        if length chain \<noteq> length document_targets
        then (Inl (Invariant (''matched route style target count '' @ nat_text (length document_targets) @
          '' does not match route count '' @ nat_text (length chain))), d)
        else route_styles_loop e (zip chain document_targets) preloaded d)"

fun reachable_preloads_loop ::
  "'w env \<Rightarrow> string list \<Rightarrow> u32 list \<Rightarrow> 'w doc act" where
  "reachable_preloads_loop e [] preloaded d = (Inr (), d)"
| "reachable_preloads_loop e (tag # tags) preloaded d =
     (if component_uses_shadow_dom (e_protocol e) tag then
        (case emit_component_style_preloads e tag preloaded d of
           (Inl err, d') \<Rightarrow> (Inl err, d')
         | (Inr preloaded', d') \<Rightarrow> reachable_preloads_loop e tags preloaded' d')
      else reachable_preloads_loop e tags preloaded d)"

definition emit_reachable_shadow_preloads :: "'w env \<Rightarrow> u32 list \<Rightarrow> 'w doc act" where
  "emit_reachable_shadow_preloads e preloaded d =
     (if css_strategy (e_protocol e) \<noteq> Link then (Inr (), d)
      else (case e_reachable e of
        Inl err \<Rightarrow> (Inl err, d)
      | Inr reachable \<Rightarrow> reachable_preloads_loop e reachable preloaded d))"

section \<open>Structural hooks\<close>

definition emit_document_styles :: "'w env \<Rightarrow> 'w doc act" where
  "emit_document_styles e = when_do (p_style_closures (e_protocol e) \<noteq> []) (seq [
     emit_component_style_closure e (e_entry_id e) InstallStatic,
     (\<lambda>d. case emit_active_route_styles e [] d of
        (Inl err, d') \<Rightarrow> (Inl err, d')
      | (Inr preloaded, d') \<Rightarrow> emit_reachable_shadow_preloads e preloaded d')])"

definition head_end_hook :: "'w env \<Rightarrow> 'w doc act" where
  "head_end_hook e = seq [
     opt_do (e_nonce e) (\<lambda>n. seq [put e (dq ''<meta name=~webui-nonce~ content=~''), put e (enc n), put e (dq ''~>'')]),
     opt_do (effective_asset_base (e_inject e) (e_protocol e)) (\<lambda>b. seq [
       put e (dq ''<meta name=~webui-asset-base~ content=~''), put_escaped e b, put e (dq ''~>'')]),
     when_do (p_component_render_css (e_protocol e) \<noteq> []) (seq [
       put e ''<style data-webui-render-policy'', write_nonce e, put e ''>'',
       put e (p_component_render_css (e_protocol e)), put e ''</style>'']),
     emit_document_styles e,
     seq (map (\<lambda>href. seq [put e (dq ''<link rel=~modulepreload~ href=~''), put e href, put e (dq ''~''),
       write_nonce e, put e ''>'']) (p_module_preloads (e_protocol e))),
     write_component_asset_styles e,
     opt_do (e_head_inject e) (put e),
     opt_do (inj_head_end (e_inject e)) (put e)]"

definition body_start_hook :: "'w env \<Rightarrow> 'w doc act" where
  "body_start_hook e = seq [write_component_asset_styles e, opt_do (inj_body_start (e_inject e)) (put e)]"

definition body_end_hook :: "'w env \<Rightarrow> 'w doc act" where
  "body_end_hook e = seq [opt_do (e_body_inject e) (put e), opt_do (inj_body_end (e_inject e)) (put e)]"

text \<open>\<open>process_raw_signal\<close> on a structural value; each hook fires once per render.\<close>

definition process_structural_signal :: "'w env \<Rightarrow> string \<Rightarrow> 'w doc act" where
  "process_structural_signal e v d = (case strip_prefix ''shadow_styles:'' v of
     Some rt \<Rightarrow> process_shadow_style_signal e rt d
   | None \<Rightarrow>
       if v = ''head_end'' \<and> \<not> d_head_end d then head_end_hook e (d\<lparr>d_head_end := True\<rparr>)
       else if v = ''body_start'' \<and> \<not> d_body_start d then body_start_hook e (d\<lparr>d_body_start := True\<rparr>)
       else if v = ''body_end'' \<and> \<not> d_body_end d then body_end_hook e (d\<lparr>d_body_end := True\<rparr>)
       else (Inr (), d))"

section \<open>Route elements\<close>

definition write_interaction_marker :: "'w env \<Rightarrow> string \<Rightarrow> 'w doc act" where
  "write_interaction_marker e tag = (case map_of (p_components (e_protocol e)) tag of
     Some c \<Rightarrow> when_do (cd_work_policy c = 3 \<or> cd_work_policy c = 4) (put e '' data-webui-interaction'')
   | None \<Rightarrow> act_ok)"

definition write_route_navigation_attrs :: "'w env \<Rightarrow> web_ui_route \<Rightarrow> 'w doc act" where
  "write_route_navigation_attrs e r = seq [
     when_do (route_pending_component r \<noteq> [])
       (seq [put e (dq '' pending=~''), put e (route_pending_component r), put e (dq ''~'')]),
     when_do (route_error_component r \<noteq> [])
       (seq [put e (dq '' error=~''), put e (route_error_component r), put e (dq ''~'')]),
     when_do (route_keep_alive r) (put e '' keep-alive'')]"

definition write_hidden_routes :: "'w env \<Rightarrow> web_ui_route list \<Rightarrow> 'w doc act" where
  "write_hidden_routes e rs = seq (map (\<lambda>r. when_do (route_fragment_id r \<noteq> []) (seq [
     put e (dq ''<webui-route path=~''), put e (route_path r), put e (dq ''~ component=~''),
     put e (route_fragment_id r), put e (dq ''~''), when_do (route_exact r) (put e '' exact''),
     write_route_navigation_attrs e r, put e (dq '' style=~display:none~></webui-route>'')])) rs)"

text \<open>The opening of an active route element; the counter gives it its \<open>data-ri\<close>.\<close>

definition write_route_index :: "'w env \<Rightarrow> 'w doc act" where
  "write_route_index e d =
     seq [put e (dq '' data-ri=~''), write_usize e (d_route_chain_index d), put e (dq ''~ active>'')]
       (d\<lparr>d_route_chain_index := d_route_chain_index d + 1\<rparr>)"

end
