(* ===== verification/Render_Core.thy ===== *)
theory Render_Core
  imports Render_Doc
begin

text \<open>
  The interpreter of \<open>crates/webui-handler/src/lib.rs\<close>: \<open>process_fragment_target\<close> and what it
  calls for each fragment, with the scope part of \<open>WebUIProcessContext\<close> as explicit state.
  The recursion follows the fragment graph of the protocol, which may be cyclic, so it takes
  fuel: the number of nested \<open>process_fragment_target\<close> calls.  Running out of it is the outcome
  \<open>OutOfFuel\<close>, apart from every error of the program.
\<close>

section \<open>Outcomes and sequencing\<close>

datatype stop = Failed handler_error | OutOfFuel

type_synonym 's run = "'s \<Rightarrow> (stop, unit) result \<times> 's"

definition run_ok :: "'s run" where
  "run_ok s = (Inr (), s)"

definition run_fail :: "handler_error \<Rightarrow> 's run" where
  "run_fail err s = (Inl (Failed err), s)"

definition run_then :: "'s run \<Rightarrow> 's run \<Rightarrow> 's run" where
  "run_then a b s = (case a s of (Inl x, s') \<Rightarrow> (Inl x, s') | (Inr _, s') \<Rightarrow> b s')"

definition runs :: "'s run list \<Rightarrow> 's run" where
  "runs as = foldr run_then as run_ok"

definition run_when :: "bool \<Rightarrow> 's run \<Rightarrow> 's run" where
  "run_when b a = (if b then a else run_ok)"

section \<open>The context\<close>

record 'w ctx =
  c_doc :: "'w doc"
  c_local_vars :: "json scope_map"
  c_local_borrowed :: "json borrowed_scope"
  c_loop_vars :: "loop_binding list"
  c_visible :: visible_loop_scope
  c_attrs :: "json scope_map"
  c_borrowed_attrs :: "json borrowed_scope"
  c_collecting :: bool
  c_scope_pool :: "json scope_map list"
  c_borrowed_pool :: "json borrowed_scope list"

definition doc_do :: "'w doc act \<Rightarrow> 'w ctx run" where
  "doc_do a c = (case a (c_doc c) of
     (Inl err, d) \<Rightarrow> (Inl (Failed err), c\<lparr>c_doc := d\<rparr>)
   | (Inr _, d) \<Rightarrow> (Inr (), c\<lparr>c_doc := d\<rparr>))"

definition doc_read :: "('w doc \<Rightarrow> 'w ctx run) \<Rightarrow> 'w ctx run" where
  "doc_read f c = f (c_doc c) c"

definition resolve_in_ctx :: "'w env \<Rightarrow> 'w ctx \<Rightarrow> string \<Rightarrow> json cow option" where
  "resolve_in_ctx e c path =
     resolve_value_from_sources path (c_loop_vars c) (c_visible c) (c_local_vars c) (c_local_borrowed c) (e_state e)"

definition resolve_value_owned :: "'w env \<Rightarrow> 'w ctx \<Rightarrow> string \<Rightarrow> json option" where
  "resolve_value_owned e c path = map_option cow_value (resolve_in_ctx e c path)"

definition state_backed_in_ctx :: "'w env \<Rightarrow> 'w ctx \<Rightarrow> string \<Rightarrow> json option" where
  "state_backed_in_ctx e c path =
     resolve_state_backed_value path (c_loop_vars c) (c_visible c) (c_local_vars c) (c_local_borrowed c) (e_state e)"

definition condition_in_ctx :: "'w env \<Rightarrow> 'w ctx \<Rightarrow> condition_expr \<Rightarrow> (handler_error, bool) result" where
  "condition_in_ctx e c = evaluate_condition (e_show e) (resolve_value_owned e c)"

section \<open>Signals and attributes\<close>

definition process_state_signal :: "'w env \<Rightarrow> web_ui_signal \<Rightarrow> 'w ctx run" where
  "process_state_signal e s c = (case resolve_in_ctx e c (signal_value s) of
     Some v \<Rightarrow> doc_do (write_signal_value e (cow_value v) (signal_raw s)) c
   | None \<Rightarrow> run_ok c)"

definition process_signal :: "'w env \<Rightarrow> web_ui_signal \<Rightarrow> 'w ctx run" where
  "process_signal e s =
     (if signal_raw s then
        (case structural_signal_value s of
           None \<Rightarrow> process_state_signal e s
         | Some v \<Rightarrow> doc_do (process_structural_signal e v))
      else process_state_signal e s)"

text \<open>The list behind a slot, or behind an identifier when there is no prepared slot.\<close>

definition target_list :: "'w env \<Rightarrow> nat option \<Rightarrow> string \<Rightarrow> render_fragment_list option" where
  "target_list e target fid =
     Option.bind (case target of Some t \<Rightarrow> Some t | None \<Rightarrow> ri_index (e_index e) fid) (ri_list (e_protocol e) (e_index e))"

definition template_piece :: "'w env \<Rightarrow> (string \<Rightarrow> json option) \<Rightarrow> web_ui_fragment \<Rightarrow> string" where
  "template_piece e resolve f = (case f of
     Some (FRaw value) \<Rightarrow> value
   | Some (FSignal s) \<Rightarrow> (case resolve (signal_value s) of
       None \<Rightarrow> []
     | Some (JString t) \<Rightarrow> t
     | Some other \<Rightarrow> (case format_plain_json_scalar (e_number e) other of Some t \<Rightarrow> t | None \<Rightarrow> e_json e other))
   | _ \<Rightarrow> [])"

definition render_template_attr_value ::
  "'w env \<Rightarrow> string \<Rightarrow> nat option \<Rightarrow> 'w ctx \<Rightarrow> (handler_error, string) result" where
  "render_template_attr_value e template_id target c = (case target_list e target template_id of
     None \<Rightarrow> Inl (MissingFragment template_id)
   | Some l \<Rightarrow> Inr (concat (map (template_piece e (resolve_value_owned e c)) (rl_fragments l))))"

definition write_template_attribute :: "'w env \<Rightarrow> web_ui_attribute \<Rightarrow> nat option \<Rightarrow> 'w ctx run" where
  "write_template_attribute e a target c = (case render_template_attr_value e (attr_template a) target c of
     Inl err \<Rightarrow> run_fail err c
   | Inr value \<Rightarrow> doc_do (wr (e_put_escaped_attribute e (attr_name a) value)) c)"

definition missing_component_attr_name_error :: handler_error where
  "missing_component_attr_name_error = Invariant ''prepared component attribute name is missing''"

text \<open>The two ways an attribute enters the scope of the component it belongs to.\<close>

definition set_owned_attr :: "string option \<Rightarrow> json \<Rightarrow> 'w ctx run" where
  "set_owned_attr component_name value c = (case component_name of
     None \<Rightarrow> run_fail missing_component_attr_name_error c
   | Some name \<Rightarrow> (Inr (), c\<lparr>c_borrowed_attrs := snd (scope_remove name (c_borrowed_attrs c)),
       c_attrs := snd (owned_insert name value (c_attrs c))\<rparr>))"

definition set_borrowed_attr :: "string option \<Rightarrow> json \<Rightarrow> 'w ctx run" where
  "set_borrowed_attr component_name value c = (case component_name of
     None \<Rightarrow> run_fail missing_component_attr_name_error c
   | Some name \<Rightarrow> (Inr (), c\<lparr>c_attrs := remove_owned_component_attr (c_attrs c) name,
       c_borrowed_attrs := snd (scope_insert name value (c_borrowed_attrs c))\<rparr>))"

definition write_dynamic_value :: "'w env \<Rightarrow> string \<Rightarrow> json option \<Rightarrow> 'w doc act" where
  "write_dynamic_value e name value = (case value of
     Some (JString s) \<Rightarrow> wr (e_put_escaped_attribute e name s)
   | Some JNull \<Rightarrow> act_ok
   | None \<Rightarrow> act_ok
   | Some other \<Rightarrow> (case format_plain_json_scalar (e_number e) other of
       Some rendered \<Rightarrow> wr (e_put_attribute e name rendered)
     | None \<Rightarrow> wr (e_put_escaped_attribute e name (e_json e other))))"

definition process_complex_attribute :: "'w env \<Rightarrow> web_ui_attribute \<Rightarrow> string option \<Rightarrow> 'w ctx run" where
  "process_complex_attribute e a component_name c =
     (if c_collecting c \<and> \<not> attr_skip a then
        (case state_backed_in_ctx e c (attr_value a) of
           Some value \<Rightarrow> set_borrowed_attr component_name value c
         | None \<Rightarrow> (case resolve_value_owned e c (attr_value a) of
             Some value \<Rightarrow> set_owned_attr component_name value c
           | None \<Rightarrow> run_ok c))
      else run_ok c)"

definition process_dynamic_attribute :: "'w env \<Rightarrow> web_ui_attribute \<Rightarrow> string option \<Rightarrow> 'w ctx run" where
  "process_dynamic_attribute e a component_name c =
     (let collect = c_collecting c \<and> \<not> attr_skip a;
          backed = (if collect then state_backed_in_ctx e c (attr_value a) else None);
          value = (case backed of Some v \<Rightarrow> Some v | None \<Rightarrow> resolve_value_owned e c (attr_value a)) in
      run_then (doc_do (write_dynamic_value e (attr_name a) value))
        (run_when collect (case backed of
           Some v \<Rightarrow> set_borrowed_attr component_name v
         | None \<Rightarrow> set_owned_attr component_name (case value of Some v \<Rightarrow> v | None \<Rightarrow> JString []))) c)"

definition attr_begin :: "web_ui_attribute \<Rightarrow> 'w ctx \<Rightarrow> 'w ctx" where
  "attr_begin a c = (if attr_start a
     then c\<lparr>c_attrs := [], c_borrowed_attrs := scope_clear (c_borrowed_attrs c), c_collecting := True\<rparr> else c)"

definition process_attribute_body ::
  "'w env \<Rightarrow> web_ui_attribute \<Rightarrow> nat option \<Rightarrow> string option \<Rightarrow> 'w ctx run" where
  "process_attribute_body e a target component_name c =
     (let collect = c_collecting c \<and> \<not> attr_skip a in
      case attr_condition_tree a of
        Some condition \<Rightarrow> (case condition_in_ctx e c condition of
          Inl err \<Rightarrow> run_fail err c
        | Inr met \<Rightarrow> run_then (run_when collect (set_owned_attr component_name (JBool met)))
            (doc_do (when_do met (seq [put e '' '', put e (attr_name a)]))) c)
      | None \<Rightarrow>
          if attr_template a \<noteq> [] then
            (if \<not> c_collecting c \<or> attr_skip a then write_template_attribute e a target c
             else (case render_template_attr_value e (attr_template a) target c of
               Inl err \<Rightarrow> run_fail err c
             | Inr raw_value \<Rightarrow> run_then (doc_do (wr (e_put_escaped_attribute e (attr_name a) raw_value)))
                 (run_when collect (set_owned_attr component_name (JString raw_value))) c))
          else if attr_raw_value a \<or> attr_value a \<noteq> [] then
            (if attr_raw_value a then
               run_then (doc_do (wr (e_put_escaped_attribute e (attr_name a) (attr_value a))))
                 (run_when collect (set_owned_attr component_name (JString (attr_value a)))) c
             else if attr_complex a then process_complex_attribute e a component_name c
             else process_dynamic_attribute e a component_name c)
          else run_ok c)"

definition process_attribute :: "'w env \<Rightarrow> web_ui_attribute \<Rightarrow> nat option \<Rightarrow> string option \<Rightarrow> 'w ctx run" where
  "process_attribute e a target component_name c = process_attribute_body e a target component_name (attr_begin a c)"

section \<open>Conditions and loops\<close>

text \<open>In the following \<open>rec\<close> is \<open>process_fragment_target\<close>.\<close>

definition process_if :: "'w env \<Rightarrow> (nat option \<Rightarrow> string \<Rightarrow> 'w ctx run) \<Rightarrow> web_ui_if \<Rightarrow> nat option \<Rightarrow> 'w ctx run" where
  "process_if e rec i target c = (case if_condition i of
     None \<Rightarrow> run_fail (Rendering ''If fragment missing condition'') c
   | Some condition \<Rightarrow> (case condition_in_ctx e c condition of
       Inl err \<Rightarrow> run_fail err c
     | Inr met \<Rightarrow> run_when met (rec target (if_fragment_id i)) c))"

fun borrowed_items_loop ::
  "(nat option \<Rightarrow> string \<Rightarrow> 'w ctx run) \<Rightarrow> web_ui_for \<Rightarrow> nat option \<Rightarrow> visible_loop_scope \<Rightarrow> json list \<Rightarrow> 'w ctx run" where
  "borrowed_items_loop rec l target saved_scope [] c = run_ok c"
| "borrowed_items_loop rec l target saved_scope (item # items) c =
     (let loop_vars = c_loop_vars c @ [(for_item l, item)] in
      case rec target (for_fragment_id l)
          (c\<lparr>c_loop_vars := loop_vars, c_visible := (c_visible c)\<lparr>v_end := length loop_vars\<rparr>\<rparr>) of
        (Inl x, c') \<Rightarrow> (Inl x, c')
      | (Inr _, c') \<Rightarrow> borrowed_items_loop rec l target saved_scope items
          (c'\<lparr>c_loop_vars := butlast (c_loop_vars c'), c_visible := saved_scope\<rparr>))"

definition restore_owned :: "string \<Rightarrow> json option \<Rightarrow> 'w ctx \<Rightarrow> 'w ctx" where
  "restore_owned name saved c = (case saved of
     Some v \<Rightarrow> c\<lparr>c_local_vars := snd (owned_insert name v (c_local_vars c))\<rparr>
   | None \<Rightarrow> c)"

definition restore_borrowed :: "string \<Rightarrow> json option \<Rightarrow> 'w ctx \<Rightarrow> 'w ctx" where
  "restore_borrowed name saved c = (case saved of
     Some v \<Rightarrow> c\<lparr>c_local_borrowed := snd (scope_insert name v (c_local_borrowed c))\<rparr>
   | None \<Rightarrow> c)"

definition process_borrowed_for_loop ::
  "(nat option \<Rightarrow> string \<Rightarrow> 'w ctx run) \<Rightarrow> web_ui_for \<Rightarrow> nat option \<Rightarrow> json list \<Rightarrow> 'w ctx run" where
  "process_borrowed_for_loop rec l target items c =
     (case owned_remove (for_item l) (c_local_vars c) of (saved_value, local_vars) \<Rightarrow>
      case scope_remove (for_item l) (c_local_borrowed c) of (saved_borrowed_value, local_borrowed) \<Rightarrow>
      case borrowed_items_loop rec l target (c_visible c) items
          (c\<lparr>c_local_vars := local_vars, c_local_borrowed := local_borrowed\<rparr>) of
        (Inl x, c') \<Rightarrow> (Inl x, c')
      | (Inr _, c') \<Rightarrow> (Inr (),
          restore_borrowed (for_item l) saved_borrowed_value (restore_owned (for_item l) saved_value c')))"

fun owned_items_loop ::
  "(nat option \<Rightarrow> string \<Rightarrow> 'w ctx run) \<Rightarrow> web_ui_for \<Rightarrow> nat option \<Rightarrow> json list \<Rightarrow> 'w ctx run" where
  "owned_items_loop rec l target [] c = run_ok c"
| "owned_items_loop rec l target (item # items) c =
     (case rec target (for_fragment_id l)
          (if map_of (c_local_vars c) (for_item l) \<noteq> None
           then c\<lparr>c_local_vars := AList.update (for_item l) item (c_local_vars c)\<rparr> else c) of
        (Inl x, c') \<Rightarrow> (Inl x, c')
      | (Inr _, c') \<Rightarrow> owned_items_loop rec l target items c')"

definition process_owned_for_loop ::
  "'w env \<Rightarrow> (nat option \<Rightarrow> string \<Rightarrow> 'w ctx run) \<Rightarrow> web_ui_for \<Rightarrow> nat option \<Rightarrow> 'w ctx run" where
  "process_owned_for_loop e rec l target c =
     (case (case resolve_value_owned e c (for_collection l) of
              Some (JArray xs) \<Rightarrow> Inr xs
            | Some _ \<Rightarrow> Inl (HTypeError (''Collection '' @ [CHR 0x27] @ for_collection l @ [CHR 0x27] @ '' is not an array''))
            | None \<Rightarrow> Inr []) of
        Inl err \<Rightarrow> run_fail err c
      | Inr items \<Rightarrow>
          (case owned_remove (for_item l) (c_local_vars c) of (saved_value, local_vars) \<Rightarrow>
           case scope_remove (for_item l) (c_local_borrowed c) of (saved_borrowed_value, local_borrowed) \<Rightarrow>
           case owned_items_loop rec l target items
               (c\<lparr>c_local_vars := (if items \<noteq> [] then snd (owned_insert (for_item l) JNull local_vars) else local_vars),
                  c_local_borrowed := local_borrowed\<rparr>) of
             (Inl x, c') \<Rightarrow> (Inl x, c')
           | (Inr _, c') \<Rightarrow> (Inr (), restore_borrowed (for_item l) saved_borrowed_value
               (c'\<lparr>c_local_vars := (case saved_value of
                  Some v \<Rightarrow> snd (owned_insert (for_item l) v (c_local_vars c'))
                | None \<Rightarrow> snd (owned_remove (for_item l) (c_local_vars c')))\<rparr>))))"

definition process_for_loop ::
  "'w env \<Rightarrow> (nat option \<Rightarrow> string \<Rightarrow> 'w ctx run) \<Rightarrow> web_ui_for \<Rightarrow> nat option \<Rightarrow> 'w ctx run" where
  "process_for_loop e rec l target c =
     (case resolve_borrowed_collection (for_collection l) (c_loop_vars c) (c_visible c) (c_local_vars c)
         (c_local_borrowed c) (e_state e) of
        Some items \<Rightarrow> process_borrowed_for_loop rec l target items c
      | None \<Rightarrow> process_owned_for_loop e rec l target c)"

section \<open>Components\<close>

definition mark_rendered :: "'w env \<Rightarrow> string \<Rightarrow> 'w doc act" where
  "mark_rendered e fid d =
     (if fid \<in> d_rendered d then (Inr (), d)
      else and_then (emit_css_module e fid) (\<lambda>d. (Inr (), d\<lparr>d_rendered := insert fid (d_rendered d)\<rparr>)) d)"

text \<open>The context the body of a component is rendered in, and the parent's once it is done.\<close>

definition enter_component :: "'w ctx \<Rightarrow> 'w ctx" where
  "enter_component c =
     (case take_scope_map (c_scope_pool c) of (fresh, pool) \<Rightarrow>
      case take_borrowed_scope (c_borrowed_pool c) of (borrowed_fresh, borrowed_pool) \<Rightarrow>
        c\<lparr>c_attrs := fresh, c_scope_pool := pool, c_borrowed_attrs := borrowed_fresh, c_borrowed_pool := borrowed_pool,
          c_local_vars := c_attrs c, c_local_borrowed := c_borrowed_attrs c, c_collecting := False,
          c_visible := \<lparr>v_start = length (c_loop_vars c), v_end = length (c_loop_vars c)\<rparr>\<rparr>)"

definition leave_component :: "'w ctx \<Rightarrow> 'w ctx \<Rightarrow> 'w ctx" where
  "leave_component saved c =
     c\<lparr>c_local_vars := c_local_vars saved, c_scope_pool := recycle_scope_map (c_scope_pool c) (c_local_vars c),
       c_local_borrowed := c_local_borrowed saved,
       c_borrowed_pool := recycle_borrowed_scope (c_borrowed_pool c) (c_local_borrowed c),
       c_attrs := [], c_borrowed_attrs := scope_clear (c_borrowed_attrs c)\<rparr>"

definition component_body :: "(nat option \<Rightarrow> string \<Rightarrow> 'w ctx run) \<Rightarrow> bool \<Rightarrow> string \<Rightarrow> nat option \<Rightarrow> 'w ctx run" where
  "component_body rec owns fid target c =
     (case rec target fid (enter_component c) of
        (Inl OutOfFuel, c') \<Rightarrow> (Inl OutOfFuel, c')
      | (render_result, c') \<Rightarrow>
          (case doc_do (if owns then pop_shadow_style_root fid else act_ok) (c'\<lparr>c_visible := c_visible c\<rparr>) of
             (Inl x, c'') \<Rightarrow> (Inl x, c'')
           | (Inr _, c'') \<Rightarrow> (case render_result of
               Inl x \<Rightarrow> (Inl x, c'')
             | Inr _ \<Rightarrow> (Inr (), leave_component c c''))))"

definition process_component ::
  "'w env \<Rightarrow> (nat option \<Rightarrow> string \<Rightarrow> 'w ctx run) \<Rightarrow> string \<Rightarrow> nat option \<Rightarrow> 'w ctx run" where
  "process_component e rec fid target =
     (let owns = component_owns_css_tree fid (e_protocol e) in
      runs [doc_do (mark_rendered e fid),
        run_when owns (doc_do (push_shadow_style_root e fid)),
        component_body rec owns fid target])"

section \<open>Routes\<close>

text \<open>
  The route fragments only touch the document.  They are written over the state \<open>'s\<close> that carries
  it: \<open>on_doc\<close> runs an action on the document, \<open>reading\<close> looks at it, \<open>descend\<close> is
  \<open>process_fragment_target\<close> without a prepared slot and \<open>component\<close> is \<open>process_component\<close> on a
  host element the handler generated.
\<close>

type_synonym ('w, 's) on_doc = "'w doc act \<Rightarrow> 's run"
type_synonym ('w, 's) reading = "('w doc \<Rightarrow> 's run) \<Rightarrow> 's run"

definition set_doc :: "('w doc \<Rightarrow> 'w doc) \<Rightarrow> 'w doc act" where
  "set_doc f d = (Inr (), f d)"

definition route_component :: "'w env \<Rightarrow> ('w, 's) on_doc \<Rightarrow> (string \<Rightarrow> 's run) \<Rightarrow> string \<Rightarrow> 's run" where
  "route_component e on_doc component fid = runs [
     on_doc (seq [put e ''<'', put e fid, write_interaction_marker e fid, put e ''>'']),
     component fid,
     on_doc (seq [put e ''</'', put e fid, put e ''>''])]"

definition route_styles :: "'w env \<Rightarrow> string \<Rightarrow> 'w doc act" where
  "route_styles e fid = when_do (\<not> component_owns_css_tree fid (e_protocol e)) (emit_component_style_closure e fid InstallRouted)"

text \<open>The inside of a matched route, with its base and its children in place.\<close>

definition matched_route ::
  "'w env \<Rightarrow> ('w, 's) on_doc \<Rightarrow> ('w, 's) reading \<Rightarrow> (string \<Rightarrow> 's run) \<Rightarrow> (string \<Rightarrow> 's run) \<Rightarrow>
   web_ui_route \<Rightarrow> route_match \<Rightarrow> 's run" where
  "matched_route e on_doc reading descend component r rm = runs [
     on_doc (write_route_index e),
     reading (\<lambda>saved. runs [
       on_doc (set_doc (\<lambda>d. d\<lparr>d_route_base := compute_route_base (e_request_path e) (consumed_segments rm),
         d_route_children := route_children r\<rparr>)),
       run_when (route_content_fragment_id r \<noteq> []) (descend (route_content_fragment_id r)),
       run_when (route_fragment_id r \<noteq> []) (runs [
         on_doc (route_styles e (route_fragment_id r)),
         route_component e on_doc component (route_fragment_id r)]),
       on_doc (set_doc (\<lambda>d. d\<lparr>d_route_base := d_route_base saved, d_route_children := d_route_children saved\<rparr>))])]"

definition process_route ::
  "'w env \<Rightarrow> ('w, 's) on_doc \<Rightarrow> ('w, 's) reading \<Rightarrow> (string \<Rightarrow> 's run) \<Rightarrow> (string \<Rightarrow> 's run) \<Rightarrow>
   web_ui_route \<Rightarrow> (string \<times> route_match) option \<Rightarrow> 's run" where
  "process_route e on_doc reading descend component r best_route = runs [
     on_doc (seq [
       put e ''<webui-route'', put e (dq '' path=~''), put e (route_path r), put e (dq ''~''),
       when_do (route_fragment_id r \<noteq> [])
         (seq [put e (dq '' component=~''), put e (route_fragment_id r), put e (dq ''~'')]),
       when_do (route_exact r) (put e '' exact''),
       write_route_navigation_attrs e r]),
     (case best_route of
        Some (best_key, rm) \<Rightarrow>
          if best_key = route_fragment_id r then matched_route e on_doc reading descend component r rm
          else on_doc (put e (dq '' style=~display:none~>''))
      | None \<Rightarrow> on_doc (put e (dq '' style=~display:none~>''))),
     on_doc (put e ''</webui-route>'')]"

text \<open>The matched child of an outlet.\<close>

definition outlet_child ::
  "'w env \<Rightarrow> ('w, 's) on_doc \<Rightarrow> ('w, 's) reading \<Rightarrow> (string \<Rightarrow> 's run) \<Rightarrow> (string \<Rightarrow> 's run) \<Rightarrow>
   web_ui_route \<Rightarrow> route_match \<Rightarrow> 's run" where
  "outlet_child e on_doc reading descend component r rm = reading (\<lambda>saved. runs [
     on_doc (set_doc (\<lambda>d. d\<lparr>d_route_base := (if consumed_segments rm > 0
         then compute_route_base (e_request_path e) (consumed_segments rm) else d_route_base d),
       d_route_children := route_children r\<rparr>)),
     on_doc (seq [
       put e ''<webui-route'', put e (dq '' path=~''), put e (route_path r), put e (dq ''~''),
       put e (dq '' component=~''), put e (route_fragment_id r), put e (dq ''~''),
       when_do (route_exact r) (put e '' exact''),
       write_route_navigation_attrs e r, write_route_index e,
       route_styles e (route_fragment_id r)]),
     run_when (route_content_fragment_id r \<noteq> []) (descend (route_content_fragment_id r)),
     route_component e on_doc component (route_fragment_id r),
     on_doc (put e ''</webui-route>''),
     on_doc (set_doc (\<lambda>d. d\<lparr>d_route_base := (if consumed_segments rm > 0 then d_route_base saved else d_route_base d),
       d_route_children := []\<rparr>))])"

definition process_outlet ::
  "'w env \<Rightarrow> ('w, 's) on_doc \<Rightarrow> ('w, 's) reading \<Rightarrow> (string \<Rightarrow> 's run) \<Rightarrow> (string \<Rightarrow> 's run) \<Rightarrow> 's run" where
  "process_outlet e on_doc reading descend component = reading (\<lambda>d. let children = d_route_children d in runs [
     on_doc (set_doc (\<lambda>d. d\<lparr>d_route_children := []\<rparr>)),
     run_when (children \<noteq> [])
       (case best_child_loop (e_routes e) (d_route_base d) (split_request_path (e_request_path e)) 0 children None of
          None \<Rightarrow> on_doc (write_hidden_routes e children)
        | Some (idx, rm) \<Rightarrow> runs [
            on_doc (write_hidden_routes e (take idx children)),
            run_when (route_fragment_id (children ! idx) \<noteq> [])
              (outlet_child e on_doc reading descend component (children ! idx) rm),
            on_doc (write_hidden_routes e (drop (idx + 1) children))])])"

section \<open>Fragment lists\<close>

definition process_item ::
  "'w env \<Rightarrow> (nat option \<Rightarrow> string \<Rightarrow> 'w ctx run) \<Rightarrow> render_fragment_list \<Rightarrow> (string \<times> route_match) option \<Rightarrow> nat \<Rightarrow>
   web_ui_fragment \<Rightarrow> 'w ctx run" where
  "process_item e rec l best_route i f = (case f of
     Some (FRaw value) \<Rightarrow> doc_do (put e value)
   | Some (FComponent fid) \<Rightarrow> process_component e rec fid (rl_target l i)
   | Some (FForLoop fl) \<Rightarrow> process_for_loop e rec fl (rl_target l i)
   | Some (FSignal s) \<Rightarrow> process_signal e s
   | Some (FIfCond ic) \<Rightarrow> process_if e rec ic (rl_target l i)
   | Some (FAttribute a) \<Rightarrow> process_attribute e a (rl_target l i) (component_attr_name l i)
   | Some (FPlugin _) \<Rightarrow> run_ok
   | Some (FRoute r) \<Rightarrow> process_route e doc_do doc_read (rec None) (\<lambda>fid. process_component e rec fid None) r best_route
   | Some FOutlet \<Rightarrow> process_outlet e doc_do doc_read (rec None) (\<lambda>fid. process_component e rec fid None)
   | Some (FBoundary _) \<Rightarrow> run_ok
   | None \<Rightarrow> run_ok)"

fun process_fragment_range ::
  "'w env \<Rightarrow> (nat option \<Rightarrow> string \<Rightarrow> 'w ctx run) \<Rightarrow> render_fragment_list \<Rightarrow> (string \<times> route_match) option \<Rightarrow> nat \<Rightarrow>
   web_ui_fragment list \<Rightarrow> 'w ctx run" where
  "process_fragment_range e rec l best_route i [] = run_ok"
| "process_fragment_range e rec l best_route i (f # fs) =
     run_then (process_item e rec l best_route i f) (process_fragment_range e rec l best_route (i + 1) fs)"

definition process_fragment_from ::
  "'w env \<Rightarrow> (nat option \<Rightarrow> string \<Rightarrow> 'w ctx run) \<Rightarrow> render_fragment_list \<Rightarrow> nat \<Rightarrow> 'w ctx run" where
  "process_fragment_from e rec l start = doc_read (\<lambda>d.
     process_fragment_range e rec l
       (if rl_has_routes l then find_best_route_match (rl_fragments l) (e_request_path e) (d_route_base d) (e_routes e) else None)
       start (drop start (rl_fragments l)))"

fun process_fragment_target :: "'w env \<Rightarrow> nat \<Rightarrow> nat option \<Rightarrow> string \<Rightarrow> 'w ctx run" where
  "process_fragment_target e 0 target fid c = (Inl OutOfFuel, c)"
| "process_fragment_target e (Suc n) target fid c = (case target_list e target fid of
     None \<Rightarrow> run_fail (MissingFragment fid) c
   | Some l \<Rightarrow> process_fragment_from e (process_fragment_target e n) l 0 c)"

end
