(* ===== verification/Render_Main.thy ===== *)
theory Render_Main
  imports Render_Core Lazy_Select
begin

text \<open>
  Loading a protocol for rendering (\<open>Protocol::new\<close> in \<open>crates/webui-handler/src/route_handler.rs\<close>)
  and the entry point \<open>WebUIHandler::render\<close> (\<open>lib.rs\<close>).  \<open>host\<close> gathers what the sources take from
  elsewhere: the writer, the JSON library and the texts of its messages.
\<close>

section \<open>Loading\<close>

fun first_error :: "('a \<Rightarrow> string option) \<Rightarrow> 'a list \<Rightarrow> string option" where
  "first_error f [] = None"
| "first_error f (x # xs) = (case f x of Some m \<Rightarrow> Some m | None \<Rightarrow> first_error f xs)"

fun closure_tags_error :: "web_ui_protocol \<Rightarrow> string \<Rightarrow> string set \<Rightarrow> string list \<Rightarrow> string option" where
  "closure_tags_error p rt seen [] = None"
| "closure_tags_error p rt seen (tag # tags) =
     (if tag \<in> seen
      then Some (''component style closure `'' @ rt @ ''` contains duplicate resource `'' @ tag @ ''`'')
      else if component_style_resource p tag = None
      then Some (''component style closure `'' @ rt @ ''` references missing resource `'' @ tag @ ''`'')
      else closure_tags_error p rt (insert tag seen) tags)"

definition shadow_hook :: "web_ui_fragment \<Rightarrow> string option" where
  "shadow_hook f = (case f of
     Some (FSignal s) \<Rightarrow> Option.bind (structural_signal_value s) (strip_prefix ''shadow_styles:'')
   | _ \<Rightarrow> None)"

definition shadow_hook_error :: "web_ui_protocol \<Rightarrow> string \<Rightarrow> web_ui_fragment \<Rightarrow> string option" where
  "shadow_hook_error p fid f = (case shadow_hook f of
     None \<Rightarrow> None
   | Some rt \<Rightarrow> (case map_of (p_components p) fid of
       None \<Rightarrow> Some (''Shadow style hook `'' @ rt @ ''` references unknown component `'' @ fid @ ''`'')
     | Some c \<Rightarrow>
         if rt \<noteq> fid \<or> \<not> uses_shadow_dom c
         then Some (''Shadow style hook `'' @ rt @ ''` does not match component fragment `'' @ fid @ ''`'')
         else None))"

definition shadow_component_error :: "web_ui_protocol \<Rightarrow> string \<times> component_data \<Rightarrow> string option" where
  "shadow_component_error p tc = (case tc of (tag, c) \<Rightarrow>
     if \<not> uses_shadow_dom c then None
     else (case map_of (p_fragments p) tag of
       None \<Rightarrow> None
     | Some fl \<Rightarrow>
         if map_of (p_style_closures p) tag = None
         then Some (''component style closure metadata is missing Shadow root `'' @ tag @ ''`'')
         else let hook_count = length (filter (\<lambda>f. shadow_hook f = Some tag) (fragments fl)) in
           if hook_count = 0
           then Some (''Shadow component `'' @ tag @ ''` is missing its compiler style insertion hook'')
           else if hook_count > 1
           then Some (''Shadow component `'' @ tag @ ''` emitted more than one style insertion hook'')
           else None))"

definition validate_component_style_metadata :: "web_ui_protocol \<Rightarrow> string option" where
  "validate_component_style_metadata p =
     (if p_style_closures p = [] then
        (if list_ex (\<lambda>(tag, c). component_style_resource p tag \<noteq> None \<or> uses_shadow_dom c) (p_components p)
         then Some ''component style closure metadata is required by this protocol'' else None)
      else case first_error (\<lambda>(rt, c). closure_tags_error p rt {} (sc_component_tags c)) (p_style_closures p) of
        Some m \<Rightarrow> Some m
      | None \<Rightarrow> (case first_error (\<lambda>(fid, fl). first_error (shadow_hook_error p fid) (fragments fl)) (p_fragments p) of
          Some m \<Rightarrow> Some m
        | None \<Rightarrow> first_error (shadow_component_error p) (p_components p)))"

text \<open>The metadata error of a loaded protocol; \<open>json_error\<close> is the JSON parser's verdict on a text.\<close>

definition style_metadata_error :: "(string \<Rightarrow> string option) \<Rightarrow> web_ui_protocol \<Rightarrow> string option" where
  "style_metadata_error json_error p = (case validate_component_style_metadata p of
     Some m \<Rightarrow> Some m
   | None \<Rightarrow> (case first_error (\<lambda>(tag, c). if cd_template_json c = [] then None
         else map_option (\<lambda>m. ''failed to parse template metadata for '' @ tag @ '': '' @ m) (json_error (cd_template_json c)))
         (p_components p) of
       Some m \<Rightarrow> Some m
     | None \<Rightarrow> first_error (\<lambda>(i, f).
         map_option (\<lambda>m. ''failed to parse template metadata for '' @ i @ '': '' @ m) (json_error (cf_template_json f)))
         (p_client_fragments p)))"

definition partition_component_asset_style_preloads ::
  "web_ui_protocol \<Rightarrow> asset_style_preload list \<Rightarrow> asset_style_preload list \<times> asset_style_preload list" where
  "partition_component_asset_style_preloads p preloads =
     (let is_light = (\<lambda>pre. case map_of (p_components p) (pre_root pre) of Some c \<Rightarrow> \<not> uses_shadow_dom c | None \<Rightarrow> False)
      in (filter (\<lambda>pre. \<not> is_light pre) preloads, filter is_light preloads))"

fun href_loop :: "string set \<Rightarrow> string list \<Rightarrow> string list" where
  "href_loop seen [] = []"
| "href_loop seen (h # hs) = (if h \<in> seen then href_loop seen hs else h # href_loop (insert h seen) hs)"

definition collect_component_asset_style_hrefs :: "asset_style_preload list \<Rightarrow> string list" where
  "collect_component_asset_style_hrefs preloads = href_loop {} (concat (map pre_style_hrefs preloads))"

definition push_escaped_html_attribute :: "string \<Rightarrow> string \<Rightarrow> string" where
  "push_escaped_html_attribute out value = out @ concat (map (\<lambda>c.
     if c = CHR ''&'' then ''&amp;'' else if c = CHR 0x22 then ''&quot;''
     else if c = CHR ''<'' then ''&lt;'' else if c = CHR ''>'' then ''&gt;'' else [c]) value)"

definition serialize_component_asset_style_links :: "string list \<Rightarrow> string" where
  "serialize_component_asset_style_links hrefs =
     foldl (\<lambda>links href. push_escaped_html_attribute (links @ dq ''<link rel=~stylesheet~ href=~'') href @ dq ''~>'') [] hrefs"

text \<open>\<open>str::replace("</", "<\/")\<close>\<close>

fun replace_end_tags :: "string \<Rightarrow> string" where
  "replace_end_tags (a # b # s) =
     (if a = CHR ''<'' \<and> b = CHR ''/'' then [CHR ''<'', CHR 0x5C, CHR ''/''] @ replace_end_tags s
      else a # replace_end_tags (b # s))"
| "replace_end_tags s = s"

definition serialize_component_asset_style_manifest :: "(json \<Rightarrow> string) \<Rightarrow> asset_style_preload list \<Rightarrow> string" where
  "serialize_component_asset_style_manifest to_json preloads =
     (if preloads = [] then []
      else replace_end_tags (to_json (JObject
        (map (\<lambda>pre. (pre_root pre, JArray (map JString (pre_style_hrefs pre)))) preloads))))"

definition numbered :: "string list \<Rightarrow> (string \<times> u32) list" where
  "numbered names = zip names (map word_of_nat [0..<length names])"

definition build_component_index :: "web_ui_protocol \<Rightarrow> (string \<times> u32) list" where
  "build_component_index p = numbered (remdups_adj (sort
     (filter (\<lambda>k. CHR ''-'' \<in> set k) (map fst (p_fragments p)) @ map fst (p_client_fragments p))))"

definition build_style_resource_index :: "web_ui_protocol \<Rightarrow> (string \<times> u32) list" where
  "build_style_resource_index p =
     (if p_style_chunks p = [] then []
      else numbered (remdups_adj (sort
        (filter (\<lambda>tag. component_style_resource p tag \<noteq> None) (map fst (p_components p)) @ map chunk_name (p_style_chunks p)))))"

text \<open>Without style chunks the resources keep the numbers of their components.\<close>

definition style_resource_index :: "web_ui_protocol \<Rightarrow> (string \<times> u32) list" where
  "style_resource_index p =
     (if build_style_resource_index p = [] then build_component_index p else build_style_resource_index p)"

definition build_style_escape_resources :: "web_ui_protocol \<Rightarrow> string list" where
  "build_style_escape_resources p =
     (if css_strategy p = Link then []
      else map fst (filter (\<lambda>(name, c). style_text_needs_escape (cd_css c)) (p_components p)) @
        map chunk_name (filter (\<lambda>ch. style_text_needs_escape (chunk_css ch)) (p_style_chunks p)))"

section \<open>Rendering\<close>

record render_options =
  o_entry_id :: string
  o_request_path :: string
  o_nonce :: "string option"
  o_head_inject :: "string option"
  o_body_inject :: "string option"

definition options_new :: "string \<Rightarrow> string \<Rightarrow> render_options" where
  "options_new entry_id request_path = \<lparr>o_entry_id = entry_id, o_request_path = request_path,
     o_nonce = None, o_head_inject = None, o_body_inject = None\<rparr>"

definition with_nonce :: "string \<Rightarrow> render_options \<Rightarrow> render_options" where
  "with_nonce n o' = o'\<lparr>o_nonce := non_empty n\<rparr>"

definition with_head_inject :: "string \<Rightarrow> render_options \<Rightarrow> render_options" where
  "with_head_inject html o' = o'\<lparr>o_head_inject := non_empty html\<rparr>"

definition with_body_inject :: "string \<Rightarrow> render_options \<Rightarrow> render_options" where
  "with_body_inject html o' = o'\<lparr>o_body_inject := non_empty html\<rparr>"

record 'w host =
  h_up :: "string \<Rightarrow> string"
  h_json :: "json \<Rightarrow> string"
  h_json_error :: "string \<Rightarrow> string option"
  h_number :: "number \<Rightarrow> string"
  h_show :: "expression_error \<Rightarrow> string"
  h_show_base :: "string \<Rightarrow> asset_base_problem_value \<Rightarrow> string"
  h_kind_text :: "json \<Rightarrow> string"
  h_put :: "string \<Rightarrow> 'w act"
  h_put_escaped :: "string \<Rightarrow> 'w act"
  h_put_attribute :: "string \<Rightarrow> string \<Rightarrow> 'w act"
  h_put_escaped_attribute :: "string \<Rightarrow> string \<Rightarrow> 'w act"
  h_end :: "'w act"

text \<open>The document a loaded protocol keeps, and what a render reads of it.\<close>

definition document :: "web_ui_protocol \<Rightarrow> web_ui_protocol" where
  "document p = p\<lparr>p_asset_style_preloads := []\<rparr>"

text \<open>The components of the route chain, in order, and which of them style the document.\<close>

definition route_plan_of :: "web_ui_protocol \<Rightarrow> string \<Rightarrow> string \<Rightarrow> route_index \<Rightarrow> string list \<times> bool list" where
  "route_plan_of p entry_id request_path index =
     (case collect_route_chain_plan p entry_id request_path index of (chain, targets) \<Rightarrow> (map rc_component chain, targets))"

text \<open>The selection of a loaded protocol does not panic (\<open>lazy_select_safe\<close>), so the last case is not met.\<close>

definition handler_result :: "'a lazy_result \<Rightarrow> (handler_error, 'a) result" where
  "handler_result r = (case r of Inr x \<Rightarrow> Inr x | Inl (LazyFailed err) \<Rightarrow> Inl err | Inl LazyPanic \<Rightarrow> Inl (Invariant ''panic''))"

definition selection_of :: "'w host \<Rightarrow> web_ui_protocol \<Rightarrow> json \<Rightarrow> render_options \<Rightarrow> selection_input" where
  "selection_of h q state opts = \<lparr>si_protocol = q, si_render = render_index (h_up h) q, si_index = [], si_state = state,
     si_entry = o_entry_id opts, si_request_path = o_request_path opts,
     si_routes = compiled_route_index (map snd (p_fragments q)),
     si_printers = \<lparr>lp_show = h_show h, lp_number = h_number h, lp_json = h_json h\<rparr>\<rparr>"

definition make_env :: "'w host \<Rightarrow> web_ui_protocol \<Rightarrow> json \<Rightarrow> render_options \<Rightarrow> state_inject \<Rightarrow> 'w env" where
  "make_env h p state opts si =
     (let q = document p;
          (shadow_preloads, light_preloads) = partition_component_asset_style_preloads q (p_asset_style_preloads p);
          hrefs = (if css_strategy q = Link then collect_component_asset_style_hrefs light_preloads else []) in
      \<lparr>e_protocol = q, e_index = render_index (h_up h) q, e_state = state,
       e_entry_id = o_entry_id opts, e_request_path = o_request_path opts,
       e_nonce = Option.bind (o_nonce opts) non_empty, e_head_inject = Option.bind (o_head_inject opts) non_empty,
       e_body_inject = Option.bind (o_body_inject opts) non_empty, e_inject = si,
       e_routes = compiled_route_index (map snd (p_fragments q)),
       e_component_index = build_component_index q, e_style_resource_index = style_resource_index q,
       e_style_escape = build_style_escape_resources q, e_chunk_index = style_chunk_index q,
       e_asset_manifest = (if css_strategy q = Link
         then serialize_component_asset_style_manifest (h_json h) shadow_preloads else []),
       e_asset_links = serialize_component_asset_style_links hrefs, e_asset_hrefs = hrefs,
       e_route_plan = route_plan_of q (o_entry_id opts) (o_request_path opts) (compiled_route_index (map snd (p_fragments q))),
       e_reachable = handler_result (request_reachable_components
         (lazy_index_new q (fragment_ids q) (fragment_slots q)) (selection_of h q state opts)),
       e_json = h_json h, e_number = h_number h, e_show = h_show h,
       e_put = h_put h, e_put_escaped = h_put_escaped h, e_put_attribute = h_put_attribute h,
       e_put_escaped_attribute = h_put_escaped_attribute h, e_end = h_end h\<rparr>)"

definition initial_doc :: "'w \<Rightarrow> 'w doc" where
  "initial_doc w = \<lparr>d_writer = w, d_route_base = ''/'', d_rendered = {}, d_route_children = [],
     d_head_end = False, d_body_start = False, d_asset_styles = False, d_body_end = False,
     d_route_chain_index = 0, d_doc_styles = {}, d_shadow_roots = []\<rparr>"

definition initial_ctx :: "'w \<Rightarrow> 'w ctx" where
  "initial_ctx w = \<lparr>c_doc = initial_doc w, c_local_vars = [], c_local_borrowed = scope_default,
     c_loop_vars = [], c_visible = VISIBLE_EMPTY, c_attrs = [], c_borrowed_attrs = scope_default,
     c_collecting = False, c_scope_pool = [], c_borrowed_pool = []\<rparr>"

definition ascii_whitespace :: "char \<Rightarrow> bool" where
  "ascii_whitespace c \<longleftrightarrow> c \<in> {CHR '' '', CHR 0x09, CHR 0x0A, CHR 0x0C, CHR 0x0D}"

fun doctype_close :: "char option \<Rightarrow> nat \<Rightarrow> string \<Rightarrow> nat option" where
  "doctype_close quote pos [] = None"
| "doctype_close quote pos (c # s) = (case quote of
     Some active \<Rightarrow> doctype_close (if c = active then None else quote) (pos + 1) s
   | None \<Rightarrow>
       if c = CHR 0x27 \<or> c = CHR 0x22 then doctype_close (Some c) (pos + 1) s
       else if c = CHR ''>'' then Some (pos + 1)
       else doctype_close None (pos + 1) s)"

definition doctype_prefix_end :: "string \<Rightarrow> nat option" where
  "doctype_prefix_end raw =
     (let bom = (if starts_with raw [CHR 0xEF, CHR 0xBB, CHR 0xBF] then 3 else 0);
          cursor = bom + length (takeWhile ascii_whitespace (drop bom raw));
          prefix_end = cursor + 9 in
      if prefix_end > length raw \<or> \<not> list_all2 eq_ignore_ascii_case (take 9 (drop cursor raw)) ''<!doctype'' then None
      else if prefix_end = length raw then None
      else if raw ! prefix_end \<noteq> CHR ''>'' \<and> \<not> ascii_whitespace (raw ! prefix_end) then None
      else doctype_close None prefix_end (drop prefix_end raw))"

text \<open>The styles of a page without a head hook, before its first byte or behind its doctype.\<close>

definition entry_styles :: "'w env \<Rightarrow> 'w doc act" where
  "entry_styles e = seq [
     emit_component_style_closure e (e_entry_id e) InstallStatic,
     (\<lambda>d. case emit_active_route_styles e [] d of (Inl err, d') \<Rightarrow> (Inl err, d') | (Inr _, d') \<Rightarrow> (Inr (), d'))]"

definition has_head_hook :: "web_ui_fragment list \<Rightarrow> bool" where
  "has_head_hook fs = list_ex (\<lambda>f. case f of
     Some (FSignal s) \<Rightarrow> structural_signal_value s = Some ''head_end''
   | _ \<Rightarrow> False) fs"

definition doctype_split :: "web_ui_fragment list \<Rightarrow> (string \<times> nat) option" where
  "doctype_split fs = (case fs of
     Some (FRaw value) # _ \<Rightarrow> map_option (Pair value) (doctype_prefix_end value)
   | _ \<Rightarrow> None)"

text \<open>The body of \<open>render\<close> once the entry list is known; \<open>from\<close> renders the list from an index on.\<close>

definition render_entry :: "'w env \<Rightarrow> web_ui_fragment list \<Rightarrow> ('w doc act \<Rightarrow> 's run) \<Rightarrow> (nat \<Rightarrow> 's run) \<Rightarrow> 's run" where
  "render_entry e fs on_doc from =
     (let bare = p_style_closures (e_protocol e) \<noteq> [] \<and> \<not> has_head_hook fs in
      case (if bare then doctype_split fs else None) of
        Some (first_raw, split) \<Rightarrow> run_then
          (on_doc (seq [put e (take split first_raw), entry_styles e, put e (drop split first_raw)])) (from 1)
      | None \<Rightarrow> run_then (on_doc (when_do bare (entry_styles e))) (from 0))"

definition render_context :: "'w env \<Rightarrow> nat \<Rightarrow> render_fragment_list \<Rightarrow> 'w ctx run" where
  "render_context e n l c =
     (if component_owns_css_tree (e_entry_id e) (e_protocol e) then
        run_then (doc_do (push_shadow_style_root e (e_entry_id e)))
          (\<lambda>c. case process_fragment_from e (process_fragment_target e n) l 0 c of
             (Inl OutOfFuel, c') \<Rightarrow> (Inl OutOfFuel, c')
           | (r, c') \<Rightarrow> run_then (doc_do (pop_shadow_style_root (e_entry_id e))) (\<lambda>c. (r, c)) c') c
      else render_entry e (rl_fragments l) doc_do (process_fragment_from e (process_fragment_target e n) l) c)"

definition finish :: "'w env \<Rightarrow> (stop, unit) result \<times> 'w \<Rightarrow> (stop, unit) result \<times> 'w" where
  "finish e rw = (case rw of
     (Inl x, w) \<Rightarrow> (Inl x, w)
   | (Inr _, w) \<Rightarrow> (case e_end e w of (Inl err, w') \<Rightarrow> (Inl (Failed err), w') | (Inr _, w') \<Rightarrow> (Inr (), w')))"

definition render :: "'w host \<Rightarrow> nat \<Rightarrow> web_ui_protocol \<Rightarrow> json \<Rightarrow> render_options \<Rightarrow> 'w run" where
  "render h n p state opts w =
     (case style_metadata_error (h_json_error h) p of
        Some m \<Rightarrow> run_fail (Invariant m) w
      | None \<Rightarrow>
          (case Option.bind (ri_index (render_index (h_up h) (document p)) (o_entry_id opts))
              (ri_list (document p) (render_index (h_up h) (document p))) of
             None \<Rightarrow> run_fail (MissingFragment (o_entry_id opts)) w
           | Some l \<Rightarrow> (case inject_resolve (h_show_base h) (h_kind_text h) state of
               Inl err \<Rightarrow> run_fail err w
             | Inr si \<Rightarrow>
                 let e = make_env h p state opts si in
                 finish e (apsnd (d_writer \<circ> c_doc) (render_context e n l (initial_ctx w))))))"

end
