(* ===== verification/Render_Lexical.thy ===== *)
theory Render_Lexical
  imports Render_Main
begin

text \<open>
  What a template means, and that the renderer implements it.

  The reference interpreter below knows nothing of borrowed and owned scopes, inline slots,
  pools, loop stacks, visible ranges or numeric slots.  A template is interpreted in an
  environment, a map from names to values: a loop binds its variable in it, a component is
  interpreted in the environment its attributes make up, and every record is found by its
  identifier.  The theorems relate it to \<open>render\<close> for every writer, also when writes fail.
\<close>

section \<open>The reference interpreter\<close>

type_synonym environment = "string \<rightharpoonup> json"

record 'w lex =
  l_doc :: "'w doc"
  l_attrs :: environment
  l_collecting :: bool

definition lex_do :: "'w doc act \<Rightarrow> 'w lex run" where
  "lex_do a l = (case a (l_doc l) of
     (Inl err, d) \<Rightarrow> (Inl (Failed err), l\<lparr>l_doc := d\<rparr>)
   | (Inr _, d) \<Rightarrow> (Inr (), l\<lparr>l_doc := d\<rparr>))"

definition lex_read :: "('w doc \<Rightarrow> 'w lex run) \<Rightarrow> 'w lex run" where
  "lex_read f l = f (l_doc l) l"

text \<open>A path is a name of the environment followed by members; what it does not find there is the state's.\<close>

definition lex_resolve :: "json \<Rightarrow> environment \<Rightarrow> string \<Rightarrow> json option" where
  "lex_resolve state \<rho> path = (case split_on (CHR ''.'') path of
     [] \<Rightarrow> None
   | name # rest \<Rightarrow> (case \<rho> name of
       None \<Rightarrow> find_value_by_dotted_path path state
     | Some v \<Rightarrow> (case walk_path rest v of
         Some c \<Rightarrow> Some (cow_value c)
       | None \<Rightarrow> find_value_by_dotted_path path state)))"

definition lex_condition :: "'w env \<Rightarrow> environment \<Rightarrow> condition_expr \<Rightarrow> (handler_error, bool) result" where
  "lex_condition e \<rho> = evaluate_condition (e_show e) (lex_resolve (e_state e) \<rho>)"

definition lex_signal :: "'w env \<Rightarrow> environment \<Rightarrow> web_ui_signal \<Rightarrow> 'w lex run" where
  "lex_signal e \<rho> s = (case structural_signal_value s of
     Some v \<Rightarrow> lex_do (process_structural_signal e v)
   | None \<Rightarrow> (case lex_resolve (e_state e) \<rho> (signal_value s) of
       Some v \<Rightarrow> lex_do (write_signal_value e v (signal_raw s))
     | None \<Rightarrow> run_ok))"

definition lex_template :: "'w env \<Rightarrow> environment \<Rightarrow> string \<Rightarrow> (handler_error, string) result" where
  "lex_template e \<rho> i = (case map_of (p_fragments (e_protocol e)) i of
     None \<Rightarrow> Inl (MissingFragment i)
   | Some fl \<Rightarrow> Inr (concat (map (template_piece e (lex_resolve (e_state e) \<rho>)) (fragments fl))))"

definition lex_set :: "web_ui_attribute \<Rightarrow> string option \<Rightarrow> json \<Rightarrow> 'w lex run" where
  "lex_set a name v l =
     (if l_collecting l \<and> \<not> attr_skip a then
        (case name of
           None \<Rightarrow> run_fail missing_component_attr_name_error l
         | Some n \<Rightarrow> (Inr (), l\<lparr>l_attrs := (l_attrs l)(n \<mapsto> v)\<rparr>))
      else run_ok l)"

definition lex_attribute :: "'w env \<Rightarrow> environment \<Rightarrow> string option \<Rightarrow> web_ui_attribute \<Rightarrow> 'w lex run" where
  "lex_attribute e \<rho> name a = run_then
     (\<lambda>l. (Inr (), if attr_start a then l\<lparr>l_attrs := Map.empty, l_collecting := True\<rparr> else l))
     (case attr_condition_tree a of
        Some condition \<Rightarrow> (case lex_condition e \<rho> condition of
          Inl err \<Rightarrow> run_fail err
        | Inr met \<Rightarrow> run_then (lex_set a name (JBool met)) (lex_do (when_do met (seq [put e '' '', put e (attr_name a)]))))
      | None \<Rightarrow>
          if attr_template a \<noteq> [] then
            (case lex_template e \<rho> (attr_template a) of
               Inl err \<Rightarrow> run_fail err
             | Inr v \<Rightarrow> run_then (lex_do (wr (e_put_escaped_attribute e (attr_name a) v))) (lex_set a name (JString v)))
          else if attr_raw_value a then
            run_then (lex_do (wr (e_put_escaped_attribute e (attr_name a) (attr_value a)))) (lex_set a name (JString (attr_value a)))
          else if attr_value a = [] then run_ok
          else if attr_complex a then
            (case lex_resolve (e_state e) \<rho> (attr_value a) of Some v \<Rightarrow> lex_set a name v | None \<Rightarrow> run_ok)
          else (let v = lex_resolve (e_state e) \<rho> (attr_value a) in
            run_then (lex_do (write_dynamic_value e (attr_name a) v))
              (lex_set a name (case v of Some w \<Rightarrow> w | None \<Rightarrow> JString []))))"

text \<open>In the following \<open>rec \<rho> i\<close> interprets the record \<open>i\<close> in \<open>\<rho>\<close>.\<close>

definition lex_if :: "'w env \<Rightarrow> (environment \<Rightarrow> string \<Rightarrow> 'w lex run) \<Rightarrow> environment \<Rightarrow> web_ui_if \<Rightarrow> 'w lex run" where
  "lex_if e rec \<rho> i = (case if_condition i of
     None \<Rightarrow> run_fail (Rendering ''If fragment missing condition'')
   | Some condition \<Rightarrow> (case lex_condition e \<rho> condition of
       Inl err \<Rightarrow> run_fail err
     | Inr met \<Rightarrow> run_when met (rec \<rho> (if_fragment_id i))))"

definition lex_for :: "'w env \<Rightarrow> (environment \<Rightarrow> string \<Rightarrow> 'w lex run) \<Rightarrow> environment \<Rightarrow> web_ui_for \<Rightarrow> 'w lex run" where
  "lex_for e rec \<rho> l = (case lex_resolve (e_state e) \<rho> (for_collection l) of
     Some (JArray items) \<Rightarrow> runs (map (\<lambda>x. rec (\<rho>(for_item l \<mapsto> x)) (for_fragment_id l)) items)
   | Some _ \<Rightarrow> run_fail (HTypeError (''Collection '' @ [CHR 0x27] @ for_collection l @ [CHR 0x27] @ '' is not an array''))
   | None \<Rightarrow> run_ok)"

definition lex_body :: "(environment \<Rightarrow> string \<Rightarrow> 'w lex run) \<Rightarrow> bool \<Rightarrow> string \<Rightarrow> 'w lex run" where
  "lex_body rec owns fid l =
     (case rec (l_attrs l) fid (l\<lparr>l_attrs := Map.empty, l_collecting := False\<rparr>) of
        (Inl OutOfFuel, l') \<Rightarrow> (Inl OutOfFuel, l')
      | (r, l') \<Rightarrow> run_then (lex_do (if owns then pop_shadow_style_root fid else act_ok))
          (\<lambda>l. (r, l\<lparr>l_attrs := Map.empty\<rparr>)) l')"

definition lex_component :: "'w env \<Rightarrow> (environment \<Rightarrow> string \<Rightarrow> 'w lex run) \<Rightarrow> string \<Rightarrow> 'w lex run" where
  "lex_component e rec fid =
     (let owns = component_owns_css_tree fid (e_protocol e) in
      runs [lex_do (mark_rendered e fid), run_when owns (lex_do (push_shadow_style_root e fid)), lex_body rec owns fid])"

definition lex_item ::
  "'w env \<Rightarrow> (string \<Rightarrow> string) \<Rightarrow> (environment \<Rightarrow> string \<Rightarrow> 'w lex run) \<Rightarrow> environment \<Rightarrow> (string \<times> route_match) option \<Rightarrow>
   web_ui_fragment \<Rightarrow> 'w lex run" where
  "lex_item e up rec \<rho> best f = (case f of
     Some (FRaw value) \<Rightarrow> lex_do (put e value)
   | Some (FComponent fid) \<Rightarrow> lex_component e rec fid
   | Some (FForLoop l) \<Rightarrow> lex_for e rec \<rho> l
   | Some (FSignal s) \<Rightarrow> lex_signal e \<rho> s
   | Some (FIfCond i) \<Rightarrow> lex_if e rec \<rho> i
   | Some (FAttribute a) \<Rightarrow> lex_attribute e \<rho> (prop_name up f) a
   | Some (FRoute r) \<Rightarrow> process_route e lex_do lex_read (rec \<rho>) (lex_component e rec) r best
   | Some FOutlet \<Rightarrow> process_outlet e lex_do lex_read (rec \<rho>) (lex_component e rec)
   | _ \<Rightarrow> run_ok)"

definition lex_fragments ::
  "'w env \<Rightarrow> (string \<Rightarrow> string) \<Rightarrow> (environment \<Rightarrow> string \<Rightarrow> 'w lex run) \<Rightarrow> environment \<Rightarrow> web_ui_fragment list \<Rightarrow> nat \<Rightarrow> 'w lex run" where
  "lex_fragments e up rec \<rho> fs start = lex_read (\<lambda>d.
     runs (map (lex_item e up rec \<rho> (find_best_route_match fs (e_request_path e) (d_route_base d) (e_routes e)))
       (drop start fs)))"

fun lex_record :: "'w env \<Rightarrow> (string \<Rightarrow> string) \<Rightarrow> nat \<Rightarrow> environment \<Rightarrow> string \<Rightarrow> 'w lex run" where
  "lex_record e up 0 \<rho> i l = (Inl OutOfFuel, l)"
| "lex_record e up (Suc n) \<rho> i l = (case map_of (p_fragments (e_protocol e)) i of
     None \<Rightarrow> run_fail (MissingFragment i) l
   | Some fl \<Rightarrow> lex_fragments e up (lex_record e up n) \<rho> (fragments fl) 0 l)"

definition lex_context :: "'w env \<Rightarrow> (string \<Rightarrow> string) \<Rightarrow> nat \<Rightarrow> web_ui_fragment list \<Rightarrow> 'w lex run" where
  "lex_context e up n fs l =
     (if component_owns_css_tree (e_entry_id e) (e_protocol e) then
        run_then (lex_do (push_shadow_style_root e (e_entry_id e)))
          (\<lambda>l. case lex_fragments e up (lex_record e up n) Map.empty fs 0 l of
             (Inl OutOfFuel, l') \<Rightarrow> (Inl OutOfFuel, l')
           | (r, l') \<Rightarrow> run_then (lex_do (pop_shadow_style_root (e_entry_id e))) (\<lambda>l. (r, l)) l') l
      else render_entry e fs lex_do (lex_fragments e up (lex_record e up n) Map.empty fs) l)"

definition lex_render :: "'w host \<Rightarrow> nat \<Rightarrow> web_ui_protocol \<Rightarrow> json \<Rightarrow> render_options \<Rightarrow> 'w run" where
  "lex_render h n p state opts w =
     (case style_metadata_error (h_json_error h) p of
        Some m \<Rightarrow> run_fail (Invariant m) w
      | None \<Rightarrow> (case map_of (p_fragments p) (o_entry_id opts) of
          None \<Rightarrow> run_fail (MissingFragment (o_entry_id opts)) w
        | Some fl \<Rightarrow> (case inject_resolve (h_show_base h) (h_kind_text h) state of
            Inl err \<Rightarrow> run_fail err w
          | Inr si \<Rightarrow>
              let e = make_env h p state opts si in
              finish e (apsnd (d_writer \<circ> l_doc) (lex_context e (h_up h) n (fragments fl)
                \<lparr>l_doc = initial_doc w, l_attrs = Map.empty, l_collecting = False\<rparr>)))))"

section \<open>The scope as an environment\<close>

definition scalar :: "json \<Rightarrow> bool" where
  "scalar v = (case v of JArray _ \<Rightarrow> False | JObject _ \<Rightarrow> False | _ \<Rightarrow> True)"

text \<open>
  What holds of the scope of every context of a render.  A value the render made up is always a scalar;
  a visible loop variable hides the locals of its name by removing them.
\<close>

definition scope_pair_ok :: "json scope_map \<Rightarrow> json borrowed_scope \<Rightarrow> bool" where
  "scope_pair_ok m s \<longleftrightarrow> scope_ok s \<and> (\<forall>n. pred_option scalar (map_of m n)) \<and> dom (map_of m) \<inter> dom (scope_of s) = {}"

definition scope_inv :: "'w ctx \<Rightarrow> bool" where
  "scope_inv c \<longleftrightarrow>
     scope_pair_ok (c_local_vars c) (c_local_borrowed c) \<and> scope_pair_ok (c_attrs c) (c_borrowed_attrs c) \<and>
     pools_ok (c_scope_pool c) (c_borrowed_pool c) \<and>
     names_plain (c_loop_vars c) \<and>
     v_start (c_visible c) \<le> v_end (c_visible c) \<and> v_end (c_visible c) = length (c_loop_vars c) \<and>
     fst ` set (visible_bindings (c_loop_vars c) (c_visible c)) \<inter>
       (dom (map_of (c_local_vars c)) \<union> dom (scope_of (c_local_borrowed c))) = {}"

definition env_of :: "'w ctx \<Rightarrow> environment" where
  "env_of c = (map_of (c_local_vars c) ++ scope_of (c_local_borrowed c)) ++
     map_of (rev (visible_bindings (c_loop_vars c) (c_visible c)))"

definition attrs_of :: "'w ctx \<Rightarrow> environment" where
  "attrs_of c = map_of (c_attrs c) ++ scope_of (c_borrowed_attrs c)"

abbreviation entry_of :: "'w ctx \<Rightarrow> string \<Rightarrow> source option" where
  "entry_of c \<equiv> visible_entry (c_loop_vars c) (c_visible c) (c_local_vars c) (c_local_borrowed c)"

lemma map_of_rev_last:
  "xs \<noteq> [] \<Longrightarrow> last xs = (n, v) \<Longrightarrow> map_of (rev xs) m = (if m = n then Some v else map_of (rev xs) m)"
  by (cases xs rule: rev_cases) auto

lemma entry_env:
  assumes "scope_inv c"
  shows "map_option source_value (entry_of c m) = env_of c m"
proof -
  let ?vis = "visible_bindings (c_loop_vars c) (c_visible c)"
  have hidden: "map_of (c_local_vars c) m = None" "scope_of (c_local_borrowed c) m = None" if "m \<in> fst ` set ?vis"
    using assms that by (auto simp: scope_inv_def scope_pair_ok_def)
  have dj: "map_of (c_local_vars c) m = None" if "scope_of (c_local_borrowed c) m \<noteq> None"
    using assms that by (auto simp: scope_inv_def scope_pair_ok_def)
  have rest: "map_option source_value (case scope_of (c_local_borrowed c) m of
       Some v \<Rightarrow> Some (FromState v)
     | None \<Rightarrow> (case map_of (c_local_vars c) m of
         Some v \<Rightarrow> Some (FromRender v)
       | None \<Rightarrow> map_option FromState (map_of (rev ?vis) m))) = env_of c m"
  proof (cases "map_of (rev ?vis) m")
    case None
    then show ?thesis using dj by (auto simp: env_of_def map_add_def split: option.split)
  next
    case (Some v)
    then have "m \<in> fst ` set ?vis" by (metis map_of_eq_None_iff option.distinct(1) set_rev)
    with Some hidden show ?thesis by (simp add: env_of_def map_add_def)
  qed
  show ?thesis
  proof (cases "last_binding (c_loop_vars c) (c_visible c)")
    case None
    with rest show ?thesis by (simp add: visible_entry_def)
  next
    case (Some b)
    then obtain n v where b: "b = (n, v)" "?vis \<noteq> []" "last ?vis = (n, v)"
      by (cases b) (auto simp: last_binding_def split: if_splits)
    show ?thesis
    proof (cases "n = m")
      case True
      with Some b map_of_rev_last [OF b(2,3), of m] show ?thesis
        by (simp add: visible_entry_def env_of_def map_add_def)
    next
      case False
      with Some b rest show ?thesis by (simp add: visible_entry_def)
    qed
  qed
qed

lemma lex_resolve_view:
  "map_option source_value (lexical_resolve entry path state) = lex_resolve state (\<lambda>n. map_option source_value (entry n)) path"
  by (auto simp: lexical_resolve_def lex_resolve_def find_value_by_dotted_path_def option.map_comp o_def
      split: list.split option.split)

lemma scope_invD:
  assumes "scope_inv c"
  shows "scope_ok (c_local_borrowed c)" "scope_ok (c_borrowed_attrs c)" "names_plain (c_loop_vars c)"
    "visible_ok (c_loop_vars c) (c_visible c)" "pools_ok (c_scope_pool c) (c_borrowed_pool c)"
    "map_of (c_local_vars c) n = Some v \<Longrightarrow> scalar v" "map_of (c_attrs c) n = Some v \<Longrightarrow> scalar v"
  using assms by (auto simp: scope_inv_def scope_pair_ok_def visible_ok_def) (metis option.pred_inject(2))+

lemma resolve_owned_eq: "scope_inv c \<Longrightarrow> resolve_value_owned e c path = lex_resolve (e_state e) (env_of c) path"
  unfolding resolve_value_owned_def resolve_in_ctx_def
  by (simp add: resolve_value_view scope_invD lex_resolve_view entry_env)

lemma condition_eq: "scope_inv c \<Longrightarrow> condition_in_ctx e c = lex_condition e (env_of c)"
  using resolve_owned_eq [of c e] by (auto simp: condition_in_ctx_def lex_condition_def fun_eq_iff intro!: arg_cong2 [where f = "evaluate_condition (e_show e)"])

lemma scalar_walk: "scalar v \<Longrightarrow> walk_path ps v = Some c \<Longrightarrow> scalar (cow_value c)"
  by (cases ps; cases v) (auto simp: scalar_def split: if_splits)

lemma from_render_scalar:
  assumes entry: "\<And>n v. entry n = Some (FromRender v) \<Longrightarrow> scalar v"
    and r: "lexical_resolve entry path state = Some (FromRender v)"
  shows "scalar v"
proof -
  have number: "scalar w" if "walk_path ps u = Some (Owned w)" for ps u w
    using walk_path_owned_number [OF that] by (auto simp: scalar_def)
  obtain name rest where s: "split_on (CHR ''.'') path = name # rest"
    by (cases "split_on (CHR ''.'') path") auto
  consider (state) c where "find_value_by_dotted_path_ref path state = Some c" "from_state c = FromRender v"
    | (entry) src c where "entry name = Some src" "walk_path rest (source_value src) = Some c" "tagged src c = FromRender v"
    using r s by (auto simp: lexical_resolve_def split: option.splits)
  then show ?thesis
  proof cases
    case state
    then show ?thesis
      using number by (cases c) (auto simp: from_state_def find_value_by_dotted_path_ref_def)
  next
    case entry
    show ?thesis
    proof (cases src)
      case (FromState u)
      with entry number show ?thesis by (cases c) (auto simp: tagged_def from_state_def)
    next
      case (FromRender u)
      with entry assms(1) [of name u] scalar_walk [of u rest c] show ?thesis by (simp add: tagged_def)
    qed
  qed
qed

lemma entry_render_scalar: "scope_inv c \<Longrightarrow> entry_of c n = Some (FromRender v) \<Longrightarrow> scalar v"
  by (auto simp: visible_entry_def split: option.splits if_splits dest: scope_invD(6))

text \<open>A path that is not backed by the state has no value or a scalar.\<close>

lemma backed_cases:
  assumes inv: "scope_inv c"
  shows "case state_backed_in_ctx e c path of
      Some v \<Rightarrow> lex_resolve (e_state e) (env_of c) path = Some v
    | None \<Rightarrow> pred_option scalar (lex_resolve (e_state e) (env_of c) path)"
proof -
  let ?r = "lexical_resolve (entry_of c) path (e_state e)"
  have b: "state_backed_in_ctx e c path = state_backed ?r"
    by (simp add: state_backed_in_ctx_def state_backed_view scope_invD(1) [OF inv])
  have l: "lex_resolve (e_state e) (env_of c) path = map_option source_value ?r"
    by (simp add: lex_resolve_view entry_env [OF inv])
  have "scalar v" if "?r = Some (FromRender v)" for v
    by (rule from_render_scalar [OF _ that]) (rule entry_render_scalar [OF inv])
  then show ?thesis unfolding b l state_backed_def by (simp split: option.split source.split)
qed

lemma collection_cases:
  fixes e :: "'w env" and c :: "'w ctx"
  assumes inv: "scope_inv c"
  shows "resolve_borrowed_collection path (c_loop_vars c) (c_visible c) (c_local_vars c) (c_local_borrowed c) (e_state e) =
    (case lex_resolve (e_state e) (env_of c) path of Some (JArray xs) \<Rightarrow> Some xs | _ \<Rightarrow> None)"
proof -
  have "resolve_borrowed_collection path (c_loop_vars c) (c_visible c) (c_local_vars c) (c_local_borrowed c) (e_state e) =
      Option.bind (state_backed_in_ctx e c path) as_array"
    by (simp add: collection_backed state_backed_in_ctx_def)
  with backed_cases [OF inv, of e path] show ?thesis
    by (auto simp: as_array_def scalar_def split: option.splits json.splits)
qed

section \<open>Simulation\<close>

text \<open>The scope is left as it was found.\<close>

definition frame :: "'w ctx \<Rightarrow> 'w ctx \<Rightarrow> bool" where
  "frame c c' \<longleftrightarrow> c_loop_vars c' = c_loop_vars c \<and> c_visible c' = c_visible c \<and>
     map_of (c_local_vars c') = map_of (c_local_vars c) \<and> scope_of (c_local_borrowed c') = scope_of (c_local_borrowed c)"

definition related :: "environment \<Rightarrow> 'w ctx \<Rightarrow> 'w lex \<Rightarrow> bool" where
  "related \<rho> c l \<longleftrightarrow> scope_inv c \<and> env_of c = \<rho> \<and> c_doc c = l_doc l \<and> attrs_of c = l_attrs l \<and> c_collecting c = l_collecting l"

definition sim :: "environment \<Rightarrow> 'w ctx run \<Rightarrow> 'w lex run \<Rightarrow> bool" where
  "sim \<rho> a b \<longleftrightarrow> (\<forall>c l. related \<rho> c l \<longrightarrow>
     fst (a c) = fst (b l) \<and>
     (case fst (a c) of
        Inl _ \<Rightarrow> c_doc (snd (a c)) = l_doc (snd (b l))
      | Inr _ \<Rightarrow> related \<rho> (snd (a c)) (snd (b l)) \<and> frame c (snd (a c))))"

lemma frame_refl [simp]: "frame c c" by (simp add: frame_def)

lemma frame_trans: "frame a b \<Longrightarrow> frame b c \<Longrightarrow> frame a c" by (simp add: frame_def)

lemma frame_doc [simp]: "frame c (c'\<lparr>c_doc := d\<rparr>) \<longleftrightarrow> frame c c'" by (simp add: frame_def)

lemma env_of_doc [simp]: "env_of (c\<lparr>c_doc := d\<rparr>) = env_of c" "attrs_of (c\<lparr>c_doc := d\<rparr>) = attrs_of c"
  "scope_inv (c\<lparr>c_doc := d\<rparr>) \<longleftrightarrow> scope_inv c"
  by (simp_all add: env_of_def attrs_of_def scope_inv_def)

lemma simD:
  assumes "sim \<rho> a b" "related \<rho> c l" "a c = (r, c')" "b l = (r', l')"
  shows "r' = r" "r = Inl x \<Longrightarrow> c_doc c' = l_doc l'" "r = Inr u \<Longrightarrow> related \<rho> c' l'" "r = Inr u \<Longrightarrow> frame c c'"
proof -
  note s = assms(1) [unfolded sim_def, rule_format, OF assms(2), unfolded assms(3,4) fst_conv snd_conv]
  show "r' = r" using s by simp
  show "r = Inl x \<Longrightarrow> c_doc c' = l_doc l'" using s by auto
  show "r = Inr u \<Longrightarrow> related \<rho> c' l'" "r = Inr u \<Longrightarrow> frame c c'" using s by auto
qed

text \<open>The outcome of both sides, once the reference's is known to be the same.\<close>

lemma sim_cases:
  assumes "sim \<rho> a b" "related \<rho> c l"
  obtains (stop) x c' l' where "a c = (Inl x, c')" "b l = (Inl x, l')" "c_doc c' = l_doc l'"
  | (go) c' l' where "a c = (Inr (), c')" "b l = (Inr (), l')" "related \<rho> c' l'" "frame c c'"
proof -
  obtain r c' where a: "a c = (r, c')" by fastforce
  obtain r' l' where b: "b l = (r', l')" by fastforce
  note d = simD [OF assms a b]
  show ?thesis using a b d that by (cases r) auto
qed

lemma simI:
  assumes "\<And>c l. related \<rho> c l \<Longrightarrow>
    (\<exists>x c' l'. a c = (Inl x, c') \<and> b l = (Inl x, l') \<and> c_doc c' = l_doc l') \<or>
    (\<exists>c' l'. a c = (Inr (), c') \<and> b l = (Inr (), l') \<and> related \<rho> c' l' \<and> frame c c')"
  shows "sim \<rho> a b"
  unfolding sim_def
proof (intro allI impI)
  fix c :: "'a ctx" and l :: "'a lex" assume "related \<rho> c l"
  from assms [OF this] show "fst (a c) = fst (b l) \<and>
     (case fst (a c) of
        Inl _ \<Rightarrow> c_doc (snd (a c)) = l_doc (snd (b l))
      | Inr _ \<Rightarrow> related \<rho> (snd (a c)) (snd (b l)) \<and> frame c (snd (a c)))" by auto
qed

named_theorems sim_rules

lemma sim_ok [sim_rules]: "sim \<rho> run_ok run_ok"
  by (rule simI) (auto simp: run_ok_def)

lemma sim_fail [sim_rules]: "sim \<rho> (run_fail err) (run_fail err)"
  by (rule simI) (auto simp: run_fail_def related_def)

lemma sim_doc [sim_rules]: "sim \<rho> (doc_do a) (lex_do a)"
proof (rule simI)
  fix c :: "'a ctx" and l assume r: "related \<rho> c l"
  obtain x d where a: "a (c_doc c) = (x, d)" by fastforce
  from r have "c_doc c = l_doc l" by (simp add: related_def)
  with r a show "(\<exists>x c' l'. doc_do a c = (Inl x, c') \<and> lex_do a l = (Inl x, l') \<and> c_doc c' = l_doc l') \<or>
      (\<exists>c' l'. doc_do a c = (Inr (), c') \<and> lex_do a l = (Inr (), l') \<and> related \<rho> c' l' \<and> frame c c')"
    by (cases x) (auto simp: doc_do_def lex_do_def related_def)
qed

lemma sim_then [sim_rules]: "sim \<rho> a a' \<Longrightarrow> sim \<rho> b b' \<Longrightarrow> sim \<rho> (run_then a b) (run_then a' b')"
proof (rule simI)
  fix c :: "'a ctx" and l :: "'a lex" assume s: "sim \<rho> a a'" "sim \<rho> b b'" "related \<rho> c l"
  from s(1,3) show "(\<exists>x c' l'. run_then a b c = (Inl x, c') \<and> run_then a' b' l = (Inl x, l') \<and> c_doc c' = l_doc l') \<or>
      (\<exists>c' l'. run_then a b c = (Inr (), c') \<and> run_then a' b' l = (Inr (), l') \<and> related \<rho> c' l' \<and> frame c c')"
  proof (cases rule: sim_cases)
    case (go c' l')
    from s(2) go(3) show ?thesis
      by (cases rule: sim_cases) (auto simp: run_then_def go(1,2) intro: frame_trans [OF go(4)])
  qed (auto simp: run_then_def)
qed

lemma sim_runs_Nil [sim_rules]: "sim \<rho> (runs []) (runs [])"
  by (simp add: runs_def sim_ok)

lemma sim_runs_Cons [sim_rules]: "sim \<rho> a a' \<Longrightarrow> sim \<rho> (runs as) (runs bs) \<Longrightarrow> sim \<rho> (runs (a # as)) (runs (a' # bs))"
  by (simp add: runs_def sim_then)

lemma sim_when [sim_rules]: "(b \<Longrightarrow> sim \<rho> a a') \<Longrightarrow> sim \<rho> (run_when b a) (run_when b a')"
  by (simp add: run_when_def sim_ok)

lemma sim_read [sim_rules]: "(\<And>d. sim \<rho> (f d) (g d)) \<Longrightarrow> sim \<rho> (doc_read f) (lex_read g)"
  unfolding sim_def doc_read_def lex_read_def by (metis related_def)

lemma sim_related: "(\<And>c l. related \<rho> c l \<Longrightarrow> \<exists>a' b'. a c = a' c \<and> b l = b' l \<and> sim \<rho> a' b') \<Longrightarrow> sim \<rho> a b"
proof (rule simI)
  fix c :: "'a ctx" and l :: "'a lex"
  assume h: "\<And>c l. related \<rho> c l \<Longrightarrow> \<exists>a' b'. a c = a' c \<and> b l = b' l \<and> sim \<rho> a' b'" and r: "related \<rho> c l"
  from h [OF r] obtain a' b' where eq: "a c = a' c" "b l = b' l" and s: "sim \<rho> a' b'" by blast
  from s r show "(\<exists>x c' l'. a c = (Inl x, c') \<and> b l = (Inl x, l') \<and> c_doc c' = l_doc l') \<or>
      (\<exists>c' l'. a c = (Inr (), c') \<and> b l = (Inr (), l') \<and> related \<rho> c' l' \<and> frame c c')"
    unfolding eq by (cases rule: sim_cases) auto
qed

subsection \<open>Routes\<close>

lemma sim_route_component:
  assumes "\<And>i. sim \<rho> (k i) (k' i)"
  shows "sim \<rho> (route_component e doc_do k i) (route_component e lex_do k' i)"
  unfolding route_component_def by (intro sim_rules assms)

lemma sim_matched_route:
  assumes "\<And>i. sim \<rho> (f i) (f' i)" "\<And>i. sim \<rho> (k i) (k' i)"
  shows "sim \<rho> (matched_route e doc_do doc_read f k r rm) (matched_route e lex_do lex_read f' k' r rm)"
  unfolding matched_route_def by (intro sim_rules sim_route_component assms)

lemma sim_route:
  assumes "\<And>i. sim \<rho> (f i) (f' i)" "\<And>i. sim \<rho> (k i) (k' i)"
  shows "sim \<rho> (process_route e doc_do doc_read f k r best) (process_route e lex_do lex_read f' k' r best)"
  unfolding process_route_def
  by (intro sim_rules; cases best) (auto intro!: sim_rules sim_matched_route assms)

lemma sim_outlet:
  assumes "\<And>i. sim \<rho> (f i) (f' i)" "\<And>i. sim \<rho> (k i) (k' i)"
  shows "sim \<rho> (process_outlet e doc_do doc_read f k) (process_outlet e lex_do lex_read f' k')"
proof -
  have child: "sim \<rho> (outlet_child e doc_do doc_read f k r rm) (outlet_child e lex_do lex_read f' k' r rm)" for r rm
    unfolding outlet_child_def by (intro sim_rules sim_route_component assms)
  show ?thesis
    unfolding process_outlet_def Let_def
    by (intro sim_rules) (auto split: option.split intro!: sim_rules child)
qed

subsection \<open>Signals and attributes\<close>

lemma sim_state_signal:
  "sim \<rho> (process_state_signal e s)
    (case lex_resolve (e_state e) \<rho> (signal_value s) of Some v \<Rightarrow> lex_do (write_signal_value e v (signal_raw s)) | None \<Rightarrow> run_ok)"
proof (rule sim_related)
  fix c :: "'a ctx" and l :: "'a lex" assume r: "related \<rho> c l"
  then have v: "map_option cow_value (resolve_in_ctx e c (signal_value s)) = lex_resolve (e_state e) \<rho> (signal_value s)"
    using resolve_owned_eq [of c e "signal_value s"] by (simp add: resolve_value_owned_def related_def)
  show "\<exists>a' b'. process_state_signal e s c = a' c \<and>
      (case lex_resolve (e_state e) \<rho> (signal_value s) of Some v \<Rightarrow> lex_do (write_signal_value e v (signal_raw s)) | None \<Rightarrow> run_ok) l =
        b' l \<and> sim \<rho> a' b'"
  proof (cases "resolve_in_ctx e c (signal_value s)")
    case None
    with v [symmetric] show ?thesis
      by (intro exI [of _ run_ok] conjI sim_ok) (auto simp: process_state_signal_def)
  next
    case (Some w)
    with v [symmetric] show ?thesis
      by (intro exI [of _ "doc_do (write_signal_value e (cow_value w) (signal_raw s))"]
          exI [of _ "lex_do (write_signal_value e (cow_value w) (signal_raw s))"] conjI sim_doc)
        (auto simp: process_state_signal_def)
  qed
qed

lemma sim_signal: "sim \<rho> (process_signal e s) (lex_signal e \<rho> s)"
  using sim_state_signal [of \<rho> e s] sim_doc
  by (auto simp: process_signal_def lex_signal_def structural_signal_value_def split: option.split)

lemma map_of_remove_owned [simp]: "map_of (remove_owned_component_attr m n) = (map_of m)(n := None)"
  by (simp add: remove_owned_component_attr_def delete_conv')

lemma scope_ops [simp]:
  assumes "scope_ok s"
  shows "scope_ok (snd (scope_insert n v s))" "scope_of (snd (scope_insert n v s)) = (scope_of s)(n \<mapsto> v)"
    "scope_ok (snd (scope_remove n s))" "scope_of (snd (scope_remove n s)) = (scope_of s)(n := None)"
  using bscope.put_abs [OF assms, of n v] bscope.del_abs [OF assms, of n] by (metis prod.collapse)+

text \<open>Attributes of the two kinds, seen as one map.\<close>

lemma scope_pair_updates:
  assumes "scope_pair_ok m s"
  shows "scalar v \<Longrightarrow> scope_pair_ok (snd (owned_insert n v m)) (snd (scope_remove n s))"
    "map_of (snd (owned_insert n v m)) ++ scope_of (snd (scope_remove n s)) = (map_of m ++ scope_of s)(n \<mapsto> v)"
    "scope_pair_ok (remove_owned_component_attr m n) (snd (scope_insert n v s))"
    "map_of (remove_owned_component_attr m n) ++ scope_of (snd (scope_insert n v s)) = (map_of m ++ scope_of s)(n \<mapsto> v)"
proof -
  have ok: "scope_ok s" using assms by (simp add: scope_pair_ok_def)
  show "scope_pair_ok (snd (owned_insert n v m)) (snd (scope_remove n s))" if "scalar v"
    using assms ok that by (auto simp: scope_pair_ok_def owned_insert_def update_conv')
  show "scope_pair_ok (remove_owned_component_attr m n) (snd (scope_insert n v s))"
    using assms ok by (auto simp: scope_pair_ok_def)
qed (use assms in \<open>auto simp: scope_pair_ok_def owned_insert_def update_conv' fun_eq_iff map_add_def split: option.split\<close>)

lemma scope_pair_empty [simp]: "scope_pair_ok [] scope_default"
  by (simp add: scope_pair_ok_def)

lemma ctx_attr_updates [simp]:
  "env_of (c\<lparr>c_attrs := m, c_borrowed_attrs := s\<rparr>) = env_of c"
  "env_of (c\<lparr>c_attrs := m, c_borrowed_attrs := s, c_collecting := b\<rparr>) = env_of c"
  "env_of (c\<lparr>c_borrowed_attrs := s, c_attrs := m\<rparr>) = env_of c"
  by (simp_all add: env_of_def)

lemma attrs_related:
  assumes r: "related \<rho> c l"
  shows "scalar v \<Longrightarrow> related \<rho> (c\<lparr>c_borrowed_attrs := snd (scope_remove n (c_borrowed_attrs c)),
      c_attrs := snd (owned_insert n v (c_attrs c))\<rparr>) (l\<lparr>l_attrs := (l_attrs l)(n \<mapsto> v)\<rparr>)"
    and "related \<rho> (c\<lparr>c_attrs := remove_owned_component_attr (c_attrs c) n,
      c_borrowed_attrs := snd (scope_insert n v (c_borrowed_attrs c))\<rparr>) (l\<lparr>l_attrs := (l_attrs l)(n \<mapsto> v)\<rparr>)"
    and "related \<rho> (attr_begin a c) (if attr_start a then l\<lparr>l_attrs := Map.empty, l_collecting := True\<rparr> else l)"
proof -
  have ok: "scope_pair_ok (c_attrs c) (c_borrowed_attrs c)" using r by (simp add: related_def scope_inv_def)
  then have "scope_ok (c_borrowed_attrs c)" by (simp add: scope_pair_ok_def)
  then show "related \<rho> (attr_begin a c) (if attr_start a then l\<lparr>l_attrs := Map.empty, l_collecting := True\<rparr> else l)"
    using r by (auto simp: related_def attr_begin_def scope_inv_def attrs_of_def scope_clear_default)
  show "related \<rho> (c\<lparr>c_attrs := remove_owned_component_attr (c_attrs c) n,
      c_borrowed_attrs := snd (scope_insert n v (c_borrowed_attrs c))\<rparr>) (l\<lparr>l_attrs := (l_attrs l)(n \<mapsto> v)\<rparr>)"
    using r scope_pair_updates(3) [OF ok, where n = n and v = v] scope_pair_updates(4) [OF ok, where n = n and v = v]
    by (simp add: related_def scope_inv_def attrs_of_def del: map_of_remove_owned)
  show "related \<rho> (c\<lparr>c_borrowed_attrs := snd (scope_remove n (c_borrowed_attrs c)),
      c_attrs := snd (owned_insert n v (c_attrs c))\<rparr>) (l\<lparr>l_attrs := (l_attrs l)(n \<mapsto> v)\<rparr>)" if "scalar v"
    using r scope_pair_updates(1) [OF ok, where n = n and v = v] scope_pair_updates(2) [OF ok, where n = n and v = v] that
    by (simp add: related_def scope_inv_def attrs_of_def)
qed

text \<open>Storing an attribute, when the tag being written is a component's.\<close>

definition collecting :: "web_ui_attribute \<Rightarrow> 'w ctx run \<Rightarrow> 'w ctx run" where
  "collecting a f c = run_when (c_collecting c \<and> \<not> attr_skip a) f c"

lemma sim_set_owned [sim_rules]: "scalar v \<Longrightarrow> sim \<rho> (collecting a (set_owned_attr name v)) (lex_set a name v)"
proof (rule simI)
  fix c :: "'w ctx" and l :: "'w lex" assume v: "scalar v" and r: "related \<rho> c l"
  from r have "c_collecting c = l_collecting l" "c_doc c = l_doc l" by (simp_all add: related_def)
  with attrs_related(1) [OF r v] r
  show "(\<exists>x c' l'. collecting a (set_owned_attr name v) c = (Inl x, c') \<and> lex_set a name v l = (Inl x, l') \<and> c_doc c' = l_doc l') \<or>
      (\<exists>c' l'. collecting a (set_owned_attr name v) c = (Inr (), c') \<and> lex_set a name v l = (Inr (), l') \<and> related \<rho> c' l' \<and> frame c c')"
    by (cases name) (auto simp: collecting_def set_owned_attr_def lex_set_def run_when_def run_ok_def run_fail_def frame_def)
qed

lemma sim_set_borrowed [sim_rules]: "sim \<rho> (collecting a (set_borrowed_attr name v)) (lex_set a name v)"
proof (rule simI)
  fix c :: "'w ctx" and l :: "'w lex" assume r: "related \<rho> c l"
  from r have "c_collecting c = l_collecting l" "c_doc c = l_doc l" by (simp_all add: related_def)
  with attrs_related(2) [OF r] r
  show "(\<exists>x c' l'. collecting a (set_borrowed_attr name v) c = (Inl x, c') \<and> lex_set a name v l = (Inl x, l') \<and> c_doc c' = l_doc l') \<or>
      (\<exists>c' l'. collecting a (set_borrowed_attr name v) c = (Inr (), c') \<and> lex_set a name v l = (Inr (), l') \<and> related \<rho> c' l' \<and> frame c c')"
    by (cases name) (auto simp: collecting_def set_borrowed_attr_def lex_set_def run_when_def run_ok_def run_fail_def frame_def)
qed

lemma collect_later:
  "run_then (doc_do x) (run_when (c_collecting c \<and> \<not> attr_skip a) f) c = run_then (doc_do x) (collecting a f) c"
  by (auto simp: run_then_def doc_do_def collecting_def split: prod.split sum.split)

lemma collect_first:
  "run_then (run_when (c_collecting c \<and> \<not> attr_skip a) f) g c = run_then (collecting a f) g c"
  by (simp add: run_then_def collecting_def)

text \<open>The fragment behind a template, whether it is found by its slot or by its name.\<close>

definition plan_env :: "(string \<Rightarrow> string) \<Rightarrow> 'w env \<Rightarrow> bool" where
  "plan_env up e \<longleftrightarrow> plan_fits up (e_protocol e) \<and> e_index e = render_index up (e_protocol e)"

definition good_target :: "'w env \<Rightarrow> nat option \<Rightarrow> string \<Rightarrow> bool" where
  "good_target e target i \<longleftrightarrow> target = None \<or> target = ri_index (e_index e) i"

lemma target_list_cases:
  assumes "plan_env up e" "good_target e target i"
  obtains (missing) "target_list e target i = None" "map_of (p_fragments (e_protocol e)) i = None"
  | (found) fl l where "target_list e target i = Some l" "map_of (p_fragments (e_protocol e)) i = Some fl"
      "rl_fragments l = fragments fl" "rl_has_routes l = list_ex is_route (fragments fl)"
      "\<And>k. k < length (fragments fl) \<Longrightarrow>
         rl_target l k = Option.bind (fragment_target_id (fragments fl ! k)) (ri_index (e_index e)) \<and>
         component_attr_name l k = prop_name up (fragments fl ! k)"
proof -
  have fit: "plan_fits up (e_protocol e)" and ix: "e_index e = render_index up (e_protocol e)"
    using assms(1) by (simp_all add: plan_env_def)
  have t: "(case target of Some t \<Rightarrow> Some t | None \<Rightarrow> ri_index (e_index e) i) = ri_index (e_index e) i"
    using assms(2) by (auto simp: good_target_def split: option.split)
  show ?thesis
  proof (cases "ri_index (e_index e) i")
    case None
    then show ?thesis using missing t ri_index_None_iff [OF fit, of i] ix by (simp add: target_list_def)
  next
    case (Some n)
    obtain fl l where "map_of (p_fragments (e_protocol e)) i = Some fl" "ri_list (e_protocol e) (e_index e) n = Some l"
      "rl_fragments l = fragments fl" "rl_has_routes l = list_ex is_route (fragments fl)"
      "\<And>k. k < length (fragments fl) \<Longrightarrow>
         rl_target l k = Option.bind (fragment_target_id (fragments fl ! k)) (ri_index (e_index e)) \<and>
         component_attr_name l k = prop_name up (fragments fl ! k)"
      using plan_lookup [OF fit Some [unfolded ix]] unfolding ix by metis
    with Some t show ?thesis using found by (simp add: target_list_def)
  qed
qed

lemma render_template_eq:
  assumes "plan_env up e" "good_target e target i" "scope_inv c"
  shows "render_template_attr_value e i target c = lex_template e (env_of c) i"
  using assms(1,2)
proof (cases rule: target_list_cases)
  case (found fl l)
  have "resolve_value_owned e c = lex_resolve (e_state e) (env_of c)"
    using resolve_owned_eq [OF assms(3)] by (simp add: fun_eq_iff)
  with found show ?thesis by (simp add: render_template_attr_value_def lex_template_def)
qed (simp add: render_template_attr_value_def lex_template_def)

lemma collect_not:
  "\<not> (c_collecting c \<and> \<not> attr_skip a) \<Longrightarrow> run_then (doc_do x) (collecting a f) c = doc_do x c"
  "\<not> (c_collecting c \<and> \<not> attr_skip a) \<Longrightarrow> collecting a f c = run_ok c"
  by (auto simp: run_then_def doc_do_def collecting_def run_when_def run_ok_def split: prod.split sum.split)

lemma scalar_simps [simp]: "scalar (JBool b)" "scalar (JString s)" "scalar JNull" "scalar (JNumber n)"
  by (simp_all add: scalar_def)

text \<open>
  An attribute whose value comes from a path is stored borrowed or owned; either way the
  component sees the value of the path.
\<close>

lemma stored_value:
  fixes e :: "'w env" and c :: "'w ctx"
  assumes inv: "scope_inv c" and v: "lex_resolve (e_state e) (env_of c) path = Some v"
    and coll: "c_collecting c \<and> \<not> attr_skip a"
  shows "\<exists>f :: 'w ctx run. (\<forall>\<rho>. sim \<rho> (collecting a f) (lex_set a name v)) \<and>
    (case state_backed_in_ctx e c path of Some w \<Rightarrow> set_borrowed_attr name w | None \<Rightarrow> set_owned_attr name v) = f"
  using backed_cases [OF inv, of e path] v sim_set_owned sim_set_borrowed by (auto split: option.splits)

lemma sim_complex:
  fixes e :: "'w env"
  shows "sim \<rho> (process_complex_attribute e a name)
    (case lex_resolve (e_state e) \<rho> (attr_value a) of Some v \<Rightarrow> lex_set a name v | None \<Rightarrow> run_ok)"
proof (rule sim_related)
  fix c :: "'w ctx" and l :: "'w lex" assume r: "related \<rho> c l"
  then have inv: "scope_inv c" and rho: "\<rho> = env_of c" by (simp_all add: related_def)
  note own = resolve_owned_eq [OF inv, of e "attr_value a"] and bk = backed_cases [OF inv, of e "attr_value a"]
  show "\<exists>a' b'. process_complex_attribute e a name c = a' c \<and>
      (case lex_resolve (e_state e) \<rho> (attr_value a) of Some v \<Rightarrow> lex_set a name v | None \<Rightarrow> run_ok) l = b' l \<and> sim \<rho> a' b'"
  proof (cases "lex_resolve (e_state e) \<rho> (attr_value a)")
    case None
    with own bk rho have "process_complex_attribute e a name c = run_ok c"
      by (auto simp: process_complex_attribute_def split: option.splits)
    with None show ?thesis using sim_ok by fastforce
  next
    case (Some v)
    show ?thesis
    proof (cases "c_collecting c \<and> \<not> attr_skip a")
      case True
      from stored_value [OF inv Some [unfolded rho] True, of name] obtain f :: "'w ctx run" where
        f: "\<forall>\<rho>. sim \<rho> (collecting a f) (lex_set a name v)"
        "(case state_backed_in_ctx e c (attr_value a) of Some w \<Rightarrow> set_borrowed_attr name w | None \<Rightarrow> set_owned_attr name v) = f"
        by blast
      have "process_complex_attribute e a name c = collecting a f c"
        using True own Some rho f(2)
        by (auto simp: process_complex_attribute_def collecting_def run_when_def split: option.splits)
      with f(1) Some show ?thesis by fastforce
    next
      case False
      then have "process_complex_attribute e a name c = collecting a (set_borrowed_attr name v) c"
        by (auto simp: process_complex_attribute_def collect_not(2))
      with Some sim_set_borrowed [of \<rho> a name v] show ?thesis by fastforce
    qed
  qed
qed

lemma sim_dynamic:
  fixes e :: "'w env"
  shows "sim \<rho> (process_dynamic_attribute e a name)
    (let v = lex_resolve (e_state e) \<rho> (attr_value a) in
     run_then (lex_do (write_dynamic_value e (attr_name a) v)) (lex_set a name (case v of Some w \<Rightarrow> w | None \<Rightarrow> JString [])))"
proof (rule sim_related)
  fix c :: "'w ctx" and l :: "'w lex" assume r: "related \<rho> c l"
  then have inv: "scope_inv c" and rho: "\<rho> = env_of c" by (simp_all add: related_def)
  let ?v = "lex_resolve (e_state e) \<rho> (attr_value a)"
  let ?w = "case ?v of Some w \<Rightarrow> w | None \<Rightarrow> JString []"
  note own = resolve_owned_eq [OF inv, of e "attr_value a"] and bk = backed_cases [OF inv, of e "attr_value a"]
  have "\<exists>f :: 'w ctx run. sim \<rho> (collecting a f) (lex_set a name ?w) \<and>
      process_dynamic_attribute e a name c = run_then (doc_do (write_dynamic_value e (attr_name a) ?v)) (collecting a f) c"
  proof (cases "state_backed_in_ctx e c (attr_value a)")
    case None
    with bk rho have "scalar ?w" by (auto split: option.splits)
    moreover have "process_dynamic_attribute e a name c =
        run_then (doc_do (write_dynamic_value e (attr_name a) ?v)) (collecting a (set_owned_attr name ?w)) c"
      using None own rho by (simp add: process_dynamic_attribute_def Let_def collect_later)
    ultimately show ?thesis using sim_set_owned by blast
  next
    case (Some u)
    with bk rho have u: "?v = Some u" by simp
    have "process_dynamic_attribute e a name c =
        run_then (doc_do (write_dynamic_value e (attr_name a) ?v)) (collecting a (set_borrowed_attr name u)) c"
      using Some own rho u
      by (cases "c_collecting c \<and> \<not> attr_skip a")
        (simp_all add: process_dynamic_attribute_def Let_def collect_not(1) run_when_def,
          auto simp: run_then_def doc_do_def run_ok_def collecting_def run_when_def split: prod.split sum.split)
    with u show ?thesis using sim_set_borrowed by fastforce
  qed
  then obtain f :: "'w ctx run" where f: "sim \<rho> (collecting a f) (lex_set a name ?w)"
    "process_dynamic_attribute e a name c = run_then (doc_do (write_dynamic_value e (attr_name a) ?v)) (collecting a f) c"
    by blast
  show "\<exists>a' b'. process_dynamic_attribute e a name c = a' c \<and>
    (let v = ?v in run_then (lex_do (write_dynamic_value e (attr_name a) v))
       (lex_set a name (case v of Some w \<Rightarrow> w | None \<Rightarrow> JString []))) l = b' l \<and> sim \<rho> a' b'"
    unfolding f(2) Let_def
    by (rule exI, rule exI, rule conjI [OF refl], rule conjI [OF refl]) (intro sim_then sim_doc f(1))
qed

lemma sim_condition:
  fixes e :: "'w env"
  assumes "\<And>err. sim \<rho> (run_fail err) (k' (Inl err))" "\<And>met. sim \<rho> (k met) (k' (Inr met))"
    and "\<And>c. a c = (case condition_in_ctx e c cond of Inl err \<Rightarrow> run_fail err c | Inr met \<Rightarrow> k met c)"
  shows "sim \<rho> a (k' (lex_condition e \<rho> cond))"
proof (rule sim_related)
  fix c :: "'w ctx" and l :: "'w lex" assume "related \<rho> c l"
  then have "condition_in_ctx e c cond = lex_condition e \<rho> cond"
    using condition_eq [of c e] by (auto simp: related_def)
  then show "\<exists>a' b'. a c = a' c \<and> k' (lex_condition e \<rho> cond) l = b' l \<and> sim \<rho> a' b'"
    using assms by (cases "lex_condition e \<rho> cond") auto
qed

lemma sim_boolean_attribute:
  "sim \<rho> (\<lambda>c. case condition_in_ctx e c cond of
       Inl err \<Rightarrow> run_fail err c
     | Inr met \<Rightarrow> run_then (run_when (c_collecting c \<and> \<not> attr_skip a) (set_owned_attr name (JBool met)))
         (doc_do (when_do met (seq [put e '' '', put e (attr_name a)]))) c)
    (case lex_condition e \<rho> cond of
       Inl err \<Rightarrow> run_fail err
     | Inr met \<Rightarrow> run_then (lex_set a name (JBool met)) (lex_do (when_do met (seq [put e '' '', put e (attr_name a)]))))"
  by (rule sim_condition [where k = "\<lambda>met. run_then (collecting a (set_owned_attr name (JBool met)))
        (doc_do (when_do met (seq [put e '' '', put e (attr_name a)])))"])
    (auto simp: collect_first split: sum.split intro!: sim_rules)

lemma sim_template_attribute:
  fixes e :: "'w env"
  assumes "plan_env up e" "good_target e target (attr_template a)"
  shows "sim \<rho> (\<lambda>c. if \<not> c_collecting c \<or> attr_skip a then write_template_attribute e a target c
       else (case render_template_attr_value e (attr_template a) target c of
         Inl err \<Rightarrow> run_fail err c
       | Inr raw_value \<Rightarrow> run_then (doc_do (wr (e_put_escaped_attribute e (attr_name a) raw_value)))
           (run_when (c_collecting c \<and> \<not> attr_skip a) (set_owned_attr name (JString raw_value))) c))
    (case lex_template e \<rho> (attr_template a) of
       Inl err \<Rightarrow> run_fail err
     | Inr v \<Rightarrow> run_then (lex_do (wr (e_put_escaped_attribute e (attr_name a) v))) (lex_set a name (JString v)))"
    (is "sim \<rho> ?a (?b (lex_template e \<rho> (attr_template a)))")
proof (rule sim_related)
  fix c :: "'w ctx" and l :: "'w lex" assume "related \<rho> c l"
  then have v: "render_template_attr_value e (attr_template a) target c = lex_template e \<rho> (attr_template a)"
    using render_template_eq [OF assms] by (auto simp: related_def)
  show "\<exists>a' b'. ?a c = a' c \<and> ?b (lex_template e \<rho> (attr_template a)) l = b' l \<and> sim \<rho> a' b'"
  proof (cases "lex_template e \<rho> (attr_template a)")
    case (Inl err)
    with v have "?a c = run_fail err c" by (simp add: write_template_attribute_def)
    with Inl sim_fail show ?thesis by fastforce
  next
    case (Inr v)
    let ?f = "run_then (doc_do (wr (e_put_escaped_attribute e (attr_name a) v))) (collecting a (set_owned_attr name (JString v)))"
    have "?a c = ?f c"
      using v Inr collect_later [of _ c a] by (auto simp: write_template_attribute_def collect_not(1))
    moreover have "sim \<rho> ?f (run_then (lex_do (wr (e_put_escaped_attribute e (attr_name a) v))) (lex_set a name (JString v)))"
      by (intro sim_rules) simp
    ultimately show ?thesis using Inr by fastforce
  qed
qed

lemma sim_static_attribute:
  "sim \<rho> (\<lambda>c. run_then (doc_do x) (run_when (c_collecting c \<and> \<not> attr_skip a) (set_owned_attr name (JString s))) c)
    (run_then (lex_do x) (lex_set a name (JString s)))"
  unfolding collect_later by (intro sim_rules) simp

lemma frame_begin: "frame c (attr_begin a c)"
  by (simp add: frame_def attr_begin_def)

lemma sim_attribute:
  assumes plan: "plan_env up e" and target: "attr_template a \<noteq> [] \<Longrightarrow> good_target e target (attr_template a)"
  shows "sim \<rho> (process_attribute e a target name) (lex_attribute e \<rho> name a)"
proof -
  have eq: "process_attribute e a target name = run_then (\<lambda>c. (Inr (), attr_begin a c)) (process_attribute_body e a target name)"
    by (simp add: fun_eq_iff process_attribute_def run_then_def)
  have start: "sim \<rho> (\<lambda>c. (Inr (), attr_begin a c))
      (\<lambda>l. (Inr (), if attr_start a then l\<lparr>l_attrs := Map.empty, l_collecting := True\<rparr> else l))"
    by (rule simI, rule disjI2, intro exI conjI, rule refl, rule refl, erule attrs_related(3), rule frame_begin)
  show ?thesis
    unfolding eq lex_attribute_def
  proof (rule sim_then [OF start])
    show "sim \<rho> (process_attribute_body e a target name)
     (case attr_condition_tree a of
        Some condition \<Rightarrow> (case lex_condition e \<rho> condition of
          Inl err \<Rightarrow> run_fail err
        | Inr met \<Rightarrow> run_then (lex_set a name (JBool met)) (lex_do (when_do met (seq [put e '' '', put e (attr_name a)]))))
      | None \<Rightarrow>
          if attr_template a \<noteq> [] then
            (case lex_template e \<rho> (attr_template a) of
               Inl err \<Rightarrow> run_fail err
             | Inr v \<Rightarrow> run_then (lex_do (wr (e_put_escaped_attribute e (attr_name a) v))) (lex_set a name (JString v)))
          else if attr_raw_value a then
            run_then (lex_do (wr (e_put_escaped_attribute e (attr_name a) (attr_value a)))) (lex_set a name (JString (attr_value a)))
          else if attr_value a = [] then run_ok
          else if attr_complex a then
            (case lex_resolve (e_state e) \<rho> (attr_value a) of Some v \<Rightarrow> lex_set a name v | None \<Rightarrow> run_ok)
          else (let v = lex_resolve (e_state e) \<rho> (attr_value a) in
            run_then (lex_do (write_dynamic_value e (attr_name a) v))
              (lex_set a name (case v of Some w \<Rightarrow> w | None \<Rightarrow> JString []))))"
      unfolding process_attribute_body_def [abs_def] Let_def [of "c_collecting _ \<and> _"]
      using sim_boolean_attribute [where \<rho> = \<rho> and e = e and a = a and name = name] sim_template_attribute [OF plan target, where \<rho> = \<rho> and name = name]
        sim_complex [where \<rho> = \<rho> and e = e and a = a and name = name]
        sim_dynamic [where \<rho> = \<rho> and e = e and a = a and name = name] sim_static_attribute sim_ok
      by (auto split: option.split)
  qed
qed

subsection \<open>Conditions and loops\<close>

lemma sim_if:
  assumes "sim \<rho> (rec target (if_fragment_id ic)) (rec' \<rho> (if_fragment_id ic))"
  shows "sim \<rho> (process_if e rec ic target) (lex_if e rec' \<rho> ic)"
proof (cases "if_condition ic")
  case None
  then show ?thesis using sim_fail by (simp add: process_if_def [abs_def] lex_if_def)
next
  case (Some cond)
  have "sim \<rho> (process_if e rec ic target)
      ((\<lambda>r. case r of Inl err \<Rightarrow> run_fail err | Inr met \<Rightarrow> run_when met (rec' \<rho> (if_fragment_id ic))) (lex_condition e \<rho> cond))"
    by (rule sim_condition [where k = "\<lambda>met. run_when met (rec target (if_fragment_id ic))"])
      (auto simp: process_if_def Some intro!: sim_rules assms split: sum.split)
  with Some show ?thesis by (simp add: lex_if_def)
qed

text \<open>Binding a loop variable, in a scope that has no local of its name.\<close>

definition bind_loop :: "string \<Rightarrow> json \<Rightarrow> 'w ctx \<Rightarrow> 'w ctx" where
  "bind_loop name item c = (let loop_vars = c_loop_vars c @ [(name, item)] in
     c\<lparr>c_loop_vars := loop_vars, c_visible := (c_visible c)\<lparr>v_end := length loop_vars\<rparr>\<rparr>)"

lemma visible_bind:
  assumes "scope_inv c"
  shows "visible_bindings (c_loop_vars (bind_loop n x c)) (c_visible (bind_loop n x c)) =
      visible_bindings (c_loop_vars c) (c_visible c) @ [(n, x)]"
  using assms by (simp add: bind_loop_def Let_def visible_bindings_def scope_inv_def Suc_diff_le)

lemma bind_loop_sel [simp]:
  "c_local_vars (bind_loop n x c) = c_local_vars c" "c_local_borrowed (bind_loop n x c) = c_local_borrowed c"
  "c_attrs (bind_loop n x c) = c_attrs c" "c_borrowed_attrs (bind_loop n x c) = c_borrowed_attrs c"
  "c_doc (bind_loop n x c) = c_doc c" "c_collecting (bind_loop n x c) = c_collecting c"
  "c_scope_pool (bind_loop n x c) = c_scope_pool c" "c_borrowed_pool (bind_loop n x c) = c_borrowed_pool c"
  "c_loop_vars (bind_loop n x c) = c_loop_vars c @ [(n, x)]"
  "v_start (c_visible (bind_loop n x c)) = v_start (c_visible c)"
  "v_end (c_visible (bind_loop n x c)) = length (c_loop_vars c) + 1"
  by (simp_all add: bind_loop_def Let_def)

lemma related_bind:
  assumes r: "related \<rho> c l" and plain: "CHR ''.'' \<notin> set n"
    and hidden: "map_of (c_local_vars c) n = None" "scope_of (c_local_borrowed c) n = None"
  shows "related (\<rho>(n \<mapsto> x)) (bind_loop n x c) l"
proof -
  have inv: "scope_inv c" using r by (simp add: related_def)
  note vis = visible_bind [OF inv, of n x]
  have "scope_inv (bind_loop n x c)"
    using inv plain hidden unfolding scope_inv_def vis by (auto simp: names_plain_def)
  moreover have "env_of (bind_loop n x c) = (env_of c)(n \<mapsto> x)"
    unfolding env_of_def vis by (simp add: fun_eq_iff map_add_def)
  ultimately show ?thesis using r by (simp add: related_def attrs_of_def)
qed

lemma related_unbind:
  assumes inv: "scope_inv c" and r: "related \<rho> c' l'" and f: "frame (bind_loop n x c) c'"
  defines "c'' \<equiv> c'\<lparr>c_loop_vars := butlast (c_loop_vars c'), c_visible := c_visible c\<rparr>"
  shows "related (env_of c) c'' l'" "frame c c''"
proof -
  have eq: "c_loop_vars c' = c_loop_vars c @ [(n, x)]" "map_of (c_local_vars c') = map_of (c_local_vars c)"
    "scope_of (c_local_borrowed c') = scope_of (c_local_borrowed c)"
    using f by (simp_all add: frame_def)
  then show "frame c c''" by (simp add: frame_def c''_def)
  have "scope_inv c''"
    using inv r eq unfolding related_def scope_inv_def c''_def by simp
  moreover have "env_of c'' = env_of c" using eq by (simp add: env_of_def c''_def)
  ultimately show "related (env_of c) c'' l'"
    using r by (simp add: related_def attrs_of_def c''_def)
qed

lemma items_sim:
  assumes rec: "\<And>x. sim (\<rho>(for_item fl \<mapsto> x)) (rec target (for_fragment_id fl)) (rec' (\<rho>(for_item fl \<mapsto> x)) (for_fragment_id fl))"
    and plain: "CHR ''.'' \<notin> set (for_item fl)"
  shows "related \<rho>0 c l \<Longrightarrow> (\<And>x. \<rho>0(for_item fl \<mapsto> x) = \<rho>(for_item fl \<mapsto> x)) \<Longrightarrow>
    map_of (c_local_vars c) (for_item fl) = None \<Longrightarrow> scope_of (c_local_borrowed c) (for_item fl) = None \<Longrightarrow> saved = c_visible c \<Longrightarrow>
    (\<exists>x c' l'. borrowed_items_loop rec fl target saved items c = (Inl x, c') \<and>
       runs (map (\<lambda>x. rec' (\<rho>(for_item fl \<mapsto> x)) (for_fragment_id fl)) items) l = (Inl x, l') \<and> c_doc c' = l_doc l') \<or>
    (\<exists>c' l'. borrowed_items_loop rec fl target saved items c = (Inr (), c') \<and>
       runs (map (\<lambda>x. rec' (\<rho>(for_item fl \<mapsto> x)) (for_fragment_id fl)) items) l = (Inr (), l') \<and> related \<rho>0 c' l' \<and> frame c c')"
proof (induction items arbitrary: c l)
  case Nil
  then show ?case by (simp add: run_ok_def runs_def)
next
  case (Cons x items)
  let ?n = "for_item fl"
  have b: "related (\<rho>(?n \<mapsto> x)) (bind_loop ?n x c) l"
    using related_bind [OF Cons.prems(1) plain Cons.prems(3,4), of x] unfolding Cons.prems(2) .
  have inv: "scope_inv c" and env: "env_of c = \<rho>0" using Cons.prems(1) by (simp_all add: related_def)
  have step: "borrowed_items_loop rec fl target saved (x # items) c =
      (case rec target (for_fragment_id fl) (bind_loop ?n x c) of
         (Inl s, c') \<Rightarrow> (Inl s, c')
       | (Inr _, c') \<Rightarrow> borrowed_items_loop rec fl target saved items
           (c'\<lparr>c_loop_vars := butlast (c_loop_vars c'), c_visible := c_visible c\<rparr>))"
    unfolding Cons.prems(5) by (simp add: bind_loop_def Let_def)
  from rec [of x] b show ?case
  proof (cases rule: sim_cases)
    case (stop s c' l')
    then show ?thesis unfolding step by (simp add: runs_def run_then_def del: fun_upd_apply)
  next
    case (go c' l')
    let ?c = "c'\<lparr>c_loop_vars := butlast (c_loop_vars c'), c_visible := c_visible c\<rparr>"
    note un = related_unbind [OF inv go(3,4)]
    have un1: "related \<rho>0 ?c l'" using un(1) env by simp
    have f: "frame c ?c" by (rule un(2))
    then have "map_of (c_local_vars ?c) ?n = None" "scope_of (c_local_borrowed ?c) ?n = None" "saved = c_visible ?c"
      using Cons.prems by (simp_all add: frame_def)
    from Cons.IH [OF un1 Cons.prems(2) this] show ?thesis
      unfolding step go(1) using go(2) frame_trans [OF f] by (auto simp: runs_def run_then_def simp del: fun_upd_apply)
  qed
qed

text \<open>A scope with other representations of the same maps.\<close>

lemma same_scope:
  assumes "related \<rho> c l" "related \<rho>' c' l'"
    and "map_of m = map_of (c_local_vars c)" "scope_ok s" "scope_of s = scope_of (c_local_borrowed c)"
    and "c_loop_vars c' = c_loop_vars c" "c_visible c' = c_visible c"
  shows "related \<rho> (c'\<lparr>c_local_vars := m, c_local_borrowed := s\<rparr>) l'"
    "frame c (c'\<lparr>c_local_vars := m, c_local_borrowed := s\<rparr>)"
proof -
  have "scope_pair_ok m s" using assms by (simp add: related_def scope_inv_def scope_pair_ok_def)
  with assms show "related \<rho> (c'\<lparr>c_local_vars := m, c_local_borrowed := s\<rparr>) l'"
    by (simp add: related_def scope_inv_def env_of_def attrs_of_def)
  show "frame c (c'\<lparr>c_local_vars := m, c_local_borrowed := s\<rparr>)"
    using assms by (simp add: frame_def)
qed

text \<open>Hiding a name from the locals before a loop.\<close>

lemma related_hide:
  fixes n :: string
  assumes r: "related \<rho> c l"
  defines "c1 \<equiv> c\<lparr>c_local_vars := snd (owned_remove n (c_local_vars c)), c_local_borrowed := snd (scope_remove n (c_local_borrowed c))\<rparr>"
  shows "related (env_of c1) c1 l" "(env_of c1)(n \<mapsto> x) = \<rho>(n \<mapsto> x)"
    "map_of (c_local_vars c1) = (map_of (c_local_vars c))(n := None)"
    "scope_ok (c_local_borrowed c1)" "scope_of (c_local_borrowed c1) = (scope_of (c_local_borrowed c))(n := None)"
proof -
  have inv: "scope_inv c" and env: "\<rho> = env_of c" using r by (simp_all add: related_def)
  have pair: "scope_pair_ok (c_local_vars c) (c_local_borrowed c)" using inv by (simp add: scope_inv_def)
  then have ok: "scope_ok (c_local_borrowed c)" by (simp add: scope_pair_ok_def)
  show m: "map_of (c_local_vars c1) = (map_of (c_local_vars c))(n := None)"
    by (simp add: c1_def owned_remove_def delete_conv')
  show o: "scope_ok (c_local_borrowed c1)" "scope_of (c_local_borrowed c1) = (scope_of (c_local_borrowed c))(n := None)"
    using ok by (simp_all add: c1_def)
  have "scope_pair_ok (c_local_vars c1) (c_local_borrowed c1)"
    using pair unfolding scope_pair_ok_def m o(2) by (auto simp: o(1))
  then have "scope_inv c1"
    using inv unfolding scope_inv_def m o(2) by (auto simp: c1_def)
  then show "related (env_of c1) c1 l"
    using r by (simp add: related_def attrs_of_def c1_def)
  show "(env_of c1)(n \<mapsto> x) = \<rho>(n \<mapsto> x)"
    unfolding env env_of_def m o(2) by (auto simp: c1_def fun_eq_iff map_add_def split: option.split)
qed

lemma restored:
  fixes c' :: "'w ctx"
  assumes "scope_ok (c_local_borrowed c')" "map_of (c_local_vars c') = M(n := None)" "scope_of (c_local_borrowed c') = S(n := None)"
  shows "\<exists>m s. restore_borrowed n (S n) (restore_owned n (M n) c') = c'\<lparr>c_local_vars := m, c_local_borrowed := s\<rparr> \<and>
    map_of m = M \<and> scope_ok s \<and> scope_of s = S"
proof -
  let ?m = "case M n of Some v \<Rightarrow> snd (owned_insert n v (c_local_vars c')) | None \<Rightarrow> c_local_vars c'"
  let ?s = "case S n of Some v \<Rightarrow> snd (scope_insert n v (c_local_borrowed c')) | None \<Rightarrow> c_local_borrowed c'"
  have "restore_borrowed n (S n) (restore_owned n (M n) c') = c'\<lparr>c_local_vars := ?m, c_local_borrowed := ?s\<rparr>"
    by (simp add: restore_borrowed_def restore_owned_def split: option.split)
  moreover have "map_of ?m = M"
    using assms(2) by (auto simp: owned_insert_def update_conv' fun_eq_iff split: option.split)
  moreover have "scope_ok ?s" "scope_of ?s = S"
    using assms(1,3) by (auto simp: fun_eq_iff split: option.split)
  ultimately show ?thesis by blast
qed

lemma borrowed_for_sim:
  fixes c :: "'w ctx"
  assumes rec: "\<And>x. sim (\<rho>(for_item fl \<mapsto> x)) (rec target (for_fragment_id fl)) (rec' (\<rho>(for_item fl \<mapsto> x)) (for_fragment_id fl))"
    and plain: "CHR ''.'' \<notin> set (for_item fl)" and r: "related \<rho> c l"
  shows "(\<exists>x c' l'. process_borrowed_for_loop rec fl target items c = (Inl x, c') \<and>
       runs (map (\<lambda>x. rec' (\<rho>(for_item fl \<mapsto> x)) (for_fragment_id fl)) items) l = (Inl x, l') \<and> c_doc c' = l_doc l') \<or>
    (\<exists>c' l'. process_borrowed_for_loop rec fl target items c = (Inr (), c') \<and>
       runs (map (\<lambda>x. rec' (\<rho>(for_item fl \<mapsto> x)) (for_fragment_id fl)) items) l = (Inr (), l') \<and> related \<rho> c' l' \<and> frame c c')"
proof -
  let ?n = "for_item fl"
  define c1 where "c1 = c\<lparr>c_local_vars := snd (owned_remove ?n (c_local_vars c)),
    c_local_borrowed := snd (scope_remove ?n (c_local_borrowed c))\<rparr>"
  note hide = related_hide [OF r, of ?n, folded c1_def]
  have ok: "scope_ok (c_local_borrowed c)" using r by (simp add: related_def scope_invD)
  have vis: "c_visible c1 = c_visible c" "c_loop_vars c1 = c_loop_vars c" by (simp_all add: c1_def)
  have fors: "process_borrowed_for_loop rec fl target items c =
      (case borrowed_items_loop rec fl target (c_visible c) items c1 of
         (Inl x, c') \<Rightarrow> (Inl x, c')
       | (Inr _, c') \<Rightarrow> (Inr (), restore_borrowed ?n (scope_of (c_local_borrowed c) ?n) (restore_owned ?n (map_of (c_local_vars c) ?n) c')))"
    using bscope.del_abs [OF ok, of ?n "fst (scope_remove ?n (c_local_borrowed c))" "snd (scope_remove ?n (c_local_borrowed c))"]
    by (auto simp: process_borrowed_for_loop_def c1_def owned_remove_def split: prod.split)
  have "map_of (c_local_vars c1) ?n = None" "scope_of (c_local_borrowed c1) ?n = None" using hide(3,5) by simp_all
  from items_sim [where rec = rec and rec' = rec' and \<rho> = \<rho> and fl = fl and target = target, OF rec plain hide(1,2) this vis(1) [symmetric]] consider
      (stop) x c' l' where "borrowed_items_loop rec fl target (c_visible c) items c1 = (Inl x, c')"
        "runs (map (\<lambda>x. rec' (\<rho>(?n \<mapsto> x)) (for_fragment_id fl)) items) l = (Inl x, l')" "c_doc c' = l_doc l'"
    | (go) c' l' where "borrowed_items_loop rec fl target (c_visible c) items c1 = (Inr (), c')"
        "runs (map (\<lambda>x. rec' (\<rho>(?n \<mapsto> x)) (for_fragment_id fl)) items) l = (Inr (), l')" "related (env_of c1) c' l'" "frame c1 c'"
    by blast
  then show ?thesis
  proof cases
    case stop
    then show ?thesis unfolding fors by (simp del: fun_upd_apply)
  next
    case go
    have eq: "scope_ok (c_local_borrowed c')" "map_of (c_local_vars c') = (map_of (c_local_vars c))(?n := None)"
      "scope_of (c_local_borrowed c') = (scope_of (c_local_borrowed c))(?n := None)"
      "c_loop_vars c' = c_loop_vars c" "c_visible c' = c_visible c"
      using go(3,4) hide(3,5) vis by (simp_all add: frame_def related_def scope_invD)
    from restored [OF eq(1-3)] obtain m s where ms: "restore_borrowed ?n (scope_of (c_local_borrowed c) ?n)
        (restore_owned ?n (map_of (c_local_vars c) ?n) c') = c'\<lparr>c_local_vars := m, c_local_borrowed := s\<rparr>"
      "map_of m = map_of (c_local_vars c)" "scope_ok s" "scope_of s = scope_of (c_local_borrowed c)" by blast
    from same_scope [OF r go(3) ms(2-4) eq(4,5)] go(1,2) ms(1) show ?thesis unfolding fors by (auto simp del: fun_upd_apply)
  qed
qed

text \<open>A collection that is not an array of the state: nothing is repeated, the locals come back.\<close>

lemma owned_for_empty:
  assumes r: "related \<rho> c l" and v: "lex_resolve (e_state e) \<rho> (for_collection fl) = None"
  shows "\<exists>c'. process_owned_for_loop e rec fl target c = (Inr (), c') \<and> related \<rho> c' l \<and> frame c c'"
proof -
  let ?n = "for_item fl"
  define c1 where "c1 = c\<lparr>c_local_vars := snd (owned_remove ?n (c_local_vars c)),
    c_local_borrowed := snd (scope_remove ?n (c_local_borrowed c))\<rparr>"
  note hide = related_hide [OF r, of ?n, folded c1_def]
  have ok: "scope_ok (c_local_borrowed c)" and inv: "scope_inv c" and env: "env_of c = \<rho>"
    using r by (simp_all add: related_def scope_invD)
  have "resolve_value_owned e c (for_collection fl) = None"
    using v env resolve_owned_eq [OF inv] by simp
  then have fors: "process_owned_for_loop e rec fl target c =
      (Inr (), restore_borrowed ?n (scope_of (c_local_borrowed c) ?n) (c1\<lparr>c_local_vars :=
        (case map_of (c_local_vars c) ?n of Some v \<Rightarrow> snd (owned_insert ?n v (c_local_vars c1)) | None \<Rightarrow> snd (owned_remove ?n (c_local_vars c1)))\<rparr>))"
    using bscope.del_abs [OF ok, of ?n "fst (scope_remove ?n (c_local_borrowed c))" "snd (scope_remove ?n (c_local_borrowed c))"]
    unfolding c1_def by (auto simp: process_owned_for_loop_def owned_remove_def run_ok_def split: prod.split option.split)
  define c2 where "c2 = c1\<lparr>c_local_vars := (if map_of (c_local_vars c) ?n = None
    then snd (owned_remove ?n (c_local_vars c1)) else c_local_vars c1)\<rparr>"
  have eq: "process_owned_for_loop e rec fl target c =
      (Inr (), restore_borrowed ?n (scope_of (c_local_borrowed c) ?n) (restore_owned ?n (map_of (c_local_vars c) ?n) c2))"
    unfolding fors by (auto simp: c2_def restore_owned_def split: option.split)
  have "map_of (c_local_vars c2) = (map_of (c_local_vars c))(?n := None)"
    using hide(3) by (auto simp: c2_def owned_remove_def delete_conv')
  from restored [OF _ this, of "scope_of (c_local_borrowed c)"] hide(4,5) obtain m s where ms:
    "restore_borrowed ?n (scope_of (c_local_borrowed c) ?n) (restore_owned ?n (map_of (c_local_vars c) ?n) c2) =
       c2\<lparr>c_local_vars := m, c_local_borrowed := s\<rparr>"
    "map_of m = map_of (c_local_vars c)" "scope_ok s" "scope_of s = scope_of (c_local_borrowed c)"
    by (auto simp: c2_def)
  have same: "c2\<lparr>c_local_vars := m, c_local_borrowed := s\<rparr> = c\<lparr>c_local_vars := m, c_local_borrowed := s\<rparr>"
    by (simp add: c2_def c1_def)
  from same_scope [OF r r ms(2-4) refl refl] show ?thesis unfolding eq ms(1) same by blast
qed

lemma sim_for:
  fixes e :: "'w env"
  assumes rec: "\<And>\<rho>. sim \<rho> (rec target (for_fragment_id fl)) (rec' \<rho> (for_fragment_id fl))"
    and plain: "CHR ''.'' \<notin> set (for_item fl)"
  shows "sim \<rho> (process_for_loop e rec fl target) (lex_for e rec' \<rho> fl)"
proof (rule simI)
  fix c :: "'w ctx" and l :: "'w lex" assume r: "related \<rho> c l"
  have inv: "scope_inv c" and env: "env_of c = \<rho>" and d: "c_doc c = l_doc l" using r by (simp_all add: related_def)
  note coll = collection_cases [OF inv, of "for_collection fl" e, unfolded env]
  note own = resolve_owned_eq [OF inv, of e "for_collection fl", unfolded env]
  let ?v = "lex_resolve (e_state e) \<rho> (for_collection fl)"
  show "(\<exists>x c' l'. process_for_loop e rec fl target c = (Inl x, c') \<and> lex_for e rec' \<rho> fl l = (Inl x, l') \<and> c_doc c' = l_doc l') \<or>
      (\<exists>c' l'. process_for_loop e rec fl target c = (Inr (), c') \<and> lex_for e rec' \<rho> fl l = (Inr (), l') \<and> related \<rho> c' l' \<and> frame c c')"
  proof (cases "\<exists>xs. ?v = Some (JArray xs)")
    case True
    then obtain xs where xs: "?v = Some (JArray xs)" by blast
    with borrowed_for_sim [where \<rho> = \<rho> and fl = fl and rec = rec and target = target and rec' = rec', OF rec plain r, of xs] coll
    show ?thesis by (simp add: process_for_loop_def lex_for_def del: fun_upd_apply)
  next
    case False
    with coll have none: "process_for_loop e rec fl target c = process_owned_for_loop e rec fl target c"
      by (auto simp: process_for_loop_def split: option.splits json.splits)
    show ?thesis
    proof (cases ?v)
      case None
      with owned_for_empty [OF r None, of rec target] show ?thesis
        unfolding none by (auto simp: lex_for_def run_ok_def)
    next
      case (Some v)
      let ?err = "HTypeError (''Collection '' @ [CHR 0x27] @ for_collection fl @ [CHR 0x27] @ '' is not an array'')"
      have "process_owned_for_loop e rec fl target c = run_fail ?err c" "lex_for e rec' \<rho> fl l = run_fail ?err l"
        using Some False own by (cases v; simp add: process_owned_for_loop_def lex_for_def)+
      with d show ?thesis unfolding none by (simp add: run_fail_def)
    qed
  qed
qed

subsection \<open>Components\<close>

lemma related_enter:
  assumes r: "related \<rho> c l"
  shows "related (l_attrs l) (enter_component c) (l\<lparr>l_attrs := Map.empty, l_collecting := False\<rparr>)"
proof -
  obtain m pool where t: "take_scope_map (c_scope_pool c) = (m, pool)" by fastforce
  obtain s bpool where b: "take_borrowed_scope (c_borrowed_pool c) = (s, bpool)" by fastforce
  have inv: "scope_inv c" using r by (simp add: related_def)
  have f: "m = []" "s = scope_default" "pools_ok pool bpool"
    using pools_take [OF scope_invD(5) [OF inv] t b] by simp_all
  have vis: "visible_bindings xs \<lparr>v_start = length xs, v_end = length xs\<rparr> = []" for xs :: "loop_binding list"
    by (simp add: visible_bindings_def)
  show ?thesis
    using r f by (simp add: related_def scope_inv_def enter_component_def t b env_of_def attrs_of_def vis)
qed

lemma related_leave:
  assumes r: "related \<rho> c l" and r': "related \<rho>' c' l'" and loops: "c_loop_vars c' = c_loop_vars c"
  shows "related \<rho> (leave_component c (c'\<lparr>c_visible := c_visible c, c_doc := d\<rparr>)) (l'\<lparr>l_doc := d, l_attrs := Map.empty\<rparr>)"
    "frame c (leave_component c (c'\<lparr>c_visible := c_visible c, c_doc := d\<rparr>))"
proof -
  have inv: "scope_inv c'" using r' by (simp add: related_def)
  have p: "pools_ok (recycle_scope_map (c_scope_pool c') (c_local_vars c')) (recycle_borrowed_scope (c_borrowed_pool c') (c_local_borrowed c'))"
    by (rule pools_recycle [OF scope_invD(5) [OF inv] scope_invD(1) [OF inv]])
  show "frame c (leave_component c (c'\<lparr>c_visible := c_visible c, c_doc := d\<rparr>))"
    using loops by (simp add: frame_def leave_component_def)
  show "related \<rho> (leave_component c (c'\<lparr>c_visible := c_visible c, c_doc := d\<rparr>)) (l'\<lparr>l_doc := d, l_attrs := Map.empty\<rparr>)"
    using r r' p loops scope_clear_default [OF scope_invD(2) [OF inv]]
    by (simp add: related_def scope_inv_def leave_component_def env_of_def attrs_of_def)
qed

lemma sim_component_body:
  fixes rec' :: "environment \<Rightarrow> string \<Rightarrow> 'w lex run"
  assumes rec: "\<And>\<rho>. sim \<rho> (rec target fid) (rec' \<rho> fid)"
  shows "sim \<rho> (component_body rec owns fid target) (lex_body rec' owns fid)"
proof (rule simI)
  fix c :: "'w ctx" and l :: "'w lex" assume r: "related \<rho> c l"
  let ?l = "l\<lparr>l_attrs := Map.empty, l_collecting := False\<rparr>"
  define pop where "pop = (if owns then pop_shadow_style_root fid else act_ok :: 'w doc act)"
  note body = component_body_def [of rec owns fid target c, folded pop_def] lex_body_def [of rec' owns fid l, folded pop_def]
  note enter = related_enter [OF r]
  from rec enter show "(\<exists>x c' l'. component_body rec owns fid target c = (Inl x, c') \<and> lex_body rec' owns fid l = (Inl x, l') \<and> c_doc c' = l_doc l') \<or>
      (\<exists>c' l'. component_body rec owns fid target c = (Inr (), c') \<and> lex_body rec' owns fid l = (Inr (), l') \<and> related \<rho> c' l' \<and> frame c c')"
  proof (cases rule: sim_cases)
    case (stop x c' l')
    obtain y d where pop: "pop (l_doc l') = (y, d)" by fastforce
    with stop show ?thesis
      by (cases x; cases y) (simp_all add: body doc_do_def lex_do_def run_then_def)
  next
    case (go c' l')
    obtain y d where pop: "pop (l_doc l') = (y, d)" by fastforce
    have doc: "c_doc c' = l_doc l'" using go(3) by (simp add: related_def)
    have loops: "c_loop_vars c' = c_loop_vars c"
      using go(4) by (simp add: frame_def enter_component_def split: prod.splits)
    note leave = related_leave [OF r go(3) loops, of d]
    show ?thesis
      using go(1,2) pop doc leave
      by (cases y) (simp_all add: body doc_do_def lex_do_def run_then_def)
  qed
qed

lemma sim_component:
  assumes "\<And>\<rho>. sim \<rho> (rec target fid) (rec' \<rho> fid)"
  shows "sim \<rho> (process_component e rec fid target) (lex_component e rec' fid)"
  unfolding process_component_def lex_component_def Let_def
  by (intro sim_rules sim_component_body assms)

subsection \<open>Lists and records\<close>

text \<open>Loop variables whose name is one segment of a path.\<close>

definition plain_loops :: "web_ui_protocol \<Rightarrow> bool" where
  "plain_loops p = list_all (\<lambda>(_, fl). list_all (\<lambda>f. case f of
     Some (FForLoop l) \<Rightarrow> CHR ''.'' \<notin> set (for_item l)
   | _ \<Rightarrow> True) (fragments fl)) (p_fragments p)"

lemma plain_loopsD:
  assumes "plain_loops p" "map_of (p_fragments p) i = Some fl" "Some (FForLoop l) \<in> set (fragments fl)"
  shows "CHR ''.'' \<notin> set (for_item l)"
  using map_of_SomeD [OF assms(2)] assms(1,3) by (fastforce simp: plain_loops_def list_all_iff)

lemma bind_good [simp]: "fragment_target_id f = Some i \<Longrightarrow> good_target e (Option.bind (fragment_target_id f) (ri_index (e_index e))) i"
  by (simp add: good_target_def)

lemma sim_item:
  assumes plan: "plan_env up e"
    and rec: "\<And>\<rho> target i. good_target e target i \<Longrightarrow> sim \<rho> (rec target i) (rec' \<rho> i)"
    and plain: "\<And>l. f = Some (FForLoop l) \<Longrightarrow> CHR ''.'' \<notin> set (for_item l)"
    and target: "rl_target l k = Option.bind (fragment_target_id f) (ri_index (e_index e))"
    and name: "component_attr_name l k = prop_name up f"
  shows "sim \<rho> (process_item e rec l best k f) (lex_item e up rec' \<rho> best f)"
proof -
  have none: "sim \<rho> (rec None i) (rec' \<rho> i)" for \<rho> i by (rule rec) (simp add: good_target_def)
  have good: "good_target e (rl_target l k) i" if "fragment_target_id f = Some i" for i
    using that by (simp add: target good_target_def)
  show ?thesis
  proof (cases f)
    case None
    then show ?thesis by (simp add: process_item_def lex_item_def sim_ok)
  next
    case (Some g)
    show ?thesis
    proof (cases g)
      case (FAttribute a)
      with Some show ?thesis
        by (simp add: process_item_def lex_item_def name) (rule sim_attribute [OF plan good], simp add: fragment_target_id_def)
    next
      case (FForLoop fl)
      with Some show ?thesis
        by (simp add: process_item_def lex_item_def) (intro sim_for rec good plain, simp_all add: fragment_target_id_def)
    next
      case (FIfCond ic)
      with Some show ?thesis
        by (simp add: process_item_def lex_item_def) (intro sim_if rec good, simp_all add: fragment_target_id_def)
    next
      case (FComponent i)
      with Some show ?thesis
        by (simp add: process_item_def lex_item_def) (intro sim_component rec good, simp_all add: fragment_target_id_def)
    next
      case (FRoute r)
      with Some show ?thesis
        by (simp add: process_item_def lex_item_def) (intro sim_route sim_component none)
    next
      case FOutlet
      with Some show ?thesis
        by (simp add: process_item_def lex_item_def) (intro sim_outlet sim_component none)
    qed (simp_all add: Some process_item_def lex_item_def sim_signal sim_ok sim_doc)
  qed
qed

lemma sim_range:
  assumes "\<And>k. k < length fs \<Longrightarrow> sim \<rho> (process_item e rec l best (i + k) (fs ! k)) (lex_item e up rec' \<rho> best (fs ! k))"
  shows "sim \<rho> (process_fragment_range e rec l best i fs) (runs (map (lex_item e up rec' \<rho> best) fs))"
  using assms
proof (induction fs arbitrary: i)
  case Nil
  then show ?case by (simp add: runs_def sim_ok)
next
  case (Cons f fs)
  have "sim \<rho> (process_item e rec l best i f) (lex_item e up rec' \<rho> best f)" using Cons.prems [of 0] by simp
  moreover have "sim \<rho> (process_fragment_range e rec l best (i + 1) fs) (runs (map (lex_item e up rec' \<rho> best) fs))"
    using Cons.prems [of "Suc _"] by (intro Cons.IH) simp
  ultimately show ?case by (simp add: runs_def sim_then)
qed

lemma no_route_no_match: "\<not> list_ex is_route fs \<Longrightarrow> find_best_route_match fs path base index = None"
proof -
  have "best_loop fs ps base index None = None" if "\<not> list_ex is_route fs" for ps
    using that by (induction fs) (auto simp: is_route_def split: option.splits fragment.splits)
  then show "\<not> list_ex is_route fs \<Longrightarrow> ?thesis" by (simp add: find_best_route_match_def)
qed

lemma sim_fragments:
  assumes plan: "plan_env up e" and plain: "plain_loops (e_protocol e)"
    and rec: "\<And>\<rho> target i. good_target e target i \<Longrightarrow> sim \<rho> (rec target i) (rec' \<rho> i)"
    and fl: "map_of (p_fragments (e_protocol e)) i = Some fl"
    and l: "rl_fragments l = fragments fl" "rl_has_routes l = list_ex is_route (fragments fl)"
      "\<And>k. k < length (fragments fl) \<Longrightarrow>
         rl_target l k = Option.bind (fragment_target_id (fragments fl ! k)) (ri_index (e_index e)) \<and>
         component_attr_name l k = prop_name up (fragments fl ! k)"
  shows "sim \<rho> (process_fragment_from e rec l start) (lex_fragments e up rec' \<rho> (fragments fl) start)"
proof -
  have best: "(if rl_has_routes l then find_best_route_match (rl_fragments l) (e_request_path e) b (e_routes e) else None) =
      find_best_route_match (fragments fl) (e_request_path e) b (e_routes e)" for b
    by (simp add: l(1,2) no_route_no_match)
  have item: "sim \<rho> (process_item e rec l best (start + k) (drop start (fragments fl) ! k))
      (lex_item e up rec' \<rho> best (drop start (fragments fl) ! k))" if k: "k < length (drop start (fragments fl))" for k best
  proof (rule sim_item [OF plan rec])
    have "drop start (fragments fl) ! k \<in> set (fragments fl)" using k by (metis in_set_dropD nth_mem)
    then show "CHR ''.'' \<notin> set (for_item fo)" if "drop start (fragments fl) ! k = Some (FForLoop fo)" for fo
      using that plain_loopsD [OF plain fl, of fo] by simp
  qed (use k l(3) [of "start + k"] in auto)
  show ?thesis
    unfolding process_fragment_from_def lex_fragments_def best unfolding l(1)
    by (intro sim_rules sim_range item)
qed

lemma sim_record:
  assumes "plan_env up e" "plain_loops (e_protocol e)"
  shows "good_target e target i \<Longrightarrow> sim \<rho> (process_fragment_target e n target i) (lex_record e up n \<rho> i)"
proof (induction n arbitrary: \<rho> target i)
  case 0
  show ?case by (rule simI) (simp add: related_def)
next
  case (Suc n)
  from assms(1) Suc.prems show ?case
  proof (cases rule: target_list_cases)
    case missing
    then have "process_fragment_target e (Suc n) target i = run_fail (MissingFragment i)"
      "lex_record e up (Suc n) \<rho> i = run_fail (MissingFragment i)" by (simp_all add: fun_eq_iff)
    then show ?thesis by (simp add: sim_fail)
  next
    case (found fl l)
    then have "process_fragment_target e (Suc n) target i = process_fragment_from e (process_fragment_target e n) l 0"
      "lex_record e up (Suc n) \<rho> i = lex_fragments e up (lex_record e up n) \<rho> (fragments fl) 0" by (simp_all add: fun_eq_iff)
    then show ?thesis using sim_fragments [OF assms Suc.IH found(2-5)] by simp
  qed
qed

section \<open>A render\<close>

lemma related_initial:
  "related Map.empty (initial_ctx w) \<lparr>l_doc = initial_doc w, l_attrs = Map.empty, l_collecting = False\<rparr>"
  by (simp add: related_def scope_inv_def initial_ctx_def env_of_def attrs_of_def visible_bindings_def VISIBLE_EMPTY_def
      names_plain_def pools_ok_def)

lemma sim_after:
  assumes "sim \<rho> a b"
  shows "sim \<rho> (\<lambda>c. case a c of (Inl OutOfFuel, c') \<Rightarrow> (Inl OutOfFuel, c') | (r, c') \<Rightarrow> run_then (doc_do x) (\<lambda>c. (r, c)) c')
    (\<lambda>l. case b l of (Inl OutOfFuel, l') \<Rightarrow> (Inl OutOfFuel, l') | (r, l') \<Rightarrow> run_then (lex_do x) (\<lambda>l. (r, l)) l')"
    (is "sim \<rho> ?a ?b")
proof (rule simI)
  fix c :: "'a ctx" and l :: "'a lex" assume r: "related \<rho> c l"
  from assms r show "(\<exists>x c' l'. ?a c = (Inl x, c') \<and> ?b l = (Inl x, l') \<and> c_doc c' = l_doc l') \<or>
      (\<exists>c' l'. ?a c = (Inr (), c') \<and> ?b l = (Inr (), l') \<and> related \<rho> c' l' \<and> frame c c')"
  proof (cases rule: sim_cases)
    case (stop s c' l')
    then show ?thesis
      by (cases s) (auto simp: run_then_def doc_do_def lex_do_def split: prod.split sum.split)
  next
    case (go c' l')
    from sim_doc [of \<rho> x] go(3) show ?thesis
      by (cases rule: sim_cases) (auto simp: go(1,2) run_then_def intro: frame_trans [OF go(4)])
  qed
qed

lemma sim_render_entry:
  assumes "\<And>n. sim \<rho> (f n) (g n)"
  shows "sim \<rho> (render_entry e fs doc_do f) (render_entry e fs lex_do g)"
  unfolding render_entry_def Let_def by (auto split: option.split intro!: sim_rules assms)

lemma sim_context:
  assumes "\<And>n. sim Map.empty (process_fragment_from e (process_fragment_target e fuel) l n)
      (lex_fragments e up (lex_record e up fuel) Map.empty fs n)" "rl_fragments l = fs"
  shows "sim Map.empty (render_context e fuel l) (lex_context e up fuel fs)"
  unfolding render_context_def [abs_def] lex_context_def [abs_def] assms(2)
  by (cases "component_owns_css_tree (e_entry_id e) (e_protocol e)")
    (simp_all add: sim_then sim_doc sim_after sim_render_entry assms(1))

lemma plan_env_make [simp]: "plan_env (h_up h) (make_env h p state opts si) \<longleftrightarrow> plan_fits (h_up h) (document p)"
  by (simp add: plan_env_def make_env_def Let_def split: prod.split)

lemma make_env_protocol [simp]: "e_protocol (make_env h p state opts si) = document p"
  by (simp add: make_env_def Let_def split: prod.split)

lemma make_env_index [simp]: "e_index (make_env h p state opts si) = render_index (h_up h) (document p)"
  by (simp add: make_env_def Let_def split: prod.split)

lemma document_fragments [simp]: "p_fragments (document p) = p_fragments p" "plain_loops (document p) = plain_loops p"
  by (simp_all add: document_def plain_loops_def)

lemma render_lexical:
  assumes fits: "plan_fits (h_up h) (document p)" and plain: "plain_loops p"
  shows "render h n p state opts w = lex_render h n p state opts w"
proof -
  let ?ix = "render_index (h_up h) (document p)"
  let ?i = "o_entry_id opts"
  have go: "apsnd (d_writer \<circ> c_doc) (render_context e n l (initial_ctx w)) =
      apsnd (d_writer \<circ> l_doc) (lex_context e (h_up h) n (fragments fl) \<lparr>l_doc = initial_doc w, l_attrs = Map.empty, l_collecting = False\<rparr>)"
    if e: "e = make_env h p state opts si" and l: "target_list e None ?i = Some l" "map_of (p_fragments p) ?i = Some fl" for e si l fl
  proof -
    have plan: "plan_env (h_up h) e" using fits by (simp add: e)
    have "good_target e None ?i" by (simp add: good_target_def)
    with plan have sim: "sim Map.empty (render_context e n l) (lex_context e (h_up h) n (fragments fl))"
    proof (cases rule: target_list_cases)
      case (found fl' l')
      then have eq: "fl' = fl" "l' = l" using l by (simp_all add: e)
      show ?thesis
        using found eq plan plain by (intro sim_context sim_fragments sim_record) (simp_all add: e)
    qed (use l in simp)
    from sim related_initial [of w] show ?thesis
      by (cases rule: sim_cases) (auto simp: related_def)
  qed
  show ?thesis
  proof (cases "ri_index ?ix ?i")
    case None
    then show ?thesis
      using ri_index_None_iff [OF fits, of ?i] by (simp add: render_def lex_render_def split: option.split)
  next
    case (Some k)
    obtain fl l where "map_of (p_fragments p) ?i = Some fl" "ri_list (document p) ?ix k = Some l"
      using plan_lookup [OF fits Some] by (metis document_fragments(1))
    with Some go show ?thesis
      by (simp add: render_def lex_render_def Let_def target_list_def split: option.split sum.split)
  qed
qed

text \<open>
  C1.  What a render writes is what the template means.  For every protocol whose render plan
  fits its 32-bit slots (\<open>plan_fits\<close>; the identifiers of its records, keys of a hash map, are distinct)
  and whose loop variables are one path segment (\<open>plain_loops\<close>), every state, every option
  and every writer, \<open>render\<close>, with its borrowed and owned scopes, pools, loop stack, visible
  ranges and prepared slots, ends with the outcome and leaves the writer in the state of the
  reference interpreter, which evaluates the fragment records in an environment that maps names
  to values; errors of the program and of the writer included, at the same fuel.
\<close>

theorem render_refines_lexical:
  assumes "plan_fits (h_up h) (document p)" "plain_loops p"
  shows "render h n p state opts w = lex_render h n p state opts w"
  using assms by (rule render_lexical)

text \<open>A page with a loop over a component, rendered into a string.\<close>

definition sample_host :: "string host" where
  "sample_host = \<lparr>h_up = id, h_json = (\<lambda>_. ''{}''), h_json_error = (\<lambda>_. None), h_number = (\<lambda>_. ''0''), h_show = (\<lambda>_. ''error''),
     h_show_base = (\<lambda>_ _. ''base''), h_kind_text = (\<lambda>_. ''kind''),
     h_put = (\<lambda>s w. (Inr (), w @ s)), h_put_escaped = (\<lambda>s w. (Inr (), w @ s)),
     h_put_attribute = (\<lambda>n v w. (Inr (), w @ '' '' @ n @ ''='' @ v)),
     h_put_escaped_attribute = (\<lambda>n v w. (Inr (), w @ '' '' @ n @ ''='' @ v)), h_end = (\<lambda>w. (Inr (), w))\<rparr>"

definition sample_page :: web_ui_protocol where
  "sample_page = protocol_new [
     (''page'', \<lparr>fragments = [frag_raw ''<ul>'', frag_for_loop ''x'' ''items'' ''row'', frag_raw ''</ul>''], contains_boundary = False\<rparr>),
     (''row'', \<lparr>fragments = [frag_raw ''<li'',
        Some (FAttribute (default_attribute\<lparr>attr_name := ''title'', attr_value := ''x.n'', attr_start := True\<rparr>)), frag_raw ''>'',
        frag_component ''my-card'', frag_signal ''x.n'' False], contains_boundary = False\<rparr>),
     (''my-card'', \<lparr>fragments = [frag_raw ''['', frag_signal ''title'' False, frag_signal ''x.n'' False, frag_raw '']''], contains_boundary = False\<rparr>)]"

definition sample_state :: json where
  "sample_state = JObject [(''items'', JArray [JObject [(''n'', JString ''a'')], JObject [(''n'', JString ''b'')]])]"

theorem render_refines_lexical_witness:
  "plan_fits (h_up sample_host) (document sample_page) \<and> plain_loops sample_page \<and>
   render sample_host 3 sample_page sample_state (options_new ''page'' ''/'') [] =
     lex_render sample_host 3 sample_page sample_state (options_new ''page'' ''/'') [] \<and>
   render sample_host 3 sample_page sample_state (options_new ''page'' ''/'') [] =
     (Inr (), ''<ul><li title=a>[a]a<li title=b>[b]b</ul>'')"
proof (intro conjI)
  have "distinct (map fst (p_fragments (document sample_page)))" "length (p_fragments (document sample_page)) = 3"
    "length (ri_metadata (render_index (h_up sample_host) (document sample_page))) = 12"
    "ri_attr_names (render_index (h_up sample_host) (document sample_page)) = ''title''"
    by code_simp+
  then show fit: "plan_fits (h_up sample_host) (document sample_page)" by (simp add: plan_fits_def)
  show plain: "plain_loops sample_page" by code_simp
  show "render sample_host 3 sample_page sample_state (options_new ''page'' ''/'') [] =
     lex_render sample_host 3 sample_page sample_state (options_new ''page'' ''/'') []"
    by (rule render_refines_lexical [OF fit plain])
  show "render sample_host 3 sample_page sample_state (options_new ''page'' ''/'') [] =
     (Inr (), ''<ul><li title=a>[a]a<li title=b>[b]b</ul>'')"
    by code_simp
qed

text \<open>
  The page of the test \<open>link_strategy_preloads_static_shadow_css_in_head\<close> of \<open>lib.rs\<close>: a protocol without
  style chunks preloads the sheet of a component by the component's own number.
\<close>

definition link_page :: web_ui_protocol where
  "link_page = populate_style_closures ((protocol_new [
     (''index.html'', \<lparr>fragments = [frag_raw ''<html><head>'', structural_signal ''head_end'', frag_raw ''</head><body><my-card>'',
        frag_component ''my-card'', frag_raw ''</my-card></body></html>''], contains_boundary = False\<rparr>),
     (''my-card'', \<lparr>fragments = [frag_raw ''<template>'', structural_signal ''shadow_styles:my-card'', frag_raw ''<div>card</div></template>''],
        contains_boundary = False\<rparr>)])
     \<lparr>p_components := [(''my-card'', (sample_component ''my-card.css'')\<lparr>uses_shadow_dom := True\<rparr>)]\<rparr>) [''index.html'']"

lemma link_page_preloads:
  "style_resource_index link_page = [(''my-card'', 0)] \<and>
   render sample_host 3 link_page (JObject []) (options_new ''index.html'' ''/'') [] =
     (Inr (), dq (''<html><head><link rel=~preload~ as=~style~ href=~my-card.css~></head><body><my-card><template>'' @
       ''<link rel=~stylesheet~ href=~my-card.css~ data-webui-resource=~my-card~ data-webui-strategy=~link~>'' @
       ''<div>card</div></template></my-card></body></html>''))"
  by code_simp

end
