(* ===== verification/Render_Total.thy ===== *)
theory Render_Total
  imports Render_Lexical
begin

text \<open>
  When a render ends.  The fuel of \<open>process_fragment_target\<close> bounds the nesting of its calls, which
  follow the references between fragment records and, at an \<open><outlet>\<close>, the tree of the routes around
  it.  On a protocol whose references have no cycle the nesting is bounded by the protocol alone.
\<close>

section \<open>References\<close>

fun route_ids :: "web_ui_route \<Rightarrow> string list" where
  "route_ids (WebUiFragmentRoute _ fragment_id _ nested _ _ _ _ _ _ content_id) =
     fragment_id # content_id # concat (map route_ids nested)"

fun route_depth :: "web_ui_route \<Rightarrow> nat" where
  "route_depth (WebUiFragmentRoute _ _ _ nested _ _ _ _ _ _ _) = Suc (foldr max (map route_depth nested) 0)"

text \<open>The records a fragment leads to; a template attribute is flat text and leads nowhere.\<close>

definition fragment_refs :: "web_ui_fragment \<Rightarrow> string list" where
  "fragment_refs f = (case f of
     Some (FComponent c) \<Rightarrow> [c]
   | Some (FForLoop l) \<Rightarrow> [for_fragment_id l]
   | Some (FIfCond i) \<Rightarrow> [if_fragment_id i]
   | Some (FRoute r) \<Rightarrow> route_ids r
   | _ \<Rightarrow> [])"

definition reference_pairs :: "web_ui_protocol \<Rightarrow> (string \<times> string) list" where
  "reference_pairs p = concat (map (\<lambda>(i, fl). map (\<lambda>j. (j, i)) (concat (map fragment_refs (fragments fl)))) (p_fragments p))"

definition fragment_depth :: "web_ui_fragment \<Rightarrow> nat" where
  "fragment_depth f = (case f of Some (FRoute r) \<Rightarrow> route_depth r | _ \<Rightarrow> 0)"

definition protocol_depth :: "web_ui_protocol \<Rightarrow> nat" where
  "protocol_depth p = foldr max (concat (map (\<lambda>(i, fl). map fragment_depth (fragments fl)) (p_fragments p))) 0"

text \<open>Fuel that is enough for every state, request and writer.\<close>

definition nesting_bound :: "nat \<Rightarrow> nat \<Rightarrow> nat" where
  "nesting_bound k d = ((k + 1) * (d + 1) + d) * (k + 1) + k + 1"

definition render_fuel :: "web_ui_protocol \<Rightarrow> nat" where
  "render_fuel p = nesting_bound (length (reference_pairs p)) (protocol_depth p)"

abbreviation routes_ids :: "web_ui_route list \<Rightarrow> string list" where
  "routes_ids rs \<equiv> concat (map route_ids rs)"

abbreviation routes_depth :: "web_ui_route list \<Rightarrow> nat" where
  "routes_depth rs \<equiv> foldr max (map route_depth rs) 0"

lemma foldr_max_le: "foldr max xs 0 \<le> (b :: nat) \<longleftrightarrow> (\<forall>x \<in> set xs. x \<le> b)"
  by (induction xs) auto

lemma foldr_max_ge: "x \<in> set xs \<Longrightarrow> x \<le> foldr max xs (0 :: nat)"
  using foldr_max_le [of xs "foldr max xs 0"] by blast

lemma route_child:
  assumes "c \<in> set (route_children r)"
  shows "set (route_ids c) \<subseteq> set (route_ids r)" "route_depth c < route_depth r"
  using assms by (cases r; auto simp: less_Suc_eq_le intro: foldr_max_ge)+

lemma route_own_ids: "route_fragment_id r \<in> set (route_ids r)" "route_content_fragment_id r \<in> set (route_ids r)"
  "set (routes_ids (route_children r)) \<subseteq> set (route_ids r)" "routes_depth (route_children r) < route_depth r"
  by (cases r; auto)+

section \<open>A measure\<close>

definition ranked :: "(string \<Rightarrow> nat) \<Rightarrow> nat \<Rightarrow> nat \<Rightarrow> web_ui_protocol \<Rightarrow> bool" where
  "ranked rank k d p \<longleftrightarrow> (\<forall>(j, i) \<in> set (reference_pairs p). rank j < rank i) \<and> (\<forall>i. rank i \<le> k) \<and> protocol_depth p \<le> d"

definition highest :: "(string \<Rightarrow> nat) \<Rightarrow> web_ui_route list \<Rightarrow> nat" where
  "highest rank rs = foldr max (map (\<lambda>j. Suc (rank j)) (routes_ids rs)) 0"

text \<open>
  The nesting below a record, with the route children the document has then: the highest rank
  in reach, then the depth of the route tree, then the record's own rank.
\<close>

definition need :: "(string \<Rightarrow> nat) \<Rightarrow> nat \<Rightarrow> nat \<Rightarrow> string \<Rightarrow> web_ui_route list \<Rightarrow> nat" where
  "need rank k d i cs = (max (Suc (rank i)) (highest rank cs) * (d + 1) + routes_depth cs) * (k + 1) + rank i + 1"

lemma highest_le: "highest rank rs \<le> b \<longleftrightarrow> (\<forall>j \<in> set (routes_ids rs). rank j < b)"
  by (auto simp: highest_def foldr_max_le Suc_le_eq simp del: set_concat)

lemma highest_mono: "set (routes_ids rs) \<subseteq> set (routes_ids qs) \<Longrightarrow> highest rank rs \<le> highest rank qs"
  using highest_le [of rank rs "highest rank qs"] highest_le [of rank qs "highest rank qs"] by (auto simp del: set_concat)

lemma mixed_radix:
  fixes a b a' b' k :: nat
  assumes "a < a'" "b \<le> k"
  shows "a * (k + 1) + b < a' * (k + 1) + b'"
proof -
  have "a * (k + 1) + b < (a + 1) * (k + 1)" using assms(2) by simp
  also have "\<dots> \<le> a' * (k + 1)" using assms(1) by (intro mult_right_mono) auto
  finally show ?thesis by simp
qed

lemma need_ref:
  assumes "rank j < rank i"
  shows "need rank k d j cs < need rank k d i cs"
proof -
  have "max (Suc (rank j)) (highest rank cs) \<le> max (Suc (rank i)) (highest rank cs)" using assms by auto
  then have "(max (Suc (rank j)) (highest rank cs) * (d + 1) + routes_depth cs) * (k + 1) \<le>
      (max (Suc (rank i)) (highest rank cs) * (d + 1) + routes_depth cs) * (k + 1)"
    by (intro mult_right_mono add_right_mono) auto
  with assms show ?thesis unfolding need_def by linarith
qed

lemma need_route:
  assumes "rank j < rank i" "highest rank cs' \<le> rank i" "routes_depth cs' \<le> d" "rank j \<le> k"
  shows "need rank k d j cs' < need rank k d i cs"
proof -
  have "max (Suc (rank j)) (highest rank cs') < max (Suc (rank i)) (highest rank cs)" using assms(1,2) by auto
  then have "max (Suc (rank j)) (highest rank cs') * (d + 1) + routes_depth cs' <
      max (Suc (rank i)) (highest rank cs) * (d + 1) + routes_depth cs"
    using assms(3) by (rule mixed_radix)
  then show ?thesis using mixed_radix [OF _ assms(4)] by (simp add: need_def)
qed

lemma need_outlet:
  assumes c: "c \<in> set cs" and j: "j \<in> set (route_ids c)" and k: "rank j \<le> k"
  shows "need rank k d j (route_children c) < need rank k d i cs"
proof -
  have "j \<in> set (routes_ids cs)" using c j by auto
  then have "rank j < highest rank cs" using highest_le [of rank cs "highest rank cs"] by blast
  moreover have "highest rank (route_children c) \<le> highest rank cs"
    using route_own_ids(3) [of c] c by (intro highest_mono) auto
  ultimately have "max (Suc (rank j)) (highest rank (route_children c)) \<le> max (Suc (rank i)) (highest rank cs)" by auto
  moreover have "routes_depth (route_children c) < routes_depth cs"
    using route_own_ids(4) [of c] foldr_max_ge [of "route_depth c" "map route_depth cs"] c by auto
  ultimately have "max (Suc (rank j)) (highest rank (route_children c)) * (d + 1) + routes_depth (route_children c) <
      max (Suc (rank i)) (highest rank cs) * (d + 1) + routes_depth cs"
    by (intro add_le_less_mono mult_right_mono) auto
  then show ?thesis using mixed_radix [OF _ k] by (simp add: need_def)
qed

lemma need_bound:
  assumes "\<And>i. rank i \<le> k" "routes_depth cs \<le> d"
  shows "need rank k d i cs \<le> nesting_bound k d"
proof -
  have "highest rank cs \<le> k + 1" using assms(1) by (auto simp: highest_le less_Suc_eq_le simp del: set_concat)
  then have "max (Suc (rank i)) (highest rank cs) \<le> k + 1" using assms(1) [of i] by simp
  then have "(max (Suc (rank i)) (highest rank cs) * (d + 1) + routes_depth cs) * (k + 1) \<le> ((k + 1) * (d + 1) + d) * (k + 1)"
    using assms(2) by (intro mult_right_mono add_mono) auto
  then show ?thesis using assms(1) [of i] unfolding need_def nesting_bound_def by linarith
qed

lemma rank_exists:
  assumes "acyclic (set (reference_pairs p))"
  obtains rank where "ranked rank (length (reference_pairs p)) (protocol_depth p) p"
proof
  let ?r = "set (reference_pairs p)"
  let ?rank = "\<lambda>i. card {j. (j, i) \<in> ?r\<^sup>+}"
  have sub: "{j. (j, i) \<in> ?r\<^sup>+} \<subseteq> fst ` ?r" for i
    by (force dest!: tranclD)
  have fin: "finite {j. (j, i) \<in> ?r\<^sup>+}" for i
    by (rule finite_subset [OF sub]) simp
  have "?rank i \<le> length (reference_pairs p)" for i
    using card_mono [OF _ sub [of i]] card_image_le [of ?r fst] card_length [of "reference_pairs p"] by force
  moreover have "?rank j < ?rank i" if "(j, i) \<in> ?r" for i j
  proof (rule psubset_card_mono [OF fin])
    have "j \<notin> {a. (a, j) \<in> ?r\<^sup>+}" using assms by (simp add: acyclic_def)
    moreover have "j \<in> {a. (a, i) \<in> ?r\<^sup>+}" using that by auto
    moreover have "{a. (a, j) \<in> ?r\<^sup>+} \<subseteq> {a. (a, i) \<in> ?r\<^sup>+}" using that by (auto intro: trancl_into_trancl)
    ultimately show "{a. (a, j) \<in> ?r\<^sup>+} \<subset> {a. (a, i) \<in> ?r\<^sup>+}" by blast
  qed
  ultimately show "ranked ?rank (length (reference_pairs p)) (protocol_depth p) p"
    by (auto simp: ranked_def)
qed

section \<open>Actions that leave the route children alone\<close>

definition inert :: "('w doc \<Rightarrow> 'r \<times> 'w doc) \<Rightarrow> bool" where
  "inert a \<longleftrightarrow> (\<forall>d. d_route_children (snd (a d)) = d_route_children d)"

named_theorems inert_rules

lemma inertI: "(\<And>d. d_route_children (snd (a d)) = d_route_children d) \<Longrightarrow> inert a"
  by (simp add: inert_def)

lemma inert_same: "inert a \<Longrightarrow> d_route_children (snd (a d)) = d_route_children d"
  by (simp add: inert_def)

lemma inertD: "inert a \<Longrightarrow> a d = (r, d') \<Longrightarrow> d_route_children d' = d_route_children d"
  unfolding inert_def by (metis snd_conv)

lemma inert_act [inert_rules]: "inert act_ok" "inert (wr x)" "inert (put e s)" "inert (put_escaped e s)"
  by (auto simp: inert_def act_ok_def wr_def put_def put_escaped_def split: prod.split)

lemma inert_and_then [inert_rules]: "inert a \<Longrightarrow> inert b \<Longrightarrow> inert (and_then a b)"
  by (auto simp: inert_def and_then_def split: prod.split sum.split) (metis snd_conv)+

lemma inert_seq [inert_rules]: "list_all inert as \<Longrightarrow> inert (seq as)"
  by (induction as) (auto simp: seq_def intro: inert_rules)

lemma inert_when [inert_rules]: "inert a \<Longrightarrow> inert (when_do b a)"
  by (simp add: when_do_def inert_act)

lemma inert_opt [inert_rules]: "(\<And>y. inert (f y)) \<Longrightarrow> inert (opt_do x f)"
  by (simp add: opt_do_def inert_act split: option.split)

lemma inert_if [inert_rules]: "inert a \<Longrightarrow> inert b \<Longrightarrow> inert (if x then a else b)"
  by simp

lemma list_all_rules [inert_rules]: "list_all P []" "P x \<Longrightarrow> list_all P xs \<Longrightarrow> list_all P (x # xs)"
  "(\<And>y. P (f y)) \<Longrightarrow> list_all P (map f ys)"
  by (simp_all add: list_all_iff)

lemma inert_usize [inert_rules]: "inert (write_usize e n)"
  by (simp add: write_usize_def inert_act)

lemma inert_signal [inert_rules]: "inert (write_signal_value e v raw)"
  by (auto simp: write_signal_value_def inert_act split: option.split json.split)

lemma inert_href [inert_rules]: "inert (write_asset_href e b s)" "inert (write_nonce e)"
  unfolding write_asset_href_def write_nonce_def by (intro inert_rules)+

lemma inert_asset_styles [inert_rules]: "inert (write_component_asset_styles e)"
proof -
  have 1: "inert (write_component_asset_style_manifest e)"
    unfolding write_component_asset_style_manifest_def by (intro inert_rules)
  have 2: "inert (seq [
        (case effective_asset_base (e_inject e) (e_protocol e) of
           Some base \<Rightarrow>
             if e_asset_hrefs e \<noteq> [] then
               seq (map (\<lambda>href. seq [put e (dq ''<link rel=~stylesheet~ href=~''), write_asset_href e (Some base) href,
                 put e (dq ''~>'')]) (e_asset_hrefs e))
             else put e (e_asset_links e)
         | None \<Rightarrow> put e (e_asset_links e)),
        write_component_asset_style_manifest e])"
    by (intro inert_rules 1) (auto split: option.split intro!: inert_rules)
  show ?thesis using 2 by (auto simp: inert_def write_component_asset_styles_def)
qed

lemma inert_css_module [inert_rules]: "inert (emit_css_module e i)"
  by (rule inertI) (simp add: inert_same [OF inert_when [OF inert_act(3)]] emit_css_module_def split: option.split)

lemma inert_shadow_root [inert_rules]: "inert (push_shadow_style_root e i)" "inert (pop_shadow_style_root i)"
  by (auto simp: inert_def push_shadow_style_root_def pop_shadow_style_root_def split: option.split)

lemma inert_style_unit [inert_rules]: "inert (write_style_unit e n r)"
  unfolding write_style_unit_def by (cases "css_strategy (e_protocol e)") (auto intro!: inert_rules)

lemma inert_admit: "inert (admit_unit e sc u)"
  by (auto simp: inert_def admit_unit_def admit_routed_def Let_def split: option.split)

lemma inert_style_units [inert_rules]: "inert (style_units_loop e rt c sc doc ns em)"
proof (induction ns arbitrary: doc em)
  case (Cons n ns)
  show ?case
  proof (rule inertI)
    fix d :: "'a doc"
    have ih: "d_route_children (snd (style_units_loop e rt c sc b ns em' d')) = d_route_children d'" for b em' d'
      by (rule inert_same [OF Cons.IH])
    show "d_route_children (snd (style_units_loop e rt c sc doc (n # ns) em d)) = d_route_children d"
    proof (cases "style_closure_unit (e_protocol e) c (e_chunk_index e) n")
      case (Some u)
      obtain new em' where em: "emitted_insert (unit_name u) em = (new, em')" by fastforce
      have admitted: "d_route_children (snd (case admit_unit e sc u d0 of
            (Inl err, d') \<Rightarrow> (Inl err, d')
          | (Inr False, d') \<Rightarrow> style_units_loop e rt c sc b ns em' d'
          | (Inr True, d') \<Rightarrow> and_then (write_style_unit e m res) (style_units_loop e rt c sc b ns em') d')) =
          d_route_children d0" for d0 b m res
        by (cases "admit_unit e sc u d0" rule: prod.exhaust)
          (simp add: inertD [OF inert_admit] inert_same [OF inert_and_then [OF inert_style_unit Cons.IH]] ih split: sum.split bool.split)
      show ?thesis
        using Some em by (cases new) (auto simp: ih admitted split: option.split)
    qed simp
  qed
qed (simp add: inert_def)

lemma inert_closure [inert_rules]: "inert (emit_component_style_closure e rt install)"
  by (rule inertI) (simp add: inert_same [OF inert_style_units] emit_component_style_closure_def split: sum.split option.split)

lemma inert_shadow_signal [inert_rules]: "inert (process_shadow_style_signal e rt)"
proof -
  have "inert (\<lambda>d. if d_shadow_roots d = []
           then (Inl (Invariant ''active Shadow style root disappeared after its static style hook''), d)
           else (Inr (), d\<lparr>d_shadow_roots := butlast (d_shadow_roots d) @
             [(last (d_shadow_roots d))\<lparr>sr_static_emitted := True\<rparr>]\<rparr>))"
    by (simp add: inert_def)
  from inert_and_then [OF inert_closure this] show ?thesis
    by (auto simp: inert_def process_shadow_style_signal_def split: option.split)
qed

text \<open>A loop that threads the preloaded resources through the document.\<close>

lemma inert_case:
  assumes "inert a" "\<And>x. inert (f x)"
  shows "d_route_children (snd (case a d of (Inl err, d') \<Rightarrow> (Inl err, d') | (Inr x, d') \<Rightarrow> f x d')) = d_route_children d"
  using assms inertD [OF assms(1)] by (auto simp: inert_def split: prod.split sum.split)

lemma inert_preload_units: "inert (preload_units_loop e c ns pre)"
proof (induction ns arbitrary: pre)
  case (Cons n ns)
  have w: "inert (seq [put e (dq ''<link rel=~preload~ as=~style~ href=~''),
      write_asset_href e (effective_asset_base (e_inject e) (e_protocol e)) h, put e (dq ''~>'')])" for h
    by (intro inert_rules)
  have ih: "d_route_children (snd (preload_units_loop e c ns pre d)) = d_route_children d" for pre d
    using Cons.IH by (simp add: inert_def)
  show ?case
    by (rule inertI) (auto simp: ih inert_case [OF w Cons.IH] split: option.split)
qed (simp add: inert_def)

lemma inert_preloads: "inert (emit_component_style_preloads e rt pre)"
  by (rule inertI) (simp add: inert_same [OF inert_preload_units] emit_component_style_preloads_def split: option.split)

lemma inert_route_styles_loop: "inert (route_styles_loop e es pre)"
proof (induction es arbitrary: pre)
  case (Cons x es)
  obtain tag b where x: "x = (tag, b)" by fastforce
  have ih: "d_route_children (snd (route_styles_loop e es pre d)) = d_route_children d" for pre d
    using Cons.IH by (simp add: inert_def)
  show ?case
    by (rule inertI) (simp add: x ih inert_case [OF inert_closure Cons.IH] inert_case [OF inert_preloads Cons.IH])
qed (simp add: inert_def)

lemma inert_route_styles: "inert (emit_active_route_styles e pre)"
  by (rule inertI) (simp add: inert_same [OF inert_route_styles_loop] emit_active_route_styles_def split: prod.split)

lemma inert_reachable: "inert (emit_reachable_shadow_preloads e pre)"
proof -
  have loop: "inert (reachable_preloads_loop e tags pre)" for tags pre
  proof (induction tags arbitrary: pre)
    case (Cons t tags)
    have ih: "d_route_children (snd (reachable_preloads_loop e tags pre d)) = d_route_children d" for pre d
      using Cons.IH by (simp add: inert_def)
    show ?case by (rule inertI) (simp add: ih inert_case [OF inert_preloads Cons.IH])
  qed (simp add: inert_def)
  show ?thesis by (rule inertI) (simp add: inert_same [OF loop] emit_reachable_shadow_preloads_def split: sum.split)
qed

lemma inert_entry_styles [inert_rules]: "inert (entry_styles e)" "inert (emit_document_styles e)"
proof -
  have 1: "inert (\<lambda>d. case emit_active_route_styles e [] d of (Inl err, d') \<Rightarrow> (Inl err, d') | (Inr pre, d') \<Rightarrow> (Inr (), d'))"
    by (rule inertI) (auto simp: inertD [OF inert_route_styles] split: prod.split sum.split)
  have 2: "inert (\<lambda>d. case emit_active_route_styles e [] d of
      (Inl err, d') \<Rightarrow> (Inl err, d') | (Inr pre, d') \<Rightarrow> emit_reachable_shadow_preloads e pre d')"
    by (rule inertI) (rule inert_case [OF inert_route_styles inert_reachable])
  show "inert (entry_styles e)" "inert (emit_document_styles e)"
    unfolding entry_styles_def emit_document_styles_def by (intro inert_rules 1 2)+
qed

lemma inert_structural [inert_rules]: "inert (process_structural_signal e v)"
proof -
  have h: "inert (head_end_hook e)" "inert (body_start_hook e)" "inert (body_end_hook e)"
    unfolding head_end_hook_def body_start_hook_def body_end_hook_def by (intro inert_rules)+
  show ?thesis
    by (rule inertI) (simp add: inert_same [OF h(1)] inert_same [OF h(2)] inert_same [OF h(3)]
        inert_same [OF inert_shadow_signal] process_structural_signal_def split: option.split)
qed

lemma inert_interaction [inert_rules]: "inert (write_interaction_marker e tag)"
  unfolding write_interaction_marker_def by (auto split: option.split intro!: inert_rules)

lemma inert_navigation [inert_rules]: "inert (write_route_navigation_attrs e r)" "inert (write_hidden_routes e rs)"
proof -
  have nav: "inert (write_route_navigation_attrs e r)" for r
    unfolding write_route_navigation_attrs_def by (intro inert_rules)
  then show "inert (write_route_navigation_attrs e r)" .
  show "inert (write_hidden_routes e rs)"
    unfolding write_hidden_routes_def by (intro inert_rules nav)
qed

lemma inert_route_index [inert_rules]: "inert (write_route_index e)"
proof (rule inertI)
  fix d :: "'a doc"
  have "inert (seq [put e (dq '' data-ri=~''), write_usize e (d_route_chain_index d), put e (dq ''~ active>'')])"
    by (intro inert_rules)
  then show "d_route_children (snd (write_route_index e d)) = d_route_children d"
    by (simp add: inert_def write_route_index_def)
qed

lemma inert_route_own_styles [inert_rules]: "inert (route_styles e i)"
  unfolding route_styles_def by (intro inert_rules)

lemma inert_dynamic [inert_rules]: "inert (write_dynamic_value e n v)"
  unfolding write_dynamic_value_def by (auto split: option.split json.split intro!: inert_rules)

lemma inert_mark [inert_rules]: "inert (mark_rendered e i)"
proof -
  have "inert (\<lambda>d. (Inr (), d\<lparr>d_rendered := insert i (d_rendered d)\<rparr>))" by (simp add: inert_def)
  from inert_and_then [OF inert_css_module this] show ?thesis by (auto simp: inert_def mark_rendered_def)
qed

section \<open>Runs that settle\<close>

text \<open>
  Two runs, of the same code at two amounts of fuel, that agree from every document with the
  property \<open>P\<close>, do not run out of fuel there, and leave a document with \<open>Q\<close>.
\<close>

definition settles :: "('w lex \<Rightarrow> bool) \<Rightarrow> 'w lex run \<Rightarrow> 'w lex run \<Rightarrow> ('w lex \<Rightarrow> bool) \<Rightarrow> bool" where
  "settles P a b Q \<longleftrightarrow> (\<forall>l. P l \<longrightarrow> a l = b l \<and> (case a l of (Inl x, _) \<Rightarrow> x \<noteq> OutOfFuel | (Inr _, l') \<Rightarrow> Q l'))"

definition has_routes :: "web_ui_route list \<Rightarrow> 'w lex \<Rightarrow> bool" where
  "has_routes cs l \<longleftrightarrow> d_route_children (l_doc l) = cs \<or> d_route_children (l_doc l) = []"

named_theorems settle_rules

lemma settlesI:
  assumes "\<And>l. P l \<Longrightarrow> a l = b l" "\<And>l x l'. P l \<Longrightarrow> a l = (Inl x, l') \<Longrightarrow> x \<noteq> OutOfFuel"
    "\<And>l l'. P l \<Longrightarrow> a l = (Inr (), l') \<Longrightarrow> Q l'"
  shows "settles P a b Q"
  unfolding settles_def using assms by (auto split: prod.split sum.split)

lemma settlesD:
  assumes "settles P a b Q" "P l"
  shows "b l = a l" "a l = (Inl x, l') \<Longrightarrow> x \<noteq> OutOfFuel" "a l = (Inr u, l') \<Longrightarrow> Q l'"
  using assms(1) [unfolded settles_def, rule_format, OF assms(2)] by auto

lemma settle_ok [settle_rules]: "settles P run_ok run_ok P"
  by (simp add: settles_def run_ok_def)

lemma settle_fail [settle_rules]: "settles P (run_fail err) (run_fail err) Q"
  by (simp add: settles_def run_fail_def)

lemma settle_then: "settles P a a' Q \<Longrightarrow> settles Q b b' R \<Longrightarrow> settles P (run_then a b) (run_then a' b') R"
proof (rule settlesI)
  fix l assume s: "settles P a a' Q" "settles Q b b' R" "P l"
  note A = settlesD [OF s(1,3)]
  obtain r l' where r: "a l = (r, l')" by fastforce
  show "run_then a b l = run_then a' b' l"
    using A r settlesD(1) [OF s(2), of l'] by (cases r) (auto simp: run_then_def)
  show "run_then a b l = (Inl x, l2) \<Longrightarrow> x \<noteq> OutOfFuel" for x l2
    using A r settlesD(2) [OF s(2), of l'] by (cases r) (auto simp: run_then_def)
  show "run_then a b l = (Inr (), l2) \<Longrightarrow> R l2" for l2
    using A r settlesD(3) [OF s(2), of l'] by (cases r) (auto simp: run_then_def)
qed

lemma settle_runs_Nil [settle_rules]: "settles P (runs []) (runs []) P"
  by (simp add: runs_def settle_ok)

lemma settle_runs_Cons:
  "settles P a a' Q \<Longrightarrow> settles Q (runs as) (runs bs) R \<Longrightarrow> settles P (runs (a # as)) (runs (a' # bs)) R"
  by (simp add: runs_def settle_then)

lemma settle_same [settle_rules]:
  "settles P a a' P \<Longrightarrow> settles P b b' P \<Longrightarrow> settles P (run_then a b) (run_then a' b') P"
  "settles P a a' P \<Longrightarrow> settles P (runs as) (runs bs) Q \<Longrightarrow> settles P (runs (a # as)) (runs (a' # bs)) Q"
  by (rule settle_then settle_runs_Cons; assumption)+

lemma settle_when [settle_rules]: "(b \<Longrightarrow> settles P a a' P) \<Longrightarrow> settles P (run_when b a) (run_when b a') P"
  by (simp add: run_when_def settle_ok)

lemma settle_do [settle_rules]: "inert a \<Longrightarrow> settles (has_routes cs) (lex_do a) (lex_do a) (has_routes cs)"
  by (rule settlesI) (auto simp: lex_do_def has_routes_def split: prod.splits sum.splits dest: inertD)

lemma settle_set:
  fixes f :: "'w doc \<Rightarrow> 'w doc"
  assumes "\<And>d. d_route_children d \<in> {cs, []} \<Longrightarrow> d_route_children (f d) \<in> {cs', []}"
  shows "settles (has_routes cs) (lex_do (set_doc f)) (lex_do (set_doc f)) (has_routes cs')"
proof (rule settlesI)
  fix l :: "'w lex" and l'
  assume "has_routes cs l" "lex_do (set_doc f) l = (Inr (), l')"
  then show "has_routes cs' l'" using assms [of "l_doc l"] by (auto simp: lex_do_def has_routes_def set_doc_def)
qed (auto simp: lex_do_def set_doc_def)

lemma settle_read [settle_rules]:
  fixes f :: "'w doc \<Rightarrow> 'w lex run"
  assumes s: "\<And>d. d_route_children d \<in> {cs, []} \<Longrightarrow> settles (has_routes cs) (f d) (g d) Q"
  shows "settles (has_routes cs) (lex_read f) (lex_read g) Q"
proof (rule settlesI)
  fix l :: "'w lex" assume h: "has_routes cs l"
  then have "settles (has_routes cs) (f (l_doc l)) (g (l_doc l)) Q" by (intro s) (auto simp: has_routes_def)
  note d = settlesD [OF this h]
  show "lex_read f l = lex_read g l" using d(1) by (simp add: lex_read_def)
  show "lex_read f l = (Inl x, l') \<Longrightarrow> x \<noteq> OutOfFuel" for x l' using d(2) by (simp add: lex_read_def)
  show "lex_read f l = (Inr (), l') \<Longrightarrow> Q l'" for l' using d(3) by (simp add: lex_read_def)
qed

lemma settle_inert_state:
  "(\<And>l. l_doc (snd (a l)) = l_doc l) \<Longrightarrow> (\<And>l l'. a l \<noteq> (Inl OutOfFuel, l')) \<Longrightarrow> settles (has_routes cs) a a (has_routes cs)"
  by (rule settlesI) (auto simp: has_routes_def, (metis snd_conv)+)

subsection \<open>Fragments without records\<close>

lemma settle_signal: "settles (has_routes cs) (lex_signal e \<rho> s) (lex_signal e \<rho> s) (has_routes cs)"
  unfolding lex_signal_def by (auto split: option.split intro!: settle_rules inert_rules)

lemma settle_set_attr [settle_rules]: "settles (has_routes cs) (lex_set a name v) (lex_set a name v) (has_routes cs)"
  by (rule settle_inert_state) (auto simp: lex_set_def run_fail_def run_ok_def split: option.split)

lemma settle_attribute: "settles (has_routes cs) (lex_attribute e \<rho> name a) (lex_attribute e \<rho> name a) (has_routes cs)"
proof -
  have 1: "settles (has_routes cs) (\<lambda>l. (Inr (), if attr_start a then l\<lparr>l_attrs := Map.empty, l_collecting := True\<rparr> else l))
      (\<lambda>l. (Inr (), if attr_start a then l\<lparr>l_attrs := Map.empty, l_collecting := True\<rparr> else l)) (has_routes cs)"
    by (rule settle_inert_state) auto
  show ?thesis
    unfolding lex_attribute_def Let_def
    by (rule settle_then [OF 1]) (auto split: option.split sum.split intro!: settle_rules inert_rules)
qed

subsection \<open>Fragments with records\<close>

lemma settle_if:
  assumes "settles (has_routes cs) (rec \<rho> (if_fragment_id i)) (rec' \<rho> (if_fragment_id i)) (has_routes cs)"
  shows "settles (has_routes cs) (lex_if e rec \<rho> i) (lex_if e rec' \<rho> i) (has_routes cs)"
  unfolding lex_if_def by (auto split: option.split sum.split intro!: settle_rules assms)

lemma settle_for:
  assumes rec: "\<And>\<rho>. settles (has_routes cs) (rec \<rho> (for_fragment_id fl)) (rec' \<rho> (for_fragment_id fl)) (has_routes cs)"
  shows "settles (has_routes cs) (lex_for e rec \<rho> fl) (lex_for e rec' \<rho> fl) (has_routes cs)"
proof -
  have "settles (has_routes cs) (runs (map (\<lambda>x. rec (\<rho>(for_item fl \<mapsto> x)) (for_fragment_id fl)) items))
      (runs (map (\<lambda>x. rec' (\<rho>(for_item fl \<mapsto> x)) (for_fragment_id fl)) items)) (has_routes cs)" for items
    by (induction items) (auto simp del: fun_upd_apply intro!: settle_rules rec)
  then show ?thesis
    unfolding lex_for_def by (auto simp del: fun_upd_apply split: option.split json.split intro!: settle_rules)
qed

lemma settle_component:
  assumes rec: "\<And>\<rho>. settles (has_routes cs) (rec \<rho> i) (rec' \<rho> i) (has_routes cs)"
  shows "settles (has_routes cs) (lex_component e rec i) (lex_component e rec' i) (has_routes cs)"
proof -
  have body: "settles (has_routes cs) (lex_body rec owns i) (lex_body rec' owns i) (has_routes cs)" for owns
  proof (rule settlesI)
    fix l :: "'a lex" assume h: "has_routes cs l"
    define pop :: "'a doc act" where "pop = (if owns then pop_shadow_style_root i else act_ok)"
    note body = lex_body_def [of rec owns i l, folded pop_def] lex_body_def [of rec' owns i l, folded pop_def]
    let ?l = "l\<lparr>l_attrs := Map.empty, l_collecting := False\<rparr>"
    have "has_routes cs ?l" using h by (simp add: has_routes_def)
    note A = settlesD [OF rec this, of "l_attrs l"]
    obtain r l' where r: "rec (l_attrs l) i ?l = (r, l')" by fastforce
    have pop: "inert pop" by (auto simp: pop_def intro: inert_rules)
    obtain y d where y: "pop (l_doc l') = (y, d)" by fastforce
    have d: "d_route_children d = d_route_children (l_doc l')" by (rule inertD [OF pop y])
    show "lex_body rec owns i l = lex_body rec' owns i l" using A(1) by (simp add: lex_body_def)
    show "lex_body rec owns i l = (Inl x, l2) \<Longrightarrow> x \<noteq> OutOfFuel" for x l2
      using A(2) r y by (cases r; cases y) (auto simp: body run_then_def lex_do_def split: stop.splits)
    show "lex_body rec owns i l = (Inr (), l2) \<Longrightarrow> has_routes cs l2" for l2
      using A(2,3) r y d by (cases r; cases y) (auto simp: body run_then_def lex_do_def has_routes_def split: stop.splits)
  qed
  show ?thesis
    unfolding lex_component_def Let_def by (intro settle_rules inert_rules body)
qed

subsection \<open>Routes and outlets\<close>

lemma settle_route_component:
  assumes "settles (has_routes cs) (k i) (k' i) (has_routes cs)"
  shows "settles (has_routes cs) (route_component e lex_do k i) (route_component e lex_do k' i) (has_routes cs)"
  unfolding route_component_def by (intro settle_rules inert_rules assms)

text \<open>The route children of a subtree: in place before it, taken back behind it.\<close>

lemma settle_enter:
  assumes "\<And>d. d_route_children (f d) \<in> {cs', []}" "settles (has_routes cs') (runs as) (runs bs) Q"
  shows "settles (has_routes cs) (runs (lex_do (set_doc f) # as)) (runs (lex_do (set_doc f) # bs)) Q"
  by (rule settle_runs_Cons [OF settle_set assms(2)]) (rule assms(1))

lemma settle_exit:
  assumes "\<And>d. d_route_children (f d) \<in> {cs', []}"
  shows "settles (has_routes cs) (runs [lex_do (set_doc f)]) (runs [lex_do (set_doc f)]) (has_routes cs')"
  by (rule settle_runs_Cons [OF settle_set settle_runs_Nil]) (rule assms)

lemma settle_matched_route:
  assumes "settles (has_routes (route_children r)) (f (route_content_fragment_id r)) (f' (route_content_fragment_id r))
      (has_routes (route_children r))"
    and "settles (has_routes (route_children r)) (k (route_fragment_id r)) (k' (route_fragment_id r)) (has_routes (route_children r))"
  shows "settles (has_routes cs) (matched_route e lex_do lex_read f k r rm) (matched_route e lex_do lex_read f' k' r rm) (has_routes cs)"
  unfolding matched_route_def
  by (rule settle_same(2), intro settle_rules inert_rules, rule settle_same(2), rule settle_read,
      rule settle_enter [where cs' = "route_children r"], simp)
    (intro settle_exit settle_rules inert_rules settle_route_component assms, simp, rule settle_runs_Nil)

lemma settle_outlet_child:
  assumes "settles (has_routes (route_children r)) (f (route_content_fragment_id r)) (f' (route_content_fragment_id r))
      (has_routes (route_children r))"
    and "settles (has_routes (route_children r)) (k (route_fragment_id r)) (k' (route_fragment_id r)) (has_routes (route_children r))"
  shows "settles (has_routes []) (outlet_child e lex_do lex_read f k r rm) (outlet_child e lex_do lex_read f' k' r rm) (has_routes [])"
  unfolding outlet_child_def
  by (rule settle_read, rule settle_enter [where cs' = "route_children r"], simp)
    (intro settle_exit settle_rules inert_rules settle_route_component assms, simp)

lemma settle_route:
  assumes "settles (has_routes (route_children r)) (f (route_content_fragment_id r)) (f' (route_content_fragment_id r))
      (has_routes (route_children r))"
    and "settles (has_routes (route_children r)) (k (route_fragment_id r)) (k' (route_fragment_id r)) (has_routes (route_children r))"
  shows "settles (has_routes cs) (process_route e lex_do lex_read f k r best) (process_route e lex_do lex_read f' k' r best) (has_routes cs)"
  unfolding process_route_def
  by (intro settle_rules; cases best) (auto intro!: settle_rules inert_rules settle_matched_route assms)

lemma settle_outlet:
  assumes "\<And>c. c \<in> set cs \<Longrightarrow> settles (has_routes (route_children c)) (f (route_content_fragment_id c)) (f' (route_content_fragment_id c))
      (has_routes (route_children c))"
    and "\<And>c. c \<in> set cs \<Longrightarrow> settles (has_routes (route_children c)) (k (route_fragment_id c)) (k' (route_fragment_id c))
      (has_routes (route_children c))"
  shows "settles (has_routes cs) (process_outlet e lex_do lex_read f k) (process_outlet e lex_do lex_read f' k') (has_routes cs)"
proof -
  have weaken: "settles P a b (has_routes [])  \<Longrightarrow> settles P a b (has_routes cs)" for P and a b :: "'a lex run"
    by (intro settlesI) (auto simp: has_routes_def dest: settlesD)
  have child: "settles (has_routes []) (outlet_child e lex_do lex_read f k (children ! idx) rm)
      (outlet_child e lex_do lex_read f' k' (children ! idx) rm) (has_routes [])"
    if "children \<in> {cs, []}" "best_child_loop (e_routes e) base segs 0 children None = Some (idx, rm)" for children idx rm base segs
  proof (rule settle_outlet_child)
    have "idx < length children" using best_child_bound [OF that(2)] by simp
    then have "children ! idx \<in> set cs" using that(1) by auto
    then show "settles (has_routes (route_children (children ! idx))) (f (route_content_fragment_id (children ! idx)))
        (f' (route_content_fragment_id (children ! idx))) (has_routes (route_children (children ! idx)))"
      "settles (has_routes (route_children (children ! idx))) (k (route_fragment_id (children ! idx)))
        (k' (route_fragment_id (children ! idx))) (has_routes (route_children (children ! idx)))"
      by (rule assms)+
  qed
  show ?thesis
    unfolding process_outlet_def Let_def
    by (rule settle_read, rule weaken, rule settle_enter [where cs' = "[]"], simp)
      (auto split: option.split intro!: settle_rules inert_rules intro: child)
qed

section \<open>Lists and records\<close>

lemma reference_pair:
  assumes "map_of (p_fragments p) i = Some fl" "f \<in> set (fragments fl)" "j \<in> set (fragment_refs f)"
  shows "(j, i) \<in> set (reference_pairs p)"
  using map_of_SomeD [OF assms(1)] assms(2,3) by (force simp: reference_pairs_def)

lemma fragment_depth_le:
  assumes "map_of (p_fragments p) i = Some fl" "f \<in> set (fragments fl)"
  shows "fragment_depth f \<le> protocol_depth p"
  using map_of_SomeD [OF assms(1)] assms(2) unfolding protocol_depth_def
  by (intro foldr_max_ge) force

lemma settle_item:
  assumes ranked: "ranked rank k d (e_protocol e)" and fl: "map_of (p_fragments (e_protocol e)) i = Some fl" "f \<in> set (fragments fl)"
    and rec: "\<And>\<rho> j cs'. need rank k d j cs' < need rank k d i cs \<Longrightarrow> routes_depth cs' \<le> d \<Longrightarrow>
      settles (has_routes cs') (rec \<rho> j) (rec' \<rho> j) (has_routes cs')"
    and depth: "routes_depth cs \<le> d"
  shows "settles (has_routes cs) (lex_item e up rec \<rho> best f) (lex_item e up rec' \<rho> best f) (has_routes cs)"
proof -
  have bound: "rank j \<le> k" for j using ranked by (simp add: ranked_def)
  have lower: "rank j < rank i" if "j \<in> set (fragment_refs f)" for j
    using ranked reference_pair [OF fl that] by (auto simp: ranked_def)
  have ref: "settles (has_routes cs) (rec \<rho> j) (rec' \<rho> j) (has_routes cs)" if "j \<in> set (fragment_refs f)" for \<rho> j
    by (rule rec [OF need_ref [OF lower [OF that]] depth])
  have child_depth: "routes_depth (route_children c) \<le> d" if "route_depth c \<le> d" for c
    using route_own_ids(4) [of c] that by simp
  have outlet: "settles (has_routes (route_children c)) (rec \<rho> j) (rec' \<rho> j) (has_routes (route_children c))"
    if "c \<in> set cs" "j \<in> set (route_ids c)" for \<rho> c j
  proof (rule rec [OF need_outlet [OF that bound]])
    have "route_depth c \<le> routes_depth cs" using that(1) by (intro foldr_max_ge) simp
    then show "routes_depth (route_children c) \<le> d" using depth child_depth by simp
  qed
  have route: "settles (has_routes (route_children r)) (rec \<rho> j) (rec' \<rho> j) (has_routes (route_children r))"
    if "f = Some (FRoute r)" "j \<in> set (route_ids r)" for \<rho> r j
  proof (rule rec)
    have "fragment_depth f \<le> d" using ranked fragment_depth_le [OF fl] by (simp add: ranked_def)
    then show deep: "routes_depth (route_children r) \<le> d" using that(1) child_depth by (simp add: fragment_depth_def)
    have refs: "set (route_ids r) \<subseteq> set (fragment_refs f)" using that(1) by (simp add: fragment_refs_def)
    have "highest rank (route_children r) \<le> rank i"
      using route_own_ids(3) [of r] refs lower by (auto simp: highest_le simp del: set_concat)
    then show "need rank k d j (route_children r) < need rank k d i cs"
      using that(2) refs deep by (intro need_route lower bound) auto
  qed
  show ?thesis
  proof (cases f)
    case (Some g)
    show ?thesis
    proof (cases g)
      case (FRoute r)
      with Some show ?thesis
        by (simp add: lex_item_def) (intro settle_route settle_component route route_own_ids; simp)
    next
      case FOutlet
      with Some show ?thesis
        by (simp add: lex_item_def) (intro settle_outlet settle_component outlet route_own_ids)
    qed (use ref Some in \<open>auto simp: lex_item_def fragment_refs_def
        intro!: settle_rules inert_rules settle_signal settle_attribute settle_if settle_for settle_component\<close>)
  qed (simp add: lex_item_def settle_ok)
qed

lemma settle_fragments:
  assumes "\<And>best f. f \<in> set fs \<Longrightarrow>
    settles (has_routes cs) (lex_item e up rec \<rho> best f) (lex_item e up rec' \<rho> best f) (has_routes cs)"
  shows "settles (has_routes cs) (lex_fragments e up rec \<rho> fs start) (lex_fragments e up rec' \<rho> fs start) (has_routes cs)"
proof -
  have "settles (has_routes cs) (runs (map (lex_item e up rec \<rho> best) gs)) (runs (map (lex_item e up rec' \<rho> best) gs)) (has_routes cs)"
    if "set gs \<subseteq> set fs" for best gs
    using that by (induction gs) (auto intro!: settle_rules assms)
  then show ?thesis
    unfolding lex_fragments_def by (intro settle_rules) (auto dest: in_set_dropD)
qed

lemma settle_record:
  assumes ranked: "ranked rank k d (e_protocol e)"
  shows "need rank k d i cs \<le> n \<Longrightarrow> need rank k d i cs \<le> m \<Longrightarrow> routes_depth cs \<le> d \<Longrightarrow>
    settles (has_routes cs) (lex_record e up n \<rho> i) (lex_record e up m \<rho> i) (has_routes cs)"
proof (induction n arbitrary: m \<rho> i cs)
  case 0
  then show ?case by (simp add: need_def)
next
  case (Suc n)
  then obtain m' where m: "m = Suc m'" by (cases m) (auto simp: need_def)
  show ?case
  proof (cases "map_of (p_fragments (e_protocol e)) i")
    case None
    then have "lex_record e up x \<rho> i = run_fail (MissingFragment i)" if "x = Suc y" for x y
      using that by (simp add: fun_eq_iff)
    then show ?thesis using m settle_fail by simp
  next
    case (Some fl)
    have eq: "lex_record e up (Suc x) \<rho> i = lex_fragments e up (lex_record e up x) \<rho> (fragments fl) 0" for x
      using Some by (simp add: fun_eq_iff)
    have "settles (has_routes cs) (lex_item e up (lex_record e up n) \<rho> best f) (lex_item e up (lex_record e up m') \<rho> best f) (has_routes cs)"
      if "f \<in> set (fragments fl)" for best f
      using Suc m by (intro settle_item [OF ranked Some that]) auto
    then show ?thesis unfolding m eq by (rule settle_fragments)
  qed
qed

section \<open>A render\<close>

lemma settle_after:
  assumes "settles P a b (has_routes cs)" "inert x"
  shows "settles P (\<lambda>l. case a l of (Inl OutOfFuel, l') \<Rightarrow> (Inl OutOfFuel, l') | (r, l') \<Rightarrow> run_then (lex_do x) (\<lambda>l. (r, l)) l')
    (\<lambda>l. case b l of (Inl OutOfFuel, l') \<Rightarrow> (Inl OutOfFuel, l') | (r, l') \<Rightarrow> run_then (lex_do x) (\<lambda>l. (r, l)) l') (has_routes cs)"
proof (rule settlesI)
  fix l :: "'a lex" assume "P l"
  note A = settlesD [OF assms(1) this]
  obtain r l' where r: "a l = (r, l')" by fastforce
  obtain y d where y: "x (l_doc l') = (y, d)" by fastforce
  let ?a = "case a l of (Inl OutOfFuel, l') \<Rightarrow> (Inl OutOfFuel, l') | (r, l') \<Rightarrow> run_then (lex_do x) (\<lambda>l. (r, l)) l'"
  show "?a = (case b l of (Inl OutOfFuel, l') \<Rightarrow> (Inl OutOfFuel, l') | (r, l') \<Rightarrow> run_then (lex_do x) (\<lambda>l. (r, l)) l')"
    using A(1) by simp
  show "?a = (Inl z, l2) \<Longrightarrow> z \<noteq> OutOfFuel" for z l2
    using A(2) r y by (cases r; cases y) (auto simp: run_then_def lex_do_def split: stop.splits)
  show "?a = (Inr (), l2) \<Longrightarrow> has_routes cs l2" for l2
    using A(2,3) r y inertD [OF assms(2) y]
    by (cases r; cases y) (auto simp: run_then_def lex_do_def has_routes_def split: stop.splits)
qed

lemma settle_context:
  assumes rk: "ranked rank k d (e_protocol e)" and fl: "map_of (p_fragments (e_protocol e)) i = Some fl"
    and n: "nesting_bound k d \<le> n" "nesting_bound k d \<le> m"
  shows "settles (has_routes []) (lex_context e up n (fragments fl)) (lex_context e up m (fragments fl)) (has_routes [])"
proof -
  have bound: "need rank k d j cs \<le> nesting_bound k d" if "routes_depth cs \<le> d" for j cs
    using rk that by (intro need_bound) (simp_all add: ranked_def)
  have rec: "settles (has_routes cs) (lex_record e up n \<rho> j) (lex_record e up m \<rho> j) (has_routes cs)"
    if "routes_depth cs \<le> d" for \<rho> j cs
    using bound [OF that] n that by (intro settle_record [OF rk]) (meson order_trans)+
  have frags: "settles (has_routes []) (lex_fragments e up (lex_record e up n) Map.empty (fragments fl) s)
      (lex_fragments e up (lex_record e up m) Map.empty (fragments fl) s) (has_routes [])" for s
    by (intro settle_fragments settle_item [OF rk fl] rec) auto
  show ?thesis
    unfolding lex_context_def [abs_def] render_entry_def Let_def
    by (cases "component_owns_css_tree (e_entry_id e) (e_protocol e)")
      (auto split: option.split intro!: settle_rules settle_after inert_rules frags)
qed

text \<open>
  C2.  A render ends.  On a protocol whose render plan fits its 32-bit slots (\<open>plan_fits\<close>), whose
  loop variables are one path segment (\<open>plain_loops\<close>) and whose records do not refer to each other
  in a cycle, there is an amount of fuel, computed from the protocol alone, with which no render
  runs out, whatever the state, the request, the options and the writer; and any larger amount of
  fuel gives the same result.
\<close>

theorem render_ends:
  assumes fits: "plan_fits (h_up h) (document p)" and plain: "plain_loops p"
    and acyclic: "acyclic (set (reference_pairs p))" and n: "render_fuel p \<le> n"
  shows "fst (render h n p state opts w) \<noteq> Inl OutOfFuel \<and> render h n p state opts w = render h (render_fuel p) p state opts w"
proof -
  obtain rank where rk: "ranked rank (length (reference_pairs p)) (protocol_depth p) p"
    using rank_exists [OF acyclic] .
  then have rk': "ranked rank (length (reference_pairs p)) (protocol_depth p) (document p)"
    by (simp add: ranked_def reference_pairs_def protocol_depth_def)
  let ?l = "\<lparr>l_doc = initial_doc w, l_attrs = Map.empty, l_collecting = False\<rparr>"
  have go: "lex_context e up n (fragments fl) ?l = lex_context e up (render_fuel p) (fragments fl) ?l \<and>
      fst (lex_context e up (render_fuel p) (fragments fl) ?l) \<noteq> Inl OutOfFuel"
    if e: "e_protocol e = document p" and fl: "map_of (p_fragments p) i = Some fl" for e up i fl
  proof -
    have s: "settles (has_routes []) (lex_context e up n (fragments fl)) (lex_context e up (render_fuel p) (fragments fl)) (has_routes [])"
      using rk' fl n
      by (intro settle_context [where i = i and rank = rank and k = "length (reference_pairs p)" and d = "protocol_depth p"])
        (simp_all add: e render_fuel_def)
    have "has_routes [] ?l" by (simp add: has_routes_def initial_doc_def)
    note d = settlesD [OF s this]
    show ?thesis using d(1,2) by (cases "lex_context e up n (fragments fl) ?l") auto
  qed
  have ends: "fst (finish e (apsnd g rw)) \<noteq> Inl OutOfFuel" if "fst rw \<noteq> Inl OutOfFuel"
    for e :: "'a env" and g :: "'a lex \<Rightarrow> 'a" and rw :: "(stop, unit) result \<times> 'a lex"
    using that by (cases rw) (auto simp: finish_def split: sum.split prod.split)
  show ?thesis
    unfolding render_lexical [OF fits plain]
    using go [OF make_env_protocol] ends
    by (auto simp: lex_render_def run_fail_def Let_def split: option.split sum.split)
qed

lemma ranked_acyclic: "(\<And>j i. (j, i) \<in> set ps \<Longrightarrow> rank j < (rank i :: nat)) \<Longrightarrow> acyclic (set ps)"
  by (rule acyclic_subset [OF wf_acyclic [OF wf_measure [of rank]]]) auto

theorem render_ends_witness:
  "plan_fits (h_up sample_host) (document sample_page) \<and> plain_loops sample_page \<and>
   acyclic (set (reference_pairs sample_page)) \<and> render_fuel sample_page = 12 \<and>
   fst (render sample_host 12 sample_page sample_state (options_new ''page'' ''/'') []) \<noteq> Inl OutOfFuel \<and>
   render sample_host 12 sample_page sample_state (options_new ''page'' ''/'') [] =
     render sample_host (render_fuel sample_page) sample_page sample_state (options_new ''page'' ''/'') []"
proof -
  have "distinct (map fst (p_fragments (document sample_page)))" "length (p_fragments (document sample_page)) = 3"
    "length (ri_metadata (render_index (h_up sample_host) (document sample_page))) = 12"
    "ri_attr_names (render_index (h_up sample_host) (document sample_page)) = ''title''"
    by code_simp+
  then have fit: "plan_fits (h_up sample_host) (document sample_page)" by (simp add: plan_fits_def)
  have plain: "plain_loops sample_page" by code_simp
  have pairs: "reference_pairs sample_page = [(''row'', ''page''), (''my-card'', ''row'')]" by code_simp
  have acyc: "acyclic (set (reference_pairs sample_page))"
    by (rule ranked_acyclic [where rank = "\<lambda>i. if i = ''page'' then 2 else if i = ''row'' then 1 else 0"]) (auto simp: pairs)
  have fuel: "render_fuel sample_page = 12" by code_simp
  then show ?thesis using fit plain acyc render_ends [OF fit plain acyc, of 12] by simp
qed

end
