(* ===== verification/Stream_Inventory.thy ===== *)
theory Stream_Inventory
  imports Streaming_Sink Render_Main
begin

text \<open>
  The component inventory of \<open>crates/webui-handler/src/route_handler.rs\<close>: a bit field with one bit per
  indexed component, which a client sends as hex digits and the server answers with the components that
  are missing.  The checkpoints of a streamed response (\<open>Stream_Record\<close>) write the same encoding.
\<close>

unbundle bit_operations_syntax

section \<open>Bits\<close>

text \<open>\<open>(index / 8) as usize\<close> and \<open>1 << (index % 8)\<close>\<close>

definition byte_idx :: "u32 \<Rightarrow> nat" where
  "byte_idx index = unat (index div 8)"

definition bit_mask :: "u32 \<Rightarrow> u8" where
  "bit_mask index = push_bit (unat (index mod 8)) 1"

definition has_component :: "u8 list \<Rightarrow> u32 \<Rightarrow> bool" where
  "has_component inventory index \<longleftrightarrow>
     byte_idx index < length inventory \<and> inventory ! byte_idx index AND bit_mask index \<noteq> 0"

definition set_component :: "u8 list \<Rightarrow> u32 \<Rightarrow> u8 list" where
  "set_component inventory index =
     (let inventory = (if byte_idx index \<ge> length inventory
        then inventory @ replicate (byte_idx index + 1 - length inventory) 0 else inventory)
      in inventory[byte_idx index := inventory ! byte_idx index OR bit_mask index])"

section \<open>Hex digits\<close>

definition HEX :: string where
  "HEX = ''0123456789abcdef''"

definition encode_inventory :: "u8 list \<Rightarrow> string" where
  "encode_inventory bytes = concat (map (\<lambda>byte. [HEX ! unat (drop_bit 4 byte), HEX ! unat (byte AND 0x0f)]) bytes)"

definition inventory_odd_length :: "nat \<Rightarrow> handler_error" where
  "inventory_odd_length n = ProtocolErr (''inventory hex has odd length: '' @ decimal n)"

text \<open>\<open>{:#04x}\<close> of a byte\<close>

definition inventory_bad_digit :: "nat \<Rightarrow> handler_error" where
  "inventory_bad_digit b = ProtocolErr (''invalid hex digit in inventory: 0x'' @ [HEX ! (b div 16), HEX ! (b mod 16)])"

fun parse_hex_pairs :: "nat list \<Rightarrow> (handler_error, u8 list) result" where
  "parse_hex_pairs (hi # lo # chars) =
     rbind (ok_or (inventory_bad_digit hi) (hex_val hi)) (\<lambda>h.
       rbind (ok_or (inventory_bad_digit lo) (hex_val lo)) (\<lambda>l.
         rbind (parse_hex_pairs chars) (\<lambda>rest. Inr ((push_bit 4 (of_nat h) OR of_nat l) # rest))))"
| "parse_hex_pairs _ = Inr []"

definition parse_inventory :: "string \<Rightarrow> (handler_error, u8 list) result" where
  "parse_inventory hex =
     (if hex = [] then Inr []
      else if length hex mod 2 \<noteq> 0 then Inl (inventory_odd_length (length hex))
      else parse_hex_pairs (bytes_of hex))"

section \<open>Negotiation\<close>

record filtered_components =
  fc_needed :: "string list"
  fc_updated_inventory :: string
  fc_client_inventory :: "u8 list"

definition filter_component :: "(string \<rightharpoonup> u32) \<Rightarrow> u8 list \<Rightarrow> string \<Rightarrow> string list \<times> u8 list \<Rightarrow> string list \<times> u8 list" where
  "filter_component index client_inv name acc = (case acc of (needed, updated_inv) \<Rightarrow>
     (case index name of
        Some idx \<Rightarrow> (if has_component client_inv idx then needed else needed @ [name], set_component updated_inv idx)
      | None \<Rightarrow> (needed @ [name], updated_inv)))"

definition filter_components_with_inventory ::
  "string list \<Rightarrow> string \<Rightarrow> (string \<rightharpoonup> u32) \<Rightarrow> (handler_error, filtered_components) result" where
  "filter_components_with_inventory component_names inventory_hex index =
     rbind (parse_inventory inventory_hex) (\<lambda>client_inv.
       case fold (filter_component index client_inv) component_names ([], client_inv) of (needed, updated_inv) \<Rightarrow>
         Inr \<lparr>fc_needed = needed, fc_updated_inventory = encode_inventory updated_inv, fc_client_inventory = client_inv\<rparr>)"

definition filter_needed_components ::
  "string list \<Rightarrow> string \<Rightarrow> (string \<rightharpoonup> u32) \<Rightarrow> (handler_error, string list \<times> string) result" where
  "filter_needed_components component_names inventory_hex index =
     rbind (filter_components_with_inventory component_names inventory_hex index) (\<lambda>filtered.
       Inr (fc_needed filtered, fc_updated_inventory filtered))"

text \<open>\<open>get_needed_components\<close>, the walk without a request, and the encoding of a set of rendered names.\<close>

definition get_needed_components ::
  "web_ui_protocol \<Rightarrow> string \<Rightarrow> string \<Rightarrow> (string \<rightharpoonup> u32) \<Rightarrow> (handler_error, string list \<times> string) result" where
  "get_needed_components p entry_id inventory_hex component_index =
     filter_needed_components (collect_inventoryable_components p entry_id None True (compiled_route_index (map snd (p_fragments p))))
       inventory_hex component_index"

definition encode_component_inventory :: "string list \<Rightarrow> (string \<rightharpoonup> u32) \<Rightarrow> string" where
  "encode_component_inventory component_names index =
     encode_inventory (fold (\<lambda>name inventory. case index name of
       Some idx \<Rightarrow> set_component inventory idx | None \<Rightarrow> inventory) component_names [])"

text \<open>\<open>style_inventory\<close> and \<open>borrowed_style_inventory\<close>, over the names of the resources.\<close>

definition missing_style_slot :: "string \<Rightarrow> handler_error" where
  "missing_style_slot name = Invariant (''style resource '' @ [CHR 0x27] @ name @ [CHR 0x27] @ '' has no inventory index'')"

fun style_bits :: "(string \<rightharpoonup> u32) \<Rightarrow> string list \<Rightarrow> u8 list \<Rightarrow> (handler_error, u8 list) result" where
  "style_bits index [] bits = Inr bits"
| "style_bits index (name # names) bits = (case index name of
     None \<Rightarrow> Inl (missing_style_slot name)
   | Some slot \<Rightarrow> style_bits index names (set_component bits slot))"

definition borrowed_style_inventory :: "string list \<Rightarrow> (string \<rightharpoonup> u32) \<Rightarrow> (handler_error, string) result" where
  "borrowed_style_inventory resource_names index =
     rbind (style_bits index resource_names []) (\<lambda>bits. Inr (encode_inventory bits))"

definition style_inventory :: "json \<Rightarrow> (string \<rightharpoonup> u32) \<Rightarrow> (handler_error, string) result" where
  "style_inventory styles index =
     rbind (style_bits index (case styles of
         JObject m \<Rightarrow> (case map_of m ''resources'' of Some (JObject resources) \<Rightarrow> map fst resources | _ \<Rightarrow> [])
       | _ \<Rightarrow> []) []) (\<lambda>bits. Inr (encode_inventory bits))"

section \<open>Facts about bits\<close>

lemma byte_idx_eq: "byte_idx i = unat i div 8"
  by (simp add: byte_idx_def unat_div)

lemma bit_mask_bit: "bit (bit_mask i) n \<longleftrightarrow> n = unat i mod 8"
proof -
  have "bit_mask i = 2 ^ (unat i mod 8)" by (simp add: bit_mask_def unat_mod push_bit_eq_mult)
  moreover have "unat i mod 8 < LENGTH(8)" by simp
  ultimately show ?thesis by (auto simp: bit_exp_iff possible_bit_def simp del: len_num1)
qed

lemma and_bit_mask: "(x AND bit_mask i \<noteq> 0) \<longleftrightarrow> bit x (unat i mod 8)"
proof
  assume "x AND bit_mask i \<noteq> 0"
  then obtain n where "bit (x AND bit_mask i) n" by (metis bit_eqI bit_0_eq bot_apply bot_bool_def)
  then show "bit x (unat i mod 8)" by (auto simp: bit_and_iff bit_mask_bit)
next
  assume "bit x (unat i mod 8)"
  then have "bit (x AND bit_mask i) (unat i mod 8)" by (simp add: bit_and_iff bit_mask_bit)
  then show "x AND bit_mask i \<noteq> 0" by auto
qed

lemma has_component_bit:
  "has_component bytes i \<longleftrightarrow> unat i div 8 < length bytes \<and> bit (bytes ! (unat i div 8)) (unat i mod 8)"
  by (simp add: has_component_def byte_idx_eq and_bit_mask)

lemma same_position: "unat i div 8 = unat j div 8 \<Longrightarrow> unat i mod 8 = unat j mod 8 \<Longrightarrow> i = (j :: u32)"
  by (metis div_mult_mod_eq unsigned_word_eqI)

lemma has_component_Nil [simp]: "\<not> has_component [] i"
  by (simp add: has_component_def)

lemma has_component_zero [simp]: "\<not> has_component (replicate n 0) i"
  by (auto simp: has_component_bit)

lemma has_component_grow: "has_component (bytes @ replicate n 0) i \<longleftrightarrow> has_component bytes i"
  by (auto simp: has_component_bit nth_append)

text \<open>Setting a bit inside the field, and setting one that may lie behind its end.\<close>

lemma has_component_update:
  assumes "byte_idx i < length bytes"
  shows "has_component (bytes[byte_idx i := bytes ! byte_idx i OR bit_mask i]) j \<longleftrightarrow> has_component bytes j \<or> j = i"
  using assms same_position [of i j]
  by (auto simp: has_component_bit byte_idx_eq nth_list_update bit_or_iff bit_mask_bit)

lemma has_set_component [simp]: "has_component (set_component bytes i) j \<longleftrightarrow> has_component bytes j \<or> j = i"
proof (cases "byte_idx i < length bytes")
  case True
  then show ?thesis by (simp add: set_component_def has_component_update)
next
  case False
  let ?bytes = "bytes @ replicate (byte_idx i + 1 - length bytes) 0"
  have "byte_idx i < length ?bytes" using False by simp
  from has_component_update [OF this, of j] False show ?thesis
    by (simp add: set_component_def has_component_grow Let_def)
qed

section \<open>Facts about the encoding\<close>

lemma HEX_hex_val: "n < 16 \<Longrightarrow> hex_val (of_char (HEX ! n)) = Some n"
proof -
  assume "n < 16"
  then have "n \<in> set [0..<16]" by simp
  moreover have "\<forall>n \<in> set [0..<16]. hex_val (of_char (HEX ! n)) = Some n" by code_simp
  ultimately show ?thesis by blast
qed

lemma nibbles_small: "unat (drop_bit 4 (b :: u8)) < 16" "unat (b AND 0x0f :: u8) < 16"
proof -
  have "unat b < 2 ^ 8" using unsigned_less [of b] by simp
  then have "unat b div 16 < 16" by simp
  then show "unat (drop_bit 4 b) < 16" by (simp add: drop_bit_eq_div unat_div)
  have "b AND 0x0f \<le> 0x0f" by (rule word_and_le1)
  then show "unat (b AND 0x0f) < 16" by (simp add: word_le_nat_alt)
qed

lemma nibbles_join: "push_bit 4 (drop_bit 4 b) OR (b AND 0x0f) = (b :: u8)"
proof -
  have "b AND 0x0f = take_bit 4 b" by (simp add: take_bit_eq_mask mask_eq_exp_minus_1)
  then show ?thesis
    by (intro bit_word_eqI) (auto simp: bit_or_iff bit_push_bit_iff bit_drop_bit_eq bit_take_bit_iff)
qed

lemma parse_hex_pairs_encode [codec_simps]: "parse_hex_pairs (bytes_of (encode_inventory bytes)) = Inr bytes"
  by (induction bytes) (simp_all add: encode_inventory_def HEX_hex_val nibbles_small nibbles_join)

lemma length_encode_inventory [simp]: "length (encode_inventory bytes) = 2 * length bytes"
  by (induction bytes) (simp_all add: encode_inventory_def)

theorem parse_encode_inventory [codec_simps]: "parse_inventory (encode_inventory bytes) = Inr bytes"
proof (cases "bytes = []")
  case True
  then show ?thesis by (simp add: parse_inventory_def encode_inventory_def)
next
  case False
  then have "encode_inventory bytes \<noteq> []" using length_encode_inventory [of bytes] by fastforce
  then show ?thesis by (simp add: parse_inventory_def parse_hex_pairs_encode)
qed

lemma filter_component_fold:
  "fst (fold (filter_component index client) names (needed, upd)) =
     needed @ filter (\<lambda>name. case index name of Some i \<Rightarrow> \<not> has_component client i | None \<Rightarrow> True) names"
  "has_component (snd (fold (filter_component index client) names (needed, upd))) i \<longleftrightarrow>
     has_component upd i \<or> Some i \<in> index ` set names"
proof (induction names arbitrary: needed upd)
  case (Cons name names)
  { case 1 show ?case using Cons.IH(1) by (auto simp: filter_component_def split: option.split) }
  { case 2 show ?case using Cons.IH(2) by (cases "index name") (auto simp: filter_component_def) }
qed simp_all

section \<open>Properties\<close>

text \<open>
  C25. What a client is sent.  When its inventory parses, exactly the components that have no
  bit, or have no index at all, are needed, in the order of the request; the inventory that
  is returned parses, and holds exactly the bits of the old one and of every component asked for, so
  none of them is sent again to a client that sends it back.
\<close>

theorem inventory_negotiation:
  assumes "parse_inventory inventory_hex = Inr client"
  shows "\<exists>hex bits. filter_needed_components names inventory_hex index =
           Inr (filter (\<lambda>name. case index name of Some i \<Rightarrow> \<not> has_component client i | None \<Rightarrow> True) names, hex) \<and>
         parse_inventory hex = Inr bits \<and>
         (\<forall>i. has_component bits i \<longleftrightarrow> has_component client i \<or> Some i \<in> index ` set names)"
proof -
  obtain needed upd where f: "fold (filter_component index client) names ([], client) = (needed, upd)" by fastforce
  have "needed = filter (\<lambda>name. case index name of Some i \<Rightarrow> \<not> has_component client i | None \<Rightarrow> True) names"
    using filter_component_fold(1) [of index client names "[]" client] f by simp
  moreover have "has_component upd i \<longleftrightarrow> has_component client i \<or> Some i \<in> index ` set names" for i
    using filter_component_fold(2) [of index client names "[]" client i] f by simp
  ultimately show ?thesis
    using assms f by (simp add: filter_needed_components_def filter_components_with_inventory_def parse_encode_inventory)
qed

theorem inventory_negotiation_witness:
  "filter_needed_components [''x-a'', ''x-b'', ''x-c''] ''02'' (map_of [(''x-a'', 0), (''x-b'', 1)]) = Inr ([''x-a'', ''x-c''], ''03'')"
proof -
  have "parse_inventory ''02'' = Inr [2]" by code_simp
  from inventory_negotiation [OF this, of "[''x-a'', ''x-b'', ''x-c'']" "map_of [(''x-a'', 0), (''x-b'', 1)]"]
  obtain hex where "filter_needed_components [''x-a'', ''x-b'', ''x-c''] ''02'' (map_of [(''x-a'', 0), (''x-b'', 1)]) =
      Inr ([''x-a'', ''x-c''], hex)" by (auto simp: has_component_def byte_idx_def bit_mask_def)
  moreover have "filter_needed_components [''x-a'', ''x-b'', ''x-c''] ''02'' (map_of [(''x-a'', 0), (''x-b'', 1)]) =
      Inr ([''x-a'', ''x-c''], ''03'')" by code_simp
  ultimately show ?thesis by simp
qed

end
