(* ===== verification/Stream_Reach.thy ===== *)
theory Stream_Reach
  imports Stream_Inventory
begin

text \<open>
  \<open>ComponentReachabilityIndex\<close> of \<open>crates/webui-handler/src/route_handler.rs\<close>, the integer graph of
  components that the checkpoints of a streamed response are expanded with, and the key projections that
  are interned in it (with \<open>collect_hydration_key_ids_into\<close> of \<open>lib.rs\<close>).  A vector used as a
  stack is a list with its top in front.  A search is described by \<open>searched\<close>: what has been visited and
  what is still on the stack.
\<close>

unbundle bit_operations_syntax

section \<open>Searching a graph\<close>

definition reach_from :: "('a \<Rightarrow> 'a set) \<Rightarrow> 'a set \<Rightarrow> 'a set" where
  "reach_from succ roots = {(a, b). b \<in> succ a}\<^sup>* `` roots"

definition searched :: "('a \<Rightarrow> 'a set) \<Rightarrow> 'a set \<Rightarrow> 'a set \<Rightarrow> 'a set \<Rightarrow> bool" where
  "searched succ roots visited work \<longleftrightarrow> visited \<union> work \<subseteq> reach_from succ roots \<and> roots \<subseteq> visited \<union> work \<and>
     (\<forall>v \<in> visited. succ v \<subseteq> visited \<union> work)"

lemma reach_from_root [intro]: "x \<in> roots \<Longrightarrow> x \<in> reach_from succ roots"
  by (auto simp: reach_from_def)

lemma reach_from_succ: "x \<in> reach_from succ roots \<Longrightarrow> y \<in> succ x \<Longrightarrow> y \<in> reach_from succ roots"
  by (auto simp: reach_from_def intro: rtrancl_into_rtrancl)

lemma reach_from_least:
  assumes "roots \<subseteq> S" "\<And>x. x \<in> S \<Longrightarrow> succ x \<subseteq> S"
  shows "reach_from succ roots \<subseteq> S"
proof
  fix y assume "y \<in> reach_from succ roots"
  then obtain x where "(x, y) \<in> {(a, b). b \<in> succ a}\<^sup>*" "x \<in> roots" by (auto simp: reach_from_def)
  then show "y \<in> S" by (induction rule: rtrancl_induct) (use assms in auto)
qed

lemma searched_start: "searched succ roots {} roots"
  by (auto simp: searched_def)

lemma searched_skip: "searched succ roots V (insert w W) \<Longrightarrow> w \<in> V \<Longrightarrow> searched succ roots V W"
  by (auto simp: searched_def)

lemma searched_visit: "searched succ roots V (insert w W) \<Longrightarrow> searched succ roots (insert w V) (succ w \<union> W)"
  by (auto simp: searched_def intro: reach_from_succ)

lemma searched_done: "searched succ roots V {} \<Longrightarrow> V = reach_from succ roots"
  unfolding searched_def by (metis Un_empty_right reach_from_least subset_antisym)

section \<open>The index\<close>

record hydration_run =
  run_start :: u32
  run_len :: u32

definition FULL_STATE :: hydration_run where
  "FULL_STATE = \<lparr>run_start = 0, run_len = - 1\<rparr>"

definition requires_full_run :: "hydration_run \<Rightarrow> bool" where
  "requires_full_run run \<longleftrightarrow> run_len run = - 1"

record reachability_index =
  ri_names :: "string list"
  ri_dependencies :: "u32 list list"
  ri_route_dependent :: "bool list"
  ri_hydration_keys :: "string list"
  ri_hydration_key_ids :: "u32 list"
  ri_hydration_runs :: "hydration_run list"

definition get_at :: "'a list \<Rightarrow> u32 \<Rightarrow> 'a option" where
  "get_at xs index = (if unat index < length xs then Some (xs ! unat index) else None)"

definition ri_name :: "reachability_index \<Rightarrow> u32 \<Rightarrow> string option" where
  "ri_name ri index = get_at (ri_names ri) index"

definition dependencies :: "reachability_index \<Rightarrow> u32 \<Rightarrow> u32 list option" where
  "dependencies ri index = get_at (ri_dependencies ri) index"

definition is_route_dependent :: "reachability_index \<Rightarrow> u32 \<Rightarrow> bool option" where
  "is_route_dependent ri index = get_at (ri_route_dependent ri) index"

definition requires_expansion :: "reachability_index \<Rightarrow> u32 \<Rightarrow> bool option" where
  "requires_expansion ri index = (case is_route_dependent ri index of
     None \<Rightarrow> None
   | Some True \<Rightarrow> Some True
   | Some False \<Rightarrow> map_option (\<lambda>ds. ds \<noteq> []) (get_at (ri_dependencies ri) index))"

definition hydration_key :: "reachability_index \<Rightarrow> u32 \<Rightarrow> string option" where
  "hydration_key ri kid = get_at (ri_hydration_keys ri) kid"

text \<open>
  The ids after the call, with \<open>True\<close> when the record needs the full state.  The sum of two 32-bit
  numbers fits \<open>usize\<close>, so \<open>saturating_add\<close> is \<open>+\<close>.
\<close>

definition extend_hydration_keys :: "reachability_index \<Rightarrow> u32 \<Rightarrow> u32 list \<Rightarrow> bool \<times> u32 list" where
  "extend_hydration_keys ri index ids = (case get_at (ri_hydration_runs ri) index of
     None \<Rightarrow> (True, ids)
   | Some run \<Rightarrow>
       if requires_full_run run then (True, ids)
       else (let from = unat (run_start run); to = from + unat (run_len run)
             in if to \<le> length (ri_hydration_key_ids ri)
                then (False, ids @ take (to - from) (drop from (ri_hydration_key_ids ri))) else (True, ids)))"

section \<open>Direct dependencies\<close>

datatype dependency_work = DepFragment string | DepComponent u32

fun dependency_item :: "(string \<rightharpoonup> u32) \<Rightarrow> web_ui_fragment \<Rightarrow> dependency_work list" where
  "dependency_item index (Some (FComponent c)) = (case index c of Some i \<Rightarrow> [DepComponent i] | None \<Rightarrow> [])"
| "dependency_item index (Some (FForLoop l)) = [DepFragment (for_fragment_id l)]"
| "dependency_item index (Some (FIfCond c)) = (if \<not> if_lazy c then [DepFragment (if_fragment_id c)] else [])"
| "dependency_item index (Some (FAttribute a)) = (if attr_template a \<noteq> [] then [DepFragment (attr_template a)] else [])"
| "dependency_item index _ = []"

text \<open>\<open>seen_components\<close> holds the elements of \<open>dependencies\<close>, to which every new one is pushed.\<close>

definition push_new :: "u32 \<Rightarrow> u32 list \<Rightarrow> u32 list" where
  "push_new index deps = (if index \<in> set deps then deps else deps @ [index])"

text \<open>The fragments of a record are pushed from the last to the first, so the first is on top.\<close>

function direct_loop ::
  "web_ui_protocol \<Rightarrow> (string \<rightharpoonup> u32) \<Rightarrow> dependency_work list \<Rightarrow> string list \<Rightarrow> u32 list \<Rightarrow> bool \<Rightarrow> u32 list \<times> bool" where
  "direct_loop p index [] visited deps has_route = (deps, has_route)"
| "direct_loop p index (DepComponent i # work) visited deps has_route = direct_loop p index work visited (push_new i deps) has_route"
| "direct_loop p index (DepFragment i # work) visited deps has_route =
     (if i \<in> set visited then direct_loop p index work visited deps has_route
      else (case map_of (p_fragments p) i of
          None \<Rightarrow> direct_loop p index work (i # visited) deps has_route
        | Some fl \<Rightarrow> direct_loop p index (concat (map (dependency_item index) (fragments fl)) @ work) (i # visited) deps
            (has_route \<or> list_ex is_route (fragments fl))))"
  by pat_completeness auto
termination
proof (relation "measures [\<lambda>(p, _, _, visited, _). card (fst ` set (p_fragments p) - set visited), \<lambda>(_, _, work, _). length work]", goal_cases)
  case (4 p index i work visited deps has_route)
  then have "fst ` set (p_fragments p) - set (i # visited) = fst ` set (p_fragments p) - set visited"
    by (auto simp: map_of_eq_None_iff)
  then show ?case by simp
next
  case (5 p index i work visited deps has_route fl)
  then have "i \<in> fst ` set (p_fragments p) - set visited" by (force dest: map_of_SomeD)
  then have "card (fst ` set (p_fragments p) - set (i # visited)) < card (fst ` set (p_fragments p) - set visited)"
    by (intro psubset_card_mono) auto
  then show ?case by simp
qed simp_all

definition collect_direct_component_dependencies ::
  "web_ui_protocol \<Rightarrow> string \<Rightarrow> (string \<rightharpoonup> u32) \<Rightarrow> u32 list \<times> bool" where
  "collect_direct_component_dependencies p rt index =
     direct_loop p index [DepFragment rt] []
       (case map_of (p_client_fragments p) rt of
          None \<Rightarrow> []
        | Some cf \<Rightarrow> fold (\<lambda>dep deps. case index dep of Some i \<Rightarrow> push_new i deps | None \<Rightarrow> deps) (cf_dependencies cf) [])
       False"

section \<open>Route dependence\<close>

text \<open>\<open>reverse.get_mut(child)\<close>: a child outside the table is skipped.\<close>

definition push_parent :: "u32 \<Rightarrow> u32 list \<Rightarrow> u32 list list \<Rightarrow> u32 list list" where
  "push_parent parent ds reverse = fold (\<lambda>child rv.
     if unat child < length rv then rv[unat child := rv ! unat child @ [parent]] else rv) ds reverse"

definition reverse_edges :: "u32 list list \<Rightarrow> u32 list list" where
  "reverse_edges deps = fold (\<lambda>(parent, ds). push_parent (of_nat parent) ds)
     (enumerate 0 deps) (replicate (length deps) [])"

definition mark_parent :: "u32 \<Rightarrow> bool list \<times> u32 list \<Rightarrow> bool list \<times> u32 list" where
  "mark_parent parent acc = (case acc of (route_dependent, pending) \<Rightarrow>
     if unat parent < length route_dependent \<and> \<not> route_dependent ! unat parent
     then (route_dependent[unat parent := True], parent # pending) else (route_dependent, pending))"

definition unmarked :: "bool list \<Rightarrow> nat" where
  "unmarked flags = length (filter Not flags)"

lemma unmarked_update: "i < length flags \<Longrightarrow> \<not> flags ! i \<Longrightarrow> unmarked (flags[i := True]) < unmarked flags"
  unfolding unmarked_def length_filter_conv_card by (intro psubset_card_mono) (auto simp: nth_list_update)

lemma mark_parents_unmarked:
  "fold mark_parent parents (flags, pending) = (flags', pending') \<Longrightarrow>
     unmarked flags' < unmarked flags \<or> flags' = flags \<and> pending' = pending"
proof (induction parents arbitrary: flags pending)
  case (Cons parent parents)
  obtain f1 p1 where 1: "mark_parent parent (flags, pending) = (f1, p1)" by fastforce
  have "unmarked f1 < unmarked flags \<or> f1 = flags \<and> p1 = pending"
    using 1 unmarked_update [of "unat parent" flags] by (auto simp: mark_parent_def split: if_splits)
  with Cons.IH [of f1 p1] Cons.prems 1 show ?case by auto
qed simp

function mark_loop :: "u32 list list \<Rightarrow> u32 list \<Rightarrow> bool list \<Rightarrow> bool list" where
  "mark_loop reverse [] route_dependent = route_dependent"
| "mark_loop reverse (index # pending) route_dependent = (case get_at reverse index of
     None \<Rightarrow> mark_loop reverse pending route_dependent
   | Some parents \<Rightarrow> (case fold mark_parent parents (route_dependent, pending) of
       (route_dependent', pending') \<Rightarrow> mark_loop reverse pending' route_dependent'))"
  by pat_completeness auto
termination
proof (relation "measures [\<lambda>(_, _, flags). unmarked flags, \<lambda>(_, pending, _). length pending]", goal_cases)
  case (3 reverse index pending flags parents flags' pending')
  then show ?case using mark_parents_unmarked [of parents flags pending flags' pending'] by auto
qed simp_all

definition propagate_route_dependencies :: "u32 list list \<Rightarrow> bool list \<Rightarrow> bool list" where
  "propagate_route_dependencies deps route_dependent =
     mark_loop (reverse_edges deps)
       (rev (map of_nat (filter (\<lambda>i. route_dependent ! i) [0..<length route_dependent]))) route_dependent"

section \<open>Direct dependencies are those of the inline records\<close>

text \<open>The records a component renders without a component in between, and the components in a record.\<close>

definition inline_links :: "web_ui_protocol \<Rightarrow> string \<Rightarrow> string set" where
  "inline_links p i = {j. \<exists>f \<in> set (frags_of (p_fragments p) i). DepFragment j \<in> set (dependency_item Map.empty f)}"

definition inline_records :: "web_ui_protocol \<Rightarrow> string \<Rightarrow> string set" where
  "inline_records p rt = reach_from (inline_links p) {rt}"

definition components_in :: "web_ui_protocol \<Rightarrow> string \<Rightarrow> string set" where
  "components_in p i = {c. Some (FComponent c) \<in> set (frags_of (p_fragments p) i)}"

definition routes_in :: "web_ui_protocol \<Rightarrow> string \<Rightarrow> bool" where
  "routes_in p i \<longleftrightarrow> (\<exists>r. Some (FRoute r) \<in> set (frags_of (p_fragments p) i))"

definition client_dependencies :: "web_ui_protocol \<Rightarrow> string \<Rightarrow> string list" where
  "client_dependencies p rt = (case map_of (p_client_fragments p) rt of None \<Rightarrow> [] | Some cf \<Rightarrow> cf_dependencies cf)"

lemma set_push_new [simp]: "set (push_new i deps) = insert i (set deps)"
  by (auto simp: push_new_def)

lemma distinct_push_new [simp]: "distinct (push_new i deps) \<longleftrightarrow> distinct deps"
  by (auto simp: push_new_def)

lemma dependency_fragment: "DepFragment j \<in> set (dependency_item index f) \<longleftrightarrow> DepFragment j \<in> set (dependency_item Map.empty f)"
  by (rule dependency_item.cases [of "(index, f)"]) (auto split: option.splits)

lemma dependency_component: "DepComponent i \<in> set (dependency_item index f) \<longleftrightarrow> (\<exists>c. f = Some (FComponent c) \<and> index c = Some i)"
  by (rule dependency_item.cases [of "(index, f)"]) (auto split: option.splits)

lemma is_route_iff: "is_route f \<longleftrightarrow> (\<exists>r. f = Some (FRoute r))"
  by (auto simp: is_route_def split: option.splits fragment.splits)

definition fragment_work :: "dependency_work list \<Rightarrow> string set" where
  "fragment_work work = {i. DepFragment i \<in> set work}"

definition component_work :: "dependency_work list \<Rightarrow> u32 set" where
  "component_work work = {i. DepComponent i \<in> set work}"

lemma work_simps [simp]:
  "fragment_work [] = {}" "component_work [] = {}"
  "fragment_work (DepFragment i # w) = insert i (fragment_work w)" "fragment_work (DepComponent c # w) = fragment_work w"
  "component_work (DepFragment i # w) = component_work w" "component_work (DepComponent c # w) = insert c (component_work w)"
  by (auto simp: fragment_work_def component_work_def)

lemma work_pushed:
  assumes "map_of (p_fragments p) i = Some fl"
  shows "fragment_work (concat (map (dependency_item index) (fragments fl)) @ work) = inline_links p i \<union> fragment_work work"
    "component_work (concat (map (dependency_item index) (fragments fl)) @ work) =
       {n. \<exists>c \<in> components_in p i. index c = Some n} \<union> component_work work"
  using assms
  by (auto simp: fragment_work_def component_work_def inline_links_def components_in_def frags_of_def
      dependency_component dependency_fragment [of _ index])

lemma no_record:
  assumes "map_of (p_fragments p) i = None"
  shows "inline_links p i = {}" "components_in p i = {}" "\<not> routes_in p i"
  using assms by (auto simp: inline_links_def components_in_def routes_in_def frags_of_def)

lemma direct_loop_exact:
  assumes "searched (inline_links p) {rt} (set visited) (fragment_work work)"
    and "set deps \<union> component_work work = D \<union> {n. \<exists>v \<in> set visited. \<exists>c \<in> components_in p v. index c = Some n}"
    and "has_route \<longleftrightarrow> (\<exists>v \<in> set visited. routes_in p v)" and "distinct deps"
    and "direct_loop p index work visited deps has_route = (deps', has_route')"
  shows "distinct deps' \<and> set deps' = D \<union> {n. \<exists>v \<in> inline_records p rt. \<exists>c \<in> components_in p v. index c = Some n} \<and>
    (has_route' \<longleftrightarrow> (\<exists>v \<in> inline_records p rt. routes_in p v))"
  using assms
proof (induction p index work visited deps has_route rule: direct_loop.induct)
  case (1 p index visited deps has_route)
  from 1(1) have "set visited = inline_records p rt" by (simp add: inline_records_def searched_done)
  with 1 show ?case by auto
next
  case (2 p index i work visited deps has_route)
  show ?case by (rule "2.IH") (use "2.prems" in auto)
next
  case (3 p index i work visited deps has_route)
  show ?case
  proof (cases "i \<in> set visited")
    case True
    from searched_skip [of "inline_links p" "{rt}" "set visited" i "fragment_work work"] "3.prems"(1) True
    have "searched (inline_links p) {rt} (set visited) (fragment_work work)" by simp
    from "3.IH"(1) [OF True this] "3.prems" True show ?thesis by simp
  next
    case False
    from searched_visit [of "inline_links p" "{rt}" "set visited" i "fragment_work work"] "3.prems"(1)
    have s: "searched (inline_links p) {rt} (set (i # visited)) (inline_links p i \<union> fragment_work work)" by simp
    show ?thesis
    proof (cases "map_of (p_fragments p) i")
      case None
      note n = no_record [OF None]
      show ?thesis by (rule "3.IH"(2) [OF False None]) (use "3.prems" s n False None in auto)
    next
      case (Some fl)
      have "list_ex is_route (fragments fl) \<longleftrightarrow> routes_in p i"
        using Some by (auto simp: routes_in_def frags_of_def list_ex_iff is_route_iff)
      then show ?thesis
        by (intro "3.IH"(3) [OF False Some]) (use "3.prems" s work_pushed [OF Some, of index work] False Some in auto)
    qed
  qed
qed

lemma client_fold:
  "distinct deps \<Longrightarrow> distinct (fold (\<lambda>dep deps. case index dep of Some i \<Rightarrow> push_new i deps | None \<Rightarrow> deps) names deps) \<and>
   set (fold (\<lambda>dep deps. case index dep of Some i \<Rightarrow> push_new i deps | None \<Rightarrow> deps) names deps) =
     set deps \<union> {n. \<exists>c \<in> set names. index c = Some n}"
  by (induction names arbitrary: deps) (auto split: option.split)

theorem direct_dependencies_exact:
  assumes "collect_direct_component_dependencies p rt index = (deps, has_route)"
  shows "distinct deps"
    "set deps = {n. \<exists>c \<in> set (client_dependencies p rt) \<union> \<Union> (components_in p ` inline_records p rt). index c = Some n}"
    "has_route \<longleftrightarrow> (\<exists>v \<in> inline_records p rt. routes_in p v)"
proof -
  let ?D = "case map_of (p_client_fragments p) rt of None \<Rightarrow> []
        | Some cf \<Rightarrow> fold (\<lambda>dep deps. case index dep of Some i \<Rightarrow> push_new i deps | None \<Rightarrow> deps) (cf_dependencies cf) []"
  have D: "distinct ?D" "set ?D = {n. \<exists>c \<in> set (client_dependencies p rt). index c = Some n}"
    using client_fold [of "[]" index] by (auto simp: client_dependencies_def split: option.split)
  have "direct_loop p index [DepFragment rt] [] ?D False = (deps, has_route)"
    using assms by (simp add: collect_direct_component_dependencies_def)
  from direct_loop_exact [of p rt "[]" "[DepFragment rt]" ?D "set ?D" index False, OF _ _ _ D(1) this]
  have "distinct deps \<and> set deps = set ?D \<union> {n. \<exists>v \<in> inline_records p rt. \<exists>c \<in> components_in p v. index c = Some n} \<and>
    (has_route \<longleftrightarrow> (\<exists>v \<in> inline_records p rt. routes_in p v))" by (simp add: searched_start)
  with D(2) show "distinct deps"
    "set deps = {n. \<exists>c \<in> set (client_dependencies p rt) \<union> \<Union> (components_in p ` inline_records p rt). index c = Some n}"
    "has_route \<longleftrightarrow> (\<exists>v \<in> inline_records p rt. routes_in p v)" by auto
qed

section \<open>A component is route dependent when it reaches a route\<close>

definition deps_in_range :: "u32 list list \<Rightarrow> bool" where
  "deps_in_range deps \<longleftrightarrow> length deps \<le> 2 ^ 32 \<and> (\<forall>ds \<in> set deps. \<forall>d \<in> set ds. unat d < length deps)"

definition depends :: "u32 list list \<Rightarrow> (nat \<times> nat) set" where
  "depends deps = {(a, b). a < length deps \<and> b \<in> unat ` set (deps ! a)}"

definition marked :: "bool list \<Rightarrow> nat set" where
  "marked flags = {i. i < length flags \<and> flags ! i}"

lemma searched_cong: "searched succ roots V W \<Longrightarrow> V \<union> W = V \<union> W' \<Longrightarrow> searched succ roots V W'"
  by (simp add: searched_def)

lemma push_parent_exact:
  assumes "\<forall>d \<in> set ds. unat d < length rv"
  shows "length (push_parent q ds rv) = length rv"
    "c < length rv \<Longrightarrow> set (push_parent q ds rv ! c) = set (rv ! c) \<union> {x. x = q \<and> c \<in> unat ` set ds}"
  using assms unfolding push_parent_def by (induction ds arbitrary: rv) (auto simp: nth_list_update)

lemma push_parents_exact:
  assumes "\<forall>ds \<in> set deps. \<forall>d \<in> set ds. unat d < length rv"
  shows "length (fold (\<lambda>(parent, ds). push_parent (of_nat parent) ds) (enumerate n deps) rv) = length rv \<and>
    (\<forall>c < length rv. set (fold (\<lambda>(parent, ds). push_parent (of_nat parent) ds) (enumerate n deps) rv ! c) =
       set (rv ! c) \<union> {x. \<exists>a < length deps. x = of_nat (n + a) \<and> c \<in> unat ` set (deps ! a)})"
  using assms
proof (induction deps arbitrary: n rv)
  case (Cons ds deps)
  have ds: "\<forall>d \<in> set ds. unat d < length rv" using Cons.prems by simp
  note r = push_parent_exact [OF ds, where q = "of_nat n"]
  have "\<forall>ds' \<in> set deps. \<forall>d \<in> set ds'. unat d < length (push_parent (of_nat n) ds rv)" using Cons.prems r(1) by simp
  note IH = Cons.IH [OF this, of "Suc n"]
  have "{x. \<exists>a < length (ds # deps). x = (of_nat (n + a) :: u32) \<and> c \<in> unat ` set ((ds # deps) ! a)} =
      {x. x = of_nat n \<and> c \<in> unat ` set ds} \<union> {x. \<exists>a < length deps. x = of_nat (Suc n + a) \<and> c \<in> unat ` set (deps ! a)}"
    (is "?l = ?a \<union> ?b") for c
  proof -
    have "x \<in> ?l \<longleftrightarrow> x \<in> ?a \<union> ?b" for x by (simp add: less_Suc_eq_0_disj) (auto simp: nth_Cons')
    then show ?thesis by blast
  qed
  with IH r show ?case by (simp add: Un_assoc del: of_nat_add of_nat_Suc)
qed simp

lemma reverse_edges_exact:
  assumes "deps_in_range deps"
  shows "length (reverse_edges deps) = length deps"
    "c < length deps \<Longrightarrow> unat ` set (reverse_edges deps ! c) = {a. (a, c) \<in> depends deps}"
proof -
  have r: "\<forall>ds \<in> set deps. \<forall>d \<in> set ds. unat d < length (replicate (length deps) ([] :: u32 list))"
    using assms by (simp add: deps_in_range_def)
  note e = push_parents_exact [OF r, of 0]
  show "length (reverse_edges deps) = length deps" using e by (simp add: reverse_edges_def)
  have small: "a < length deps \<Longrightarrow> unat (of_nat a :: u32) = a" for a
    using assms by (intro unat_of_nat_small) (simp add: deps_in_range_def)
  assume c: "c < length deps"
  then have "set (reverse_edges deps ! c) = {x. \<exists>a < length deps. x = of_nat a \<and> c \<in> unat ` set (deps ! a)}"
    using e by (simp add: reverse_edges_def)
  then show "unat ` set (reverse_edges deps ! c) = {a. (a, c) \<in> depends deps}"
    by (auto simp: depends_def small image_iff) (use small in force)
qed

lemma mark_parents_exact:
  "fold mark_parent parents (flags, pending) = (flags', pending') \<Longrightarrow> \<forall>q \<in> set parents. unat q < length flags \<Longrightarrow>
   length flags' = length flags \<and> marked flags' = marked flags \<union> unat ` set parents \<and>
   unat ` set pending \<subseteq> unat ` set pending' \<and> unat ` set pending' \<union> marked flags = unat ` set pending \<union> marked flags' "
proof (induction parents arbitrary: flags pending)
  case (Cons parent parents)
  obtain f1 p1 where 1: "mark_parent parent (flags, pending) = (f1, p1)" by fastforce
  have m: "length f1 = length flags" "marked f1 = insert (unat parent) (marked flags)"
    "unat ` set pending \<subseteq> unat ` set p1" "unat ` set p1 \<union> marked flags = unat ` set pending \<union> marked f1"
    using 1 Cons.prems(2) by (auto simp: mark_parent_def marked_def nth_list_update split: if_splits)
  have "length flags' = length f1 \<and> marked flags' = marked f1 \<union> unat ` set parents \<and>
      unat ` set p1 \<subseteq> unat ` set pending' \<and> unat ` set pending' \<union> marked f1 = unat ` set p1 \<union> marked flags'"
    by (rule Cons.IH) (use Cons.prems 1 m(1) in auto)
  with m show ?case by (auto 0 3)
qed auto

lemma pending_union:
  "P \<subseteq> P' \<Longrightarrow> P' \<union> M = P \<union> (M \<union> S) \<Longrightarrow> M = insert x (V \<union> P) \<Longrightarrow> insert x V \<union> (S \<union> P) = insert x V \<union> P'"
  by blast

lemma mark_loop_exact:
  assumes "searched (\<lambda>c. unat ` set (reverse ! c)) roots V (unat ` set pending)"
    and "marked flags = V \<union> unat ` set pending" and "length reverse = length flags"
    and "\<forall>ps \<in> set reverse. \<forall>q \<in> set ps. unat q < length reverse"
  shows "marked (mark_loop reverse pending flags) = reach_from (\<lambda>c. unat ` set (reverse ! c)) roots"
    "length (mark_loop reverse pending flags) = length flags"
  using assms
proof (induction reverse pending flags arbitrary: V rule: mark_loop.induct)
  case (1 reverse flags)
  { case 1 then show ?case by (simp add: searched_done) }
  { case 2 then show ?case by simp }
next
  case (2 reverse index pending flags)
  let ?succ = "\<lambda>c. unat ` set (reverse ! c)"
  have *: "marked (mark_loop reverse (index # pending) flags) = reach_from ?succ roots \<and>
      length (mark_loop reverse (index # pending) flags) = length flags"
    if s: "searched ?succ roots V (unat ` set (index # pending))" and m: "marked flags = V \<union> unat ` set (index # pending)"
      and l: "length reverse = length flags" and r: "\<forall>ps \<in> set reverse. \<forall>q \<in> set ps. unat q < length reverse" for V
  proof -
    obtain flags' pending' where f: "fold mark_parent (reverse ! unat index) (flags, pending) = (flags', pending')" by fastforce
    have "unat index \<in> marked flags" using m by simp
    then have i: "unat index < length reverse" using l by (simp add: marked_def)
    then have g: "get_at reverse index = Some (reverse ! unat index)" by (simp add: get_at_def)
    have par: "\<forall>q \<in> set (reverse ! unat index). unat q < length flags" using r nth_mem [OF i] l by simp
    note e = mark_parents_exact [OF f par]
    have "searched ?succ roots (insert (unat index) V) (?succ (unat index) \<union> unat ` set pending)"
      using searched_visit [of ?succ roots V "unat index" "unat ` set pending"] s by simp
    then have s': "searched ?succ roots (insert (unat index) V) (unat ` set pending')"
      by (rule searched_cong, intro pending_union) (use e m in auto)
    have m': "marked flags' = insert (unat index) V \<union> unat ` set pending'"
      using e m pending_union [of "unat ` set pending" "unat ` set pending'" "marked flags" "?succ (unat index)" "unat index" V] by auto
    from "2.IH"(3,4) [OF g f [symmetric] s' m'] l r e g f
    show ?thesis by simp
  qed
  { case 1 from *[OF 1] show ?case by blast }
  { case 2 from *[OF 2] show ?case by blast }
qed

theorem propagate_routes_exact:
  assumes "deps_in_range deps" "length route_dependent = length deps" "s < length deps"
  shows "propagate_route_dependencies deps route_dependent ! s \<longleftrightarrow>
    (\<exists>t \<in> marked route_dependent. (s, t) \<in> (depends deps)\<^sup>*)"
    "length (propagate_route_dependencies deps route_dependent) = length deps"
proof -
  let ?succ = "\<lambda>c. unat ` set (reverse_edges deps ! c)"
  let ?pending = "rev (map of_nat (filter (\<lambda>i. route_dependent ! i) [0..<length route_dependent])) :: u32 list"
  have small: "a < length deps \<Longrightarrow> unat (of_nat a :: u32) = a" for a
    using assms(1) by (intro unat_of_nat_small) (simp add: deps_in_range_def)
  have roots: "unat ` set ?pending = marked route_dependent"
    using assms(2) by (auto simp: marked_def small image_iff)
  note rev = reverse_edges_exact [OF assms(1)]
  have range: "\<forall>ps \<in> set (reverse_edges deps). \<forall>q \<in> set ps. unat q < length (reverse_edges deps)"
  proof (intro ballI)
    fix ps q assume "ps \<in> set (reverse_edges deps)" "q \<in> set ps"
    then obtain c where "c < length deps" "ps = reverse_edges deps ! c"
      using rev(1) by (metis in_set_conv_nth)
    with \<open>q \<in> set ps\<close> have "c < length deps" "unat q \<in> unat ` set (reverse_edges deps ! c)" by simp_all
    with rev show "unat q < length (reverse_edges deps)" by (auto simp: depends_def)
  qed
  have m: "marked (propagate_route_dependencies deps route_dependent) = reach_from ?succ (marked route_dependent)"
    "length (propagate_route_dependencies deps route_dependent) = length route_dependent"
  proof -
    have s: "searched ?succ (marked route_dependent) {} (unat ` set ?pending)" unfolding roots by (rule searched_start)
    have r: "marked route_dependent = {} \<union> unat ` set ?pending" using roots by simp
    have l: "length (reverse_edges deps) = length route_dependent" using rev(1) assms(2) by simp
    note e = mark_loop_exact [OF s r l range]
    show "marked (propagate_route_dependencies deps route_dependent) = reach_from ?succ (marked route_dependent)"
      unfolding propagate_route_dependencies_def by (rule e(1))
    show "length (propagate_route_dependencies deps route_dependent) = length route_dependent"
      unfolding propagate_route_dependencies_def by (rule e(2))
  qed
  show "length (propagate_route_dependencies deps route_dependent) = length deps" using m(2) assms(2) by simp
  have backwards: "(t, s) \<in> {(a, b). b \<in> ?succ a}\<^sup>* \<longleftrightarrow> (s, t) \<in> (depends deps)\<^sup>*" if t: "t < length deps" for s t
  proof
    assume "(t, s) \<in> {(a, b). b \<in> ?succ a}\<^sup>*"
    then have "(s, t) \<in> (depends deps)\<^sup>* \<and> s < length deps"
    proof (induction rule: rtrancl_induct)
      case (step y z)
      then have "(z, y) \<in> depends deps" using rev(2) [of y] by auto
      with step show ?case by (auto simp: depends_def intro: converse_rtrancl_into_rtrancl)
    qed (use t in simp)
    then show "(s, t) \<in> (depends deps)\<^sup>*" ..
  next
    assume "(s, t) \<in> (depends deps)\<^sup>*"
    then show "(t, s) \<in> {(a, b). b \<in> ?succ a}\<^sup>*"
    proof (induction rule: converse_rtrancl_induct)
      case (step y z)
      then have "z < length deps" using assms(1) by (auto simp: depends_def deps_in_range_def)
      with rev(2) step show ?case by (auto intro: rtrancl_into_rtrancl)
    qed simp
  qed
  have "propagate_route_dependencies deps route_dependent ! s \<longleftrightarrow> s \<in> reach_from ?succ (marked route_dependent)"
    using m assms(2,3) unfolding marked_def by auto
  also have "\<dots> \<longleftrightarrow> (\<exists>t \<in> marked route_dependent. (s, t) \<in> (depends deps)\<^sup>*)"
    using backwards assms(2) by (auto simp: reach_from_def marked_def)
  finally show "propagate_route_dependencies deps route_dependent ! s \<longleftrightarrow>
    (\<exists>t \<in> marked route_dependent. (s, t) \<in> (depends deps)\<^sup>*)" .
qed

end
