(* ===== verification/Stream_Keys.thy ===== *)
theory Stream_Keys
  imports Stream_Reach
begin

text \<open>
  Which top-level keys of the state a set of components is hydrated with.  The renderer collects them
  by name (\<open>collect_component_state_into\<close>, \<open>crates/webui-handler/src/lib.rs\<close>); a streamed record
  collects the ids that \<open>ComponentReachabilityIndex::new\<close> (\<open>route_handler.rs\<close>) has interned.  Both select
  the same state.
\<close>

section \<open>Collecting by name\<close>

text \<open>\<open>StateProjectionMode\<close> and \<open>InitialStateStrategy::Components\<close>\<close>

definition MODE_NONE :: int where "MODE_NONE = 0"
definition MODE_KEYS :: int where "MODE_KEYS = 1"
definition MODE_ALL :: int where "MODE_ALL = 2"
definition STRATEGY_COMPONENTS :: int where "STRATEGY_COMPONENTS = 1"

lemmas mode_defs = MODE_NONE_def MODE_KEYS_def MODE_ALL_def

datatype state_selection = SelFull | SelKeys "string list" | SelKeyIds "u32 list" | SelFullExceptKeyIds "u32 list"

datatype component_state_surface = Hydration | Navigation

text \<open>The mode and the keys of one name; \<open>None\<close> where the source returns \<open>true\<close>.\<close>

definition component_surface :: "web_ui_protocol \<Rightarrow> component_state_surface \<Rightarrow> string \<Rightarrow> (int \<times> string list) option" where
  "component_surface p surface name = (case map_of (p_client_fragments p) name of
     Some fragment \<Rightarrow> (case surface of
         Hydration \<Rightarrow> map_option (\<lambda>owner. (cd_hydration_mode owner, cd_hydration_keys owner))
                        (map_of (p_components p) (cf_owner fragment))
       | Navigation \<Rightarrow> Some (case cf_state_mode fragment of Some m \<Rightarrow> m | None \<Rightarrow> MODE_ALL, cf_state_keys fragment))
   | None \<Rightarrow> (case map_of (p_components p) name of
         None \<Rightarrow> None
       | Some component \<Rightarrow> (case surface of
             Hydration \<Rightarrow> Some (cd_hydration_mode component, cd_hydration_keys component)
           | Navigation \<Rightarrow> (case cd_navigation_mode component of
                 Some m \<Rightarrow> Some (m, cd_navigation_keys component)
               | None \<Rightarrow> if cd_navigation_keys component \<noteq> [] then Some (MODE_KEYS, cd_navigation_keys component) else None))))"

fun collect_surfaces :: "web_ui_protocol \<Rightarrow> component_state_surface \<Rightarrow> string list \<Rightarrow> string list \<Rightarrow> string list option" where
  "collect_surfaces p surface [] keys = Some keys"
| "collect_surfaces p surface (name # names) keys = (case component_surface p surface name of
     None \<Rightarrow> None
   | Some (mode, component_keys) \<Rightarrow>
       if mode = MODE_ALL then None
       else if mode = MODE_KEYS \<or> (mode = MODE_NONE \<and> component_keys \<noteq> []) then collect_surfaces p surface names (keys @ component_keys)
       else if mode \<noteq> MODE_NONE then None
       else collect_surfaces p surface names keys)"

definition collect_component_state :: "web_ui_protocol \<Rightarrow> string list \<Rightarrow> component_state_surface \<Rightarrow> state_selection" where
  "collect_component_state p components surface = (case collect_surfaces p surface components [] of
     None \<Rightarrow> SelFull
   | Some keys \<Rightarrow> SelKeys (remdups_adj (sort keys)))"

definition collect_hydration_state :: "web_ui_protocol \<Rightarrow> string list \<Rightarrow> state_selection" where
  "collect_hydration_state p components =
     (if p_initial_state_strategy p \<noteq> STRATEGY_COMPONENTS then SelFull else collect_component_state p components Hydration)"

definition collect_navigation_state :: "web_ui_protocol \<Rightarrow> string list \<Rightarrow> state_selection" where
  "collect_navigation_state p components = collect_component_state p components Navigation"

section \<open>Interning\<close>

text \<open>\<open>slice::binary_search\<close> on sorted distinct keys: the position of a key, when it is there.\<close>

fun position_of :: "string list \<Rightarrow> string \<Rightarrow> nat option" where
  "position_of [] key = None"
| "position_of (k # ks) key = (if k = key then Some 0 else map_option Suc (position_of ks key))"

text \<open>\<open>u32::try_from\<close>: the number, when 32 bits hold it.\<close>

definition u32_try :: "nat \<Rightarrow> u32 option" where
  "u32_try n = (let w = of_nat n in if unat w = n then Some w else None)"

definition key_id :: "string list \<Rightarrow> string \<Rightarrow> u32 list" where
  "key_id keys key = (case position_of keys key of
     None \<Rightarrow> []
   | Some place \<Rightarrow> (case u32_try place of Some kid \<Rightarrow> [kid] | None \<Rightarrow> []))"

definition run_from :: "nat \<Rightarrow> nat \<Rightarrow> hydration_run" where
  "run_from from to = (case (u32_try from, u32_try (to - from)) of
     (Some st, Some len) \<Rightarrow> if len \<noteq> - 1 then \<lparr>run_start = st, run_len = len\<rparr> else FULL_STATE
   | _ \<Rightarrow> FULL_STATE)"

fun intern_runs ::
  "web_ui_protocol \<Rightarrow> string list \<Rightarrow> string list \<Rightarrow> u32 list \<Rightarrow> hydration_run list \<Rightarrow> (string \<times> hydration_run) list \<Rightarrow>
    u32 list \<times> hydration_run list" where
  "intern_runs p keys [] key_ids run_table owner_runs = (key_ids, run_table)"
| "intern_runs p keys (name # names) key_ids run_table owner_runs =
     (let owner = (case map_of (p_client_fragments p) name of Some cf \<Rightarrow> cf_owner cf | None \<Rightarrow> name) in
      case map_of owner_runs owner of
        Some run \<Rightarrow> intern_runs p keys names key_ids (run_table @ [run]) owner_runs
      | None \<Rightarrow> (case map_of (p_components p) owner of
          None \<Rightarrow> intern_runs p keys names key_ids (run_table @ [FULL_STATE]) owner_runs
        | Some component \<Rightarrow>
            let mode = cd_hydration_mode component; component_keys = cd_hydration_keys component;
                projects_keys = (mode = MODE_KEYS \<or> (mode = MODE_NONE \<and> component_keys \<noteq> []))
            in if mode = MODE_ALL \<or> (\<not> projects_keys \<and> mode \<noteq> MODE_NONE)
               then intern_runs p keys names key_ids (run_table @ [FULL_STATE]) owner_runs
               else (let key_ids' = (if projects_keys then key_ids @ concat (map (key_id keys) component_keys) else key_ids);
                         run = run_from (length key_ids) (length key_ids')
                     in intern_runs p keys names key_ids' (run_table @ [run]) ((owner, run) # owner_runs))))"

definition distinct_keys :: "web_ui_protocol \<Rightarrow> string list" where
  "distinct_keys p = remdups_adj (sort (concat (map (cd_hydration_keys \<circ> snd) (p_components p))))"

definition reachability_index_new :: "web_ui_protocol \<Rightarrow> (string \<times> u32) list \<Rightarrow> reachability_index" where
  "reachability_index_new p component_index =
     (let names = sort (map fst component_index);
          direct = map (\<lambda>name. collect_direct_component_dependencies p name (map_of component_index)) names;
          (key_ids, run_table) = intern_runs p (distinct_keys p) names [] [] []
      in \<lparr>ri_names = names, ri_dependencies = map fst direct,
          ri_route_dependent = propagate_route_dependencies (map fst direct) (map snd direct),
          ri_hydration_keys = distinct_keys p, ri_hydration_key_ids = key_ids, ri_hydration_runs = run_table\<rparr>)"

section \<open>Collecting by id\<close>

fun extend_all :: "reachability_index \<Rightarrow> u32 list \<Rightarrow> u32 list \<Rightarrow> u32 list option" where
  "extend_all ri [] ids = Some ids"
| "extend_all ri (component # components) ids = (case extend_hydration_keys ri component ids of
     (True, _) \<Rightarrow> None
   | (False, ids') \<Rightarrow> extend_all ri components ids')"

definition collect_hydration_key_ids_into :: "web_ui_protocol \<Rightarrow> reachability_index \<Rightarrow> u32 list \<Rightarrow> bool \<times> u32 list" where
  "collect_hydration_key_ids_into p ri components =
     (if p_initial_state_strategy p \<noteq> STRATEGY_COMPONENTS then (True, [])
      else (case extend_all ri components [] of
        None \<Rightarrow> (True, [])
      | Some ids \<Rightarrow> (False, remdups_adj (sort ids))))"

section \<open>Facts\<close>

lemma remdups_adj_sort: "remdups_adj (sort xs) = sorted_list_of_set (set (xs :: 'a :: linorder list))"
proof -
  have "sorted xs \<Longrightarrow> sorted_wrt (<) (remdups_adj xs)" for xs :: "'a list"
    by (induction xs rule: remdups_adj.induct) (auto simp: order_less_le dest: order_trans)
  then have "sorted_wrt (<) (remdups_adj (sort xs))" by simp
  then show ?thesis by (metis sorted_list_of_set.idem_if_sorted_distinct strict_sorted_iff remdups_adj_set set_sort)
qed

lemma position_of_Some: "position_of keys key = Some n \<longleftrightarrow> n < length keys \<and> keys ! n = key \<and> key \<notin> set (take n keys)"
proof (induction keys arbitrary: n)
  case (Cons k ks)
  then show ?case by (cases n) auto
qed simp

lemma position_of_mem: "key \<in> set keys \<Longrightarrow> \<exists>n. position_of keys key = Some n \<and> n < length keys \<and> keys ! n = key"
proof -
  assume "key \<in> set keys"
  then have "position_of keys key \<noteq> None" by (induction keys) auto
  then obtain n where "position_of keys key = Some n" by auto
  then show ?thesis by (auto simp: position_of_Some)
qed

lemma key_id_mem:
  assumes "key \<in> set keys" "length keys \<le> 2 ^ 32"
  shows "\<exists>kid. key_id keys key = [kid] \<and> unat kid < length keys \<and> keys ! unat kid = key"
proof -
  obtain n where n: "position_of keys key = Some n" "n < length keys" "keys ! n = key" using position_of_mem [OF assms(1)] by blast
  with assms(2) have "unat (of_nat n :: u32) = n" by (intro unat_of_nat_small) simp
  with n assms(2) show ?thesis by (simp add: key_id_def u32_try_def Let_def)
qed

lemma key_ids_of:
  assumes "set ks \<subseteq> set keys" "length keys \<le> 2 ^ 32"
  shows "map (\<lambda>kid. keys ! unat kid) (concat (map (key_id keys) ks)) = ks \<and>
    (\<forall>kid \<in> set (concat (map (key_id keys) ks)). unat kid < length keys)"
  using assms(1)
proof (induction ks)
  case (Cons k ks)
  then show ?case using key_id_mem [of k keys] assms(2) by fastforce
qed simp

section \<open>Both collections agree\<close>

text \<open>What one owner projects; a name projects what its owner does.\<close>

definition owner_of :: "web_ui_protocol \<Rightarrow> string \<Rightarrow> string" where
  "owner_of p name = (case map_of (p_client_fragments p) name of Some cf \<Rightarrow> cf_owner cf | None \<Rightarrow> name)"

definition owner_projection :: "web_ui_protocol \<Rightarrow> string \<Rightarrow> string list option" where
  "owner_projection p owner = (case map_of (p_components p) owner of
     None \<Rightarrow> None
   | Some c \<Rightarrow> if cd_hydration_mode c = MODE_KEYS then Some (cd_hydration_keys c)
       else if cd_hydration_mode c = MODE_NONE then Some (cd_hydration_keys c) else None)"

lemma collect_surfaces_projection:
  "collect_surfaces p Hydration names keys =
     (if \<forall>name \<in> set names. owner_projection p (owner_of p name) \<noteq> None
      then Some (keys @ concat (map (\<lambda>name. the (owner_projection p (owner_of p name))) names)) else None)"
proof (induction names arbitrary: keys)
  case (Cons name names)
  have "collect_surfaces p Hydration (name # names) keys = (case owner_projection p (owner_of p name) of
      None \<Rightarrow> None | Some ks \<Rightarrow> collect_surfaces p Hydration names (keys @ ks))"
    by (simp add: component_surface_def owner_projection_def owner_of_def mode_defs split: option.split)
  then show ?case unfolding Cons.IH by (simp split: option.split)
qed simp

definition run_ok :: "string list \<Rightarrow> u32 list \<Rightarrow> hydration_run \<Rightarrow> string list option \<Rightarrow> bool" where
  "run_ok keys key_ids run projected \<longleftrightarrow> (case projected of
     None \<Rightarrow> requires_full_run run
   | Some ks \<Rightarrow> \<not> requires_full_run run \<and> unat (run_start run) + unat (run_len run) \<le> length key_ids \<and>
       (let ids = take (unat (run_len run)) (drop (unat (run_start run)) key_ids)
        in map (\<lambda>kid. keys ! unat kid) ids = ks \<and> (\<forall>kid \<in> set ids. unat kid < length keys)))"

lemma run_ok_grows: "run_ok keys key_ids run projected \<Longrightarrow> run_ok keys (key_ids @ more_ids) run projected"
  by (auto simp: run_ok_def Let_def split: option.splits)

lemma run_ok_full: "run_ok keys key_ids FULL_STATE None"
  by (simp add: run_ok_def FULL_STATE_def requires_full_run_def)

lemma u32_try_id: "n < 2 ^ 32 \<Longrightarrow> u32_try n = Some (of_nat n) \<and> unat (of_nat n :: u32) = n"
  by (simp add: u32_try_def unat_of_nat_small)

lemma run_ok_new:
  assumes "length key_ids + length ids < 2 ^ 32 - 1" "map (\<lambda>kid. keys ! unat kid) ids = ks" "\<forall>kid \<in> set ids. unat kid < length keys"
  shows "run_ok keys (key_ids @ ids) (run_from (length key_ids) (length (key_ids @ ids))) (Some ks)"
proof -
  have s: "length key_ids < 2 ^ 32" "length ids < 2 ^ 32" using assms(1) by linarith+
  have m: "unat (- 1 :: u32) = 2 ^ 32 - 1" by (simp add: unsigned_minus_1_eq_mask mask_eq_exp_minus_1)
  have "unat (of_nat (length ids) :: u32) \<noteq> unat (- 1 :: u32)" using u32_try_id [OF s(2)] assms(1) unfolding m by linarith
  then have "of_nat (length ids) \<noteq> (- 1 :: u32)" by auto
  with u32_try_id [OF s(1)] u32_try_id [OF s(2)] assms show ?thesis
    by (simp add: run_from_def run_ok_def requires_full_run_def)
qed

definition keys_cover :: "web_ui_protocol \<Rightarrow> string list \<Rightarrow> bool" where
  "keys_cover p keys \<longleftrightarrow> length keys \<le> 2 ^ 32 \<and> (\<forall>(name, c) \<in> set (p_components p). set (cd_hydration_keys c) \<subseteq> set keys)"

lemma intern_runs_prefix:
  "intern_runs p keys names key_ids run_table owners = (key_ids', run_table') \<Longrightarrow> \<exists>ids. key_ids' = key_ids @ ids"
proof (induction names arbitrary: key_ids run_table owners)
  case (Cons name names)
  show ?case using Cons.prems
    by (auto simp: Let_def split: option.splits if_splits dest!: Cons.IH)
qed simp

lemma intern_runs_ok:
  assumes "keys_cover p keys" "length key_ids' < 2 ^ 32 - 1"
  shows "intern_runs p keys names key_ids run_table owners = (key_ids', run_table') \<Longrightarrow>
    \<forall>(owner, run) \<in> set owners. run_ok keys key_ids run (owner_projection p owner) \<Longrightarrow>
    \<exists>fresh. run_table' = run_table @ fresh \<and>
      list_all2 (\<lambda>name run. run_ok keys key_ids' run (owner_projection p (owner_of p name))) names fresh"
proof (induction names arbitrary: key_ids run_table owners)
  case (Cons name names)
  let ?owner = "owner_of p name"
  have step: ?case
    if run: "run_ok keys key_ids1 run (owner_projection p ?owner)"
      and rest: "intern_runs p keys names key_ids1 (run_table @ [run]) owners1 = (key_ids', run_table')"
      and owners: "\<forall>(owner, run) \<in> set owners1. run_ok keys key_ids1 run (owner_projection p owner)" for run key_ids1 owners1
  proof -
    from Cons.IH [OF rest owners] obtain fresh where f: "run_table' = (run_table @ [run]) @ fresh"
      "list_all2 (\<lambda>name run. run_ok keys key_ids' run (owner_projection p (owner_of p name))) names fresh" by blast
    from intern_runs_prefix [OF rest] run have "run_ok keys key_ids' run (owner_projection p ?owner)"
      using run_ok_grows by blast
    with f show ?thesis by (intro exI [of _ "run # fresh"]) simp
  qed
  show ?case
  proof (cases "map_of owners ?owner")
    case (Some run)
    with Cons.prems(2) have "run_ok keys key_ids run (owner_projection p ?owner)" by (auto dest: map_of_SomeD)
    from step [OF this] Cons.prems Some show ?thesis by (simp add: owner_of_def)
  next
    case None
    show ?thesis
    proof (cases "map_of (p_components p) ?owner")
      case None': None
      then have "run_ok keys key_ids FULL_STATE (owner_projection p ?owner)" by (simp add: owner_projection_def run_ok_full)
      from step [OF this] Cons.prems None None' show ?thesis by (simp add: owner_of_def)
    next
      case c: (Some c)
      show ?thesis
      proof (cases "cd_hydration_mode c = MODE_KEYS \<or> cd_hydration_mode c = MODE_NONE")
        case False
        then have "run_ok keys key_ids FULL_STATE (owner_projection p ?owner)" using c by (simp add: owner_projection_def run_ok_full)
        from step [OF this] Cons.prems None c False show ?thesis by (simp add: owner_of_def)
      next
        case True
        let ?ids = "concat (map (key_id keys) (cd_hydration_keys c))"
        let ?run = "run_from (length key_ids) (length (key_ids @ ?ids))"
        have rest: "intern_runs p keys names (key_ids @ ?ids) (run_table @ [?run]) ((?owner, ?run) # owners) = (key_ids', run_table')"
          using Cons.prems(1) None c True by (cases "cd_hydration_keys c = []") (auto simp: owner_of_def mode_defs Let_def)
        have "set (cd_hydration_keys c) \<subseteq> set keys" using assms(1) map_of_SomeD [OF c] by (auto simp: keys_cover_def)
        from key_ids_of [OF this] assms(1) have ids: "map (\<lambda>kid. keys ! unat kid) ?ids = cd_hydration_keys c"
          "\<forall>kid \<in> set ?ids. unat kid < length keys" unfolding keys_cover_def by blast+
        from intern_runs_prefix [OF rest] assms(2) have "length key_ids + length ?ids < 2 ^ 32 - 1" by auto
        from run_ok_new [OF this ids] have ok: "run_ok keys (key_ids @ ?ids) ?run (owner_projection p ?owner)" using c True by (auto simp: owner_projection_def)
        have "\<forall>(owner, run) \<in> set ((?owner, ?run) # owners). run_ok keys (key_ids @ ?ids) run (owner_projection p owner)"
          using ok Cons.prems(2) run_ok_grows by fastforce
        from step [OF ok rest this] show ?thesis .
      qed
    qed
  qed
qed simp

lemma keys_cover_distinct: "length (distinct_keys p) \<le> 2 ^ 32 \<Longrightarrow> keys_cover p (distinct_keys p)"
  by (force simp: keys_cover_def distinct_keys_def)

lemma sorted_distinct_keys: "sorted_wrt (<) (distinct_keys p)"
  by (simp add: distinct_keys_def remdups_adj_sort)

text \<open>The sizes that the 32-bit fields of the index assume.\<close>

definition index_fits :: "reachability_index \<Rightarrow> bool" where
  "index_fits ri \<longleftrightarrow> length (ri_names ri) \<le> 2 ^ 32 \<and> length (ri_hydration_keys ri) \<le> 2 ^ 32 \<and> length (ri_hydration_key_ids ri) < 2 ^ 32 - 1"

definition keys_at :: "reachability_index \<Rightarrow> u32 list \<Rightarrow> string list" where
  "keys_at ri ids = map (\<lambda>kid. ri_hydration_keys ri ! unat kid) ids"

lemma index_fields:
  "ri_names (reachability_index_new p index) = sort (map fst index)"
  "ri_hydration_keys (reachability_index_new p index) = distinct_keys p"
  "ri_hydration_key_ids (reachability_index_new p index) = fst (intern_runs p (distinct_keys p) (sort (map fst index)) [] [] [])"
  "ri_hydration_runs (reachability_index_new p index) = snd (intern_runs p (distinct_keys p) (sort (map fst index)) [] [] [])"
  by (simp_all add: reachability_index_new_def Let_def case_prod_beta)

lemma index_runs:
  assumes "index_fits (reachability_index_new p index)" "unat i < length (ri_names (reachability_index_new p index))"
  shows "\<exists>run. get_at (ri_hydration_runs (reachability_index_new p index)) i = Some run \<and>
    run_ok (distinct_keys p) (ri_hydration_key_ids (reachability_index_new p index)) run
      (owner_projection p (owner_of p (ri_names (reachability_index_new p index) ! unat i)))"
proof -
  let ?ri = "reachability_index_new p index"
  obtain key_ids run_table where r: "intern_runs p (distinct_keys p) (ri_names ?ri) [] [] [] = (key_ids, run_table)" by fastforce
  then have ri: "ri_hydration_key_ids ?ri = key_ids" "ri_hydration_runs ?ri = run_table" "ri_hydration_keys ?ri = distinct_keys p"
    by (simp_all add: index_fields)
  have "keys_cover p (distinct_keys p)" "length key_ids < 2 ^ 32 - 1"
    using assms(1) ri by (simp_all add: index_fits_def keys_cover_distinct)
  from intern_runs_ok [OF this r]
  have "list_all2 (\<lambda>name run. run_ok (distinct_keys p) key_ids run (owner_projection p (owner_of p name))) (ri_names ?ri) run_table"
    by auto
  with assms(2) ri show ?thesis by (auto simp: get_at_def list_all2_conv_all_nth)
qed

lemma extend_run:
  assumes "get_at (ri_hydration_runs ri) i = Some run" "run_ok (ri_hydration_keys ri) (ri_hydration_key_ids ri) run projected"
  shows "case projected of
      None \<Rightarrow> fst (extend_hydration_keys ri i ids)
    | Some ks \<Rightarrow> \<exists>fresh. extend_hydration_keys ri i ids = (False, ids @ fresh) \<and> keys_at ri fresh = ks \<and>
        (\<forall>kid \<in> set fresh. unat kid < length (ri_hydration_keys ri))"
proof (cases projected)
  case None
  with assms show ?thesis by (simp add: extend_hydration_keys_def run_ok_def)
next
  case (Some ks)
  with assms Some show ?thesis
    by (auto simp: extend_hydration_keys_def run_ok_def Let_def keys_at_def)
qed

lemma extend_all_exact:
  assumes "index_fits (reachability_index_new p index)"
    and "\<forall>i \<in> set comps. unat i < length (ri_names (reachability_index_new p index))"
  shows "case extend_all (reachability_index_new p index) comps ids of
      None \<Rightarrow> \<exists>i \<in> set comps. owner_projection p (owner_of p (ri_names (reachability_index_new p index) ! unat i)) = None
    | Some ids' \<Rightarrow> \<exists>fresh. ids' = ids @ fresh \<and> (\<forall>kid \<in> set fresh. unat kid < length (distinct_keys p)) \<and>
        (\<forall>i \<in> set comps. owner_projection p (owner_of p (ri_names (reachability_index_new p index) ! unat i)) \<noteq> None) \<and>
        keys_at (reachability_index_new p index) fresh =
          concat (map (\<lambda>i. the (owner_projection p (owner_of p (ri_names (reachability_index_new p index) ! unat i)))) comps)"
  using assms(2)
proof (induction comps arbitrary: ids)
  case (Cons i comps)
  let ?ri = "reachability_index_new p index"
  let ?proj = "owner_projection p (owner_of p (ri_names ?ri ! unat i))"
  have keys: "ri_hydration_keys ?ri = distinct_keys p" by (simp add: index_fields)
  have "unat i < length (ri_names ?ri)" using Cons.prems by simp
  from index_runs [OF assms(1) this] keys obtain run where "get_at (ri_hydration_runs ?ri) i = Some run"
    "run_ok (ri_hydration_keys ?ri) (ri_hydration_key_ids ?ri) run ?proj" by auto
  note e = extend_run [OF this, of ids]
  show ?case
  proof (cases ?proj)
    case None
    with e show ?thesis by (cases "extend_hydration_keys ?ri i ids") auto
  next
    case (Some ks)
    with e obtain fresh where f: "extend_hydration_keys ?ri i ids = (False, ids @ fresh)" "keys_at ?ri fresh = ks"
      "\<forall>kid \<in> set fresh. unat kid < length (distinct_keys p)" by (auto simp: keys)
    have "\<forall>j \<in> set comps. unat j < length (ri_names ?ri)" using Cons.prems by simp
    note IH = Cons.IH [OF this, of "ids @ fresh"]
    show ?thesis
    proof (cases "extend_all ?ri comps (ids @ fresh)")
      case None
      with IH f show ?thesis by auto
    next
      case (Some ids')
      with IH obtain fresh' where g: "ids' = (ids @ fresh) @ fresh'" "\<forall>kid \<in> set fresh'. unat kid < length (distinct_keys p)"
        "\<forall>j \<in> set comps. owner_projection p (owner_of p (ri_names ?ri ! unat j)) \<noteq> None"
        "keys_at ?ri fresh' = concat (map (\<lambda>j. the (owner_projection p (owner_of p (ri_names ?ri ! unat j)))) comps)" by auto
      have "keys_at ?ri (fresh @ fresh') = ks @ concat (map (\<lambda>j. the (owner_projection p (owner_of p (ri_names ?ri ! unat j)))) comps)"
        using f(2) g(4) by (simp add: keys_at_def)
      with f g Some \<open>?proj = Some ks\<close> show ?thesis by (auto intro!: exI [of _ "fresh @ fresh'"])
    qed
  qed
qed (simp add: keys_at_def)

text \<open>Interned ids are numbered in the order of their keys, so sorting the ids sorts the keys.\<close>

lemma keys_at_sorted:
  assumes "sorted_wrt (<) keys" "\<forall>kid \<in> set ids. unat kid < length keys"
  shows "map (\<lambda>kid. keys ! unat kid) (remdups_adj (sort (ids :: u32 list))) = remdups_adj (sort (map (\<lambda>kid. keys ! unat kid) ids))"
proof -
  let ?s = "remdups_adj (sort ids)" and ?f = "\<lambda>kid :: u32. keys ! unat kid"
  have s: "sorted_wrt (<) ?s" "set ?s = set ids" by (simp_all add: remdups_adj_sort)
  have "sorted_wrt (\<lambda>a b. ?f a < ?f b) ?s"
    by (rule sorted_wrt_mono_rel [OF _ s(1)]) (use assms s(2) in \<open>auto simp: sorted_wrt_nth_less word_less_nat_alt\<close>)
  then have "sorted_wrt (<) (map ?f ?s)" by (simp add: sorted_wrt_map)
  then have "map ?f ?s = sorted_list_of_set (set (map ?f ?s))" by (metis sorted_list_of_set.idem_if_sorted_distinct strict_sorted_iff)
  also have "\<dots> = remdups_adj (sort (map ?f ids))" by (simp add: remdups_adj_sort s(2))
  finally show ?thesis .
qed

definition sample_keys :: web_ui_protocol where
  "sample_keys = (protocol_new
     [(''page'', \<lparr>fragments = [frag_component ''x-list''], contains_boundary = False\<rparr>),
      (''x-list'', \<lparr>fragments = [frag_component ''x-row''], contains_boundary = False\<rparr>),
      (''x-row'', \<lparr>fragments = [frag_raw ''row''], contains_boundary = False\<rparr>)])
     \<lparr>p_initial_state_strategy := STRATEGY_COMPONENTS,
      p_components := [(''x-list'', sample_component ''l''\<lparr>cd_hydration_mode := MODE_KEYS, cd_hydration_keys := [''title'', ''items'']\<rparr>),
        (''x-row'', sample_component ''r''\<lparr>cd_hydration_mode := MODE_KEYS, cd_hydration_keys := [''items'']\<rparr>)]\<rparr>"

section \<open>Properties\<close>

text \<open>
  C24. Interned projections agree with the names.  For every protocol whose index fits its 32-bit fields
  and all components of the index, the ids that a streamed record collects name, in the same order, the
  keys that are collected by name, and one asks for the full state exactly when the other does.
\<close>

theorem interned_projection_agrees:
  assumes "ri = reachability_index_new p (build_component_index p)" "index_fits ri"
    and "\<forall>i \<in> set components. unat i < length (ri_names ri)"
  shows "(case collect_hydration_key_ids_into p ri components of
            (full, ids) \<Rightarrow> if full then SelFull else SelKeys (map (\<lambda>kid. the (hydration_key ri kid)) ids)) =
         collect_hydration_state p (map (\<lambda>i. the (ri_name ri i)) components)"
proof (cases "p_initial_state_strategy p = STRATEGY_COMPONENTS")
  case False
  then show ?thesis by (simp add: collect_hydration_key_ids_into_def collect_hydration_state_def)
next
  case True
  have names: "map (\<lambda>i. the (ri_name ri i)) components = map (\<lambda>i. ri_names ri ! unat i) components"
    using assms(3) by (auto simp: ri_name_def get_at_def)
  have keys: "ri_hydration_keys ri = distinct_keys p" by (simp add: assms(1) index_fields)
  note e = extend_all_exact [OF assms(2,3) [unfolded assms(1)], of "[]", folded assms(1)]
  show ?thesis
  proof (cases "extend_all ri components []")
    case None
    with e True show ?thesis
      unfolding collect_hydration_key_ids_into_def collect_hydration_state_def collect_component_state_def names
        collect_surfaces_projection by auto
  next
    case (Some ids)
    with e have i: "\<forall>kid \<in> set ids. unat kid < length (distinct_keys p)"
      "\<forall>i \<in> set components. owner_projection p (owner_of p (ri_names ri ! unat i)) \<noteq> None"
      "keys_at ri ids = concat (map (\<lambda>i. the (owner_projection p (owner_of p (ri_names ri ! unat i)))) components)" by auto
    have "map (\<lambda>kid. the (hydration_key ri kid)) (remdups_adj (sort ids)) = map (\<lambda>kid. distinct_keys p ! unat kid) (remdups_adj (sort ids))"
      using i(1) by (auto simp: hydration_key_def get_at_def keys)
    also have "\<dots> = remdups_adj (sort (keys_at ri ids))"
      using keys_at_sorted [OF sorted_distinct_keys i(1)] by (simp add: keys_at_def keys)
    finally have k: "map (\<lambda>kid. the (hydration_key ri kid)) (remdups_adj (sort ids)) = remdups_adj (sort (keys_at ri ids))" .
    have "collect_surfaces p Hydration (map (\<lambda>i. ri_names ri ! unat i) components) [] = Some (keys_at ri ids)"
      unfolding collect_surfaces_projection i(3) using i(2) by (auto simp: comp_def)
    with Some True k show ?thesis
      unfolding collect_hydration_key_ids_into_def collect_hydration_state_def collect_component_state_def names by simp
  qed
qed

theorem interned_projection_agrees_witness:
  "collect_hydration_state sample_keys [''x-list'', ''x-row''] = SelKeys [''items'', ''title'']"
proof -
  let ?ri = "reachability_index_new sample_keys (build_component_index sample_keys)"
  have "length (ri_names ?ri) = 2" "length (ri_hydration_keys ?ri) = 2" "length (ri_hydration_key_ids ?ri) = 3" by code_simp+
  then have "index_fits ?ri" "\<forall>i \<in> set [0, 1]. unat i < length (ri_names ?ri)" by (simp_all add: index_fits_def)
  from interned_projection_agrees [OF refl this]
  have "(case collect_hydration_key_ids_into sample_keys ?ri [0, 1] of
      (full, ids) \<Rightarrow> if full then SelFull else SelKeys (map (\<lambda>kid. the (hydration_key ?ri kid)) ids)) =
    collect_hydration_state sample_keys (map (\<lambda>i. the (ri_name ?ri i)) [0, 1])" .
  moreover have "map (\<lambda>i. the (ri_name ?ri i)) [0, 1] = [''x-list'', ''x-row'']" by code_simp
  moreover have "(case collect_hydration_key_ids_into sample_keys ?ri [0, 1] of
      (full, ids) \<Rightarrow> if full then SelFull else SelKeys (map (\<lambda>kid. the (hydration_key ?ri kid)) ids)) = SelKeys [''items'', ''title'']"
    by code_simp
  ultimately show ?thesis by simp
qed

end
