(* ===== verification/Stream_State.thy ===== *)
theory Stream_State
  imports Stream_Keys
begin

text \<open>
  The state a streamed response keeps between two steps (\<open>crates/webui-handler/src/streaming/state.rs\<close>):
  the snapshot of the keys that a continuation reads, and the overlay of the state that a host passes
  with a later step.  Each exists twice, for a borrowed and for an owned state.
\<close>

section \<open>Maps\<close>

text \<open>
  \<open>serde_json::Map\<close> is ordered by its keys: \<open>insert\<close> of an absent key puts it in its place.
\<close>

fun map_insert :: "string \<Rightarrow> json \<Rightarrow> (string \<times> json) list \<Rightarrow> (string \<times> json) list" where
  "map_insert key value [] = [(key, value)]"
| "map_insert key value ((k, v) # m) =
     (if key = k then (key, value) # m else if key < k then (key, value) # (k, v) # m else (k, v) # map_insert key value m)"

definition map_remove :: "string \<Rightarrow> (string \<times> json) list \<Rightarrow> (string \<times> json) list" where
  "map_remove key m = filter (\<lambda>(k, _). k \<noteq> key) m"

fun is_object :: "json \<Rightarrow> bool" where
  "is_object (JObject _) = True"
| "is_object _ = False"

section \<open>Snapshots\<close>

definition selected_state_snapshot :: "json \<Rightarrow> string list \<Rightarrow> json" where
  "selected_state_snapshot state keys = (case state of
     JObject source \<Rightarrow> JObject (fold (\<lambda>key selected. case map_of source key of
         Some value \<Rightarrow> map_insert key value selected | None \<Rightarrow> selected) keys [])
   | _ \<Rightarrow> JObject [])"

definition selected_state_snapshot_owned :: "json \<Rightarrow> string list \<Rightarrow> json" where
  "selected_state_snapshot_owned state keys = (case state of
     JObject source \<Rightarrow> JObject (snd (fold (\<lambda>key (source, selected). case map_of source key of
         Some value \<Rightarrow> (map_remove key source, map_insert key value selected) | None \<Rightarrow> (source, selected)) keys (source, [])))
   | _ \<Rightarrow> JObject [])"

section \<open>Overlays\<close>

text \<open>One key: a slot that holds an equal value is left alone.\<close>

definition overlay_key :: "string \<Rightarrow> json \<Rightarrow> (string \<times> json) list \<times> bool \<Rightarrow> (string \<times> json) list \<times> bool" where
  "overlay_key key value acc = (case acc of (target, changed) \<Rightarrow>
     (case map_of target key of
        Some slot \<Rightarrow> if \<not> json_eq slot value then (map_insert key value target, True) else (target, changed)
      | None \<Rightarrow> (map_insert key value target, True)))"

definition target_members :: "json \<Rightarrow> (string \<times> json) list" where
  "target_members frozen = (case frozen of JObject m \<Rightarrow> m | _ \<Rightarrow> [])"

definition overlay_selected_state :: "json \<Rightarrow> json \<Rightarrow> string list \<Rightarrow> json \<times> bool" where
  "overlay_selected_state frozen state keys =
     (let target = target_members frozen; changed = (\<not> is_object frozen) in
      case state of
        JObject source \<Rightarrow> (case fold (\<lambda>key acc. case map_of source key of
            Some value \<Rightarrow> overlay_key key value acc | None \<Rightarrow> acc) keys (target, changed) of
          (target', changed') \<Rightarrow> (JObject target', changed'))
      | _ \<Rightarrow> (JObject target, changed))"

definition overlay_full_state :: "json \<Rightarrow> json \<Rightarrow> json \<times> bool" where
  "overlay_full_state frozen state = (case state of
     JObject source \<Rightarrow> (case fold (\<lambda>(key, value). overlay_key key value) source (target_members frozen, \<not> is_object frozen) of
       (target', changed') \<Rightarrow> (JObject target', changed'))
   | _ \<Rightarrow> (frozen, False))"

text \<open>The owned variants count a snapshot that was no object as unchanged.\<close>

definition overlay_selected_state_owned :: "json \<Rightarrow> json \<Rightarrow> string list \<Rightarrow> json \<times> bool" where
  "overlay_selected_state_owned frozen state keys = (case state of
     JObject source \<Rightarrow> (case fold (\<lambda>key (source, acc). case map_of source key of
         Some value \<Rightarrow> (map_remove key source, overlay_key key value acc) | None \<Rightarrow> (source, acc))
         keys (source, target_members frozen, False) of
       (_, target', changed') \<Rightarrow> (JObject target', changed'))
   | _ \<Rightarrow> (frozen, False))"

definition overlay_full_state_owned :: "json \<Rightarrow> json \<Rightarrow> json \<times> bool" where
  "overlay_full_state_owned frozen state = (case state of
     JObject source \<Rightarrow> (case fold (\<lambda>(key, value). overlay_key key value) source (target_members frozen, False) of
       (target', changed') \<Rightarrow> (JObject target', changed'))
   | _ \<Rightarrow> (frozen, False))"

section \<open>Facts\<close>

lemma map_of_map_insert [simp]: "map_of (map_insert key value m) = (map_of m)(key \<mapsto> value)"
  by (induction m) auto

lemma map_of_map_remove [simp]: "map_of (map_remove key m) = (map_of m)(key := None)"
  by (induction m) (auto simp: map_remove_def)

lemma target_members_object [simp]: "target_members (JObject m) = m"
  by (simp add: target_members_def)

lemma is_object_iff: "is_object v \<longleftrightarrow> (\<exists>m. v = JObject m)"
  by (cases v) auto

text \<open>The value a key has after an overlay.\<close>

definition patched :: "(string \<rightharpoonup> json) \<Rightarrow> (string \<rightharpoonup> json) \<Rightarrow> string \<Rightarrow> json option" where
  "patched old source key = (case (source key, old key) of
     (None, slot) \<Rightarrow> slot
   | (Some value, None) \<Rightarrow> Some value
   | (Some value, Some slot) \<Rightarrow> if json_eq slot value then Some slot else Some value)"

lemma overlay_key_spec:
  "overlay_key key value (target, changed) = (target', changed') \<Longrightarrow>
     map_of target' = (map_of target)(key := patched (map_of target) [key \<mapsto> value] key) \<and>
     (changed' \<longleftrightarrow> changed \<or> (\<forall>slot. map_of target key = Some slot \<longrightarrow> \<not> json_eq slot value)) \<and>
     (changed' = changed \<and> target' = target \<or> changed')"
  by (auto simp: overlay_key_def patched_def fun_upd_idem split: option.splits if_splits)

text \<open>The key loop; keys are met once.\<close>

definition overlay_keys :: "(string \<rightharpoonup> json) \<Rightarrow> string list \<Rightarrow> (string \<times> json) list \<times> bool \<Rightarrow> (string \<times> json) list \<times> bool" where
  "overlay_keys source keys acc = fold (\<lambda>key acc. case source key of Some value \<Rightarrow> overlay_key key value acc | None \<Rightarrow> acc) keys acc"

definition differs :: "(string \<rightharpoonup> json) \<Rightarrow> (string \<rightharpoonup> json) \<Rightarrow> string \<Rightarrow> bool" where
  "differs old source key \<longleftrightarrow> (\<exists>value. source key = Some value \<and> (\<forall>slot. old key = Some slot \<longrightarrow> \<not> json_eq slot value))"

lemma overlay_keys_spec:
  "distinct keys \<Longrightarrow> overlay_keys source keys (target, changed) = (target', changed') \<Longrightarrow>
     (\<forall>k. map_of target' k = (if k \<in> set keys then patched (map_of target) source k else map_of target k)) \<and>
     (changed' \<longleftrightarrow> changed \<or> (\<exists>k \<in> set keys. differs (map_of target) source k)) \<and>
     (changed' \<or> target' = target)"
proof (induction keys arbitrary: target changed)
  case (Cons key keys)
  show ?case
  proof (cases "source key")
    case None
    with Cons.prems have "overlay_keys source keys (target, changed) = (target', changed')" by (simp add: overlay_keys_def)
    from Cons.IH [OF _ this] Cons.prems(1) None show ?thesis by (auto simp: patched_def differs_def)
  next
    case (Some v)
    obtain t1 c1 where 1: "overlay_key key v (target, changed) = (t1, c1)" by fastforce
    with Cons.prems Some have "overlay_keys source keys (t1, c1) = (target', changed')" by (simp add: overlay_keys_def)
    from Cons.IH [OF _ this] Cons.prems(1)
    have IH: "\<forall>k. map_of target' k = (if k \<in> set keys then patched (map_of t1) source k else map_of t1 k)"
      "changed' \<longleftrightarrow> c1 \<or> (\<exists>k \<in> set keys. differs (map_of t1) source k)" "changed' \<or> target' = t1" by auto
    note s = overlay_key_spec [OF 1]
    have same: "k \<noteq> key \<Longrightarrow> map_of t1 k = map_of target k" for k using s by simp
    have key: "key \<notin> set keys" using Cons.prems(1) by simp
    have "patched (map_of t1) source k = patched (map_of target) source k" "differs (map_of t1) source k = differs (map_of target) source k"
      if "k \<in> set keys" for k
    proof -
      have "k \<noteq> key" using that key by blast
      then show "patched (map_of t1) source k = patched (map_of target) source k" "differs (map_of t1) source k = differs (map_of target) source k"
        using same [of k] by (simp_all add: patched_def differs_def)
    qed
    moreover have "map_of t1 key = patched (map_of target) source key" using s Some by (simp add: patched_def)
    moreover have "c1 \<longleftrightarrow> changed \<or> differs (map_of target) source key" using s Some by (auto simp: differs_def)
    ultimately show ?thesis using IH s key same by auto
  qed
qed (simp add: overlay_keys_def)

lemma overlay_members_keys:
  "distinct (map fst source) \<Longrightarrow>
   fold (\<lambda>(key, value). overlay_key key value) source acc = overlay_keys (map_of source) (map fst source) acc"
proof -
  assume d: "distinct (map fst source)"
  have "set part \<subseteq> set source \<Longrightarrow> fold (\<lambda>(key, value). overlay_key key value) part acc = overlay_keys (map_of source) (map fst part) acc" for part acc
  proof (induction part arbitrary: acc)
    case (Cons kv part)
    obtain k v where kv: "kv = (k, v)" by fastforce
    with Cons.prems d have "map_of source k = Some v" by (simp add: map_of_eq_Some_iff)
    with Cons kv show ?case by (simp add: overlay_keys_def)
  qed (simp add: overlay_keys_def)
  then show ?thesis by blast
qed

lemma overlay_owned_keys:
  "distinct keys \<Longrightarrow> (\<And>k. k \<in> set keys \<Longrightarrow> map_of source k = f k) \<Longrightarrow>
   snd (fold (\<lambda>key (source, acc). case map_of source key of
         Some value \<Rightarrow> (map_remove key source, overlay_key key value acc) | None \<Rightarrow> (source, acc)) keys (source, acc)) =
   overlay_keys f keys acc"
proof (induction keys arbitrary: source acc)
  case (Cons key keys)
  have f: "map_of source key = f key" using Cons.prems(2) by simp
  show ?case
  proof (cases "f key")
    case None
    with Cons.IH [of source acc] Cons.prems f show ?thesis by (simp add: overlay_keys_def)
  next
    case (Some v)
    have "map_of (map_remove key source) k = f k" if "k \<in> set keys" for k using that Cons.prems by auto
    with Cons.IH [of "map_remove key source" "overlay_key key v acc"] Cons.prems(1) f Some show ?thesis by (simp add: overlay_keys_def)
  qed
qed (simp add: overlay_keys_def)

lemma overlay_selected_keys:
  "overlay_selected_state frozen (JObject source) keys =
     (case overlay_keys (map_of source) keys (target_members frozen, \<not> is_object frozen) of (target', changed') \<Rightarrow> (JObject target', changed'))"
  by (simp add: overlay_selected_state_def overlay_keys_def Let_def)

lemma overlay_selected_owned_keys:
  "distinct keys \<Longrightarrow> overlay_selected_state_owned frozen (JObject source) keys =
     (case overlay_keys (map_of source) keys (target_members frozen, False) of (target', changed') \<Rightarrow> (JObject target', changed'))"
  using overlay_owned_keys [of keys source "map_of source" "(target_members frozen, False)"]
  by (simp add: overlay_selected_state_owned_def case_prod_beta)

lemma overlay_full_keys:
  "distinct (map fst source) \<Longrightarrow> overlay_full_state frozen (JObject source) =
     (case overlay_keys (map_of source) (map fst source) (target_members frozen, \<not> is_object frozen) of (target', changed') \<Rightarrow> (JObject target', changed'))"
  by (simp add: overlay_full_state_def overlay_members_keys)

lemma overlay_full_owned_keys:
  "distinct (map fst source) \<Longrightarrow> overlay_full_state_owned frozen (JObject source) =
     (case overlay_keys (map_of source) (map fst source) (target_members frozen, False) of (target', changed') \<Rightarrow> (JObject target', changed'))"
  by (simp add: overlay_full_state_owned_def overlay_members_keys)

lemmas overlay_as_keys = overlay_selected_keys overlay_selected_owned_keys overlay_full_keys overlay_full_owned_keys

text \<open>What an overlay of an object is for a given set of keys.\<close>

definition patches :: "string set \<Rightarrow> (string \<times> json) list \<Rightarrow> (string \<times> json) list \<Rightarrow> json \<times> bool \<Rightarrow> bool" where
  "patches ks m source res \<longleftrightarrow> (\<exists>m' changed. res = (JObject m', changed) \<and>
     (\<forall>k. map_of m' k = (if k \<in> ks then patched (map_of m) (map_of source) k else map_of m k)) \<and>
     (changed \<longleftrightarrow> (\<exists>k \<in> ks. differs (map_of m) (map_of source) k)) \<and> (changed \<or> m' = m))"

lemma overlay_keys_patches:
  assumes "distinct keys"
  shows "patches (set keys) m source (case overlay_keys (map_of source) keys (m, False) of (target', changed') \<Rightarrow> (JObject target', changed'))"
proof -
  obtain m' c where r: "overlay_keys (map_of source) keys (m, False) = (m', c)" by fastforce
  from overlay_keys_spec [OF assms r] show ?thesis unfolding patches_def r by auto
qed

lemma snapshot_fold:
  "map_of (fold (\<lambda>key selected. case map_of source key of Some v \<Rightarrow> map_insert key v selected | None \<Rightarrow> selected) keys m) k =
     (if k \<in> set keys \<and> map_of source k \<noteq> None then map_of source k else map_of m k)"
  by (induction keys arbitrary: m) (auto split: option.split)

lemma snapshot_owned_fold:
  "distinct keys \<Longrightarrow> (\<And>k. k \<in> set keys \<Longrightarrow> map_of source k = f k) \<Longrightarrow>
   snd (fold (\<lambda>key (source, selected). case map_of source key of
         Some v \<Rightarrow> (map_remove key source, map_insert key v selected) | None \<Rightarrow> (source, selected)) keys (source, m)) =
   fold (\<lambda>key selected. case f key of Some v \<Rightarrow> map_insert key v selected | None \<Rightarrow> selected) keys m"
proof (induction keys arbitrary: source m)
  case (Cons key keys)
  have f: "map_of source key = f key" using Cons.prems(2) by simp
  show ?case
  proof (cases "f key")
    case None
    with Cons.IH [of source m] Cons.prems f show ?thesis by simp
  next
    case (Some v)
    have "map_of (map_remove key source) k = f k" if "k \<in> set keys" for k using that Cons.prems by auto
    with Cons.IH [of "map_remove key source" "map_insert key v m"] Cons.prems(1) f Some show ?thesis by simp
  qed
qed simp

theorem snapshots_agree:
  assumes "distinct keys"
  shows "selected_state_snapshot_owned state keys = selected_state_snapshot state keys"
    "map_of (target_members (selected_state_snapshot (JObject source) keys)) k = (if k \<in> set keys then map_of source k else None)"
proof -
  show "selected_state_snapshot_owned state keys = selected_state_snapshot state keys"
  proof (cases state)
    case (JObject source)
    with snapshot_owned_fold [of keys source "map_of source" "[]"] assms show ?thesis
      by (simp add: selected_state_snapshot_def selected_state_snapshot_owned_def)
  qed (simp_all add: selected_state_snapshot_def selected_state_snapshot_owned_def)
  show "map_of (target_members (selected_state_snapshot (JObject source) keys)) k = (if k \<in> set keys then map_of source k else None)"
    by (simp add: selected_state_snapshot_def snapshot_fold)
qed

lemma overlays_owned:
  "overlay_full_state_owned (JObject m) state = overlay_full_state (JObject m) state"
  "distinct keys \<Longrightarrow> overlay_selected_state_owned (JObject m) state keys = overlay_selected_state (JObject m) state keys"
  by (cases state; simp add: overlay_full_state_owned_def overlay_full_state_def overlay_selected_state_owned_def
      overlay_selected_state_def overlay_owned_keys overlay_keys_def case_prod_beta)+

section \<open>Properties\<close>

text \<open>
  C26. A state update patches the snapshot.  On a snapshot that is an object and a state whose
  keys are distinct, the borrowed and the owned overlay are the same function; every selected key that the state has takes its
  value unless the snapshot holds an equal one, every other key keeps its value, the overlay says
  it changed exactly when some key did, and an overlay that did not change left the snapshot as it was.
\<close>

theorem overlays_patch:
  assumes "distinct keys" "distinct (map fst source)"
  shows "patches (set keys) m source (overlay_selected_state (JObject m) (JObject source) keys) \<and>
    patches (fst ` set source) m source (overlay_full_state (JObject m) (JObject source)) \<and>
    overlay_selected_state_owned (JObject m) state keys = overlay_selected_state (JObject m) state keys \<and>
    overlay_full_state_owned (JObject m) state = overlay_full_state (JObject m) state"
  using overlay_keys_patches [OF assms(1)] overlay_keys_patches [OF assms(2), of m source]
  by (simp add: overlay_selected_keys overlay_full_keys assms overlays_owned)

theorem overlays_patch_witness:
  "patches {''a'', ''b''} [(''a'', JNull), (''c'', JNull)] [(''b'', JBool True), (''c'', JBool True)]
     (JObject [(''a'', JNull), (''b'', JBool True), (''c'', JNull)], True)"
proof -
  have "overlay_selected_state (JObject [(''a'', JNull), (''c'', JNull)]) (JObject [(''b'', JBool True), (''c'', JBool True)]) [''a'', ''b''] =
      (JObject [(''a'', JNull), (''b'', JBool True), (''c'', JNull)], True)" by code_simp
  with overlays_patch [of "[''a'', ''b'']" "[(''b'', JBool True), (''c'', JBool True)]" "[(''a'', JNull), (''c'', JNull)]"]
  show ?thesis by simp
qed

end
