(* ===== verification/Stream_Bootstrap.thy ===== *)
theory Stream_Bootstrap
  imports Stream_State
begin

text \<open>
  The state in a streamed record: what \<open>write_selected_state\<close> serializes
  (\<open>crates/webui-handler/src/lib.rs\<close>), the decision whether a record carries its projection or only what it adds
  to the one before (\<open>streaming/checkpoint.rs\<close>), and the browser's side of it, \<open>resolveRangeState\<close>
  (\<open>packages/webui-framework/src/streaming-record-state.ts\<close>).
\<close>

section \<open>What a selection serializes\<close>

text \<open>\<open>KeyView\<close>: ids are read up to the first unknown one; \<open>contains\<close> is a binary search of a sorted view.\<close>

definition id_keys :: "reachability_index \<Rightarrow> u32 list \<Rightarrow> string list" where
  "id_keys ri ids = map the (takeWhile (\<lambda>k. k \<noteq> None) (map (hydration_key ri) ids))"

definition view_contains :: "reachability_index \<Rightarrow> u32 list \<Rightarrow> string \<Rightarrow> bool" where
  "view_contains ri ids key \<longleftrightarrow> list_ex (\<lambda>kid. hydration_key ri kid = Some key) ids"

fun project_keys :: "string option \<Rightarrow> string list \<Rightarrow> (string \<times> json) list \<Rightarrow> (string \<times> json) list" where
  "project_keys previous [] m = []"
| "project_keys previous (key # keys) m =
     (if key = STATE_INJECT_KEY then project_keys previous keys m
      else if previous = Some key then project_keys previous keys m
      else (case map_of m key of Some v \<Rightarrow> [(key, v)] | None \<Rightarrow> []) @ project_keys (Some key) keys m)"

definition projected_state :: "json \<Rightarrow> nat \<Rightarrow> string list \<Rightarrow> (string \<Rightarrow> bool) \<Rightarrow> json" where
  "projected_state state len keys member = (case state of
     JObject m \<Rightarrow> JObject (if len < length m then project_keys None keys m
       else filter (\<lambda>(k, _). k \<noteq> STATE_INJECT_KEY \<and> member k) m)
   | _ \<Rightarrow> JObject [])"

definition without_reserved_key :: "json \<Rightarrow> json" where
  "without_reserved_key state = (case state of
     JObject m \<Rightarrow> JObject (filter (\<lambda>(k, _). k \<noteq> STATE_INJECT_KEY) m) | _ \<Rightarrow> state)"

definition full_state :: "json \<Rightarrow> json" where
  "full_state state = (case state of
     JObject m \<Rightarrow> if map_of m STATE_INJECT_KEY \<noteq> None then without_reserved_key state else state | _ \<Rightarrow> state)"

definition without_selected_keys :: "json \<Rightarrow> (string \<Rightarrow> bool) \<Rightarrow> json" where
  "without_selected_keys state member = (case state of
     JObject m \<Rightarrow> JObject (filter (\<lambda>(k, _). k \<noteq> STATE_INJECT_KEY \<and> \<not> member k) m) | _ \<Rightarrow> JObject [])"

definition select_keys :: "json \<Rightarrow> nat \<Rightarrow> string list \<Rightarrow> (string \<Rightarrow> bool) \<Rightarrow> json" where
  "select_keys state len keys member =
     (if len = 0 then JObject []
      else if (case state of JObject m \<Rightarrow> len = length m \<and> keys = map fst m | _ \<Rightarrow> False) then full_state state
      else projected_state state len keys member)"

text \<open>The value \<open>write_selected_state\<close> prints.\<close>

fun selected_state :: "reachability_index \<Rightarrow> json \<Rightarrow> state_selection \<Rightarrow> json" where
  "selected_state ri state SelFull = full_state state"
| "selected_state ri state (SelKeys keys) = select_keys state (length keys) keys (\<lambda>k. k \<in> set keys)"
| "selected_state ri state (SelKeyIds ids) = select_keys state (length ids) (id_keys ri ids) (view_contains ri ids)"
| "selected_state ri state (SelFullExceptKeyIds ids) = without_selected_keys state (view_contains ri ids)"

section \<open>Complete or by reference\<close>

fun state_key_delta_loop :: "u32 list \<Rightarrow> u32 list \<Rightarrow> u32 list \<Rightarrow> bool \<times> u32 list" where
  "state_key_delta_loop base [] delta = (if base = [] then (True, delta) else (False, []))"
| "state_key_delta_loop [] current delta = (True, delta @ current)"
| "state_key_delta_loop (b # base) (c # current) delta =
     (if c < b then state_key_delta_loop (b # base) current (delta @ [c])
      else if c = b then state_key_delta_loop base current delta
      else (False, []))"

definition collect_state_key_delta :: "u32 list \<Rightarrow> u32 list \<Rightarrow> bool \<times> u32 list" where
  "collect_state_key_delta base current = state_key_delta_loop base current []"

datatype bootstrap_state =
    Complete state_selection
  | Reference u64 "state_selection option"

record state_base =
  sb_sequence :: "u64 option"
  sb_revision :: u64
  sb_full :: bool
  sb_key_ids :: "u32 list"

definition can_reference :: "state_base \<Rightarrow> u64 \<Rightarrow> json \<Rightarrow> bool" where
  "can_reference base revision state \<longleftrightarrow> (case state of JObject m \<Rightarrow> m \<noteq> [] | _ \<Rightarrow> False) \<and>
     sb_sequence base \<noteq> None \<and> sb_revision base = revision \<and> (sb_full base \<or> sb_key_ids base \<noteq> [])"

definition bootstrap_state_for :: "state_base \<Rightarrow> u64 \<Rightarrow> json \<Rightarrow> bool \<Rightarrow> u32 list \<Rightarrow> bootstrap_state" where
  "bootstrap_state_for base revision state requires_full key_ids =
     (let complete = Complete (if requires_full then SelFull else SelKeyIds key_ids) in
      case sb_sequence base of
        None \<Rightarrow> complete
      | Some sequence \<Rightarrow>
          if \<not> can_reference base revision state then complete
          else if requires_full then Reference sequence (if sb_full base then None else Some (SelFullExceptKeyIds (sb_key_ids base)))
          else if sb_full base then complete
          else (case collect_state_key_delta (sb_key_ids base) key_ids of
            (False, _) \<Rightarrow> complete
          | (True, delta) \<Rightarrow> Reference sequence (if delta = [] then None else Some (SelKeyIds delta))))"

section \<open>The browser\<close>

text \<open>
  A JavaScript object is a finite map; \<open>lastRangeSequence\<close> and \<open>lastRangeState\<close> are the state of the module.
\<close>

record range_payload =
  rp_state :: "json option"
  rp_state_ref :: "nat option"
  rp_state_delta :: "json option"

record range_client =
  rc_sequence :: "nat option"
  rc_state :: "(string \<rightharpoonup> json) option"

definition client_start :: range_client where
  "client_start = \<lparr>rc_sequence = None, rc_state = None\<rparr>"

fun js_object :: "json \<Rightarrow> string \<rightharpoonup> json" where
  "js_object (JObject m) = map_of m"
| "js_object _ = Map.empty"

definition MAX_SAFE_INTEGER :: nat where
  "MAX_SAFE_INTEGER = 9007199254740991"

definition merge_state_delta :: "(string \<rightharpoonup> json) option \<Rightarrow> json option \<Rightarrow> (string, (string \<rightharpoonup> json) option) result" where
  "merge_state_delta base delta = (case delta of
     None \<Rightarrow> Inr base
   | Some d \<Rightarrow>
       if target_members d = [] then Inr base
       else (case base of
         None \<Rightarrow> Inl ''streaming state delta references missing base state''
       | Some b \<Rightarrow> Inr (Some (b ++ js_object d))))"

definition resolve_range_state ::
  "range_payload \<Rightarrow> nat \<Rightarrow> range_client \<Rightarrow> (string, (string \<rightharpoonup> json) option \<times> range_client) result" where
  "resolve_range_state payload sequence client = (case rp_state_ref payload of
     None \<Rightarrow>
       if rp_state_delta payload \<noteq> None then Inl ''streaming state delta is missing its stateRef''
       else if (case rp_state payload of Some s \<Rightarrow> \<not> is_object s | None \<Rightarrow> False) then Inl ''streaming range state must be an object''
       else (let s = map_option js_object (rp_state payload) in Inr (s, \<lparr>rc_sequence = Some sequence, rc_state = s\<rparr>))
   | Some reference \<Rightarrow>
       if reference > MAX_SAFE_INTEGER \<or> reference \<ge> sequence then Inl ''invalid streaming state reference''
       else if rp_state payload \<noteq> None then Inl ''referenced streaming state must not include complete state''
       else if rc_sequence client \<noteq> Some reference then Inl ''streaming state reference does not match prior range record''
       else if (case rp_state_delta payload of Some d \<Rightarrow> \<not> is_object d | None \<Rightarrow> False) then Inl ''streaming state delta must be an object''
       else rbind (merge_state_delta (rc_state client) (rp_state_delta payload)) (\<lambda>s.
         Inr (s, \<lparr>rc_sequence = Some sequence, rc_state = s\<rparr>)))"

text \<open>The fields of a bootstrap that \<open>write_webui_bootstrap\<close> writes for its state.\<close>

fun payload_of :: "reachability_index \<Rightarrow> json \<Rightarrow> bootstrap_state \<Rightarrow> range_payload" where
  "payload_of ri state (Complete selection) = \<lparr>rp_state = Some (selected_state ri state selection), rp_state_ref = None, rp_state_delta = None\<rparr>"
| "payload_of ri state (Reference sequence delta) =
     \<lparr>rp_state = None, rp_state_ref = Some (unat sequence), rp_state_delta = map_option (selected_state ri state) delta\<rparr>"

section \<open>Facts\<close>

text \<open>The keys a selection stands for, and the map it serializes.\<close>

definition ids_known :: "reachability_index \<Rightarrow> u32 list \<Rightarrow> bool" where
  "ids_known ri ids \<longleftrightarrow> (\<forall>kid \<in> set ids. unat kid < length (ri_hydration_keys ri))"

definition key_set :: "reachability_index \<Rightarrow> u32 list \<Rightarrow> string set" where
  "key_set ri ids = (\<lambda>kid. ri_hydration_keys ri ! unat kid) ` set ids"

fun selects :: "reachability_index \<Rightarrow> state_selection \<Rightarrow> string set" where
  "selects ri SelFull = - {STATE_INJECT_KEY}"
| "selects ri (SelKeys keys) = set keys - {STATE_INJECT_KEY}"
| "selects ri (SelKeyIds ids) = key_set ri ids - {STATE_INJECT_KEY}"
| "selects ri (SelFullExceptKeyIds ids) = - key_set ri ids - {STATE_INJECT_KEY}"

fun selection_known :: "reachability_index \<Rightarrow> state_selection \<Rightarrow> bool" where
  "selection_known ri (SelKeyIds ids) = ids_known ri ids"
| "selection_known ri (SelFullExceptKeyIds ids) = ids_known ri ids"
| "selection_known ri _ = True"

lemma id_keys_known: "ids_known ri ids \<Longrightarrow> id_keys ri ids = map (\<lambda>kid. ri_hydration_keys ri ! unat kid) ids"
  unfolding id_keys_def ids_known_def hydration_key_def get_at_def by (subst takeWhile_eq_all_conv [THEN iffD2]) auto

lemma view_contains_known: "ids_known ri ids \<Longrightarrow> view_contains ri ids key \<longleftrightarrow> key \<in> key_set ri ids"
  by (auto simp: view_contains_def ids_known_def key_set_def hydration_key_def get_at_def list_ex_iff)

lemma map_of_filter_keys: "map_of (filter (\<lambda>(k, _). P k) m) k = (if P k then map_of m k else None)"
  by (induction m) auto

lemma project_keys_old: "map_of (project_keys previous keys m) k = Some v \<Longrightarrow> map_of m k = Some v \<and> k \<in> set keys \<and> k \<noteq> STATE_INJECT_KEY"
  by (induction previous keys m rule: project_keys.induct) (auto split: option.splits if_splits)

lemma project_keys_new:
  "k \<in> set keys \<Longrightarrow> k \<noteq> STATE_INJECT_KEY \<Longrightarrow> previous \<noteq> Some k \<Longrightarrow> map_of (project_keys previous keys m) k = map_of m k"
proof (induction previous keys m rule: project_keys.induct)
  case (2 previous key keys m)
  show ?case
  proof (cases "key = k")
    case True
    then show ?thesis using 2 project_keys_old [of "Some k" keys m k]
      by (cases "map_of m k"; cases "map_of (project_keys (Some k) keys m) k") auto
  next
    case False
    with 2 show ?thesis by (auto split: option.split)
  qed
qed simp

lemma project_keys_map: "map_of (project_keys None keys m) k = (if k \<in> set keys - {STATE_INJECT_KEY} then map_of m k else None)"
  using project_keys_old [of None keys m k] project_keys_new [of k keys None m]
  by (cases "map_of (project_keys None keys m) k") auto

lemma full_state_map: "map_of (target_members (full_state (JObject m))) k = (if k \<noteq> STATE_INJECT_KEY then map_of m k else None)"
  by (auto simp: full_state_def without_reserved_key_def map_of_filter_keys)

lemma select_keys_map:
  assumes "\<And>k. member k \<longleftrightarrow> k \<in> set keys" "len = length keys" "distinct (map fst m)"
  shows "map_of (target_members (select_keys (JObject m) len keys member)) k = (if k \<in> set keys - {STATE_INJECT_KEY} then map_of m k else None)"
proof -
  consider "keys = []" | "keys \<noteq> []" "len = length m \<and> keys = map fst m" | "keys \<noteq> []" "\<not> (len = length m \<and> keys = map fst m)" by blast
  then show ?thesis
  proof cases
    case 1
    then show ?thesis by (simp add: select_keys_def assms(2))
  next
    case 2
    then show ?thesis using map_of_eq_None_iff [of m k] by (auto simp: select_keys_def full_state_map)
  next
    case 3
    then show ?thesis by (auto simp: select_keys_def assms(1,2) projected_state_def project_keys_map map_of_filter_keys)
  qed
qed

lemma selected_state_map:
  assumes "selection_known ri sel" "distinct (map fst m)"
  shows "js_object (selected_state ri (JObject m) sel) k = (if k \<in> selects ri sel then map_of m k else None)"
    and "is_object (selected_state ri (JObject m) sel)"
proof -
  have o: "is_object (select_keys (JObject m) len keys member)" for len keys member
    by (auto simp: select_keys_def full_state_def without_reserved_key_def projected_state_def)
  show obj: "is_object (selected_state ri (JObject m) sel)"
    by (cases sel) (auto simp: o full_state_def without_reserved_key_def without_selected_keys_def)
  have js: "is_object v \<Longrightarrow> js_object v = map_of (target_members v)" for v by (auto simp: is_object_iff)
  show "js_object (selected_state ri (JObject m) sel) k = (if k \<in> selects ri sel then map_of m k else None)"
    unfolding js [OF obj]
  proof (cases sel)
    case (SelKeyIds ids)
    have k: "set (id_keys ri ids) = key_set ri ids" "length ids = length (id_keys ri ids)"
      using assms(1) SelKeyIds by (simp_all add: id_keys_known key_set_def)
    show "map_of (target_members (selected_state ri (JObject m) sel)) k = (if k \<in> selects ri sel then map_of m k else None)"
      using select_keys_map [of "view_contains ri ids" "id_keys ri ids" "length ids" m k, OF _ k(2) assms(2)] assms(1) k(1)
      by (simp add: SelKeyIds view_contains_known)
  next
    case (SelKeys keys)
    show "map_of (target_members (selected_state ri (JObject m) sel)) k = (if k \<in> selects ri sel then map_of m k else None)"
      using select_keys_map [of "\<lambda>k. k \<in> set keys" keys "length keys" m k, OF _ _ assms(2)] by (simp add: SelKeys)
  next
    case SelFull
    show "map_of (target_members (selected_state ri (JObject m) sel)) k = (if k \<in> selects ri sel then map_of m k else None)"
      by (simp add: SelFull full_state_map)
  next
    case (SelFullExceptKeyIds ids)
    show "map_of (target_members (selected_state ri (JObject m) sel)) k = (if k \<in> selects ri sel then map_of m k else None)"
      using assms(1) by (simp add: SelFullExceptKeyIds without_selected_keys_def map_of_filter_keys view_contains_known)
  qed
qed

text \<open>The delta of two strictly sorted lists is their difference, when the base is a subset.\<close>

lemma state_key_delta_exact:
  "sorted_wrt (<) base \<Longrightarrow> sorted_wrt (<) current \<Longrightarrow>
   state_key_delta_loop base current delta =
     (if set base \<subseteq> set current then (True, delta @ filter (\<lambda>c. c \<notin> set base) current) else (False, []))"
proof (induction base current delta rule: state_key_delta_loop.induct)
  case (3 b base c current delta)
  consider "c < b" | "c = b" | "b < c" by (meson linorder_less_linear)
  then show ?case
  proof cases
    case 1
    then have "c \<notin> set (b # base)" using "3.prems"(1) by auto
    moreover have "set (b # base) \<subseteq> set (c # current) \<longleftrightarrow> set (b # base) \<subseteq> set current" using calculation by auto
    ultimately show ?thesis using "3.IH"(1) "3.prems" 1 by simp
  next
    case 2
    have "b \<notin> set base" "b \<notin> set current" using "3.prems" 2 by auto
    then have "set (b # base) \<subseteq> set (c # current) \<longleftrightarrow> set base \<subseteq> set current"
      "filter (\<lambda>x. x \<notin> set (b # base)) (c # current) = filter (\<lambda>x. x \<notin> set base) current"
      using 2 by (auto intro!: filter_cong)
    with "3.IH"(2) "3.prems" 2 show ?thesis by simp
  next
    case 3
    then have "b \<notin> set (c # current)" using "3.prems"(2) by auto
    with 3 show ?thesis by auto
  qed
qed auto

theorem collect_state_key_delta_exact:
  assumes "sorted_wrt (<) base" "sorted_wrt (<) current"
  shows "collect_state_key_delta base current =
    (if set base \<subseteq> set current then (True, filter (\<lambda>c. c \<notin> set base) current) else (False, []))"
  using state_key_delta_exact [OF assms, of "[]"] by (simp add: collect_state_key_delta_def)

section \<open>The browser stays in step\<close>

definition record_selection :: "bool \<Rightarrow> u32 list \<Rightarrow> state_selection" where
  "record_selection full ids = (if full then SelFull else SelKeyIds ids)"

definition projected :: "reachability_index \<Rightarrow> state_selection \<Rightarrow> (string \<times> json) list \<Rightarrow> string \<rightharpoonup> json" where
  "projected ri sel m = (\<lambda>k. if k \<in> selects ri sel then map_of m k else None)"

text \<open>
  The browser holds the projection of the base record; as long as the revision is that of the
  base, the retained state is the one the base was taken from.
\<close>

definition in_step :: "reachability_index \<Rightarrow> u64 \<Rightarrow> json \<Rightarrow> state_base \<Rightarrow> range_client \<Rightarrow> bool" where
  "in_step ri revision frozen base client \<longleftrightarrow> (\<forall>s. sb_sequence base = Some s \<longrightarrow>
     selection_known ri (record_selection (sb_full base) (sb_key_ids base)) \<and> sorted_wrt (<) (sb_key_ids base) \<and>
     rc_sequence client = Some (unat s) \<and>
     (\<exists>m. rc_state client = Some (projected ri (record_selection (sb_full base) (sb_key_ids base)) m) \<and>
       (sb_revision base = revision \<longrightarrow> frozen \<noteq> JObject [] \<longrightarrow> is_object frozen \<longrightarrow> frozen = JObject m)))"

lemma selects_union:
  assumes "set base \<subseteq> set ids"
  shows "selects ri (SelKeyIds ids) = selects ri (SelKeyIds base) \<union> selects ri (SelKeyIds (filter (\<lambda>c. c \<notin> set base) ids))"
  using assms by (auto simp: key_set_def)

lemma projected_union:
  assumes "selects ri sel = selects ri base \<union> selects ri extra"
  shows "projected ri base m ++ projected ri extra m = projected ri sel m"
  using assms by (auto simp: projected_def map_add_def fun_eq_iff split: option.split)

lemma merge_projected:
  assumes "selection_known ri extra" "distinct (map fst m)" "selects ri sel = selects ri base \<union> selects ri extra"
  shows "merge_state_delta (Some (projected ri base m)) (Some (selected_state ri (JObject m) extra)) = Inr (Some (projected ri sel m))"
proof -
  obtain d where d: "selected_state ri (JObject m) extra = JObject d"
    using selected_state_map(2) [OF assms(1,2)] by (auto simp: is_object_iff)
  have js: "map_of d = projected ri extra m"
    using selected_state_map(1) [OF assms(1,2)] by (auto simp: d projected_def)
  show ?thesis
  proof (cases "d = []")
    case True
    with js have "projected ri extra m = Map.empty" by (metis map_of.simps(1))
    with projected_union [OF assms(3), of m] have "projected ri base m = projected ri sel m" by (metis map_add_empty)
    with True d show ?thesis by (simp add: merge_state_delta_def)
  next
    case False
    with d js projected_union [OF assms(3), of m] show ?thesis by (simp add: merge_state_delta_def)
  qed
qed

text \<open>One record: the browser resolves it to the projection the record stands for.\<close>

lemma record_resolves:
  assumes step: "in_step ri revision (JObject m) base client"
    and later: "\<And>s. sb_sequence base = Some s \<Longrightarrow> unat s < sequence" and safe: "sequence \<le> MAX_SAFE_INTEGER"
    and known: "\<not> full \<Longrightarrow> ids_known ri ids" and sorted: "sorted_wrt (<) ids" and m: "distinct (map fst m)"
  shows "resolve_range_state (payload_of ri (JObject m) (bootstrap_state_for base revision (JObject m) full ids)) sequence client =
    Inr (Some (projected ri (record_selection full ids) m),
      \<lparr>rc_sequence = Some sequence, rc_state = Some (projected ri (record_selection full ids) m)\<rparr>)"
proof -
  let ?sel = "record_selection full ids"
  have known': "selection_known ri ?sel" using known by (cases full) (simp_all add: record_selection_def)
  have js: "js_object (selected_state ri (JObject m) ?sel) = projected ri ?sel m"
    using selected_state_map(1) [OF known' m] by (auto simp: projected_def)
  have complete: "resolve_range_state (payload_of ri (JObject m) (Complete ?sel)) sequence client =
      Inr (Some (projected ri ?sel m), \<lparr>rc_sequence = Some sequence, rc_state = Some (projected ri ?sel m)\<rparr>)"
    using selected_state_map(2) [OF known' m] js by (simp add: resolve_range_state_def Let_def)
  have reference: "resolve_range_state (payload_of ri (JObject m) (Reference s delta)) sequence client =
      Inr (Some (projected ri ?sel m), \<lparr>rc_sequence = Some sequence, rc_state = Some (projected ri ?sel m)\<rparr>)"
    if s: "sb_sequence base = Some s" and c: "rc_state client = Some (projected ri b m)"
      and d: "delta = None \<and> selects ri b = selects ri ?sel \<or>
        (\<exists>x. delta = Some x \<and> selection_known ri x \<and> selects ri ?sel = selects ri b \<union> selects ri x)" for s delta b
  proof -
    have r: "unat s < sequence" "\<not> unat s > MAX_SAFE_INTEGER" "rc_sequence client = Some (unat s)"
      using later [OF s] safe step s by (auto simp: in_step_def)
    from d show ?thesis
    proof
      assume "delta = None \<and> selects ri b = selects ri ?sel"
      then show ?thesis using r c by (simp add: resolve_range_state_def merge_state_delta_def projected_def)
    next
      assume "\<exists>x. delta = Some x \<and> selection_known ri x \<and> selects ri ?sel = selects ri b \<union> selects ri x"
      then obtain x where x: "delta = Some x" "selection_known ri x" "selects ri ?sel = selects ri b \<union> selects ri x" by blast
      show ?thesis using r c x(1) merge_projected [OF x(2) m x(3)] selected_state_map(2) [OF x(2) m]
        by (simp add: resolve_range_state_def)
    qed
  qed
  show ?thesis
  proof (cases "can_reference base revision (JObject m)")
    case False
    then have "bootstrap_state_for base revision (JObject m) full ids = Complete ?sel"
      by (simp add: bootstrap_state_for_def Let_def record_selection_def split: option.split)
    with complete show ?thesis by simp
  next
    case True
    then obtain s where s: "sb_sequence base = Some s" and ne: "m \<noteq> []" and rev: "sb_revision base = revision"
      by (auto simp: can_reference_def)
    let ?b = "record_selection (sb_full base) (sb_key_ids base)"
    from step s ne rev have c: "rc_state client = Some (projected ri ?b m)" "selection_known ri ?b" "sorted_wrt (<) (sb_key_ids base)"
      by (auto simp: in_step_def)
    note ref = reference [OF s c(1)]
    show ?thesis
    proof (cases full)
      case True': True
      show ?thesis
      proof (cases "sb_full base")
        case True
        then show ?thesis using \<open>can_reference base revision (JObject m)\<close> True' s ref [of None]
          by (simp add: bootstrap_state_for_def Let_def record_selection_def)
      next
        case False
        have "selection_known ri (SelFullExceptKeyIds (sb_key_ids base))" using c(2) False by (simp add: record_selection_def)
        moreover have "selects ri ?sel = selects ri ?b \<union> selects ri (SelFullExceptKeyIds (sb_key_ids base))"
          using True' False by (auto simp: record_selection_def)
        ultimately show ?thesis using \<open>can_reference base revision (JObject m)\<close> True' False s ref [of "Some (SelFullExceptKeyIds (sb_key_ids base))"]
          by (simp add: bootstrap_state_for_def Let_def)
      qed
    next
      case partly: False
      show ?thesis
      proof (cases "sb_full base \<or> \<not> set (sb_key_ids base) \<subseteq> set ids")
        case True
        then have "bootstrap_state_for base revision (JObject m) full ids = Complete ?sel"
          using partly s collect_state_key_delta_exact [OF c(3) sorted] by (auto simp: bootstrap_state_for_def Let_def record_selection_def)
        with complete show ?thesis by simp
      next
        case False
        let ?d = "filter (\<lambda>c. c \<notin> set (sb_key_ids base)) ids"
        have u: "selects ri ?sel = selects ri ?b \<union> selects ri (SelKeyIds ?d)"
          using selects_union [of "sb_key_ids base" ids ri] False partly by (simp add: record_selection_def)
        have b: "bootstrap_state_for base revision (JObject m) full ids = Reference s (if ?d = [] then None else Some (SelKeyIds ?d))"
          using False partly s \<open>can_reference base revision (JObject m)\<close> collect_state_key_delta_exact [OF c(3) sorted]
          by (simp add: bootstrap_state_for_def Let_def)
        have k: "selection_known ri (SelKeyIds ?d)" using known [OF partly] by (simp add: ids_known_def)
        show ?thesis
        proof (cases "?d = []")
          case True
          then have "selects ri (SelKeyIds ?d) = {}" by (simp add: key_set_def)
          with u have "selects ri ?b = selects ri ?sel" by blast
          with ref [of None] b True show ?thesis by simp
        next
          case False
          with ref [of "Some (SelKeyIds ?d)"] b u k show ?thesis by simp
        qed
      qed
    qed
  qed
qed

end
