(* ===== verification/Stream_Record.thy ===== *)
theory Stream_Record
  imports Stream_Bootstrap
begin

text \<open>
  What a streamed response has sent and what the record in progress has captured
  (\<open>StreamingRenderState\<close> of \<open>crates/webui-handler/src/streaming/state.rs\<close>), with the component
  bookkeeping of a checkpoint (\<open>streaming/inventory.rs\<close>).  Buffers that every use clears first are local
  variables; the fields of the last state record are one \<open>state_base\<close>.
\<close>

unbundle bit_operations_syntax

section \<open>State\<close>

datatype root_stage = OpeningTagClose | ComponentStage

record pending_root =
  pr_tag :: string
  pr_stage :: root_stage

record state_update_plan =
  up_requires_full_state :: bool
  up_key_ids :: "u32 list"

record record_capture =
  cap_tags :: "u32 list"
  cap_walk_roots :: "(u32 \<times> string option) list"
  cap_seen :: "u8 list"
  cap_needs_expansion :: bool

text \<open>The capture of the record in progress is the record type extended by the rest of the state.\<close>

record stream_state = record_capture +
  ss_head_marker_emitted :: bool
  ss_active_boundary :: "u32 option"
  ss_current_span :: "u32 option"
  ss_pending_span_host :: "u32 option"
  ss_pending_root :: "pending_root option"
  ss_generated_root_ready :: bool
  ss_next_record_sequence :: u64
  ss_state_revision :: u64
  ss_base :: state_base
  ss_bootstrap_sent :: bool
  ss_body_ended :: bool
  ss_inventory :: "u8 list"
  ss_inventory_hex :: string
  ss_template_inventory :: "u8 list"
  ss_style_resource_inventory :: "u8 list"
  ss_update_plans :: "state_update_plan option list"

definition div_ceil8 :: "nat \<Rightarrow> nat" where
  "div_ceil8 n = (n + 7) div 8"

definition capture_new :: "nat \<Rightarrow> record_capture" where
  "capture_new component_count =
     \<lparr>cap_tags = [], cap_walk_roots = [], cap_seen = replicate (div_ceil8 component_count) 0, cap_needs_expansion = False\<rparr>"

definition capture_clear :: "'a record_capture_scheme \<Rightarrow> 'a record_capture_scheme" where
  "capture_clear c = c\<lparr>cap_tags := [], cap_walk_roots := [], cap_seen := map (\<lambda>_. 0) (cap_seen c), cap_needs_expansion := False\<rparr>"

definition progress_new :: "nat \<Rightarrow> nat \<Rightarrow> stream_state" where
  "progress_new component_count style_resource_count =
     \<lparr>cap_tags = [], cap_walk_roots = [], cap_seen = replicate (div_ceil8 component_count) 0, cap_needs_expansion = False,
      ss_head_marker_emitted = False, ss_active_boundary = None, ss_current_span = None, ss_pending_span_host = None,
      ss_pending_root = None, ss_generated_root_ready = False, ss_next_record_sequence = 0, ss_state_revision = 0,
      ss_base = \<lparr>sb_sequence = None, sb_revision = 0, sb_full = False, sb_key_ids = []\<rparr>,
      ss_bootstrap_sent = False, ss_body_ended = False,
      ss_inventory = replicate (div_ceil8 component_count) 0, ss_inventory_hex = [],
      ss_template_inventory = replicate (div_ceil8 component_count) 0,
      ss_style_resource_inventory = replicate (div_ceil8 style_resource_count) 0, ss_update_plans = []\<rparr>"

text \<open>\<open>into_progress\<close> and \<open>from_progress\<close> keep everything but a pending root.\<close>

definition next_step :: "stream_state \<Rightarrow> stream_state" where
  "next_step ss = ss\<lparr>ss_pending_root := None\<rparr>"

definition swap_capture :: "stream_state \<Rightarrow> record_capture \<Rightarrow> stream_state \<times> record_capture" where
  "swap_capture ss c =
     (ss\<lparr>cap_tags := cap_tags c, cap_walk_roots := cap_walk_roots c, cap_seen := cap_seen c, cap_needs_expansion := cap_needs_expansion c\<rparr>,
      \<lparr>cap_tags = cap_tags ss, cap_walk_roots = cap_walk_roots ss, cap_seen = cap_seen ss, cap_needs_expansion = cap_needs_expansion ss\<rparr>)"

section \<open>Counters\<close>

definition streaming_boundary_error :: "string \<Rightarrow> string \<Rightarrow> handler_error" where
  "streaming_boundary_error sig reason = StreamingBoundary sig reason"

definition checked_add1 :: "'a :: len word \<Rightarrow> 'a word option" where
  "checked_add1 n = (if n = - 1 then None else Some (n + 1))"

definition increment_streaming_record_sequence :: "string \<Rightarrow> stream_state \<Rightarrow> (handler_error, stream_state) result" where
  "increment_streaming_record_sequence sig ss =
     rbind (ok_or (streaming_boundary_error sig ''record sequence overflowed the platform limit'')
       (checked_add1 (ss_next_record_sequence ss))) (\<lambda>n. Inr (ss\<lparr>ss_next_record_sequence := n\<rparr>))"

definition increment_state_revision :: "stream_state \<Rightarrow> (handler_error, stream_state) result" where
  "increment_state_revision ss =
     rbind (ok_or (Invariant ''streaming state revision overflowed the platform limit'')
       (checked_add1 (ss_state_revision ss))) (\<lambda>n. Inr (ss\<lparr>ss_state_revision := n\<rparr>))"

section \<open>Capturing tags\<close>

text \<open>One bit of a request-local bitset.\<close>

definition seen_bit :: "u8 list \<Rightarrow> u32 \<Rightarrow> bool" where
  "seen_bit bits index \<longleftrightarrow> bits ! byte_idx index AND bit_mask index \<noteq> 0"

definition set_bit_in :: "u8 list \<Rightarrow> u32 \<Rightarrow> u8 list" where
  "set_bit_in bits index = bits[byte_idx index := bits ! byte_idx index OR bit_mask index]"

definition record_route_dependent_root :: "u32 \<Rightarrow> string \<Rightarrow> 'a record_capture_scheme \<Rightarrow> 'a record_capture_scheme" where
  "record_route_dependent_root index route_base c =
     (if (index, Some route_base) \<in> set (cap_walk_roots c) then c
      else c\<lparr>cap_walk_roots := (if cap_walk_roots c = [] then map (\<lambda>rt. (rt, None)) (cap_tags c) else cap_walk_roots c)
               @ [(index, Some route_base)]\<rparr>)"

definition record_index :: "reachability_index \<Rightarrow> u32 \<Rightarrow> string \<Rightarrow> 'a record_capture_scheme \<Rightarrow> 'a record_capture_scheme" where
  "record_index ri index route_base c0 =
     (let route_dependent = (is_route_dependent ri index = Some True);
          c = (if route_dependent then record_route_dependent_root index route_base c0 else c0) in
      if byte_idx index \<ge> length (cap_seen c) \<or> seen_bit (cap_seen c) index then c
      else
        let c = c\<lparr>cap_seen := set_bit_in (cap_seen c) index, cap_tags := cap_tags c @ [index]\<rparr>;
            c = (if \<not> route_dependent \<and> cap_walk_roots c \<noteq> [] then c\<lparr>cap_walk_roots := cap_walk_roots c @ [(index, None)]\<rparr> else c)
        in if requires_expansion ri index \<noteq> Some False then c\<lparr>cap_needs_expansion := True\<rparr> else c)"

definition record_checkpoint_tag ::
  "reachability_index \<Rightarrow> (string \<rightharpoonup> u32) \<Rightarrow> string \<Rightarrow> string \<Rightarrow> 'a record_capture_scheme \<Rightarrow> 'a record_capture_scheme" where
  "record_checkpoint_tag ri component_index fragment_id route_base c = (case component_index fragment_id of
     None \<Rightarrow> c
   | Some index \<Rightarrow> record_index ri index route_base c)"

section \<open>Committing the inventory\<close>

fun commit_bits :: "u32 list \<Rightarrow> u8 list \<Rightarrow> u8 list \<Rightarrow> (handler_error, u8 list \<times> u8 list) result" where
  "commit_bits [] inventory delta = Inr (inventory, delta)"
| "commit_bits (index # tags) inventory delta =
     (if byte_idx index \<ge> length inventory then Inl (Invariant ''component inventory index exceeds the request-local bitset'')
      else if \<not> seen_bit inventory index then commit_bits tags (set_bit_in inventory index) (set_bit_in delta index)
      else commit_bits tags inventory delta)"

text \<open>\<open>rposition\<close> of the last byte that is not zero, plus one.\<close>

definition used_bytes :: "u8 list \<Rightarrow> nat" where
  "used_bytes bytes = length (dropWhile (\<lambda>b. b = 0) (rev bytes))"

definition commit_checkpoint_inventory :: "stream_state \<Rightarrow> (handler_error, stream_state) result" where
  "commit_checkpoint_inventory ss =
     rbind (commit_bits (cap_tags ss) (ss_inventory ss) (map (\<lambda>_. 0) (ss_inventory ss))) (\<lambda>(inventory, delta).
       Inr (ss\<lparr>ss_inventory := inventory, ss_inventory_hex := encode_inventory (take (used_bytes delta) delta)\<rparr>))"

section \<open>Expanding the capture\<close>

lemma set_bit_unset:
  assumes "byte_idx i < length bits" "\<not> seen_bit bits i"
  shows "unset_flags (set_bit_in bits i) < unset_flags bits"
proof -
  have "bits ! byte_idx i \<noteq> bits ! byte_idx i OR bit_mask i"
  proof
    assume "bits ! byte_idx i = bits ! byte_idx i OR bit_mask i"
    then have "bit (bits ! byte_idx i) (unat i mod 8)" by (metis bit_or_iff bit_mask_bit)
    with assms(2) show False by (simp add: seen_bit_def and_bit_mask)
  qed
  with unset_flags_update [OF assms(1)] show ?thesis by (simp add: set_bit_in_def)
qed

function append_reachability_stack ::
  "reachability_index \<Rightarrow> u32 list \<Rightarrow> u8 list \<Rightarrow> u32 list \<Rightarrow> (handler_error, u8 list \<times> u32 list) result" where
  "append_reachability_stack ri [] seen tags = Inr (seen, tags)"
| "append_reachability_stack ri (index # stack) seen tags =
     (if byte_idx index \<ge> length seen then Inl (Invariant ''component reachability index exceeds the request-local bitset'')
      else if seen_bit seen index then append_reachability_stack ri stack seen tags
      else (case dependencies ri index of
          None \<Rightarrow> Inl (Invariant ''component reachability dependencies are missing'')
        | Some ds \<Rightarrow> append_reachability_stack ri (ds @ stack) (set_bit_in seen index) (tags @ [index])))"
  by pat_completeness auto
termination
  by (relation "measures [\<lambda>(_, _, seen, _). unset_flags seen, \<lambda>(_, stack, _). length stack]") (auto intro: set_bit_unset)

fun route_dependent_root :: "reachability_index \<Rightarrow> u32 list \<Rightarrow> (handler_error, bool) result" where
  "route_dependent_root ri [] = Inr False"
| "route_dependent_root ri (index # tags) = (case is_route_dependent ri index of
     Some False \<Rightarrow> route_dependent_root ri tags
   | Some True \<Rightarrow> Inr True
   | None \<Rightarrow> Inl (Invariant ''component reachability index is incomplete''))"

definition expand_static_checkpoint_reachability ::
  "reachability_index \<Rightarrow> 'a record_capture_scheme \<Rightarrow> (handler_error, bool \<times> 'a record_capture_scheme) result" where
  "expand_static_checkpoint_reachability ri c =
     (if \<not> cap_needs_expansion c then Inr (True, c)
      else rbind (route_dependent_root ri (cap_tags c)) (\<lambda>found.
        if found then Inr (False, c)
        else rbind (append_reachability_stack ri (cap_tags c) (map (\<lambda>_. 0) (cap_seen c)) []) (\<lambda>(seen, tags).
          Inr (True, c\<lparr>cap_seen := seen, cap_tags := tags\<rparr>))))"

definition replace_tag :: "(string \<rightharpoonup> u32) \<Rightarrow> string \<Rightarrow> u8 list \<times> u32 list \<Rightarrow> u8 list \<times> u32 list" where
  "replace_tag component_index name acc = (case acc of (seen, tags) \<Rightarrow> (case component_index name of
     None \<Rightarrow> (seen, tags)
   | Some index \<Rightarrow>
       if byte_idx index < length seen \<and> \<not> seen_bit seen index then (set_bit_in seen index, tags @ [index]) else (seen, tags)))"

definition replace_checkpoint_reachability ::
  "(string \<rightharpoonup> u32) \<Rightarrow> string list \<Rightarrow> 'a record_capture_scheme \<Rightarrow> 'a record_capture_scheme" where
  "replace_checkpoint_reachability component_index reachable c =
     (case fold (replace_tag component_index) reachable (map (\<lambda>_. 0) (cap_seen c), []) of
       (seen, tags) \<Rightarrow> c\<lparr>cap_seen := seen, cap_tags := tags\<rparr>)"

text \<open>\<open>collect_reachable_components_from_roots\<close> (\<open>route_handler.rs\<close>): the request-aware walk.\<close>

definition push_walk_root :: "reachability_index \<Rightarrow> u32 \<times> string option \<Rightarrow> queued_fragment list \<times> string list \<Rightarrow> queued_fragment list \<times> string list" where
  "push_walk_root ri rt acc = (case acc of (stack, arena) \<Rightarrow> (case ri_name ri (fst rt) of
     None \<Rightarrow> (stack, arena)
   | Some name \<Rightarrow> (case snd rt of
         Some base \<Rightarrow> (case arena_intern arena base of (b, arena') \<Rightarrow>
           (\<lparr>q_id = name, q_inventoryable = True, q_base = b\<rparr> # stack, arena'))
       | None \<Rightarrow> (\<lparr>q_id = name, q_inventoryable = True, q_base = ARENA_ROOT\<rparr> # stack, arena))))"

definition collect_reachable_components_from_roots ::
  "web_ui_protocol \<Rightarrow> (u32 \<times> string option) list \<Rightarrow> reachability_index \<Rightarrow> string \<Rightarrow> route_index \<Rightarrow> string list" where
  "collect_reachable_components_from_roots p roots ri request_path index =
     (case fold (push_walk_root ri) (rev roots) ([], arena_new) of (stack, arena) \<Rightarrow>
       collect_inventoryable_components_from_stack p (Some request_path) None index stack arena)"

section \<open>Delivered metadata\<close>

definition streaming_template_already_sent :: "stream_state \<Rightarrow> (string \<rightharpoonup> u32) \<Rightarrow> string \<Rightarrow> bool" where
  "streaming_template_already_sent ss component_index tag = (case component_index tag of
     None \<Rightarrow> False
   | Some index \<Rightarrow> byte_idx index < length (ss_template_inventory ss) \<and> seen_bit (ss_template_inventory ss) index)"

definition mark_streaming_template_sent :: "u32 \<Rightarrow> stream_state \<Rightarrow> (handler_error, bool \<times> stream_state) result" where
  "mark_streaming_template_sent index ss =
     (if byte_idx index \<ge> length (ss_template_inventory ss) then Inl (Invariant ''component template index exceeds the request-local bitset'')
      else if seen_bit (ss_template_inventory ss) index then Inr (False, ss)
      else Inr (True, ss\<lparr>ss_template_inventory := set_bit_in (ss_template_inventory ss) index\<rparr>))"

definition mark_streaming_style_resource_sent :: "u32 \<Rightarrow> stream_state \<Rightarrow> (handler_error, stream_state) result" where
  "mark_streaming_style_resource_sent index ss =
     (if byte_idx index \<ge> length (ss_style_resource_inventory ss) then Inl (Invariant ''component style index exceeds the request-local bitset'')
      else Inr (ss\<lparr>ss_style_resource_inventory := set_bit_in (ss_style_resource_inventory ss) index\<rparr>))"

section \<open>Facts about captures\<close>

lemma seen_bit_has: "byte_idx i < length bits \<Longrightarrow> seen_bit bits i = has_component bits i"
  by (simp add: seen_bit_def has_component_def)

lemma has_set_bit_in: "byte_idx i < length bits \<Longrightarrow> has_component (set_bit_in bits i) j \<longleftrightarrow> has_component bits j \<or> j = i"
  by (simp add: set_bit_in_def has_component_update)

lemma length_set_bit_in [simp]: "length (set_bit_in bits i) = length bits"
  by (simp add: set_bit_in_def)

lemma has_component_cleared [simp]: "\<not> has_component (map (\<lambda>_. 0) bits) i"
  by (simp add: map_replicate_const)

text \<open>An index whose tables have one entry per name, and whose edges stay inside.\<close>

definition ri_closed :: "reachability_index \<Rightarrow> bool" where
  "ri_closed ri \<longleftrightarrow> length (ri_names ri) \<le> 2 ^ 32 \<and> length (ri_dependencies ri) = length (ri_names ri) \<and>
     length (ri_route_dependent ri) = length (ri_names ri) \<and>
     (\<forall>ds \<in> set (ri_dependencies ri). \<forall>d \<in> set ds. unat d < length (ri_names ri))"

definition depends_on :: "reachability_index \<Rightarrow> u32 \<Rightarrow> u32 set" where
  "depends_on ri i = (case dependencies ri i of Some ds \<Rightarrow> set ds | None \<Rightarrow> {})"

definition leads_to_route :: "reachability_index \<Rightarrow> u32 \<Rightarrow> bool" where
  "leads_to_route ri i \<longleftrightarrow> is_route_dependent ri i = Some True"

text \<open>What a capture holds after a list of components was recorded under their bases.\<close>

definition captured :: "reachability_index \<Rightarrow> (u32 \<times> string) list \<Rightarrow> 'a record_capture_scheme \<Rightarrow> bool" where
  "captured ri recs c \<longleftrightarrow> distinct (cap_tags c) \<and> set (cap_tags c) = fst ` set recs \<and>
     (\<forall>i. has_component (cap_seen c) i \<longleftrightarrow> i \<in> set (cap_tags c)) \<and>
     (cap_needs_expansion c \<longleftrightarrow> (\<exists>i \<in> set (cap_tags c). requires_expansion ri i \<noteq> Some False)) \<and>
     (if \<exists>i \<in> fst ` set recs. leads_to_route ri i
      then set (cap_walk_roots c) = {(i, None) |i. i \<in> fst ` set recs \<and> \<not> leads_to_route ri i} \<union>
        {(i, Some b) |i b. (i, b) \<in> set recs \<and> leads_to_route ri i}
      else cap_walk_roots c = [])"

lemma captured_clear: "captured ri [] (capture_clear c)"
  by (simp add: captured_def capture_clear_def)

lemma record_index_tags:
  assumes "byte_idx i < length (cap_seen c)" "captured ri recs c"
  shows "cap_tags (record_index ri i b c) = (if i \<in> set (cap_tags c) then cap_tags c else cap_tags c @ [i])"
    "cap_seen (record_index ri i b c) = (if i \<in> set (cap_tags c) then cap_seen c else set_bit_in (cap_seen c) i)"
    "cap_needs_expansion (record_index ri i b c) = (cap_needs_expansion c \<or> (i \<notin> set (cap_tags c) \<and> requires_expansion ri i \<noteq> Some False))"
proof -
  have s: "seen_bit (cap_seen c) i \<longleftrightarrow> i \<in> set (cap_tags c)" using assms by (simp add: seen_bit_has captured_def)
  show "cap_tags (record_index ri i b c) = (if i \<in> set (cap_tags c) then cap_tags c else cap_tags c @ [i])"
    "cap_seen (record_index ri i b c) = (if i \<in> set (cap_tags c) then cap_seen c else set_bit_in (cap_seen c) i)"
    "cap_needs_expansion (record_index ri i b c) = (cap_needs_expansion c \<or> (i \<notin> set (cap_tags c) \<and> requires_expansion ri i \<noteq> Some False))"
    using assms(1) s by (simp_all add: record_index_def record_route_dependent_root_def Let_def)
qed

lemma record_index_roots:
  assumes "byte_idx i < length (cap_seen c)" "captured ri recs c"
  shows "cap_walk_roots (record_index ri i b c) =
    (if leads_to_route ri i
     then if (i, Some b) \<in> set (cap_walk_roots c) then cap_walk_roots c
       else (if cap_walk_roots c = [] then map (\<lambda>rt. (rt, None)) (cap_tags c) else cap_walk_roots c) @ [(i, Some b)]
     else if i \<notin> set (cap_tags c) \<and> cap_walk_roots c \<noteq> [] then cap_walk_roots c @ [(i, None)] else cap_walk_roots c)"
proof -
  have s: "seen_bit (cap_seen c) i \<longleftrightarrow> i \<in> set (cap_tags c)" using assms by (simp add: seen_bit_has captured_def)
  show ?thesis using assms(1) s by (simp add: record_index_def record_route_dependent_root_def leads_to_route_def Let_def)
qed

lemma captured_record:
  assumes "byte_idx i < length (cap_seen c)" "captured ri recs c"
  shows "captured ri (recs @ [(i, b)]) (record_index ri i b c)"
    "length (cap_seen (record_index ri i b c)) = length (cap_seen c)"
proof -
  note t = record_index_tags [OF assms, of b]
  note r = record_index_roots [OF assms, of b]
  note c = assms(2) [unfolded captured_def]
  show "length (cap_seen (record_index ri i b c)) = length (cap_seen c)" using t(2) by simp
  have tags: "set (cap_tags (record_index ri i b c)) = insert i (set (cap_tags c))" using t(1) by auto
  have a: "distinct (cap_tags (record_index ri i b c))" using c t(1) by auto
  have b: "set (cap_tags (record_index ri i b c)) = fst ` set (recs @ [(i, b)])" using c tags by auto
  have d: "\<forall>j. has_component (cap_seen (record_index ri i b c)) j \<longleftrightarrow> j \<in> set (cap_tags (record_index ri i b c))"
    using c t(2) tags assms(1) by (auto simp: has_set_bit_in)
  have e: "cap_needs_expansion (record_index ri i b c) \<longleftrightarrow> (\<exists>j \<in> set (cap_tags (record_index ri i b c)). requires_expansion ri j \<noteq> Some False)"
    using c t(3) tags by auto
  let ?W = "cap_walk_roots c" and ?W' = "cap_walk_roots (record_index ri i b c)"
  have f: "if \<exists>j \<in> fst ` set (recs @ [(i, b)]). leads_to_route ri j
      then set ?W' = {(j, None) |j. j \<in> fst ` set (recs @ [(i, b)]) \<and> \<not> leads_to_route ri j} \<union>
        {(j, Some q) |j q. (j, q) \<in> set (recs @ [(i, b)]) \<and> leads_to_route ri j}
      else ?W' = []"
  proof (cases "\<exists>j \<in> fst ` set recs. leads_to_route ri j")
    case True
    then have W: "set ?W = {(j, None) |j. j \<in> fst ` set recs \<and> \<not> leads_to_route ri j} \<union>
        {(j, Some q) |j q. (j, q) \<in> set recs \<and> leads_to_route ri j}" using c by simp
    from True have "?W \<noteq> []" using W by (auto simp flip: set_empty)
    then have "set ?W' = (if leads_to_route ri i then insert (i, Some b) (set ?W)
        else if i \<in> fst ` set recs then set ?W else insert (i, None) (set ?W))" using r c by auto
    then have "set ?W' = {(j, None) |j. j \<in> fst ` set (recs @ [(i, b)]) \<and> \<not> leads_to_route ri j} \<union>
        {(j, Some q) |j q. (j, q) \<in> set (recs @ [(i, b)]) \<and> leads_to_route ri j}"
      unfolding W by (cases "leads_to_route ri i"; cases "i \<in> fst ` set recs") auto
    with True show ?thesis by auto
  next
    case False
    then have W: "?W = []" using c by auto
    show ?thesis
    proof (cases "leads_to_route ri i")
      case True
      then have "?W' = map (\<lambda>rt. (rt, None)) (cap_tags c) @ [(i, Some b)]" using r W by simp
      then have "set ?W' = (\<lambda>rt. (rt, None)) ` fst ` set recs \<union> {(i, Some b)}" using c by auto
      moreover have "i \<notin> fst ` set recs" "(j, q) \<in> set recs \<Longrightarrow> \<not> leads_to_route ri j" for j q using False True by force+
      ultimately show ?thesis using True by auto
    next
      case n: False
      then have "?W' = []" using r W by simp
      with n False show ?thesis by simp
    qed
  qed
  show "captured ri (recs @ [(i, b)]) (record_index ri i b c)"
    unfolding captured_def using a b d e f by blast
qed

lemma captured_fold:
  assumes "\<forall>(i, b) \<in> set recs. byte_idx i < length (cap_seen c)" "captured ri done_recs c"
  shows "captured ri (done_recs @ recs) (fold (\<lambda>(i, b). record_index ri i b) recs c) \<and>
    length (cap_seen (fold (\<lambda>(i, b). record_index ri i b) recs c)) = length (cap_seen c)"
  using assms
proof (induction recs arbitrary: c done_recs)
  case (Cons ib recs)
  obtain i b where ib: "ib = (i, b)" by fastforce
  have i: "byte_idx i < length (cap_seen c)" using Cons.prems(1) ib by simp
  note r = captured_record [OF i Cons.prems(2), of b]
  have "\<forall>(i', b') \<in> set recs. byte_idx i' < length (cap_seen (record_index ri i b c))" using Cons.prems(1) r(2) by simp
  from Cons.IH [OF this r(1)] r(2) ib show ?case by simp
qed simp

text \<open>The search of the integer graph.\<close>

lemma append_stack_exact:
  assumes "ri_closed ri" "length (ri_names ri) \<le> 8 * length seen"
    and "searched (depends_on ri) roots (set tags) (set stack)"
    and "\<forall>i. has_component seen i \<longleftrightarrow> i \<in> set tags" "distinct tags"
    and "\<forall>i \<in> set stack. unat i < length (ri_names ri)"
  shows "\<exists>seen' tags'. append_reachability_stack ri stack seen tags = Inr (seen', tags') \<and> distinct tags' \<and>
    set tags' = reach_from (depends_on ri) roots \<and> (\<forall>i. has_component seen' i \<longleftrightarrow> i \<in> set tags') \<and> length seen' = length seen"
  using assms
proof (induction ri stack seen tags rule: append_reachability_stack.induct)
  case (1 ri seen tags)
  then show ?case by (simp add: searched_done)
next
  case (2 ri index stack seen tags)
  have i: "unat index < length (ri_names ri)" using "2.prems"(6) by simp
  then have b: "byte_idx index < length seen" using "2.prems"(2) by (simp add: byte_idx_eq)
  show ?case
  proof (cases "index \<in> set tags")
    case True
    with "2.prems"(4) b have s: "seen_bit seen index" by (simp add: seen_bit_has)
    from searched_skip [of "depends_on ri" roots "set tags" index "set stack"] "2.prems"(3) True
    have "searched (depends_on ri) roots (set tags) (set stack)" by simp
    with "2.IH"(1) b s "2.prems" show ?thesis by simp
  next
    case False
    with "2.prems"(4) b have s: "\<not> seen_bit seen index" by (simp add: seen_bit_has)
    obtain ds where ds: "dependencies ri index = Some ds" "ds \<in> set (ri_dependencies ri)"
      using "2.prems"(1) i by (auto simp: dependencies_def get_at_def ri_closed_def)
    have "depends_on ri index = set ds" by (simp add: depends_on_def ds(1))
    with searched_visit [of "depends_on ri" roots "set tags" index "set stack"] "2.prems"(3)
    have search: "searched (depends_on ri) roots (set (tags @ [index])) (set (ds @ stack))" by simp
    have range: "\<forall>i \<in> set (ds @ stack). unat i < length (ri_names ri)" using "2.prems"(1,6) ds(2) by (auto simp: ri_closed_def)
    have bits: "\<forall>i. has_component (set_bit_in seen index) i \<longleftrightarrow> i \<in> set (tags @ [index])" using "2.prems"(4) b by (auto simp: has_set_bit_in)
    have "\<exists>seen' tags'. append_reachability_stack ri (ds @ stack) (set_bit_in seen index) (tags @ [index]) = Inr (seen', tags') \<and>
        distinct tags' \<and> set tags' = reach_from (depends_on ri) roots \<and>
        (\<forall>i. has_component seen' i \<longleftrightarrow> i \<in> set tags') \<and> length seen' = length (set_bit_in seen index)"
      by (rule "2.IH"(2) [OF _ s ds(1) _ _ search bits _ range]) (use b "2.prems" False in auto)
    with b s ds(1) show ?thesis by simp
  qed
qed

lemma route_root_exact:
  assumes "ri_closed ri" "\<forall>i \<in> set tags. unat i < length (ri_names ri)"
  shows "route_dependent_root ri tags = Inr (\<exists>i \<in> set tags. leads_to_route ri i)"
  using assms(2)
proof (induction tags)
  case (Cons i tags)
  then have "is_route_dependent ri i = Some (leads_to_route ri i)"
    using assms(1) by (auto simp: is_route_dependent_def leads_to_route_def get_at_def ri_closed_def)
  with Cons show ?case by (cases "leads_to_route ri i") auto
qed simp

lemma no_expansion_closed:
  assumes "ri_closed ri" "\<forall>i \<in> S. unat i < length (ri_names ri)" "\<forall>i \<in> S. requires_expansion ri i = Some False"
  shows "reach_from (depends_on ri) S = S" "\<forall>i \<in> S. \<not> leads_to_route ri i"
proof -
  have d: "depends_on ri i = {}" "\<not> leads_to_route ri i" if "i \<in> S" for i
  proof -
    have r: "requires_expansion ri i = Some False" "unat i < length (ri_dependencies ri)" using assms that by (auto simp: ri_closed_def)
    then have "is_route_dependent ri i = Some False" by (auto simp: requires_expansion_def split: option.splits bool.splits)
    with r show "depends_on ri i = {}" "\<not> leads_to_route ri i"
      by (auto simp: requires_expansion_def depends_on_def leads_to_route_def dependencies_def get_at_def)
  qed
  then show "\<forall>i \<in> S. \<not> leads_to_route ri i" by blast
  show "reach_from (depends_on ri) S = S" using d reach_from_least [of S S "depends_on ri"] by auto
qed

theorem expand_capture:
  assumes "ri_closed ri" "length (ri_names ri) \<le> 8 * length (cap_seen c)" "captured ri recs c"
    and "\<forall>i \<in> fst ` set recs. unat i < length (ri_names ri)"
  shows "if \<exists>i \<in> fst ` set recs. leads_to_route ri i
    then expand_static_checkpoint_reachability ri c = Inr (False, c)
    else \<exists>c'. expand_static_checkpoint_reachability ri c = Inr (True, c') \<and> distinct (cap_tags c') \<and>
      set (cap_tags c') = reach_from (depends_on ri) (fst ` set recs)"
proof -
  note c = assms(3) [unfolded captured_def]
  have tags: "\<forall>i \<in> set (cap_tags c). unat i < length (ri_names ri)" using assms(4) c by simp
  show ?thesis
  proof (cases "cap_needs_expansion c")
    case False
    then have "\<forall>i \<in> fst ` set recs. requires_expansion ri i = Some False" using c by auto
    from no_expansion_closed [OF assms(1,4) this] c False show ?thesis by (simp add: expand_static_checkpoint_reachability_def)
  next
    case True
    note root = route_root_exact [OF assms(1) tags]
    show ?thesis
    proof (cases "\<exists>i \<in> fst ` set recs. leads_to_route ri i")
      case route: True
      with c root True show ?thesis by (simp add: expand_static_checkpoint_reachability_def)
    next
      case route: False
      let ?clear = "map (\<lambda>_. 0) (cap_seen c) :: u8 list"
      have len: "length (ri_names ri) \<le> 8 * length ?clear" using assms(2) by simp
      have s: "searched (depends_on ri) (fst ` set recs) (set []) (set (cap_tags c))" using c searched_start by simp
      from append_stack_exact [OF assms(1) len s _ _ tags] c root True route show ?thesis
        by (auto simp: expand_static_checkpoint_reachability_def)
    qed
  qed
qed

section \<open>The index of a protocol is closed\<close>

lemma numbered_at: "length names \<le> 2 ^ 32 \<Longrightarrow> map_of (numbered names) name = Some i \<Longrightarrow> unat i < length names \<and> names ! unat i = name"
proof -
  assume l: "length names \<le> 2 ^ 32" and "map_of (numbered names) name = Some i"
  then have "(name, i) \<in> set (numbered names)" by (auto dest: map_of_SomeD)
  then obtain k where k: "k < length names" "name = names ! k" "i = word_of_nat k" by (auto simp: numbered_def set_zip)
  have "k < 2 ^ 32" using k(1) l by linarith
  then have "unat (word_of_nat k :: u32) = k" by (intro unat_of_nat_small) simp
  with k show ?thesis by simp
qed

lemma build_component_index_names:
  "\<exists>names. build_component_index p = numbered names \<and> sorted_wrt (<) names \<and>
    ri_names (reachability_index_new p (build_component_index p)) = names"
proof -
  let ?names = "remdups_adj (sort (filter (\<lambda>k. CHR ''-'' \<in> set k) (map fst (p_fragments p)) @ map fst (p_client_fragments p)))"
  have b: "build_component_index p = numbered ?names" by (simp add: build_component_index_def)
  have s: "sorted_wrt (<) ?names" by (simp add: remdups_adj_sort)
  have "map fst (numbered ?names) = ?names" by (simp add: numbered_def)
  moreover have "sort ?names = ?names" using s by (simp add: sorted_sort_id strict_sorted_imp_sorted)
  ultimately have "ri_names (reachability_index_new p (build_component_index p)) = ?names" by (simp add: index_fields b)
  with b s show ?thesis by blast
qed

lemma reachability_index_graph:
  "ri_dependencies (reachability_index_new p index) = map (\<lambda>n. fst (collect_direct_component_dependencies p n (map_of index))) (sort (map fst index))"
  "ri_route_dependent (reachability_index_new p index) = propagate_route_dependencies (ri_dependencies (reachability_index_new p index))
     (map (\<lambda>n. snd (collect_direct_component_dependencies p n (map_of index))) (sort (map fst index)))"
  by (simp_all add: reachability_index_new_def Let_def case_prod_beta comp_def)

lemma index_closed:
  assumes "ri = reachability_index_new p (build_component_index p)" "length (ri_names ri) \<le> 2 ^ 32"
  shows "deps_in_range (ri_dependencies ri)" "ri_closed ri"
    "unat i < length (ri_names ri) \<Longrightarrow> leads_to_route ri i \<longleftrightarrow>
       (\<exists>t. t < length (ri_names ri) \<and> (unat i, t) \<in> (depends (ri_dependencies ri))\<^sup>* \<and> (\<exists>v \<in> inline_records p (ri_names ri ! t). routes_in p v))"
proof -
  obtain names where n: "build_component_index p = numbered names" "ri_names ri = names"
    using build_component_index_names [of p] assms(1) by auto
  have sorted: "sort (map fst (build_component_index p)) = names" using n(2) by (simp add: assms(1) index_fields)
  have l: "length names \<le> 2 ^ 32" using n(2) assms(2) by simp
  note g = reachability_index_graph [of p "build_component_index p", unfolded sorted, folded assms(1)]
  have len: "length (ri_dependencies ri) = length names" using g(1) by simp
  have ds: "unat d < length names" if "ds \<in> set (ri_dependencies ri)" "d \<in> set ds" for ds d
  proof -
    from that(1) g(1) obtain m where m: "ds = fst (collect_direct_component_dependencies p m (map_of (build_component_index p)))" by auto
    obtain hr where "collect_direct_component_dependencies p m (map_of (build_component_index p)) = (ds, hr)" using m by (metis prod.collapse)
    from direct_dependencies_exact(2) [OF this] that(2) obtain name where "map_of (build_component_index p) name = Some d" by auto
    with numbered_at [OF l, of name d] n(1) show ?thesis by simp
  qed
  show range: "deps_in_range (ri_dependencies ri)" using len l ds by (auto simp: deps_in_range_def)
  let ?direct = "map (\<lambda>m. snd (collect_direct_component_dependencies p m (map_of (build_component_index p)))) names"
  have dl: "length ?direct = length (ri_dependencies ri)" using len by simp
  have routes: "length (ri_route_dependent ri) = length names"
  proof (cases "names = []")
    case True
    with g show ?thesis by (simp add: propagate_route_dependencies_def reverse_edges_def)
  next
    case False
    then have "0 < length (ri_dependencies ri)" using len by simp
    from propagate_routes_exact(2) [OF range dl this] g(2) len show ?thesis by simp
  qed
  show "ri_closed ri" using len l ds routes n(2) by (auto simp: ri_closed_def)
  assume i: "unat i < length (ri_names ri)"
  then have "leads_to_route ri i \<longleftrightarrow> ri_route_dependent ri ! unat i" using routes n(2) by (simp add: leads_to_route_def is_route_dependent_def get_at_def)
  also have "\<dots> \<longleftrightarrow> (\<exists>t \<in> marked ?direct. (unat i, t) \<in> (depends (ri_dependencies ri))\<^sup>*)"
    using propagate_routes_exact(1) [OF range dl, of "unat i"] i n(2) len g(2) by simp
  also have "marked ?direct = {t. t < length names \<and> (\<exists>v \<in> inline_records p (names ! t). routes_in p v)}"
    using direct_dependencies_exact(3) [of p _ "map_of (build_component_index p)"]
    by (auto simp: marked_def) (metis prod.collapse)+
  finally show "leads_to_route ri i \<longleftrightarrow>
       (\<exists>t. t < length (ri_names ri) \<and> (unat i, t) \<in> (depends (ri_dependencies ri))\<^sup>* \<and> (\<exists>v \<in> inline_records p (ri_names ri ! t). routes_in p v))"
    using n(2) by auto
qed

section \<open>What a checkpoint commits\<close>

lemma commit_bits_exact:
  assumes "\<forall>i \<in> set tags. byte_idx i < length inventory" "length delta = length inventory"
  shows "\<exists>inventory' delta'. commit_bits tags inventory delta = Inr (inventory', delta') \<and>
    (\<forall>i. has_component inventory' i \<longleftrightarrow> has_component inventory i \<or> i \<in> set tags) \<and>
    (\<forall>i. has_component delta' i \<longleftrightarrow> has_component delta i \<or> (i \<in> set tags \<and> \<not> has_component inventory i)) \<and>
    length inventory' = length inventory"
  using assms
proof (induction tags arbitrary: inventory delta)
  case (Cons i tags)
  have i: "byte_idx i < length inventory" "byte_idx i < length delta" using Cons.prems by auto
  show ?case
  proof (cases "has_component inventory i")
    case True
    from Cons.IH [of inventory delta] Cons.prems True i show ?thesis by (auto simp: seen_bit_has)
  next
    case False
    have "\<forall>j \<in> set tags. byte_idx j < length (set_bit_in inventory i)" "length (set_bit_in delta i) = length (set_bit_in inventory i)"
      using Cons.prems by simp_all
    from Cons.IH [OF this] False i show ?thesis by (auto simp: seen_bit_has has_set_bit_in)
  qed
qed simp

lemma used_bytes_zero: "used_bytes bytes \<le> n \<Longrightarrow> n < length bytes \<Longrightarrow> bytes ! n = 0"
proof -
  assume a: "used_bytes bytes \<le> n" "n < length bytes"
  let ?zeros = "takeWhile (\<lambda>b. b = 0) (rev bytes)"
  have "length ?zeros + used_bytes bytes = length bytes"
    unfolding used_bytes_def by (metis length_append length_rev takeWhile_dropWhile_id)
  then have k: "length bytes - Suc n < length ?zeros" using a by linarith
  then have "?zeros ! (length bytes - Suc n) = 0" by (meson nth_mem set_takeWhileD)
  then have "rev bytes ! (length bytes - Suc n) = 0" using takeWhile_nth [OF k] by simp
  then show ?thesis using a(2) by (simp add: rev_nth)
qed

lemma has_component_used: "has_component (take (used_bytes bytes) bytes) i \<longleftrightarrow> has_component bytes i"
proof (cases "unat i div 8 < used_bytes bytes")
  case True
  then show ?thesis by (simp add: has_component_bit)
next
  case False
  then have "unat i div 8 < length bytes \<Longrightarrow> bytes ! (unat i div 8) = 0" using used_bytes_zero [of bytes "unat i div 8"] by simp
  with False show ?thesis by (auto simp: has_component_bit)
qed

definition sample_index :: reachability_index where
  "sample_index = reachability_index_new sample_keys (build_component_index sample_keys)"

section \<open>Properties\<close>

text \<open>
  C22. A record delivers the surface of what it rendered.  After any sequence of components has
  been recorded, each under the route base it rendered at, expanding the capture gives, without duplicates, exactly the components
  that are reachable from them; when one of them reaches a component that renders a route, the capture is
  left for the request-aware walk instead, whose roots are then every recorded component, the route-dependent ones with each of their bases.
  Reachable means along the dependencies of the index, which are those of the fragments (\<open>direct_dependencies_exact\<close>).
\<close>

theorem checkpoint_capture_exact:
  assumes "ri = reachability_index_new p (build_component_index p)" "length (ri_names ri) \<le> 2 ^ 32"
    and "length (cap_seen c) = div_ceil8 (length (ri_names ri))" "\<forall>i \<in> fst ` set recs. unat i < length (ri_names ri)"
    and "c' = fold (\<lambda>(i, b). record_index ri i b) recs (capture_clear c)"
    and "to_route = {i. \<exists>t. t < length (ri_names ri) \<and> (unat i, t) \<in> (depends (ri_dependencies ri))\<^sup>* \<and>
      (\<exists>v \<in> inline_records p (ri_names ri ! t). routes_in p v)}"
  shows "if fst ` set recs \<inter> to_route \<noteq> {}
    then expand_static_checkpoint_reachability ri c' = Inr (False, c') \<and>
      set (cap_walk_roots c') = {(i, None) |i. i \<in> fst ` set recs - to_route} \<union> {(i, Some b) |i b. (i, b) \<in> set recs \<and> i \<in> to_route}
    else \<exists>c''. expand_static_checkpoint_reachability ri c' = Inr (True, c'') \<and> distinct (cap_tags c'') \<and>
      set (cap_tags c'') = reach_from (depends_on ri) (fst ` set recs)"
proof -
  note closed = index_closed [OF assms(1,2)]
  have leads: "i \<in> fst ` set recs \<Longrightarrow> leads_to_route ri i \<longleftrightarrow> i \<in> to_route" for i
    using closed(3) [of i] assms(4) unfolding assms(6) by blast
  have len: "length (ri_names ri) \<le> 8 * length (cap_seen (capture_clear c))"
    using assms(3) by (simp add: capture_clear_def div_ceil8_def)
  have bound: "byte_idx i < length (cap_seen (capture_clear c))" if "(i, b) \<in> set recs" for i b
  proof -
    from that assms(4) have "unat i < length (ri_names ri)" by force
    with len show ?thesis by (simp add: byte_idx_eq less_mult_imp_div_less mult.commute)
  qed
  then have "\<forall>(i, b) \<in> set recs. byte_idx i < length (cap_seen (capture_clear c))" by blast
  from captured_fold [OF this captured_clear] have cap: "captured ri recs c'" "length (cap_seen c') = length (cap_seen (capture_clear c))"
    using assms(5) by auto
  have len': "length (ri_names ri) \<le> 8 * length (cap_seen c')" using len cap(2) by simp
  note e = expand_capture [OF closed(2) len' cap(1) assms(4)]
  show ?thesis
  proof (cases "fst ` set recs \<inter> to_route = {}")
    case True
    with leads have "\<not> (\<exists>i \<in> fst ` set recs. leads_to_route ri i)" by blast
    with e True show ?thesis by auto
  next
    case False
    with leads have r: "\<exists>i \<in> fst ` set recs. leads_to_route ri i" by blast
    then have "set (cap_walk_roots c') = {(i, None) |i. i \<in> fst ` set recs \<and> \<not> leads_to_route ri i} \<union>
        {(i, Some b) |i b. (i, b) \<in> set recs \<and> leads_to_route ri i}" using cap(1) unfolding captured_def by auto
    also have "\<dots> = {(i, None) |i. i \<in> fst ` set recs - to_route} \<union> {(i, Some b) |i b. (i, b) \<in> set recs \<and> i \<in> to_route}"
      using leads by force
    finally show ?thesis using e r False by simp
  qed
qed

theorem checkpoint_capture_exact_witness:
  "\<exists>c. expand_static_checkpoint_reachability sample_index (record_index sample_index 0 ''/'' (capture_new 2)) = Inr (True, c) \<and>
     reach_from (depends_on sample_index) {0} = {0, 1}"
proof -
  let ?to_route = "{i. \<exists>t. t < length (ri_names sample_index) \<and> (unat i, t) \<in> (depends (ri_dependencies sample_index))\<^sup>* \<and>
      (\<exists>v \<in> inline_records sample_keys (ri_names sample_index ! t). routes_in sample_keys v)}"
  let ?c = "record_index sample_index 0 ''/'' (capture_new 2)"
  have n: "length (ri_names sample_index) = 2" by code_simp
  have len: "length (ri_names sample_index) \<le> 2 ^ 32" unfolding n by simp
  have seen: "length (cap_seen (capture_new 2)) = div_ceil8 (length (ri_names sample_index))" unfolding n by code_simp
  have roots: "\<forall>i \<in> fst ` set [(0 :: u32, ''/'')]. unat i < length (ri_names sample_index)" unfolding n by simp
  have fold: "?c = fold (\<lambda>(i, b). record_index sample_index i b) [(0, ''/'')] (capture_clear (capture_new 2))"
    by (simp add: capture_new_def capture_clear_def map_replicate_const)
  obtain c where e: "expand_static_checkpoint_reachability sample_index ?c = Inr (True, c)" "cap_tags c = [0, 1]"
  proof -
    have "(case expand_static_checkpoint_reachability sample_index ?c of Inr (b, c) \<Rightarrow> b \<and> cap_tags c = [0, 1] | Inl _ \<Rightarrow> False)" by code_simp
    with that show thesis by (auto split: sum.splits)
  qed
  have "set (cap_tags c) = reach_from (depends_on sample_index) (fst ` set [(0, ''/'')])"
    using checkpoint_capture_exact [OF sample_index_def len seen roots fold refl] e by (auto split: if_splits)
  with e show ?thesis by auto
qed

text \<open>
  C23. A record announces each component once.  Committing a checkpoint adds its tags to the
  inventory; the hex digits it writes, read by the parser of inventories, are exactly the tags that no
  earlier record of the response has announced.
\<close>

theorem inventory_delta_exact:
  assumes "\<forall>i \<in> set (cap_tags ss). byte_idx i < length (ss_inventory ss)"
  shows "\<exists>ss' bits. commit_checkpoint_inventory ss = Inr ss' \<and> parse_inventory (ss_inventory_hex ss') = Inr bits \<and>
    (\<forall>i. has_component bits i \<longleftrightarrow> i \<in> set (cap_tags ss) \<and> \<not> has_component (ss_inventory ss) i) \<and>
    (\<forall>i. has_component (ss_inventory ss') i \<longleftrightarrow> has_component (ss_inventory ss) i \<or> i \<in> set (cap_tags ss))"
proof -
  have "length (map (\<lambda>_. 0) (ss_inventory ss) :: u8 list) = length (ss_inventory ss)" by simp
  from commit_bits_exact [OF assms this] obtain inventory delta where
    "commit_bits (cap_tags ss) (ss_inventory ss) (map (\<lambda>_. 0) (ss_inventory ss)) = Inr (inventory, delta)"
    "\<forall>i. has_component inventory i \<longleftrightarrow> has_component (ss_inventory ss) i \<or> i \<in> set (cap_tags ss)"
    "\<forall>i. has_component delta i \<longleftrightarrow> i \<in> set (cap_tags ss) \<and> \<not> has_component (ss_inventory ss) i" by auto
  then show ?thesis by (simp add: commit_checkpoint_inventory_def parse_encode_inventory has_component_used)
qed

theorem inventory_delta_exact_witness:
  "\<exists>ss bits. commit_checkpoint_inventory ((progress_new 2 0)\<lparr>cap_tags := [1], ss_inventory := [1]\<rparr>) = Inr ss \<and>
     parse_inventory (ss_inventory_hex ss) = Inr bits \<and> has_component bits 1 \<and> \<not> has_component bits 0"
proof -
  let ?ss = "(progress_new 2 0)\<lparr>cap_tags := [1], ss_inventory := [1]\<rparr>"
  have "\<forall>i \<in> set (cap_tags ?ss). byte_idx i < length (ss_inventory ?ss)" by (simp add: byte_idx_eq)
  from inventory_delta_exact [OF this] obtain ss bits where
    b: "commit_checkpoint_inventory ?ss = Inr ss" "parse_inventory (ss_inventory_hex ss) = Inr bits"
       "\<forall>i. has_component bits i \<longleftrightarrow> i \<in> set (cap_tags ?ss) \<and> \<not> has_component (ss_inventory ?ss) i" by blast
  have "\<not> has_component [1] (1 :: u32)" by code_simp
  with b(3) have "has_component bits 1" "\<not> has_component bits 0" by simp_all
  with b(1,2) show ?thesis by blast
qed

end
