(* ===== verification/Spec2Isabelle.thy ===== *)
theory Spec2Isabelle
  imports Expressions Condition_Print Handlebars Streaming_Sink Protocol_Check Ipc_Run Lazy_Select Render_Total Stream_Record
begin

text \<open>
  A verification library for WebUI, a compiler of HTML templates to a binary protocol and a
  server-side renderer of that protocol, with a desktop shell that talks to its pages over a
  typed IPC channel.

  \<^bold>\<open>The parts and how they interact.\<close>
  The compiler (\<open>crates/webui-parser\<close>) turns templates into fragment records: it parses
  conditions and handlebars expressions.  The records, the styles and the routes make up a
  \<open>WebUIProtocol\<close> (\<open>crates/webui-protocol\<close>), which is validated when it is read.  The handler
  (\<open>crates/webui-handler\<close>) prepares the protocol once and then renders it against a JSON state:
  it looks paths up (\<open>crates/webui-state\<close>), evaluates conditions (\<open>crates/webui-expressions\<close>),
  matches routes, encodes text and writes to a \<open>ResponseWriter\<close>, which may be a streaming sink.
  The desktop shell (\<open>crates/webui-desktop\<close>) exchanges frames with a page; payloads are validated
  before a handler sees them.

  \<^bold>\<open>Theories, in the order of their imports, with the sources they model.\<close>
    \<^item> \<open>Prelude\<close>, \<open>Rust_Str\<close>, \<open>Rust_Num\<close>: results, \<open>Cow\<close>, string functions over UTF-8 bytes and doubles as
      rounded rationals: what the sources use of Rust's standard library.
    \<^item> \<open>Json_State\<close> (\<open>webui-state/src/lib.rs\<close>): JSON values and dotted paths.  C34.
    \<^item> \<open>Conditions\<close>, \<open>Expressions\<close> (\<open>webui-expressions/src/lib.rs\<close>): the operator count with its inline stack
      as a step relation, and the short-circuiting evaluator over a resolver.  C16.
    \<^item> \<open>Condition_Parser\<close>, \<open>Condition_Print\<close> (\<open>webui-parser/src/condition_parser.rs\<close>): the condition parser,
      its round trip and the inputs it mishandles.  C33.
    \<^item> \<open>Handlebars\<close> (\<open>webui-parser/src/handlebars_parser.rs\<close>): C32.
    \<^item> \<open>Html_Encode\<close> (\<open>webui-handler/src/html_encode.rs\<close>): C5.
    \<^item> \<open>Response_Writer\<close>, \<open>Streaming_Sink\<close> (\<open>response_writer.rs\<close>, \<open>streaming/mod.rs\<close>): the writer contract as a locale
      with the string, byte and buffer writers as its interpretations; a sink over any flushable
      transport, as the locale \<open>flushing_transport\<close>.  C8.
    \<^item> \<open>Route_Matcher\<close> (\<open>route_matcher.rs\<close>, \<open>route_renderer.rs\<close>): templates, percent decoding, the compiled index
      and the choice among siblings.  C17, C18, C35, C39.
    \<^item> \<open>Ipc_Error\<close>, \<open>Ipc_Limits\<close>, \<open>Ipc_Wire\<close>, \<open>Ipc_Codec\<close>, \<open>Ipc_Validation\<close> (\<open>webui-desktop/src/ipc\<close>): errors, limits, the
      envelope, the payload codec and the table-driven validator.  C6, C7, C31, C36, C37.
    \<^item> \<open>Ipc_Budget\<close> (\<open>ipc/executor.rs\<close>): budgets and permits as interleaved atomic accesses.  C30.
    \<^item> \<open>Ipc_Engine\<close> (\<open>ipc/registry.rs\<close>, \<open>engine.rs\<close>, \<open>bridge.rs\<close>, \<open>session.rs\<close>, \<open>admission.rs\<close>, \<open>credentials.rs\<close>): the
      contract of a frame, the state behind the engine's lock, and every region of code that runs under it.
    \<^item> \<open>Ipc_Document\<close>: what each region does to the accounting, the open calls and the queue of a document.
    \<^item> \<open>Ipc_System\<close>, \<open>Ipc_Run\<close>: the regions as the steps of a concurrent system, whose threads between two regions are a
      multiset of tasks; the invariant of its reachable states, and a run of it.
      C9, C10, C11, C12, C13, C14, C29.
    \<^item> \<open>Protocol\<close>, \<open>Style_Closures\<close>, \<open>Asset_Base\<close>, \<open>Protocol_Check\<close> (\<open>webui-protocol/src\<close>): messages, style closures
      and bundles, the public asset base, and \<open>validate_protocol\<close>.  C3, C15, C38, C40.
    \<^item> \<open>Render_Scope\<close>, \<open>Render_Resolve\<close> (\<open>webui-handler/src/lib.rs\<close>): \<open>BorrowedScope\<close>, pools, and the three resolvers.
      The locale \<open>scope_map\<close> is the contract of a scope.  C20, C21.
    \<^item> \<open>Render_Plan\<close> (\<open>lib.rs\<close>, \<open>route_handler.rs\<close>, \<open>attrs.rs\<close>): \<open>RenderFragmentIndex\<close> and its binary search.  C19.
    \<^item> \<open>Route_Walk\<close> (\<open>route_handler.rs\<close>): the chain of routes a request matches and the components it
      reaches, as work lists with a visited set.  C4.
    \<^item> \<open>Lazy_Index\<close>, \<open>Lazy_Select\<close> (\<open>lazy/index.rs\<close>, \<open>lazy/mod.rs\<close>, \<open>lazy/scope.rs\<close>): which records lead to a lazy
      condition, and the machine that selects those that hold for a request.  C27, C28.
    \<^item> \<open>Render_Doc\<close>, \<open>Render_Core\<close>, \<open>Render_Main\<close> (\<open>lib.rs\<close>, \<open>css_module.rs\<close>, \<open>route_renderer.rs\<close>, \<open>route_handler.rs\<close>): the
      document part of a render (hooks, styles, assets, routes), the fragment interpreter
      \<open>process_fragment_target\<close>, loading a protocol and \<open>WebUIHandler::render\<close>.
    \<^item> \<open>Render_Lexical\<close>: a reference interpreter of templates over an environment of names, and the simulation
      between it and \<open>render\<close>.  C1.
    \<^item> \<open>Stream_Inventory\<close>, \<open>Stream_Reach\<close>, \<open>Stream_Keys\<close> (\<open>route_handler.rs\<close>, \<open>lib.rs\<close>): bitsets of components, the integer graph of
      components, and the state keys they need, by name and interned.  C24, C25.
    \<^item> \<open>Stream_State\<close>, \<open>Stream_Bootstrap\<close>, \<open>Stream_Record\<close> (\<open>streaming/state.rs\<close>, \<open>checkpoint.rs\<close>, \<open>inventory.rs\<close>,
      \<open>webui-framework/src/streaming-record-state.ts\<close>): the retained state of a streamed response, what a record says about it and how
      the browser reads that, and the components a record delivers.  C22, C23, C26.
    \<^item> \<open>Render_Total\<close>: renders of protocols without reference cycles end.  C2.

  \<^bold>\<open>State and operations.\<close>
  A struct is a record with the source's fields, an enum a datatype, a hash map an association
  list or a map, a fallible function returns \<open>result\<close>.  A Rust string is the list of its UTF-8
  bytes, one \<open>char\<close> each; integers whose width matters are words.  \<open>WebUIProcessContext\<close> is split
  into \<open>env\<close> (only read), \<open>doc\<close> (what routes, styles and hooks change) and \<open>ctx\<close> (the scope).  The
  writer is a type variable with its operations as arguments, so every property of a render
  holds for a writer that fails at any point.

  \<^bold>\<open>Fuel and bounds.\<close>
  Only the interpreter takes fuel, for the nesting of \<open>process_fragment_target\<close>, because references
  between records may be cyclic; running out is the outcome \<open>OutOfFuel\<close>, apart from the errors
  of the program.  C1 holds at every amount of fuel, and C2 gives an amount, computed from the
  protocol, that is enough when there is no cycle.  All other loops are functions with
  termination proofs.  C19, C1 and C2 assume that the sizes of a render plan fit 32 bits, the
  width of its fields, and C20, C1 and C2 that loop variables contain no dot.

  \<^bold>\<open>Arguments of the model.\<close>
  In the IPC system the answers of the budgets, the clock, the random bytes, the results of handlers and whether the thread pool takes a
  task are arbitrary in every step.  JSON printing and the texts of library errors, Unicode tables, the generated payload tables and
  the operating system's transport are arguments.

  \<^bold>\<open>Not modelled.\<close>
  Hydration plugins (the renderer is \<open>WebUIHandler::new\<close>, without one), streaming sessions and the
  checkpoint machine of \<open>streaming/session.rs\<close> and \<open>streaming/vm.rs\<close>, partial navigation, the HTML
  and CSS compiler apart from its two expression parsers, the build API, the command line and
  its servers (file system and processes), the bindings to other languages and the windowing code
  (foreign calls), and the release tooling.
\<close>

end
